(* ===== verification/Prelude.thy ===== *)
theory Prelude
  imports Main "HOL-Library.Word"
begin

unbundle bit_operations_syntax

text \<open>
  Shared vocabulary of the development: the fixed-width integer types of
  src/src/kernel/kernel.h, physical memory as a function from 64-bit addresses to bytes,
  little-endian loads and stores of 16, 32 and 64 bits over it, and the generic facts on
  words, address ranges and bounded searches that the component theories share.

  Conventions used by every component theory.  An address or a size is a \<open>u64\<close> word, so
  that C++ wrap-around is the wrap-around of the model.  The index of a \<open>for\<close> loop whose
  bound is known to be below \<open>2 ^ 32\<close> is a \<open>nat\<close>: it cannot wrap.  A search loop that
  leaves at the first hit is \<open>find P [0..<n]\<close>, an update loop is a \<open>fold\<close> over
  \<open>[0..<n]\<close>.
\<close>

section \<open>Integer types and memory\<close>

type_synonym u8 = "8 word"
type_synonym u16 = "16 word"
type_synonym u32 = "32 word"
type_synonym u64 = "64 word"
type_synonym i32 = "32 word"
type_synonym i64 = "64 word"
type_synonym usize = "64 word"

type_synonym ram = "u64 \<Rightarrow> u8"

text \<open>
  \<open>ram_simps\<close> collects the read-over-write equations of memory, \<open>addr_simps\<close> the facts
  that turn word arithmetic on addresses into arithmetic on \<open>nat\<close>.
\<close>

named_theorems ram_simps "read-over-write equations of memory"
named_theorems addr_simps "address arithmetic as arithmetic on nat"

fun le_bytes :: "nat \<Rightarrow> 'a::len word \<Rightarrow> u8 list" where
  "le_bytes 0 w = []"
| "le_bytes (Suc n) w = ucast w # le_bytes n (drop_bit 8 w)"

fun of_le :: "u8 list \<Rightarrow> 'a::len word" where
  "of_le [] = 0"
| "of_le (b # bs) = ucast b OR push_bit 8 (of_le bs)"

fun read_bytes :: "ram \<Rightarrow> u64 \<Rightarrow> nat \<Rightarrow> u8 list" where
  "read_bytes m a 0 = []"
| "read_bytes m a (Suc n) = m a # read_bytes m (a + 1) n"

fun write_bytes :: "ram \<Rightarrow> u64 \<Rightarrow> u8 list \<Rightarrow> ram" where
  "write_bytes m a [] = m"
| "write_bytes m a (b # bs) = write_bytes (m(a := b)) (a + 1) bs"

definition load16 :: "ram \<Rightarrow> u64 \<Rightarrow> u16" where
  "load16 m a = of_le (read_bytes m a 2)"

definition load32 :: "ram \<Rightarrow> u64 \<Rightarrow> u32" where
  "load32 m a = of_le (read_bytes m a 4)"

definition load64 :: "ram \<Rightarrow> u64 \<Rightarrow> u64" where
  "load64 m a = of_le (read_bytes m a 8)"

definition store16 :: "ram \<Rightarrow> u64 \<Rightarrow> u16 \<Rightarrow> ram" where
  "store16 m a v = write_bytes m a (le_bytes 2 v)"

definition store32 :: "ram \<Rightarrow> u64 \<Rightarrow> u32 \<Rightarrow> ram" where
  "store32 m a v = write_bytes m a (le_bytes 4 v)"

definition store64 :: "ram \<Rightarrow> u64 \<Rightarrow> u64 \<Rightarrow> ram" where
  "store64 m a v = write_bytes m a (le_bytes 8 v)"

text \<open>
  \<open>sep a n b k\<close>: the \<open>n\<close> bytes from \<open>a\<close> and the \<open>k\<close> bytes from \<open>b\<close> are
  disjoint, measured around the 64-bit address circle, so that no side condition on
  wrap-around is needed.  \<open>in_range a n x\<close>: \<open>x\<close> is one of the \<open>n\<close> bytes from \<open>a\<close>.
\<close>

definition sep :: "u64 \<Rightarrow> nat \<Rightarrow> u64 \<Rightarrow> nat \<Rightarrow> bool" where
  "sep a n b k \<longleftrightarrow> n \<le> unat (b - a) \<and> k \<le> unat (a - b)"

definition in_range :: "u64 \<Rightarrow> nat \<Rightarrow> u64 \<Rightarrow> bool" where
  "in_range a n x \<longleftrightarrow> unat (x - a) < n"

section \<open>Little-endian encoding\<close>

lemma unat_lt_u64 [simp]: "unat (w :: u64) < 18446744073709551616"
proof -
  have "unat w < 2 ^ LENGTH(64)" by (rule unsigned_less)
  then show ?thesis by simp
qed

lemma length_le_bytes [simp]: "length (le_bytes n w) = n"
  by (induction n w rule: le_bytes.induct) auto

lemma length_read_bytes [simp]: "length (read_bytes m a n) = n"
  by (induction n arbitrary: a) auto

lemma bit_of_le:
  "bit (of_le bs :: 'a::len word) i \<longleftrightarrow>
     i < LENGTH('a) \<and> i < 8 * length bs \<and> bit (bs ! (i div 8)) (i mod 8)"
proof (induction bs arbitrary: i)
  case Nil
  then show ?case by simp
next
  case (Cons b bs)
  have lt8: "bit b i \<Longrightarrow> i < 8" for i
    using bit_imp_le_length [of b i] by simp
  show ?case
  proof (cases "i < 8")
    case True
    then show ?thesis
      by (auto simp: bit_simps)
  next
    case False
    then have idx: "i div 8 = Suc ((i - 8) div 8)" and md: "i mod 8 = (i - 8) mod 8"
      by (simp_all add: le_div_geq le_mod_geq)
    have nb: "\<not> bit b i"
      using False lt8 by blast
    show ?thesis
      using False nb Cons.IH [of "i - 8"] by (auto simp: bit_simps idx md)
  qed
qed

lemma nth_le_bytes: "i < n \<Longrightarrow> le_bytes n w ! i = ucast (drop_bit (8 * i) w)"
  by (induction n arbitrary: w i) (auto simp: nth_Cons add.commute split: nat.splits)

lemma of_le_le_bytes:
  fixes w :: "'a::len word"
  assumes "LENGTH('a) \<le> 8 * n"
  shows "of_le (le_bytes n w) = w"
proof (rule bit_word_eqI)
  fix i
  assume i: "i < LENGTH('a)"
  with assms have "i div 8 < n" by simp
  moreover have "8 * (i div 8) + i mod 8 = i" by simp
  ultimately show "bit (of_le (le_bytes n w) :: 'a word) i \<longleftrightarrow> bit w i"
    using i assms by (simp add: bit_of_le nth_le_bytes bit_simps)
qed

lemma le_bytes_of_le:
  assumes "8 * length bs \<le> LENGTH('a::len)"
  shows "le_bytes (length bs) (of_le bs :: 'a word) = bs"
proof (rule nth_equalityI)
  fix i
  assume "i < length (le_bytes (length bs) (of_le bs :: 'a word))"
  then have i: "i < length bs" by simp
  have "8 * i + j < LENGTH('a)" "8 * i + j < 8 * length bs" if "j < 8" for j
    using that i assms by linarith+
  moreover have "(8 * i + j) div 8 = i" "(8 * i + j) mod 8 = j" if "j < 8" for j
    using that by simp_all
  ultimately show "le_bytes (length bs) (of_le bs :: 'a word) ! i = bs ! i"
    using i by (intro bit_word_eqI) (simp add: nth_le_bytes bit_simps bit_of_le)
qed simp

section \<open>Address ranges\<close>

lemma in_range_self [simp]: "in_range a n a \<longleftrightarrow> 0 < n"
  by (simp add: in_range_def)

lemma in_range_0 [simp]: "\<not> in_range a 0 x"
  by (simp add: in_range_def)

lemma sep_commute: "sep a n b k \<Longrightarrow> sep b k a n"
  by (simp add: sep_def)

lemma sep_mono: "sep a n b k \<Longrightarrow> n' \<le> n \<Longrightarrow> k' \<le> k \<Longrightarrow> sep a n' b k'"
  by (auto simp: sep_def)

lemma unat_diff_flip: "a \<noteq> b \<Longrightarrow> unat (a - b) + unat (b - a) = 2 ^ 64"
  for a b :: u64
  using unat_lt_u64 [of a] unat_lt_u64 [of b]
  by (auto simp: unat_sub_if' word_unat_eq_iff simp del: unat_lt_u64)

lemma unat_add_small: "unat a + unat b < 2 ^ 64 \<Longrightarrow> unat (a + b) = unat a + unat b"
  for a b :: u64
  by (simp add: unat_plus_if')

lemma unat_of_nat_small [simp]: "i < 18446744073709551616 \<Longrightarrow> unat (of_nat i :: u64) = i"
  by (simp add: unat_of_nat)

lemma in_range_offset:
  "in_range a n x \<longleftrightarrow> (\<exists>i < n. i < 2 ^ 64 \<and> x = a + of_nat i)"
proof
  assume "in_range a n x"
  moreover have "x = a + of_nat (unat (x - a))"
    by (simp only: of_nat_unat ucast_id) simp
  moreover have "unat (x - a) < 2 ^ 64" by simp
  ultimately show "\<exists>i < n. i < 2 ^ 64 \<and> x = a + of_nat i"
    unfolding in_range_def by blast
next
  assume "\<exists>i < n. i < 2 ^ 64 \<and> x = a + of_nat i"
  then show "in_range a n x" by (auto simp: in_range_def)
qed

lemma sep_not_in_range:
  assumes "sep a n b k" and "in_range b k x"
  shows "\<not> in_range a n x"
proof (cases "a = b")
  case True
  with assms show ?thesis by (simp add: sep_def in_range_def)
next
  case False
  let ?d = "unat (b - a)" and ?i = "unat (x - b)"
  from assms have d: "n \<le> ?d" and i: "?i < k" and k: "k \<le> unat (a - b)"
    by (auto simp: sep_def in_range_def)
  have "?d + unat (a - b) = 2 ^ 64"
    using unat_diff_flip [of b a] False by simp
  with i k have "?d + ?i < 2 ^ 64" by linarith
  then have "unat ((b - a) + (x - b)) = ?d + ?i" by (rule unat_add_small)
  with d show ?thesis by (simp add: in_range_def)
qed

lemma sep_offsets:
  assumes "i + n \<le> j" and "i < j" and "j + k \<le> 2 ^ 64 + i" and "j < 2 ^ 64"
  shows "sep (base + of_nat i) n (base + of_nat j) k"
proof -
  let ?x = "of_nat i :: u64" and ?y = "of_nat j :: u64"
  have u: "unat ?x = i" "unat ?y = j" using assms by simp_all
  then have "unat (?y - ?x) = j - i" "unat (?x - ?y) = i + 2 ^ 64 - j"
    using assms(2) by (simp_all add: unat_sub_if')
  moreover have "(base + ?y) - (base + ?x) = ?y - ?x" "(base + ?x) - (base + ?y) = ?x - ?y"
    by simp_all
  moreover have "n \<le> j - i" "k \<le> i + 2 ^ 64 - j" using assms by linarith+
  ultimately show ?thesis by (simp only: sep_def)
qed

lemma sep_sub:
  assumes "sep a n b k" "i + j \<le> k" "0 < j"
  shows "sep a n (b + of_nat i) j"
proof -
  have k: "n \<le> unat (b - a)" "k \<le> unat (a - b)" using assms(1) by (simp_all add: sep_def)
  have lt: "unat (a - b) < 2 ^ 64" "unat (b - a) < 2 ^ 64" by simp_all
  from k assms have "a \<noteq> b" by auto
  then have sum: "unat (a - b) + unat (b - a) = 2 ^ 64" by (rule unat_diff_flip)
  have "i < 2 ^ 64" using lt k assms(2, 3) by linarith
  then have i: "unat (of_nat i :: u64) = i" by simp
  have u1: "unat ((b - a) + of_nat i) = unat (b - a) + i"
    using sum k assms(2, 3) i by (subst unat_add_small) simp_all
  have u2: "unat ((a - b) - of_nat i) = unat (a - b) - i"
    using k assms(2, 3) i by (subst unat_sub_if') simp
  have e: "b + of_nat i - a = (b - a) + of_nat i" "a - (b + of_nat i) = (a - b) - of_nat i"
    by simp_all
  show ?thesis unfolding sep_def e u1 u2 using k assms(2, 3) by auto
qed

lemma sep_in_range_iff: "sep a n b k \<Longrightarrow> in_range b k x \<Longrightarrow> in_range a n x \<longleftrightarrow> False"
  using sep_not_in_range by blast

section \<open>Reading what was written\<close>

lemma write_bytes_apply:
  "length bs \<le> 2 ^ 64 \<Longrightarrow>
   write_bytes m a bs x = (if in_range a (length bs) x then bs ! unat (x - a) else m x)"
proof (induction bs arbitrary: m a)
  case Nil
  then show ?case by simp
next
  case (Cons b bs)
  have IH: "write_bytes (m(a := b)) (a + 1) bs x =
      (if in_range (a + 1) (length bs) x then bs ! unat (x - (a + 1)) else (m(a := b)) x)"
    using Cons by simp
  show ?case
  proof (cases "x = a")
    case True
    have "unat (a - (a + 1)) = 2 ^ 64 - 1" by (simp add: unsigned_minus_1_eq_mask mask_eq_exp_minus_1)
    with Cons.prems have "\<not> in_range (a + 1) (length bs) a"
      by (simp add: in_range_def)
    with IH True show ?thesis by simp
  next
    case False
    then have "unat (x - a) = Suc (unat (x - (a + 1)))"
      using unat_minus_one [of "x - a"] unat_gt_0 [of "x - a"]
      by (simp add: diff_diff_eq)
    with IH False show ?thesis by (simp add: in_range_def)
  qed
qed

lemma nth_read_bytes: "i < n \<Longrightarrow> read_bytes m a n ! i = m (a + of_nat i)"
  by (induction n arbitrary: a i) (auto simp: nth_Cons add.assoc split: nat.splits)

lemma read_bytes_cong:
  "(\<And>x. in_range a n x \<Longrightarrow> m x = m' x) \<Longrightarrow> n \<le> 2 ^ 64 \<Longrightarrow> read_bytes m a n = read_bytes m' a n"
  by (rule nth_equalityI) (auto simp: nth_read_bytes in_range_def)

lemma read_write_bytes_same:
  "length bs \<le> 2 ^ 64 \<Longrightarrow> read_bytes (write_bytes m a bs) a (length bs) = bs"
  by (rule nth_equalityI) (auto simp: nth_read_bytes write_bytes_apply in_range_def)

lemma read_write_bytes_sep:
  assumes "sep a (length bs) b k" "length bs \<le> 2 ^ 64" "k \<le> 2 ^ 64"
  shows "read_bytes (write_bytes m a bs) b k = read_bytes m b k"
  using assms by (intro read_bytes_cong) (auto simp: write_bytes_apply dest: sep_not_in_range)

lemma load64_store64_same [simp, ram_simps]: "load64 (store64 m a v) a = v"
proof -
  have "read_bytes (store64 m a v) a 8 = le_bytes 8 v"
    using read_write_bytes_same [of "le_bytes 8 v" m a] by (simp add: store64_def)
  then show ?thesis by (simp add: load64_def of_le_le_bytes)
qed

lemma store64_frame: "sep a 8 b k \<Longrightarrow> k \<le> 2 ^ 64 \<Longrightarrow> read_bytes (store64 m a v) b k = read_bytes m b k"
  by (simp add: store64_def read_write_bytes_sep)

lemma load64_store64_sep [ram_simps]: "sep a 8 b 8 \<Longrightarrow> load64 (store64 m a v) b = load64 m b"
  by (simp add: load64_def store64_frame)

lemma load64_upd_sep [ram_simps]: "sep a 1 b 8 \<Longrightarrow> load64 (m(a := v)) b = load64 m b"
  using read_write_bytes_sep [of a "[v]" b 8 m] by (simp add: load64_def)

lemma store64_apply [ram_simps]:
  "store64 m a v x = (if in_range a 8 x then le_bytes 8 v ! unat (x - a) else m x)"
  by (simp add: store64_def write_bytes_apply)

lemma store64_other [ram_simps]: "\<not> in_range a 8 x \<Longrightarrow> store64 m a v x = m x"
  by (simp add: store64_apply)

lemma load64_cong: "(\<And>x. in_range a 8 x \<Longrightarrow> m x = m' x) \<Longrightarrow> load64 m a = load64 m' a"
  unfolding load64_def using read_bytes_cong [of a 8 m m'] by simp

section \<open>Casts\<close>

lemma unat_ucast_up:
  fixes x :: "'b::len word"
  assumes "LENGTH('b) \<le> LENGTH('a::len)"
  shows "unat (ucast x :: 'a word) = unat x"
proof -
  have "unat x < 2 ^ LENGTH('b)" by (rule unsigned_less)
  also have "\<dots> \<le> 2 ^ LENGTH('a)" using assms by simp
  finally show ?thesis by (simp add: unsigned_ucast_eq take_bit_nat_eq_self_iff)
qed

lemma ucast_up_inj:
  fixes x y :: "'b::len word"
  assumes "LENGTH('b) \<le> LENGTH('a::len)"
  shows "(ucast x :: 'a word) = ucast y \<longleftrightarrow> x = y"
  using assms by (simp add: word_unat_eq_iff unat_ucast_up)

section \<open>Bits\<close>

lemma bit_word_unat: "bit w n \<longleftrightarrow> bit (unat w) n" for w :: "'a::len word"
  by (simp add: bit_unsigned_iff)

lemma not_bit_high:
  fixes w :: "'a::len word"
  assumes "unat w < 2 ^ k" and "k \<le> n"
  shows "\<not> bit w n"
proof -
  have "unat w < 2 ^ n" using assms power_increasing [of k n "2 :: nat"] by linarith
  then show ?thesis by (simp add: bit_word_unat bit_iff_odd)
qed

lemma unat_field: "unat (drop_bit n w AND mask k) = unat w div 2 ^ n mod 2 ^ k" for w :: "'a::len word"
proof -
  have "drop_bit n w AND mask k = take_bit k (drop_bit n w)" by (simp add: take_bit_eq_mask)
  moreover have "unat (take_bit k (drop_bit n w)) = take_bit k (unat (drop_bit n w))"
    by (rule unsigned_take_bit_eq)
  moreover have "unat (drop_bit n w) = unat w div 2 ^ n"
    by (simp only: unat_drop_bit_eq) (simp only: drop_bit_eq_div)
  ultimately show ?thesis by (simp only: take_bit_eq_mod)
qed

section \<open>Bounded searches and counting\<close>

lemma find_upt_Some:
  "find P [0..<n] = Some i \<longleftrightarrow> i < n \<and> P i \<and> (\<forall>j < i. \<not> P j)"
  by (auto simp: find_Some_iff)

lemma find_upt_None: "find P [0..<n] = None \<longleftrightarrow> (\<forall>j < n. \<not> P j)"
  by (auto simp: find_None_iff)

lemma find_from_Some:
  "find P [k..<n] = Some i \<longleftrightarrow> k \<le> i \<and> i < n \<and> P i \<and> (\<forall>j. k \<le> j \<longrightarrow> j < i \<longrightarrow> \<not> P j)"
proof
  assume "find P [k..<n] = Some i"
  then obtain j where "j < length [k..<n]" "P ([k..<n] ! j)" "i = [k..<n] ! j"
      and min: "\<forall>l<j. \<not> P ([k..<n] ! l)"
    by (auto simp: find_Some_iff)
  then have i: "i = k + j" "k + j < n" "P i" by auto
  have "\<not> P l" if "k \<le> l" "l < i" for l
    using min [rule_format, of "l - k"] that i by simp
  with i show "k \<le> i \<and> i < n \<and> P i \<and> (\<forall>j. k \<le> j \<longrightarrow> j < i \<longrightarrow> \<not> P j)" by auto
next
  assume "k \<le> i \<and> i < n \<and> P i \<and> (\<forall>j. k \<le> j \<longrightarrow> j < i \<longrightarrow> \<not> P j)"
  then show "find P [k..<n] = Some i"
    unfolding find_Some_iff by (intro exI [of _ "i - k"]) auto
qed

lemma find_from_None: "find P [k..<n] = None \<longleftrightarrow> (\<forall>j. k \<le> j \<longrightarrow> j < n \<longrightarrow> \<not> P j)"
  by (auto simp: find_None_iff)

end
