(* ===== verification/Kstring.thy ===== *)
theory Kstring
  imports Prelude
begin

text \<open>
  The kernel's C library, src/src/lib/string.cpp, over byte memory.  The counted loops
  (\<open>memset\<close>, \<open>memcpy\<close>, \<open>memcmp\<close>, \<open>strncmp\<close>, \<open>strncpy\<close>) recurse on the count that is
  left.  The loops that run to a terminating NUL may run forever when memory holds no NUL,
  so they are \<open>partial_function (option)\<close> and \<open>None\<close> stands for "does not return".
  \<open>cstr m a xs\<close> says that the bytes \<open>xs\<close> followed by a NUL are stored at \<open>a\<close>; the lemmas
  show that each routine computes the list operation it is named after.
\<close>

section \<open>The routines\<close>

fun memset_loop :: "ram \<Rightarrow> u64 \<Rightarrow> u8 \<Rightarrow> nat \<Rightarrow> ram" where
  "memset_loop m p c 0 = m"
| "memset_loop m p c (Suc n) = memset_loop (m(p := c)) (p + 1) c n"

definition memset :: "ram \<Rightarrow> u64 \<Rightarrow> i32 \<Rightarrow> usize \<Rightarrow> ram" where
  "memset m s c n = memset_loop m s (ucast c) (unat n)"

fun memcpy_loop :: "ram \<Rightarrow> u64 \<Rightarrow> u64 \<Rightarrow> nat \<Rightarrow> ram" where
  "memcpy_loop m d s 0 = m"
| "memcpy_loop m d s (Suc n) = memcpy_loop (m(d := m s)) (d + 1) (s + 1) n"

definition memcpy :: "ram \<Rightarrow> u64 \<Rightarrow> u64 \<Rightarrow> usize \<Rightarrow> ram" where
  "memcpy m dest src n = memcpy_loop m dest src (unat n)"

fun memcmp_loop :: "ram \<Rightarrow> u64 \<Rightarrow> u64 \<Rightarrow> nat \<Rightarrow> i32" where
  "memcmp_loop m a b 0 = 0"
| "memcmp_loop m a b (Suc n) =
     (if m a \<noteq> m b then ucast (m a) - ucast (m b) else memcmp_loop m (a + 1) (b + 1) n)"

definition memcmp :: "ram \<Rightarrow> u64 \<Rightarrow> u64 \<Rightarrow> usize \<Rightarrow> i32" where
  "memcmp m s1 s2 n = memcmp_loop m s1 s2 (unat n)"

partial_function (option) strlen_loop :: "ram \<Rightarrow> u64 \<Rightarrow> usize \<Rightarrow> usize option" where
  "strlen_loop m s len = (if m (s + len) \<noteq> 0 then strlen_loop m s (len + 1) else Some len)"

definition strlen :: "ram \<Rightarrow> u64 \<Rightarrow> usize option" where
  "strlen m s = strlen_loop m s 0"

partial_function (option) strcmp :: "ram \<Rightarrow> u64 \<Rightarrow> u64 \<Rightarrow> i32 option" where
  "strcmp m s1 s2 =
     (if m s1 \<noteq> 0 \<and> m s1 = m s2 then strcmp m (s1 + 1) (s2 + 1)
      else Some (ucast (m s1) - ucast (m s2)))"

fun strncmp_loop :: "ram \<Rightarrow> u64 \<Rightarrow> u64 \<Rightarrow> nat \<Rightarrow> i32" where
  "strncmp_loop m s1 s2 0 = 0"
| "strncmp_loop m s1 s2 (Suc n) =
     (if m s1 \<noteq> m s2 then ucast (m s1) - ucast (m s2)
      else if m s1 = 0 then 0
      else strncmp_loop m (s1 + 1) (s2 + 1) n)"

definition strncmp :: "ram \<Rightarrow> u64 \<Rightarrow> u64 \<Rightarrow> usize \<Rightarrow> i32" where
  "strncmp m s1 s2 n = strncmp_loop m s1 s2 (unat n)"

partial_function (option) strcpy :: "ram \<Rightarrow> u64 \<Rightarrow> u64 \<Rightarrow> ram option" where
  "strcpy m d src =
     (let m' = m(d := m src)
      in if m src \<noteq> 0 then strcpy m' (d + 1) (src + 1) else Some m')"

fun strncpy_loop :: "ram \<Rightarrow> u64 \<Rightarrow> u64 \<Rightarrow> nat \<Rightarrow> ram" where
  "strncpy_loop m d s 0 = m"
| "strncpy_loop m d s (Suc n) =
     (if m s \<noteq> 0 then strncpy_loop (m(d := m s)) (d + 1) (s + 1) n
      else memset_loop m d 0 (Suc n))"

definition strncpy :: "ram \<Rightarrow> u64 \<Rightarrow> u64 \<Rightarrow> usize \<Rightarrow> ram" where
  "strncpy m dest src n = strncpy_loop m dest src (unat n)"

definition strcat :: "ram \<Rightarrow> u64 \<Rightarrow> u64 \<Rightarrow> ram option" where
  "strcat m dest src = Option.bind (strlen m dest) (\<lambda>l. strcpy m (dest + l) src)"

partial_function (option) strchr :: "ram \<Rightarrow> u64 \<Rightarrow> i32 \<Rightarrow> u64 option" where
  "strchr m s c =
     (if m s \<noteq> 0 then (if m s = ucast c then Some s else strchr m (s + 1) c)
      else Some (if c = 0 then s else 0))"

fun cstr :: "ram \<Rightarrow> u64 \<Rightarrow> u8 list \<Rightarrow> bool" where
  "cstr m a [] \<longleftrightarrow> m a = 0"
| "cstr m a (x # xs) \<longleftrightarrow> x \<noteq> 0 \<and> m a = x \<and> cstr m (a + 1) xs"

fun byte_lex :: "u8 list \<Rightarrow> u8 list \<Rightarrow> bool" where
  "byte_lex xs [] \<longleftrightarrow> False"
| "byte_lex [] (y # ys) \<longleftrightarrow> True"
| "byte_lex (x # xs) (y # ys) \<longleftrightarrow> x < y \<or> x = y \<and> byte_lex xs ys"

section \<open>Counted routines\<close>

lemma memset_loop_eq_write: "memset_loop m p c n = write_bytes m p (replicate n c)"
  by (induction n arbitrary: m p) auto

lemma memset_loop_apply:
  "n \<le> 2 ^ 64 \<Longrightarrow> memset_loop m p c n x = (if in_range p n x then c else m x)"
  by (simp add: memset_loop_eq_write write_bytes_apply in_range_def)

lemma memset_eq [ram_simps]:
  "memset m s c n x = (if in_range s (unat n) x then ucast c else m x)"
  by (simp add: memset_def memset_loop_apply less_imp_le)

lemma load64_memset_zero:
  assumes "\<And>x. in_range a 8 x \<Longrightarrow> in_range p (unat n) x"
  shows "load64 (memset m p 0 n) a = 0"
proof -
  have "read_bytes (memset m p 0 n) a 8 = replicate 8 0"
    using assms by (intro nth_equalityI) (auto simp: nth_read_bytes memset_eq in_range_def)
  then show ?thesis by (simp add: load64_def numeral_eq_Suc)
qed

lemma load64_memset_sep [ram_simps]: "sep p (unat n) a 8 \<Longrightarrow> load64 (memset m p c n) a = load64 m a"
  by (rule load64_cong) (simp add: memset_eq sep_in_range_iff)

lemma memcpy_loop_apply:
  assumes "n \<le> 2 ^ 64" and "d = s \<or> n \<le> unat (d - s)"
  shows "memcpy_loop m d s n x = (if in_range d n x then m (s + (x - d)) else m x)"
  using assms
proof (induction n arbitrary: m d s)
  case 0
  then show ?case by simp
next
  case (Suc n)
  let ?m = "m(d := m s)"
  have "n \<le> 2 ^ 64" "d + 1 = s + 1 \<or> n \<le> unat ((d + 1) - (s + 1))"
    using Suc.prems by auto
  then have "memcpy_loop ?m (d + 1) (s + 1) n x =
      (if in_range (d + 1) n x then ?m ((s + 1) + (x - (d + 1))) else ?m x)"
    by (rule Suc.IH)
  moreover have "\<not> in_range (d + 1) n d"
    using Suc.prems(1) by (simp add: in_range_def unsigned_minus_1_eq_mask mask_eq_exp_minus_1)
  moreover have "in_range (d + 1) n x \<longleftrightarrow> in_range d (Suc n) x" if "x \<noteq> d"
    using that unat_minus_one [of "x - d"] unat_gt_0 [of "x - d"]
    by (auto simp: in_range_def diff_diff_eq)
  moreover have "s + (x - d) \<noteq> d \<or> d = s" if "in_range d (Suc n) x"
  proof (rule ccontr)
    assume "\<not> (s + (x - d) \<noteq> d \<or> d = s)"
    then have "x - d = d - s" "d \<noteq> s" by (auto simp: eq_diff_eq add.commute)
    with that Suc.prems(2) show False by (simp add: in_range_def)
  qed
  ultimately show ?case by auto
qed

lemma memcmp_loop_zero: "memcmp_loop m a b n = 0 \<longleftrightarrow> read_bytes m a n = read_bytes m b n"
  by (induction n arbitrary: a b) (auto simp: ucast_up_inj)

section \<open>Strings\<close>

lemma cstr_cong:
  "cstr m a xs \<Longrightarrow> (\<And>x. in_range a (Suc (length xs)) x \<Longrightarrow> m' x = m x) \<Longrightarrow> length xs < 2 ^ 64
   \<Longrightarrow> cstr m' a xs"
proof (induction xs arbitrary: a)
  case Nil
  then show ?case by simp
next
  case (Cons y ys)
  have "m' a = m a" using Cons.prems(2) by simp
  moreover have "cstr m' (a + 1) ys"
  proof (rule Cons.IH)
    fix x
    assume "in_range (a + 1) (Suc (length ys)) x"
    moreover have "x \<noteq> a" using calculation Cons.prems(3)
      by (auto simp: in_range_def unsigned_minus_1_eq_mask mask_eq_exp_minus_1)
    ultimately have "in_range a (Suc (length (y # ys))) x"
      using unat_minus_one [of "x - a"] by (simp add: in_range_def diff_diff_eq)
    then show "m' x = m x" by (rule Cons.prems(2))
  qed (use Cons.prems in auto)
  ultimately show ?case using Cons.prems(1) by simp
qed

lemma cstr_unique: "cstr m a xs \<Longrightarrow> cstr m a ys \<Longrightarrow> xs = ys"
proof (induction xs arbitrary: a ys)
  case Nil
  then show ?case by (cases ys) auto
next
  case (Cons x xs)
  then show ?case by (cases ys) auto
qed

lemma strlen_loop_cstr:
  "cstr m (s + len) xs \<Longrightarrow> strlen_loop m s len = Some (len + of_nat (length xs))"
proof (induction xs arbitrary: len)
  case Nil
  then show ?case by (subst strlen_loop.simps) simp
next
  case (Cons x xs)
  then have "strlen_loop m s (len + 1) = Some (len + 1 + of_nat (length xs))"
    by (simp add: add.assoc)
  with Cons.prems show ?case
    by (subst strlen_loop.simps) (simp add: algebra_simps)
qed

lemma cstr_exists:
  assumes "m b = 0"
  shows "\<exists>xs. cstr m a xs \<and> length xs \<le> unat (b - a)"
proof (induction "unat (b - a)" arbitrary: a rule: less_induct)
  case less
  show ?case
  proof (cases "m a = 0")
    case True
    then have "cstr m a []" by simp
    then show ?thesis by (intro exI [of _ "[]"]) simp
  next
    case False
    with assms have "b - a \<noteq> 0" by auto
    then have u: "unat (b - (a + 1)) = unat (b - a) - 1" "0 < unat (b - a)"
      using unat_minus_one [of "b - a"] unat_gt_0 [of "b - a"] by (simp_all add: diff_diff_eq)
    then obtain xs where "cstr m (a + 1) xs" "length xs \<le> unat (b - (a + 1))"
      using less [of "a + 1"] by auto
    with False u show ?thesis by (intro exI [of _ "m a # xs"]) simp
  qed
qed

lemma strcmp_cstr:
  "cstr m s1 xs \<Longrightarrow> cstr m s2 ys \<Longrightarrow>
   \<exists>x y. strcmp m s1 s2 = Some (ucast x - ucast (y :: u8)) \<and> (x = y \<longleftrightarrow> xs = ys)
       \<and> (x < y \<longleftrightarrow> byte_lex xs ys)"
proof (induction xs ys arbitrary: s1 s2 rule: byte_lex.induct)
  case (1 xs)
  have "strcmp m s1 s2 = Some (ucast (m s1) - ucast (m s2))"
    using 1 by (subst strcmp.simps) auto
  moreover have "m s1 = m s2 \<longleftrightarrow> xs = []" "\<not> m s1 < m s2"
    using 1 by (cases xs; simp)+
  ultimately show ?case by auto
next
  case (2 y ys)
  have "strcmp m s1 s2 = Some (ucast (m s1) - ucast (m s2))"
    using 2 by (subst strcmp.simps) auto
  moreover have "m s1 \<noteq> m s2" "m s1 < m s2"
    using 2 by (simp_all add: word_gt_0)
  ultimately show ?case by auto
next
  case (3 x xs y ys)
  show ?case
  proof (cases "x = y")
    case True
    with 3 have "strcmp m s1 s2 = strcmp m (s1 + 1) (s2 + 1)"
      by (subst strcmp.simps) auto
    with 3 True show ?thesis by auto
  next
    case False
    with 3 have "strcmp m s1 s2 = Some (ucast x - ucast y)"
      by (subst strcmp.simps) auto
    with False show ?thesis by auto
  qed
qed

lemma uint_u8: "0 \<le> uint (x :: u8)" "uint x < 256"
proof -
  have "uint x < 2 ^ LENGTH(8)" by (rule unsigned_less)
  then show "uint x < 256" by simp
qed simp

lemma sint_byte: "sint (ucast (x :: u8) :: i32) = uint x"
proof -
  have "uint (ucast x :: i32) = uint x"
    using uint_u8 [of x] by (simp add: unsigned_ucast_eq take_bit_int_eq_self_iff)
  moreover have "- 2147483648 \<le> uint x" "uint x < 2147483648" using uint_u8 [of x] by linarith+
  ultimately show ?thesis by (simp add: sint_uint signed_take_bit_int_eq_self)
qed

lemma sint_byte_diff:
  "sint (ucast (x :: u8) - ucast (y :: u8) :: i32) = uint x - uint y"
proof -
  have "- 2147483648 \<le> uint x - uint y" "uint x - uint y < 2147483648"
    using uint_u8 [of x] uint_u8 [of y] by linarith+
  then show ?thesis
    by (simp add: sint_word_diff sint_byte signed_take_bit_int_eq_self)
qed

lemma byte_diff_sign:
  fixes x y :: u8
  shows "(ucast x - ucast y :: i32) = 0 \<longleftrightarrow> x = y"
    and "sint (ucast x - ucast y :: i32) < 0 \<longleftrightarrow> x < y"
  by (simp_all add: sint_byte_diff ucast_up_inj word_less_def)

lemma in_range_Suc: "in_range a (Suc n) x \<longleftrightarrow> x = a \<or> in_range (a + 1) n x" if "n < 2 ^ 64"
proof (cases "x = a")
  case False
  then show ?thesis
    using unat_minus_one [of "x - a"] unat_gt_0 [of "x - a"]
    by (auto simp: in_range_def diff_diff_eq)
qed simp

lemma strcpy_cstr:
  assumes "cstr m s xs" and "length xs < 2 ^ 64" and "Suc (length xs) \<le> unat (d - s)"
  shows "strcpy m d s = Some (write_bytes m d (xs @ [0]))"
  using assms
proof (induction xs arbitrary: m d s)
  case Nil
  then show ?case by (subst strcpy.simps) simp
next
  case (Cons x xs)
  let ?m = "m(d := x)"
  have c: "cstr ?m (s + 1) xs"
  proof (rule cstr_cong [of m])
    fix y
    assume "in_range (s + 1) (Suc (length xs)) y"
    then have "in_range s (Suc (Suc (length xs))) y"
      using Cons.prems(2) by (simp add: in_range_Suc)
    then have "y \<noteq> d" using Cons.prems(3) by (auto simp: in_range_def)
    then show "?m y = m y" by simp
  qed (use Cons.prems in auto)
  have "length xs < 2 ^ 64" "Suc (length xs) \<le> unat ((d + 1) - (s + 1))"
    using Cons.prems by simp_all
  then have "strcpy ?m (d + 1) (s + 1) = Some (write_bytes ?m (d + 1) (xs @ [0]))"
    by (rule Cons.IH [OF c])
  with Cons.prems(1) show ?case by (subst strcpy.simps) simp
qed

lemma cstr_write_bytes:
  "0 \<notin> set xs \<Longrightarrow> length xs < 2 ^ 64 \<Longrightarrow> cstr (write_bytes m d (xs @ [0])) d xs"
proof (induction xs arbitrary: m d)
  case Nil
  then show ?case by simp
next
  case (Cons x xs)
  have "\<not> in_range (d + 1) (Suc (length xs)) d"
    using Cons.prems(2)
    by (simp add: in_range_def unsigned_minus_1_eq_mask mask_eq_exp_minus_1)
  then have "write_bytes (m(d := x)) (d + 1) (xs @ [0]) d = x"
    using Cons.prems(2) by (simp add: write_bytes_apply)
  with Cons show ?case by simp
qed

lemma cstr_no_nul: "cstr m a xs \<Longrightarrow> 0 \<notin> set xs"
  by (induction xs arbitrary: a) auto

lemma strncpy_loop_eq:
  assumes "n \<le> length xs \<or> cstr m s (take n xs)" and "read_bytes m s (min n (length xs)) = take n xs"
    and "0 \<notin> set xs" and "n \<le> unat (d - s)" and "n \<le> 2 ^ 64"
  shows "strncpy_loop m d s n = write_bytes m d (take n xs @ replicate (n - length xs) 0)"
  using assms
proof (induction n arbitrary: m d s xs)
  case 0
  then show ?case by simp
next
  case (Suc n)
  show ?case
  proof (cases xs)
    case Nil
    with Suc.prems(1) have "m s = 0" by simp
    then show ?thesis by (simp add: Nil memset_loop_eq_write del: memset_loop.simps)
  next
    case (Cons y ys)
    let ?m = "m(d := y)"
    from Suc.prems(2,3) Cons have y: "m s = y" "y \<noteq> 0" by auto
    have frame: "?m x = m x" if "in_range (s + 1) n x" for x
    proof -
      from that Suc.prems(5) have "in_range s (Suc n) x" by (simp add: in_range_Suc)
      with Suc.prems(4) show ?thesis by (auto simp: in_range_def)
    qed
    have sub: "in_range (s + 1) k x \<Longrightarrow> k \<le> n \<Longrightarrow> in_range (s + 1) n x" for k x
      by (simp add: in_range_def)
    have rd: "read_bytes ?m (s + 1) (min n (length ys)) = take n ys"
    proof -
      have "read_bytes ?m (s + 1) (min n (length ys)) = read_bytes m (s + 1) (min n (length ys))"
        using Suc.prems(5) by (intro read_bytes_cong frame) (auto elim: sub)
      with Suc.prems(2) Cons show ?thesis by simp
    qed
    have "n \<le> length ys \<or> cstr ?m (s + 1) (take n ys)"
    proof (cases "n \<le> length ys")
      case False
      then have c: "cstr m (s + 1) ys" using Suc.prems(1) Cons by simp
      have "?m x = m x" if "in_range (s + 1) (Suc (length ys)) x" for x
        using that False by (intro frame sub [OF that]) simp
      moreover have "length ys < 2 ^ 64" using False Suc.prems(5) by linarith
      ultimately have "cstr ?m (s + 1) ys" by (rule cstr_cong [OF c])
      with False show ?thesis by simp
    qed simp
    moreover have "0 \<notin> set ys" "n \<le> unat ((d + 1) - (s + 1))" "n \<le> 2 ^ 64"
      using Suc.prems(3,4,5) Cons by simp_all
    ultimately have "strncpy_loop ?m (d + 1) (s + 1) n =
        write_bytes ?m (d + 1) (take n ys @ replicate (n - length ys) 0)"
      by (rule Suc.IH [OF _ rd])
    then show ?thesis using y Cons by simp
  qed
qed

section \<open>The contract string clients rely on\<close>

text \<open>
  What the rest of the kernel assumes of \<open>strlen\<close>, \<open>strcmp\<close> and \<open>strcpy\<close>: on NUL-terminated
  strings they return, and they compute length, order and a copy that leaves the rest of
  memory alone.
\<close>

locale cstring_ops =
  fixes len :: "ram \<Rightarrow> u64 \<Rightarrow> usize option"
    and cmp :: "ram \<Rightarrow> u64 \<Rightarrow> u64 \<Rightarrow> i32 option"
    and cpy :: "ram \<Rightarrow> u64 \<Rightarrow> u64 \<Rightarrow> ram option"
  assumes len_ok: "cstr m a xs \<Longrightarrow> len m a = Some (of_nat (length xs))"
    and cmp_ok: "cstr m a xs \<Longrightarrow> cstr m b ys \<Longrightarrow>
      \<exists>r. cmp m a b = Some r \<and> (r = 0 \<longleftrightarrow> xs = ys) \<and> (sint r < 0 \<longleftrightarrow> byte_lex xs ys)"
    and cpy_ok: "cstr m s xs \<Longrightarrow> length xs < 2 ^ 64 \<Longrightarrow>
      sep s (Suc (length xs)) d (Suc (length xs)) \<Longrightarrow>
      cpy m d s = Some (write_bytes m d (xs @ [0]))"
begin

lemma copy_then_compare:
  assumes "cstr m s xs" and "length xs < 2 ^ 64"
    and "sep s (Suc (length xs)) d (Suc (length xs))"
  shows "\<exists>m'. cpy m d s = Some m' \<and> cmp m' d s = Some 0 \<and> len m' d = len m s
           \<and> (\<forall>x. \<not> in_range d (Suc (length xs)) x \<longrightarrow> m' x = m x)"
proof -
  let ?m = "write_bytes m d (xs @ [0])"
  have frame: "?m x = m x" if "\<not> in_range d (Suc (length xs)) x" for x
    using that assms(2) by (simp add: write_bytes_apply)
  have d: "cstr ?m d xs"
    using assms cstr_no_nul by (intro cstr_write_bytes) auto
  have s: "cstr ?m s xs"
  proof (rule cstr_cong [OF assms(1) frame assms(2)])
    fix x
    assume "in_range s (Suc (length xs)) x"
    then show "\<not> in_range d (Suc (length xs)) x"
      by (rule sep_not_in_range [OF sep_commute [OF assms(3)]])
  qed
  obtain r where "cmp ?m d s = Some r" "r = 0"
    using cmp_ok [OF d s] by auto
  then show ?thesis
    using cpy_ok [OF assms] len_ok [OF d] len_ok [OF assms(1)] frame
    by (intro exI [of _ ?m]) simp
qed

end

interpretation kstr: cstring_ops strlen strcmp strcpy
proof unfold_locales
  fix m a xs
  assume "cstr m a xs"
  then show "strlen m a = Some (of_nat (length xs))"
    using strlen_loop_cstr [of m a 0 xs] by (simp add: strlen_def)
next
  fix m a xs b ys
  assume "cstr m a xs" "cstr m b ys"
  then obtain x y where "strcmp m a b = Some (ucast x - ucast (y :: u8))"
      "x = y \<longleftrightarrow> xs = ys" "x < y \<longleftrightarrow> byte_lex xs ys"
    using strcmp_cstr by blast
  then show "\<exists>r. strcmp m a b = Some r \<and> (r = 0 \<longleftrightarrow> xs = ys) \<and> (sint r < 0 \<longleftrightarrow> byte_lex xs ys)"
    using byte_diff_sign [of x y] by simp
next
  fix m s xs d
  assume "cstr m s xs" "length xs < 2 ^ 64" "sep s (Suc (length xs)) d (Suc (length xs))"
  then show "strcpy m d s = Some (write_bytes m d (xs @ [0]))"
    by (intro strcpy_cstr) (auto simp: sep_def)
qed

section \<open>Properties\<close>

lemma cstr_nth_nonzero: "cstr m a xs \<Longrightarrow> i < length xs \<Longrightarrow> m (a + of_nat i) \<noteq> 0"
  by (induction xs arbitrary: a i) (auto simp: less_Suc_eq_0_disj simp flip: add.assoc)

lemma cstr_end: "cstr m a xs \<Longrightarrow> m (a + of_nat (length xs)) = 0"
proof (induction xs arbitrary: a)
  case (Cons x xs)
  from Cons.IH [of "a + 1"] Cons.prems show ?case by (simp add: add.assoc)
qed simp

lemma strlen_loop_nul: "strlen_loop m s len = Some l \<Longrightarrow> m (s + l) = 0"
  by (rule strlen_loop.raw_induct [of "\<lambda>m s len l. m (s + l) = 0" m s len l])
    (auto split: if_splits)

text \<open>Two strings, "AB" and "AC", sixteen bytes apart in an otherwise empty memory.\<close>

definition sample_ram :: ram where
  "sample_ram = (\<lambda>_. 0)(0x1000 := 0x41, 0x1001 := 0x42, 0x1010 := 0x41, 0x1011 := 0x43)"

lemma sample_ram_strings: "cstr sample_ram 0x1000 [0x41, 0x42]" "cstr sample_ram 0x1010 [0x41, 0x43]"
  by (simp_all add: sample_ram_def)

text \<open>
  C34: \<open>strlen\<close> returns exactly the offset of the first NUL byte at or after its argument,
  so it returns whenever memory holds a NUL at all and the only way not to return is that
  there is none.
\<close>

theorem strlen_first_nul:
  "(strlen m s = Some l \<longleftrightarrow> m (s + l) = 0 \<and> (\<forall>j < l. m (s + j) \<noteq> 0))
   \<and> (strlen m s = None \<longleftrightarrow> (\<forall>x. m x \<noteq> 0))"
proof -
  have ex: "\<exists>xs :: u8 list. length xs \<le> unat (b - s) \<and> strlen m s = Some (of_nat (length xs))
      \<and> m (s + of_nat (length xs)) = 0 \<and> (\<forall>j < of_nat (length xs). m (s + j) \<noteq> 0)"
    if b: "m b = 0" for b
  proof -
    obtain xs where xs: "cstr m s xs" "length xs \<le> unat (b - s)"
      using cstr_exists [of m b s, OF b] by blast
    have len: "unat (of_nat (length xs) :: u64) = length xs"
      using xs(2) unat_lt_u64 [of "b - s"] by (intro unat_of_nat_small) linarith
    have "m (s + j) \<noteq> 0" if "j < of_nat (length xs)" for j
    proof -
      have "unat j < length xs" using that len by (simp add: word_less_nat_alt)
      from cstr_nth_nonzero [OF xs(1) this] show ?thesis by simp
    qed
    with xs show ?thesis
      using kstr.len_ok [OF xs(1)] cstr_end [OF xs(1)] by blast
  qed
  have nul: "m (s + l) = 0" if "strlen m s = Some l" for l
    using that strlen_loop_nul by (simp add: strlen_def)
  have "m (s + l) = 0 \<and> (\<forall>j < l. m (s + j) \<noteq> 0)" if "strlen m s = Some l"
    using ex [OF nul [OF that]] that by auto
  moreover have "strlen m s = Some l" if l: "m (s + l) = 0 \<and> (\<forall>j < l. m (s + j) \<noteq> 0)"
  proof -
    obtain l' where l': "strlen m s = Some l'" "m (s + l') = 0" "\<forall>j < l'. m (s + j) \<noteq> 0"
      using ex [of "s + l"] l by auto
    with l have "\<not> l < l'" "\<not> l' < l" by auto
    with l' show ?thesis by auto
  qed
  moreover have "strlen m s = None \<longleftrightarrow> (\<forall>x. m x \<noteq> 0)"
  proof
    assume "strlen m s = None"
    then show "\<forall>x. m x \<noteq> 0" using ex by fastforce
  next
    assume "\<forall>x. m x \<noteq> 0"
    then show "strlen m s = None" using nul by (cases "strlen m s") auto
  qed
  ultimately show ?thesis by blast
qed

theorem strlen_first_nul_witness: "strlen sample_ram 0x1000 = Some 2"
proof -
  have "sample_ram (0x1000 + j) \<noteq> 0" if "j < 2" for j
  proof -
    have "j = 0 \<or> j = 1" using that by (simp add: word_less_nat_alt word_unat_eq_iff) linarith
    then show ?thesis by (auto simp: sample_ram_def)
  qed
  moreover have "sample_ram (0x1000 + 2) = 0" by (simp add: sample_ram_def)
  ultimately show ?thesis using strlen_first_nul [of sample_ram "0x1000" 2] by simp
qed

text \<open>
  On two NUL-terminated strings \<open>strcmp\<close> returns, with 0 exactly when the strings are
  equal and a negative result exactly when the first precedes the second in the
  lexicographic order of unsigned bytes.
\<close>

theorem strcmp_lexicographic:
  assumes "cstr m a xs" and "cstr m b ys"
  shows "\<exists>r. strcmp m a b = Some r \<and> (r = 0 \<longleftrightarrow> xs = ys) \<and> (sint r < 0 \<longleftrightarrow> byte_lex xs ys)"
  using assms by (rule kstr.cmp_ok)

theorem strcmp_lexicographic_witness:
  "\<exists>r. strcmp sample_ram 0x1000 0x1010 = Some r \<and> r \<noteq> 0 \<and> sint r < 0"
  using strcmp_lexicographic [OF sample_ram_strings] by auto

text \<open>
  C31: \<open>strcpy\<close> onto a buffer that does not overlap the source returns; afterwards the copy
  compares equal to the source, has the same length, and no byte outside the
  \<open>strlen + 1\<close> bytes of the destination has changed.
\<close>

theorem strcpy_round_trip:
  assumes "cstr m s xs" and "length xs < 2 ^ 64"
    and "sep s (Suc (length xs)) d (Suc (length xs))"
  shows "\<exists>m'. strcpy m d s = Some m' \<and> strcmp m' d s = Some 0 \<and> strlen m' d = strlen m s
           \<and> (\<forall>x. \<not> in_range d (Suc (length xs)) x \<longrightarrow> m' x = m x)"
  using assms by (rule kstr.copy_then_compare)

theorem strcpy_round_trip_witness:
  "\<exists>m'. strcpy sample_ram 0x2000 0x1000 = Some m' \<and> strcmp m' 0x2000 0x1000 = Some 0"
proof -
  have "sep 0x1000 (Suc (length [0x41, 0x42 :: u8])) 0x2000 (Suc (length [0x41, 0x42 :: u8]))"
    by (simp add: sep_def)
  then show ?thesis
    using strcpy_round_trip [OF sample_ram_strings(1), of "0x2000"] by auto
qed

end
