(* ===== verification/Pages.thy ===== *)
theory Pages
  imports Kstring
begin

text \<open>
  The physical page allocator, src/src/mm/pages.cpp.  Its statics (\<open>bitmap\<close>,
  \<open>total_pages\<close>, \<open>free_pages\<close>) and physical memory, which \<open>alloc_page\<close> and \<open>alloc_pages\<close>
  clear, are the record \<open>mm\<close>; the later components extend that record, so every operation
  here is polymorphic in the extension and leaves it alone by construction.  The linker
  symbol \<open>__heap_start\<close> is a parameter of \<open>pages_init\<close>.  The boot messages printed by
  \<open>Pages::init\<close> are not part of the state.
\<close>

section \<open>State and operations\<close>

record mm =
  mem :: ram
  bitmap :: "u8 list"
  total_pages :: u64
  free_pages :: u64

definition PAGE_SIZE :: u64 where "PAGE_SIZE = 4096"
definition MAX_PAGES :: u64 where "MAX_PAGES = 65536"
definition BITMAP_SIZE :: nat where "BITMAP_SIZE = 8192"
definition memory_base :: u64 where "memory_base = 0x40000000"

definition bitmap_set :: "u8 list \<Rightarrow> nat \<Rightarrow> u8 list" where
  "bitmap_set bm page = bm[page div 8 := (bm ! (page div 8)) OR push_bit (page mod 8) 1]"

definition bitmap_clear :: "u8 list \<Rightarrow> nat \<Rightarrow> u8 list" where
  "bitmap_clear bm page = bm[page div 8 := (bm ! (page div 8)) AND NOT (push_bit (page mod 8) 1)]"

definition bitmap_test :: "u8 list \<Rightarrow> nat \<Rightarrow> bool" where
  "bitmap_test bm page \<longleftrightarrow> (bm ! (page div 8)) AND push_bit (page mod 8) 1 \<noteq> 0"

definition mark_used :: "nat \<Rightarrow> 'a mm_scheme \<Rightarrow> 'a mm_scheme" where
  "mark_used i s = s\<lparr>bitmap := bitmap_set (bitmap s) i, free_pages := free_pages s - 1\<rparr>"

definition pages_init :: "u64 \<Rightarrow> u64 \<Rightarrow> 'a mm_scheme \<Rightarrow> 'a mm_scheme" where
  "pages_init heap_start total_memory s =
     (let tp = total_memory div PAGE_SIZE;
          tp' = (if MAX_PAGES < tp then MAX_PAGES else tp);
          s' = s\<lparr>total_pages := tp', bitmap := replicate BITMAP_SIZE 0, free_pages := tp'\<rparr>;
          kernel_end_page = (heap_start - memory_base + PAGE_SIZE - 1) div PAGE_SIZE
      in fold mark_used [0..<min (unat kernel_end_page) (unat tp')] s')"

definition alloc_page :: "'a mm_scheme \<Rightarrow> 'a mm_scheme \<times> u64" where
  "alloc_page s =
     (case find (\<lambda>i. \<not> bitmap_test (bitmap s) i) [0..<unat (total_pages s)] of
        Some i \<Rightarrow>
          let s' = mark_used i s;
              addr = memory_base + of_nat i * PAGE_SIZE
          in (s'\<lparr>mem := memset (mem s') addr 0 PAGE_SIZE\<rparr>, addr)
      | None \<Rightarrow> (s, 0))"

definition free_page :: "u64 \<Rightarrow> 'a mm_scheme \<Rightarrow> 'a mm_scheme" where
  "free_page phys_addr s =
     (if phys_addr < memory_base then s
      else let page = (phys_addr - memory_base) div PAGE_SIZE
           in if page < total_pages s \<and> bitmap_test (bitmap s) (unat page)
              then s\<lparr>bitmap := bitmap_clear (bitmap s) (unat page),
                     free_pages := free_pages s + 1\<rparr>
              else s)"

text \<open>The scan of \<open>alloc_pages\<close>: \<open>run\<close> counts the free pages that end before \<open>i\<close>.\<close>

fun find_run :: "(nat \<Rightarrow> bool) \<Rightarrow> nat \<Rightarrow> nat list \<Rightarrow> nat \<Rightarrow> nat \<Rightarrow> nat option" where
  "find_run used count [] run start = None"
| "find_run used count (i # is) run start =
     (if \<not> used i
      then let start' = (if run = 0 then i else start);
               run' = Suc run
           in if run' = count then Some start' else find_run used count is run' start'
      else find_run used count is 0 start)"

definition alloc_pages :: "u64 \<Rightarrow> 'a mm_scheme \<Rightarrow> 'a mm_scheme \<times> u64" where
  "alloc_pages count s =
     (case find_run (bitmap_test (bitmap s)) (unat count) [0..<unat (total_pages s)] 0 0 of
        Some start \<Rightarrow>
          let s' = fold mark_used [start..<start + unat count] s;
              addr = memory_base + of_nat start * PAGE_SIZE
          in (s'\<lparr>mem := memset (mem s') addr 0 (count * PAGE_SIZE)\<rparr>, addr)
      | None \<Rightarrow> (s, 0))"

definition get_free_count :: "'a mm_scheme \<Rightarrow> u64" where
  "get_free_count s = free_pages s"

definition get_total_count :: "'a mm_scheme \<Rightarrow> u64" where
  "get_total_count s = total_pages s"

text \<open>
  The specification view: the set of free page numbers, the address of a page and the set
  of addresses handed out.  \<open>pages_wf\<close> is the invariant of the allocator: the table has its
  static size, the page count fits the table, and the counter is the number of free pages.
\<close>

definition free_set :: "'a mm_scheme \<Rightarrow> nat set" where
  "free_set s = {i. i < unat (total_pages s) \<and> \<not> bitmap_test (bitmap s) i}"

definition page_addr :: "nat \<Rightarrow> u64" where
  "page_addr i = memory_base + of_nat i * PAGE_SIZE"

definition owned_pages :: "'a mm_scheme \<Rightarrow> nat set" where
  "owned_pages s = {i. i < unat (total_pages s) \<and> bitmap_test (bitmap s) i}"

definition pages_wf :: "'a mm_scheme \<Rightarrow> bool" where
  "pages_wf s \<longleftrightarrow> length (bitmap s) = BITMAP_SIZE \<and> total_pages s \<le> MAX_PAGES
     \<and> unat (free_pages s) = card (free_set s)"

section \<open>Bitmap arithmetic\<close>

lemma bitmap_test_bit: "bitmap_test bm i \<longleftrightarrow> bit (bm ! (i div 8)) (i mod 8)"
  by (simp add: bitmap_test_def bit_iff_and_push_bit_not_eq_0)

lemma bitmap_test_set:
  assumes "i div 8 < length bm"
  shows "bitmap_test (bitmap_set bm i) j \<longleftrightarrow> j = i \<or> bitmap_test bm j"
proof (cases "j div 8 = i div 8")
  case True
  then have "j = i \<longleftrightarrow> j mod 8 = i mod 8"
    by (metis mult_div_mod_eq)
  with True assms show ?thesis
    by (auto simp: bitmap_test_bit bitmap_set_def bit_simps)
next
  case False
  then show ?thesis by (auto simp: bitmap_test_bit bitmap_set_def)
qed

lemma bitmap_test_clear:
  assumes "i div 8 < length bm"
  shows "bitmap_test (bitmap_clear bm i) j \<longleftrightarrow> j \<noteq> i \<and> bitmap_test bm j"
proof (cases "j div 8 = i div 8")
  case True
  then have "j = i \<longleftrightarrow> j mod 8 = i mod 8"
    by (metis mult_div_mod_eq)
  with True assms show ?thesis
    by (auto simp: bitmap_test_bit bitmap_clear_def bit_simps)
next
  case False
  then show ?thesis by (auto simp: bitmap_test_bit bitmap_clear_def)
qed

lemma length_bitmap_ops [simp]:
  "length (bitmap_set bm i) = length bm" "length (bitmap_clear bm i) = length bm"
  by (simp_all add: bitmap_set_def bitmap_clear_def)

lemma finite_free_set [simp]: "finite (free_set s)"
  by (rule finite_subset [of _ "{..<unat (total_pages s)}"]) (auto simp: free_set_def)

lemma total_pages_le: "pages_wf s \<Longrightarrow> unat (total_pages s) \<le> 65536"
  by (simp add: pages_wf_def MAX_PAGES_def word_le_nat_alt)

lemma page_in_bitmap: "pages_wf s \<Longrightarrow> i < unat (total_pages s) \<Longrightarrow> i div 8 < length (bitmap s)"
  using total_pages_le [of s] by (simp add: pages_wf_def BITMAP_SIZE_def)

lemma free_set_in_bitmap: "pages_wf s \<Longrightarrow> i \<in> free_set s \<Longrightarrow> i div 8 < length (bitmap s)"
  by (simp add: free_set_def page_in_bitmap)

lemma card_free_set_le: "card (free_set s) \<le> unat (total_pages s)"
proof -
  have "card (free_set s) \<le> card {..<unat (total_pages s)}"
    by (intro card_mono) (auto simp: free_set_def)
  then show ?thesis by simp
qed

section \<open>Marking pages\<close>

lemma mark_used_fields [simp]:
  "total_pages (mark_used i s) = total_pages s" "mem (mark_used i s) = mem s"
  "bitmap (mark_used i s) = bitmap_set (bitmap s) i"
  "free_pages (mark_used i s) = free_pages s - 1"
  by (simp_all add: mark_used_def)

lemma free_set_mark_used:
  "i div 8 < length (bitmap s) \<Longrightarrow> free_set (mark_used i s) = free_set s - {i}"
  by (auto simp: free_set_def bitmap_test_set)

lemma unat_dec: "0 < unat w \<Longrightarrow> unat (w - 1) = unat w - 1" for w :: u64
  by (rule unat_minus_one) (auto simp: unat_gt_0)

lemma mark_used_wf:
  assumes "pages_wf s" and "i \<in> free_set s"
  shows "pages_wf (mark_used i s)"
proof -
  from assms have i: "i div 8 < length (bitmap s)"
    by (auto simp: free_set_def intro: page_in_bitmap)
  have "0 < card (free_set s)" using assms(2) by (auto simp: card_gt_0_iff)
  then show ?thesis
    using assms i by (simp add: pages_wf_def free_set_mark_used unat_dec)
qed

lemma fold_mark_used_fields [simp]:
  "total_pages (fold mark_used is s) = total_pages s" "mem (fold mark_used is s) = mem s"
  "length (bitmap (fold mark_used is s)) = length (bitmap s)"
  by (induction "is" arbitrary: s) auto

lemma fold_mark_used:
  assumes "pages_wf s" and "set is \<subseteq> free_set s" and "distinct is"
  shows "pages_wf (fold mark_used is s) \<and> free_set (fold mark_used is s) = free_set s - set is"
  using assms
proof (induction "is" arbitrary: s)
  case Nil
  then show ?case by simp
next
  case (Cons i "is")
  then have wf: "pages_wf (mark_used i s)" by (simp add: mark_used_wf)
  have fs: "free_set (mark_used i s) = free_set s - {i}"
    using Cons.prems by (intro free_set_mark_used free_set_in_bitmap) auto
  have "set is \<subseteq> free_set (mark_used i s)" using Cons.prems fs by auto
  with Cons wf fs show ?case by auto
qed

lemma free_set_mem_update [simp]: "free_set (s\<lparr>mem := m\<rparr>) = free_set s"
  by (simp add: free_set_def)

lemma pages_wf_mem_update [simp]: "pages_wf (s\<lparr>mem := m\<rparr>) = pages_wf s"
  by (simp add: pages_wf_def)

section \<open>Page addresses\<close>

lemma unat_page_addr: "i \<le> 65536 \<Longrightarrow> unat (page_addr i) = 0x40000000 + i * 4096"
proof -
  assume i: "i \<le> 65536"
  have "page_addr i = of_nat (0x40000000 + i * 4096)"
    by (simp add: page_addr_def memory_base_def PAGE_SIZE_def)
  moreover have "unat (of_nat (0x40000000 + i * 4096) :: u64) = 0x40000000 + i * 4096"
    using i by (intro unat_of_nat_small) simp
  ultimately show ?thesis by (simp only:)
qed

lemma page_addr_inj:
  assumes "i \<le> 65536" "j \<le> 65536"
  shows "page_addr i = page_addr j \<longleftrightarrow> i = j"
proof
  assume "page_addr i = page_addr j"
  then have "unat (page_addr i) = unat (page_addr j)" by simp
  with assms show "i = j" by (simp add: unat_page_addr)
qed simp

lemma page_addr_nonzero:
  assumes "i \<le> 65536"
  shows "page_addr i \<noteq> 0"
proof
  assume "page_addr i = 0"
  then have "unat (page_addr i) = 0" by simp
  with assms show False by (simp add: unat_page_addr)
qed

lemma page_addr_index:
  assumes "i < 65536"
  shows "\<not> page_addr i < memory_base" "(page_addr i - memory_base) div PAGE_SIZE = of_nat i"
proof -
  have u: "unat (page_addr i) = 0x40000000 + i * 4096" using assms by (simp add: unat_page_addr)
  then show "\<not> page_addr i < memory_base"
    by (simp add: word_less_nat_alt memory_base_def)
  have "page_addr i - memory_base = of_nat (i * 4096)"
    by (simp add: page_addr_def PAGE_SIZE_def)
  moreover have "unat (of_nat (i * 4096) :: u64) = i * 4096"
    using assms by (intro unat_of_nat_small) simp
  ultimately have "unat ((page_addr i - memory_base) div PAGE_SIZE) = i"
    by (simp add: unat_div PAGE_SIZE_def)
  then show "(page_addr i - memory_base) div PAGE_SIZE = of_nat i"
    using assms by (simp add: word_unat_eq_iff)
qed

lemma page_addr_sep:
  assumes "i < j" "j < 65536" "n \<le> (j - i) * 4096" "k \<le> 4096"
  shows "sep (page_addr i) n (page_addr j) k"
proof -
  have "sep (memory_base + of_nat (i * 4096)) n (memory_base + of_nat (j * 4096)) k"
  proof (rule sep_offsets)
    have "i * 4096 + (j - i) * 4096 = j * 4096" using assms(1) by (simp add: add_mult_distrib [symmetric])
    with assms(3) show "i * 4096 + n \<le> j * 4096" by linarith
  qed (use assms in auto)
  then show ?thesis by (simp add: page_addr_def PAGE_SIZE_def)
qed

section \<open>Allocation of one page\<close>

lemma alloc_page_full: "free_set s = {} \<Longrightarrow> alloc_page s = (s, 0)"
  unfolding alloc_page_def
  by (subst find_upt_None [THEN iffD2]) (auto simp: free_set_def)

lemma alloc_page_first:
  assumes "free_set s \<noteq> {}"
  shows "alloc_page s =
    ((mark_used (Min (free_set s)) s)
       \<lparr>mem := memset (mem s) (page_addr (Min (free_set s))) 0 PAGE_SIZE\<rparr>,
     page_addr (Min (free_set s)))"
proof -
  let ?i = "Min (free_set s)"
  have i: "?i < unat (total_pages s)" "\<not> bitmap_test (bitmap s) ?i"
    using Min_in [of "free_set s"] assms by (auto simp: free_set_def)
  have "bitmap_test (bitmap s) j" if "j < ?i" for j
  proof (rule ccontr)
    assume "\<not> bitmap_test (bitmap s) j"
    with that i(1) have "j \<in> free_set s" by (simp add: free_set_def)
    then have "?i \<le> j" by (intro Min_le) simp_all
    with that show False by simp
  qed
  with i have "find (\<lambda>i. \<not> bitmap_test (bitmap s) i) [0..<unat (total_pages s)] = Some ?i"
    by (simp add: find_upt_Some)
  then show ?thesis by (simp add: alloc_page_def page_addr_def Let_def)
qed

lemma alloc_page_wf: "pages_wf s \<Longrightarrow> pages_wf (fst (alloc_page s))"
  by (cases "free_set s = {}") (simp_all add: alloc_page_full alloc_page_first mark_used_wf)

lemma alloc_page_free_set:
  "pages_wf s \<Longrightarrow> free_set (fst (alloc_page s)) = free_set s - {Min (free_set s)}"
  by (cases "free_set s = {}")
    (simp_all add: alloc_page_full alloc_page_first free_set_mark_used free_set_in_bitmap)

lemma alloc_page_total [simp]: "total_pages (fst (alloc_page s)) = total_pages s"
  by (cases "free_set s = {}") (simp_all add: alloc_page_full alloc_page_first)

lemma alloc_page_result:
  assumes "pages_wf s"
  shows "snd (alloc_page s) = 0 \<longleftrightarrow> free_set s = {}"
proof (cases "free_set s = {}")
  case False
  then have "Min (free_set s) \<in> free_set s" by simp
  with total_pages_le [OF assms] have "Min (free_set s) \<le> 65536"
    by (auto simp: free_set_def)
  with False show ?thesis by (simp add: alloc_page_first page_addr_nonzero)
qed (simp add: alloc_page_full)

section \<open>Freeing a page\<close>

lemma free_page_ignored:
  assumes "phys < memory_base \<or> \<not> (phys - memory_base) div PAGE_SIZE < total_pages s
     \<or> \<not> bitmap_test (bitmap s) (unat ((phys - memory_base) div PAGE_SIZE))"
  shows "free_page phys s = s"
  using assms by (auto simp: free_page_def Let_def)

lemma free_page_owned:
  assumes "pages_wf s" and "i \<in> owned_pages s"
  shows "free_page (page_addr i) s =
    s\<lparr>bitmap := bitmap_clear (bitmap s) i, free_pages := free_pages s + 1\<rparr>"
proof -
  have i: "i < 65536" "i < unat (total_pages s)" "bitmap_test (bitmap s) i"
    using assms total_pages_le [OF assms(1)] by (auto simp: owned_pages_def)
  then have "of_nat i < total_pages s" by (simp add: word_less_nat_alt)
  with i show ?thesis by (simp add: free_page_def page_addr_index Let_def)
qed

lemma free_set_free_page:
  assumes "pages_wf s" and "i \<in> owned_pages s"
  shows "free_set (free_page (page_addr i) s) = insert i (free_set s)"
    and "owned_pages (free_page (page_addr i) s) = owned_pages s - {i}"
proof -
  have "i div 8 < length (bitmap s)" "i < unat (total_pages s)"
    using assms by (auto simp: owned_pages_def intro: page_in_bitmap)
  then show "free_set (free_page (page_addr i) s) = insert i (free_set s)"
      "owned_pages (free_page (page_addr i) s) = owned_pages s - {i}"
    by (auto simp: free_page_owned [OF assms] free_set_def owned_pages_def bitmap_test_clear)
qed

lemma free_page_wf:
  assumes "pages_wf s"
  shows "pages_wf (free_page phys s)"
proof (cases "phys < memory_base \<or> \<not> (phys - memory_base) div PAGE_SIZE < total_pages s
     \<or> \<not> bitmap_test (bitmap s) (unat ((phys - memory_base) div PAGE_SIZE))")
  case True
  with assms show ?thesis by (simp only: free_page_ignored)
next
  case False
  define i where "i = unat ((phys - memory_base) div PAGE_SIZE)"
  have i: "i < unat (total_pages s)" "bitmap_test (bitmap s) i" "i div 8 < length (bitmap s)"
    using False assms by (auto simp: i_def word_less_nat_alt intro: page_in_bitmap)
  have eq: "free_page phys s =
      s\<lparr>bitmap := bitmap_clear (bitmap s) i, free_pages := free_pages s + 1\<rparr>"
    using False by (simp add: free_page_def i_def Let_def)
  have fs: "free_set (free_page phys s) = insert i (free_set s)" and new: "i \<notin> free_set s"
    using i by (auto simp: eq free_set_def bitmap_test_clear)
  have "card (insert i (free_set s)) \<le> unat (total_pages s)"
    using fs card_free_set_le [of "free_page phys s"] by (simp add: eq)
  then have "unat (free_pages s + 1) = card (insert i (free_set s))"
    using assms new total_pages_le [OF assms]
    by (simp add: pages_wf_def unat_plus_if')
  with assms show ?thesis by (simp add: pages_wf_def fs [unfolded eq] eq)
qed

lemma free_page_fields [simp]: "total_pages (free_page a s) = total_pages s" "mem (free_page a s) = mem s"
  by (simp_all add: free_page_def Let_def)

section \<open>Contiguous allocation\<close>

text \<open>
  The scan finds the first fit.  The invariant of the scan: the last \<open>run\<close> pages are free and
  every start before them is blocked by a used page that has been passed.
\<close>

definition blocked :: "(nat \<Rightarrow> bool) \<Rightarrow> nat \<Rightarrow> nat \<Rightarrow> bool" where
  "blocked used count t \<longleftrightarrow> (\<exists>j. t \<le> j \<and> j < t + count \<and> used j)"

lemma find_run_spec:
  assumes "run < count" "run \<le> i" "i \<le> n" "run = 0 \<or> start = i - run"
    and "\<forall>j. i - run \<le> j \<longrightarrow> j < i \<longrightarrow> \<not> used j"
    and "\<forall>t < i - run. blocked used count t"
  shows "case find_run used count [i..<n] run start of
      Some s \<Rightarrow> s + count \<le> n \<and> \<not> blocked used count s \<and> (\<forall>t < s. blocked used count t)
    | None \<Rightarrow> (\<forall>t. t + count \<le> n \<longrightarrow> blocked used count t)"
  using assms
proof (induction "n - i" arbitrary: i run start)
  case 0
  then have "t < i - run" if "t + count \<le> n" for t using that by linarith
  with 0 show ?case by simp
next
  case (Suc d)
  then have upt: "[i..<n] = i # [Suc i..<n]" by (simp add: upt_conv_Cons)
  show ?case
  proof (cases "used i")
    case True
    have "blocked used count t" if "t < Suc i" for t
    proof (cases "t < i - run")
      case False
      with that True Suc.prems(1) show ?thesis by (auto simp: blocked_def intro!: exI [of _ i])
    qed (use Suc.prems(6) in blast)
    then have "case find_run used count [Suc i..<n] 0 start of
        Some s \<Rightarrow> s + count \<le> n \<and> \<not> blocked used count s \<and> (\<forall>t < s. blocked used count t)
      | None \<Rightarrow> (\<forall>t. t + count \<le> n \<longrightarrow> blocked used count t)"
      using Suc by (intro Suc.hyps(1)) auto
    with True show ?thesis by (simp add: upt)
  next
    case False
    let ?start = "if run = 0 then i else start"
    have st: "?start = i - run" using Suc.prems(4) by auto
    have free: "\<forall>j. i - run \<le> j \<longrightarrow> j < Suc i \<longrightarrow> \<not> used j"
      using Suc.prems(5) False by (auto simp: less_Suc_eq)
    show ?thesis
    proof (cases "Suc run = count")
      case True
      then have eq: "find_run used count [i..<n] run start = Some (i - run)"
        using False st by (simp add: upt Let_def)
      have "i - run + count = Suc i" using True Suc.prems(2) by linarith
      then show ?thesis
        using free Suc.prems Suc.hyps(2) by (simp add: eq blocked_def)
    next
      case neq: False
      have "case find_run used count [Suc i..<n] (Suc run) ?start of
          Some s \<Rightarrow> s + count \<le> n \<and> \<not> blocked used count s \<and> (\<forall>t < s. blocked used count t)
        | None \<Rightarrow> (\<forall>t. t + count \<le> n \<longrightarrow> blocked used count t)"
      proof (rule Suc.hyps(1))
        show "d = n - Suc i" using Suc.hyps(2) by simp
      qed (use Suc.prems Suc.hyps(2) neq free st in auto)
      then show ?thesis using False neq by (simp add: upt Let_def)
    qed
  qed
qed

lemma find_run_zero: "find_run used 0 is run start = None"
  by (induction "is" arbitrary: run start) (auto simp: Let_def)

definition fits :: "'a mm_scheme \<Rightarrow> nat \<Rightarrow> nat \<Rightarrow> bool" where
  "fits s count t \<longleftrightarrow> 0 < count \<and> t + count \<le> unat (total_pages s) \<and> {t..<t + count} \<subseteq> free_set s"

lemma fits_blocked:
  "0 < count \<Longrightarrow> fits s count t \<longleftrightarrow>
     t + count \<le> unat (total_pages s) \<and> \<not> blocked (bitmap_test (bitmap s)) count t"
  by (auto simp: fits_def blocked_def free_set_def subset_iff)

lemma alloc_pages_none:
  assumes "\<forall>t. \<not> fits s (unat count) t"
  shows "alloc_pages count s = (s, 0)"
proof (cases "unat count = 0")
  case True
  then show ?thesis by (simp add: alloc_pages_def find_run_zero)
next
  case False
  let ?r = "find_run (bitmap_test (bitmap s)) (unat count) [0..<unat (total_pages s)] 0 0"
  have "?r = None"
    using find_run_spec [of 0 "unat count" 0 "unat (total_pages s)" 0 "bitmap_test (bitmap s)"]
      False assms by (auto simp: fits_blocked split: option.splits)
  then show ?thesis by (simp add: alloc_pages_def)
qed

lemma alloc_pages_first_fit:
  assumes "fits s (unat count) t"
  obtains start where "fits s (unat count) start" "\<forall>t' < start. \<not> fits s (unat count) t'"
    "start \<le> t"
    "alloc_pages count s =
       ((fold mark_used [start..<start + unat count] s)
          \<lparr>mem := memset (mem s) (page_addr start) 0 (count * PAGE_SIZE)\<rparr>, page_addr start)"
proof -
  let ?r = "find_run (bitmap_test (bitmap s)) (unat count) [0..<unat (total_pages s)] 0 0"
  have c: "0 < unat count" using assms by (simp add: fits_def)
  then have spec: "case ?r of
      Some s' \<Rightarrow> s' + unat count \<le> unat (total_pages s)
        \<and> \<not> blocked (bitmap_test (bitmap s)) (unat count) s'
        \<and> (\<forall>t < s'. blocked (bitmap_test (bitmap s)) (unat count) t)
    | None \<Rightarrow> (\<forall>t. t + unat count \<le> unat (total_pages s) \<longrightarrow>
        blocked (bitmap_test (bitmap s)) (unat count) t)"
    by (intro find_run_spec) auto
  then obtain start where r: "?r = Some start"
    using assms c by (auto simp: fits_blocked split: option.splits)
  with spec c have "fits s (unat count) start" "\<forall>t' < start. \<not> fits s (unat count) t'"
    by (auto simp: fits_blocked)
  moreover from this assms have "start \<le> t" by (meson not_less)
  moreover have "alloc_pages count s =
       ((fold mark_used [start..<start + unat count] s)
          \<lparr>mem := memset (mem s) (page_addr start) 0 (count * PAGE_SIZE)\<rparr>, page_addr start)"
    by (simp add: alloc_pages_def r page_addr_def Let_def)
  ultimately show thesis by (rule that)
qed

lemma alloc_pages_wf: "pages_wf s \<Longrightarrow> pages_wf (fst (alloc_pages count s))"
proof (cases "\<exists>t. fits s (unat count) t")
  case True
  then obtain t where "fits s (unat count) t" by blast
  then obtain start where "fits s (unat count) start"
    "alloc_pages count s =
       ((fold mark_used [start..<start + unat count] s)
          \<lparr>mem := memset (mem s) (page_addr start) 0 (count * PAGE_SIZE)\<rparr>, page_addr start)"
    by (rule alloc_pages_first_fit)
  moreover assume "pages_wf s"
  ultimately show ?thesis
    using fold_mark_used [of s "[start..<start + unat count]"] by (simp add: fits_def)
qed (simp add: alloc_pages_none)

lemma alloc_pages_total [simp]: "total_pages (fst (alloc_pages count s)) = total_pages s"
  by (simp add: alloc_pages_def Let_def split: option.split)

section \<open>Start-up\<close>

lemma bitmap_test_zero: "i < 65536 \<Longrightarrow> \<not> bitmap_test (replicate BITMAP_SIZE 0) i"
  by (simp add: bitmap_test_bit BITMAP_SIZE_def)

lemma pages_init_spec:
  fixes s :: "'a mm_scheme" and heap_start total_memory :: u64
  defines "tp \<equiv> min 65536 (unat total_memory div 4096)"
    and "used \<equiv> unat ((heap_start - memory_base + PAGE_SIZE - 1) div PAGE_SIZE)"
  shows "pages_wf (pages_init heap_start total_memory s)"
    and "unat (total_pages (pages_init heap_start total_memory s)) = tp"
    and "free_set (pages_init heap_start total_memory s) = {used..<tp}"
proof -
  define w where
    "w = (if MAX_PAGES < total_memory div PAGE_SIZE then MAX_PAGES else total_memory div PAGE_SIZE)"
  define s0 where "s0 = s\<lparr>total_pages := w, bitmap := replicate BITMAP_SIZE 0, free_pages := w\<rparr>"
  have tp: "unat w = tp"
    by (auto simp: w_def tp_def MAX_PAGES_def PAGE_SIZE_def word_less_nat_alt unat_div)
  have fs: "free_set s0 = {0..<tp}"
    using tp bitmap_test_zero by (auto simp: free_set_def s0_def tp_def)
  have "w \<le> MAX_PAGES" by (auto simp: w_def)
  then have wf: "pages_wf s0" using tp by (simp add: pages_wf_def fs) (simp add: s0_def)
  have eq: "pages_init heap_start total_memory s = fold mark_used [0..<min used tp] s0"
    using tp by (simp add: pages_init_def used_def Let_def w_def s0_def)
  have spec: "pages_wf (fold mark_used [0..<min used tp] s0) \<and>
      free_set (fold mark_used [0..<min used tp] s0) = free_set s0 - set [0..<min used tp]"
    using wf by (intro fold_mark_used) (simp_all add: fs)
  then show "pages_wf (pages_init heap_start total_memory s)" by (simp only: eq)
  have "{0..<tp} - set [0..<min used tp] = {used..<tp}" by auto
  with spec show "free_set (pages_init heap_start total_memory s) = {used..<tp}"
    by (simp only: eq fs)
  show "unat (total_pages (pages_init heap_start total_memory s)) = tp"
    using tp by (simp add: eq s0_def)
qed

section \<open>The interface page clients rely on\<close>

text \<open>
  What the page tables, the kernel heap, the process table and the drivers assume of the
  page allocator: a page that is handed out was not held by anyone, it does not overlap a
  held page, it is cleared, and nothing else in memory changes.
\<close>

locale page_source =
  fixes alloc :: "'s \<Rightarrow> 's \<times> u64"
    and release :: "u64 \<Rightarrow> 's \<Rightarrow> 's"
    and held :: "'s \<Rightarrow> u64 set"
    and store :: "'s \<Rightarrow> ram"
    and inv :: "'s \<Rightarrow> bool"
  assumes inv_alloc: "inv s \<Longrightarrow> inv (fst (alloc s))"
    and inv_release: "inv s \<Longrightarrow> inv (release a s)"
    and alloc_failed: "inv s \<Longrightarrow> snd (alloc s) = 0 \<Longrightarrow> fst (alloc s) = s"
    and alloc_held: "inv s \<Longrightarrow> snd (alloc s) \<noteq> 0 \<Longrightarrow>
      held (fst (alloc s)) = insert (snd (alloc s)) (held s)"
    and alloc_apart: "inv s \<Longrightarrow> snd (alloc s) \<noteq> 0 \<Longrightarrow> b \<in> held s \<Longrightarrow>
      sep (snd (alloc s)) 4096 b 4096"
    and alloc_store: "inv s \<Longrightarrow> snd (alloc s) \<noteq> 0 \<Longrightarrow>
      store (fst (alloc s)) x = (if in_range (snd (alloc s)) 4096 x then 0 else store s x)"
    and release_held: "inv s \<Longrightarrow> a \<in> held s \<Longrightarrow> held (release a s) = held s - {a}"
    and release_store: "store (release a s) = store s"
begin

lemma alloc_fresh: "inv s \<Longrightarrow> snd (alloc s) \<noteq> 0 \<Longrightarrow> snd (alloc s) \<notin> held s"
  using alloc_apart [of s "snd (alloc s)"] by (auto simp: sep_def)

lemma alloc_then_release:
  assumes "inv s" "snd (alloc s) \<noteq> 0"
  shows "held (release (snd (alloc s)) (fst (alloc s))) = held s"
  using assms alloc_fresh [OF assms] by (simp add: release_held inv_alloc alloc_held)

lemma held_memory_kept:
  assumes "inv s" "b \<in> held s" "in_range b 4096 x"
  shows "store (fst (alloc s)) x = store s x"
proof (cases "snd (alloc s) = 0")
  case False
  then have "\<not> in_range (snd (alloc s)) 4096 x"
    using assms alloc_apart [of s b] sep_not_in_range by blast
  with assms False show ?thesis by (simp add: alloc_store)
qed (use assms alloc_failed in simp)

lemma two_allocs_apart:
  assumes "inv s" "snd (alloc s) \<noteq> 0" "snd (alloc (fst (alloc s))) \<noteq> 0"
  shows "sep (snd (alloc (fst (alloc s)))) 4096 (snd (alloc s)) 4096"
  using assms by (intro alloc_apart inv_alloc) (simp_all add: alloc_held)

end

lemma owned_pages_le: "pages_wf s \<Longrightarrow> i \<in> owned_pages s \<Longrightarrow> i < 65536"
  using total_pages_le [of s] by (auto simp: owned_pages_def)

lemma owned_free_disjoint: "owned_pages s \<inter> free_set s = {}"
  by (auto simp: owned_pages_def free_set_def)

lemma page_addr_sep_neq:
  assumes "i < 65536" "j < 65536" "i \<noteq> j"
  shows "sep (page_addr i) 4096 (page_addr j) 4096"
proof (cases "i < j")
  case True
  with assms show ?thesis by (intro page_addr_sep) auto
next
  case False
  with assms have "sep (page_addr j) 4096 (page_addr i) 4096" by (intro page_addr_sep) auto
  then show ?thesis by (rule sep_commute)
qed

lemma alloc_page_owned:
  assumes "pages_wf s" "free_set s \<noteq> {}"
  shows "owned_pages (fst (alloc_page s)) = insert (Min (free_set s)) (owned_pages s)"
proof -
  have "Min (free_set s) \<in> free_set s" using assms by simp
  then show ?thesis
    using free_set_in_bitmap [OF assms(1)] assms(2)
    by (auto simp: alloc_page_first owned_pages_def free_set_def bitmap_test_set)
qed

interpretation pg: page_source alloc_page free_page "\<lambda>s. page_addr ` owned_pages s" mem pages_wf
proof unfold_locales
  fix s :: "'a mm_scheme" and a b x :: u64
  assume wf: "pages_wf s"
  show "pages_wf (fst (alloc_page s))" using wf by (rule alloc_page_wf)
  show "pages_wf (free_page a s)" using wf by (rule free_page_wf)
  show "fst (alloc_page s) = s" if "snd (alloc_page s) = 0"
    using that wf by (simp add: alloc_page_result alloc_page_full)
  {
    assume nz: "snd (alloc_page s) \<noteq> 0"
    then have ne: "free_set s \<noteq> {}" using wf by (simp add: alloc_page_result)
    then have m: "Min (free_set s) \<in> free_set s" by simp
    then have m64: "Min (free_set s) < 65536"
      using total_pages_le [OF wf] by (auto simp: free_set_def)
    show "page_addr ` owned_pages (fst (alloc_page s)) =
        insert (snd (alloc_page s)) (page_addr ` owned_pages s)"
      using wf ne by (simp add: alloc_page_owned) (simp add: alloc_page_first)
    show "sep (snd (alloc_page s)) 4096 b 4096" if b: "b \<in> page_addr ` owned_pages s"
    proof -
      obtain j where j: "b = page_addr j" "j \<in> owned_pages s" using b by blast
      with m owned_free_disjoint have "Min (free_set s) \<noteq> j" by auto
      with j m64 owned_pages_le [OF wf] show ?thesis
        using ne by (simp add: alloc_page_first page_addr_sep_neq)
    qed
    show "mem (fst (alloc_page s)) x =
        (if in_range (snd (alloc_page s)) 4096 x then 0 else mem s x)"
      using ne by (simp add: alloc_page_first memset_eq PAGE_SIZE_def)
  }
  show "page_addr ` owned_pages (free_page a s) = page_addr ` owned_pages s - {a}"
    if a: "a \<in> page_addr ` owned_pages s"
  proof -
    obtain i where i: "a = page_addr i" "i \<in> owned_pages s" using a by blast
    have "inj_on page_addr (owned_pages s)"
      by (rule inj_onI) (use owned_pages_le [OF wf] page_addr_inj in \<open>meson less_imp_le\<close>)
    with i show ?thesis
      using free_set_free_page(2) [OF wf i(2)] by (simp add: inj_on_image_set_diff)
  qed
qed simp

section \<open>Properties\<close>

text \<open>A run of the allocator: any sequence of requests after start-up.\<close>

datatype mm_op = Alloc_page | Alloc_pages u64 | Free_page u64

fun mm_apply :: "mm_op \<Rightarrow> 'a mm_scheme \<Rightarrow> 'a mm_scheme" where
  "mm_apply Alloc_page s = fst (alloc_page s)"
| "mm_apply (Alloc_pages n) s = fst (alloc_pages n s)"
| "mm_apply (Free_page a) s = free_page a s"

text \<open>A kernel image of 1 MB in 256 MB of RAM: the state the examples below start from.\<close>

definition boot_mm :: mm where
  "boot_mm = pages_init 0x40100000 0x10000000
     \<lparr>mem = (\<lambda>_. 0), bitmap = [], total_pages = 0, free_pages = 0\<rparr>"

lemma boot_mm_facts: "pages_wf boot_mm" "unat (total_pages boot_mm) = 65536"
  "free_set boot_mm = {256..<65536}"
  unfolding boot_mm_def pages_init_spec
  by (simp_all add: pages_init_spec memory_base_def PAGE_SIZE_def)

lemma boot_mm_Min: "Min (free_set boot_mm) = 256"
  by (rule Min_eqI) (auto simp: boot_mm_facts)

text \<open>
  C22: after \<open>Pages::init\<close> and any sequence of \<open>alloc_page\<close>, \<open>alloc_pages\<close> and \<open>free_page\<close>
  calls the allocator is consistent: the bitmap keeps its size, the page count never exceeds
  the bitmap, and the counter reported by \<open>get_free_count\<close> is exactly the number of pages
  the bitmap shows as free, so it never wraps.
\<close>

theorem pages_run_consistent:
  "pages_wf (fold mm_apply ops (pages_init heap_start total_memory s))
   \<and> unat (get_free_count (fold mm_apply ops (pages_init heap_start total_memory s))) =
     card (free_set (fold mm_apply ops (pages_init heap_start total_memory s)))"
proof -
  have step: "pages_wf (mm_apply op s)" if "pages_wf s" for op and s :: "'a mm_scheme"
    using that by (cases op) (simp_all add: alloc_page_wf alloc_pages_wf free_page_wf)
  have "pages_wf (fold mm_apply ops s)" if "pages_wf s" for s :: "'a mm_scheme"
    using that by (induction ops arbitrary: s) (simp_all add: step)
  then have "pages_wf (fold mm_apply ops (pages_init heap_start total_memory s))"
    by (simp add: pages_init_spec(1))
  then show ?thesis by (simp add: pages_wf_def get_free_count_def)
qed

text \<open>
  C19: \<open>alloc_page\<close> fails (returns 0, nothing changed) exactly when no page is free;
  otherwise it returns the lowest free page, which is page aligned and inside RAM, marks that
  page and no other, and clears its 4096 bytes and no other byte of memory.
\<close>

theorem alloc_page_lowest_cleared:
  assumes "pages_wf s"
  shows "if free_set s = {} then alloc_page s = (s, 0)
    else (let i = Min (free_set s); s' = fst (alloc_page s) in
      snd (alloc_page s) = page_addr i \<and> page_addr i \<noteq> 0 \<and> i < unat (total_pages s)
      \<and> free_set s' = free_set s - {i}
      \<and> (\<forall>x. mem s' x = (if in_range (page_addr i) 4096 x then 0 else mem s x)))"
proof (cases "free_set s = {}")
  case False
  then have m: "Min (free_set s) \<in> free_set s" by simp
  then have "Min (free_set s) < unat (total_pages s)" by (simp add: free_set_def)
  moreover have "page_addr (Min (free_set s)) \<noteq> 0"
    using calculation total_pages_le [OF assms] by (intro page_addr_nonzero) linarith
  ultimately show ?thesis
    using False assms m
    by (simp add: alloc_page_free_set Let_def)
      (simp add: alloc_page_first memset_eq PAGE_SIZE_def)
qed (simp add: alloc_page_full)

theorem alloc_page_lowest_cleared_witness:
  "snd (alloc_page boot_mm) = 0x40100000
   \<and> free_set (fst (alloc_page boot_mm)) = {256..<65536} - {256}"
  using alloc_page_lowest_cleared [OF boot_mm_facts(1)]
  unfolding boot_mm_Min Let_def
  unfolding boot_mm_facts(3)
  by (simp add: page_addr_def memory_base_def PAGE_SIZE_def)

text \<open>
  C24: \<open>alloc_pages\<close> is a first-fit search for contiguous pages.  It returns 0 and changes
  nothing exactly when no run of \<open>count\<close> free pages exists (always for \<open>count = 0\<close>); otherwise
  it returns the start of the lowest such run, takes exactly the pages of that run, and clears
  exactly their bytes.
\<close>

theorem alloc_pages_first_fit_cleared:
  assumes "pages_wf s"
  shows "if (\<exists>t. fits s (unat count) t)
    then (\<exists>start. fits s (unat count) start \<and> (\<forall>t < start. \<not> fits s (unat count) t)
      \<and> snd (alloc_pages count s) = page_addr start
      \<and> free_set (fst (alloc_pages count s)) = free_set s - {start..<start + unat count}
      \<and> (\<forall>x. mem (fst (alloc_pages count s)) x =
            (if in_range (page_addr start) (unat count * 4096) x then 0 else mem s x)))
    else alloc_pages count s = (s, 0)"
proof (cases "\<exists>t. fits s (unat count) t")
  case True
  then obtain t where "fits s (unat count) t" by blast
  then obtain start where fit: "fits s (unat count) start"
      and least: "\<forall>t' < start. \<not> fits s (unat count) t'"
      and eq: "alloc_pages count s =
        ((fold mark_used [start..<start + unat count] s)
          \<lparr>mem := memset (mem s) (page_addr start) 0 (count * PAGE_SIZE)\<rparr>, page_addr start)"
    by (rule alloc_pages_first_fit)
  have "unat count \<le> 65536"
    using fit total_pages_le [OF assms] by (simp add: fits_def)
  then have n: "unat (count * PAGE_SIZE) = unat count * 4096"
    by (simp add: unat_word_ariths PAGE_SIZE_def)
  have "free_set (fold mark_used [start..<start + unat count] s) =
      free_set s - {start..<start + unat count}"
    using fold_mark_used [OF assms, of "[start..<start + unat count]"] fit by (simp add: fits_def)
  then show ?thesis using True fit least n by (auto simp: eq memset_eq)
qed (simp add: alloc_pages_none)

lemma boot_mm_fits: "fits boot_mm 4 t \<longleftrightarrow> 256 \<le> t \<and> t + 4 \<le> 65536"
proof
  assume "fits boot_mm 4 t"
  moreover from this have "t \<in> {256..<65536}"
    by (auto simp: fits_def boot_mm_facts)
  ultimately show "256 \<le> t \<and> t + 4 \<le> 65536" by (simp add: fits_def boot_mm_facts)
next
  assume "256 \<le> t \<and> t + 4 \<le> 65536"
  then show "fits boot_mm 4 t" by (simp add: fits_def boot_mm_facts)
qed

theorem alloc_pages_first_fit_cleared_witness:
  "snd (alloc_pages 4 boot_mm) = 0x40100000"
proof -
  have "\<exists>t. fits boot_mm (unat (4 :: u64)) t" by (intro exI [of _ 256]) (simp add: boot_mm_fits)
  then obtain start where s: "fits boot_mm 4 start" "\<forall>t < start. \<not> fits boot_mm 4 t"
      "snd (alloc_pages 4 boot_mm) = page_addr start"
    using alloc_pages_first_fit_cleared [OF boot_mm_facts(1), of 4] by auto
  have "start = 256"
    using s(1) s(2) [rule_format, of 256] by (cases "256 < start") (simp_all add: boot_mm_fits)
  with s(3) show ?thesis by (simp add: page_addr_def memory_base_def PAGE_SIZE_def)
qed

text \<open>
  C19: \<open>free_page\<close> undoes \<open>alloc_page\<close> (the set of pages held is what it was), and freeing
  twice is the same as freeing once: a page already free, an address below RAM and an address
  past the last page are ignored.
\<close>

theorem free_page_undoes_and_idempotent:
  assumes "pages_wf s"
  shows "(snd (alloc_page s) \<noteq> 0 \<longrightarrow>
           owned_pages (free_page (snd (alloc_page s)) (fst (alloc_page s))) = owned_pages s)
       \<and> free_page a (free_page a s) = free_page a s"
proof
  have "owned_pages (free_page (page_addr i) s') = owned_pages s' - {i}"
    if "pages_wf s'" "i \<in> owned_pages s'" for i and s' :: "'a mm_scheme"
    using that by (rule free_set_free_page(2))
  show "snd (alloc_page s) \<noteq> 0 \<longrightarrow>
      owned_pages (free_page (snd (alloc_page s)) (fst (alloc_page s))) = owned_pages s"
  proof
    assume "snd (alloc_page s) \<noteq> 0"
    then have ne: "free_set s \<noteq> {}" using assms by (simp add: alloc_page_result)
    let ?i = "Min (free_set s)"
    have "?i \<in> owned_pages (fst (alloc_page s))"
      using ne assms by (simp add: alloc_page_owned)
    then have "owned_pages (free_page (page_addr ?i) (fst (alloc_page s))) =
        insert ?i (owned_pages s) - {?i}"
      using free_set_free_page(2) [OF alloc_page_wf [OF assms], of ?i] alloc_page_owned [OF assms ne]
      by simp
    moreover have "?i \<notin> owned_pages s"
      using Min_in [OF finite_free_set ne] owned_free_disjoint by blast
    ultimately show "owned_pages (free_page (snd (alloc_page s)) (fst (alloc_page s))) = owned_pages s"
      using ne by (simp add: alloc_page_first)
  qed
  show "free_page a (free_page a s) = free_page a s"
  proof (cases "free_page a s = s")
    case False
    define i where "i = unat ((a - memory_base) div PAGE_SIZE)"
    have "i < unat (total_pages s)"
      using False by (auto simp: free_page_def i_def Let_def word_less_nat_alt split: if_splits)
    then have "i div 8 < length (bitmap s)" by (rule page_in_bitmap [OF assms])
    then have "\<not> bitmap_test (bitmap (free_page a s)) i"
      using False by (auto simp: free_page_def i_def Let_def bitmap_test_clear split: if_splits)
    then show ?thesis by (intro free_page_ignored) (simp add: i_def)
  qed simp
qed

theorem free_page_undoes_and_idempotent_witness:
  "snd (alloc_page boot_mm) \<noteq> 0
   \<and> owned_pages (free_page (snd (alloc_page boot_mm)) (fst (alloc_page boot_mm))) = owned_pages boot_mm
   \<and> free_page 0x40000000 (free_page 0x40000000 boot_mm) = free_page 0x40000000 boot_mm"
proof -
  have "snd (alloc_page boot_mm) \<noteq> 0"
    using alloc_page_result [OF boot_mm_facts(1)] boot_mm_facts(3) by simp
  then show ?thesis
    using free_page_undoes_and_idempotent [OF boot_mm_facts(1), of "0x40000000"] by simp
qed

end
