(* ===== verification/Arch.thy ===== *)
theory Arch
  imports Pages
begin

text \<open>
  The processor and its devices as the kernel sees them: src/src/arch/aarch64.h and
  src/src/arch/mmio.h.  The record \<open>cpu\<close> extends the memory state with the IRQ mask, the
  system registers the kernel writes, and the chronological log of device accesses.  Device
  hardware is a parameter: a \<open>device\<close> answers each read from the accesses made so far, so a
  polling loop sees whatever the hardware decides to show it.  The barriers \<open>dsb\<close>, \<open>dmb\<close>,
  \<open>isb\<close> and the hints \<open>wfi\<close>, \<open>wfe\<close> have no effect on this sequentially consistent state.
\<close>

datatype mmio_event =
    Write32 u64 u32 | Read32 u64 u32
  | Write16 u64 u16 | Read16 u64 u16
  | Write8 u64 u8 | Read8 u64 u8

type_synonym device = "mmio_event list \<Rightarrow> u64 \<Rightarrow> u32"

record cpu = mm +
  irq_enabled :: bool
  mair_el1 :: u64
  tcr_el1 :: u64
  ttbr0_el1 :: u64
  sctlr_el1 :: u64
  vbar_el1 :: u64
  cntp_tval_el0 :: u64
  cntp_ctl_el0 :: u64
  mmio :: "mmio_event list"

definition enable_interrupts :: "'a cpu_scheme \<Rightarrow> 'a cpu_scheme" where
  "enable_interrupts s = s\<lparr>irq_enabled := True\<rparr>"

definition disable_interrupts :: "'a cpu_scheme \<Rightarrow> 'a cpu_scheme" where
  "disable_interrupts s = s\<lparr>irq_enabled := False\<rparr>"

definition write32 :: "u64 \<Rightarrow> u32 \<Rightarrow> 'a cpu_scheme \<Rightarrow> 'a cpu_scheme" where
  "write32 a v s = s\<lparr>mmio := mmio s @ [Write32 a v]\<rparr>"

definition read32 :: "device \<Rightarrow> u64 \<Rightarrow> 'a cpu_scheme \<Rightarrow> 'a cpu_scheme \<times> u32" where
  "read32 dev a s = (let v = dev (mmio s) a in (s\<lparr>mmio := mmio s @ [Read32 a v]\<rparr>, v))"

definition write16 :: "u64 \<Rightarrow> u16 \<Rightarrow> 'a cpu_scheme \<Rightarrow> 'a cpu_scheme" where
  "write16 a v s = s\<lparr>mmio := mmio s @ [Write16 a v]\<rparr>"

definition read16 :: "device \<Rightarrow> u64 \<Rightarrow> 'a cpu_scheme \<Rightarrow> 'a cpu_scheme \<times> u16" where
  "read16 dev a s = (let v = ucast (dev (mmio s) a) in (s\<lparr>mmio := mmio s @ [Read16 a v]\<rparr>, v))"

definition write8 :: "u64 \<Rightarrow> u8 \<Rightarrow> 'a cpu_scheme \<Rightarrow> 'a cpu_scheme" where
  "write8 a v s = s\<lparr>mmio := mmio s @ [Write8 a v]\<rparr>"

definition read8 :: "device \<Rightarrow> u64 \<Rightarrow> 'a cpu_scheme \<Rightarrow> 'a cpu_scheme \<times> u8" where
  "read8 dev a s = (let v = ucast (dev (mmio s) a) in (s\<lparr>mmio := mmio s @ [Read8 a v]\<rparr>, v))"

lemma interrupt_mask_fields [simp]:
  "mem (enable_interrupts s) = mem s" "mem (disable_interrupts s) = mem s"
  "irq_enabled (enable_interrupts s)" "\<not> irq_enabled (disable_interrupts s)"
  "mmio (enable_interrupts s) = mmio s" "mmio (disable_interrupts s) = mmio s"
  by (simp_all add: enable_interrupts_def disable_interrupts_def)

lemma pages_wf_interrupts [simp]:
  "pages_wf (enable_interrupts s) = pages_wf s" "pages_wf (disable_interrupts s) = pages_wf s"
  by (simp_all add: enable_interrupts_def disable_interrupts_def pages_wf_def free_set_def)

end
