(* ===== verification/Heap.thy ===== *)
theory Heap
  imports Arch
begin

text \<open>
  The kernel heap, src/src/mm/heap.cpp, at the level of bytes.  A block header is the 32
  bytes of \<open>struct Block\<close> as the AArch64 ABI lays it out: \<open>size\<close> at offset 0, the one byte
  \<open>used\<close> at 8, \<open>next\<close> at 16 and \<open>prev\<close> at 24.  Every field access of the code is a load or
  a store in \<open>mem\<close>.  The loops that follow \<open>next\<close> are \<open>partial_function (option)\<close>: a
  corrupted cyclic list would make them run forever.

  The specification is a list of blocks (size and used flag).  \<open>chain\<close> relates it to memory,
  \<open>heap_inv\<close> adds that the blocks tile the heap exactly, that sizes are multiples of eight
  and that no two neighbours are both free.  The lemmas show that \<open>kmalloc\<close> and \<open>kfree\<close> are
  \<open>h_alloc\<close> and \<open>h_merge\<close> on that list and leave every payload in use alone.
\<close>

section \<open>State and operations\<close>

record heap = cpu +
  first_block :: u64

definition HEAP_SIZE :: usize where "HEAP_SIZE = 0x100000"
definition HEAP_PAGES :: usize where "HEAP_PAGES = HEAP_SIZE div PAGE_SIZE"
definition MIN_BLOCK :: usize where "MIN_BLOCK = 16"
definition ALIGNMENT :: usize where "ALIGNMENT = 8"
definition BLOCK_HEADER :: usize where "BLOCK_HEADER = 32"

definition b_size :: "ram \<Rightarrow> u64 \<Rightarrow> usize" where "b_size m b = load64 m b"
definition b_used :: "ram \<Rightarrow> u64 \<Rightarrow> bool" where "b_used m b \<longleftrightarrow> m (b + 8) \<noteq> 0"
definition b_next :: "ram \<Rightarrow> u64 \<Rightarrow> u64" where "b_next m b = load64 m (b + 16)"
definition b_prev :: "ram \<Rightarrow> u64 \<Rightarrow> u64" where "b_prev m b = load64 m (b + 24)"

definition set_size :: "u64 \<Rightarrow> usize \<Rightarrow> ram \<Rightarrow> ram" where "set_size b v m = store64 m b v"
definition set_used :: "u64 \<Rightarrow> bool \<Rightarrow> ram \<Rightarrow> ram" where "set_used b v m = m(b + 8 := of_bool v)"
definition set_next :: "u64 \<Rightarrow> u64 \<Rightarrow> ram \<Rightarrow> ram" where "set_next b v m = store64 m (b + 16) v"
definition set_prev :: "u64 \<Rightarrow> u64 \<Rightarrow> ram \<Rightarrow> ram" where "set_prev b v m = store64 m (b + 24) v"

definition heap_init :: "'a heap_scheme \<Rightarrow> 'a heap_scheme" where
  "heap_init s =
     (let (s, heap_base) = alloc_pages HEAP_PAGES s
      in if heap_base = 0 then s
         else s\<lparr>first_block := heap_base,
                mem := set_prev heap_base 0 (set_next heap_base 0 (set_used heap_base False
                         (set_size heap_base (HEAP_SIZE - BLOCK_HEADER) (mem s))))\<rparr>)"

definition align_size :: "usize \<Rightarrow> usize" where
  "align_size sz =
     (let sz = (sz + ALIGNMENT - 1) AND NOT (ALIGNMENT - 1)
      in if sz < MIN_BLOCK then MIN_BLOCK else sz)"

partial_function (option) find_block :: "ram \<Rightarrow> u64 \<Rightarrow> usize \<Rightarrow> u64 option" where
  "find_block m block sz =
     (if block = 0 then Some 0
      else if \<not> b_used m block \<and> sz \<le> b_size m block then Some block
      else find_block m (b_next m block) sz)"

definition split_block :: "u64 \<Rightarrow> usize \<Rightarrow> ram \<Rightarrow> ram" where
  "split_block block sz m =
     (if sz + BLOCK_HEADER + MIN_BLOCK \<le> b_size m block
      then let new_block = block + BLOCK_HEADER + sz;
               m = set_size new_block (b_size m block - sz - BLOCK_HEADER) m;
               m = set_used new_block False m;
               m = set_next new_block (b_next m block) m;
               m = set_prev new_block block m;
               m = (if b_next m block \<noteq> 0 then set_prev (b_next m block) new_block m else m);
               m = set_next block new_block m
           in set_size block sz m
      else m)"

definition kmalloc :: "usize \<Rightarrow> 'a heap_scheme \<Rightarrow> ('a heap_scheme \<times> u64) option" where
  "kmalloc sz s =
     (if sz = 0 then Some (s, 0)
      else let sz = align_size sz;
               s = disable_interrupts s
           in Option.bind (find_block (mem s) (first_block s) sz) (\<lambda>block.
                if block \<noteq> 0
                then let s = s\<lparr>mem := set_used block True (split_block block sz (mem s))\<rparr>
                     in Some (enable_interrupts s, block + BLOCK_HEADER)
                else Some (enable_interrupts s, 0)))"

definition coalesce_next :: "u64 \<Rightarrow> ram \<Rightarrow> ram" where
  "coalesce_next block m =
     (if b_next m block \<noteq> 0 \<and> \<not> b_used m (b_next m block)
      then let m = set_size block (b_size m block + (BLOCK_HEADER + b_size m (b_next m block))) m;
               m = set_next block (b_next m (b_next m block)) m
           in if b_next m block \<noteq> 0 then set_prev (b_next m block) block m else m
      else m)"

definition coalesce_prev :: "u64 \<Rightarrow> ram \<Rightarrow> ram" where
  "coalesce_prev block m =
     (if b_prev m block \<noteq> 0 \<and> \<not> b_used m (b_prev m block)
      then let m = set_size (b_prev m block)
                     (b_size m (b_prev m block) + (BLOCK_HEADER + b_size m block)) m;
               m = set_next (b_prev m block) (b_next m block) m
           in if b_next m block \<noteq> 0 then set_prev (b_next m block) (b_prev m block) m else m
      else m)"

definition kfree :: "u64 \<Rightarrow> 'a heap_scheme \<Rightarrow> 'a heap_scheme" where
  "kfree ptr s =
     (if ptr = 0 then s
      else let s = disable_interrupts s;
               block = ptr - BLOCK_HEADER;
               m = set_used block False (mem s);
               m = coalesce_next block m;
               m = coalesce_prev block m
           in enable_interrupts (s\<lparr>mem := m\<rparr>))"

partial_function (option) sum_blocks :: "bool \<Rightarrow> ram \<Rightarrow> u64 \<Rightarrow> usize \<Rightarrow> usize option" where
  "sum_blocks u m b acc =
     (if b = 0 then Some acc
      else sum_blocks u m (b_next m b) (if b_used m b = u then acc + b_size m b else acc))"

definition get_used :: "'a heap_scheme \<Rightarrow> usize option" where
  "get_used s = sum_blocks True (mem s) (first_block s) 0"

definition get_free :: "'a heap_scheme \<Rightarrow> usize option" where
  "get_free s = sum_blocks False (mem s) (first_block s) 0"

section \<open>Header fields\<close>

named_theorems hdr_simps "block header fields over header updates"

text \<open>\<open>ad\<close> places a natural-number address in the address space without being unfolded.\<close>

definition ad :: "nat \<Rightarrow> u64" where "ad n = of_nat n"

definition apart :: "nat \<Rightarrow> nat \<Rightarrow> nat \<Rightarrow> nat \<Rightarrow> bool" where
  "apart c k a n \<longleftrightarrow> (c + k \<le> a \<or> a + n \<le> c) \<and> c + k \<le> 2 ^ 64 \<and> a + n \<le> 2 ^ 64"

lemma unat_ad [simp]: "a < 2 ^ 64 \<Longrightarrow> unat (ad a) = a"
  by (simp add: ad_def)

lemma ad_unat [simp]: "ad (unat w) = w"
  by (simp add: ad_def)

lemma ad_eq_0 [simp]: "a < 2 ^ 64 \<Longrightarrow> ad a = 0 \<longleftrightarrow> a = 0"
  using unat_ad [of a] by (auto simp: word_unat_eq_iff)

lemma ad_plus: "ad a + ad b = ad (a + b)"
  by (simp add: ad_def)

lemma ad_in_range: "a + n \<le> 2 ^ 64 \<Longrightarrow> in_range (ad a) n x \<longleftrightarrow> a \<le> unat x \<and> unat x < a + n"
proof -
  assume a: "a + n \<le> 2 ^ 64"
  show ?thesis
  proof (cases "n = 0")
    case False
    with a have "a < 2 ^ 64" by linarith
    then show ?thesis
      using a unat_lt_u64 [of x] by (auto simp: in_range_def unat_sub_if')
  qed simp
qed

lemma field_sep:
  assumes "i + n \<le> j \<or> j + k \<le> i" and "i + n \<le> 32" and "j + k \<le> 32" and "0 < n" and "0 < k"
  shows "sep (b + of_nat i) n (b + of_nat j) k"
  using assms(1)
proof
  assume "i + n \<le> j"
  with assms show ?thesis by (intro sep_offsets) auto
next
  assume "j + k \<le> i"
  with assms show ?thesis by (intro sep_commute [OF sep_offsets]) auto
qed

lemmas block_fields = b_size_def b_used_def b_next_def b_prev_def
lemmas block_stores = set_size_def set_used_def set_next_def set_prev_def

lemma hdr_same [hdr_simps, simp]:
  "b_size (set_size b v m) b = v" "b_used (set_size b v m) b = b_used m b"
  "b_next (set_size b v m) b = b_next m b" "b_prev (set_size b v m) b = b_prev m b"
  "b_size (set_used b u m) b = b_size m b" "b_used (set_used b u m) b = u"
  "b_next (set_used b u m) b = b_next m b" "b_prev (set_used b u m) b = b_prev m b"
  "b_size (set_next b v m) b = b_size m b" "b_used (set_next b v m) b = b_used m b"
  "b_next (set_next b v m) b = v" "b_prev (set_next b v m) b = b_prev m b"
  "b_size (set_prev b v m) b = b_size m b" "b_used (set_prev b v m) b = b_used m b"
  "b_next (set_prev b v m) b = b_next m b" "b_prev (set_prev b v m) b = v"
  using field_sep [of 0 8 16 8 b] field_sep [of 0 8 24 8 b] field_sep [of 16 8 24 8 b]
    field_sep [of 16 8 0 8 b] field_sep [of 24 8 0 8 b] field_sep [of 24 8 16 8 b]
    field_sep [of 8 1 0 8 b] field_sep [of 8 1 16 8 b] field_sep [of 8 1 24 8 b]
    sep_not_in_range [OF field_sep [of 0 8 8 1 b], of "b + 8"]
    sep_not_in_range [OF field_sep [of 16 8 8 1 b], of "b + 8"]
    sep_not_in_range [OF field_sep [of 24 8 8 1 b], of "b + 8"]
  by (simp_all add: block_fields block_stores load64_store64_sep load64_upd_sep store64_other)

text \<open>A header store changes only the 32 bytes of that header.\<close>

lemma field_in_header: "\<not> in_range b 32 x \<Longrightarrow> i + n \<le> 32 \<Longrightarrow> \<not> in_range (b + of_nat i) n x"
proof
  assume a: "\<not> in_range b 32 x" "i + n \<le> 32" "in_range (b + of_nat i) n x"
  define d where "d = x - (b + of_nat i)"
  have d: "unat d < n" using a(3) by (simp add: in_range_def d_def)
  have "unat d + unat (of_nat i :: u64) < 2 ^ 64" using d a(2) by simp
  then have "unat (d + of_nat i) = unat d + i"
    using unat_add_small [of d "of_nat i"] a(2) by simp
  moreover have "x - b = d + of_nat i" by (simp add: d_def)
  ultimately show False using d a by (simp add: in_range_def)
qed

lemma header_store_frame:
  assumes "\<not> in_range b 32 x"
  shows "set_size b v m x = m x" "set_used b u m x = m x" "set_next b v m x = m x"
    "set_prev b v m x = m x"
  using field_in_header [OF assms, of 0 8] field_in_header [OF assms, of 8 1]
    field_in_header [OF assms, of 16 8] field_in_header [OF assms, of 24 8]
  by (auto simp: block_stores store64_other in_range_def)

lemma header_cong:
  assumes "\<And>x. in_range b 32 x \<Longrightarrow> m' x = m x"
  shows "b_size m' b = b_size m b" "b_used m' b = b_used m b" "b_next m' b = b_next m b"
    "b_prev m' b = b_prev m b"
proof -
  have f: "m' x = m x" if "in_range (b + of_nat i) n x" "i + n \<le> 32" for i n x
    using that assms field_in_header [of b x i n] by blast
  show "b_size m' b = b_size m b" "b_next m' b = b_next m b" "b_prev m' b = b_prev m b"
    using f [of 0 8] f [of 16 8] f [of 24 8] by (auto simp: block_fields intro!: load64_cong)
  show "b_used m' b = b_used m b" using f [of 8 1 "b + 8"] by (simp add: block_fields)
qed

lemma apart_ranges: "apart c k a n \<Longrightarrow> in_range (ad a) n x \<Longrightarrow> \<not> in_range (ad c) k x"
  by (auto simp: apart_def ad_in_range)

lemma hdr_other [hdr_simps]:
  assumes "apart c 32 a 32"
  shows
  "b_size (set_size (ad c) v m) (ad a) = b_size m (ad a)" "b_used (set_size (ad c) v m) (ad a) = b_used m (ad a)"
  "b_next (set_size (ad c) v m) (ad a) = b_next m (ad a)" "b_prev (set_size (ad c) v m) (ad a) = b_prev m (ad a)"
  "b_size (set_used (ad c) u m) (ad a) = b_size m (ad a)" "b_used (set_used (ad c) u m) (ad a) = b_used m (ad a)"
  "b_next (set_used (ad c) u m) (ad a) = b_next m (ad a)" "b_prev (set_used (ad c) u m) (ad a) = b_prev m (ad a)"
  "b_size (set_next (ad c) v m) (ad a) = b_size m (ad a)" "b_used (set_next (ad c) v m) (ad a) = b_used m (ad a)"
  "b_next (set_next (ad c) v m) (ad a) = b_next m (ad a)" "b_prev (set_next (ad c) v m) (ad a) = b_prev m (ad a)"
  "b_size (set_prev (ad c) v m) (ad a) = b_size m (ad a)" "b_used (set_prev (ad c) v m) (ad a) = b_used m (ad a)"
  "b_next (set_prev (ad c) v m) (ad a) = b_next m (ad a)" "b_prev (set_prev (ad c) v m) (ad a) = b_prev m (ad a)"
  using header_store_frame [OF apart_ranges [OF assms]] by (auto intro!: header_cong)

section \<open>The block list\<close>

type_synonym blocks = "(nat \<times> bool) list"

definition seglen :: "blocks \<Rightarrow> nat" where
  "seglen bs = sum_list (map (\<lambda>(n, u). n + 32) bs)"

text \<open>
  \<open>chain m a p bs q\<close>: the blocks \<open>bs\<close> lie one after another from address \<open>a\<close>, the first
  one's \<open>prev\<close> is \<open>p\<close>, the last one's \<open>next\<close> is \<open>q\<close>, and all other links are right.
\<close>

fun chain :: "ram \<Rightarrow> nat \<Rightarrow> u64 \<Rightarrow> blocks \<Rightarrow> u64 \<Rightarrow> bool" where
  "chain m a p [] q \<longleftrightarrow> True"
| "chain m a p ((n, u) # bs) q \<longleftrightarrow>
     b_size m (ad a) = ad n \<and> b_used m (ad a) = u \<and> b_prev m (ad a) = p
     \<and> b_next m (ad a) = (if bs = [] then q else ad (a + 32 + n))
     \<and> chain m (a + 32 + n) (ad a) bs q"

lemma seglen_simps [simp]:
  "seglen [] = 0" "seglen ((n, u) # bs) = n + 32 + seglen bs" "seglen (xs @ ys) = seglen xs + seglen ys"
  by (simp_all add: seglen_def)

lemma seglen_pos: "bs \<noteq> [] \<Longrightarrow> 32 \<le> seglen bs"
  by (cases bs) auto

lemma chain_append:
  "chain m a p (xs @ ys) q \<longleftrightarrow>
     chain m a p xs (if ys = [] then q else ad (a + seglen xs))
     \<and> chain m (a + seglen xs) (if xs = [] then p else ad (a + seglen (butlast xs))) ys q"
  by (induction xs arbitrary: a p) (auto simp: ac_simps)

lemma chain_cong:
  assumes "\<And>x. in_range (ad a) (seglen bs) x \<Longrightarrow> m' x = m x" and "a + seglen bs \<le> 2 ^ 64"
  shows "chain m' a p bs q = chain m a p bs q"
  using assms
proof (induction bs arbitrary: a p)
  case (Cons b bs)
  obtain n u where b: "b = (n, u)" by fastforce
  have "m' x = m x" if "in_range (ad a) 32 x" for x
    using that Cons.prems by (intro Cons.prems(1)) (simp add: ad_in_range b)
  note h = header_cong [OF this]
  have "m' x = m x" if "in_range (ad (a + 32 + n)) (seglen bs) x" for x
    using that Cons.prems by (intro Cons.prems(1)) (simp add: ad_in_range b)
  then have "chain m' (a + 32 + n) (ad a) bs q = chain m (a + 32 + n) (ad a) bs q"
    using Cons.prems(2) by (intro Cons.IH) (simp_all add: b)
  with h show ?case by (simp add: b)
qed simp

lemma chain_store [hdr_simps]:
  assumes "apart c 32 a (seglen bs)"
  shows "chain (set_size (ad c) v m) a p bs q = chain m a p bs q"
    "chain (set_used (ad c) u m) a p bs q = chain m a p bs q"
    "chain (set_next (ad c) v m) a p bs q = chain m a p bs q"
    "chain (set_prev (ad c) v m) a p bs q = chain m a p bs q"
  using assms header_store_frame [OF apart_ranges [OF assms]]
  by (auto simp: apart_def intro!: chain_cong)

lemma chain_relink:
  assumes "chain m a p bs q" and "bs \<noteq> []" and "a + seglen bs \<le> 2 ^ 64"
  shows "chain (set_prev (ad a) p' m) a p' bs q"
  using assms by (cases bs) (auto simp: chain_store(4) apart_def)

section \<open>The list specification\<close>

fun fit_split :: "nat \<Rightarrow> blocks \<Rightarrow> (blocks \<times> nat \<times> blocks) option" where
  "fit_split k [] = None"
| "fit_split k ((n, u) # bs) =
     (if \<not> u \<and> k \<le> n then Some ([], n, bs)
      else map_option (\<lambda>(xs, n', ys). ((n, u) # xs, n', ys)) (fit_split k bs))"

definition take_block :: "nat \<Rightarrow> nat \<Rightarrow> blocks" where
  "take_block k n = (if k + 48 \<le> n then [(k, True), (n - k - 32, False)] else [(n, True)])"

definition h_alloc :: "nat \<Rightarrow> blocks \<Rightarrow> (nat \<times> blocks) option" where
  "h_alloc k bs = map_option (\<lambda>(xs, n, ys). (seglen xs + 32, xs @ take_block k n @ ys)) (fit_split k bs)"

fun merge_next :: "nat \<Rightarrow> blocks \<Rightarrow> nat \<times> blocks" where
  "merge_next n ((k, False) # ys) = (n + 32 + k, ys)"
| "merge_next n ys = (n, ys)"

definition merge_prev :: "blocks \<Rightarrow> nat \<Rightarrow> blocks \<Rightarrow> blocks" where
  "merge_prev xs n ys =
     (if xs \<noteq> [] \<and> \<not> snd (last xs) then butlast xs @ (fst (last xs) + 32 + n, False) # ys
      else xs @ (n, False) # ys)"

definition h_merge :: "blocks \<Rightarrow> nat \<Rightarrow> blocks \<Rightarrow> blocks" where
  "h_merge xs n ys = (case merge_next n ys of (n', ys') \<Rightarrow> merge_prev xs n' ys')"

definition no_adjacent_free :: "blocks \<Rightarrow> bool" where
  "no_adjacent_free bs \<longleftrightarrow> successively (\<lambda>b c. snd b \<or> snd c) bs"

definition sizes_ok :: "blocks \<Rightarrow> bool" where
  "sizes_ok bs \<longleftrightarrow> (\<forall>(n, u) \<in> set bs. 8 dvd n \<and> 16 \<le> n)"

definition heap_inv :: "'a heap_scheme \<Rightarrow> blocks \<Rightarrow> bool" where
  "heap_inv s bs \<longleftrightarrow>
     first_block s \<noteq> 0 \<and> unat (first_block s) + 2 ^ 20 \<le> 2 ^ 64 \<and> seglen bs = 2 ^ 20
     \<and> chain (mem s) (unat (first_block s)) 0 bs 0 \<and> sizes_ok bs \<and> no_adjacent_free bs"

lemma fit_split_Some:
  "fit_split k bs = Some (xs, n, ys) \<Longrightarrow>
     bs = xs @ (n, False) # ys \<and> k \<le> n \<and> (\<forall>(n', u) \<in> set xs. u \<or> n' < k)"
  by (induction k bs arbitrary: xs rule: fit_split.induct) (auto split: if_splits)

lemma fit_split_None: "fit_split k bs = None \<longleftrightarrow> (\<forall>(n, u) \<in> set bs. u \<or> n < k)"
  by (induction k bs rule: fit_split.induct) auto

lemma seglen_member: "(n, u) \<in> set bs \<Longrightarrow> n + 32 \<le> seglen bs"
  by (induction bs) auto

lemma find_block_chain:
  assumes "chain m a p bs 0" and "0 < a" and "a + seglen bs \<le> 2 ^ 64"
  shows "find_block m (if bs = [] then 0 else ad a) sz =
    Some (case fit_split (unat sz) bs of None \<Rightarrow> 0 | Some (xs, _) \<Rightarrow> ad (a + seglen xs))"
  using assms
proof (induction bs arbitrary: a p)
  case Nil
  then show ?case by (subst find_block.simps) simp
next
  case (Cons b bs)
  obtain n u where b: "b = (n, u)" by fastforce
  have "ad a \<noteq> 0" "sz \<le> ad n \<longleftrightarrow> unat sz \<le> n"
    using Cons.prems by (simp_all add: b word_le_nat_alt)
  moreover have "find_block m (if bs = [] then 0 else ad (a + 32 + n)) sz =
      Some (case fit_split (unat sz) bs of None \<Rightarrow> 0 | Some (xs, _) \<Rightarrow> ad (a + 32 + n + seglen xs))"
    using Cons.prems by (intro Cons.IH [of "a + 32 + n" "ad a"]) (simp_all add: b)
  ultimately show ?case
    using Cons.prems
    by (subst find_block.simps) (auto simp: b ac_simps split: option.splits if_splits)
qed

section \<open>\<open>kmalloc\<close> on the block list\<close>

lemma split_condition:
  "k \<le> n \<Longrightarrow> n \<le> 2 ^ 20 \<Longrightarrow> ad k + BLOCK_HEADER + MIN_BLOCK \<le> ad n \<longleftrightarrow> k + 48 \<le> n"
  by (auto simp: BLOCK_HEADER_def MIN_BLOCK_def word_le_nat_alt unat_plus_if')

lemma ad_diff: "b \<le> a \<Longrightarrow> ad a - ad b = ad (a - b)"
  by (simp add: ad_def of_nat_diff)

lemma ad_32: "BLOCK_HEADER = ad 32"
  by (simp add: ad_def BLOCK_HEADER_def)

lemma split_block_mem:
  fixes m b n k q
  defines "c \<equiv> b + 32 + k"
  assumes "b_size m (ad b) = ad n" "b_next m (ad b) = q" "k + 48 \<le> n" "n \<le> 2 ^ 20"
    and "b + 32 + n \<le> 2 ^ 64"
  shows "set_used (ad b) True (split_block (ad b) (ad k) m) =
    set_used (ad b) True (set_size (ad b) (ad k) (set_next (ad b) (ad c)
      ((if q \<noteq> 0 then set_prev q (ad c) else id)
        (set_prev (ad c) (ad b) (set_next (ad c) q (set_used (ad c) False
          (set_size (ad c) (ad (n - k - 32)) m)))))))"
proof -
  have ap: "apart c 32 b 32" using assms by (auto simp: apart_def)
  have "ad k + BLOCK_HEADER + MIN_BLOCK \<le> b_size m (ad b)"
    using assms split_condition [of k n] by simp
  moreover have "ad b + BLOCK_HEADER + ad k = ad c" by (simp add: ad_32 ad_plus c_def)
  moreover have "ad n - ad k - BLOCK_HEADER = ad (n - k - 32)"
    using assms by (simp add: ad_32 ad_diff)
  ultimately show ?thesis
    unfolding split_block_def using ap assms by (simp add: Let_def hdr_other)
qed

lemma take_block_chain:
  fixes xs n ys a k m
  defines "b \<equiv> a + seglen xs"
  assumes ch: "chain m a p (xs @ (n, False) # ys) 0" and k: "k \<le> n" and n: "n \<le> 2 ^ 20"
    and lim: "0 < a" "a + seglen (xs @ (n, False) # ys) \<le> 2 ^ 64"
  shows "chain (set_used (ad b) True (split_block (ad b) (ad k) m)) a p (xs @ take_block k n @ ys) 0"
proof -
  let ?e = "b + 32 + n" and ?q = "if ys = [] then 0 else ad (b + 32 + n)"
  have e: "?e + seglen ys \<le> 2 ^ 64" "0 < b" using lim by (simp_all add: b_def)
  have xs: "chain m a p xs (ad b)" and h: "b_size m (ad b) = ad n" "\<not> b_used m (ad b)"
      "b_prev m (ad b) = (if xs = [] then p else ad (a + seglen (butlast xs)))" "b_next m (ad b) = ?q"
      and ys: "chain m ?e (ad b) ys 0"
    using ch by (simp_all add: chain_append b_def)
  have apb: "apart b 32 a (seglen xs)" "apart b 32 ?e (seglen ys)"
    using e by (auto simp: apart_def b_def)
  show ?thesis
  proof (cases "k + 48 \<le> n")
    case False
    then have "split_block (ad b) (ad k) m = m"
      using split_condition [OF k n] h by (simp add: split_block_def)
    with False xs h ys apb show ?thesis
      by (simp add: take_block_def chain_append hdr_simps flip: b_def)
  next
    case True
    define c r e where "c = b + 32 + k" and "r = n - k - 32" and "e = b + 32 + n"
    have apc: "apart c 32 a (seglen xs)" "apart c 32 e (seglen ys)" "apart b 32 c 32" "apart c 32 b 32"
      using e True by (auto simp: apart_def b_def c_def e_def)
    have c: "c + 32 + r = e" using True by (simp add: c_def e_def r_def)
    have q0: "?q \<noteq> 0 \<longleftrightarrow> ys \<noteq> []" using e seglen_pos [of ys] by auto
    have ape: "apart e 32 a (seglen xs)" "apart e 32 b 32" "apart e 32 c 32" if "ys \<noteq> []"
      using seglen_pos [OF that] e True by (auto simp: apart_def b_def c_def e_def)
    have take: "take_block k n = [(k, True), (r, False)]" using True by (simp add: take_block_def r_def)
    have "b + 32 + n \<le> 2 ^ 64" using e by simp
    note mem = split_block_mem [OF h(1) h(4) True n this, folded c_def e_def r_def]
    note ys = ys [folded e_def] and apb = apb [folded e_def] and h = h [folded e_def]
    define m1 where "m1 = set_prev (ad c) (ad b) (set_next (ad c) (if ys = [] then 0 else ad e)
      (set_used (ad c) False (set_size (ad c) (ad r) m)))"
    define m2 where "m2 = (if ys = [] then m1 else set_prev (ad e) (ad c) m1)"
    have M: "set_used (ad b) True (split_block (ad b) (ad k) m) =
        set_used (ad b) True (set_size (ad b) (ad k) (set_next (ad b) (ad c) m2))"
      unfolding mem m2_def m1_def using q0 [folded e_def] by (cases "ys = []") simp_all
    have "chain m1 e (ad b) ys 0" "chain m1 a p xs (ad b)"
      using ys xs apc by (simp_all add: m1_def hdr_simps)
    then have m2: "chain m2 e (ad c) ys 0" "chain m2 a p xs (ad b)"
      using chain_relink [of m1 e "ad b" ys 0 "ad c"] ape e(1) [folded e_def]
      by (cases "ys = []"; simp add: m2_def hdr_simps)+
    have "b_size m2 (ad c) = ad r" "\<not> b_used m2 (ad c)" "b_prev m2 (ad c) = ad b"
        "b_next m2 (ad c) = (if ys = [] then 0 else ad e)" "b_prev m2 (ad b) = b_prev m (ad b)"
      using ape apc by (simp_all add: m2_def m1_def hdr_simps)
    with m2 have "chain (set_used (ad b) True (set_size (ad b) (ad k) (set_next (ad b) (ad c) m2)))
        a p (xs @ (k, True) # (r, False) # ys) 0"
      unfolding chain_append b_def [symmetric] chain.simps c_def [symmetric] c using apb apc h(3)
      by (simp add: hdr_simps)
    then show ?thesis by (simp only: M take append.simps)
  qed
qed

text \<open>The bytes of payloads in use, and that headers never lie among them.\<close>

fun used_bytes :: "nat \<Rightarrow> blocks \<Rightarrow> nat set" where
  "used_bytes a [] = {}"
| "used_bytes a ((n, u) # bs) = (if u then {a + 32..<a + 32 + n} else {}) \<union> used_bytes (a + 32 + n) bs"

lemma used_bytes_append:
  "used_bytes a (xs @ ys) = used_bytes a xs \<union> used_bytes (a + seglen xs) ys"
  by (induction a xs rule: used_bytes.induct) (auto simp: ac_simps)

lemma used_bytes_bounds: "x \<in> used_bytes a bs \<Longrightarrow> a + 32 \<le> x \<and> x < a + seglen bs"
  by (induction a bs rule: used_bytes.induct) (auto split: if_splits)

lemma in_header: "a + 32 \<le> 2 ^ 64 \<Longrightarrow> in_range (ad a) 32 x \<longleftrightarrow> a \<le> unat x \<and> unat x < a + 32"
  by (rule ad_in_range)

lemma take_block_frame:
  fixes xs n ys a k m
  defines "b \<equiv> a + seglen xs"
  assumes ch: "chain m a p (xs @ (n, False) # ys) 0" and k: "k \<le> n" and n: "n \<le> 2 ^ 20"
    and lim: "0 < a" "a + seglen (xs @ (n, False) # ys) \<le> 2 ^ 64"
    and x: "unat x \<in> used_bytes a (xs @ (n, False) # ys)"
  shows "set_used (ad b) True (split_block (ad b) (ad k) m) x = m x"
proof -
  let ?e = "b + 32 + n"
  have e: "?e + seglen ys \<le> 2 ^ 64" using lim by (simp add: b_def)
  have h: "b_size m (ad b) = ad n" "b_next m (ad b) = (if ys = [] then 0 else ad ?e)"
    using ch by (simp_all add: chain_append b_def)
  have x': "unat x < b \<or> ?e + 32 \<le> unat x"
    using x used_bytes_bounds [of "unat x" a xs] used_bytes_bounds [of "unat x" ?e ys]
    by (auto simp: used_bytes_append b_def ac_simps)
  then have nb: "\<not> in_range (ad b) 32 x" using e by (auto simp: in_header)
  show ?thesis
  proof (cases "k + 48 \<le> n")
    case False
    then have "split_block (ad b) (ad k) m = m"
      using split_condition [OF k n] h by (simp add: split_block_def)
    with nb show ?thesis by (simp add: header_store_frame)
  next
    case True
    have "b + 32 + n \<le> 2 ^ 64" using e by simp
    note mem = split_block_mem [OF h True n this]
    have nc: "\<not> in_range (ad (b + 32 + k)) 32 x" using x' e True by (auto simp: in_header)
    have ne: "ys \<noteq> [] \<Longrightarrow> \<not> in_range (ad ?e) 32 x"
      using x' e seglen_pos [of ys] by (auto simp: in_header)
    show ?thesis unfolding mem using nb nc ne by (simp add: header_store_frame)
  qed
qed

section \<open>\<open>kfree\<close> on the block list\<close>

lemma set_used_chain:
  fixes xs a
  defines "b \<equiv> a + seglen xs"
  assumes "chain m a p (xs @ (n, u) # ys) q" "a + seglen (xs @ (n, u) # ys) \<le> 2 ^ 64"
  shows "chain (set_used (ad b) v m) a p (xs @ (n, v) # ys) q"
proof -
  have "apart b 32 a (seglen xs)" "apart b 32 (b + 32 + n) (seglen ys)"
    using assms by (auto simp: apart_def)
  with assms show ?thesis by (simp add: chain_append hdr_simps)
qed

lemma coalesce_next_chain:
  fixes xs a
  defines "b \<equiv> a + seglen xs"
  assumes ch: "chain m a p (xs @ (n, False) # ys) 0"
    and lim: "0 < a" "a + seglen (xs @ (n, False) # ys) \<le> 2 ^ 64"
  shows "case merge_next n ys of (n', ys') \<Rightarrow>
    chain (coalesce_next (ad b) m) a p (xs @ (n', False) # ys') 0"
proof -
  define e where "e = b + 32 + n"
  have h: "chain m a p xs (ad b)" "b_size m (ad b) = ad n" "\<not> b_used m (ad b)"
      "b_prev m (ad b) = (if xs = [] then p else ad (a + seglen (butlast xs)))"
      "b_next m (ad b) = (if ys = [] then 0 else ad e)" and ys: "chain m e (ad b) ys 0"
    using ch by (simp_all add: chain_append b_def e_def)
  have e: "e + seglen ys \<le> 2 ^ 64" "0 < e" using lim by (simp_all add: b_def e_def)
  show ?thesis
  proof (cases "\<exists>k zs. ys = (k, False) # zs")
    case False
    then have "ys \<noteq> [] \<Longrightarrow> b_used m (ad e)" using ys by (cases ys) auto
    then have "coalesce_next (ad b) m = m" using h by (simp add: coalesce_next_def)
    moreover have "merge_next n ys = (n, ys)" using False by (cases "(n, ys)" rule: merge_next.cases) auto
    ultimately show ?thesis using ch by simp
  next
    case True
    then obtain k zs where kz: "ys = (k, False) # zs" by blast
    define z where "z = e + 32 + k"
    have z: "b + 32 + (n + 32 + k) = z" "z + seglen zs \<le> 2 ^ 64" "0 < z"
      using e by (simp_all add: z_def e_def kz)
    have he: "b_size m (ad e) = ad k" "\<not> b_used m (ad e)" "b_next m (ad e) = (if zs = [] then 0 else ad z)"
      and zs: "chain m z (ad e) zs 0"
      using ys by (simp_all add: kz z_def)
    have ap: "apart b 32 a (seglen xs)" "apart b 32 e 32" "apart b 32 z (seglen zs)"
      using z(2) by (auto simp: apart_def b_def e_def z_def)
    have apz: "apart z 32 a (seglen xs)" "apart z 32 b 32" if "zs \<noteq> []"
      using z(2) seglen_pos [OF that] by (auto simp: apart_def b_def e_def z_def)
    have z0: "zs \<noteq> [] \<Longrightarrow> ad z \<noteq> 0" "ad e \<noteq> 0"
      using z seglen_pos [of zs] e seglen_pos [of ys] by (auto simp: kz)
    have sz: "ad n + (BLOCK_HEADER + ad k) = ad (n + 32 + k)"
      by (simp add: ad_32 ad_plus add.assoc)
    define m1 where "m1 = set_next (ad b) (if zs = [] then 0 else ad z) (set_size (ad b) (ad (n + 32 + k)) m)"
    have M: "coalesce_next (ad b) m = (if zs = [] then m1 else set_prev (ad z) (ad b) m1)"
      unfolding coalesce_next_def Let_def using h he ap z0 by (simp add: kz sz hdr_simps m1_def)
    have m1: "chain m1 a p xs (ad b)" "chain m1 z (ad e) zs 0"
      "b_size m1 (ad b) = ad (n + 32 + k)" "\<not> b_used m1 (ad b)" "b_prev m1 (ad b) = b_prev m (ad b)"
      "b_next m1 (ad b) = (if zs = [] then 0 else ad z)"
      using h zs ap by (simp_all add: m1_def hdr_simps)
    have "chain (if zs = [] then m1 else set_prev (ad z) (ad b) m1) z (ad b) zs 0"
      using m1(2) z(2) by (auto intro: chain_relink)
    then have "chain (coalesce_next (ad b) m) a p (xs @ (n + 32 + k, False) # zs) 0"
      unfolding M chain_append b_def [symmetric] chain.simps z(1)
      using m1 h(4) apz by (cases "zs = []") (simp_all add: hdr_simps)
    then show ?thesis by (simp add: kz)
  qed
qed

lemma coalesce_prev_chain:
  assumes ch: "chain m a 0 (xs @ (n, False) # ys) 0"
    and lim: "0 < a" "a + seglen (xs @ (n, False) # ys) \<le> 2 ^ 64"
  shows "chain (coalesce_prev (ad (a + seglen xs)) m) a 0 (merge_prev xs n ys) 0"
proof -
  define b e where "b = a + seglen xs" and "e = b + 32 + n"
  have h: "chain m a 0 xs (ad b)" "b_size m (ad b) = ad n"
      "b_prev m (ad b) = (if xs = [] then 0 else ad (a + seglen (butlast xs)))"
      "b_next m (ad b) = (if ys = [] then 0 else ad e)" and ys: "chain m e (ad b) ys 0"
    using ch by (simp_all add: chain_append b_def e_def)
  have e: "e + seglen ys \<le> 2 ^ 64" "0 < e" using lim by (simp_all add: b_def e_def)
  show ?thesis
  proof (cases "\<exists>k ws. xs = ws @ [(k, False)]")
    case False
    have "b_used m (b_prev m (ad b))" if ne: "xs \<noteq> []"
    proof -
      from ne obtain k u ws where ws: "xs = ws @ [(k, u)]" by (metis append_butlast_last_id surj_pair)
      with False have u by auto
      with ws h(1,3) show ?thesis by (simp add: chain_append)
    qed
    moreover have "\<not> (xs \<noteq> [] \<and> \<not> snd (last xs))"
      using False append_butlast_last_id [of xs] by (metis prod.collapse)
    moreover have "xs = [] \<Longrightarrow> b_prev m (ad b) = 0" using h by simp
    ultimately show ?thesis
      using ch unfolding coalesce_prev_def merge_prev_def b_def [symmetric] by (cases "xs = []") simp_all
  next
    case True
    then obtain k ws where kw: "xs = ws @ [(k, False)]" by blast
    define w where "w = a + seglen ws"
    have b: "b = w + 32 + k" "w + 32 + (k + 32 + n) = e" "0 < w"
      using lim by (simp_all add: b_def w_def kw e_def)
    have hw: "chain m a 0 ws (ad w)" "b_size m (ad w) = ad k" "\<not> b_used m (ad w)"
        "b_prev m (ad w) = (if ws = [] then 0 else ad (a + seglen (butlast ws)))"
      and p: "b_prev m (ad b) = ad w"
      using h(1,3) by (simp_all add: kw chain_append w_def)
    have ap: "apart w 32 a (seglen ws)" "apart w 32 b 32" "apart w 32 e (seglen ys)"
      using e(1) by (auto simp: apart_def b w_def e_def)
    have ape: "apart e 32 a (seglen ws)" "apart e 32 w 32" if "ys \<noteq> []"
      using e(1) seglen_pos [OF that] by (auto simp: apart_def b w_def e_def)
    have nz: "ad w \<noteq> 0" "ys \<noteq> [] \<Longrightarrow> ad e \<noteq> 0"
      using b e seglen_pos [of ys] by (auto simp: e_def)
    have sz: "ad k + (BLOCK_HEADER + ad n) = ad (k + 32 + n)"
      by (simp add: ad_32 ad_plus add.assoc)
    define m1 where "m1 = set_next (ad w) (if ys = [] then 0 else ad e) (set_size (ad w) (ad (k + 32 + n)) m)"
    have M: "coalesce_prev (ad b) m = (if ys = [] then m1 else set_prev (ad e) (ad w) m1)"
      unfolding coalesce_prev_def Let_def using h(2,4) hw p ap nz by (simp add: sz hdr_simps m1_def)
    have m1: "chain m1 a 0 ws (ad w)" "chain m1 e (ad b) ys 0" "b_size m1 (ad w) = ad (k + 32 + n)"
      "\<not> b_used m1 (ad w)" "b_prev m1 (ad w) = b_prev m (ad w)"
      "b_next m1 (ad w) = (if ys = [] then 0 else ad e)"
      using hw ys ap by (simp_all add: m1_def hdr_simps)
    have "chain (if ys = [] then m1 else set_prev (ad e) (ad w) m1) e (ad w) ys 0"
      using m1(2) e(1) by (auto intro: chain_relink)
    then have "chain (coalesce_prev (ad b) m) a 0 (ws @ (k + 32 + n, False) # ys) 0"
      unfolding M chain_append w_def [symmetric] chain.simps b(2)
      using m1 hw(4) ape by (cases "ys = []") (simp_all add: hdr_simps)
    then show ?thesis by (simp add: kw merge_prev_def b_def)
  qed
qed

text \<open>Coalescing writes only the headers of blocks in the list, so no payload in use.\<close>

lemma used_bytes_not_header:
  assumes "unat x \<in> used_bytes a (xs @ ys)" and "ys \<noteq> []" and "a + seglen (xs @ ys) \<le> 2 ^ 64"
  shows "\<not> in_range (ad (a + seglen xs)) 32 x"
proof -
  have "32 \<le> seglen ys" using assms(2) by (rule seglen_pos)
  then show ?thesis
    using assms used_bytes_bounds [of "unat x" a xs] used_bytes_bounds [of "unat x" "a + seglen xs" ys]
    by (auto simp: in_header used_bytes_append)
qed

lemma coalesce_next_frame:
  assumes ch: "chain m a p (xs @ (n, False) # ys) 0"
    and lim: "0 < a" "a + seglen (xs @ (n, False) # ys) \<le> 2 ^ 64"
    and x: "unat x \<in> used_bytes a (xs @ (n, False) # ys)"
  shows "coalesce_next (ad (a + seglen xs)) m x = m x"
proof -
  define b e where "b = a + seglen xs" and "e = b + 32 + n"
  have nb: "\<not> in_range (ad b) 32 x"
    using used_bytes_not_header [OF x _ lim(2)] by (simp add: b_def)
  have h: "b_next m (ad b) = (if ys = [] then 0 else ad e)" "chain m e (ad b) ys 0"
    using ch by (simp_all add: chain_append b_def e_def)
  show ?thesis
  proof (cases "ys = []")
    case True
    then show ?thesis using h by (simp add: coalesce_next_def flip: b_def)
  next
    case False
    then obtain k u zs where kz: "ys = (k, u) # zs" by (cases ys) auto
    define z where "z = e + 32 + k"
    have bn: "b_next m (ad e) = (if zs = [] then 0 else ad z)" using h(2) by (simp add: kz z_def)
    have nz: "zs \<noteq> [] \<Longrightarrow> \<not> in_range (ad z) 32 x"
      using used_bytes_not_header [of x a "xs @ [(n, False), (k, u)]" zs] x lim(2)
      by (simp add: kz z_def e_def b_def ac_simps)
    have "apart b 32 e 32" using lim(2) by (auto simp: apart_def e_def b_def kz)
    then show ?thesis
      unfolding coalesce_next_def b_def [symmetric] Let_def
      using nb nz bn h(1) by (simp add: False hdr_simps header_store_frame)
  qed
qed

lemma coalesce_prev_frame:
  assumes ch: "chain m a 0 (xs @ (n, False) # ys) 0"
    and lim: "0 < a" "a + seglen (xs @ (n, False) # ys) \<le> 2 ^ 64"
    and x: "unat x \<in> used_bytes a (xs @ (n, False) # ys)"
  shows "coalesce_prev (ad (a + seglen xs)) m x = m x"
proof -
  define b e where "b = a + seglen xs" and "e = b + 32 + n"
  have h: "b_next m (ad b) = (if ys = [] then 0 else ad e)"
      "b_prev m (ad b) = (if xs = [] then 0 else ad (a + seglen (butlast xs)))"
    using ch by (simp_all add: chain_append b_def e_def)
  show ?thesis
  proof (cases "xs = []")
    case True
    then have "b_prev m (ad b) = 0" using h by simp
    then show ?thesis by (simp add: coalesce_prev_def flip: b_def)
  next
    case False
    then obtain k u ws where kw: "xs = ws @ [(k, u)]" by (metis append_butlast_last_id surj_pair)
    define w where "w = a + seglen ws"
    have nw: "\<not> in_range (ad w) 32 x"
      using used_bytes_not_header [of x a ws "(k, u) # (n, False) # ys"] x lim(2) by (simp add: kw w_def)
    have ne: "ys \<noteq> [] \<Longrightarrow> \<not> in_range (ad e) 32 x"
      using used_bytes_not_header [of x a "xs @ [(n, False)]" ys] x lim(2)
      by (simp add: e_def b_def ac_simps)
    have "apart w 32 b 32" using lim(2) by (auto simp: apart_def w_def b_def kw)
    then show ?thesis
      unfolding coalesce_prev_def b_def [symmetric] Let_def
      using nw ne h by (simp add: kw hdr_simps header_store_frame flip: w_def)
  qed
qed

section \<open>The invariant\<close>

lemma align_down_8: "x AND - 8 = push_bit 3 (drop_bit 3 x)" for x :: u64
proof (rule bit_word_eqI)
  fix i
  assume i: "i < LENGTH(64)"
  have m: "(- 8 :: u64) = NOT (mask 3)" by (simp add: mask_eq_exp_minus_1 not_eq_complement)
  show "bit (x AND - 8) i \<longleftrightarrow> bit (push_bit 3 (drop_bit 3 x)) i"
    unfolding m using i by (auto simp: bit_simps simp del: mask_numeral)
qed

lemma unat_align_down_8: "unat (x AND - 8 :: u64) = 8 * (unat x div 8)"
proof -
  have "8 * (unat x div 8) \<le> unat x" by simp
  then have "8 * (unat x div 8) < 18446744073709551616" using unat_lt_u64 le_less_trans by blast
  then show ?thesis
    by (simp add: align_down_8 push_bit_eq_mult drop_bit_eq_div unat_word_ariths unat_div)
qed

lemma align_size_ok: "8 dvd unat (align_size sz)" "16 \<le> unat (align_size sz)"
  by (auto simp: align_size_def ALIGNMENT_def MIN_BLOCK_def Let_def unat_align_down_8
      word_less_nat_alt not_less)

lemma align_size_ge: "unat sz \<le> 2 ^ 64 - 8 \<Longrightarrow> unat sz \<le> unat (align_size sz)"
proof -
  assume sz: "unat sz \<le> 2 ^ 64 - 8"
  then have "unat (sz + 7) = unat sz + 7" by (intro unat_add_small [of sz 7, simplified]) simp
  moreover have "unat sz \<le> 8 * ((unat sz + 7) div 8)" by linarith
  ultimately show ?thesis
    by (auto simp: align_size_def ALIGNMENT_def MIN_BLOCK_def Let_def unat_align_down_8
        word_less_nat_alt not_less add.commute)
qed

lemma seglen_take_block [simp]: "k \<le> n \<Longrightarrow> seglen (take_block k n) = n + 32"
  by (simp add: take_block_def)

lemma h_alloc_list_inv:
  assumes "h_alloc k bs = Some (off, bs')" and "8 dvd k" "16 \<le> k"
    and "sizes_ok bs" "no_adjacent_free bs"
  shows "seglen bs' = seglen bs" "sizes_ok bs'" "no_adjacent_free bs'"
proof -
  from assms(1) obtain xs n ys where f: "fit_split k bs = Some (xs, n, ys)"
      and bs': "bs' = xs @ take_block k n @ ys"
    by (auto simp: h_alloc_def)
  from fit_split_Some [OF f] have bs: "bs = xs @ (n, False) # ys" and k: "k \<le> n" by auto
  show "seglen bs' = seglen bs" using k by (simp add: bs bs')
  have "8 dvd n - k - 32" if "8 dvd n" using that assms(2) by (simp add: dvd_diff_nat)
  then show "sizes_ok bs'"
    using assms(2-4) by (auto simp: sizes_ok_def bs bs' take_block_def)
  show "no_adjacent_free bs'"
    using assms(5)
    by (auto simp: no_adjacent_free_def bs bs' take_block_def successively_append_iff successively_Cons)
qed

lemma merge_next_cases:
  obtains (merge) k zs where "ys = (k, False) # zs" "merge_next n ys = (n + 32 + k, zs)"
  | (keep) "merge_next n ys = (n, ys)" "ys = [] \<or> snd (hd ys)"
  by (cases "(n, ys)" rule: merge_next.cases) auto

lemma merge_prev_cases:
  obtains (merge) k ws where "xs = ws @ [(k, False)]" "merge_prev xs n ys = ws @ (k + 32 + n, False) # ys"
  | (keep) "merge_prev xs n ys = xs @ (n, False) # ys" "xs = [] \<or> snd (last xs)"
proof (cases xs rule: rev_cases)
  case (snoc ws b)
  obtain k u where "b = (k, u)" by fastforce
  with snoc show ?thesis
    by (cases u) (simp_all add: merge [of ws k] keep merge_prev_def)
qed (simp add: merge_prev_def keep)

lemma merge_prev_inv:
  assumes "sizes_ok (xs @ (n, False) # ys)" "no_adjacent_free xs"
    "no_adjacent_free ys" "ys = [] \<or> snd (hd ys)"
  shows "sizes_ok (merge_prev xs n ys)" "no_adjacent_free (merge_prev xs n ys)"
    "seglen (merge_prev xs n ys) = seglen (xs @ (n, False) # ys)"
  using assms
  by (cases xs n ys rule: merge_prev_cases;
      auto simp: sizes_ok_def no_adjacent_free_def successively_append_iff successively_Cons)+

lemma h_merge_list_inv:
  assumes "sizes_ok (xs @ (n, u) # ys)" "no_adjacent_free (xs @ (n, u) # ys)"
  shows "sizes_ok (h_merge xs n ys)" "no_adjacent_free (h_merge xs n ys)"
    "seglen (h_merge xs n ys) = seglen (xs @ (n, u) # ys)"
proof -
  obtain n' ys' where mn: "merge_next n ys = (n', ys')" by fastforce
  then have hm: "h_merge xs n ys = merge_prev xs n' ys'" by (simp add: h_merge_def)
  have adj: "no_adjacent_free xs" "no_adjacent_free ys"
    using assms(2) by (auto simp: no_adjacent_free_def successively_append_iff successively_Cons)
  have "sizes_ok (xs @ (n', False) # ys')" "no_adjacent_free ys'" "ys' = [] \<or> snd (hd ys')"
      "seglen (xs @ (n', False) # ys') = seglen (xs @ (n, u) # ys)"
    using assms(1) adj(2) mn
    by (cases ys n rule: merge_next_cases;
        auto simp: sizes_ok_def no_adjacent_free_def successively_Cons)+
  then show "sizes_ok (h_merge xs n ys)" "no_adjacent_free (h_merge xs n ys)"
      "seglen (h_merge xs n ys) = seglen (xs @ (n, u) # ys)"
    unfolding hm using merge_prev_inv [of xs n' ys'] adj(1) by simp_all
qed

section \<open>Refinement\<close>

lemma heap_inv_chain:
  assumes "heap_inv s bs"
  shows "chain (mem s) (unat (first_block s)) 0 bs 0" "0 < unat (first_block s)"
    "unat (first_block s) + seglen bs \<le> 2 ^ 64" "bs \<noteq> []"
  using assms by (auto simp: heap_inv_def unat_gt_0)

lemma heap_inv_update:
  assumes "heap_inv s bs" and "chain m (unat (first_block s)) 0 bs' 0" and "seglen bs' = seglen bs"
    and "sizes_ok bs'" "no_adjacent_free bs'"
  shows "heap_inv (s\<lparr>irq_enabled := i, mem := m\<rparr>) bs'"
  using assms by (simp add: heap_inv_def)

lemma kmalloc_find:
  assumes "heap_inv s bs"
  shows "find_block (mem s) (first_block s) sz =
    Some (case fit_split (unat sz) bs of None \<Rightarrow> 0 | Some (xs, _) \<Rightarrow> ad (unat (first_block s) + seglen xs))"
  using find_block_chain [OF heap_inv_chain(1-3) [OF assms]] heap_inv_chain(4) [OF assms] by simp

text \<open>\<open>kmalloc\<close> is \<open>h_alloc\<close> of the aligned size: it always returns.\<close>

lemma kmalloc_refines:
  assumes inv: "heap_inv s bs" and sz: "sz \<noteq> 0"
  shows "case h_alloc (unat (align_size sz)) bs of
      None \<Rightarrow> kmalloc sz s = Some (s\<lparr>irq_enabled := True\<rparr>, 0)
    | Some (off, bs') \<Rightarrow> \<exists>m. kmalloc sz s =
          Some (s\<lparr>irq_enabled := True, mem := m\<rparr>, ad (unat (first_block s) + off))
        \<and> heap_inv (s\<lparr>irq_enabled := True, mem := m\<rparr>) bs'
        \<and> (\<forall>x. unat x \<in> used_bytes (unat (first_block s)) bs \<longrightarrow> m x = mem s x)"
proof -
  define a k where "a = unat (first_block s)" and "k = unat (align_size sz)"
  have km: "kmalloc sz s =
      (case fit_split k bs of None \<Rightarrow> Some (s\<lparr>irq_enabled := True\<rparr>, 0)
       | Some (xs, n, ys) \<Rightarrow> let b = ad (a + seglen xs) in
          if b \<noteq> 0 then Some (s\<lparr>irq_enabled := True,
             mem := set_used b True (split_block b (align_size sz) (mem s))\<rparr>, b + BLOCK_HEADER)
          else Some (s\<lparr>irq_enabled := True\<rparr>, 0))"
    using sz kmalloc_find [of "disable_interrupts s" bs "align_size sz"] inv
    by (auto simp: kmalloc_def Let_def disable_interrupts_def enable_interrupts_def a_def k_def
        heap_inv_def split: option.splits)
  note ch = heap_inv_chain [OF inv, folded a_def]
  show ?thesis
  proof (cases "fit_split k bs")
    case None
    then show ?thesis by (simp add: h_alloc_def km flip: k_def)
  next
    case (Some t)
    obtain xs n ys where f: "fit_split k bs = Some (xs, n, ys)" using Some by (cases t) auto
    define b where "b = a + seglen xs"
    define m where "m = set_used (ad b) True (split_block (ad b) (ad k) (mem s))"
    from fit_split_Some [OF f] have bs: "bs = xs @ (n, False) # ys" and kn: "k \<le> n" by auto
    have n: "n \<le> 2 ^ 20" using inv by (simp add: heap_inv_def bs)
    have ha: "h_alloc k bs = Some (seglen xs + 32, xs @ take_block k n @ ys)" by (simp add: h_alloc_def f)
    have "ad b \<noteq> 0" using ch(2,3) by (simp add: b_def bs)
    moreover have "ad b + BLOCK_HEADER = ad (a + (seglen xs + 32))"
      by (simp add: ad_32 ad_plus b_def add.assoc)
    moreover have "align_size sz = ad k" by (simp add: k_def)
    ultimately have "kmalloc sz s = Some (s\<lparr>irq_enabled := True, mem := m\<rparr>, ad (a + (seglen xs + 32)))"
      by (simp add: km f b_def m_def Let_def)
    moreover have "chain m a 0 (xs @ take_block k n @ ys) 0"
      unfolding m_def b_def using ch kn n by (intro take_block_chain) (simp_all add: bs)
    then have "heap_inv (s\<lparr>irq_enabled := True, mem := m\<rparr>) (xs @ take_block k n @ ys)"
      using h_alloc_list_inv [OF ha] align_size_ok [of sz] inv
      by (intro heap_inv_update [OF inv]) (simp_all add: heap_inv_def flip: a_def k_def)
    moreover have "\<forall>x. unat x \<in> used_bytes a bs \<longrightarrow> m x = mem s x"
      unfolding m_def b_def using ch kn n by (auto simp: bs intro!: take_block_frame)
    ultimately show ?thesis by (auto simp: ha simp flip: a_def k_def)
  qed
qed

text \<open>\<open>kfree\<close> of a block of the list is \<open>h_merge\<close>; payloads in use elsewhere are kept.\<close>

lemma kfree_refines:
  assumes inv: "heap_inv s (xs @ (n, u) # ys)"
    and ptr: "ptr = ad (unat (first_block s) + seglen xs + 32)"
  shows "\<exists>m. kfree ptr s = s\<lparr>irq_enabled := True, mem := m\<rparr>
      \<and> heap_inv (s\<lparr>irq_enabled := True, mem := m\<rparr>) (h_merge xs n ys)
      \<and> (\<forall>x. unat x \<in> used_bytes (unat (first_block s)) (xs @ (n, False) # ys) \<longrightarrow> m x = mem s x)"
proof -
  define a b where "a = unat (first_block s)" and "b = a + seglen xs"
  note ch = heap_inv_chain(1-3) [OF inv, folded a_def]
  define m1 where "m1 = set_used (ad b) False (mem s)"
  define m2 where "m2 = coalesce_next (ad b) m1"
  define m3 where "m3 = coalesce_prev (ad b) m2"
  obtain n' ys' where mn: "merge_next n ys = (n', ys')" by fastforce
  have lim: "0 < a" "a + seglen (xs @ (n, False) # ys) \<le> 2 ^ 64"
      "a + seglen (xs @ (n', False) # ys') \<le> 2 ^ 64"
    using ch mn by (cases ys n rule: merge_next_cases; simp)+
  have c1: "chain m1 a 0 (xs @ (n, False) # ys) 0"
    unfolding m1_def b_def using ch by (intro set_used_chain) simp_all
  then have c2: "chain m2 a 0 (xs @ (n', False) # ys') 0"
    using coalesce_next_chain [OF c1 lim(1,2)] by (simp add: mn m2_def b_def)
  then have c3: "chain m3 a 0 (h_merge xs n ys) 0"
    using coalesce_prev_chain [OF c2 lim(1,3)] by (simp add: mn m3_def b_def h_merge_def)
  have "16 \<le> n" using inv by (simp add: heap_inv_def sizes_ok_def)
  then have "ptr \<noteq> 0" using ch(3) by (simp add: ptr flip: a_def)
  moreover have "ptr - BLOCK_HEADER = ad b"
    unfolding ptr ad_32 b_def a_def [symmetric] ad_plus [symmetric] by simp
  ultimately have k: "kfree ptr s = s\<lparr>irq_enabled := True, mem := m3\<rparr>"
    by (simp add: kfree_def Let_def disable_interrupts_def enable_interrupts_def m3_def m2_def m1_def)
  have "m3 x = mem s x" if x: "unat x \<in> used_bytes a (xs @ (n, False) # ys)" for x
  proof -
    have "m1 x = mem s x"
      using used_bytes_not_header [OF x _ lim(2)] by (simp add: m1_def b_def header_store_frame)
    moreover have "m2 x = m1 x"
      unfolding m2_def b_def using coalesce_next_frame [OF c1 lim(1,2) x] .
    moreover have "unat x \<in> used_bytes a (xs @ (n', False) # ys')"
      using x mn by (cases ys n rule: merge_next_cases) (auto simp: used_bytes_append ac_simps)
    then have "m3 x = m2 x"
      unfolding m3_def b_def by (rule coalesce_prev_frame [OF c2 lim(1,3)])
    ultimately show ?thesis by simp
  qed
  moreover have "heap_inv (s\<lparr>irq_enabled := True, mem := m3\<rparr>) (h_merge xs n ys)"
    using h_merge_list_inv [of xs n u ys] inv c3
    by (intro heap_inv_update [OF inv]) (simp_all add: heap_inv_def flip: a_def)
  ultimately show ?thesis using k by (auto simp flip: a_def)
qed

section \<open>Accounting and start-up\<close>

lemma sum_blocks_chain:
  assumes "chain m a p bs 0" and "0 < a" and "a + seglen bs \<le> 2 ^ 64"
  shows "sum_blocks u m (if bs = [] then 0 else ad a) acc =
    Some (acc + ad (sum_list (map fst (filter (\<lambda>b. snd b = u) bs))))"
  using assms
proof (induction bs arbitrary: a p acc)
  case Nil
  then show ?case by (subst sum_blocks.simps) (simp add: ad_def)
next
  case (Cons b bs)
  obtain n v where b: "b = (n, v)" by fastforce
  have "ad a \<noteq> 0" using Cons.prems by (simp add: b)
  moreover have "sum_blocks u m (if bs = [] then 0 else ad (a + 32 + n)) acc' =
      Some (acc' + ad (sum_list (map fst (filter (\<lambda>b. snd b = u) bs))))" for acc'
    using Cons.prems by (intro Cons.IH [of "a + 32 + n" "ad a"]) (simp_all add: b)
  ultimately show ?case
    using Cons.prems by (subst sum_blocks.simps) (auto simp: b ad_def algebra_simps split: if_splits)
qed

lemma sum_blocks_total:
  "sum_list (map fst (filter snd bs)) + sum_list (map fst (filter (\<lambda>b. \<not> snd b) bs))
     + 32 * length bs = seglen bs"
  by (induction bs) auto

lemma get_used_free_eq:
  assumes "heap_inv s bs"
  shows "get_used s = Some (ad (sum_list (map fst (filter snd bs))))"
    "get_free s = Some (ad (sum_list (map fst (filter (\<lambda>b. \<not> snd b) bs))))"
  using sum_blocks_chain [OF heap_inv_chain(1-3) [OF assms], of True 0]
    sum_blocks_chain [OF heap_inv_chain(1-3) [OF assms], of False 0] heap_inv_chain(4) [OF assms]
  by (simp_all add: get_used_def get_free_def)

lemma heap_pages_256: "unat HEAP_PAGES = 256"
  by (simp add: HEAP_PAGES_def HEAP_SIZE_def PAGE_SIZE_def)

lemma heap_init_inv:
  assumes "pages_wf s" and "fits s 256 t"
  shows "heap_inv (heap_init s) [(2 ^ 20 - 32, False)]"
proof -
  have "fits s (unat HEAP_PAGES) t" using assms(2) by (simp add: heap_pages_256)
  then obtain start where fit: "fits s (unat HEAP_PAGES) start"
      and eq: "alloc_pages HEAP_PAGES s =
        ((fold mark_used [start..<start + unat HEAP_PAGES] s)
          \<lparr>mem := memset (mem s) (page_addr start) 0 (HEAP_PAGES * PAGE_SIZE)\<rparr>, page_addr start)"
    by (rule alloc_pages_first_fit)
  have st: "start + 256 \<le> 65536"
    using fit total_pages_le [OF assms(1)] by (simp add: fits_def heap_pages_256)
  then have pa: "unat (page_addr start) = 0x40000000 + start * 4096" by (intro unat_page_addr) simp
  then have nz: "page_addr start \<noteq> 0" by auto
  have "ad (unat (page_addr start)) = page_addr start" by simp
  then show ?thesis
    using pa nz st by (simp add: heap_init_def eq heap_inv_def sizes_ok_def no_adjacent_free_def
        HEAP_SIZE_def BLOCK_HEADER_def ad_def)
qed

section \<open>The contract heap clients rely on\<close>

text \<open>
  What src/src/elf/elf.cpp and src/src/shell/shell.cpp rely on: requests return, a pointer
  handed out denotes a region of at least the size asked for that overlaps no other live
  region, and the contents of live regions are kept until they are released.
\<close>

datatype heap_op = Kmalloc usize | Kfree u64

text \<open>A run of other clients' requests, none of which frees \<open>q\<close> or a pointer not live.\<close>

fun others_run :: "(usize \<Rightarrow> 's \<Rightarrow> ('s \<times> u64) option) \<Rightarrow> (u64 \<Rightarrow> 's \<Rightarrow> 's)
    \<Rightarrow> ('s \<Rightarrow> (u64 \<times> nat) set) \<Rightarrow> u64 \<Rightarrow> heap_op list \<Rightarrow> 's \<Rightarrow> 's \<Rightarrow> bool" where
  "others_run malloc release live q [] s s' \<longleftrightarrow> s' = s"
| "others_run malloc release live q (Kmalloc n # ops) s s' \<longleftrightarrow>
     (\<exists>t p. malloc n s = Some (t, p) \<and> others_run malloc release live q ops t s')"
| "others_run malloc release live q (Kfree p # ops) s s' \<longleftrightarrow>
     p \<noteq> q \<and> p \<in> fst ` live s \<and> others_run malloc release live q ops (release p s) s'"

text \<open>
  A run of all clients together.  The list holds the pointers that were handed out and not
  freed since; only such pointers are freed.
\<close>

fun clients_run :: "(usize \<Rightarrow> 's \<Rightarrow> ('s \<times> u64) option) \<Rightarrow> (u64 \<Rightarrow> 's \<Rightarrow> 's)
    \<Rightarrow> heap_op list \<Rightarrow> u64 list \<Rightarrow> 's \<Rightarrow> ('s \<times> u64 list) option" where
  "clients_run malloc release [] ps s = Some (s, ps)"
| "clients_run malloc release (Kmalloc n # ops) ps s =
     Option.bind (malloc n s) (\<lambda>(t, p). clients_run malloc release ops (if p = 0 then ps else p # ps) t)"
| "clients_run malloc release (Kfree p # ops) ps s =
     (if p \<in> set ps then clients_run malloc release ops (remove1 p ps) (release p s) else None)"

locale kernel_heap =
  fixes malloc :: "usize \<Rightarrow> 's \<Rightarrow> ('s \<times> u64) option"
    and release :: "u64 \<Rightarrow> 's \<Rightarrow> 's"
    and live :: "'s \<Rightarrow> (u64 \<times> nat) set"
    and store :: "'s \<Rightarrow> ram"
    and inv :: "'s \<Rightarrow> bool"
  assumes malloc_returns: "inv s \<Longrightarrow> \<exists>s' p. malloc n s = Some (s', p)"
    and malloc_inv: "inv s \<Longrightarrow> malloc n s = Some (s', p) \<Longrightarrow> inv s'"
    and malloc_live: "inv s \<Longrightarrow> malloc n s = Some (s', p) \<Longrightarrow> p \<noteq> 0 \<Longrightarrow>
      \<exists>k. live s' = insert (p, k) (live s) \<and> p \<notin> fst ` live s \<and> (unat n \<le> 2 ^ 64 - 8 \<longrightarrow> unat n \<le> k)"
    and malloc_fail: "inv s \<Longrightarrow> malloc n s = Some (s', 0) \<Longrightarrow> live s' = live s"
    and malloc_keeps: "inv s \<Longrightarrow> malloc n s = Some (s', p) \<Longrightarrow> (q, k) \<in> live s \<Longrightarrow> in_range q k x
      \<Longrightarrow> store s' x = store s x"
    and live_apart: "inv s \<Longrightarrow> (p, j) \<in> live s \<Longrightarrow> (q, k) \<in> live s \<Longrightarrow> p \<noteq> q \<Longrightarrow> sep p j q k"
    and live_size: "inv s \<Longrightarrow> (p, j) \<in> live s \<Longrightarrow> (p, k) \<in> live s \<Longrightarrow> j = k"
    and release_inv: "inv s \<Longrightarrow> p \<in> fst ` live s \<Longrightarrow> inv (release p s)"
    and release_live: "inv s \<Longrightarrow> p \<in> fst ` live s \<Longrightarrow> live (release p s) = {b \<in> live s. fst b \<noteq> p}"
    and release_keeps: "inv s \<Longrightarrow> p \<in> fst ` live s \<Longrightarrow> (q, k) \<in> live s \<Longrightarrow> q \<noteq> p \<Longrightarrow> in_range q k x
      \<Longrightarrow> store (release p s) x = store s x"
begin

lemma contents_kept:
  "inv s \<Longrightarrow> others_run malloc release live q ops s s' \<Longrightarrow> (q, k) \<in> live s \<Longrightarrow>
     inv s' \<and> (q, k) \<in> live s' \<and> (\<forall>x. in_range q k x \<longrightarrow> store s' x = store s x)"
proof (induction ops arbitrary: s)
  case (Cons op ops)
  note inv = Cons.prems(1) and q = Cons.prems(3)
  show ?case
  proof (cases op)
    case (Kmalloc n)
    then obtain t p where t: "malloc n s = Some (t, p)" "others_run malloc release live q ops t s'"
      using Cons.prems(2) by auto
    have "(q, k) \<in> live t"
      using q malloc_live [OF inv t(1)] malloc_fail [OF inv, of n t] t(1) by (cases "p = 0") auto
    from Cons.IH [OF malloc_inv [OF inv t(1)] t(2) this] show ?thesis
      using malloc_keeps [OF inv t(1) q] by simp
  next
    case (Kfree p)
    then have p: "p \<noteq> q" "p \<in> fst ` live s" and r: "others_run malloc release live q ops (release p s) s'"
      using Cons.prems(2) by auto
    have "(q, k) \<in> live (release p s)" using release_live [OF inv p(2)] q p(1) by auto
    from Cons.IH [OF release_inv [OF inv p(2)] r this] show ?thesis
      using release_keeps [OF inv p(2) q] p(1) by simp
  qed
qed simp

lemma clients_live:
  "inv s \<Longrightarrow> fst ` live s = set ps \<Longrightarrow> distinct ps \<Longrightarrow> clients_run malloc release ops ps s = Some (t, qs)
    \<Longrightarrow> inv t \<and> fst ` live t = set qs"
proof (induction ops arbitrary: s ps)
  case (Cons op ops)
  note inv = Cons.prems(1) and ps = Cons.prems(2, 3)
  show ?case
  proof (cases op)
    case (Kmalloc n)
    then obtain u p where u: "malloc n s = Some (u, p)"
        and run: "clients_run malloc release ops (if p = 0 then ps else p # ps) u = Some (t, qs)"
      using Cons.prems(4) by (auto split: Option.bind_splits)
    have "fst ` live u = set (if p = 0 then ps else p # ps) \<and> distinct (if p = 0 then ps else p # ps)"
    proof (cases "p = 0")
      case False
      then obtain k where "live u = insert (p, k) (live s)" "p \<notin> fst ` live s" using malloc_live [OF inv u] by blast
      then show ?thesis using ps False by auto
    qed (use malloc_fail [OF inv] u ps in auto)
    then show ?thesis using Cons.IH [OF malloc_inv [OF inv u] _ _ run] by blast
  next
    case (Kfree p)
    then have p: "p \<in> fst ` live s" and run: "clients_run malloc release ops (remove1 p ps) (release p s) = Some (t, qs)"
      using Cons.prems(4) ps by (auto split: if_splits)
    have "fst ` live (release p s) = set (remove1 p ps)"
      using release_live [OF inv p] ps by (auto simp: image_iff)
    then show ?thesis using Cons.IH [OF release_inv [OF inv p] _ _ run] ps(2) by simp
  qed
qed simp

lemma malloc_then_release:
  assumes "inv s" and "malloc n s = Some (s', p)" and "p \<noteq> 0"
  shows "live (release p s') = live s"
proof -
  obtain k where "live s' = insert (p, k) (live s)" "p \<notin> fst ` live s"
    using malloc_live [OF assms] by blast
  then show ?thesis
    using release_live [OF malloc_inv [OF assms(1,2)], of p] by force
qed

end

section \<open>The heap satisfies the contract\<close>

fun live_nat :: "nat \<Rightarrow> blocks \<Rightarrow> (nat \<times> nat) set" where
  "live_nat a [] = {}"
| "live_nat a ((n, u) # bs) = (if u then {(a + 32, n)} else {}) \<union> live_nat (a + 32 + n) bs"

definition heap_ok :: "'a heap_scheme \<Rightarrow> bool" where
  "heap_ok s \<longleftrightarrow> (\<exists>bs. heap_inv s bs)"

definition heap_live :: "'a heap_scheme \<Rightarrow> (u64 \<times> nat) set" where
  "heap_live s = {(ad p, n) | p n bs. heap_inv s bs \<and> (p, n) \<in> live_nat (unat (first_block s)) bs}"

lemma live_nat_append: "live_nat a (xs @ ys) = live_nat a xs \<union> live_nat (a + seglen xs) ys"
  by (induction a xs rule: live_nat.induct) (auto simp: ac_simps)

lemma live_nat_bounds: "(p, n) \<in> live_nat a bs \<Longrightarrow> a + 32 \<le> p \<and> p + n \<le> a + seglen bs"
  by (induction a bs rule: live_nat.induct) (auto split: if_splits)

lemma live_nat_used: "(p, n) \<in> live_nat a bs \<Longrightarrow> p \<le> x \<Longrightarrow> x < p + n \<Longrightarrow> x \<in> used_bytes a bs"
  by (induction a bs rule: live_nat.induct) (auto split: if_splits)

lemma live_nat_apart:
  "(p, n) \<in> live_nat a bs \<Longrightarrow> (q, k) \<in> live_nat a bs \<Longrightarrow>
     (p, n) = (q, k) \<or> p + n + 32 \<le> q \<or> q + k + 32 \<le> p"
proof (induction a bs rule: live_nat.induct)
  case (2 a j u bs)
  then show ?case
    using live_nat_bounds [of p n "a + 32 + j" bs] live_nat_bounds [of q k "a + 32 + j" bs]
    by (auto split: if_splits)
qed simp

lemma live_nat_at:
  assumes "(p, n) \<in> live_nat a bs"
  obtains xs ys where "bs = xs @ (n, True) # ys" "p = a + seglen xs + 32"
  using assms
proof (induction a bs arbitrary: thesis rule: live_nat.induct)
  case (2 a j u bs)
  from 2(3) consider "u" "p = a + 32" "n = j" | "(p, n) \<in> live_nat (a + 32 + j) bs"
    by (auto split: if_splits)
  then show ?case
  proof cases
    case 1
    with 2(2) [of "[]" bs] show ?thesis by simp
  next
    case 2
    then obtain xs ys where "bs = xs @ (n, True) # ys" "p = a + 32 + j + seglen xs + 32"
      using "2.IH" by blast
    with "2.prems"(1) [of "(j, u) # xs" ys] show ?thesis by simp
  qed
qed simp

lemma chain_unique:
  "chain m a p bs 0 \<Longrightarrow> chain m a p cs 0 \<Longrightarrow> 0 < a \<Longrightarrow> a + seglen bs \<le> 2 ^ 64 \<Longrightarrow>
   a + seglen cs \<le> 2 ^ 64 \<Longrightarrow> bs = [] \<longleftrightarrow> cs = [] \<Longrightarrow> bs = cs"
proof (induction bs arbitrary: a p cs)
  case (Cons b bs)
  obtain n u where b: "b = (n, u)" by fastforce
  obtain n' u' cs' where cs: "cs = (n', u') # cs'" using Cons.prems(6) by (cases cs) auto
  have "ad n = ad n'" "u = u'" using Cons.prems(1,2) by (simp_all add: b cs)
  then have n: "n = n'"
    using unat_ad [of n] unat_ad [of n'] Cons.prems(3-5) by (simp add: b cs)
  have "bs = [] \<longleftrightarrow> cs' = []"
    using Cons.prems seglen_pos [of bs] seglen_pos [of cs'] by (auto simp: b cs n split: if_splits)
  then have "bs = cs'"
    using Cons.prems by (intro Cons.IH [of "a + 32 + n" "ad a"]) (simp_all add: b cs n)
  with n \<open>u = u'\<close> show ?case by (simp add: b cs)
qed simp

lemma heap_inv_unique: "heap_inv s bs \<Longrightarrow> heap_inv s cs \<Longrightarrow> bs = cs"
  using heap_inv_chain [of s bs] heap_inv_chain [of s cs]
  by (intro chain_unique [of "mem s" "unat (first_block s)" 0]) simp_all

lemma heap_live_eq:
  "heap_inv s bs \<Longrightarrow> heap_live s = (\<lambda>(p, n). (ad p, n)) ` live_nat (unat (first_block s)) bs"
  by (auto simp: heap_live_def dest: heap_inv_unique)

lemma heap_liveE:
  assumes "heap_inv s bs" and "(q, k) \<in> heap_live s"
  obtains p where "q = ad p" "(p, k) \<in> live_nat (unat (first_block s)) bs" "p + k \<le> 2 ^ 64"
    "p < 2 ^ 64" "unat q = p"
proof -
  obtain p where p: "q = ad p" "(p, k) \<in> live_nat (unat (first_block s)) bs"
    using assms by (auto simp: heap_live_eq)
  obtain xs ys where "bs = xs @ (k, True) # ys" using live_nat_at [OF p(2)] by blast
  then have "16 \<le> k" using assms(1) by (simp add: heap_inv_def sizes_ok_def)
  moreover have "p + k \<le> 2 ^ 64"
    using live_nat_bounds [OF p(2)] heap_inv_chain(3) [OF assms(1)] by linarith
  ultimately show thesis using p by (intro that) simp_all
qed

lemma heap_live_range_used:
  "heap_inv s bs \<Longrightarrow> (q, k) \<in> heap_live s \<Longrightarrow> in_range q k x \<Longrightarrow>
     unat x \<in> used_bytes (unat (first_block s)) bs"
  by (erule (1) heap_liveE) (auto simp: ad_in_range intro: live_nat_used)

lemma h_alloc_live:
  assumes "h_alloc k bs = Some (off, bs')"
  shows "\<exists>j \<ge> k. live_nat a bs' = insert (a + off, j) (live_nat a bs)" "32 \<le> off" "off + k \<le> seglen bs"
proof -
  from assms obtain xs n ys where f: "fit_split k bs = Some (xs, n, ys)"
      and bs': "bs' = xs @ take_block k n @ ys" "off = seglen xs + 32"
    by (auto simp: h_alloc_def)
  from fit_split_Some [OF f] have bs: "bs = xs @ (n, False) # ys" and k: "k \<le> n" by auto
  show "32 \<le> off" "off + k \<le> seglen bs" using k by (simp_all add: bs bs')
  show "\<exists>j \<ge> k. live_nat a bs' = insert (a + off, j) (live_nat a bs)"
  proof (cases "k + 48 \<le> n")
    case True
    then have "a + seglen xs + 32 + k + 32 + (n - k - 32) = a + seglen xs + 32 + n" by simp
    with True show ?thesis
      by (intro exI [of _ k]) (auto simp: bs bs' take_block_def live_nat_append ac_simps)
  next
    case False
    with k show ?thesis
      by (intro exI [of _ n]) (auto simp: bs bs' take_block_def live_nat_append ac_simps)
  qed
qed

lemma h_merge_live:
  "live_nat a (h_merge xs n ys) = live_nat a xs \<union> live_nat (a + seglen xs + 32 + n) ys"
proof -
  obtain n' ys' where mn: "merge_next n ys = (n', ys')" by fastforce
  then have "live_nat (a + seglen xs + 32 + n) ys = live_nat (a + seglen xs + 32 + n') ys'"
    by (cases ys n rule: merge_next_cases) (auto simp: ac_simps)
  moreover have "live_nat a (merge_prev xs n' ys') = live_nat a xs \<union> live_nat (a + seglen xs + 32 + n') ys'"
    by (cases xs n' ys' rule: merge_prev_cases) (auto simp: live_nat_append ac_simps)
  ultimately show ?thesis by (simp add: h_merge_def mn)
qed

lemma kmalloc_cases:
  assumes inv: "heap_inv s bs" and km: "kmalloc sz s = Some (s', p)"
  obtains (zero) "sz = 0" "s' = s" "p = 0"
  | (full) "sz \<noteq> 0" "h_alloc (unat (align_size sz)) bs = None" "s' = s\<lparr>irq_enabled := True\<rparr>" "p = 0"
  | (ok) off bs' where "sz \<noteq> 0" "h_alloc (unat (align_size sz)) bs = Some (off, bs')" "heap_inv s' bs'"
      "p = ad (unat (first_block s) + off)" "first_block s' = first_block s"
      "\<And>x. unat x \<in> used_bytes (unat (first_block s)) bs \<Longrightarrow> mem s' x = mem s x"
proof (cases "sz = 0")
  case True
  with km show ?thesis by (intro zero) (simp_all add: kmalloc_def)
next
  case False
  note r = kmalloc_refines [OF inv False]
  show ?thesis
  proof (cases "h_alloc (unat (align_size sz)) bs")
    case None
    with r km show ?thesis by (intro full [OF False None]) simp_all
  next
    case (Some t)
    obtain off bs' where t: "h_alloc (unat (align_size sz)) bs = Some (off, bs')"
      using Some by (cases t) auto
    from r t km obtain m where "s' = s\<lparr>irq_enabled := True, mem := m\<rparr>" "p = ad (unat (first_block s) + off)"
        "heap_inv s' bs'" "\<forall>x. unat x \<in> used_bytes (unat (first_block s)) bs \<longrightarrow> m x = mem s x"
      by auto
    then show ?thesis by (intro ok [OF False t]) simp_all
  qed
qed

lemma heap_inv_irq [simp]: "heap_inv (s\<lparr>irq_enabled := i\<rparr>) bs = heap_inv s bs"
  by (simp add: heap_inv_def)

lemma heap_live_irq [simp]: "heap_live (s\<lparr>irq_enabled := i\<rparr>) = heap_live s"
  by (simp add: heap_live_def)

lemma ad_inj: "ad a = ad b \<Longrightarrow> a < 2 ^ 64 \<Longrightarrow> b < 2 ^ 64 \<Longrightarrow> a = b"
  using unat_ad by metis

lemma kmalloc_live:
  assumes inv: "heap_inv s bs" and km: "kmalloc sz s = Some (s', p)" and p: "p \<noteq> 0"
  shows "\<exists>k \<ge> unat (align_size sz). heap_live s' = insert (p, k) (heap_live s) \<and> p \<notin> fst ` heap_live s"
  using inv km
proof (cases rule: kmalloc_cases)
  case (ok off bs')
  let ?a = "unat (first_block s)"
  obtain j where j: "unat (align_size sz) \<le> j" "live_nat ?a bs' = insert (?a + off, j) (live_nat ?a bs)"
    using h_alloc_live(1) [OF ok(2)] by blast
  have live: "heap_live s' = insert (p, j) (heap_live s)"
    using heap_live_eq [OF inv] heap_live_eq [OF ok(3)] ok(4,5) j by simp
  have lim: "?a + off < 2 ^ 64"
    using h_alloc_live(3) [OF ok(2)] align_size_ok(2) [of sz] heap_inv_chain(3) [OF inv] by linarith
  have "(?a + off, k) \<notin> live_nat ?a bs" for k
  proof
    assume "(?a + off, k) \<in> live_nat ?a bs"
    then obtain xs ys where b1: "bs = xs @ (k, True) # ys" "off = seglen xs + 32"
      by (elim live_nat_at) simp
    obtain ws n zs where f: "fit_split (unat (align_size sz)) bs = Some (ws, n, zs)" "off = seglen ws + 32"
      using ok(2) by (auto simp: h_alloc_def)
    with fit_split_Some [OF f(1)] b1 have "xs @ (k, True) # ys = ws @ (n, False) # zs" "seglen xs = seglen ws"
      by auto
    then show False
      by (auto simp: append_eq_append_conv2 append_eq_Cons_conv Cons_eq_append_conv)
  qed
  then have "p \<notin> fst ` heap_live s"
    using lim ok(4) by (auto elim!: heap_liveE [OF inv] dest!: ad_inj)
  with live j show ?thesis by blast
qed (use p in simp_all)

lemma kfree_live:
  assumes inv: "heap_inv s bs" and p: "p \<in> fst ` heap_live s"
  shows "\<exists>bs'. heap_inv (kfree p s) bs'" "heap_live (kfree p s) = {b \<in> heap_live s. fst b \<noteq> p}"
    "(q, k) \<in> heap_live s \<Longrightarrow> q \<noteq> p \<Longrightarrow> in_range q k x \<Longrightarrow> mem (kfree p s) x = mem s x"
proof -
  let ?a = "unat (first_block s)"
  from p obtain n where "(p, n) \<in> heap_live s" by auto
  then obtain i where i: "p = ad i" "(i, n) \<in> live_nat ?a bs" "i < 2 ^ 64"
    by (rule heap_liveE [OF inv])
  obtain xs ys where bs: "bs = xs @ (n, True) # ys" "i = ?a + seglen xs + 32"
    by (rule live_nat_at [OF i(2)])
  obtain m where m: "kfree p s = s\<lparr>irq_enabled := True, mem := m\<rparr>"
      "heap_inv (s\<lparr>irq_enabled := True, mem := m\<rparr>) (h_merge xs n ys)"
      "\<forall>x. unat x \<in> used_bytes ?a (xs @ (n, False) # ys) \<longrightarrow> m x = mem s x"
    using kfree_refines [OF inv [unfolded bs(1)], of p] i bs by auto
  then show "\<exists>bs'. heap_inv (kfree p s) bs'" by auto
  let ?L = "live_nat ?a xs \<union> live_nat (?a + seglen xs + 32 + n) ys"
  have L: "heap_live (kfree p s) = (\<lambda>(p, n). (ad p, n)) ` ?L"
    using heap_live_eq [OF m(2)] m(1) by (simp add: h_merge_live)
  have all: "live_nat ?a bs = insert (i, n) ?L" by (auto simp: bs live_nat_append ac_simps)
  have "(i, j) \<notin> ?L" for j
    using live_nat_bounds [of i j ?a xs] live_nat_bounds [of i j "?a + seglen xs + 32 + n" ys] bs(2) by auto
  then have ne: "fst b \<noteq> p" if "b \<in> (\<lambda>(p, n). (ad p, n)) ` ?L" for b
  proof -
    from that obtain i' j where b: "b = (ad i', j)" "(i', j) \<in> ?L" by auto
    then have "(ad i', j) \<in> heap_live s" using heap_live_eq [OF inv] all by force
    then obtain i'' where "ad i' = ad i''" "(i'', j) \<in> live_nat ?a bs" "i'' < 2 ^ 64"
      by (rule heap_liveE [OF inv])
    have "i' < 2 ^ 64"
    proof -
      have "(i', j) \<in> live_nat ?a bs" using b all by simp
      moreover from this obtain xs' ys' where "bs = xs' @ (j, True) # ys'" by (rule live_nat_at)
      then have "16 \<le> j" using inv by (simp add: heap_inv_def sizes_ok_def)
      ultimately show ?thesis
        using live_nat_bounds [of i' j ?a bs] heap_inv_chain(3) [OF inv] by simp
    qed
    then show ?thesis using ad_inj [of i' i] i b \<open>\<And>j. (i, j) \<notin> ?L\<close> by auto
  qed
  define I where "I = (\<lambda>(p, n). (ad p, n)) ` ?L"
  have "heap_live s = insert (p, n) I"
    unfolding heap_live_eq [OF inv] all I_def using i(1) by simp
  then show "heap_live (kfree p s) = {b \<in> heap_live s. fst b \<noteq> p}"
    unfolding L I_def [symmetric] using ne [folded I_def] by auto
  show "mem (kfree p s) x = mem s x" if q: "(q, k) \<in> heap_live s" "q \<noteq> p" "in_range q k x"
  proof -
    obtain j where j: "q = ad j" "(j, k) \<in> live_nat ?a bs" "j + k \<le> 2 ^ 64"
      by (rule heap_liveE [OF inv q(1)])
    then have "(j, k) \<in> ?L" using all q(2) i by auto
    then have "(j, k) \<in> live_nat ?a (xs @ (n, False) # ys)" by (simp add: live_nat_append ac_simps)
    then have "unat x \<in> used_bytes ?a (xs @ (n, False) # ys)"
      by (rule live_nat_used) (use q(3) j in \<open>simp_all add: ad_in_range\<close>)
    with m(1,3) show ?thesis by simp
  qed
qed

interpretation kh: kernel_heap kmalloc kfree heap_live mem heap_ok
proof unfold_locales
  fix s :: "'a heap_scheme" and n s' p q k x j
  assume "heap_ok s"
  then obtain bs where inv: "heap_inv s bs" by (auto simp: heap_ok_def)
  show "\<exists>s' p. kmalloc n s = Some (s', p)"
    using kmalloc_refines [OF inv, of n]
    by (cases "n = 0") (auto simp: kmalloc_def split: option.splits)
  show "heap_ok s'" if "kmalloc n s = Some (s', p)"
    using inv that by (cases rule: kmalloc_cases) (use inv in \<open>auto simp: heap_ok_def\<close>)
  show "\<exists>k. heap_live s' = insert (p, k) (heap_live s) \<and> p \<notin> fst ` heap_live s
      \<and> (unat n \<le> 2 ^ 64 - 8 \<longrightarrow> unat n \<le> k)"
    if "kmalloc n s = Some (s', p)" "p \<noteq> 0"
    using kmalloc_live [OF inv that] align_size_ge [of n] le_trans by blast
  show "heap_live s' = heap_live s" if z: "kmalloc n s = Some (s', 0)"
    using inv z
  proof (cases rule: kmalloc_cases)
    case (ok off bs')
    have "unat (first_block s) + off < 2 ^ 64"
      using h_alloc_live(3) [OF ok(2)] align_size_ok(2) [of n] heap_inv_chain(3) [OF inv] by linarith
    then show ?thesis using ok(4) h_alloc_live(2) [OF ok(2)] by (metis ad_eq_0 add_is_0 not_numeral_le_zero)
  qed simp_all
  show "mem s' x = mem s x" if "kmalloc n s = Some (s', p)" "(q, k) \<in> heap_live s" "in_range q k x"
    using inv that(1) by (cases rule: kmalloc_cases) (use heap_live_range_used [OF inv that(2,3)] in simp_all)
  show "sep p j q k" if pj: "(p, j) \<in> heap_live s" and qk: "(q, k) \<in> heap_live s" and "p \<noteq> q"
  proof -
    obtain i where i: "p = ad i" "(i, j) \<in> live_nat (unat (first_block s)) bs" "i + j \<le> 2 ^ 64" "unat p = i"
      using heap_liveE [OF inv pj] by blast
    obtain l where l: "q = ad l" "(l, k) \<in> live_nat (unat (first_block s)) bs" "l + k \<le> 2 ^ 64" "unat q = l"
      using heap_liveE [OF inv qk] by blast
    from live_nat_apart [OF i(2) l(2)] \<open>p \<noteq> q\<close> i l show ?thesis
      by (auto simp: sep_def unat_sub_if')
  qed
  show "j = k" if pj: "(p, j) \<in> heap_live s" and qk: "(p, k) \<in> heap_live s"
  proof -
    obtain i where i: "(i, j) \<in> live_nat (unat (first_block s)) bs" "unat p = i"
      using heap_liveE [OF inv pj] by blast
    obtain l where l: "(l, k) \<in> live_nat (unat (first_block s)) bs" "unat p = l"
      using heap_liveE [OF inv qk] by blast
    from live_nat_apart [OF i(1) l(1)] i l show ?thesis by auto
  qed
  show "heap_ok (kfree p s)" if "p \<in> fst ` heap_live s"
    using kfree_live(1) [OF inv that] by (simp add: heap_ok_def)
  show "heap_live (kfree p s) = {b \<in> heap_live s. fst b \<noteq> p}" if "p \<in> fst ` heap_live s"
    using kfree_live(2) [OF inv that] .
  show "mem (kfree p s) x = mem s x"
    if "p \<in> fst ` heap_live s" "(q, k) \<in> heap_live s" "q \<noteq> p" "in_range q k x"
    using kfree_live(3) [OF inv that] .
qed

section \<open>Properties\<close>

text \<open>The heap of the example machine of \<open>boot_mm\<close>, just after \<open>Heap::init\<close>.\<close>

definition boot_heap :: heap where
  "boot_heap = heap_init (pages_init 0x40100000 0x10000000
     \<lparr>mem = (\<lambda>_. 0), bitmap = [], total_pages = 0, free_pages = 0, irq_enabled = False,
      mair_el1 = 0, tcr_el1 = 0, ttbr0_el1 = 0, sctlr_el1 = 0, vbar_el1 = 0, cntp_tval_el0 = 0,
      cntp_ctl_el0 = 0, mmio = [], first_block = 0\<rparr>)"

lemma boot_heap_inv: "heap_inv boot_heap [(1048544, False)]"
proof -
  define s :: heap where "s = pages_init 0x40100000 0x10000000
     \<lparr>mem = (\<lambda>_. 0), bitmap = [], total_pages = 0, free_pages = 0, irq_enabled = False,
      mair_el1 = 0, tcr_el1 = 0, ttbr0_el1 = 0, sctlr_el1 = 0, vbar_el1 = 0, cntp_tval_el0 = 0,
      cntp_ctl_el0 = 0, mmio = [], first_block = 0\<rparr>"
  have "pages_wf s" "unat (total_pages s) = 65536" "free_set s = {256..<65536}"
    unfolding s_def by (simp_all add: pages_init_spec memory_base_def PAGE_SIZE_def)
  then have "heap_inv (heap_init s) [(2 ^ 20 - 32, False)]"
    by (intro heap_init_inv [of _ 256]) (simp_all add: fits_def)
  then show ?thesis by (simp add: boot_heap_def s_def)
qed

lemma align_size_24: "align_size 20 = 24"
  by (simp add: align_size_def ALIGNMENT_def MIN_BLOCK_def)

text \<open>
  C14: on a consistent heap \<open>kmalloc\<close> of a non-zero size always returns.  It returns null,
  leaving memory untouched, exactly when every free block is smaller than the aligned size;
  otherwise it takes the first block that fits, splitting off the rest when another block has
  room there, and returns the address just behind that block's header.  The heap stays
  consistent: links, sizes, tiling of the 1 MB area, and no two adjacent free blocks.
\<close>

theorem kmalloc_first_fit:
  assumes "heap_inv s bs" and "sz \<noteq> 0"
  defines "k \<equiv> unat (align_size sz)"
  shows "if (\<forall>(n, u) \<in> set bs. u \<or> n < k) then kmalloc sz s = Some (s\<lparr>irq_enabled := True\<rparr>, 0)
    else (\<exists>xs n ys s'. bs = xs @ (n, False) # ys \<and> k \<le> n \<and> (\<forall>(n', u) \<in> set xs. u \<or> n' < k)
      \<and> kmalloc sz s = Some (s', first_block s + of_nat (seglen xs + 32))
      \<and> heap_inv s' (xs @ take_block k n @ ys))"
proof (cases "fit_split k bs")
  case None
  then show ?thesis
    using kmalloc_refines [OF assms(1,2)] fit_split_None [of k bs] by (simp add: h_alloc_def k_def)
next
  case (Some t)
  obtain xs n ys where f: "fit_split k bs = Some (xs, n, ys)" using Some by (cases t) auto
  then have "\<not> (\<forall>(n, u) \<in> set bs. u \<or> n < k)" using fit_split_None [of k bs] by simp
  moreover have "ad (unat (first_block s) + (seglen xs + 32)) = first_block s + of_nat (seglen xs + 32)"
    by (simp add: ad_def)
  ultimately show ?thesis
    using kmalloc_refines [OF assms(1,2)] fit_split_Some [OF f] f by (auto simp: h_alloc_def k_def)
qed

theorem kmalloc_first_fit_witness:
  "\<exists>s'. kmalloc 20 boot_heap = Some (s', first_block boot_heap + 32)
    \<and> heap_inv s' [(24, True), (1048488, False)]"
  using kmalloc_first_fit [OF boot_heap_inv, of 20]
  by (auto simp: align_size_24 take_block_def Cons_eq_append_conv)

text \<open>
  C17: the contents of an allocated region are the owner's alone.  Whatever sequence of
  \<open>kmalloc\<close> and \<open>kfree\<close> calls the rest of the kernel makes, provided it frees only live
  pointers other than this one, the region stays live and keeps every byte.
\<close>

theorem kmalloc_contents_kept:
  assumes "heap_ok s" and "(q, k) \<in> heap_live s"
    and "others_run kmalloc kfree heap_live q ops s s'"
  shows "heap_ok s' \<and> (q, k) \<in> heap_live s' \<and> (\<forall>x. in_range q k x \<longrightarrow> mem s' x = mem s x)"
  using kh.contents_kept [OF assms(1,3,2)] .

theorem kmalloc_contents_kept_witness:
  "\<exists>s q s'. heap_ok (s :: heap) \<and> (q, 24) \<in> heap_live s
    \<and> others_run kmalloc kfree heap_live q [Kmalloc 20] s s' \<and> (q, 24) \<in> heap_live s'"
proof -
  obtain s where s: "kmalloc 20 boot_heap = Some (s, first_block boot_heap + 32)"
      "heap_inv s [(24, True), (1048488, False)]"
    using kmalloc_refines [OF boot_heap_inv, of 20] by (auto simp: align_size_24 h_alloc_def take_block_def ad_def)
  define q where "q = ad (unat (first_block s) + 32)"
  have ok: "heap_ok s" using s(2) by (auto simp: heap_ok_def)
  have q: "(q, 24) \<in> heap_live s" using heap_live_eq [OF s(2)] by (simp add: q_def)
  obtain s' p where "kmalloc 20 s = Some (s', p)" using kh.malloc_returns [OF ok] by blast
  then have r: "others_run kmalloc kfree heap_live q [Kmalloc 20] s s'" by auto
  with ok q kmalloc_contents_kept [OF ok q r] show ?thesis by blast
qed

text \<open>
  C20: \<open>kfree\<close> is the exact inverse of \<open>kmalloc\<close>: allocating a region and freeing it again
  restores the block list to what it was, whatever was allocated in it before, so the
  split that \<open>kmalloc\<close> made is always undone by coalescing.
\<close>

theorem kfree_undoes_kmalloc:
  assumes inv: "heap_inv s bs" and km: "kmalloc sz s = Some (s', p)" and "p \<noteq> 0"
  shows "heap_inv (kfree p s') bs"
  using inv km
proof (cases rule: kmalloc_cases)
  case (ok off bs')
  define k where "k = unat (align_size sz)"
  obtain xs n ys where f: "fit_split k bs = Some (xs, n, ys)"
      and bs': "bs' = xs @ take_block k n @ ys" "off = seglen xs + 32"
    using ok(2) by (auto simp: h_alloc_def k_def)
  from fit_split_Some [OF f] have bs: "bs = xs @ (n, False) # ys" and kn: "k \<le> n" by auto
  have adj: "xs = [] \<or> snd (last xs)" "ys = [] \<or> snd (hd ys)"
    using inv by (auto simp: heap_inv_def no_adjacent_free_def bs successively_append_iff successively_Cons)
  define j zs where "j = (if k + 48 \<le> n then k else n)"
    and "zs = (if k + 48 \<le> n then (n - k - 32, False) # ys else ys)"
  have bsj: "bs' = xs @ (j, True) # zs" by (simp add: bs' take_block_def j_def zs_def)
  have "merge_next n ys = (n, ys)" using adj(2) by (cases ys n rule: merge_next_cases) auto
  then have "merge_next j zs = (n, ys)" by (auto simp: j_def zs_def)
  moreover have "merge_prev xs n ys = bs" using adj(1) by (auto simp: merge_prev_def bs)
  ultimately have "h_merge xs j zs = bs" by (simp add: h_merge_def)
  then show ?thesis
    using kfree_refines [of s' xs j True zs p] ok(3-5) bs'(2) by (auto simp: bsj ac_simps)
qed (use assms in simp_all)

theorem kfree_undoes_kmalloc_witness:
  "\<exists>s' p. kmalloc 20 boot_heap = Some (s', p) \<and> p \<noteq> 0 \<and> heap_inv (kfree p s') [(1048544, False)]"
proof -
  obtain s' where s': "kmalloc 20 boot_heap = Some (s', ad (unat (first_block boot_heap) + 32))"
    using kmalloc_refines [OF boot_heap_inv, of 20] by (auto simp: align_size_24 h_alloc_def)
  moreover have "ad (unat (first_block boot_heap) + 32) \<noteq> 0"
    using boot_heap_inv by (simp add: heap_inv_def)
  ultimately show ?thesis using kfree_undoes_kmalloc [OF boot_heap_inv s'] by blast
qed

text \<open>
  C36: \<open>get_used\<close> and \<open>get_free\<close> always return, and together with 32 header bytes per
  block they account for every byte of the 1 MB heap.
\<close>

theorem heap_accounting:
  assumes "heap_inv s bs"
  shows "\<exists>used free. get_used s = Some used \<and> get_free s = Some free
    \<and> unat used + unat free + 32 * length bs = unat HEAP_SIZE"
proof -
  let ?u = "sum_list (map fst (filter snd bs))" and ?f = "sum_list (map fst (filter (\<lambda>b. \<not> snd b) bs))"
  have sum: "?u + ?f + 32 * length bs = 2 ^ 20"
    using sum_blocks_total [of bs] assms by (simp add: heap_inv_def)
  then have "unat (ad ?u) = ?u" "unat (ad ?f) = ?f" by (auto intro!: unat_ad)
  with sum show ?thesis
    using get_used_free_eq [OF assms] by (simp add: HEAP_SIZE_def)
qed

theorem heap_accounting_witness:
  "\<exists>used free. get_used boot_heap = Some used \<and> get_free boot_heap = Some free
    \<and> unat used + unat free + 32 = unat HEAP_SIZE"
  using heap_accounting [OF boot_heap_inv] by simp

lemma no_used_single:
  "no_adjacent_free bs \<Longrightarrow> \<forall>(n, u) \<in> set bs. \<not> u \<Longrightarrow> bs \<noteq> [] \<Longrightarrow> \<exists>n. bs = [(n, False)]"
  by (cases bs; cases "tl bs") (auto simp: no_adjacent_free_def)

lemma nothing_live_single:
  assumes "heap_ok s" and "heap_live s = {}"
  shows "heap_inv s [(1048544, False)]"
proof -
  obtain bs where inv: "heap_inv s bs" using assms(1) by (auto simp: heap_ok_def)
  have "\<not> u" if "(n, u) \<in> set bs" for n u
  proof
    assume u
    with that obtain xs ys where "bs = xs @ (n, True) # ys" by (auto simp: in_set_conv_decomp)
    with heap_live_eq [OF inv] assms(2) show False by (auto simp: live_nat_append)
  qed
  then obtain n where n: "bs = [(n, False)]"
    using no_used_single [of bs] inv heap_inv_chain(4) [OF inv] by (auto simp: heap_inv_def)
  moreover from n have "n = 1048544" using inv by (simp add: heap_inv_def)
  ultimately show ?thesis using inv by simp
qed

lemma single_serves:
  assumes one: "heap_inv s [(1048544, False)]" and sz: "0 < unat sz" "unat sz \<le> 1048544"
  shows "\<exists>s' p. kmalloc sz s = Some (s', p) \<and> p \<noteq> 0"
proof -
  have "unat (sz + 7) = unat sz + 7" using sz by (intro unat_add_small [of sz 7, simplified]) simp
  moreover have "(unat sz + 7) div 8 \<le> (1048544 + 7) div 8" using sz by (intro div_le_mono) simp
  ultimately have "unat (align_size sz) \<le> 1048544"
    using unat_align_down_8 [of "sz + 7"]
    by (simp add: align_size_def ALIGNMENT_def MIN_BLOCK_def Let_def add.commute [of 7])
  then have "h_alloc (unat (align_size sz)) [(1048544, False)] =
      Some (32, take_block (unat (align_size sz)) 1048544)"
    by (simp add: h_alloc_def)
  moreover have "sz \<noteq> 0" using sz by auto
  moreover have "ad (unat (first_block s) + 32) \<noteq> 0" using one by (simp add: heap_inv_def)
  ultimately show ?thesis using kmalloc_refines [OF one, of sz] by auto
qed

text \<open>
  C21: there is no lasting fragmentation.  After \<open>Heap::init\<close>, let any sequence of \<open>kmalloc\<close> and
  \<open>kfree\<close> calls run, in any order and of any sizes, in which only pointers that were handed out
  are freed, each once.  When all of them have been freed, the heap is again the single free
  block it was at the start, and a request for everything, 1 MB minus one header, succeeds.
\<close>

theorem heap_defragments:
  assumes "pages_wf s" and "fits s 256 i"
    and "clients_run kmalloc kfree ops [] (heap_init s) = Some (t, [])"
    and "0 < unat sz" and "unat sz \<le> 1048544"
  shows "heap_inv t [(1048544, False)] \<and> (\<exists>u p. kmalloc sz t = Some (u, p) \<and> p \<noteq> 0)"
proof -
  have inv: "heap_inv (heap_init s) [(1048544, False)]" using heap_init_inv [OF assms(1, 2)] by simp
  then have "heap_ok (heap_init s)" and "fst ` heap_live (heap_init s) = set []"
    using heap_live_eq [OF inv] by (auto simp: heap_ok_def)
  from kh.clients_live [OF this _ assms(3)] have "heap_ok t" "heap_live t = {}" by auto
  then have "heap_inv t [(1048544, False)]" by (rule nothing_live_single)
  then show ?thesis using single_serves assms(4, 5) by blast
qed

definition boot_pages :: heap where
  "boot_pages = pages_init 0x40100000 0x10000000
     \<lparr>mem = (\<lambda>_. 0), bitmap = [], total_pages = 0, free_pages = 0, irq_enabled = False,
      mair_el1 = 0, tcr_el1 = 0, ttbr0_el1 = 0, sctlr_el1 = 0, vbar_el1 = 0, cntp_tval_el0 = 0,
      cntp_ctl_el0 = 0, mmio = [], first_block = 0\<rparr>"

text \<open>Two requests, freed in the order in which they were made.\<close>

theorem heap_defragments_witness:
  "\<exists>p q t. clients_run kmalloc kfree [Kmalloc 20, Kmalloc 20, Kfree p, Kfree q] [] (heap_init boot_pages) = Some (t, [])
    \<and> p \<noteq> q \<and> (\<exists>u r. kmalloc 1048544 t = Some (u, r) \<and> r \<noteq> 0)"
proof -
  have b: "boot_heap = heap_init boot_pages" by (simp add: boot_heap_def boot_pages_def)
  have wf: "pages_wf boot_pages" "fits boot_pages 256 256"
    unfolding boot_pages_def fits_def by (simp_all add: pages_init_spec memory_base_def PAGE_SIZE_def)
  obtain s p where s: "kmalloc 20 boot_heap = Some (s, p)" "p \<noteq> 0" using single_serves [OF boot_heap_inv, of 20] by auto
  have si: "heap_inv s [(24, True), (1048488, False)]"
    using kmalloc_refines [OF boot_heap_inv, of 20] s by (auto simp: align_size_24 h_alloc_def take_block_def)
  then have ok: "heap_ok s" by (auto simp: heap_ok_def)
  have boot: "heap_ok boot_heap" using boot_heap_inv by (auto simp: heap_ok_def)
  have "ad (unat (first_block s) + 88) \<noteq> 0" using heap_inv_chain(3) [OF si] by (simp add: ad_eq_0)
  then obtain u q where u: "kmalloc 20 s = Some (u, q)" "q \<noteq> 0"
    using kmalloc_refines [OF si, of 20] by (auto simp: align_size_24 h_alloc_def take_block_def)
  obtain k where "heap_live s = insert (p, k) (heap_live boot_heap)" using kh.malloc_live [OF boot s] by blast
  then have ne: "q \<noteq> p" using kh.malloc_live [OF ok u] by auto
  then have run: "clients_run kmalloc kfree [Kmalloc 20, Kmalloc 20, Kfree p, Kfree q] [] (heap_init boot_pages)
      = Some (kfree q (kfree p u), [])"
    using s u b by simp
  then have "\<exists>v r. kmalloc 1048544 (kfree q (kfree p u)) = Some (v, r) \<and> r \<noteq> 0"
    using heap_defragments [OF wf run, of 1048544] by simp
  with run ne show ?thesis by metis
qed

text \<open>
  A request within 7 bytes of \<open>2 ^ 64\<close> wraps around in the alignment step and is
  served as if it were a request for 16 bytes: instead of failing, \<open>kmalloc\<close> hands out a
  tiny block.
\<close>

theorem kmalloc_size_wraps:
  assumes "2 ^ 64 - 7 \<le> unat sz"
  shows "align_size sz = 16 \<and> kmalloc sz s = kmalloc 16 s"
proof -
  have sz: "18446744073709551609 \<le> unat sz" using assms by simp
  then have "unat (sz + 7) = unat sz + 7 - 18446744073709551616"
    by (simp add: unat_plus_if')
  then have "unat (sz + 7) < 8" using unat_lt_u64 [of sz] sz by linarith
  then have "unat (sz + 7 AND - 8) = 0" by (simp add: unat_align_down_8)
  then have "sz + 7 AND - 8 = 0" by (simp add: unat_eq_zero)
  then have "align_size sz = 16"
    by (simp add: align_size_def ALIGNMENT_def MIN_BLOCK_def Let_def add.commute)
  moreover have "align_size 16 = 16" by (simp add: align_size_def ALIGNMENT_def MIN_BLOCK_def)
  moreover have "sz \<noteq> 0" using assms by auto
  ultimately show ?thesis by (simp add: kmalloc_def)
qed

theorem kmalloc_size_wraps_witness:
  "kmalloc 0xFFFFFFFFFFFFFFFF boot_heap = kmalloc 16 boot_heap"
  using kmalloc_size_wraps [of "0xFFFFFFFFFFFFFFFF" boot_heap] by simp

end
