(* ===== verification/Mmu.thy ===== *)
theory Mmu
  imports Heap
begin

text \<open>
  Page tables, src/src/mm/mmu.cpp and src/src/mm/mmu.h.  Tables live in physical memory:
  entry \<open>i\<close> of the table at \<open>t\<close> is the 64-bit word at \<open>t + 8 * i\<close>.  The address of the static
  array \<open>kernel_pgd\<close> is a parameter \<open>kernel_pgd\<close>.  TLB invalidation and barriers have no
  state here: \<open>walk\<close> below always reads the tables as they are, which is what the
  invalidation achieves on the hardware.  \<open>map_range\<close> is a \<open>partial_function (option)\<close>: with a
  size in the last page of the address space its offset wraps and the loop never ends.

  \<open>walk\<close> is the specification: the AArch64 stage 1 translation for a 4 KB granule and the
  39-bit address space that \<open>MMU::init\<close> configures, read off the descriptor formats the
  header comment of mmu.cpp names.
\<close>

section \<open>Descriptors and operations\<close>

definition PTE_VALID :: u64 where "PTE_VALID = push_bit 0 1"
definition PTE_TABLE :: u64 where "PTE_TABLE = push_bit 1 1"
definition PTE_PAGE :: u64 where "PTE_PAGE = push_bit 1 1"
definition PTE_AF :: u64 where "PTE_AF = push_bit 10 1"
definition PTE_SH_INNER :: u64 where "PTE_SH_INNER = push_bit 8 3"
definition PTE_AP_RW :: u64 where "PTE_AP_RW = push_bit 6 0"
definition PTE_AP_RO :: u64 where "PTE_AP_RO = push_bit 6 2"
definition PTE_AP_USER :: u64 where "PTE_AP_USER = push_bit 6 1"
definition PTE_UXN :: u64 where "PTE_UXN = push_bit 54 1"
definition PTE_PXN :: u64 where "PTE_PXN = push_bit 53 1"
definition PTE_ATTR_NORMAL :: u64 where "PTE_ATTR_NORMAL = push_bit 2 0"
definition PTE_ATTR_DEVICE :: u64 where "PTE_ATTR_DEVICE = push_bit 2 1"

definition PTE_KERNEL_RWX :: u64 where
  "PTE_KERNEL_RWX = PTE_VALID OR PTE_PAGE OR PTE_AF OR PTE_SH_INNER OR PTE_ATTR_NORMAL OR PTE_AP_RW OR PTE_UXN"
definition PTE_KERNEL_RW :: u64 where
  "PTE_KERNEL_RW = PTE_VALID OR PTE_PAGE OR PTE_AF OR PTE_SH_INNER OR PTE_ATTR_NORMAL OR PTE_AP_RW
     OR PTE_UXN OR PTE_PXN"
definition PTE_KERNEL_RO :: u64 where
  "PTE_KERNEL_RO = PTE_VALID OR PTE_PAGE OR PTE_AF OR PTE_SH_INNER OR PTE_ATTR_NORMAL OR PTE_AP_RO
     OR PTE_UXN OR PTE_PXN"
definition PTE_DEVICE_RW :: u64 where
  "PTE_DEVICE_RW = PTE_VALID OR PTE_PAGE OR PTE_AF OR PTE_ATTR_DEVICE OR PTE_AP_RW OR PTE_UXN OR PTE_PXN"
definition PTE_USER_RWX :: u64 where
  "PTE_USER_RWX = PTE_VALID OR PTE_PAGE OR PTE_AF OR PTE_SH_INNER OR PTE_ATTR_NORMAL OR PTE_AP_RW OR PTE_AP_USER"
definition PTE_USER_RO :: u64 where
  "PTE_USER_RO = PTE_VALID OR PTE_PAGE OR PTE_AF OR PTE_SH_INNER OR PTE_ATTR_NORMAL OR PTE_AP_RO
     OR PTE_AP_USER OR PTE_PXN"

definition ENTRIES_PER_TABLE :: nat where "ENTRIES_PER_TABLE = 512"
definition ADDR_MASK :: u64 where "ADDR_MASK = 0x0000FFFFFFFFF000"

definition entry :: "ram \<Rightarrow> u64 \<Rightarrow> u64 \<Rightarrow> u64" where
  "entry m table index = load64 m (table + 8 * index)"

definition set_entry :: "u64 \<Rightarrow> u64 \<Rightarrow> u64 \<Rightarrow> ram \<Rightarrow> ram" where
  "set_entry table index v m = store64 m (table + 8 * index) v"

definition get_or_create_table :: "u64 \<Rightarrow> u64 \<Rightarrow> 'a mm_scheme \<Rightarrow> 'a mm_scheme \<times> u64" where
  "get_or_create_table table index s =
     (if entry (mem s) table index AND PTE_VALID = 0
      then let (s, new_table) = alloc_page s
           in if new_table = 0 then (s, 0)
              else let s = s\<lparr>mem := set_entry table index (new_table OR PTE_VALID OR PTE_TABLE) (mem s)\<rparr>
                   in (s, entry (mem s) table index AND ADDR_MASK)
      else (s, entry (mem s) table index AND ADDR_MASK))"

definition map_page_in_table :: "u64 \<Rightarrow> u64 \<Rightarrow> u64 \<Rightarrow> u64 \<Rightarrow> 'a mm_scheme \<Rightarrow> 'a mm_scheme" where
  "map_page_in_table pgd virt phys flags s =
     (let l1_idx = drop_bit 30 virt AND 0x1FF;
          l2_idx = drop_bit 21 virt AND 0x1FF;
          l3_idx = drop_bit 12 virt AND 0x1FF;
          (s, l2_table) = get_or_create_table pgd l1_idx s
      in if l2_table = 0 then s
         else let (s, l3_table) = get_or_create_table l2_table l2_idx s
              in if l3_table = 0 then s
                 else s\<lparr>mem := set_entry l3_table l3_idx ((phys AND ADDR_MASK) OR flags) (mem s)\<rparr>)"

definition l2_block :: "nat \<Rightarrow> u64" where
  "l2_block i = (0x40000000 + of_nat i * 0x200000) OR PTE_VALID OR PTE_AF OR PTE_SH_INNER
     OR PTE_ATTR_NORMAL OR PTE_AP_RW OR PTE_UXN"

definition mmu_init :: "u64 \<Rightarrow> 'a cpu_scheme \<Rightarrow> 'a cpu_scheme" where
  "mmu_init kernel_pgd s =
     (let s = s\<lparr>mem := memset (mem s) kernel_pgd 0 4096\<rparr>;
          s = s\<lparr>mem := set_entry kernel_pgd 0
                (0 OR PTE_VALID OR PTE_AF OR PTE_ATTR_DEVICE OR PTE_AP_RW OR PTE_UXN OR PTE_PXN) (mem s)\<rparr>;
          (s, l2_table) = alloc_page s
      in if l2_table = 0 then s
         else let s = s\<lparr>mem := fold (\<lambda>i. set_entry l2_table (of_nat i) (l2_block i)) [0..<128] (mem s)\<rparr>;
                  s = s\<lparr>mem := fold (\<lambda>i. set_entry l2_table (of_nat i) 0) [128..<512] (mem s)\<rparr>;
                  s = s\<lparr>mem := set_entry kernel_pgd 1 (l2_table OR PTE_VALID OR PTE_TABLE) (mem s)\<rparr>;
                  s = s\<lparr>mair_el1 := 0x00FF\<rparr>;
                  s = s\<lparr>tcr_el1 := push_bit 0 25 OR push_bit 8 1 OR push_bit 10 1 OR push_bit 12 3
                         OR push_bit 14 0 OR push_bit 32 1\<rparr>;
                  s = s\<lparr>ttbr0_el1 := kernel_pgd\<rparr>
              in s\<lparr>sctlr_el1 := sctlr_el1 s OR push_bit 0 1 OR push_bit 2 1 OR push_bit 12 1\<rparr>)"

definition map_page :: "u64 \<Rightarrow> u64 \<Rightarrow> u64 \<Rightarrow> u64 \<Rightarrow> 'a mm_scheme \<Rightarrow> 'a mm_scheme" where
  "map_page kernel_pgd virt phys flags s = map_page_in_table kernel_pgd virt phys flags s"

partial_function (option) map_range_loop ::
  "u64 \<Rightarrow> u64 \<Rightarrow> u64 \<Rightarrow> u64 \<Rightarrow> u64 \<Rightarrow> u64 \<Rightarrow> 'a mm_scheme \<Rightarrow> 'a mm_scheme option" where
  "map_range_loop kernel_pgd virt_start phys_start sz flags off s =
     (if off < sz
      then map_range_loop kernel_pgd virt_start phys_start sz flags (off + PAGE_SIZE)
             (map_page kernel_pgd (virt_start + off) (phys_start + off) flags s)
      else Some s)"

definition map_range :: "u64 \<Rightarrow> u64 \<Rightarrow> u64 \<Rightarrow> u64 \<Rightarrow> u64 \<Rightarrow> 'a mm_scheme \<Rightarrow> 'a mm_scheme option" where
  "map_range kernel_pgd virt_start phys_start sz flags s =
     map_range_loop kernel_pgd virt_start phys_start sz flags 0 s"

definition create_user_page_table :: "u64 \<Rightarrow> 'a mm_scheme \<Rightarrow> 'a mm_scheme \<times> u64" where
  "create_user_page_table kernel_pgd s =
     (let (s, pgd_phys) = alloc_page s
      in if pgd_phys = 0 then (s, 0)
         else (s\<lparr>mem := fold (\<lambda>i m. set_entry pgd_phys (of_nat i) (entry m kernel_pgd (of_nat i)) m)
                          [0..<ENTRIES_PER_TABLE] (mem s)\<rparr>, pgd_phys))"

definition map_user_page :: "u64 \<Rightarrow> u64 \<Rightarrow> u64 \<Rightarrow> u64 \<Rightarrow> 'a mm_scheme \<Rightarrow> 'a mm_scheme" where
  "map_user_page pgd_phys virt phys flags s = map_page_in_table pgd_phys virt phys flags s"

definition switch_page_table :: "u64 \<Rightarrow> 'a cpu_scheme \<Rightarrow> 'a cpu_scheme" where
  "switch_page_table pgd s = s\<lparr>ttbr0_el1 := pgd\<rparr>"

section \<open>The hardware walk\<close>

text \<open>Output address and leaf descriptor, or \<open>None\<close> for a translation fault.\<close>

definition walk :: "ram \<Rightarrow> u64 \<Rightarrow> u64 \<Rightarrow> (u64 \<times> u64) option" where
  "walk m pgd va =
     (if 0x8000000000 \<le> va then None
      else let e1 = entry m pgd (drop_bit 30 va AND 0x1FF)
           in if e1 AND 1 = 0 then None
              else if e1 AND 2 = 0 then Some ((e1 AND 0x0000FFFFC0000000) OR (va AND 0x3FFFFFFF), e1)
              else let e2 = entry m (e1 AND ADDR_MASK) (drop_bit 21 va AND 0x1FF)
                   in if e2 AND 1 = 0 then None
                      else if e2 AND 2 = 0 then Some ((e2 AND 0x0000FFFFFFE00000) OR (va AND 0x1FFFFF), e2)
                      else let e3 = entry m (e2 AND ADDR_MASK) (drop_bit 12 va AND 0x1FF)
                           in if e3 AND 3 = 3 then Some ((e3 AND ADDR_MASK) OR (va AND 0xFFF), e3)
                              else None)"

section \<open>Entries of distinct tables\<close>

abbreviation held_pages :: "'a mm_scheme \<Rightarrow> u64 set" where
  "held_pages s \<equiv> page_addr ` owned_pages s"

definition is_page :: "u64 \<Rightarrow> bool" where
  "is_page t \<longleftrightarrow> (\<exists>k < 65536. t = page_addr k)"

lemma held_is_page: "pages_wf s \<Longrightarrow> t \<in> held_pages s \<Longrightarrow> is_page t"
  using owned_pages_le by (auto simp: is_page_def)

lemma is_page_nonzero: "is_page t \<Longrightarrow> t \<noteq> 0"
  by (auto simp: is_page_def page_addr_nonzero)

lemma entry_addr:
  assumes "k < 65536" "i < 512"
  shows "page_addr k + 8 * i = ad (0x40000000 + k * 4096 + 8 * unat i)"
  by (simp add: ad_def page_addr_def memory_base_def PAGE_SIZE_def)

lemma entry_set_entry:
  assumes "is_page t" "is_page t'" "i < 512" "j < 512"
  shows "entry (set_entry t i v m) t' j = (if t' = t \<and> j = i then v else entry m t' j)"
proof (cases "t' = t \<and> j = i")
  case True
  then show ?thesis by (simp add: entry_def set_entry_def)
next
  case False
  obtain p q where p: "t = page_addr p" "p < 65536" and q: "t' = page_addr q" "q < 65536"
    using assms by (auto simp: is_page_def)
  have i: "unat i < 512" "unat j < 512" using assms by (simp_all add: word_less_nat_alt)
  let ?a = "0x40000000 + p * 4096 + 8 * unat i" and ?b = "0x40000000 + q * 4096 + 8 * unat j"
  have "p \<noteq> q \<or> unat i \<noteq> unat j" using False p q by (auto simp: word_unat_eq_iff)
  then have "?a + 8 \<le> ?b \<or> ?b + 8 \<le> ?a"
    by (cases p q rule: linorder_cases) (use i in auto)
  then have "apart ?a 8 ?b 8" using p(2) q(2) i by (auto simp: apart_def)
  then show ?thesis
    using False p q assms
    by (auto simp: entry_def set_entry_def entry_addr store64_other dest: apart_ranges intro!: load64_cong)
qed

lemma entry_in_page:
  assumes "is_page t" "j < 512" "in_range (t + 8 * j) 8 x"
  shows "in_range t 4096 x"
proof -
  obtain p where p: "t = page_addr p" "p < 65536" using assms by (auto simp: is_page_def)
  have "unat j < 512" using assms by (simp add: word_less_nat_alt)
  moreover have "page_addr p = ad (0x40000000 + p * 4096)"
    by (simp add: ad_def page_addr_def memory_base_def PAGE_SIZE_def)
  moreover have "in_range (ad (0x40000000 + p * 4096 + 8 * unat j)) 8 x"
    using assms(3) entry_addr [OF p(2) assms(2)] by (simp only: p(1))
  ultimately show ?thesis
    using p by (simp add: ad_in_range)
qed

lemma entry_alloc_page:
  assumes wf: "pages_wf s" and nz: "snd (alloc_page s) \<noteq> 0" and t: "is_page t" and j: "j < 512"
    and h: "t = snd (alloc_page s) \<or> t \<in> held_pages s"
  shows "entry (mem (fst (alloc_page s))) t j = (if t = snd (alloc_page s) then 0 else entry (mem s) t j)"
proof (cases "t = snd (alloc_page s)")
  case True
  have "read_bytes (mem (fst (alloc_page s))) (t + 8 * j) 8 = replicate 8 0"
  proof (rule nth_equalityI)
    fix i
    assume "i < length (read_bytes (mem (fst (alloc_page s))) (t + 8 * j) 8)"
    then have i: "i < 8" by simp
    then have "in_range (t + 8 * j) 8 (t + 8 * j + of_nat i)" by (auto simp: in_range_offset)
    then have "in_range t 4096 (t + 8 * j + of_nat i)" by (rule entry_in_page [OF t j])
    with i True show "read_bytes (mem (fst (alloc_page s))) (t + 8 * j) 8 ! i = replicate 8 0 ! i"
      by (simp add: nth_read_bytes pg.alloc_store [OF wf nz])
  qed simp
  with True show ?thesis by (simp add: entry_def load64_def numeral_eq_Suc)
next
  case False
  with h have "t \<in> held_pages s" by simp
  with False show ?thesis
    unfolding entry_def
    using entry_in_page [OF t j] pg.held_memory_kept [OF wf] by (auto intro!: load64_cong)
qed

section \<open>Descriptor bits\<close>

lemma ADDR_MASK_eq: "ADDR_MASK = push_bit 12 (mask 36)"
  by (simp add: ADDR_MASK_def mask_eq_exp_minus_1 push_bit_eq_mult)

lemma bit_ADDR_MASK: "bit ADDR_MASK n \<longleftrightarrow> 12 \<le> n \<and> n < 48"
  unfolding ADDR_MASK_eq by (auto simp: bit_simps simp del: mask_numeral)

lemma page_addr_bits:
  assumes "k < 65536"
  shows "page_addr k AND ADDR_MASK = page_addr k" "page_addr k AND 1 = 0" "page_addr k AND 2 = 0"
proof -
  define y :: u64 where "y = of_nat (0x40000 + k)"
  have u: "unat y = 0x40000 + k"
  proof -
    have "0x40000 + k < 18446744073709551616" using assms by linarith
    then show ?thesis unfolding y_def by (rule unat_of_nat_small)
  qed
  have y: "\<not> bit y n" if "36 \<le> n" for n
    by (rule not_bit_high [of _ 36, OF _ that]) (use u assms in simp)
  have pa: "page_addr k = push_bit 12 y"
    by (simp add: page_addr_def memory_base_def PAGE_SIZE_def y_def push_bit_eq_mult)
  show "page_addr k AND ADDR_MASK = page_addr k"
  proof (rule bit_word_eqI)
    fix n
    assume "n < LENGTH(64)"
    then show "bit (page_addr k AND ADDR_MASK) n \<longleftrightarrow> bit (page_addr k) n"
      using y [of "n - 12"] unfolding pa by (cases "36 \<le> n - 12") (auto simp: bit_simps bit_ADDR_MASK)
  qed
  show "page_addr k AND 1 = 0" "page_addr k AND 2 = 0"
    unfolding pa by (rule bit_word_eqI; auto simp: bit_simps bit_1_iff bit_2_iff)+
qed

text \<open>A table descriptor for a page: its address field, and both low bits set.\<close>

lemma table_descriptor:
  assumes "is_page t"
  shows "(t OR PTE_VALID OR PTE_TABLE) AND ADDR_MASK = t"
    "(t OR PTE_VALID OR PTE_TABLE) AND 1 \<noteq> 0" "(t OR PTE_VALID OR PTE_TABLE) AND 2 \<noteq> 0"
proof -
  obtain k where k: "k < 65536" "t = page_addr k" using assms by (auto simp: is_page_def)
  note b = page_addr_bits [OF k(1), folded k(2)]
  have v: "PTE_VALID = 1" "PTE_TABLE = 2" by (simp_all add: PTE_VALID_def PTE_TABLE_def)
  have "(1 :: u64) AND ADDR_MASK = 0" "(2 :: u64) AND ADDR_MASK = 0" "(3 :: u64) AND ADDR_MASK = 0"
    by (simp_all add: ADDR_MASK_def)
  then show "(t OR PTE_VALID OR PTE_TABLE) AND ADDR_MASK = t"
      "(t OR PTE_VALID OR PTE_TABLE) AND 1 \<noteq> 0" "(t OR PTE_VALID OR PTE_TABLE) AND 2 \<noteq> 0"
    unfolding v using b by (simp_all add: bit.conj_disj_distrib2)
qed

section \<open>The tree of tables\<close>

definition table_ptr :: "u64 \<Rightarrow> bool" where
  "table_ptr e \<longleftrightarrow> e AND 1 \<noteq> 0 \<and> e AND 2 \<noteq> 0"

definition invalid :: "u64 \<Rightarrow> bool" where
  "invalid e \<longleftrightarrow> e AND 1 = 0"

datatype node = Root | L2 u64 | L3 u64 u64

definition next_table :: "ram \<Rightarrow> u64 \<Rightarrow> u64 \<Rightarrow> u64 option" where
  "next_table m t i =
     (if i < 512 \<and> table_ptr (entry m t i) then Some (entry m t i AND ADDR_MASK) else None)"

fun node_addr :: "ram \<Rightarrow> u64 \<Rightarrow> node \<Rightarrow> u64 option" where
  "node_addr m pgd Root = Some pgd"
| "node_addr m pgd (L2 i) = next_table m pgd i"
| "node_addr m pgd (L3 i j) = Option.bind (next_table m pgd i) (\<lambda>t. next_table m t j)"

fun child :: "node \<Rightarrow> u64 \<Rightarrow> node" where
  "child Root i = L2 i"
| "child (L2 i) j = L3 i j"
| "child (L3 i j) k = L3 i j"

text \<open>
  The invariant of a page-table tree: every table is a page the allocator has handed out,
  and no page serves as two tables.
\<close>

definition pt_wf :: "'a mm_scheme \<Rightarrow> u64 \<Rightarrow> bool" where
  "pt_wf s pgd \<longleftrightarrow> pages_wf s
     \<and> (\<forall>n t. node_addr (mem s) pgd n = Some t \<longrightarrow> t \<in> held_pages s)
     \<and> (\<forall>n n' t. node_addr (mem s) pgd n = Some t \<longrightarrow> node_addr (mem s) pgd n' = Some t \<longrightarrow> n = n')"

lemma pt_wf_page: "pt_wf s pgd \<Longrightarrow> node_addr (mem s) pgd n = Some t \<Longrightarrow> is_page t"
  using held_is_page [of s t] by (auto simp: pt_wf_def)

lemma idx_lt: "x AND 0x1FF < 512" for x :: u64
proof -
  have "x AND 0x1FF = take_bit 9 x"
    by (simp add: take_bit_eq_mask mask_eq_exp_minus_1)
  then show ?thesis
    using take_bit_nat_less_exp [of 9 "unat x"] by (simp add: word_less_nat_alt unsigned_take_bit_eq)
qed

abbreviation "i1 va \<equiv> drop_bit 30 va AND 0x1FF"
abbreviation "i2 va \<equiv> drop_bit 21 va AND 0x1FF"
abbreviation "i3 va \<equiv> drop_bit 12 va AND 0x1FF"

text \<open>The walk only reads the entries on the path of its address.\<close>

lemma walk_path_cong:
  assumes "entry m' pgd' (i1 va) = entry m pgd (i1 va)"
    and "\<And>t. node_addr m pgd (L2 (i1 va)) = Some t \<Longrightarrow> entry m' t (i2 va) = entry m t (i2 va)"
    and "\<And>t. node_addr m pgd (L3 (i1 va) (i2 va)) = Some t \<Longrightarrow> entry m' t (i3 va) = entry m t (i3 va)"
  shows "walk m' pgd' va = walk m pgd va"
proof (cases "table_ptr (entry m pgd (i1 va))")
  case False
  then show ?thesis using assms(1) by (auto simp: walk_def Let_def table_ptr_def)
next
  case t1: True
  define t where "t = entry m pgd (i1 va) AND ADDR_MASK"
  have n: "node_addr m pgd (L2 (i1 va)) = Some t" using t1 idx_lt by (simp add: t_def next_table_def)
  with assms(2) have e2: "entry m' t (i2 va) = entry m t (i2 va)" by blast
  have e1: "entry m pgd (i1 va) AND 1 \<noteq> 0" "entry m pgd (i1 va) AND 2 \<noteq> 0"
    using t1 by (simp_all add: table_ptr_def)
  show ?thesis
  proof (cases "table_ptr (entry m t (i2 va))")
    case False
    then show ?thesis
      using assms(1) e1 e2 by (auto simp: walk_def Let_def table_ptr_def simp flip: t_def)
  next
    case True
    define u where "u = entry m t (i2 va) AND ADDR_MASK"
    have "node_addr m pgd (L3 (i1 va) (i2 va)) = Some u"
      using n True idx_lt by (simp add: u_def next_table_def)
    with assms(3) have "entry m' u (i3 va) = entry m u (i3 va)" by blast
    then show ?thesis
      using assms(1) e1 e2 by (simp add: walk_def Let_def flip: t_def u_def)
  qed
qed

lemma walk_no_table:
  assumes "va < 0x8000000000" and "node_addr m pgd (L2 (i1 va)) = Some t"
  shows "invalid (entry m t (i2 va)) \<Longrightarrow> walk m pgd va = None"
    "node_addr m pgd (L3 (i1 va) (i2 va)) = Some u \<Longrightarrow> walk m pgd va =
       (let e = entry m u (i3 va) in
        if e AND 3 = 3 then Some ((e AND ADDR_MASK) OR (va AND 0xFFF), e) else None)"
proof -
  have e1: "entry m pgd (i1 va) AND 1 \<noteq> 0" "entry m pgd (i1 va) AND 2 \<noteq> 0"
      "entry m pgd (i1 va) AND ADDR_MASK = t"
    using assms(2) by (auto simp: next_table_def table_ptr_def split: if_splits)
  show "walk m pgd va = None" if "invalid (entry m t (i2 va))"
    using that e1 by (simp add: walk_def Let_def invalid_def)
  show "walk m pgd va = (let e = entry m u (i3 va) in
      if e AND 3 = 3 then Some ((e AND ADDR_MASK) OR (va AND 0xFFF), e) else None)"
    if u: "node_addr m pgd (L3 (i1 va) (i2 va)) = Some u"
  proof -
    have "entry m t (i2 va) AND 1 \<noteq> 0" "entry m t (i2 va) AND 2 \<noteq> 0" "entry m t (i2 va) AND ADDR_MASK = u"
      using u assms(2) by (auto simp: next_table_def table_ptr_def split: if_splits)
    moreover have "\<not> 0x8000000000 \<le> va" using assms(1) by (simp only: not_le)
    ultimately show ?thesis using e1 by (simp only: walk_def Let_def if_False)
  qed
qed

section \<open>Growing the tree\<close>

lemma pt_wf_distinct:
  "pt_wf s pgd \<Longrightarrow> node_addr (mem s) pgd n = Some t \<Longrightarrow> node_addr (mem s) pgd n' = Some t \<Longrightarrow> n = n'"
  unfolding pt_wf_def by blast

lemma next_table_cong: "entry m' t i = entry m t i \<Longrightarrow> next_table m' t i = next_table m t i"
  by (simp add: next_table_def)

lemma alloc_free_card:
  assumes "pages_wf s" "free_set s \<noteq> {}"
  shows "card (free_set (fst (alloc_page s))) = card (free_set s) - 1"
  using assms by (simp add: alloc_page_free_set card_Diff_singleton)

text \<open>
  One step of \<open>get_or_create_table\<close> on a tree: the entry for \<open>idx\<close> in the table of node \<open>N\<close>
  becomes a table (it already was, or a cleared page is linked in), and nothing that could
  be walked before changes.
\<close>

lemma grow_entries:
  assumes wf: "pt_wf s pgd" and N: "node_addr (mem s) pgd N = Some t" and idx: "idx < 512"
    and free: "free_set s \<noteq> {}"
  defines "new \<equiv> snd (alloc_page s)"
    and "m' \<equiv> set_entry t idx (snd (alloc_page s) OR PTE_VALID OR PTE_TABLE) (mem (fst (alloc_page s)))"
  shows "is_page new" "new \<notin> held_pages s" "new \<noteq> 0"
    and "\<And>n u j. node_addr (mem s) pgd n = Some u \<Longrightarrow> j < 512 \<Longrightarrow>
      entry m' u j = (if n = N \<and> j = idx then new OR PTE_VALID OR PTE_TABLE else entry (mem s) u j)"
    and "\<And>j. j < 512 \<Longrightarrow> entry m' new j = 0"
proof -
  have pw: "pages_wf s" using wf by (simp add: pt_wf_def)
  show nz: "new \<noteq> 0" using alloc_page_result [OF pw] free by (simp add: new_def)
  show fresh: "new \<notin> held_pages s" using pg.alloc_fresh [OF pw] nz by (simp add: new_def)
  have "new \<in> held_pages (fst (alloc_page s))" using pg.alloc_held [OF pw] nz by (simp add: new_def)
  then show pn: "is_page new" using held_is_page alloc_page_wf [OF pw] by blast
  have pt: "is_page t" by (rule pt_wf_page [OF wf N])
  have tn: "t \<noteq> new" using N wf fresh by (auto simp: pt_wf_def)
  show "entry m' u j = (if n = N \<and> j = idx then new OR PTE_VALID OR PTE_TABLE else entry (mem s) u j)"
    if n: "node_addr (mem s) pgd n = Some u" and j: "j < 512" for n u j
  proof -
    have u: "is_page u" "u \<in> held_pages s" using n wf pt_wf_page by (auto simp: pt_wf_def)
    have "u = t \<longleftrightarrow> n = N" using n N pt_wf_distinct [OF wf] by auto
    moreover have "u \<noteq> new" using u fresh by auto
    ultimately show ?thesis
      using entry_set_entry [OF pt u(1) idx j] entry_alloc_page [OF pw _ u(1) j] nz u(2)
      by (auto simp: m'_def new_def)
  qed
  show "entry m' new j = 0" if j: "j < 512" for j
    using entry_set_entry [OF pt pn idx j] entry_alloc_page [OF pw _ pn j] nz tn
    by (auto simp: m'_def new_def)
qed

lemma grow_nodes:
  assumes wf: "pt_wf s pgd" and N: "node_addr (mem s) pgd N = Some t" and idx: "idx < 512"
    and N3: "\<And>i j. N \<noteq> L3 i j" and free: "free_set s \<noteq> {}" and inv: "invalid (entry (mem s) t idx)"
  defines "new \<equiv> snd (alloc_page s)"
    and "m' \<equiv> set_entry t idx (snd (alloc_page s) OR PTE_VALID OR PTE_TABLE) (mem (fst (alloc_page s)))"
  shows "node_addr m' pgd n = (if n = child N idx then Some new else node_addr (mem s) pgd n)"
proof -
  note g = grow_entries [OF wf N idx free, folded new_def m'_def]
  have nt: "next_table m' u j = (if n = N \<and> j = idx then Some new else next_table (mem s) u j)"
    if "node_addr (mem s) pgd n = Some u" for n u j
  proof (cases "j < 512")
    case True
    with g(4) [OF that True] table_descriptor [OF g(1)] show ?thesis
      by (auto simp: next_table_def table_ptr_def)
  next
    case False
    then show ?thesis using idx by (auto simp: next_table_def)
  qed
  have new0: "next_table m' new j = None" for j
    using g(5) [of j] by (auto simp: next_table_def table_ptr_def)
  have none: "next_table (mem s) t idx = None" using inv by (simp add: next_table_def table_ptr_def invalid_def)
  show ?thesis
  proof (cases n)
    case Root
    then show ?thesis by (cases N) (use N3 in auto)
  next
    case (L2 i)
    then show ?thesis using nt [of Root pgd i] by (cases N) (use N3 in auto)
  next
    case (L3 i j)
    show ?thesis
    proof (cases "N = Root \<and> i = idx")
      case True
      with N have "t = pgd" by simp
      with True L3 none new0 nt [of Root pgd i] show ?thesis by simp
    next
      case False
      then have same: "next_table m' pgd i = next_table (mem s) pgd i"
        using nt [of Root pgd i] by auto
      show ?thesis
      proof (cases "next_table (mem s) pgd i")
        case None
        with same L3 N show ?thesis by (cases N) (use N3 in auto)
      next
        case (Some u)
        with same L3 nt [of "L2 i" u j] show ?thesis by (cases N) (use N3 in auto)
      qed
    qed
  qed
qed

lemma walk_high: "0x8000000000 \<le> va \<Longrightarrow> walk m pgd va = None"
  by (simp add: walk_def)

lemma walk_below:
  assumes "va < 0x8000000000" and "entry m pgd (i1 va) = e1" and "e1 AND 1 \<noteq> 0"
  shows "e1 AND 2 = 0 \<Longrightarrow> walk m pgd va = Some ((e1 AND 0x0000FFFFC0000000) OR (va AND 0x3FFFFFFF), e1)"
    and "e1 AND 2 \<noteq> 0 \<Longrightarrow> entry m (e1 AND ADDR_MASK) (i2 va) = e2 \<Longrightarrow> e2 AND 1 \<noteq> 0 \<Longrightarrow> e2 AND 2 = 0 \<Longrightarrow>
      walk m pgd va = Some ((e2 AND 0x0000FFFFFFE00000) OR (va AND 0x1FFFFF), e2)"
proof -
  have "\<not> 0x8000000000 \<le> va" using assms(1) by (simp only: not_le)
  then show "e1 AND 2 = 0 \<Longrightarrow> walk m pgd va = Some ((e1 AND 0x0000FFFFC0000000) OR (va AND 0x3FFFFFFF), e1)"
    "e1 AND 2 \<noteq> 0 \<Longrightarrow> entry m (e1 AND ADDR_MASK) (i2 va) = e2 \<Longrightarrow> e2 AND 1 \<noteq> 0 \<Longrightarrow> e2 AND 2 = 0 \<Longrightarrow>
      walk m pgd va = Some ((e2 AND 0x0000FFFFFFE00000) OR (va AND 0x1FFFFF), e2)"
    using assms(2,3) by (simp_all only: walk_def Let_def if_False if_True simp_thms)
qed

lemma walk_invalid_l1: "invalid (entry m pgd (i1 va)) \<Longrightarrow> walk m pgd va = None"
  by (simp add: walk_def Let_def invalid_def)

lemma grow_walk:
  assumes wf: "pt_wf s pgd" and N: "node_addr (mem s) pgd N = Some t" and idx: "idx < 512"
    and N3: "\<And>i j. N \<noteq> L3 i j" and free: "free_set s \<noteq> {}" and inv: "invalid (entry (mem s) t idx)"
  defines "m' \<equiv> set_entry t idx (snd (alloc_page s) OR PTE_VALID OR PTE_TABLE) (mem (fst (alloc_page s)))"
  shows "walk m' pgd va = walk (mem s) pgd va"
proof (cases "va < 0x8000000000")
  case va: True
  define new where "new = snd (alloc_page s)"
  note n = grow_nodes [OF wf N idx N3 free inv, folded m'_def, folded new_def]
  have g4: "entry m' u j = (if n = N \<and> j = idx then new OR PTE_VALID OR PTE_TABLE else entry (mem s) u j)"
    if "node_addr (mem s) pgd n = Some u" "j < 512" for n u j
    using grow_entries(4) [OF wf N idx free that] by (simp add: m'_def new_def)
  have g5: "entry m' new j = 0" if "j < 512" for j
    using grow_entries(5) [OF wf N idx free that] by (simp add: m'_def new_def)
  show ?thesis
  proof (cases "N = Root \<and> i1 va = idx \<or> N = L2 (i1 va) \<and> i2 va = idx")
    case False
    show ?thesis
    proof (rule walk_path_cong)
      show "entry m' pgd (i1 va) = entry (mem s) pgd (i1 va)"
        using g4 [of Root pgd "i1 va"] False idx_lt by auto
      show "entry m' u (i2 va) = entry (mem s) u (i2 va)" if "node_addr (mem s) pgd (L2 (i1 va)) = Some u" for u
        using g4 [OF that idx_lt, of "drop_bit 21 va"] False by auto
      show "entry m' u (i3 va) = entry (mem s) u (i3 va)"
        if "node_addr (mem s) pgd (L3 (i1 va) (i2 va)) = Some u" for u
        using g4 [OF that idx_lt, of "drop_bit 12 va"] N3 by auto
    qed
  next
    case True
    then show ?thesis
    proof
      assume a: "N = Root \<and> i1 va = idx"
      then have "walk (mem s) pgd va = None" using N inv by (intro walk_invalid_l1) simp
      moreover have "node_addr m' pgd (L2 (i1 va)) = Some new" using a n [of "L2 (i1 va)"] by simp
      then have "walk m' pgd va = None"
        by (rule walk_no_table(1) [OF va]) (simp add: g5 idx_lt invalid_def)
      ultimately show ?thesis by simp
    next
      assume a: "N = L2 (i1 va) \<and> i2 va = idx"
      then have l2: "node_addr (mem s) pgd (L2 (i1 va)) = Some t" using N by simp
      then have "walk (mem s) pgd va = None" by (rule walk_no_table(1) [OF va]) (use a inv in simp)
      moreover have l3: "node_addr m' pgd (L3 (i1 va) (i2 va)) = Some new"
        using a n [of "L3 (i1 va) (i2 va)"] by simp
      moreover have "node_addr m' pgd (L2 (i1 va)) = Some t"
        using a l2 n [of "L2 (i1 va)"] by simp
      then have "walk m' pgd va = None"
        using walk_no_table(2) [OF va _ l3] by (simp add: g5 idx_lt)
      ultimately show ?thesis by simp
    qed
  qed
qed (simp add: walk_high)

lemma grow_pt_wf:
  assumes wf: "pt_wf s pgd" and N: "node_addr (mem s) pgd N = Some t" and idx: "idx < 512"
    and N3: "\<And>i j. N \<noteq> L3 i j" and free: "free_set s \<noteq> {}" and inv: "invalid (entry (mem s) t idx)"
  defines "s' \<equiv> (fst (alloc_page s))\<lparr>mem := set_entry t idx
      (snd (alloc_page s) OR PTE_VALID OR PTE_TABLE) (mem (fst (alloc_page s)))\<rparr>"
  shows "pt_wf s' pgd"
proof -
  define new where "new = snd (alloc_page s)"
  have pw: "pages_wf s" using wf by (simp add: pt_wf_def)
  note g = grow_entries(2,3) [OF wf N idx free, folded new_def]
  have n: "node_addr (mem s') pgd n = (if n = child N idx then Some new else node_addr (mem s) pgd n)" for n
    using grow_nodes [OF wf N idx N3 free inv, of n] by (simp add: s'_def new_def)
  have held: "held_pages s' = insert new (held_pages s)"
    using pg.alloc_held [OF pw] g(2) by (simp add: s'_def new_def owned_pages_def)
  have "t \<in> held_pages s" if "node_addr (mem s) pgd n = Some t" for n t
    using wf that by (auto simp: pt_wf_def)
  moreover have "n = n'" if "node_addr (mem s) pgd n = Some t" "node_addr (mem s) pgd n' = Some t" for n n' t
    using that by (rule pt_wf_distinct [OF wf])
  moreover have "pages_wf s'" using alloc_page_wf [OF pw] by (simp add: s'_def)
  ultimately show ?thesis
    unfolding pt_wf_def n held using g(1) by (auto split: if_splits)
qed

lemma get_or_create_table_tree:
  assumes wf: "pt_wf s pgd" and N: "node_addr (mem s) pgd N = Some t" and idx: "idx < 512"
    and N3: "\<And>i j. N \<noteq> L3 i j" and free: "free_set s \<noteq> {}"
    and ok: "invalid (entry (mem s) t idx) \<or> table_ptr (entry (mem s) t idx)"
  obtains s' u where "get_or_create_table t idx s = (s', u)" "u \<noteq> 0" "pt_wf s' pgd"
    "\<And>n. node_addr (mem s') pgd n = (if n = child N idx then Some u else node_addr (mem s) pgd n)"
    "\<And>va. walk (mem s') pgd va = walk (mem s) pgd va"
    "card (free_set s) \<le> card (free_set s') + 1" "s' = s \<or> (\<forall>j < 512. entry (mem s') u j = 0)"
proof (cases "invalid (entry (mem s) t idx)")
  case inv: True
  define new where "new = snd (alloc_page s)"
  define s' where "s' = (fst (alloc_page s))\<lparr>mem := set_entry t idx
      (snd (alloc_page s) OR PTE_VALID OR PTE_TABLE) (mem (fst (alloc_page s)))\<rparr>"
  have pw: "pages_wf s" using wf by (simp add: pt_wf_def)
  note g = grow_entries [OF wf N idx free]
  have pt: "is_page t" by (rule pt_wf_page [OF wf N])
  have "entry (mem s') t idx AND ADDR_MASK = new"
    using entry_set_entry [OF pt pt idx idx] table_descriptor(1) [OF g(1)] by (simp add: s'_def new_def)
  then have "get_or_create_table t idx s = (s', new)"
    using inv g(3) by (simp add: get_or_create_table_def invalid_def PTE_VALID_def s'_def new_def
        Let_def split_beta)
  moreover have "card (free_set s) \<le> card (free_set s') + 1"
    using alloc_free_card [OF pw free] by (simp add: s'_def)
  moreover have "\<forall>j < 512. entry (mem s') new j = 0" using g(5) by (simp add: s'_def new_def)
  ultimately show thesis
    using g(3) grow_pt_wf [OF wf N idx N3 free inv] grow_nodes [OF wf N idx N3 free inv]
      grow_walk [OF wf N idx N3 free inv]
    by (intro that [of s' new]) (simp_all add: s'_def new_def)
next
  case False
  with ok have tp: "table_ptr (entry (mem s) t idx)" by simp
  define u where "u = entry (mem s) t idx AND ADDR_MASK"
  have c: "node_addr (mem s) pgd (child N idx) = Some u"
    using N N3 tp idx by (cases N) (auto simp: next_table_def u_def)
  then have "u \<noteq> 0" using pt_wf_page [OF wf] is_page_nonzero by blast
  moreover have "get_or_create_table t idx s = (s, u)"
    using False by (simp add: get_or_create_table_def invalid_def PTE_VALID_def u_def)
  ultimately show thesis using wf c by (intro that [of s u]) simp_all
qed

section \<open>Mapping a page\<close>

text \<open>No block descriptor on the path of \<open>va\<close>.\<close>

definition no_block :: "ram \<Rightarrow> u64 \<Rightarrow> u64 \<Rightarrow> bool" where
  "no_block m pgd va \<longleftrightarrow>
     (invalid (entry m pgd (i1 va)) \<or> table_ptr (entry m pgd (i1 va)))
     \<and> (\<forall>t. node_addr m pgd (L2 (i1 va)) = Some t \<longrightarrow>
          invalid (entry m t (i2 va)) \<or> table_ptr (entry m t (i2 va)))"

lemma bit_idx: "bit (x AND 0x1FF) n \<longleftrightarrow> n < 9 \<and> bit x n" for x :: u64
proof -
  have "(0x1FF :: u64) = mask 9" by (simp add: mask_eq_exp_minus_1)
  then have "x AND 0x1FF = take_bit 9 x" by (simp add: take_bit_eq_mask)
  then show ?thesis by (auto simp: bit_simps)
qed

lemma same_page_index:
  fixes va vb :: u64
  assumes va: "va < 0x8000000000" "vb < 0x8000000000"
    and eq: "i1 va = i1 vb" "i2 va = i2 vb" "i3 va = i3 vb"
  shows "drop_bit 12 va = drop_bit 12 vb"
proof (rule bit_word_eqI)
  fix n :: nat
  have hi: "\<not> bit va k" "\<not> bit vb k" if "39 \<le> k" for k
    using not_bit_high [of va 39 k] not_bit_high [of vb 39 k] that va
    by (simp_all add: word_less_nat_alt)
  have seg: "bit va (30 + k) = bit vb (30 + k)" "bit va (21 + k) = bit vb (21 + k)"
      "bit va (12 + k) = bit vb (12 + k)" if "k < 9" for k
    using arg_cong [OF eq(1), of "\<lambda>w. bit w k"] arg_cong [OF eq(2), of "\<lambda>w. bit w k"]
      arg_cong [OF eq(3), of "\<lambda>w. bit w k"] that
    by (simp_all add: bit_idx bit_drop_bit_eq)
  consider "39 \<le> 12 + n" | "n < 9" | "9 \<le> n" "n - 9 < 9" | "18 \<le> n" "n - 18 < 9" by linarith
  then have "bit va (12 + n) = bit vb (12 + n)"
  proof cases
    case 1 then show ?thesis using hi by blast
  next
    case 2 then show ?thesis using seg(3) by blast
  next
    case 3 then show ?thesis using seg(2) [of "n - 9"] by simp
  next
    case 4 then show ?thesis using seg(1) [of "n - 18"] by simp
  qed
  then show "bit (drop_bit 12 va) n \<longleftrightarrow> bit (drop_bit 12 vb) n" by (simp add: bit_drop_bit_eq)
qed

lemma leaf_descriptor:
  assumes "flags AND 3 = 3" and "flags AND ADDR_MASK = 0"
  shows "((phys AND ADDR_MASK) OR flags) AND 3 = 3"
    "((phys AND ADDR_MASK) OR flags) AND ADDR_MASK = phys AND ADDR_MASK"
proof -
  have "ADDR_MASK AND 3 = 0" by (simp add: ADDR_MASK_def)
  then have "(phys AND ADDR_MASK) AND 3 = 0" by (simp add: and.assoc)
  with assms show "((phys AND ADDR_MASK) OR flags) AND 3 = 3"
      "((phys AND ADDR_MASK) OR flags) AND ADDR_MASK = phys AND ADDR_MASK"
    by (simp_all add: bit.conj_disj_distrib2 and.assoc)
qed

lemma set_leaf_nodes:
  assumes wf: "pt_wf s pgd" and u: "node_addr (mem s) pgd (L3 i j) = Some u" and k: "k < 512"
  shows "node_addr (set_entry u k e (mem s)) pgd n = node_addr (mem s) pgd n"
    and "node_addr (mem s) pgd n = Some w \<Longrightarrow> l < 512 \<Longrightarrow>
      entry (set_entry u k e (mem s)) w l = (if n = L3 i j \<and> l = k then e else entry (mem s) w l)"
proof -
  have pu: "is_page u" by (rule pt_wf_page [OF wf u])
  have ent: "entry (set_entry u k e (mem s)) w l = (if n = L3 i j \<and> l = k then e else entry (mem s) w l)"
    if n: "node_addr (mem s) pgd n = Some w" and l: "l < 512" for n w l
  proof -
    have "w = u \<longleftrightarrow> n = L3 i j" using n u pt_wf_distinct [OF wf] by auto
    then show ?thesis using entry_set_entry [OF pu pt_wf_page [OF wf n] k l] by auto
  qed
  then show "node_addr (mem s) pgd n = Some w \<Longrightarrow> l < 512 \<Longrightarrow>
      entry (set_entry u k e (mem s)) w l = (if n = L3 i j \<and> l = k then e else entry (mem s) w l)"
    by blast
  have nt: "next_table (set_entry u k e (mem s)) w l = next_table (mem s) w l"
    if "node_addr (mem s) pgd n = Some w" "\<And>i j. n \<noteq> L3 i j" for n w l
    using ent [OF that(1), of l] that(2) by (auto simp: next_table_def)
  show "node_addr (set_entry u k e (mem s)) pgd n = node_addr (mem s) pgd n"
  proof (cases n)
    case (L2 a)
    then show ?thesis using nt [of Root pgd] by simp
  next
    case (L3 a b)
    then show ?thesis
      using nt [of Root pgd a] nt [of "L2 a" _ b] by (cases "next_table (mem s) pgd a") simp_all
  qed simp
qed

lemma map_page_in_table_tree:
  assumes wf: "pt_wf s pgd" and nb: "no_block (mem s) pgd virt" and free: "2 \<le> card (free_set s)"
  obtains s2 u where "pt_wf s2 pgd" "node_addr (mem s2) pgd (L3 (i1 virt) (i2 virt)) = Some u"
    "\<And>va. walk (mem s2) pgd va = walk (mem s) pgd va"
    "map_page_in_table pgd virt phys flags s =
       s2\<lparr>mem := set_entry u (i3 virt) ((phys AND ADDR_MASK) OR flags) (mem s2)\<rparr>"
proof -
  have ne: "free_set s \<noteq> {}" using free by auto
  have ok1: "invalid (entry (mem s) pgd (i1 virt)) \<or> table_ptr (entry (mem s) pgd (i1 virt))"
    using nb by (simp add: no_block_def)
  have root: "node_addr (mem s) pgd Root = Some pgd" by simp
  obtain s1 t where s1: "get_or_create_table pgd (i1 virt) s = (s1, t)" "t \<noteq> 0" "pt_wf s1 pgd"
      "\<And>n. node_addr (mem s1) pgd n = (if n = child Root (i1 virt) then Some t else node_addr (mem s) pgd n)"
      "\<And>va. walk (mem s1) pgd va = walk (mem s) pgd va" "card (free_set s) \<le> card (free_set s1) + 1"
      "s1 = s \<or> (\<forall>j < 512. entry (mem s1) t j = 0)"
    by (rule get_or_create_table_tree [OF wf root idx_lt node.distinct(3) ne ok1]) (rule that)
  have t: "node_addr (mem s1) pgd (L2 (i1 virt)) = Some t" using s1(4) [of "L2 (i1 virt)"] by simp
  have ne1: "free_set s1 \<noteq> {}" using s1(6) free by auto
  have "invalid 0" by (simp add: invalid_def)
  then have ok2: "invalid (entry (mem s1) t (i2 virt)) \<or> table_ptr (entry (mem s1) t (i2 virt))"
    using s1(7) nb t idx_lt [of "drop_bit 21 virt"] by (auto simp: no_block_def)
  obtain s2 u where s2: "get_or_create_table t (i2 virt) s1 = (s2, u)" "u \<noteq> 0" "pt_wf s2 pgd"
      "\<And>n. node_addr (mem s2) pgd n =
         (if n = child (L2 (i1 virt)) (i2 virt) then Some u else node_addr (mem s1) pgd n)"
      "\<And>va. walk (mem s2) pgd va = walk (mem s1) pgd va" "card (free_set s1) \<le> card (free_set s2) + 1"
      "s2 = s1 \<or> (\<forall>j < 512. entry (mem s2) u j = 0)"
    by (rule get_or_create_table_tree [OF s1(3) t idx_lt node.distinct(5) ne1 ok2]) (rule that)
  have "map_page_in_table pgd virt phys flags s =
      s2\<lparr>mem := set_entry u (i3 virt) ((phys AND ADDR_MASK) OR flags) (mem s2)\<rparr>"
    using s1(1,2) s2(1,2) by (simp add: map_page_in_table_def Let_def)
  moreover have "node_addr (mem s2) pgd (L3 (i1 virt) (i2 virt)) = Some u"
    using s2(4) [of "L3 (i1 virt) (i2 virt)"] by simp
  ultimately show thesis using s1(5) s2(3,5) by (intro that [of s2 u]) simp_all
qed

lemma map_page_in_table_walk:
  fixes phys :: u64
  assumes wf: "pt_wf s pgd" and nb: "no_block (mem s) pgd virt" and free: "2 \<le> card (free_set s)"
    and virt: "virt < 0x8000000000" and fl: "flags AND 3 = 3" "flags AND ADDR_MASK = 0"
  defines "s' \<equiv> map_page_in_table pgd virt phys flags s"
  shows "pt_wf s' pgd"
    "walk (mem s') pgd virt =
       Some ((phys AND ADDR_MASK) OR (virt AND 0xFFF), (phys AND ADDR_MASK) OR flags)"
    "drop_bit 12 va \<noteq> drop_bit 12 virt \<Longrightarrow> walk (mem s') pgd va = walk (mem s) pgd va"
proof -
  define e where "e = (phys AND ADDR_MASK) OR flags"
  obtain s2 u where s2: "pt_wf s2 pgd" "node_addr (mem s2) pgd (L3 (i1 virt) (i2 virt)) = Some u"
      "\<And>va. walk (mem s2) pgd va = walk (mem s) pgd va"
      "s' = s2\<lparr>mem := set_entry u (i3 virt) e (mem s2)\<rparr>"
    using map_page_in_table_tree [OF wf nb free, of phys flags] unfolding s'_def e_def by blast
  note leaf = set_leaf_nodes [OF s2(1,2) idx_lt, where x1 = "drop_bit 12 virt" and e = e]
  have m: "mem s' = set_entry u (i3 virt) e (mem s2)" by (simp add: s2(4))
  show "pt_wf s' pgd"
    using s2(1) unfolding pt_wf_def m leaf(1) by (simp add: s2(4) owned_pages_def)
  obtain t where t: "node_addr (mem s2) pgd (L2 (i1 virt)) = Some t"
    using s2(2) by (auto simp: bind_eq_Some_conv)
  have "entry (mem s') u (i3 virt) = e" unfolding m using leaf(2) [OF s2(2) idx_lt] by simp
  moreover have "node_addr (mem s') pgd (L3 (i1 virt) (i2 virt)) = Some u"
      "node_addr (mem s') pgd (L2 (i1 virt)) = Some t"
    unfolding m leaf(1) by (fact s2(2) t)+
  ultimately show "walk (mem s') pgd virt = Some ((phys AND ADDR_MASK) OR (virt AND 0xFFF), e)"
    using walk_no_table(2) [OF virt] leaf_descriptor [OF fl, of phys] by (simp add: e_def)
  show "walk (mem s') pgd va = walk (mem s) pgd va" if ne: "drop_bit 12 va \<noteq> drop_bit 12 virt"
  proof (cases "va < 0x8000000000")
    case True
    have idx: "\<not> (i1 va = i1 virt \<and> i2 va = i2 virt \<and> i3 va = i3 virt)"
      using same_page_index [OF True virt] ne by blast
    have "walk (mem s') pgd va = walk (mem s2) pgd va"
      unfolding m
    proof (rule walk_path_cong)
      show "entry (set_entry u (i3 virt) e (mem s2)) pgd (i1 va) = entry (mem s2) pgd (i1 va)"
        using leaf(2) [of Root pgd "i1 va"] idx_lt by simp
      show "entry (set_entry u (i3 virt) e (mem s2)) w (i2 va) = entry (mem s2) w (i2 va)"
        if "node_addr (mem s2) pgd (L2 (i1 va)) = Some w" for w
        using leaf(2) [OF that idx_lt] by simp
      show "entry (set_entry u (i3 virt) e (mem s2)) w (i3 va) = entry (mem s2) w (i3 va)"
        if "node_addr (mem s2) pgd (L3 (i1 va) (i2 va)) = Some w" for w
        using leaf(2) [OF that idx_lt] idx by auto
    qed
    then show ?thesis by (simp add: s2(3))
  qed (simp add: walk_high)
qed

section \<open>Start-up and user tables\<close>

lemma fold_set_entry:
  assumes "is_page t" "is_page t'" "j < 512" "b \<le> 512"
  shows "entry (fold (\<lambda>i. set_entry t (of_nat i) (f i)) [a..<b] m) t' j =
    (if t' = t \<and> a \<le> unat j \<and> unat j < b then f (unat j) else entry m t' j)"
  using assms(4)
proof (induction b)
  case (Suc b)
  show ?case
  proof (cases "a \<le> b")
    case True
    have ub: "unat (of_nat b :: u64) = b" by (rule unat_of_nat_small) (use Suc.prems in simp)
    then have "(of_nat b :: u64) < 512" using Suc.prems by (simp add: word_less_nat_alt)
    then have "entry (set_entry t (of_nat b) (f b) m') t' j = (if t' = t \<and> j = of_nat b then f b else entry m' t' j)"
      for m' using assms by (intro entry_set_entry)
    moreover have "j = of_nat b \<longleftrightarrow> unat j = b" using ub by (auto simp: word_unat_eq_iff)
    ultimately show ?thesis using Suc True by auto
  next
    case False
    then show ?thesis by auto
  qed
qed simp

text \<open>The same loop where the value is read from another table while writing (table copy).\<close>

lemma fold_copy_entry:
  assumes "is_page t" "is_page k" "k \<noteq> t" "is_page t'" "j < 512" "b \<le> 512"
  shows "entry (fold (\<lambda>i m. set_entry t (of_nat i) (entry m k (of_nat i)) m) [0..<b] m) t' j =
    (if t' = t \<and> unat j < b then entry m k j else entry m t' j)"
  using assms(4-6)
proof (induction b arbitrary: t' j)
  case (Suc b)
  have ub: "unat (of_nat b :: u64) = b" by (rule unat_of_nat_small) (use Suc.prems in simp)
  then have b: "(of_nat b :: u64) < 512" using Suc.prems by (simp add: word_less_nat_alt)
  have jb: "j = of_nat b \<longleftrightarrow> unat j = b" using ub by (auto simp: word_unat_eq_iff)
  define m' where "m' = fold (\<lambda>i m. set_entry t (of_nat i) (entry m k (of_nat i)) m) [0..<b] m"
  have k: "entry m' k (of_nat b) = entry m k (of_nat b)"
    using Suc.IH [OF assms(2) b] Suc.prems assms(3) by (simp add: m'_def)
  have "entry m' t' j = (if t' = t \<and> unat j < b then entry m k j else entry m t' j)"
    using Suc.IH [of t' j] Suc.prems by (simp add: m'_def)
  then show ?case
    using entry_set_entry [OF assms(1) Suc.prems(1) b Suc.prems(2)] k jb
    by (auto simp flip: m'_def)
qed simp

lemma entry_memset_page:
  assumes "is_page t" "j < 512"
  shows "entry (memset m t 0 4096) t j = 0"
  unfolding entry_def by (rule load64_memset_zero) (use entry_in_page [OF assms] in simp)

lemma mmu_init_tables:
  assumes wf: "pages_wf s" and kp: "kp \<in> held_pages s" and free: "free_set s \<noteq> {}"
  defines "s' \<equiv> mmu_init kp s" and "l2 \<equiv> page_addr (Min (free_set s))"
  shows "pages_wf s'" "held_pages s' = insert l2 (held_pages s)" "is_page l2" "l2 \<noteq> kp" "is_page kp"
    "l2 \<notin> held_pages s" "free_set s' = free_set s - {Min (free_set s)}"
    "\<And>j. j < 512 \<Longrightarrow> entry (mem s') kp j =
       (if j = 0 then PTE_VALID OR PTE_AF OR PTE_ATTR_DEVICE OR PTE_AP_RW OR PTE_UXN OR PTE_PXN
        else if j = 1 then l2 OR PTE_VALID OR PTE_TABLE else 0)"
    "\<And>j. j < 512 \<Longrightarrow> entry (mem s') l2 j = (if unat j < 128 then l2_block (unat j) else 0)"
    "ttbr0_el1 s' = kp"
proof -
  define dev where "dev = PTE_VALID OR PTE_AF OR PTE_ATTR_DEVICE OR PTE_AP_RW OR PTE_UXN OR PTE_PXN"
  define m0 where "m0 = set_entry kp 0 dev (memset (mem s) kp 0 4096)"
  define s0 where "s0 = s\<lparr>mem := m0\<rparr>"
  have wf0: "pages_wf s0" and f0: "free_set s0 = free_set s" and o0: "held_pages s0 = held_pages s"
    using wf by (simp_all add: s0_def owned_pages_def)
  have l2: "l2 = snd (alloc_page s0)" using free f0 by (simp add: alloc_page_first l2_def)
  have nz: "snd (alloc_page s0) \<noteq> 0" using alloc_page_result [OF wf0] free f0 by simp
  show fresh: "l2 \<notin> held_pages s" using pg.alloc_fresh [OF wf0 nz] by (simp add: l2 o0)
  then show ne: "l2 \<noteq> kp" using kp by auto
  have "l2 \<in> held_pages (fst (alloc_page s0))" using pg.alloc_held [OF wf0 nz] by (simp add: l2)
  then show pl: "is_page l2" using held_is_page alloc_page_wf [OF wf0] by blast
  show pk: "is_page kp" by (rule held_is_page [OF wf kp])
  define m1 where "m1 = mem (fst (alloc_page s0))"
  define m2 where "m2 = fold (\<lambda>i. set_entry l2 (of_nat i) (l2_block i)) [0..<128] m1"
  define m3 where "m3 = fold (\<lambda>i. set_entry l2 (of_nat i) 0) [128..<512] m2"
  define m4 where "m4 = set_entry kp 1 (l2 OR PTE_VALID OR PTE_TABLE) m3"
  have e2: "entry m2 t' j = (if t' = l2 \<and> 0 \<le> unat j \<and> unat j < 128 then l2_block (unat j) else entry m1 t' j)"
    if "is_page t'" "j < 512" for t' j
    unfolding m2_def by (rule fold_set_entry [OF pl that]) simp
  have e3: "entry m3 t' j = (if t' = l2 \<and> 128 \<le> unat j \<and> unat j < 512 then 0 else entry m2 t' j)"
    if "is_page t'" "j < 512" for t' j
    unfolding m3_def by (rule fold_set_entry [OF pl that]) simp
  have mem: "mem s' = m4" and ex: "bitmap s' = bitmap (fst (alloc_page s0))"
      "total_pages s' = total_pages (fst (alloc_page s0))" "free_pages s' = free_pages (fst (alloc_page s0))"
    using nz unfolding s'_def mmu_init_def
    by (simp_all add: Let_def split_beta m4_def m3_def m2_def m1_def l2 s0_def m0_def dev_def)
  show "ttbr0_el1 s' = kp"
    using nz unfolding s'_def mmu_init_def
    by (simp add: Let_def split_beta l2 s0_def m0_def dev_def)
  have same: "free_set s' = free_set (fst (alloc_page s0))" "owned_pages s' = owned_pages (fst (alloc_page s0))"
    by (simp_all add: free_set_def owned_pages_def ex)
  then show "pages_wf s'" using alloc_page_wf [OF wf0] by (simp add: pages_wf_def ex)
  show "held_pages s' = insert l2 (held_pages s)" using pg.alloc_held [OF wf0 nz] by (simp add: same l2 o0)
  show "free_set s' = free_set s - {Min (free_set s)}"
    using alloc_page_free_set [OF wf0] by (simp add: same f0)
  show "entry (mem s') kp j = (if j = 0 then dev else if j = 1 then l2 OR PTE_VALID OR PTE_TABLE else 0)"
    if j: "j < 512" for j
  proof -
    have "entry m1 kp j = entry m0 kp j"
      using entry_alloc_page [OF wf0 nz pk j] ne kp by (simp add: m1_def l2 o0) (simp add: s0_def)
    moreover have "entry m0 kp j = (if j = 0 then dev else 0)"
      using entry_set_entry [OF pk pk _ j] entry_memset_page [OF pk j] by (simp add: m0_def)
    ultimately show ?thesis
      using entry_set_entry [OF pk pk _ j, of 1] ne e2 [OF pk j] e3 [OF pk j]
      by (cases "j = 0") (simp_all add: mem m4_def)
  qed
  show "entry (mem s') l2 j = (if unat j < 128 then l2_block (unat j) else 0)" if j: "j < 512" for j
  proof -
    have "unat j < 512" using j by (simp add: word_less_nat_alt)
    then show ?thesis
      using entry_set_entry [OF pk pl _ j, of 1] ne e2 [OF pl j] e3 [OF pl j]
      by (simp add: mem m4_def)
  qed
qed

lemma unat_drop_div: "unat (drop_bit n va) = unat va div 2 ^ n" for va :: u64
  by (simp only: unat_drop_bit_eq) (simp only: drop_bit_eq_div)

lemma unat_idx: "unat (drop_bit n va AND 0x1FF) = unat va div 2 ^ n mod 512" for va :: u64
proof -
  have "(0x1FF :: u64) = mask 9" by (simp add: mask_eq_exp_minus_1)
  then have "drop_bit n va AND 0x1FF = take_bit 9 (drop_bit n va)" by (simp add: take_bit_eq_mask)
  moreover have "unat (take_bit 9 (drop_bit n va)) = take_bit 9 (unat (drop_bit n va))"
    by (rule unsigned_take_bit_eq)
  moreover have "unat (drop_bit n va) = unat va div 2 ^ n"
    by (rule unat_drop_div)
  ultimately show ?thesis by (simp only: take_bit_eq_mod) simp
qed

lemma i1_low: "va < 0x40000000 \<Longrightarrow> i1 va = 0" for va :: u64
  using unat_idx [of 30 va] by (simp add: word_less_nat_alt unat_eq_zero)

lemma i1_ram:
  fixes va :: u64
  assumes "0x40000000 \<le> va" "va < 0x80000000"
  shows "i1 va = 1" "unat (i2 va) = (unat va - 0x40000000) div 0x200000"
proof -
  define d where "d = unat va - 0x40000000"
  have d: "unat va = d + 0x40000000" "d < 0x40000000"
    using assms by (simp_all add: d_def word_less_nat_alt word_le_nat_alt)
  then have "unat va div 0x40000000 = 1" by (simp add: div_nat_eqI)
  then have "unat (i1 va) = unat (1 :: u64)" using unat_idx [of 30 va] by simp
  then show "i1 va = 1" by (simp only: word_unat_eq_iff)
  have "unat va div 0x200000 = d div 0x200000 + 512" using d by simp
  moreover have "d div 0x200000 < 512" using d by (simp add: less_mult_imp_div_less)
  ultimately show "unat (i2 va) = (unat va - 0x40000000) div 0x200000"
    using unat_idx [of 21 va] by (simp add: d_def)
qed

lemma i1_high:
  fixes va :: u64
  assumes "0x80000000 \<le> va" "va < 0x8000000000"
  shows "i1 va \<noteq> 0" "i1 va \<noteq> 1"
proof -
  have "unat va div 0x40000000 < 512" using assms by (simp add: word_less_nat_alt less_mult_imp_div_less)
  moreover have "2 \<le> unat va div 0x40000000"
    using assms by (simp add: word_le_nat_alt less_eq_div_iff_mult_less_eq)
  ultimately have "2 \<le> unat (i1 va)" using unat_idx [of 30 va] by simp
  then show "i1 va \<noteq> 0" "i1 va \<noteq> 1" by auto
qed

lemma mask_low: "va AND 0x3FFFFFFF = va" if "va < 0x40000000" for va :: u64
proof (rule bit_word_eqI)
  fix n :: nat
  have "(0x3FFFFFFF :: u64) = mask 30" by (simp add: mask_eq_exp_minus_1)
  then have "va AND 0x3FFFFFFF = take_bit 30 va" by (simp add: take_bit_eq_mask)
  moreover have "\<not> bit va n" if "30 \<le> n"
    using not_bit_high [of va 30 n] that \<open>va < 0x40000000\<close> by (simp add: word_less_nat_alt)
  ultimately show "bit (va AND 0x3FFFFFFF) n \<longleftrightarrow> bit va n"
    by (cases "30 \<le> n") (simp_all add: bit_take_bit_iff)
qed

text \<open>The block descriptor of the 2 MB block that holds a RAM address.\<close>

lemma l2_block_fields:
  fixes va :: u64
  assumes "0x40000000 \<le> va" "va < 0x50000000"
  defines "e \<equiv> l2_block (unat (i2 va))"
  shows "e AND 1 \<noteq> 0" "e AND 2 = 0" "e AND ADDR_MASK = push_bit 21 (drop_bit 21 va)"
    "(e AND 0x0000FFFFFFE00000) OR (va AND 0x1FFFFF) = va"
proof -
  have va': "va < 0x80000000" using assms(2) by (simp add: word_less_nat_alt)
  define i where "i = unat (i2 va)"
  have u: "unat va = 0x40000000 + (unat va - 0x40000000)" using assms(1) by (simp add: word_le_nat_alt)
  have "unat va div 0x200000 = 512 + i"
    using i1_ram(2) [OF assms(1) va'] u by (simp add: i_def)
  then have x: "unat (drop_bit 21 va) = 512 + i" using unat_drop_div [of 21 va] by simp
  then have dv: "drop_bit 21 va = 512 + of_nat i" by (metis of_nat_add of_nat_numeral of_nat_unat ucast_id)
  define b where "b = push_bit 21 (drop_bit 21 va)"
  have "0x40000000 + of_nat i * 0x200000 = b"
    by (simp add: b_def dv push_bit_eq_mult algebra_simps)
  then have e: "e = b OR 0x40000000000701"
    by (simp add: e_def l2_block_def PTE_VALID_def PTE_AF_def PTE_SH_INNER_def PTE_ATTR_NORMAL_def
        PTE_AP_RW_def PTE_UXN_def push_bit_eq_mult or.assoc flip: i_def)
  have hi: "n < 31" if "bit va n" for n
    using not_bit_high [of va 31 n] that va' by (cases "31 \<le> n") (simp_all add: word_less_nat_alt)
  have bb: "bit b n \<longleftrightarrow> 21 \<le> n \<and> bit va n" for n
    by (cases "21 \<le> n") (auto simp: b_def bit_simps dest: bit_imp_le_length)
  have low: "b AND 1 = 0" "b AND 2 = 0"
    by (rule bit_word_eqI; auto simp: bit_simps bb bit_1_iff bit_2_iff)+
  have am: "b AND ADDR_MASK = b"
    by (rule bit_word_eqI) (auto simp: bit_simps bb bit_ADDR_MASK dest: hi)
  show "e AND 1 \<noteq> 0" "e AND 2 = 0" "e AND ADDR_MASK = push_bit 21 (drop_bit 21 va)"
    using low am by (simp_all add: e bit.conj_disj_distrib2 ADDR_MASK_def b_def)
  have "(0x0000FFFFFFE00000 :: u64) = push_bit 21 (mask 27)" "(0x1FFFFF :: u64) = mask 21"
    by (simp_all add: mask_eq_exp_minus_1 push_bit_eq_mult)
  moreover have "b AND push_bit 21 (mask 27) = b"
    by (rule bit_word_eqI) (auto simp: bit_simps bb simp del: mask_numeral dest: hi)
  ultimately have "b AND 0x0000FFFFFFE00000 = b" "va AND 0x1FFFFF = take_bit 21 va"
    by (simp_all only: take_bit_eq_mask)
  moreover have "b OR take_bit 21 va = va"
    by (rule bit_word_eqI) (auto simp: bit_simps bb)
  ultimately show "(e AND 0x0000FFFFFFE00000) OR (va AND 0x1FFFFF) = va"
    by (simp add: e bit.conj_disj_distrib2)
qed

lemma dev_block_bits:
  "(PTE_VALID OR PTE_AF OR PTE_ATTR_DEVICE OR PTE_AP_RW OR PTE_UXN OR PTE_PXN) = 0x60000000000405"
  by (simp add: PTE_VALID_def PTE_AF_def PTE_ATTR_DEVICE_def PTE_AP_RW_def PTE_UXN_def PTE_PXN_def push_bit_eq_mult)

lemma mmu_init_walk:
  assumes "pages_wf s" and "kp \<in> held_pages s" and "free_set s \<noteq> {}"
  shows "walk (mem (mmu_init kp s)) kp va =
    (if va < 0x40000000 then Some (va, 0x60000000000405)
     else if va < 0x50000000 then Some (va, l2_block ((unat va - 0x40000000) div 0x200000)) else None)"
proof -
  note t = mmu_init_tables [OF assms]
  let ?l2 = "page_addr (Min (free_set s))" and ?m = "mem (mmu_init kp s)"
  have l1: "entry ?m kp (i1 va) = (if i1 va = 0 then 0x60000000000405
      else if i1 va = 1 then ?l2 OR PTE_VALID OR PTE_TABLE else 0)"
    using t(8) [OF idx_lt, of "drop_bit 30 va"] by (simp add: dev_block_bits)
  note td = table_descriptor [OF t(3)]
  have l2: "entry ?m ?l2 (i2 va) = (if unat (i2 va) < 128 then l2_block (unat (i2 va)) else 0)"
    using t(9) [OF idx_lt, of "drop_bit 21 va"] .
  consider "va < 0x40000000" | "0x40000000 \<le> va" "va < 0x50000000" | "0x50000000 \<le> va" "va < 0x80000000"
    | "0x80000000 \<le> va" "va < 0x8000000000" | "0x8000000000 \<le> va" by fastforce
  then show ?thesis
  proof cases
    case 1
    then have "va < 0x8000000000" by (simp add: word_less_nat_alt)
    moreover have "entry ?m kp (i1 va) = 0x60000000000405" using l1 i1_low [OF 1] by simp
    ultimately have "walk ?m kp va = Some (va, 0x60000000000405)"
      using walk_below(1) [of va ?m kp] mask_low [OF 1] by simp
    then show ?thesis using 1 by simp
  next
    case 2
    then have lim: "va < 0x80000000" "va < 0x8000000000" by (simp_all add: word_less_nat_alt)
    note i = i1_ram [OF 2(1) lim(1)] and b = l2_block_fields [OF 2]
    have "(unat va - 0x40000000) div 0x200000 < 128"
      using 2 by (simp add: word_less_nat_alt less_mult_imp_div_less)
    then have "walk ?m kp va = Some (va, l2_block (unat (i2 va)))"
      using walk_below(2) [OF lim(2), of ?m kp] l1 l2 i b td by simp
    moreover have "\<not> va < 0x40000000" using 2(1) by (simp only: not_less)
    ultimately show ?thesis using 2(2) i(2) by simp
  next
    case 3
    then have lim: "0x40000000 \<le> va" by (simp add: word_le_nat_alt)
    note i = i1_ram [OF lim 3(2)]
    have "128 \<le> (unat va - 0x40000000) div 0x200000"
      using 3 by (simp add: word_le_nat_alt less_eq_div_iff_mult_less_eq)
    then have "walk ?m kp va = None" using l1 l2 i td by (simp add: walk_def Let_def)
    moreover have "\<not> va < 0x40000000" "\<not> va < 0x50000000" using 3 lim by simp_all
    ultimately show ?thesis by simp
  next
    case 4
    then have "\<not> va < 0x40000000" "\<not> va < 0x50000000" by (simp_all add: word_less_nat_alt word_le_nat_alt)
    moreover have "walk ?m kp va = None" using l1 i1_high [OF 4] by (intro walk_invalid_l1) (simp add: invalid_def)
    ultimately show ?thesis by simp
  next
    case 5
    then have "\<not> va < 0x40000000" "\<not> va < 0x50000000" by (simp_all add: word_less_nat_alt word_le_nat_alt)
    then show ?thesis using walk_high [OF 5] by simp
  qed
qed

lemma mmu_init_nodes:
  assumes "pages_wf s" and "kp \<in> held_pages s" and "free_set s \<noteq> {}"
  shows "node_addr (mem (mmu_init kp s)) kp n =
    (case n of Root \<Rightarrow> Some kp | L2 i \<Rightarrow> if i = 1 then Some (page_addr (Min (free_set s))) else None | L3 i j \<Rightarrow> None)"
proof -
  note t = mmu_init_tables [OF assms]
  let ?l2 = "page_addr (Min (free_set s))" and ?m = "mem (mmu_init kp s)"
  have n1: "next_table ?m kp i = (if i = 1 then Some ?l2 else None)" for i
    using t(8) [of i] table_descriptor [OF t(3)]
    by (auto simp: next_table_def table_ptr_def dev_block_bits)
  have n2: "next_table ?m ?l2 j = None" for j
  proof (cases "j < 512 \<and> unat j < 128")
    case True
    have e: "l2_block (unat j) AND 2 = 0"
    proof -
      define va :: u64 where "va = 0x40000000 + j * 0x200000"
      have "unat (j * 0x200000) = unat j * 0x200000"
        using True by (simp add: unat_word_ariths)
      then have u: "unat va = 0x40000000 + unat j * 0x200000"
        unfolding va_def using True by (subst unat_add_small) simp_all
      then have r: "0x40000000 \<le> va" "va < 0x50000000" using True by (simp_all add: word_le_nat_alt word_less_nat_alt)
      then have "va < 0x80000000" by (simp add: word_less_nat_alt)
      then have "unat (i2 va) = unat j" using i1_ram(2) [OF r(1)] u by simp
      then show ?thesis using l2_block_fields(2) [OF r] by simp
    qed
    then show ?thesis using t(9) [of j] True by (simp add: next_table_def table_ptr_def)
  next
    case False
    then show ?thesis using t(9) [of j] by (auto simp: next_table_def table_ptr_def)
  qed
  show ?thesis by (cases n) (auto simp: n1 n2)
qed

lemma mmu_init_pt_wf:
  assumes "pages_wf s" and "kp \<in> held_pages s" and "free_set s \<noteq> {}"
  shows "pt_wf (mmu_init kp s) kp"
  using mmu_init_tables(1,2,4) [OF assms] assms(2) mmu_init_nodes [OF assms]
  by (auto simp: pt_wf_def split: node.splits if_splits)

lemma create_user_page_table_eq:
  assumes wf: "pt_wf s kp" and free: "free_set s \<noteq> {}"
  obtains s' pgd where "create_user_page_table kp s = (s', pgd)" "pgd \<noteq> 0" "pgd \<notin> held_pages s"
    "\<And>j. j < 512 \<Longrightarrow> entry (mem s') pgd j = entry (mem s) kp j"
    "\<And>n t j. node_addr (mem s) kp n = Some t \<Longrightarrow> j < 512 \<Longrightarrow> entry (mem s') t j = entry (mem s) t j"
proof -
  have pw: "pages_wf s" and kp: "kp \<in> held_pages s" using wf by (auto simp: pt_wf_def dest: spec [of _ Root])
  define pgd where "pgd = snd (alloc_page s)"
  define m where "m = mem (fst (alloc_page s))"
  define m' where "m' = fold (\<lambda>i m. set_entry pgd (of_nat i) (entry m kp (of_nat i)) m) [0..<ENTRIES_PER_TABLE] m"
  have nz: "pgd \<noteq> 0" using alloc_page_result [OF pw] free by (simp add: pgd_def)
  have fresh: "pgd \<notin> held_pages s" using pg.alloc_fresh [OF pw] nz by (simp add: pgd_def)
  have "pgd \<in> held_pages (fst (alloc_page s))" using pg.alloc_held [OF pw] nz by (simp add: pgd_def)
  then have pp: "is_page pgd" using held_is_page alloc_page_wf [OF pw] by blast
  have pk: "is_page kp" by (rule held_is_page [OF pw kp])
  have ne: "kp \<noteq> pgd" using kp fresh by auto
  have al: "entry m t j = entry (mem s) t j" if "t \<in> held_pages s" "j < 512" for t j
  proof -
    have "t \<noteq> pgd" using that(1) fresh by blast
    then show ?thesis
      using entry_alloc_page [OF pw _ held_is_page [OF pw that(1)] that(2)] that(1) nz
      by (simp add: m_def pgd_def)
  qed
  have cp: "entry m' t j = (if t = pgd \<and> unat j < 512 then entry m kp j else entry m t j)"
    if "is_page t" "j < 512" for t j
    unfolding m'_def ENTRIES_PER_TABLE_def by (rule fold_copy_entry [OF pp pk ne that]) simp
  show thesis
  proof (rule that [of "(fst (alloc_page s))\<lparr>mem := m'\<rparr>" pgd])
    show "create_user_page_table kp s = ((fst (alloc_page s))\<lparr>mem := m'\<rparr>, pgd)"
      using nz by (simp add: create_user_page_table_def split_beta pgd_def m'_def m_def)
    show "entry (mem ((fst (alloc_page s))\<lparr>mem := m'\<rparr>)) pgd j = entry (mem s) kp j" if "j < 512" for j
      using cp [OF pp that] al [OF kp that] that by (simp add: word_less_nat_alt)
    show "entry (mem ((fst (alloc_page s))\<lparr>mem := m'\<rparr>)) t j = entry (mem s) t j"
      if n: "node_addr (mem s) kp n = Some t" and j: "j < 512" for n t j
    proof -
      have t: "t \<in> held_pages s" "is_page t" using wf n pt_wf_page [OF wf n] by (auto simp: pt_wf_def)
      then show ?thesis using cp [OF t(2) j] al [OF t(1) j] fresh by auto
    qed
  qed (use nz fresh in auto)
qed

text \<open>A block descriptor with address 0 on level 1 makes the mapping code give up at once.\<close>

lemma map_over_null_block:
  assumes "entry (mem s) pgd (i1 virt) AND 1 \<noteq> 0" and "entry (mem s) pgd (i1 virt) AND ADDR_MASK = 0"
  shows "map_page_in_table pgd virt phys flags s = s"
  using assms by (simp add: map_page_in_table_def get_or_create_table_def PTE_VALID_def Let_def)

lemma map_range_steps:
  fixes s :: "'a mm_scheme"
  assumes "unat sz \<le> 2 ^ 64 - 4096" and "n * 4096 \<le> unat sz + 4095"
  shows "map_range_loop kp v p sz fl (of_nat (n * 4096)) s =
    Some (fold (\<lambda>i. map_page kp (v + of_nat i * 4096) (p + of_nat i * 4096) fl) [n..<(unat sz + 4095) div 4096] s)"
  using assms(2)
proof (induction "(unat sz + 4095) div 4096 - n" arbitrary: n s)
  case 0
  have lim: "unat sz \<le> 18446744073709547520" using assms(1) by simp
  have n4: "n * 4096 < 18446744073709551616" using "0.prems" lim by linarith
  have "unat sz \<le> n * 4096" using "0.hyps" by linarith
  then have "\<not> of_nat (n * 4096) < sz" by (simp only: word_less_nat_alt unat_of_nat_small [OF n4])
  moreover have "(unat sz + 4095) div 4096 \<le> n" using "0.hyps" by simp
  ultimately show ?case by (subst map_range_loop.simps) simp
next
  case (Suc k)
  then have n: "n < (unat sz + 4095) div 4096" by simp
  have lim: "unat sz \<le> 18446744073709547520" using assms(1) by simp
  have n4: "n * 4096 < 18446744073709551616" using Suc.prems lim by linarith
  have lt0: "n * 4096 < unat sz" using n by linarith
  then have lt: "of_nat (n * 4096) < sz" by (simp only: word_less_nat_alt unat_of_nat_small [OF n4])
  have "map_range_loop kp v p sz fl (of_nat (Suc n * 4096)) s' =
      Some (fold (\<lambda>i. map_page kp (v + of_nat i * 4096) (p + of_nat i * 4096) fl)
        [Suc n..<(unat sz + 4095) div 4096] s')" for s' :: "'a mm_scheme"
    by (rule Suc.hyps(1)) (use Suc.hyps(2) lt0 in simp_all)
  moreover have "of_nat (n * 4096) + PAGE_SIZE = of_nat (Suc n * 4096)" by (simp add: PAGE_SIZE_def)
  ultimately have "map_range_loop kp v p sz fl (of_nat (n * 4096)) s =
      Some (fold (\<lambda>i. map_page kp (v + of_nat i * 4096) (p + of_nat i * 4096) fl)
        [Suc n..<(unat sz + 4095) div 4096] (map_page kp (v + of_nat (n * 4096)) (p + of_nat (n * 4096)) fl s))"
    using lt by (subst map_range_loop.simps) (simp only: if_True)
  then show ?case using n by (simp add: upt_conv_Cons)
qed

lemma page_step_dvd: "4096 dvd unat off \<Longrightarrow> 4096 dvd unat (off + PAGE_SIZE)"
proof -
  assume "4096 dvd unat off"
  moreover have "unat (off + PAGE_SIZE) = (unat off + 4096) mod 2 ^ 64"
    by (simp add: unat_word_ariths PAGE_SIZE_def)
  moreover have "(4096 :: nat) dvd 2 ^ 64" by simp
  ultimately show ?thesis by (simp only: dvd_mod_iff dvd_add_left_iff dvd_refl)
qed

lemma map_range_diverges:
  assumes "map_range_loop kp v p sz fl off s = Some s'" and "4096 dvd unat off"
  shows "unat sz \<le> 18446744073709547520"
proof -
  have "4096 dvd unat off \<longrightarrow> unat sz \<le> 18446744073709547520"
  proof (rule map_range_loop.raw_induct [of "\<lambda>kp v p sz fl off s s'.
      4096 dvd unat off \<longrightarrow> unat sz \<le> 18446744073709547520", OF _ assms(1)], intro impI)
    fix loop :: "u64 \<Rightarrow> u64 \<Rightarrow> u64 \<Rightarrow> u64 \<Rightarrow> u64 \<Rightarrow> u64 \<Rightarrow> 'a mm_scheme \<Rightarrow> 'a mm_scheme option"
      and kp v p sz fl off s s'
    assume IH: "\<And>kp v p sz fl off s s'. loop kp v p sz fl off s = Some s' \<Longrightarrow>
        4096 dvd unat off \<longrightarrow> unat sz \<le> 18446744073709547520"
      and body: "(if off < sz then loop kp v p sz fl (off + PAGE_SIZE) (map_page kp (v + off) (p + off) fl s)
        else Some s) = Some s'"
      and off: "4096 dvd unat off"
    show "unat sz \<le> 18446744073709547520"
    proof (cases "off < sz")
      case True
      then show ?thesis using IH body page_step_dvd [OF off] by (metis (full_types))
    next
      case False
      then have le: "unat sz \<le> unat off" by (simp add: word_le_nat_alt not_less)
      obtain k where k: "unat off = 4096 * k" using off by auto
      moreover have "unat off < 18446744073709551616" by simp
      ultimately have "k \<le> 4503599627370495" by linarith
      with k le show ?thesis by linarith
    qed
  qed
  with assms(2) show ?thesis by blast
qed

section \<open>Properties\<close>

text \<open>The example machine of \<open>boot_heap\<close> with its page tables set up by \<open>MMU::init\<close>.\<close>

definition boot_cpu :: cpu where
  "boot_cpu = pages_init 0x40100000 0x10000000
     \<lparr>mem = (\<lambda>_. 0), bitmap = [], total_pages = 0, free_pages = 0, irq_enabled = False,
      mair_el1 = 0, tcr_el1 = 0, ttbr0_el1 = 0, sctlr_el1 = 0, vbar_el1 = 0, cntp_tval_el0 = 0,
      cntp_ctl_el0 = 0, mmio = []\<rparr>"

lemma boot_cpu_facts:
  "pages_wf boot_cpu" "free_set boot_cpu = {256..<65536}" "0x40001000 \<in> held_pages boot_cpu"
proof -
  show wf: "pages_wf boot_cpu" and fs: "free_set boot_cpu = {256..<65536}"
    unfolding boot_cpu_def by (simp_all add: pages_init_spec memory_base_def PAGE_SIZE_def)
  have tp: "unat (total_pages boot_cpu) = 65536"
    unfolding boot_cpu_def by (simp add: pages_init_spec memory_base_def PAGE_SIZE_def)
  have "1 \<notin> free_set boot_cpu" by (simp add: fs)
  then have "1 \<in> owned_pages boot_cpu" using tp by (simp add: owned_pages_def free_set_def)
  moreover have "page_addr 1 = 0x40001000" by (simp add: page_addr_def memory_base_def PAGE_SIZE_def)
  ultimately show "0x40001000 \<in> held_pages boot_cpu" by (metis image_eqI)
qed

lemma boot_cpu_free: "free_set boot_cpu \<noteq> {}" by (simp add: boot_cpu_facts)

lemma boot_mmu_facts:
  "pt_wf (mmu_init 0x40001000 boot_cpu) 0x40001000"
  "free_set (mmu_init 0x40001000 boot_cpu) = {257..<65536}"
proof -
  show "pt_wf (mmu_init 0x40001000 boot_cpu) 0x40001000"
    by (rule mmu_init_pt_wf [OF boot_cpu_facts(1,3) boot_cpu_free])
  have "Min (free_set boot_cpu) = 256" by (rule Min_eqI) (auto simp: boot_cpu_facts)
  then have "free_set (mmu_init 0x40001000 boot_cpu) = {256..<65536} - {256}"
    using mmu_init_tables(7) [OF boot_cpu_facts(1,3) boot_cpu_free] boot_cpu_facts(2) by (simp only:)
  also have "\<dots> = {257..<65536}" by auto
  finally show "free_set (mmu_init 0x40001000 boot_cpu) = {257..<65536}" .
qed

lemma boot_mmu_free: "free_set (mmu_init 0x40001000 boot_cpu) \<noteq> {}" by (simp add: boot_mmu_facts)

text \<open>
  C28: after \<open>MMU::init\<close> the hardware walk from \<open>TTBR0\<close> is the identity on the first
  gigabyte (one device block) and on the 256 MB of RAM (2 MB blocks), and every other
  address faults.
\<close>

theorem mmu_init_identity:
  assumes "pages_wf s" and "kernel_pgd \<in> held_pages s" and "free_set s \<noteq> {}"
  shows "map_option fst (walk (mem (mmu_init kernel_pgd s)) (ttbr0_el1 (mmu_init kernel_pgd s)) va) =
    (if va < 0x50000000 then Some va else None)"
proof -
  have "va < 0x50000000" if "va < 0x40000000" using that by (simp add: word_less_nat_alt)
  then show ?thesis
    using mmu_init_walk [OF assms, of va] mmu_init_tables(10) [OF assms] by auto
qed

theorem mmu_init_identity_witness:
  "map_option fst (walk (mem (mmu_init 0x40001000 boot_cpu)) (ttbr0_el1 (mmu_init 0x40001000 boot_cpu)) 0x40201234)
     = Some 0x40201234"
  using mmu_init_identity [OF boot_cpu_facts(1,3) boot_cpu_free, of "0x40201234"] by simp

lemma map_user_page_walk:
  assumes "pt_wf s pgd" and "no_block (mem s) pgd virt" and "2 \<le> card (free_set s)"
    and "virt < 0x8000000000" and "flags AND 3 = 3" and "flags AND ADDR_MASK = 0"
  shows "pt_wf (map_user_page pgd virt phys flags s) pgd
    \<and> (\<forall>va. walk (mem (map_user_page pgd virt phys flags s)) pgd va =
        (if drop_bit 12 va = drop_bit 12 virt
         then Some ((phys AND ADDR_MASK) OR (va AND 0xFFF), (phys AND ADDR_MASK) OR flags)
         else walk (mem s) pgd va))"
proof -
  have "walk (mem (map_user_page pgd virt phys flags s)) pgd va =
      Some ((phys AND ADDR_MASK) OR (va AND 0xFFF), (phys AND ADDR_MASK) OR flags)"
    if eq: "drop_bit 12 va = drop_bit 12 virt" for va
  proof -
    have d: "drop_bit (12 + k) va = drop_bit (12 + k) virt" for k
      using arg_cong [OF eq, of "drop_bit k"] by (simp add: add.commute)
    have i: "i1 va = i1 virt" "i2 va = i2 virt" "i3 va = i3 virt"
      using d [of 18] d [of 9] eq by simp_all
    have nb: "no_block (mem s) pgd va" using assms(2) by (simp add: no_block_def i)
    have "unat va div 4096 = unat virt div 4096"
      using arg_cong [OF eq, of unat] by (simp only: unat_drop_div) simp
    moreover have "unat virt div 4096 < 0x8000000"
      using assms(4) by (simp add: word_less_nat_alt less_mult_imp_div_less)
    ultimately have "unat va div 4096 < 0x8000000" by (simp only:)
    then have "unat va < 0x8000000000" by (simp add: div_less_iff_less_mult)
    then have lt: "va < 0x8000000000" by (simp add: word_less_nat_alt)
    have "map_user_page pgd virt phys flags s = map_page_in_table pgd va phys flags s"
      by (simp add: map_user_page_def map_page_in_table_def i)
    then show ?thesis
      using map_page_in_table_walk(2) [OF assms(1) nb assms(3) lt assms(5,6), of phys] by simp
  qed
  then show ?thesis
    using map_page_in_table_walk(1,3) [OF assms, where phys = phys] by (simp add: map_user_page_def)
qed

text \<open>
  C25: where no block is in the way, mapping a page does what it says and nothing else.  The
  conditions: the tree is well formed, no block descriptor lies on the path of \<open>virt\<close>, two
  pages are free for the tables, \<open>virt\<close> is below 2^39, and the flags make a page descriptor
  and have no address bits.  Then after \<open>map_user_page\<close> the walk takes every address of the page
  at \<open>virt\<close> to the frame \<open>phys\<close> with the requested attributes, the walk of every other page is
  unchanged, and the tree is still well formed.  Addresses below the first gigabyte, where
  every process table has a device block, do not meet the condition on blocks: there nothing is
  mapped.
\<close>

theorem map_user_page_correct:
  assumes "pt_wf s pgd" and "no_block (mem s) pgd virt" and "2 \<le> card (free_set s)"
    and "virt < 0x8000000000" and "flags AND 3 = 3" and "flags AND ADDR_MASK = 0"
  shows "pt_wf (map_user_page pgd virt phys flags s) pgd
    \<and> (\<forall>va. walk (mem (map_user_page pgd virt phys flags s)) pgd va =
        (if drop_bit 12 va = drop_bit 12 virt
         then Some ((phys AND ADDR_MASK) OR (va AND 0xFFF), (phys AND ADDR_MASK) OR flags)
         else walk (mem s) pgd va))"
  by (rule map_user_page_walk [OF assms])

theorem map_user_page_correct_witness:
  "walk (mem (map_user_page 0x40001000 0x7FFFFFC000 0x40200000 PTE_USER_RWX (mmu_init 0x40001000 boot_cpu)))
     0x40001000 0x7FFFFFC123 = Some (0x40200123, 0x40200000 OR PTE_USER_RWX)"
proof -
  let ?s = "mmu_init 0x40001000 boot_cpu" and ?v = "0x7FFFFFC000 :: u64"
  have fl: "PTE_USER_RWX AND 3 = 3" "PTE_USER_RWX AND ADDR_MASK = 0"
    by (simp_all add: PTE_USER_RWX_def PTE_VALID_def PTE_PAGE_def PTE_AF_def PTE_SH_INNER_def
        PTE_ATTR_NORMAL_def PTE_AP_RW_def PTE_AP_USER_def ADDR_MASK_def push_bit_eq_mult)
  have i: "i1 ?v = 511" by (simp add: drop_bit_eq_div)
  have e: "entry (mem ?s) 0x40001000 511 = 0"
    using mmu_init_tables(8) [OF boot_cpu_facts(1,3) boot_cpu_free, of 511] by simp
  have nb: "no_block (mem ?s) 0x40001000 ?v"
    unfolding no_block_def i using e by (simp add: invalid_def next_table_def table_ptr_def)
  have c: "2 \<le> card (free_set ?s)" by (simp add: boot_mmu_facts(2))
  have "drop_bit 12 (0x7FFFFFC123 :: u64) = drop_bit 12 ?v" by (simp add: drop_bit_eq_div)
  then show ?thesis
    using map_user_page_correct [OF boot_mmu_facts(1) nb c _ fl, of "0x40200000"]
    by (simp add: ADDR_MASK_def)
qed

text \<open>
  A new user address space sees exactly what the kernel sees: every address translates
  the same through the table \<open>create_user_page_table\<close> returns as through the kernel's.
\<close>

theorem create_user_page_table_same_view:
  assumes "pt_wf s kernel_pgd" and "free_set s \<noteq> {}"
  shows "\<exists>s' pgd. create_user_page_table kernel_pgd s = (s', pgd) \<and> pgd \<noteq> 0 \<and> pgd \<notin> held_pages s
    \<and> (\<forall>va. walk (mem s') pgd va = walk (mem s) kernel_pgd va \<and> walk (mem s') kernel_pgd va = walk (mem s) kernel_pgd va)"
proof -
  obtain s' pgd where c: "create_user_page_table kernel_pgd s = (s', pgd)" "pgd \<noteq> 0" "pgd \<notin> held_pages s"
    "\<And>j. j < 512 \<Longrightarrow> entry (mem s') pgd j = entry (mem s) kernel_pgd j"
    "\<And>n t j. node_addr (mem s) kernel_pgd n = Some t \<Longrightarrow> j < 512 \<Longrightarrow> entry (mem s') t j = entry (mem s) t j"
    by (rule create_user_page_table_eq [OF assms]) (rule that)
  have "walk (mem s') pgd va = walk (mem s) kernel_pgd va" for va
    using c(4) c(5) idx_lt by (intro walk_path_cong) blast+
  moreover have "walk (mem s') kernel_pgd va = walk (mem s) kernel_pgd va" for va
    using c(5) [of Root] c(5) idx_lt by (intro walk_path_cong) (simp, blast+)
  ultimately show ?thesis using c(1-3) by blast
qed

theorem create_user_page_table_same_view_witness:
  "\<exists>s' pgd. create_user_page_table 0x40001000 (mmu_init 0x40001000 boot_cpu) = (s', pgd) \<and> pgd \<noteq> 0
    \<and> map_option fst (walk (mem s') pgd 0x40201234) = Some 0x40201234"
proof -
  let ?s = "mmu_init 0x40001000 boot_cpu"
  have "walk (mem ?s) 0x40001000 0x40201234 = Some (0x40201234, l2_block 1)"
    using mmu_init_walk [OF boot_cpu_facts(1,3) boot_cpu_free, of "0x40201234"] by simp
  then show ?thesis
    using create_user_page_table_same_view [OF boot_mmu_facts(1) boot_mmu_free] by fastforce
qed

text \<open>
  Where a block descriptor already covers the address, mapping a page does not map it.
  Below 1 GB \<open>map_page\<close> changes nothing at all (the code takes the device block for a table
  at address 0); inside the 256 MB of RAM it stores the page descriptor into the mapped
  memory itself, at eight bytes of the 2 MB block it took for a level 3 table.
\<close>

theorem map_page_over_block:
  assumes "pages_wf s" and "kernel_pgd \<in> held_pages s" and "free_set s \<noteq> {}"
  defines "s' \<equiv> mmu_init kernel_pgd s"
  shows "(virt < 0x40000000 \<longrightarrow> map_page kernel_pgd virt phys flags s' = s')
    \<and> (0x40000000 \<le> virt \<and> virt < 0x50000000 \<longrightarrow>
        map_page kernel_pgd virt phys flags s' =
          s'\<lparr>mem := store64 (mem s') (push_bit 21 (drop_bit 21 virt) + 8 * (drop_bit 12 virt AND 0x1FF))
                ((phys AND ADDR_MASK) OR flags)\<rparr>)"
proof (intro conjI impI)
  note t = mmu_init_tables [OF assms(1-3), folded s'_def]
  show "map_page kernel_pgd virt phys flags s' = s'" if "virt < 0x40000000"
    unfolding map_page_def
    by (rule map_over_null_block)
      (use t(8) [of 0] i1_low [OF that] in \<open>simp_all add: dev_block_bits ADDR_MASK_def\<close>)
  assume "0x40000000 \<le> virt \<and> virt < 0x50000000"
  then have r: "0x40000000 \<le> virt" "virt < 0x50000000" by simp_all
  then have lim: "virt < 0x80000000" by (simp add: word_less_nat_alt)
  let ?l2 = "page_addr (Min (free_set s))"
  note i = i1_ram [OF r(1) lim] and b = l2_block_fields [OF r]
  have "(unat virt - 0x40000000) div 0x200000 < 128"
    using r by (simp add: word_less_nat_alt less_mult_imp_div_less)
  then have e2: "entry (mem s') ?l2 (i2 virt) = l2_block (unat (i2 virt))"
    using t(9) [OF idx_lt, of "drop_bit 21 virt"] i(2) by simp
  have e1: "entry (mem s') kernel_pgd (i1 virt) = ?l2 OR PTE_VALID OR PTE_TABLE" using t(8) [of 1] i(1) by simp
  have g1: "get_or_create_table kernel_pgd (i1 virt) s' = (s', ?l2)"
    using e1 table_descriptor [OF t(3)] by (simp add: get_or_create_table_def PTE_VALID_def)
  have g2: "get_or_create_table ?l2 (i2 virt) s' = (s', push_bit 21 (drop_bit 21 virt))"
    using e2 b(1,3) by (simp add: get_or_create_table_def PTE_VALID_def)
  have "push_bit 21 (drop_bit 21 virt) \<noteq> 0"
  proof
    assume "push_bit 21 (drop_bit 21 virt) = 0"
    from arg_cong [OF this, of "\<lambda>w. bit w 30"] have "\<not> bit virt 30"
      by (simp add: bit_push_bit_iff bit_drop_bit_eq)
    moreover have "bit virt 30"
      using arg_cong [OF i(1), of "\<lambda>w. bit w 0"] by (simp add: bit_idx bit_drop_bit_eq)
    ultimately show False by simp
  qed
  then show "map_page kernel_pgd virt phys flags s' =
      s'\<lparr>mem := store64 (mem s') (push_bit 21 (drop_bit 21 virt) + 8 * (drop_bit 12 virt AND 0x1FF))
        ((phys AND ADDR_MASK) OR flags)\<rparr>"
    using g1 g2 is_page_nonzero [OF t(3)]
    by (simp add: map_page_def map_page_in_table_def Let_def set_entry_def)
qed

theorem map_page_over_block_witness:
  "map_page 0x40001000 0x400000 0x40200000 PTE_USER_RWX (mmu_init 0x40001000 boot_cpu) =
     mmu_init 0x40001000 boot_cpu"
  using map_page_over_block [OF boot_cpu_facts(1,3) boot_cpu_free, of "0x400000"] by simp

text \<open>
  C36: \<open>map_range\<close> returns exactly when the size leaves room for one more page before the
  end of the address space, and then it maps each page of the range once, in order;
  otherwise its offset wraps around to 0 and the loop never ends.
\<close>

theorem map_range_terminates:
  "map_range kernel_pgd virt phys sz flags s =
    (if unat sz \<le> 2 ^ 64 - 4096
     then Some (fold (\<lambda>i. map_page kernel_pgd (virt + of_nat i * 4096) (phys + of_nat i * 4096) flags)
                  [0..<(unat sz + 4095) div 4096] s)
     else None)"
proof (cases "unat sz \<le> 2 ^ 64 - 4096")
  case True
  then show ?thesis
    using map_range_steps [of sz 0 kernel_pgd virt phys flags s] by (simp add: map_range_def)
next
  case False
  then show ?thesis
    using map_range_diverges [of kernel_pgd virt phys sz flags 0 s]
    by (cases "map_range kernel_pgd virt phys sz flags s") (simp_all add: map_range_def)
qed

end
