(* ===== verification/Process.thy ===== *)
theory Process
  imports Mmu
begin

text \<open>
  The process table, src/src/process/process.cpp, process.h and context.S, and the
  round-robin scheduler, src/src/process/scheduler.cpp.  A \<open>Process *\<close> always points into
  \<open>process_table\<close>, so it is modelled as an index, and a null pointer as \<open>None\<close>.  Names are
  pointers; the address of the literal "idle", the address of \<open>kernel_thread_wrapper\<close> and
  the entry points are parameters.  \<open>cpu_regs\<close> holds the callee-saved registers and the
  stack pointer that \<open>context_switch\<close> saves and loads.
\<close>

section \<open>State\<close>

datatype ProcessState = UNUSED | READY | RUNNING | BLOCKED | ZOMBIE

record ProcessContext =
  x19 :: u64 x20 :: u64 x21 :: u64 x22 :: u64 x23 :: u64 x24 :: u64 x25 :: u64
  x26 :: u64 x27 :: u64 x28 :: u64 x29 :: u64 x30 :: u64 sp :: u64

record Process =
  pid :: u32
  state :: ProcessState
  ctx :: ProcessContext
  kernel_stack :: u64
  kernel_stack_top :: u64
  page_table :: u64
  user_entry :: u64
  user_stack :: u64
  name :: u64

record procs = heap +
  process_table :: "Process list"
  next_pid :: u32
  current_process :: "nat option"
  current_index :: nat
  cpu_regs :: ProcessContext

definition MAX_PROCESSES :: nat where "MAX_PROCESSES = 64"
definition USER_STACK_SIZE :: u64 where "USER_STACK_SIZE = 4096 * 4"
definition KERNEL_STACK_SIZE :: u64 where "KERNEL_STACK_SIZE = 4096 * 4"
definition USER_STACK_BASE :: u64 where "USER_STACK_BASE = 0x7FFFFFF000"

definition zero_context :: ProcessContext where
  "zero_context = \<lparr>x19 = 0, x20 = 0, x21 = 0, x22 = 0, x23 = 0, x24 = 0, x25 = 0, x26 = 0,
     x27 = 0, x28 = 0, x29 = 0, x30 = 0, sp = 0\<rparr>"

definition upd_proc :: "nat \<Rightarrow> (Process \<Rightarrow> Process) \<Rightarrow> 'a procs_scheme \<Rightarrow> 'a procs_scheme" where
  "upd_proc i f s = s\<lparr>process_table := (process_table s)[i := f (process_table s ! i)]\<rparr>"

section \<open>Process operations\<close>

definition kernel_thread_return :: "'a procs_scheme \<Rightarrow> 'a procs_scheme" where
  "kernel_thread_return s =
     (case current_process s of Some c \<Rightarrow> upd_proc c (state_update (\<lambda>_. ZOMBIE)) s | None \<Rightarrow> s)"

definition process_init :: "u64 \<Rightarrow> 'a procs_scheme \<Rightarrow> 'a procs_scheme" where
  "process_init idle_name s =
     (let s = fold (\<lambda>i. upd_proc i (\<lambda>p. p\<lparr>state := UNUSED, pid := 0\<rparr>)) [0..<MAX_PROCESSES] s;
          s = upd_proc 0 (\<lambda>p. p\<lparr>pid := 0, state := RUNNING, name := idle_name, kernel_stack := 0\<rparr>) s
      in s\<lparr>current_process := Some 0\<rparr>)"

definition free_slot :: "'a procs_scheme \<Rightarrow> nat option" where
  "free_slot s = find (\<lambda>i. state (process_table s ! i) = UNUSED) [1..<MAX_PROCESSES]"

definition create :: "u64 \<Rightarrow> u64 \<Rightarrow> u64 \<Rightarrow> 'a procs_scheme \<Rightarrow> 'a procs_scheme \<times> nat option" where
  "create wrapper pname entry_fn s =
     (case free_slot s of
        None \<Rightarrow> (s, None)
      | Some i \<Rightarrow>
          let (s, kstack) = alloc_pages (KERNEL_STACK_SIZE div PAGE_SIZE) s
          in if kstack = 0 then (s, None)
             else let s = upd_proc i (\<lambda>p. p\<lparr>pid := next_pid s, state := READY, name := pname,
                        kernel_stack := kstack, kernel_stack_top := kstack + KERNEL_STACK_SIZE,
                        page_table := 0, user_entry := 0, user_stack := 0\<rparr>) s;
                      s = s\<lparr>next_pid := next_pid s + 1\<rparr>;
                      s = upd_proc i (\<lambda>p. p\<lparr>ctx := zero_context\<lparr>
                        x30 := wrapper, sp := kernel_stack_top p, x19 := entry_fn\<rparr>\<rparr>) s
                  in (s, Some i))"

definition map_user_stack :: "u64 \<Rightarrow> u64 \<Rightarrow> 'a procs_scheme \<Rightarrow> 'a procs_scheme" where
  "map_user_stack pgd ustack_phys s =
     fold (\<lambda>i. map_user_page pgd (USER_STACK_BASE - USER_STACK_SIZE + of_nat i * PAGE_SIZE)
                 (ustack_phys + of_nat i * PAGE_SIZE) PTE_USER_RWX)
       [0..<unat (USER_STACK_SIZE div PAGE_SIZE)] s"

definition create_user :: "u64 \<Rightarrow> u64 \<Rightarrow> u64 \<Rightarrow> 'a procs_scheme \<Rightarrow> 'a procs_scheme \<times> nat option" where
  "create_user pname entry_point pgd s =
     (case free_slot s of
        None \<Rightarrow> (s, None)
      | Some i \<Rightarrow>
          let (s, kstack) = alloc_pages (KERNEL_STACK_SIZE div PAGE_SIZE) s
          in if kstack = 0 then (s, None)
             else let (s, ustack_phys) = alloc_pages (USER_STACK_SIZE div PAGE_SIZE) s
                  in if ustack_phys = 0 then (free_page kstack s, None)
                     else let s = map_user_stack pgd ustack_phys s;
                              s = upd_proc i (\<lambda>p. p\<lparr>pid := next_pid s, state := READY, name := pname,
                                kernel_stack := kstack, kernel_stack_top := kstack + KERNEL_STACK_SIZE,
                                page_table := pgd, user_entry := entry_point,
                                user_stack := USER_STACK_BASE\<rparr>) s;
                              s = s\<lparr>next_pid := next_pid s + 1\<rparr>;
                              s = upd_proc i (\<lambda>p. p\<lparr>ctx := zero_context\<lparr>sp := kernel_stack_top p\<rparr>\<rparr>) s
                          in (s, Some i))"

definition free_stack :: "u64 \<Rightarrow> 'a procs_scheme \<Rightarrow> 'a procs_scheme" where
  "free_stack stack s =
     (if stack \<noteq> 0
      then fold (\<lambda>i. free_page (stack + of_nat i * PAGE_SIZE)) [0..<unat (KERNEL_STACK_SIZE div PAGE_SIZE)] s
      else s)"

definition destroy :: "u32 \<Rightarrow> 'a procs_scheme \<Rightarrow> 'a procs_scheme" where
  "destroy p s =
     (case find (\<lambda>i. pid (process_table s ! i) = p) [1..<MAX_PROCESSES] of
        None \<Rightarrow> s
      | Some i \<Rightarrow> upd_proc i (\<lambda>p. p\<lparr>state := UNUSED, pid := 0\<rparr>)
                    (free_stack (kernel_stack (process_table s ! i)) s))"

definition reap_slot :: "nat \<Rightarrow> 'a procs_scheme \<Rightarrow> 'a procs_scheme" where
  "reap_slot i s =
     (if state (process_table s ! i) = ZOMBIE
      then upd_proc i (\<lambda>p. p\<lparr>state := UNUSED, pid := 0, kernel_stack := 0\<rparr>)
             (free_stack (kernel_stack (process_table s ! i)) s)
      else s)"

definition reap_zombies :: "'a procs_scheme \<Rightarrow> 'a procs_scheme" where
  "reap_zombies s = fold reap_slot [1..<MAX_PROCESSES] s"

definition get_current :: "'a procs_scheme \<Rightarrow> nat option" where
  "get_current s = current_process s"

definition get_process :: "u32 \<Rightarrow> 'a procs_scheme \<Rightarrow> nat option" where
  "get_process p s =
     find (\<lambda>i. pid (process_table s ! i) = p \<and> state (process_table s ! i) \<noteq> UNUSED) [0..<MAX_PROCESSES]"

definition process_count :: "'a procs_scheme \<Rightarrow> u32" where
  "process_count s =
     fold (\<lambda>i n. if state (process_table s ! i) \<noteq> UNUSED then n + 1 else n) [0..<MAX_PROCESSES] 0"

section \<open>Scheduler\<close>

definition context_switch :: "nat \<Rightarrow> nat \<Rightarrow> 'a procs_scheme \<Rightarrow> 'a procs_scheme" where
  "context_switch old new s =
     (let s = upd_proc old (ctx_update (\<lambda>_. cpu_regs s)) s
      in s\<lparr>cpu_regs := ctx (process_table s ! new)\<rparr>)"

fun next_ready :: "(nat \<Rightarrow> bool) \<Rightarrow> nat \<Rightarrow> nat \<Rightarrow> nat \<Rightarrow> nat" where
  "next_ready ready start next 0 = next"
| "next_ready ready start next (Suc fuel) =
     (let next = (next + 1) mod MAX_PROCESSES
      in if ready next then next
         else if next \<noteq> start then next_ready ready start next fuel
         else next)"

definition schedule :: "'a procs_scheme \<Rightarrow> 'a procs_scheme" where
  "schedule s =
     (case current_process s of
        None \<Rightarrow> s
      | Some cur \<Rightarrow>
          let s = (if state (process_table s ! cur) = RUNNING then upd_proc cur (state_update (\<lambda>_. READY)) s else s);
              start = current_index s;
              nxt = next_ready (\<lambda>i. state (process_table s ! i) = READY) start start MAX_PROCESSES
          in if state (process_table s ! nxt) \<noteq> READY
             then (if state (process_table s ! cur) = READY then upd_proc cur (state_update (\<lambda>_. RUNNING)) s else s)
             else let old = cur;
                      s = s\<lparr>current_process := Some nxt\<rparr>;
                      s = upd_proc nxt (state_update (\<lambda>_. RUNNING)) s;
                      s = s\<lparr>current_index := nxt\<rparr>;
                      s = (if page_table (process_table s ! nxt) \<noteq> 0
                              \<and> page_table (process_table s ! nxt) \<noteq> page_table (process_table s ! old)
                           then switch_page_table (page_table (process_table s ! nxt)) s else s)
                  in context_switch old nxt s)"

definition yield :: "'a procs_scheme \<Rightarrow> 'a procs_scheme" where
  "yield s = schedule s"

section \<open>Table updates\<close>

lemma upd_proc_fields [simp]:
  "mem (upd_proc i f s) = mem s" "bitmap (upd_proc i f s) = bitmap s"
  "total_pages (upd_proc i f s) = total_pages s" "free_pages (upd_proc i f s) = free_pages s"
  "next_pid (upd_proc i f s) = next_pid s" "current_process (upd_proc i f s) = current_process s"
  "current_index (upd_proc i f s) = current_index s" "cpu_regs (upd_proc i f s) = cpu_regs s"
  "length (process_table (upd_proc i f s)) = length (process_table s)"
  by (simp_all add: upd_proc_def)

lemma process_table_upd:
  "i < length (process_table s) \<Longrightarrow>
   process_table (upd_proc i f s) ! j = (if j = i then f (process_table s ! i) else process_table s ! j)"
  by (simp add: upd_proc_def)

lemma pages_upd_proc [simp]:
  "free_set (upd_proc i f s) = free_set s" "owned_pages (upd_proc i f s) = owned_pages s"
  "pages_wf (upd_proc i f s) = pages_wf s"
  by (simp_all add: free_set_def owned_pages_def pages_wf_def)

section \<open>The round-robin search\<close>

lemma next_ready_search:
  assumes "start < 64" "c + fuel = 64" "next = (start + c) mod 64"
    and "\<And>j. 1 \<le> j \<Longrightarrow> j \<le> c \<Longrightarrow> \<not> ready ((start + j) mod 64)" and "0 < fuel"
  shows "(\<exists>k. 1 \<le> k \<and> k \<le> 64 \<and> next_ready ready start next fuel = (start + k) mod 64
      \<and> ready ((start + k) mod 64) \<and> (\<forall>j. 1 \<le> j \<longrightarrow> j < k \<longrightarrow> \<not> ready ((start + j) mod 64)))
    \<or> next_ready ready start next fuel = start \<and> (\<forall>j. 1 \<le> j \<longrightarrow> j \<le> 64 \<longrightarrow> \<not> ready ((start + j) mod 64))"
  using assms(2-)
proof (induction fuel arbitrary: c "next")
  case (Suc fuel)
  let ?n = "(start + Suc c) mod 64"
  have n: "(next + 1) mod MAX_PROCESSES = ?n" using Suc.prems(2) by (simp add: MAX_PROCESSES_def mod_Suc_eq)
  show ?case
  proof (cases "ready ?n")
    case True
    then show ?thesis
      using Suc.prems n by (intro disjI1 exI [of _ "Suc c"]) (simp add: Let_def)
  next
    case False
    then have none: "\<not> ready ((start + j) mod 64)" if "1 \<le> j" "j \<le> Suc c" for j
      using that Suc.prems(3) by (cases "j = Suc c") auto
    show ?thesis
    proof (cases "?n = start")
      case True
      have "Suc c = 64"
      proof (rule ccontr)
        assume "Suc c \<noteq> 64"
        then have "Suc c < 64" using Suc.prems(1) by simp
        then have "(start + Suc c) mod 64 \<noteq> start"
          using assms(1) by (cases "start + Suc c < 64") (auto simp: mod_if)
        with True show False by simp
      qed
      then show ?thesis using none False True n by (intro disjI2) (simp add: Let_def)
    next
      case ne: False
      have "fuel \<noteq> 0"
      proof
        assume "fuel = 0"
        then have "Suc c = 64" using Suc.prems(1) by simp
        with ne assms(1) show False by simp
      qed
      then have "(\<exists>k. 1 \<le> k \<and> k \<le> 64 \<and> next_ready ready start ?n fuel = (start + k) mod 64
          \<and> ready ((start + k) mod 64) \<and> (\<forall>j. 1 \<le> j \<longrightarrow> j < k \<longrightarrow> \<not> ready ((start + j) mod 64)))
        \<or> next_ready ready start ?n fuel = start \<and> (\<forall>j. 1 \<le> j \<longrightarrow> j \<le> 64 \<longrightarrow> \<not> ready ((start + j) mod 64))"
        using Suc.prems(1) none by (intro Suc.IH [of "Suc c"]) simp_all
      then show ?thesis using n False ne by (simp add: Let_def)
    qed
  qed
qed simp

lemma cyclic_offset: "start < 64 \<Longrightarrow> i < 64 \<Longrightarrow> \<exists>j. 1 \<le> j \<and> j \<le> 64 \<and> (start + j) mod 64 = (i :: nat)"
  by (rule exI [of _ "if start < i then i - start else i + 64 - start"]) auto

lemma next_ready_cases:
  assumes "start < 64"
  obtains (found) k where "1 \<le> k" "k \<le> 64" "next_ready ready start start MAX_PROCESSES = (start + k) mod 64"
      "ready ((start + k) mod 64)" "\<And>j. 1 \<le> j \<Longrightarrow> j < k \<Longrightarrow> \<not> ready ((start + j) mod 64)"
  | (none) "next_ready ready start start MAX_PROCESSES = start" "\<And>i. i < 64 \<Longrightarrow> \<not> ready i"
proof -
  have "(\<exists>k. 1 \<le> k \<and> k \<le> 64 \<and> next_ready ready start start 64 = (start + k) mod 64
      \<and> ready ((start + k) mod 64) \<and> (\<forall>j. 1 \<le> j \<longrightarrow> j < k \<longrightarrow> \<not> ready ((start + j) mod 64)))
    \<or> next_ready ready start start 64 = start \<and> (\<forall>j. 1 \<le> j \<longrightarrow> j \<le> 64 \<longrightarrow> \<not> ready ((start + j) mod 64))"
    using assms by (intro next_ready_search [of start 0]) simp_all
  then show thesis
  proof
    assume "\<exists>k. 1 \<le> k \<and> k \<le> 64 \<and> next_ready ready start start 64 = (start + k) mod 64
      \<and> ready ((start + k) mod 64) \<and> (\<forall>j. 1 \<le> j \<longrightarrow> j < k \<longrightarrow> \<not> ready ((start + j) mod 64))"
    then show thesis using found by (auto simp: MAX_PROCESSES_def)
  next
    assume n: "next_ready ready start start 64 = start \<and> (\<forall>j. 1 \<le> j \<longrightarrow> j \<le> 64 \<longrightarrow> \<not> ready ((start + j) mod 64))"
    have "\<not> ready i" if "i < 64" for i
      using cyclic_offset [OF assms that] n by auto
    with n show thesis by (intro none) (simp_all add: MAX_PROCESSES_def)
  qed
qed

section \<open>One scheduling decision\<close>

text \<open>
  The scheduler's invariant: \<open>current_process\<close> is the slot \<open>current_index\<close>, and no other
  process is marked as running.
\<close>

definition sched_inv :: "'a procs_scheme \<Rightarrow> bool" where
  "sched_inv s \<longleftrightarrow> length (process_table s) = 64 \<and> current_index s < 64
     \<and> current_process s = Some (current_index s)
     \<and> (\<forall>i < 64. state (process_table s ! i) = RUNNING \<longrightarrow> i = current_index s)"

abbreviation pstate :: "'a procs_scheme \<Rightarrow> nat \<Rightarrow> ProcessState" where
  "pstate s i \<equiv> state (process_table s ! i)"

definition runnable :: "'a procs_scheme \<Rightarrow> nat \<Rightarrow> bool" where
  "runnable s i \<longleftrightarrow> pstate s i = READY \<or> i = current_index s \<and> pstate s i = RUNNING"

lemma context_switch_fields [simp]:
  "length (process_table (context_switch a b s)) = length (process_table s)"
  "current_index (context_switch a b s) = current_index s"
  "current_process (context_switch a b s) = current_process s"
  "mem (context_switch a b s) = mem s" "bitmap (context_switch a b s) = bitmap s"
  "total_pages (context_switch a b s) = total_pages s" "free_pages (context_switch a b s) = free_pages s"
  by (simp_all add: context_switch_def Let_def)

lemma switch_page_table_fields [simp]:
  "process_table (switch_page_table t s) = process_table s" "cpu_regs (switch_page_table t s) = cpu_regs s"
  "current_index (switch_page_table t s) = current_index s"
  "current_process (switch_page_table t s) = current_process s"
  "mem (switch_page_table t s) = mem s" "bitmap (switch_page_table t s) = bitmap s"
  "total_pages (switch_page_table t s) = total_pages s" "free_pages (switch_page_table t s) = free_pages s"
  by (simp_all add: switch_page_table_def)

lemma schedule_idle:
  assumes inv: "sched_inv s" and none: "\<And>i. i < 64 \<Longrightarrow> \<not> runnable s i"
  shows "schedule s = s"
proof -
  define c where "c = current_index s"
  have c: "c < 64" "current_process s = Some c" using inv by (simp_all add: sched_inv_def c_def)
  have nr: "pstate s i \<noteq> READY" if "i < 64" for i using none [OF that] by (simp add: runnable_def)
  have cr: "pstate s c \<noteq> RUNNING" using none [OF c(1)] by (simp add: runnable_def c_def)
  obtain n where n: "next_ready (\<lambda>i. pstate s i = READY) c c MAX_PROCESSES = n" "n < 64"
    by (cases rule: next_ready_cases [OF c(1), of "\<lambda>i. pstate s i = READY"]) (use c(1) in auto)
  show ?thesis using c cr n nr by (simp add: schedule_def Let_def flip: c_def)
qed

lemma schedule_switch:
  assumes inv: "sched_inv s" and r: "\<exists>i < 64. runnable s i"
  defines "c \<equiv> current_index s"
  obtains k n where "1 \<le> k" "k \<le> 64" "n = (c + k) mod 64" "runnable s n"
    "\<And>j. 1 \<le> j \<Longrightarrow> j < k \<Longrightarrow> \<not> runnable s ((c + j) mod 64)"
    "sched_inv (schedule s)" "current_index (schedule s) = n" "pstate (schedule s) n = RUNNING"
    "\<And>i. i < 64 \<Longrightarrow> i \<noteq> n \<Longrightarrow> pstate (schedule s) i = (if runnable s i then READY else pstate s i)"
    "cpu_regs (schedule s) = (if n = c then cpu_regs s else ctx (process_table s ! n))"
    "ctx (process_table (schedule s) ! c) = cpu_regs s"
    "\<And>i. i < 64 \<Longrightarrow> i \<noteq> c \<Longrightarrow> ctx (process_table (schedule s) ! i) = ctx (process_table s ! i)"
proof -
  have len: "length (process_table s) = 64" and c: "c < 64" "current_process s = Some c"
    and only: "\<And>i. i < 64 \<Longrightarrow> pstate s i = RUNNING \<Longrightarrow> i = c"
    using inv by (auto simp: sched_inv_def c_def)
  define s1 where "s1 = (if pstate s c = RUNNING then upd_proc c (state_update (\<lambda>_. READY)) s else s)"
  have s1: "pstate s1 i = (if runnable s i then READY else pstate s i)" if "i < 64" for i
    using len c that by (auto simp: s1_def runnable_def process_table_upd c_def)
  have s1f: "current_index s1 = c" "length (process_table s1) = 64" "cpu_regs s1 = cpu_regs s"
      "current_process s1 = Some c"
    using len c by (simp_all add: s1_def c_def)
  have s1c: "ctx (process_table s1 ! i) = ctx (process_table s ! i)" for i
    using len c by (simp add: s1_def process_table_upd)
  have rr: "pstate s1 i = READY \<longleftrightarrow> runnable s i" if "i < 64" for i
    using s1 [OF that] by (auto simp: runnable_def)
  have c64: "(c + j) mod 64 < 64" for j by simp
  obtain k where k: "1 \<le> k" "k \<le> 64" "next_ready (\<lambda>i. pstate s1 i = READY) c c MAX_PROCESSES = (c + k) mod 64"
      "runnable s ((c + k) mod 64)" "\<And>j. 1 \<le> j \<Longrightarrow> j < k \<Longrightarrow> \<not> runnable s ((c + j) mod 64)"
    using c(1) r rr c64
    by (cases rule: next_ready_cases [of c "\<lambda>i. pstate s1 i = READY"]) auto
  define n where "n = (c + k) mod 64"
  have n: "n < 64" "pstate s1 n = READY" using k(4) rr [of n] by (simp_all add: n_def)
  define s2 where "s2 = (upd_proc n (state_update (\<lambda>_. RUNNING)) (s1\<lparr>current_process := Some n\<rparr>))\<lparr>current_index := n\<rparr>"
  define s3 where "s3 = (if page_table (process_table s2 ! n) \<noteq> 0
      \<and> page_table (process_table s2 ! n) \<noteq> page_table (process_table s2 ! c)
    then switch_page_table (page_table (process_table s2 ! n)) s2 else s2)"
  have sch: "schedule s = context_switch c n s3"
    using c(2) k(3) n(2) by (simp add: schedule_def Let_def s1_def [symmetric] s1f n_def [symmetric] s2_def s3_def)
  have s3: "process_table s3 = process_table s2" "cpu_regs s3 = cpu_regs s" "current_index s3 = n"
      "current_process s3 = Some n" "length (process_table s3) = 64"
    using s1f by (simp_all add: s3_def s2_def upd_proc_def)
  have p2: "process_table s2 ! i = (if i = n then (process_table s1 ! n)\<lparr>state := RUNNING\<rparr> else process_table s1 ! i)" for i
    using n s1f by (simp add: s2_def upd_proc_def)
  have p4: "process_table (schedule s) ! i = (if i = c then (process_table s2 ! c)\<lparr>ctx := cpu_regs s\<rparr> else process_table s2 ! i)" for i
    using c s3 by (simp add: sch context_switch_def Let_def process_table_upd)
  have regs: "cpu_regs (schedule s) = ctx (process_table (schedule s) ! n)"
    by (simp add: sch context_switch_def Let_def)
  have st: "pstate (schedule s) i = (if i = n then RUNNING else pstate s1 i)" for i
    by (simp add: p4 p2)
  have "pstate s1 i \<noteq> RUNNING" if "i < 64" for i
    using s1 [OF that] only [OF that] by (auto simp: runnable_def c_def)
  then have "sched_inv (schedule s)"
    using s3 n by (simp add: sched_inv_def st) (simp add: sch)
  moreover have "current_index (schedule s) = n" using s3 by (simp add: sch)
  ultimately show thesis
    using k n c s1 by (intro that [of k n]) (simp_all add: n_def [symmetric] st regs p4 p2 s1c)
qed

section \<open>Page requests leave the process table alone\<close>

definition same_procs :: "'a procs_scheme \<Rightarrow> 'a procs_scheme \<Rightarrow> bool" where
  "same_procs s t \<longleftrightarrow> process_table t = process_table s \<and> next_pid t = next_pid s
     \<and> current_process t = current_process s \<and> current_index t = current_index s \<and> cpu_regs t = cpu_regs s"

lemma same_procs_refl [simp]: "same_procs s s"
  by (simp add: same_procs_def)

lemma same_procs_trans: "same_procs s t \<Longrightarrow> same_procs t u \<Longrightarrow> same_procs s u"
  by (simp add: same_procs_def)

lemma same_procs_mem [simp]: "same_procs s (s\<lparr>mem := m\<rparr>)"
  by (simp add: same_procs_def)

lemma same_procs_mark_used: "same_procs s (fold mark_used is s)"
  by (induction "is" arbitrary: s) (auto simp: same_procs_def mark_used_def)

lemma same_procs_alloc_page: "same_procs s (fst (alloc_page s))"
  by (simp add: alloc_page_def same_procs_def mark_used_def Let_def split: option.split)

lemma same_procs_alloc_pages: "same_procs s (fst (alloc_pages n s))"
  using same_procs_mark_used [of s]
  by (simp add: alloc_pages_def same_procs_def Let_def split: option.split)

lemma same_procs_free_page: "same_procs s (free_page a s)"
  by (simp add: free_page_def same_procs_def Let_def)

lemma get_or_create_table_grows:
  assumes "pages_wf s"
  shows "pages_wf (fst (get_or_create_table t i s))"
    "owned_pages s \<subseteq> owned_pages (fst (get_or_create_table t i s))"
proof -
  have a: "pages_wf (fst (alloc_page s))" "owned_pages s \<subseteq> owned_pages (fst (alloc_page s))"
    using alloc_page_wf [OF assms] alloc_page_owned [OF assms] by (auto simp: alloc_page_full cases_simp)
      (cases "free_set s = {}"; auto simp: alloc_page_full)
  have m: "pages_wf (u\<lparr>mem := m\<rparr>) = pages_wf u" "owned_pages (u\<lparr>mem := m\<rparr>) = owned_pages u"
    for u :: "'a mm_scheme" and m
    by (simp_all add: owned_pages_def)
  show "pages_wf (fst (get_or_create_table t i s))"
    "owned_pages s \<subseteq> owned_pages (fst (get_or_create_table t i s))"
    using a assms by (simp_all add: get_or_create_table_def Let_def split_beta m)
qed

lemma same_procs_get_or_create: "same_procs s (fst (get_or_create_table t i s))"
  using same_procs_alloc_page [of s]
  by (simp add: get_or_create_table_def Let_def split_beta same_procs_def)

lemma map_page_in_table_grows:
  assumes "pages_wf s"
  shows "pages_wf (map_page_in_table pgd v p f s)" "owned_pages s \<subseteq> owned_pages (map_page_in_table pgd v p f s)"
proof -
  let ?g = "get_or_create_table pgd (i1 v) s"
  note g = get_or_create_table_grows [OF assms, of pgd "i1 v"]
  note h = get_or_create_table_grows [OF g(1), of "snd ?g" "i2 v"]
  show "pages_wf (map_page_in_table pgd v p f s)" "owned_pages s \<subseteq> owned_pages (map_page_in_table pgd v p f s)"
    using g h by (auto simp: map_page_in_table_def Let_def split_beta owned_pages_def)
qed

lemma same_procs_map_page: "same_procs s (map_page_in_table pgd v p f s)"
proof -
  let ?g = "get_or_create_table pgd (i1 v) s"
  let ?h = "get_or_create_table (snd ?g) (i2 v) (fst ?g)"
  have "same_procs s (fst ?g)" "same_procs s (fst ?h)"
    using same_procs_get_or_create same_procs_trans by blast+
  then show ?thesis
    by (simp add: map_page_in_table_def Let_def split_beta same_procs_def)
qed

lemma map_user_stack_grows:
  assumes "pages_wf s"
  shows "pages_wf (map_user_stack pgd u s)" "owned_pages s \<subseteq> owned_pages (map_user_stack pgd u s)"
    "same_procs s (map_user_stack pgd u s)"
proof -
  have "pages_wf (fold (\<lambda>i. map_user_page pgd (f i) (g i) fl) is s)
      \<and> owned_pages s \<subseteq> owned_pages (fold (\<lambda>i. map_user_page pgd (f i) (g i) fl) is s)
      \<and> same_procs s (fold (\<lambda>i. map_user_page pgd (f i) (g i) fl) is s)" for "is" :: "nat list" and f g fl
    using assms
  proof (induction "is" arbitrary: s)
    case (Cons i "is")
    let ?t = "map_user_page pgd (f i) (g i) fl s"
    have "pages_wf ?t" "owned_pages s \<subseteq> owned_pages ?t" "same_procs s ?t"
      using map_page_in_table_grows [OF Cons.prems] same_procs_map_page by (simp_all add: map_user_page_def)
    with Cons.IH [of ?t] show ?case by (auto intro: same_procs_trans)
  qed simp
  then show "pages_wf (map_user_stack pgd u s)" "owned_pages s \<subseteq> owned_pages (map_user_stack pgd u s)"
    "same_procs s (map_user_stack pgd u s)"
    by (simp_all add: map_user_stack_def)
qed

lemma owned_compl: "owned_pages s = {..<unat (total_pages s)} - free_set s"
  by (auto simp: owned_pages_def free_set_def)

lemma alloc_pages_owned:
  assumes "pages_wf s" and "snd (alloc_pages c s) \<noteq> 0"
  obtains b where "snd (alloc_pages c s) = page_addr b" "fits s (unat c) b" "b + unat c \<le> 65536"
    "owned_pages (fst (alloc_pages c s)) = owned_pages s \<union> {b..<b + unat c}"
    "{b..<b + unat c} \<inter> owned_pages s = {}"
proof -
  obtain t where "fits s (unat c) t" using assms(2) by (cases "\<exists>t. fits s (unat c) t") (auto simp: alloc_pages_none)
  then obtain b where b: "fits s (unat c) b"
    "alloc_pages c s = ((fold mark_used [b..<b + unat c] s)
       \<lparr>mem := memset (mem s) (page_addr b) 0 (c * PAGE_SIZE)\<rparr>, page_addr b)"
    by (rule alloc_pages_first_fit)
  have sub: "{b..<b + unat c} \<subseteq> free_set s" using b(1) by (auto simp: fits_def)
  have "free_set (fst (alloc_pages c s)) = free_set s - {b..<b + unat c}"
    using fold_mark_used [OF assms(1), of "[b..<b + unat c]"] b by (simp add: fits_def)
  then have "owned_pages (fst (alloc_pages c s)) = owned_pages s \<union> {b..<b + unat c}"
    using sub unfolding owned_compl by (auto simp: free_set_def)
  moreover have "{b..<b + unat c} \<inter> owned_pages s = {}" using sub owned_free_disjoint by blast
  moreover have "b + unat c \<le> 65536" using b(1) total_pages_le [OF assms(1)] by (simp add: fits_def)
  ultimately show thesis using b by (intro that [of b]) simp_all
qed

lemma alloc_pages_failed: "snd (alloc_pages c s) = 0 \<Longrightarrow> pages_wf s \<Longrightarrow> fst (alloc_pages c s) = s"
proof (cases "\<exists>t. fits s (unat c) t")
  case True
  then obtain t where "fits s (unat c) t" by blast
  then obtain b where b: "fits s (unat c) b" "snd (alloc_pages c s) = page_addr b"
    by (rule alloc_pages_first_fit) simp
  moreover assume "snd (alloc_pages c s) = 0" "pages_wf s"
  ultimately have "page_addr b = 0" "b \<le> 65536" using total_pages_le [of s] by (auto simp: fits_def)
  then show ?thesis using page_addr_nonzero by blast
qed (simp add: alloc_pages_none)

lemma fold_free_page:
  assumes "pages_wf s" and "set is \<subseteq> owned_pages s" and "distinct is"
  shows "pages_wf (fold (\<lambda>i. free_page (page_addr i)) is s)
    \<and> owned_pages (fold (\<lambda>i. free_page (page_addr i)) is s) = owned_pages s - set is
    \<and> same_procs s (fold (\<lambda>i. free_page (page_addr i)) is s)"
  using assms
proof (induction "is" arbitrary: s)
  case (Cons i "is")
  let ?t = "free_page (page_addr i) s"
  have "i \<in> owned_pages s" using Cons.prems by simp
  then have "owned_pages ?t = owned_pages s - {i}" "pages_wf ?t" "same_procs s ?t"
    using free_set_free_page(2) [OF Cons.prems(1)] free_page_wf [OF Cons.prems(1)] same_procs_free_page by auto
  with Cons.IH [of ?t] Cons.prems show ?case by (auto intro: same_procs_trans)
qed simp

section \<open>Kernel stacks\<close>

text \<open>
  Each process in use that has a kernel stack holds the four pages it starts at, and no page
  serves two processes.
\<close>

definition stack_pages :: "Process \<Rightarrow> nat set" where
  "stack_pages p =
     (let b = unat ((kernel_stack p - memory_base) div PAGE_SIZE)
      in if kernel_stack p = 0 then {} else {b..<b + 4})"

definition in_use :: "'a procs_scheme \<Rightarrow> nat \<Rightarrow> bool" where
  "in_use s i \<longleftrightarrow> 1 \<le> i \<and> i < 64 \<and> pstate s i \<noteq> UNUSED"

definition aligned_stack :: "Process \<Rightarrow> bool" where
  "aligned_stack p \<longleftrightarrow> (\<exists>b. b + 4 \<le> 65536 \<and> kernel_stack p = page_addr b) \<or> kernel_stack p = 0"

definition stacks_ok :: "'a procs_scheme \<Rightarrow> bool" where
  "stacks_ok s \<longleftrightarrow> pages_wf s \<and> length (process_table s) = 64
     \<and> (\<forall>i. in_use s i \<longrightarrow> aligned_stack (process_table s ! i)
          \<and> stack_pages (process_table s ! i) \<subseteq> owned_pages s)
     \<and> (\<forall>i j. in_use s i \<longrightarrow> in_use s j \<longrightarrow> i \<noteq> j \<longrightarrow>
          stack_pages (process_table s ! i) \<inter> stack_pages (process_table s ! j) = {})"

lemma stack_pages_at: "b + 4 \<le> 65536 \<Longrightarrow> kernel_stack p = page_addr b \<Longrightarrow> stack_pages p = {b..<b + 4}"
  using page_addr_nonzero [of b] page_addr_index(2) [of b] by (simp add: stack_pages_def)

lemma KERNEL_STACK_pages: "unat (KERNEL_STACK_SIZE div PAGE_SIZE) = 4" "unat (USER_STACK_SIZE div PAGE_SIZE) = 4"
  by (simp_all add: KERNEL_STACK_SIZE_def USER_STACK_SIZE_def PAGE_SIZE_def)

lemma free_stack_owned:
  assumes wf: "pages_wf s" and al: "aligned_stack p" and own: "stack_pages p \<subseteq> owned_pages s"
  shows "pages_wf (free_stack (kernel_stack p) s)"
    "owned_pages (free_stack (kernel_stack p) s) = owned_pages s - stack_pages p"
    "same_procs s (free_stack (kernel_stack p) s)"
proof -
  consider "kernel_stack p = 0" | b where "b + 4 \<le> 65536" "kernel_stack p = page_addr b"
    using al by (auto simp: aligned_stack_def)
  then have "pages_wf (free_stack (kernel_stack p) s)
    \<and> owned_pages (free_stack (kernel_stack p) s) = owned_pages s - stack_pages p
    \<and> same_procs s (free_stack (kernel_stack p) s)"
  proof cases
    case 1
    then show ?thesis using wf by (simp add: free_stack_def stack_pages_def)
  next
    case 2
    have nz: "page_addr b \<noteq> 0" using 2 by (intro page_addr_nonzero) simp
    have sp: "stack_pages p = {b..<b + 4}" by (rule stack_pages_at [OF 2])
    have pa: "page_addr b + of_nat i * PAGE_SIZE = page_addr (b + i)" for i
      by (simp add: page_addr_def algebra_simps)
    have "free_stack (kernel_stack p) s = fold (\<lambda>i. free_page (page_addr (b + i))) [0..<4] s"
      using nz by (simp only: free_stack_def 2(2) KERNEL_STACK_pages pa not_False_eq_True if_True)
    also have "\<dots> = fold (\<lambda>i. free_page (page_addr i)) (map (\<lambda>i. b + i) [0..<4]) s"
      by (simp only: fold_map comp_def)
    also have "map (\<lambda>i. b + i) [0..<4] = [b..<b + 4]" by (simp add: upt_conv_Cons)
    finally have eq: "free_stack (kernel_stack p) s = fold (\<lambda>i. free_page (page_addr i)) [b..<b + 4] s" .
    show ?thesis
      unfolding eq sp using fold_free_page [OF wf, of "[b..<b + 4]"] own by (simp add: sp)
  qed
  then show "pages_wf (free_stack (kernel_stack p) s)"
    "owned_pages (free_stack (kernel_stack p) s) = owned_pages s - stack_pages p"
    "same_procs s (free_stack (kernel_stack p) s)" by blast+
qed

lemma same_procs_in_use: "same_procs s t \<Longrightarrow> in_use t i = in_use s i"
  by (simp add: same_procs_def in_use_def)

lemma stacks_ok_more_pages:
  assumes "stacks_ok s" "same_procs s t" "pages_wf t" "owned_pages s \<subseteq> owned_pages t"
  shows "stacks_ok t"
proof -
  have u: "in_use t i = in_use s i" for i using assms(2) by (simp add: same_procs_def in_use_def)
  have pt: "process_table t = process_table s" using assms(2) by (simp add: same_procs_def)
  show ?thesis using assms(1,3,4) unfolding stacks_ok_def u pt by blast
qed

text \<open>Giving a slot a fresh stack, and releasing a slot.\<close>

lemma stacks_ok_new:
  assumes ok: "stacks_ok s" and i: "i < 64" "\<not> in_use s i"
    and new: "kernel_stack (f (process_table s ! i)) = page_addr b" "b + 4 \<le> 65536" "{b..<b + 4} \<subseteq> owned_pages s"
    and apart: "\<And>j. in_use s j \<Longrightarrow> stack_pages (process_table s ! j) \<inter> {b..<b + 4} = {}"
  shows "stacks_ok (upd_proc i f s)"
proof -
  have len: "i < length (process_table s)" using ok i by (simp add: stacks_ok_def)
  have u: "in_use (upd_proc i f s) j = (if j = i then 1 \<le> i \<and> state (f (process_table s ! i)) \<noteq> UNUSED else in_use s j)" for j
    using len i by (simp add: in_use_def process_table_upd)
  have sp: "stack_pages (f (process_table s ! i)) = {b..<b + 4}" using stack_pages_at new by blast
  have al: "aligned_stack (f (process_table s ! i))" using new by (auto simp: aligned_stack_def)
  have p: "process_table (upd_proc i f s) ! j = (if j = i then f (process_table s ! i) else process_table s ! j)" for j
    using len by (simp add: process_table_upd)
  show ?thesis
    unfolding stacks_ok_def
  proof (intro conjI allI impI)
    show "pages_wf (upd_proc i f s)" "length (process_table (upd_proc i f s)) = 64"
      using ok by (simp_all add: stacks_ok_def)
  next
    fix j
    assume "in_use (upd_proc i f s) j"
    then show "aligned_stack (process_table (upd_proc i f s) ! j)"
        "stack_pages (process_table (upd_proc i f s) ! j) \<subseteq> owned_pages (upd_proc i f s)"
      using ok new(3) al sp by (cases "j = i"; simp add: u p stacks_ok_def)+
  next
    fix j k
    assume jk: "in_use (upd_proc i f s) j" "in_use (upd_proc i f s) k" "j \<noteq> k"
    consider "j = i" "in_use s k" "k \<noteq> i" | "k = i" "in_use s j" "j \<noteq> i" | "in_use s j" "in_use s k" "j \<noteq> i" "k \<noteq> i"
      using jk by (auto simp: u split: if_splits)
    then show "stack_pages (process_table (upd_proc i f s) ! j) \<inter> stack_pages (process_table (upd_proc i f s) ! k) = {}"
    proof cases
      case 1
      then show ?thesis using apart [of k] by (simp add: p sp Int_commute)
    next
      case 2
      then show ?thesis using apart [of j] by (simp add: p sp)
    next
      case 3
      then show ?thesis using ok jk(3) by (simp add: p stacks_ok_def)
    qed
  qed
qed

lemma stacks_ok_release:
  assumes ok: "stacks_ok s" and i: "in_use s i" and unused: "state (f (process_table s ! i)) = UNUSED"
  shows "stacks_ok (upd_proc i f (free_stack (kernel_stack (process_table s ! i)) s))"
proof -
  define t where "t = free_stack (kernel_stack (process_table s ! i)) s"
  have wf: "pages_wf s" and al: "aligned_stack (process_table s ! i)"
    and own: "stack_pages (process_table s ! i) \<subseteq> owned_pages s"
    using ok i by (auto simp: stacks_ok_def)
  note fs = free_stack_owned [OF wf al own, folded t_def]
  have pt: "process_table t = process_table s" using fs(3) by (simp add: same_procs_def)
  have len: "i < length (process_table s)" using ok i by (simp add: stacks_ok_def in_use_def)
  have u: "in_use (upd_proc i f t) j \<longleftrightarrow> j \<noteq> i \<and> in_use s j" for j
    using len unused by (auto simp: in_use_def pt process_table_upd)
  show ?thesis
    unfolding t_def [symmetric] stacks_ok_def u
  proof (intro conjI allI impI)
    show "pages_wf (upd_proc i f t)" using fs(1) by simp
    show "length (process_table (upd_proc i f t)) = 64" using ok by (simp add: stacks_ok_def pt)
  next
    fix j
    assume j: "j \<noteq> i \<and> in_use s j"
    then have pj: "process_table (upd_proc i f t) ! j = process_table s ! j"
      using len by (simp add: process_table_upd pt)
    show "aligned_stack (process_table (upd_proc i f t) ! j)" using ok j by (simp add: pj stacks_ok_def)
    have "stack_pages (process_table s ! j) \<inter> stack_pages (process_table s ! i) = {}"
      "stack_pages (process_table s ! j) \<subseteq> owned_pages s"
      using ok i j by (auto simp: stacks_ok_def)
    then show "stack_pages (process_table (upd_proc i f t) ! j) \<subseteq> owned_pages (upd_proc i f t)"
      using fs(2) by (auto simp: pj)
  next
    fix j k
    assume "j \<noteq> i \<and> in_use s j" "k \<noteq> i \<and> in_use s k" "j \<noteq> k"
    then show "stack_pages (process_table (upd_proc i f t) ! j) \<inter> stack_pages (process_table (upd_proc i f t) ! k) = {}"
      using ok len by (simp add: stacks_ok_def process_table_upd pt)
  qed
qed

end
