(* ===== verification/Scheduling.thy ===== *)
theory Scheduling
  imports Process
begin

text \<open>
  The process table and the scheduler as a state machine: the steps the kernel takes on
  them, and the invariant of the run states and of the kernel stacks, kept by every step.
\<close>

section \<open>The kernel as a state machine\<close>

text \<open>
  One step: any operation on processes, a scheduling decision, the return of a kernel
  thread, or a page request of another part of the kernel, which may free a page as long as
  it is not part of a stack in use.  Pid 0 is excluded from \<open>destroy\<close>: it also matches
  slots that are not in use.  A thread returns only while its own slot is in use.
\<close>

inductive kernel_step :: "'a procs_scheme \<Rightarrow> 'a procs_scheme \<Rightarrow> bool" where
  step_create: "kernel_step s (fst (create w n e s))"
| step_create_user: "kernel_step s (fst (create_user n e pgd s))"
| step_destroy: "p \<noteq> 0 \<Longrightarrow> kernel_step s (destroy p s)"
| step_reap: "kernel_step s (reap_zombies s)"
| step_schedule: "kernel_step s (schedule s)"
| step_return: "pstate s (current_index s) \<noteq> UNUSED \<Longrightarrow> kernel_step s (kernel_thread_return s)"
| step_alloc_page: "kernel_step s (fst (alloc_page s))"
| step_alloc_pages: "kernel_step s (fst (alloc_pages n s))"
| step_free_page: "\<forall>i. in_use s i \<longrightarrow> b \<notin> stack_pages (process_table s ! i) \<Longrightarrow> b \<in> owned_pages s \<Longrightarrow>
    kernel_step s (free_page (page_addr b) s)"

definition kernel_inv :: "'a procs_scheme \<Rightarrow> bool" where
  "kernel_inv s \<longleftrightarrow> sched_inv s \<and> stacks_ok s
     \<and> (\<forall>i. 1 \<le> i \<longrightarrow> i < 64 \<longrightarrow> pstate s i = UNUSED \<longrightarrow> pid (process_table s ! i) = 0)"

lemma sched_inv_same: "sched_inv s \<Longrightarrow> same_procs s t \<Longrightarrow> sched_inv t"
  by (simp add: sched_inv_def same_procs_def)

lemma kernel_inv_pages:
  assumes "kernel_inv s" "same_procs s t" "stacks_ok t"
  shows "kernel_inv t"
  using assms sched_inv_same [OF _ assms(2)] by (simp add: kernel_inv_def same_procs_def)

lemma sched_inv_upd:
  assumes "sched_inv s" "i < 64" "state (f (process_table s ! i)) \<noteq> RUNNING"
  shows "sched_inv (upd_proc i f s)"
  using assms by (auto simp: sched_inv_def process_table_upd)

lemma kernel_inv_upd:
  assumes "kernel_inv s" "i < 64" "state (f (process_table s ! i)) \<noteq> RUNNING" "stacks_ok (upd_proc i f s)"
    and "state (f (process_table s ! i)) = UNUSED \<Longrightarrow> pid (f (process_table s ! i)) = 0"
  shows "kernel_inv (upd_proc i f s)"
proof -
  have len: "length (process_table s) = 64" using assms(1) by (simp add: kernel_inv_def sched_inv_def)
  show ?thesis
    using assms(1,4,5) sched_inv_upd [of s i f] assms(2,3) len
    by (auto simp: kernel_inv_def process_table_upd)
qed

lemma free_slot_Some:
  "free_slot s = Some i \<longleftrightarrow> 1 \<le> i \<and> i < 64 \<and> pstate s i = UNUSED \<and> (\<forall>j. 1 \<le> j \<longrightarrow> j < i \<longrightarrow> pstate s j \<noteq> UNUSED)"
  by (simp add: free_slot_def find_from_Some MAX_PROCESSES_def)

lemma free_slot_None: "free_slot s = None \<longleftrightarrow> (\<forall>i. 1 \<le> i \<longrightarrow> i < 64 \<longrightarrow> pstate s i \<noteq> UNUSED)"
  by (simp add: free_slot_def find_from_None MAX_PROCESSES_def)

lemma upd_proc_twice: "i < length (process_table s) \<Longrightarrow> upd_proc i g ((upd_proc i f s)\<lparr>next_pid := n\<rparr>) =
    (upd_proc i (\<lambda>p. g (f p)) s)\<lparr>next_pid := n\<rparr>"
  by (simp add: upd_proc_def)

lemma kernel_inv_next_pid [simp]: "kernel_inv (s\<lparr>next_pid := n\<rparr>) = kernel_inv s"
  by (simp add: kernel_inv_def sched_inv_def stacks_ok_def in_use_def pages_wf_def free_set_def owned_pages_def)

lemma stack_apart_fresh:
  assumes "stacks_ok s" "X \<inter> owned_pages s = {}" "in_use s j"
  shows "stack_pages (process_table s ! j) \<inter> X = {}"
  using assms unfolding stacks_ok_def by blast

lemma kernel_inv_alloc_stack:
  assumes inv: "kernel_inv s" and slot: "free_slot s = Some i"
    and nz: "snd (alloc_pages (KERNEL_STACK_SIZE div PAGE_SIZE) s) \<noteq> 0"
    and t: "same_procs (fst (alloc_pages (KERNEL_STACK_SIZE div PAGE_SIZE) s)) t" "pages_wf t"
      "owned_pages (fst (alloc_pages (KERNEL_STACK_SIZE div PAGE_SIZE) s)) \<subseteq> owned_pages t"
    and f: "kernel_stack (f (process_table s ! i)) = snd (alloc_pages (KERNEL_STACK_SIZE div PAGE_SIZE) s)"
      "state (f (process_table s ! i)) = READY"
  shows "kernel_inv (upd_proc i f t)"
proof -
  let ?k = "KERNEL_STACK_SIZE div PAGE_SIZE"
  have ok: "stacks_ok s" and wf: "pages_wf s" using inv by (simp_all add: kernel_inv_def stacks_ok_def)
  obtain b where b: "snd (alloc_pages ?k s) = page_addr b" "b + 4 \<le> 65536"
      "owned_pages (fst (alloc_pages ?k s)) = owned_pages s \<union> {b..<b + 4}" "{b..<b + 4} \<inter> owned_pages s = {}"
    by (rule alloc_pages_owned [OF wf nz, unfolded KERNEL_STACK_pages])
  have same: "same_procs s t" using same_procs_alloc_pages t(1) same_procs_trans by blast
  then have pt: "process_table t = process_table s" by (simp add: same_procs_def)
  have okt: "stacks_ok t" using stacks_ok_more_pages [OF ok same t(2)] b(3) t(3) by blast
  have i: "i < 64" "\<not> in_use t i" using slot by (auto simp: free_slot_Some in_use_def pt)
  have "stacks_ok (upd_proc i f t)"
  proof (rule stacks_ok_new [OF okt i])
    show "kernel_stack (f (process_table t ! i)) = page_addr b" by (simp add: pt f b(1))
    show "b + 4 \<le> 65536" by (fact b(2))
    show "{b..<b + 4} \<subseteq> owned_pages t" using b(3) t(3) by blast
    show "stack_pages (process_table t ! j) \<inter> {b..<b + 4} = {}" if "in_use t j" for j
      using stack_apart_fresh [OF ok b(4), of j] that same_procs_in_use [OF same] by (simp add: pt)
  qed
  then show ?thesis
    using kernel_inv_pages [OF inv same okt] i(1) f(2) by (intro kernel_inv_upd) (simp_all add: pt)
qed

lemma kernel_inv_create: "kernel_inv s \<Longrightarrow> kernel_inv (fst (create w n e s))"
proof (cases "free_slot s")
  case (Some i)
  assume inv: "kernel_inv s"
  let ?k = "KERNEL_STACK_SIZE div PAGE_SIZE"
  have wf: "pages_wf s" and len: "length (process_table s) = 64"
    using inv by (simp_all add: kernel_inv_def stacks_ok_def)
  show ?thesis
  proof (cases "snd (alloc_pages ?k s) = 0")
    case True
    then show ?thesis using Some inv alloc_pages_failed [OF True wf] by (simp add: create_def split_beta)
  next
    case nz: False
    define t where "t = fst (alloc_pages ?k s)"
    have t: "same_procs s t" using same_procs_alloc_pages by (simp add: t_def)
    then have lt: "i < length (process_table t)" using Some len by (simp add: same_procs_def free_slot_Some)
    define f :: "Process \<Rightarrow> Process" where "f = (\<lambda>p. p\<lparr>pid := next_pid t, state := READY, name := n, kernel_stack := snd (alloc_pages ?k s),
        kernel_stack_top := snd (alloc_pages ?k s) + KERNEL_STACK_SIZE, page_table := 0, user_entry := 0,
        user_stack := 0\<rparr>)"
    define g :: "Process \<Rightarrow> Process" where "g = (\<lambda>p. p\<lparr>ctx := zero_context\<lparr>x30 := w, sp := kernel_stack_top p, x19 := e\<rparr>\<rparr>)"
    have "fst (create w n e s) = (upd_proc i (\<lambda>p. g (f p)) t)\<lparr>next_pid := next_pid t + 1\<rparr>"
      using Some nz upd_proc_twice [OF lt, where g = g and f = f]
      by (simp add: create_def split_beta Let_def t_def f_def g_def)
    moreover have "kernel_inv (upd_proc i (\<lambda>p. g (f p)) t)"
      using alloc_pages_wf [OF wf]
      by (intro kernel_inv_alloc_stack [OF inv Some nz]) (simp_all add: t_def f_def g_def)
    ultimately show ?thesis by simp
  qed
qed (simp add: create_def)

lemma kernel_inv_free_page:
  assumes inv: "kernel_inv s" and b: "b \<in> owned_pages s"
    and ns: "\<And>i. in_use s i \<Longrightarrow> b \<notin> stack_pages (process_table s ! i)"
  shows "kernel_inv (free_page (page_addr b) s)"
proof -
  have ok: "stacks_ok s" and wf: "pages_wf s" using inv by (simp_all add: kernel_inv_def stacks_ok_def)
  have sm: "same_procs s (free_page (page_addr b) s)" by (rule same_procs_free_page)
  then have u: "in_use (free_page (page_addr b) s) i = in_use s i"
      "process_table (free_page (page_addr b) s) = process_table s" for i
    by (simp_all add: same_procs_def in_use_def)
  have "owned_pages (free_page (page_addr b) s) = owned_pages s - {b}" by (rule free_set_free_page(2) [OF wf b])
  then have "stacks_ok (free_page (page_addr b) s)"
    using ok ns free_page_wf [OF wf] unfolding stacks_ok_def u by (auto simp: subset_Diff_insert)
  then show ?thesis by (rule kernel_inv_pages [OF inv sm])
qed

lemma kernel_inv_grow:
  assumes "kernel_inv s" "same_procs s t" "pages_wf t" "owned_pages s \<subseteq> owned_pages t"
  shows "kernel_inv t"
  using assms stacks_ok_more_pages [of s t] by (intro kernel_inv_pages [OF assms(1,2)]) (simp add: kernel_inv_def)

lemma alloc_page_grows: "pages_wf s \<Longrightarrow> owned_pages s \<subseteq> owned_pages (fst (alloc_page s))"
  by (cases "free_set s = {}") (auto simp: alloc_page_full alloc_page_owned)

lemma alloc_pages_grows: "pages_wf s \<Longrightarrow> owned_pages s \<subseteq> owned_pages (fst (alloc_pages c s))"
proof (cases "snd (alloc_pages c s) = 0")
  case False
  assume "pages_wf s"
  then show ?thesis using alloc_pages_owned [OF _ False] by blast
qed (simp add: alloc_pages_failed)

lemma kernel_inv_create_user: "kernel_inv s \<Longrightarrow> kernel_inv (fst (create_user n e pgd s))"
proof (cases "free_slot s")
  case (Some i)
  assume inv: "kernel_inv s"
  let ?k = "KERNEL_STACK_SIZE div PAGE_SIZE" and ?u = "USER_STACK_SIZE div PAGE_SIZE"
  have ok: "stacks_ok s" and wf: "pages_wf s" and len: "length (process_table s) = 64"
    using inv by (simp_all add: kernel_inv_def stacks_ok_def)
  show ?thesis
  proof (cases "snd (alloc_pages ?k s) = 0")
    case True
    then show ?thesis using Some inv alloc_pages_failed [OF True wf] by (simp add: create_user_def split_beta)
  next
    case nz: False
    define t where "t = fst (alloc_pages ?k s)"
    have t: "same_procs s t" "pages_wf t" "owned_pages s \<subseteq> owned_pages t"
      using same_procs_alloc_pages alloc_pages_wf [OF wf] alloc_pages_grows [OF wf] by (simp_all add: t_def)
    have invt: "kernel_inv t" by (rule kernel_inv_grow [OF inv t])
    define v where "v = fst (alloc_pages ?u t)"
    have v: "same_procs t v" "pages_wf v" "owned_pages t \<subseteq> owned_pages v"
      using same_procs_alloc_pages alloc_pages_wf [OF t(2)] alloc_pages_grows [OF t(2)] by (simp_all add: v_def)
    show ?thesis
    proof (cases "snd (alloc_pages ?u t) = 0")
      case True
      obtain b where a: "snd (alloc_pages ?k s) = page_addr b" "b + 4 \<le> 65536"
          "owned_pages t = owned_pages s \<union> {b..<b + 4}" "{b..<b + 4} \<inter> owned_pages s = {}"
        unfolding t_def by (rule alloc_pages_owned [OF wf nz, unfolded KERNEL_STACK_pages])
      then have b: "snd (alloc_pages ?k s) = page_addr b" "b \<in> owned_pages t" "{b..<b + 4} \<inter> owned_pages s = {}"
        by auto
      have "fst (create_user n e pgd s) = free_page (page_addr b) t"
        using Some nz True alloc_pages_failed [OF True t(2)] b(1)
        by (simp add: create_user_def split_beta Let_def t_def)
      moreover have "b \<notin> stack_pages (process_table t ! j)" if "in_use t j" for j
        using stack_apart_fresh [OF ok b(3), of j] that same_procs_in_use [OF t(1)] t(1)
        by (auto simp: same_procs_def)
      ultimately show ?thesis using kernel_inv_free_page [OF invt b(2)] by simp
    next
      case unz: False
      define x where "x = map_user_stack pgd (snd (alloc_pages ?u t)) v"
      note xg = map_user_stack_grows [OF v(2), of pgd "snd (alloc_pages ?u t)", folded x_def]
      have tx: "same_procs t x" "owned_pages t \<subseteq> owned_pages x"
        using v xg same_procs_trans by blast+
      have lx: "i < length (process_table x)"
        using Some len t(1) tx(1) by (simp add: same_procs_def free_slot_Some)
      define f :: "Process \<Rightarrow> Process" where "f = (\<lambda>p. p\<lparr>pid := next_pid x, state := READY, name := n, kernel_stack := snd (alloc_pages ?k s),
          kernel_stack_top := snd (alloc_pages ?k s) + KERNEL_STACK_SIZE, page_table := pgd, user_entry := e,
          user_stack := USER_STACK_BASE\<rparr>)"
      define g :: "Process \<Rightarrow> Process" where "g = (\<lambda>p. p\<lparr>ctx := zero_context\<lparr>sp := kernel_stack_top p\<rparr>\<rparr>)"
      have "fst (create_user n e pgd s) = (upd_proc i (\<lambda>p. g (f p)) x)\<lparr>next_pid := next_pid x + 1\<rparr>"
        using Some nz unz upd_proc_twice [OF lx, where g = g and f = f]
        by (simp add: create_user_def split_beta Let_def t_def v_def x_def f_def g_def)
      moreover have "kernel_inv (upd_proc i (\<lambda>p. g (f p)) x)"
        using tx xg(1) by (intro kernel_inv_alloc_stack [OF inv Some nz]) (simp_all add: t_def f_def g_def)
      ultimately show ?thesis by simp
    qed
  qed
qed (simp add: create_user_def)

lemma kernel_inv_release:
  assumes inv: "kernel_inv s" and i: "in_use s i"
    and f: "state (f (process_table s ! i)) = UNUSED" "pid (f (process_table s ! i)) = 0"
  shows "kernel_inv (upd_proc i f (free_stack (kernel_stack (process_table s ! i)) s))"
proof -
  define t where "t = free_stack (kernel_stack (process_table s ! i)) s"
  have ok: "stacks_ok s" using inv by (simp add: kernel_inv_def)
  have "pages_wf s" "aligned_stack (process_table s ! i)" "stack_pages (process_table s ! i) \<subseteq> owned_pages s"
    using ok i by (auto simp: stacks_ok_def)
  then have t: "same_procs s t" unfolding t_def by (rule free_stack_owned(3))
  have "stacks_ok (upd_proc i f t)" unfolding t_def by (rule stacks_ok_release) (fact ok i f(1))+
  moreover have "sched_inv (upd_proc i f t)"
    using inv i f(1) t sched_inv_same [OF _ t]
    by (intro sched_inv_upd) (simp_all add: kernel_inv_def in_use_def same_procs_def)
  moreover have "i < length (process_table t)" "process_table t = process_table s"
    using ok i t by (simp_all add: stacks_ok_def in_use_def same_procs_def)
  ultimately show ?thesis
    using inv f by (simp add: kernel_inv_def process_table_upd flip: t_def)
qed

text \<open>Scheduling touches only run states and saved registers.\<close>

definition same_resources :: "'a procs_scheme \<Rightarrow> 'a procs_scheme \<Rightarrow> bool" where
  "same_resources s t \<longleftrightarrow> length (process_table t) = length (process_table s)
     \<and> bitmap t = bitmap s \<and> total_pages t = total_pages s \<and> free_pages t = free_pages s
     \<and> (\<forall>i. kernel_stack (process_table t ! i) = kernel_stack (process_table s ! i)
          \<and> pid (process_table t ! i) = pid (process_table s ! i)
          \<and> (pstate t i = UNUSED \<longleftrightarrow> pstate s i = UNUSED))"

lemma same_resources_refl [simp]: "same_resources s s"
  by (simp add: same_resources_def)

lemma same_resources_trans: "same_resources s t \<Longrightarrow> same_resources t u \<Longrightarrow> same_resources s u"
  by (simp add: same_resources_def)

lemma same_resources_upd:
  assumes "i < length (process_table s)" "kernel_stack (f (process_table s ! i)) = kernel_stack (process_table s ! i)"
    "pid (f (process_table s ! i)) = pid (process_table s ! i)"
    "state (f (process_table s ! i)) = UNUSED \<longleftrightarrow> pstate s i = UNUSED"
  shows "same_resources s (upd_proc i f s)"
  using assms by (simp add: same_resources_def process_table_upd)

lemma schedule_same_resources:
  assumes inv: "sched_inv s"
  shows "same_resources s (schedule s)"
proof (cases "\<exists>i < 64. runnable s i")
  case False
  then show ?thesis using schedule_idle [OF inv] by simp
next
  case True
  define c where "c = current_index s"
  have len: "length (process_table s) = 64" and c: "c < 64" "current_process s = Some c"
    using inv by (auto simp: sched_inv_def c_def)
  define s1 where "s1 = (if pstate s c = RUNNING then upd_proc c (state_update (\<lambda>_. READY)) s else s)"
  define n where "n = next_ready (\<lambda>i. pstate s1 i = READY) c c MAX_PROCESSES"
  have r1: "same_resources s s1" using len c by (auto simp: s1_def intro!: same_resources_upd)
  have len1: "length (process_table s1) = 64" "current_index s1 = c" using len by (simp_all add: s1_def c_def)
  have n: "n < 64" unfolding n_def by (cases rule: next_ready_cases [OF c(1), of "\<lambda>i. pstate s1 i = READY"]) (use c(1) in auto)
  show ?thesis
  proof (cases "pstate s1 n = READY")
    case False
    then have "schedule s = (if pstate s1 c = READY then upd_proc c (state_update (\<lambda>_. RUNNING)) s1 else s1)"
      using c(2) by (simp add: schedule_def Let_def len1 n_def flip: s1_def)
    moreover have "same_resources s1 (upd_proc c (state_update (\<lambda>_. RUNNING)) s1)" if "pstate s1 c = READY"
      using len1 c that by (intro same_resources_upd) simp_all
    ultimately show ?thesis using r1 same_resources_trans by auto
  next
    case ready: True
    define s2 where "s2 = (upd_proc n (state_update (\<lambda>_. RUNNING)) (s1\<lparr>current_process := Some n\<rparr>))\<lparr>current_index := n\<rparr>"
    define s3 where "s3 = (if page_table (process_table s2 ! n) \<noteq> 0
        \<and> page_table (process_table s2 ! n) \<noteq> page_table (process_table s2 ! c)
      then switch_page_table (page_table (process_table s2 ! n)) s2 else s2)"
    have sch: "schedule s = context_switch c n s3"
      using c(2) ready
      by (simp add: schedule_def Let_def s1_def [symmetric] len1 n_def [symmetric] s2_def s3_def)
    have "same_resources s1 s2"
      using len1 n ready same_resources_upd [of n s1 "state_update (\<lambda>_. RUNNING)"]
      by (simp add: s2_def same_resources_def upd_proc_def)
    moreover have "same_resources s2 s3" by (simp add: s3_def same_resources_def)
    moreover have "same_resources s3 (context_switch c n s3)"
      using same_resources_upd [of c s3 "ctx_update (\<lambda>_. cpu_regs s3)"] c len1
      by (simp add: context_switch_def Let_def same_resources_def s3_def s2_def)
    ultimately show ?thesis unfolding sch using r1 same_resources_trans by blast
  qed
qed

lemma kernel_inv_same_resources:
  assumes "kernel_inv s" "same_resources s t" "sched_inv t"
  shows "kernel_inv t"
proof -
  have u: "in_use t i = in_use s i" and p: "stack_pages (process_table t ! i) = stack_pages (process_table s ! i)"
      "aligned_stack (process_table t ! i) = aligned_stack (process_table s ! i)"
      "pid (process_table t ! i) = pid (process_table s ! i)" "pstate t i = UNUSED \<longleftrightarrow> pstate s i = UNUSED" for i
    using assms(2) by (simp_all add: same_resources_def in_use_def stack_pages_def aligned_stack_def)
  have "owned_pages t = owned_pages s" "pages_wf t = pages_wf s" "length (process_table t) = length (process_table s)"
    using assms(2) by (simp_all add: same_resources_def owned_pages_def pages_wf_def free_set_def)
  then show ?thesis
    using assms(1,3) by (simp add: kernel_inv_def stacks_ok_def u p)
qed

lemma kernel_inv_schedule: "kernel_inv s \<Longrightarrow> kernel_inv (schedule s)"
proof -
  assume inv: "kernel_inv s"
  then have si: "sched_inv s" by (simp add: kernel_inv_def)
  have "sched_inv (schedule s)"
  proof (cases "\<exists>i < 64. runnable s i")
    case True
    then show ?thesis by (rule schedule_switch [OF si])
  next
    case False
    then show ?thesis using schedule_idle [OF si] si by simp
  qed
  then show ?thesis by (rule kernel_inv_same_resources [OF inv schedule_same_resources [OF si]])
qed

lemma kernel_inv_destroy: "kernel_inv s \<Longrightarrow> p \<noteq> 0 \<Longrightarrow> kernel_inv (destroy p s)"
proof (cases "find (\<lambda>i. pid (process_table s ! i) = p) [1..<MAX_PROCESSES]")
  case (Some i)
  assume inv: "kernel_inv s" and p: "p \<noteq> 0"
  then have "in_use s i" using Some by (auto simp: find_from_Some MAX_PROCESSES_def in_use_def kernel_inv_def)
  then show ?thesis using Some by (simp add: destroy_def) (rule kernel_inv_release [OF inv], simp_all)
qed (simp add: destroy_def)

lemma kernel_inv_reap_slot: "kernel_inv s \<Longrightarrow> 1 \<le> i \<Longrightarrow> i < 64 \<Longrightarrow> kernel_inv (reap_slot i s)"
  unfolding reap_slot_def
  by (cases "pstate s i = ZOMBIE") (auto simp: in_use_def intro!: kernel_inv_release)

lemma kernel_inv_reap: "kernel_inv s \<Longrightarrow> kernel_inv (reap_zombies s)"
proof -
  have "kernel_inv s \<Longrightarrow> set is \<subseteq> {1..<64} \<Longrightarrow> kernel_inv (fold reap_slot is s)" for "is"
    by (induction "is" arbitrary: s) (simp_all add: kernel_inv_reap_slot)
  then show "kernel_inv s \<Longrightarrow> kernel_inv (reap_zombies s)"
    by (simp add: reap_zombies_def MAX_PROCESSES_def)
qed

lemma kernel_inv_return:
  assumes "kernel_inv s" and "pstate s (current_index s) \<noteq> UNUSED"
  shows "kernel_inv (kernel_thread_return s)"
proof -
  define c where "c = current_index s"
  have c: "current_process s = Some c" "c < 64" "length (process_table s) = 64"
    using assms(1) by (simp_all add: kernel_inv_def sched_inv_def c_def)
  have "sched_inv (upd_proc c (state_update (\<lambda>_. ZOMBIE)) s)"
    using assms(1) c by (intro sched_inv_upd) (simp_all add: kernel_inv_def)
  moreover have "same_resources s (upd_proc c (state_update (\<lambda>_. ZOMBIE)) s)"
    using c assms(2) by (intro same_resources_upd) (simp_all add: c_def)
  ultimately show ?thesis
    using kernel_inv_same_resources [OF assms(1)] c by (simp add: kernel_thread_return_def)
qed

lemma kernel_inv_wf: "kernel_inv s \<Longrightarrow> pages_wf s"
  by (simp add: kernel_inv_def stacks_ok_def)

lemma kernel_inv_alloc_page: "kernel_inv s \<Longrightarrow> kernel_inv (fst (alloc_page s))"
  by (rule kernel_inv_grow, assumption, rule same_procs_alloc_page)
    (rule alloc_page_wf alloc_page_grows, erule kernel_inv_wf)+

lemma kernel_inv_alloc_pages: "kernel_inv s \<Longrightarrow> kernel_inv (fst (alloc_pages n s))"
  by (rule kernel_inv_grow, assumption, rule same_procs_alloc_pages)
    (rule alloc_pages_wf alloc_pages_grows, erule kernel_inv_wf)+

lemma kernel_step_inv:
  assumes "kernel_step s t" "kernel_inv s"
  shows "kernel_inv t"
  using assms
proof cases
  case (step_free_page b)
  then show ?thesis using kernel_inv_free_page [OF assms(2), of b] by blast
qed (simp_all only: kernel_inv_create kernel_inv_create_user kernel_inv_destroy kernel_inv_reap
    kernel_inv_schedule kernel_inv_return kernel_inv_alloc_page kernel_inv_alloc_pages simp_thms)

lemma kernel_steps_inv: "kernel_step\<^sup>*\<^sup>* s t \<Longrightarrow> kernel_inv s \<Longrightarrow> kernel_inv t"
  by (induction rule: rtranclp_induct) (assumption, rule kernel_step_inv)

lemma fold_upd_proc:
  assumes "n \<le> length (process_table s)"
  shows "process_table (fold (\<lambda>i. upd_proc i f) [0..<n] s) ! j = (if j < n then f (process_table s ! j) else process_table s ! j)
    \<and> length (process_table (fold (\<lambda>i. upd_proc i f) [0..<n] s)) = length (process_table s)
    \<and> current_index (fold (\<lambda>i. upd_proc i f) [0..<n] s) = current_index s
    \<and> bitmap (fold (\<lambda>i. upd_proc i f) [0..<n] s) = bitmap s
    \<and> total_pages (fold (\<lambda>i. upd_proc i f) [0..<n] s) = total_pages s
    \<and> free_pages (fold (\<lambda>i. upd_proc i f) [0..<n] s) = free_pages s"
  using assms by (induction n arbitrary: j) (auto simp: process_table_upd)

lemma process_init_table:
  assumes "length (process_table s) = 64"
  shows "length (process_table (process_init nm s)) = 64"
    and "j < 64 \<Longrightarrow> process_table (process_init nm s) ! j =
      (if j = 0 then (process_table s ! 0)\<lparr>state := RUNNING, pid := 0, name := nm, kernel_stack := 0\<rparr>
       else (process_table s ! j)\<lparr>state := UNUSED, pid := 0\<rparr>)"
    and "current_index (process_init nm s) = current_index s"
    and "current_process (process_init nm s) = Some 0"
    and "pages_wf (process_init nm s) = pages_wf s"
  using fold_upd_proc [of 64 s "\<lambda>p. p\<lparr>state := UNUSED, pid := 0\<rparr>" j]
    fold_upd_proc [of 64 s "\<lambda>p. p\<lparr>state := UNUSED, pid := 0\<rparr>" 0] assms
  by (simp_all add: process_init_def MAX_PROCESSES_def Let_def process_table_upd pages_wf_def
      free_set_def del: upt_rec_numeral upt.simps)

lemma process_init_inv:
  assumes "length (process_table s) = 64" "current_index s = 0" "pages_wf s"
  shows "kernel_inv (process_init nm s)"
proof -
  define u where "u = process_init nm s"
  note u = process_init_table [OF assms(1), where nm = nm, folded u_def]
  have st: "pstate u j = (if j = 0 then RUNNING else UNUSED)" if "j < 64" for j
    using that u(2) [of j] by simp
  then have "\<not> in_use u j" for j by (auto simp: in_use_def)
  then show ?thesis
    using st u assms by (simp add: kernel_inv_def sched_inv_def stacks_ok_def flip: u_def)
qed

end
