(* ===== verification/Process_Props.thy ===== *)
theory Process_Props
  imports Scheduling
begin

text \<open>
  The properties of process.cpp and scheduler.cpp: what each operation does, what holds in
  every state the kernel reaches, how long a ready process waits, and that a process that is
  switched out gets its registers back.
\<close>

section \<open>Sample states\<close>


definition blank_process :: Process where
  "blank_process = \<lparr>pid = 0, state = UNUSED, ctx = zero_context, kernel_stack = 0, kernel_stack_top = 0,
     page_table = 0, user_entry = 0, user_stack = 0, name = 0\<rparr>"

definition boot_base :: procs where
  "boot_base = pages_init 0x40100000 0x10000000
     \<lparr>mem = (\<lambda>_. 0), bitmap = [], total_pages = 0, free_pages = 0, irq_enabled = False,
      mair_el1 = 0, tcr_el1 = 0, ttbr0_el1 = 0, sctlr_el1 = 0, vbar_el1 = 0, cntp_tval_el0 = 0,
      cntp_ctl_el0 = 0, mmio = [], first_block = 0, process_table = replicate 64 blank_process,
      next_pid = 1, current_process = None, current_index = 0, cpu_regs = zero_context\<rparr>"

lemma same_procs_pages_init: "same_procs s (pages_init h t s)"
  using same_procs_mark_used unfolding pages_init_def Let_def
  by (rule same_procs_trans [rotated]) (simp add: same_procs_def)

lemmas procs_pages_init = same_procs_pages_init [unfolded same_procs_def]

lemma boot_base_facts:
  "pages_wf boot_base" "length (process_table boot_base) = 64" "current_index boot_base = 0"
  "free_set boot_base = {256..<65536}" "unat (total_pages boot_base) = 65536" "next_pid boot_base = 1"
  "process_table boot_base = replicate 64 blank_process"
  unfolding boot_base_def
  by (simp_all add: pages_init_spec memory_base_def PAGE_SIZE_def procs_pages_init)

definition boot_procs :: procs where
  "boot_procs = process_init 0x40080000 boot_base"

lemmas boot_procs_facts = process_init_table [OF boot_base_facts(2), where nm = "0x40080000", folded boot_procs_def,
  unfolded boot_base_facts]

lemma boot_procs_inv: "kernel_inv boot_procs"
  unfolding boot_procs_def by (rule process_init_inv) (simp_all add: boot_base_facts)

text \<open>Two processes wait in slots 1 and 2 while the idle process runs.\<close>

definition ready_process :: Process where
  "ready_process = blank_process\<lparr>state := READY, pid := 1\<rparr>"

definition two_ready :: procs where
  "two_ready = boot_procs\<lparr>process_table := ((process_table boot_procs)[1 := ready_process])[2 := ready_process\<lparr>pid := 2\<rparr>]\<rparr>"

lemma two_ready_facts:
  "length (process_table two_ready) = 64" "current_index two_ready = 0" "current_process two_ready = Some 0"
  "pstate two_ready 0 = RUNNING" "pstate two_ready (Suc 0) = READY" "pstate two_ready 2 = READY"
  by (simp_all add: two_ready_def boot_procs_facts ready_process_def blank_process_def)

lemma two_ready_inv: "kernel_inv two_ready"
proof -
  have t: "process_table two_ready ! i =
      (if i = 1 then ready_process else if i = 2 then ready_process\<lparr>pid := 2\<rparr> else process_table boot_procs ! i)"
    if "i < 64" for i
    using that by (simp add: two_ready_def boot_procs_facts nth_list_update)
  have b: "kernel_inv boot_procs" by (rule boot_procs_inv)
  have s: "aligned_stack ready_process" "stack_pages ready_process = {}"
      "aligned_stack (ready_process\<lparr>pid := 2\<rparr>)" "stack_pages (ready_process\<lparr>pid := 2\<rparr>) = {}"
    by (simp_all add: aligned_stack_def stack_pages_def ready_process_def blank_process_def)
  have ow: "owned_pages two_ready = owned_pages boot_procs" "pages_wf two_ready = pages_wf boot_procs"
    by (simp_all add: two_ready_def owned_pages_def pages_wf_def free_set_def)
  have r: "state ready_process = READY" by (simp add: ready_process_def)
  have u: "in_use boot_procs i \<longleftrightarrow> False" for i
    by (auto simp: in_use_def boot_procs_facts)
  have lt: "in_use two_ready i \<Longrightarrow> i = 1 \<or> i = 2" for i
    using u [of i] t [of i] by (auto simp: in_use_def split: if_splits)
  have "stacks_ok two_ready"
    unfolding stacks_ok_def
  proof (intro conjI allI impI)
    show "pages_wf two_ready" using kernel_inv_wf [OF b] ow by simp
  next
    fix i assume "in_use two_ready i"
    then show "aligned_stack (process_table two_ready ! i)"
        "stack_pages (process_table two_ready ! i) \<subseteq> owned_pages two_ready"
      using lt [of i] s t [of i] by auto
  next
    fix i j assume "in_use two_ready i"
    then show "stack_pages (process_table two_ready ! i) \<inter> stack_pages (process_table two_ready ! j) = {}"
      using lt [of i] s t [of i] by auto
  qed (simp add: two_ready_facts)
  moreover have "sched_inv two_ready"
    using t r by (auto simp: two_ready_facts sched_inv_def boot_procs_facts split: if_splits)
  moreover have "pid (process_table two_ready ! i) = 0"
    if "1 \<le> i" "i < 64" "pstate two_ready i = UNUSED" for i
    using that b t [of i] r by (auto simp: kernel_inv_def split: if_splits)
  ultimately show ?thesis by (auto simp: kernel_inv_def)
qed

section \<open>Reachable states\<close>

text \<open>
  C1: in every state the kernel can reach from \<open>Process_::init\<close> by creating, destroying and
  reaping processes, by scheduling, by thread returns and by page requests of its other
  parts, at most one process is marked as running, and it is the current one; and the kernel
  stacks of the processes in use lie in pages that are allocated and that no other process
  uses as its stack.
\<close>

theorem kernel_reachable_consistent:
  assumes "length (process_table s) = 64" and "current_index s = 0" and "pages_wf s"
    and "kernel_step\<^sup>*\<^sup>* (process_init idle_name s) t"
  shows "sched_inv t \<and> stacks_ok t"
  using kernel_steps_inv [OF assms(4) process_init_inv [OF assms(1-3)]] by (simp add: kernel_inv_def)

theorem kernel_reachable_consistent_witness:
  "stacks_ok (schedule (fst (create 0x40081000 0x40080010 0x40082000 boot_procs)))"
proof -
  have "kernel_step\<^sup>*\<^sup>* (process_init 0x40080000 boot_base)
      (schedule (fst (create 0x40081000 0x40080010 0x40082000 boot_procs)))"
    unfolding boot_procs_def
    by (rule rtranclp.rtrancl_into_rtrancl [OF r_into_rtranclp]) (rule step_create step_schedule)+
  then show ?thesis
    using kernel_reachable_consistent [OF boot_base_facts(2,3,1)] by blast
qed

text \<open>
  C2: \<open>Scheduler::schedule\<close> is round robin.  If nothing can run it changes nothing.
  Otherwise it picks the first process after the current slot, in cyclic order, that is ready
  (the running one counts, last), makes it the current and only running process, puts the
  previous one back to ready, and leaves every other run state as it was.
\<close>

theorem schedule_round_robin:
  assumes "sched_inv s"
  shows "if \<forall>i < 64. \<not> runnable s i then schedule s = s
    else (\<exists>k n. 1 \<le> k \<and> k \<le> 64 \<and> n = (current_index s + k) mod 64 \<and> runnable s n
      \<and> (\<forall>j. 1 \<le> j \<and> j < k \<longrightarrow> \<not> runnable s ((current_index s + j) mod 64))
      \<and> sched_inv (schedule s) \<and> current_index (schedule s) = n \<and> pstate (schedule s) n = RUNNING
      \<and> (\<forall>i < 64. i \<noteq> n \<longrightarrow> pstate (schedule s) i = (if runnable s i then READY else pstate s i)))"
proof (cases "\<exists>i < 64. runnable s i")
  case True
  obtain k n where r: "1 \<le> k" "k \<le> 64" "n = (current_index s + k) mod 64" "runnable s n"
    "\<And>j. 1 \<le> j \<Longrightarrow> j < k \<Longrightarrow> \<not> runnable s ((current_index s + j) mod 64)"
    "sched_inv (schedule s)" "current_index (schedule s) = n" "pstate (schedule s) n = RUNNING"
    "\<And>i. i < 64 \<Longrightarrow> i \<noteq> n \<Longrightarrow> pstate (schedule s) i = (if runnable s i then READY else pstate s i)"
    by (rule schedule_switch [OF assms True]) (rule that)
  have "\<not> (\<forall>i < 64. \<not> runnable s i)" using True by blast
  moreover have "\<exists>k n. 1 \<le> k \<and> k \<le> 64 \<and> n = (current_index s + k) mod 64 \<and> runnable s n
      \<and> (\<forall>j. 1 \<le> j \<and> j < k \<longrightarrow> \<not> runnable s ((current_index s + j) mod 64))
      \<and> sched_inv (schedule s) \<and> current_index (schedule s) = n \<and> pstate (schedule s) n = RUNNING
      \<and> (\<forall>i < 64. i \<noteq> n \<longrightarrow> pstate (schedule s) i = (if runnable s i then READY else pstate s i))"
    using r by blast
  ultimately show ?thesis by (simp only: if_False)
qed (use schedule_idle [OF assms] in auto)

theorem schedule_round_robin_witness:
  "current_index (schedule two_ready) = 1 \<and> pstate (schedule two_ready) 0 = READY \<and> pstate (schedule two_ready) 2 = READY"
proof -
  have r: "runnable two_ready 1" "runnable two_ready 0" "runnable two_ready 2"
    by (simp_all add: runnable_def two_ready_facts)
  have "sched_inv two_ready" using two_ready_inv by (simp add: kernel_inv_def)
  note rr = schedule_round_robin [OF this]
  have "\<not> (\<forall>i < 64. \<not> runnable two_ready i)" using r(1) by (metis one_less_numeral_iff semiring_norm(76))
  from rr [unfolded if_not_P [OF this]] obtain k n where k: "1 \<le> k" "n = (current_index two_ready + k) mod 64"
      "\<forall>j. 1 \<le> j \<and> j < k \<longrightarrow> \<not> runnable two_ready ((current_index two_ready + j) mod 64)"
      "current_index (schedule two_ready) = n"
      "\<forall>i < 64. i \<noteq> n \<longrightarrow> pstate (schedule two_ready) i = (if runnable two_ready i then READY else pstate two_ready i)"
    by (elim exE conjE) (rule that)
  have "\<not> 1 < k" using k(3) [rule_format, of 1] r(1) by (auto simp: two_ready_facts)
  with k(1,2) have "k = 1" "n = 1" by (simp_all add: two_ready_facts)
  with k(4,5) r show ?thesis by simp
qed

section \<open>Waiting for the processor\<close>

text \<open>
  \<open>waits p s n t\<close>: from \<open>s\<close> the kernel reaches \<open>t\<close> while process slot \<open>p\<close> stays ready,
  with \<open>n\<close> calls of \<open>schedule\<close>, none of which picks \<open>p\<close>, and any other kernel steps in
  between.
\<close>

inductive waits :: "nat \<Rightarrow> 'a procs_scheme \<Rightarrow> nat \<Rightarrow> 'a procs_scheme \<Rightarrow> bool" for p s where
  waits_start: "pstate s p = READY \<Longrightarrow> waits p s 0 s"
| waits_other: "waits p s n t \<Longrightarrow> kernel_step t u \<Longrightarrow> current_index u = current_index t \<Longrightarrow>
    pstate u p = READY \<Longrightarrow> waits p s n u"
| waits_schedule: "waits p s n t \<Longrightarrow> pstate (schedule t) p = READY \<Longrightarrow> waits p s (Suc n) (schedule t)"

definition ahead :: "nat \<Rightarrow> nat \<Rightarrow> nat" where
  "ahead c p = (if c < p then p - c else p + 64 - c)"

lemma ahead_bounds: "c < 64 \<Longrightarrow> p < 64 \<Longrightarrow> 1 \<le> ahead c p \<and> ahead c p \<le> 64 \<and> (c + ahead c p) mod 64 = p"
  by (auto simp: ahead_def)

lemma ahead_step:
  assumes "c < 64" "p < 64" "k < ahead c p"
  shows "ahead ((c + k) mod 64) p + k = ahead c p"
proof (cases "c + k < 64")
  case True
  then show ?thesis using assms by (auto simp: ahead_def split: if_splits)
next
  case False
  have "k < 64" using assms ahead_bounds [of c p] by linarith
  with False have "(c + k) mod 64 = c + k - 64" using assms(1) by (simp add: le_mod_geq)
  then show ?thesis using False assms by (auto simp: ahead_def split: if_splits)
qed

lemma schedule_within:
  assumes inv: "sched_inv s" and p: "p < 64" "runnable s p"
  shows "\<exists>k. 1 \<le> k \<and> k \<le> ahead (current_index s) p
    \<and> current_index (schedule s) = (current_index s + k) mod 64
    \<and> pstate (schedule s) (current_index (schedule s)) = RUNNING"
proof -
  have c: "current_index s < 64" using inv by (simp add: sched_inv_def)
  have ex: "\<exists>i < 64. runnable s i" using p by blast
  note a = ahead_bounds [OF c p(1)]
  show ?thesis
  proof (rule schedule_switch [OF inv ex], goal_cases)
    case (1 k n)
    have "\<not> ahead (current_index s) p < k" using 1(5) [of "ahead (current_index s) p"] a p(2) by auto
    then show ?case using 1(1,3,7,8) by (intro exI [of _ k]) simp
  qed
qed

lemma schedule_pstate:
  assumes inv: "sched_inv s" and i: "i < 64" "i \<noteq> current_index (schedule s)"
  shows "pstate (schedule s) i = (if runnable s i then READY else pstate s i)"
proof (cases "\<exists>i < 64. runnable s i")
  case True
  show ?thesis
  proof (rule schedule_switch [OF inv True], goal_cases)
    case (1 k n)
    then show ?case using i by simp
  qed
next
  case False
  then have "schedule s = s" using schedule_idle [OF inv] by blast
  with False i(1) show ?thesis by auto
qed

lemma schedule_ahead:
  assumes inv: "sched_inv s" and p: "p < 64" "pstate s p = READY" and not: "pstate (schedule s) p = READY"
  shows "ahead (current_index (schedule s)) p < ahead (current_index s) p"
proof -
  have c: "current_index s < 64" using inv by (simp add: sched_inv_def)
  obtain k where k: "1 \<le> k" "k \<le> ahead (current_index s) p"
      "current_index (schedule s) = (current_index s + k) mod 64"
      "pstate (schedule s) (current_index (schedule s)) = RUNNING"
    using schedule_within [OF inv p(1)] p(2) by (auto simp: runnable_def)
  have "k \<noteq> ahead (current_index s) p" using k(3,4) ahead_bounds [OF c p(1)] not by auto
  with k(2) have "k < ahead (current_index s) p" by simp
  from ahead_step [OF c p(1) this] k(1,3) show ?thesis by simp
qed

lemma waits_inv:
  assumes "waits p s n t" "kernel_inv s" "p < 64"
  shows "kernel_inv t \<and> pstate t p = READY \<and> n + ahead (current_index t) p \<le> ahead (current_index s) p"
  using assms(1)
proof induction
  case waits_start
  then show ?case using assms(2) by simp
next
  case (waits_other n t u)
  then show ?case using kernel_step_inv [of t u] by simp
next
  case (waits_schedule n t)
  then have "kernel_inv t" "pstate t p = READY" by simp_all
  then have "ahead (current_index (schedule t)) p < ahead (current_index t) p"
    using waits_schedule.hyps assms(3) by (intro schedule_ahead) (simp_all add: kernel_inv_def)
  with waits_schedule kernel_inv_schedule [OF \<open>kernel_inv t\<close>] show ?case by simp
qed

text \<open>
  C3: no ready process starves.  While a process stays ready, \<open>schedule\<close> passes it over at
  most 63 times, whatever else the kernel does between the calls: the 64th call at the latest
  makes it the running process.
\<close>

theorem bounded_waiting:
  assumes "kernel_inv s" and "p < 64" and "waits p s n t"
  shows "n \<le> 63"
proof -
  have "n + ahead (current_index t) p \<le> ahead (current_index s) p" "kernel_inv t"
    using waits_inv [OF assms(3,1,2)] by simp_all
  moreover have "1 \<le> ahead (current_index t) p" "ahead (current_index s) p \<le> 64"
    using ahead_bounds assms calculation(2) by (simp_all add: kernel_inv_def sched_inv_def)
  ultimately show ?thesis by linarith
qed

theorem bounded_waiting_witness:
  "waits 2 two_ready 1 (schedule two_ready) \<and> (1 :: nat) \<le> 63"
proof -
  have inv: "sched_inv two_ready" using two_ready_inv by (simp add: kernel_inv_def)
  have "current_index (schedule two_ready) = 1"
    using schedule_within [OF inv, of 1] by (auto simp: runnable_def two_ready_facts ahead_def)
  then have "pstate (schedule two_ready) 2 = READY"
    using schedule_pstate [OF inv, of 2] by (simp add: runnable_def two_ready_facts)
  then have "waits 2 two_ready (Suc 0) (schedule two_ready)"
    by (intro waits_schedule waits_start) (simp_all add: two_ready_facts)
  then show ?thesis using bounded_waiting [OF two_ready_inv, of 2 "Suc 0"] by simp
qed

section \<open>Registers across a switch\<close>

lemma same_procs_table: "same_procs s t \<Longrightarrow> process_table t = process_table s"
  by (simp add: same_procs_def)

lemma free_slot_other:
  assumes "free_slot s = Some i" "pstate s p \<noteq> UNUSED"
  shows "p \<noteq> i"
  using assms by (auto simp: free_slot_Some)

lemma ctx_upd_other: "p \<noteq> i \<Longrightarrow> process_table (upd_proc i f s) ! p = process_table s ! p"
  by (simp add: upd_proc_def)

lemma create_other:
  assumes "pstate s p \<noteq> UNUSED"
  shows "process_table (fst (create w n e s)) ! p = process_table s ! p"
proof (cases "free_slot s")
  case (Some i)
  note same = same_procs_table [OF same_procs_alloc_pages, of "KERNEL_STACK_SIZE div PAGE_SIZE" s]
  show ?thesis
    using free_slot_other [OF Some assms] Some same
    by (simp add: create_def Let_def split_beta ctx_upd_other)
qed (simp add: create_def)

lemma create_user_other:
  assumes "pstate s p \<noteq> UNUSED" "pages_wf s"
  shows "process_table (fst (create_user n e pgd s)) ! p = process_table s ! p"
proof (cases "free_slot s")
  case (Some i)
  define t where "t = fst (alloc_pages (KERNEL_STACK_SIZE div PAGE_SIZE) s)"
  define u where "u = fst (alloc_pages (USER_STACK_SIZE div PAGE_SIZE) t)"
  have wf: "pages_wf u" using assms(2) by (simp add: u_def t_def alloc_pages_wf)
  have t: "process_table t = process_table s" "process_table u = process_table s"
    by (simp_all add: t_def u_def same_procs_table [OF same_procs_alloc_pages])
  have m: "process_table (map_user_stack pgd a u) = process_table s"
      "process_table (free_page b u) = process_table s" for a b
    using same_procs_table [OF map_user_stack_grows(3) [OF wf]] t(2)
    by (simp_all add: same_procs_table [OF same_procs_free_page])
  show ?thesis
    using free_slot_other [OF Some assms(1)] Some t m
    by (simp add: create_user_def Let_def split_beta ctx_upd_other flip: t_def u_def)
qed (simp add: create_user_def)

lemma ctx_free_stack: "process_table (free_stack a s) = process_table s"
proof -
  have "process_table (fold (\<lambda>i. free_page (f i)) is s) = process_table s" for "is" :: "nat list" and f
    by (induction "is" arbitrary: s) (simp_all add: same_procs_table [OF same_procs_free_page])
  then show ?thesis by (simp add: free_stack_def)
qed

lemma ctx_upd_same: "(\<And>q. ctx (f q) = ctx q) \<Longrightarrow> ctx (process_table (upd_proc i f s) ! p) = ctx (process_table s ! p)"
  by (cases "i < length (process_table s)") (simp_all add: upd_proc_def nth_list_update list_update_beyond)

lemma ctx_reap: "ctx (process_table (fold reap_slot is s) ! p) = ctx (process_table s ! p)"
  by (induction "is" arbitrary: s) (simp_all add: reap_slot_def ctx_upd_same ctx_free_stack)

lemma schedule_ctx:
  assumes inv: "sched_inv s" and p: "p < 64" "p \<noteq> current_index s"
  shows "ctx (process_table (schedule s) ! p) = ctx (process_table s ! p)"
proof (cases "\<exists>i < 64. runnable s i")
  case True
  show ?thesis
  proof (rule schedule_switch [OF inv True], goal_cases)
    case (1 k n)
    then show ?case using p by simp
  qed
qed (use schedule_idle [OF inv] in auto)

lemma kernel_step_ctx:
  assumes "kernel_step s t" "kernel_inv s" "p < 64" "pstate s p \<noteq> UNUSED" "p \<noteq> current_index s"
  shows "ctx (process_table t ! p) = ctx (process_table s ! p)"
  using assms(1)
proof cases
  case step_create
  then show ?thesis using create_other [OF assms(4)] by simp
next
  case step_create_user
  then show ?thesis using create_user_other [OF assms(4) kernel_inv_wf [OF assms(2)]] by simp
next
  case step_destroy
  then show ?thesis by (simp add: destroy_def ctx_upd_same ctx_free_stack split: option.split)
next
  case step_reap
  then show ?thesis by (simp add: reap_zombies_def ctx_reap)
next
  case step_schedule
  then show ?thesis using assms by (simp add: kernel_inv_def schedule_ctx)
next
  case step_return
  then show ?thesis by (simp add: kernel_thread_return_def ctx_upd_same split: option.split)
qed (simp_all add: same_procs_table [OF same_procs_alloc_page] same_procs_table [OF same_procs_alloc_pages]
    same_procs_table [OF same_procs_free_page])

text \<open>
  \<open>away p s t\<close>: from \<open>s\<close> the kernel reaches \<open>t\<close> with slot \<open>p\<close> in use and never current:
  kernel steps, and the other processes' own work, which leaves any values in the registers.
\<close>

inductive away :: "nat \<Rightarrow> 'a procs_scheme \<Rightarrow> 'a procs_scheme \<Rightarrow> bool" for p s where
  away_start: "current_index s \<noteq> p \<Longrightarrow> away p s s"
| away_step: "away p s t \<Longrightarrow> kernel_step t u \<Longrightarrow> pstate u p \<noteq> UNUSED \<Longrightarrow> current_index u \<noteq> p \<Longrightarrow> away p s u"
| away_run: "away p s t \<Longrightarrow> away p s (t\<lparr>cpu_regs := r\<rparr>)"

lemma kernel_inv_regs [simp]: "kernel_inv (t\<lparr>cpu_regs := r\<rparr>) = kernel_inv t"
proof -
  have "in_use (t\<lparr>cpu_regs := r\<rparr>) = in_use t" by (simp add: in_use_def fun_eq_iff)
  then show ?thesis
    by (simp add: kernel_inv_def sched_inv_def stacks_ok_def pages_wf_def free_set_def owned_pages_def)
qed

lemma away_inv:
  assumes "away p s t" "kernel_inv s" "p < 64" "pstate s p \<noteq> UNUSED"
  shows "kernel_inv t \<and> pstate t p \<noteq> UNUSED \<and> current_index t \<noteq> p \<and> ctx (process_table t ! p) = ctx (process_table s ! p)"
  using assms(1)
proof induction
  case (away_step t u)
  then have "kernel_inv t" "pstate t p \<noteq> UNUSED" "p \<noteq> current_index t" by simp_all
  with away_step kernel_step_ctx [OF away_step.hyps(2)] kernel_step_inv [OF away_step.hyps(2)] assms(3)
  show ?case by simp
qed (use assms in simp_all)

lemma schedule_in:
  assumes inv: "sched_inv s" and p: "current_index (schedule s) = p" "p \<noteq> current_index s"
  shows "cpu_regs (schedule s) = ctx (process_table s ! p)"
proof (cases "\<exists>i < 64. runnable s i")
  case True
  show ?thesis
  proof (rule schedule_switch [OF inv True], goal_cases)
    case (1 k n)
    then show ?case using p by simp
  qed
qed (use schedule_idle [OF inv] p in auto)

lemma schedule_out:
  assumes inv: "sched_inv s" and p: "current_index s = p" "current_index (schedule s) \<noteq> p"
  shows "ctx (process_table (schedule s) ! p) = cpu_regs s \<and> pstate (schedule s) p = (if runnable s p then READY else pstate s p)"
proof (cases "\<exists>i < 64. runnable s i")
  case True
  have "p < 64" using inv p by (simp add: sched_inv_def)
  then show ?thesis
  proof (intro conjI)
    show "ctx (process_table (schedule s) ! p) = cpu_regs s"
    proof (rule schedule_switch [OF inv True], goal_cases)
      case (1 k n)
      then show ?case using p by simp
    qed
  qed (use schedule_pstate [OF inv] p in simp)
qed (use schedule_idle [OF inv] p in auto)

text \<open>
  C4: a process gets its registers back.  When \<open>schedule\<close> switches away from a process and,
  after any further kernel steps and any work of the other processes during which its slot
  stays in use, some later call makes it current again, the callee-saved registers, the return
  address and the stack pointer are exactly those it had when it was switched out.
\<close>

theorem switch_restores_registers:
  assumes "kernel_inv s" and "current_index s = p" and "pstate s p \<noteq> UNUSED"
    and "away p (schedule s) t" and "current_index (schedule t) = p"
  shows "cpu_regs (schedule t) = cpu_regs s"
proof -
  have inv: "sched_inv s" and p: "p < 64" using assms(1,2) by (auto simp: kernel_inv_def sched_inv_def)
  have ne: "current_index (schedule s) \<noteq> p" using assms(4)
    by induction (simp_all)
  note out = schedule_out [OF inv assms(2) ne]
  have "pstate (schedule s) p \<noteq> UNUSED" using out assms(3) by simp
  from away_inv [OF assms(4) kernel_inv_schedule [OF assms(1)] p this] out schedule_in [of t p] assms(5)
  show ?thesis by (auto simp: kernel_inv_def)
qed

lemma schedule_picks:
  assumes inv: "sched_inv s" and p: "p < 64" "runnable s p"
    and none: "\<And>i. i < 64 \<Longrightarrow> ahead (current_index s) i < ahead (current_index s) p \<Longrightarrow> \<not> runnable s i"
  shows "current_index (schedule s) = p"
proof -
  let ?c = "current_index s"
  have c: "?c < 64" using inv by (simp add: sched_inv_def)
  have ex: "\<exists>i < 64. runnable s i" using p by blast
  show ?thesis
  proof (rule schedule_switch [OF inv ex], goal_cases)
    case (1 k n)
    note a = ahead_bounds [OF c p(1)]
    have "\<not> ahead ?c p < k" using 1(5) [of "ahead ?c p"] a p(2) by auto
    moreover have "ahead ?c n = k" using 1(1-3) c by (cases "?c + k < 64") (auto simp: ahead_def le_mod_geq)
    then have "\<not> k < ahead ?c p" using none [of n] 1(3,4) by auto
    ultimately have "k = ahead ?c p" by simp
    then show ?case using 1(3,7) a by simp
  qed
qed

lemma two_ready_idle: "3 \<le> i \<Longrightarrow> i < 64 \<Longrightarrow> pstate two_ready i = UNUSED"
  by (simp add: two_ready_def boot_procs_facts)

theorem switch_restores_registers_witness:
  "cpu_regs (schedule (schedule (schedule two_ready))) = cpu_regs two_ready"
proof (rule switch_restores_registers [of _ 0])
  let ?t = "schedule two_ready" and ?u = "schedule (schedule two_ready)"
  have inv: "sched_inv two_ready" "kernel_inv ?t" "sched_inv ?t" "sched_inv ?u"
    using two_ready_inv kernel_inv_schedule [OF two_ready_inv] kernel_inv_schedule [OF kernel_inv_schedule [OF two_ready_inv]]
    by (simp_all add: kernel_inv_def)
  have t: "current_index ?t = 1"
    by (rule schedule_picks [OF inv(1)]) (auto simp: runnable_def two_ready_facts ahead_def split: if_splits)
  have t1: "pstate ?t 1 = RUNNING"
    using schedule_within [OF inv(1), of 1] t by (auto simp: runnable_def two_ready_facts)
  have ts: "pstate ?t i = (if i = 0 \<or> i = 2 then READY else UNUSED)" if "i < 64" "i \<noteq> 1" for i
    using schedule_pstate [OF inv(1), of i] that t two_ready_idle [of i]
    by (cases "3 \<le> i") (auto simp: runnable_def two_ready_facts)
  have u: "current_index ?u = 2"
    by (rule schedule_picks [OF inv(3)]) (auto simp: t runnable_def ts ahead_def split: if_splits)
  have us: "pstate ?u i = (if i < 2 then READY else UNUSED)" if "i < 64" "i \<noteq> 2" for i
    using schedule_pstate [OF inv(3), of i] that t u ts [of i] t1 by (cases "i = 1") (auto simp: runnable_def)
  show "current_index (schedule ?u) = 0"
    by (rule schedule_picks [OF inv(4)]) (auto simp: u runnable_def us ahead_def split: if_splits)
  show "away 0 ?t ?u"
    by (rule away_step [OF away_start step_schedule]) (simp_all add: t u us)
qed (simp_all add: two_ready_inv two_ready_facts)

section \<open>Creating and reaping processes\<close>

lemma alloc_pages_zero_fits:
  assumes "snd (alloc_pages c s) = 0" and "fits s (unat c) t" and "pages_wf s"
  shows False
proof (rule alloc_pages_first_fit [OF assms(2)], goal_cases)
  case (1 b)
  then have "b \<le> 65536" "page_addr b = 0" using total_pages_le [OF assms(3)] assms(1) by (auto simp: fits_def)
  then show ?case using page_addr_nonzero by blast
qed

text \<open>
  C5: \<open>create\<close> fails, without any effect, exactly when no slot is free or no four
  consecutive pages are.  Otherwise it takes the lowest free slot, gives it the next pid, a
  stack of four pages that nobody held, and a context that starts the thread wrapper at the
  top of this stack with the entry function in register x19; every other slot, and every
  other page, is left as it was.
\<close>

theorem create_correct:
  assumes "kernel_inv s"
  shows "case create wrapper pname entry_fn s of
      (t, None) \<Rightarrow> t = s \<and> ((\<forall>i. 1 \<le> i \<longrightarrow> i < 64 \<longrightarrow> pstate s i \<noteq> UNUSED) \<or> (\<forall>b. \<not> fits s 4 b))
    | (t, Some i) \<Rightarrow> 1 \<le> i \<and> i < 64 \<and> pstate s i = UNUSED \<and> (\<forall>j. 1 \<le> j \<longrightarrow> j < i \<longrightarrow> pstate s j \<noteq> UNUSED)
        \<and> (\<exists>b. fits s 4 b \<and> owned_pages t = owned_pages s \<union> {b..<b + 4} \<and> {b..<b + 4} \<inter> owned_pages s = {}
            \<and> process_table t = (process_table s)[i := \<lparr>pid = next_pid s, state = READY,
                ctx = zero_context\<lparr>x30 := wrapper, sp := page_addr b + 0x4000, x19 := entry_fn\<rparr>,
                kernel_stack = page_addr b, kernel_stack_top = page_addr b + 0x4000,
                page_table = 0, user_entry = 0, user_stack = 0, name = pname\<rparr>])
        \<and> next_pid t = next_pid s + 1"
proof (cases "free_slot s")
  case None
  with free_slot_None [of s] have "\<forall>i. 1 \<le> i \<longrightarrow> i < 64 \<longrightarrow> pstate s i \<noteq> UNUSED" by (rule iffD1)
  with None show ?thesis by (simp add: create_def)
next
  case (Some i)
  let ?c = "KERNEL_STACK_SIZE div PAGE_SIZE"
  define t where "t = fst (alloc_pages ?c s)"
  define k where "k = snd (alloc_pages ?c s)"
  have al: "alloc_pages ?c s = (t, k)" by (simp add: t_def k_def)
  have wf: "pages_wf s" by (rule kernel_inv_wf [OF assms])
  have same: "same_procs s t" using same_procs_alloc_pages [of s ?c] by (simp only: t_def)
  have len: "length (process_table s) = 64" using assms by (simp add: kernel_inv_def sched_inv_def)
  have i: "1 \<le> i" "i < 64" "pstate s i = UNUSED" "\<And>j. 1 \<le> j \<Longrightarrow> j < i \<Longrightarrow> pstate s j \<noteq> UNUSED"
    using Some by (auto simp: free_slot_Some)
  show ?thesis
  proof (cases "k = 0")
    case True
    then have "t = s" using alloc_pages_failed [of ?c s] wf by (simp add: k_def t_def)
    moreover have "\<not> fits s 4 b" for b
      using alloc_pages_zero_fits [of ?c s b] True wf by (auto simp: k_def KERNEL_STACK_pages)
    ultimately show ?thesis using Some True by (simp add: create_def al)
  next
    case False
    note owned = alloc_pages_owned [OF wf, of ?c, unfolded KERNEL_STACK_pages, folded k_def t_def]
    obtain b where b: "k = page_addr b" "fits s 4 b" "b + 4 \<le> 65536" "owned_pages t = owned_pages s \<union> {b..<b + 4}"
        "{b..<b + 4} \<inter> owned_pages s = {}"
      by (rule owned [OF False]) (rule that)
    define u where "u = fst (create wrapper pname entry_fn s)"
    have u: "create wrapper pname entry_fn s = (u, Some i)" using Some False by (simp add: u_def create_def al Let_def)
    have ueq: "u = upd_proc i (\<lambda>p. p\<lparr>ctx := zero_context\<lparr>x30 := wrapper, sp := kernel_stack_top p, x19 := entry_fn\<rparr>\<rparr>)
        ((upd_proc i (\<lambda>p. p\<lparr>pid := next_pid t, state := READY, name := pname, kernel_stack := k,
            kernel_stack_top := k + KERNEL_STACK_SIZE, page_table := 0, user_entry := 0, user_stack := 0\<rparr>) t)
          \<lparr>next_pid := next_pid t + 1\<rparr>)"
      using Some False by (simp add: u_def create_def al Let_def)
    have "process_table t = process_table s" "next_pid t = next_pid s" using same by (simp_all add: same_procs_def)
    then have "owned_pages u = owned_pages t" "next_pid u = next_pid s + 1"
        "process_table u = (process_table s)[i := \<lparr>pid = next_pid s, state = READY,
                ctx = zero_context\<lparr>x30 := wrapper, sp := page_addr b + 0x4000, x19 := entry_fn\<rparr>,
                kernel_stack = page_addr b, kernel_stack_top = page_addr b + 0x4000,
                page_table = 0, user_entry = 0, user_stack = 0, name = pname\<rparr>]"
      using len i(2)
      by (simp_all add: ueq upd_proc_def b(1) KERNEL_STACK_SIZE_def owned_pages_def free_set_def)
        (cases "process_table s ! i"; simp)
    then show ?thesis using i b u by auto
  qed
qed

lemma boot_procs_fits: "fits boot_procs 4 256"
proof -
  have "free_set boot_procs = free_set boot_base" "total_pages boot_procs = total_pages boot_base"
    using fold_upd_proc [of 64 boot_base] boot_base_facts(2)
    by (simp_all add: boot_procs_def process_init_def Let_def MAX_PROCESSES_def free_set_def del: upt_rec_numeral)
  then show ?thesis by (auto simp: fits_def boot_base_facts)
qed

theorem create_correct_witness:
  "\<exists>t. create 0x40081000 0x40080010 0x40082000 boot_procs = (t, Some 1) \<and> pid (process_table t ! 1) = next_pid boot_procs"
proof -
  obtain t r where c: "create 0x40081000 0x40080010 0x40082000 boot_procs = (t, r)" by fastforce
  note cc = create_correct [OF boot_procs_inv, where wrapper = "0x40081000" and pname = "0x40080010" and entry_fn = "0x40082000",
    unfolded c, simplified]
  have "\<not> (\<forall>b. \<not> fits boot_procs 4 b)" using boot_procs_fits by blast
  moreover have u: "pstate boot_procs 1 = UNUSED" by (simp add: boot_procs_facts)
  ultimately obtain i where r: "r = Some i" using cc by (cases r) (auto dest: spec [of _ "1 :: nat"])
  then have "\<not> 1 < i" "1 \<le> i" using cc u by auto
  then have "i = 1" by simp
  then show ?thesis using cc r c by (auto simp: boot_procs_facts)
qed

lemma reap_slot_table:
  assumes "length (process_table s) = 64" "i < 64"
  shows "process_table (reap_slot i s) = (if pstate s i = ZOMBIE
      then (process_table s)[i := (process_table s ! i)\<lparr>state := UNUSED, pid := 0, kernel_stack := 0\<rparr>] else process_table s)"
  using assms by (simp add: reap_slot_def upd_proc_def ctx_free_stack)

lemma reap_slot_owned:
  assumes "kernel_inv s" "1 \<le> i" "i < 64"
  shows "owned_pages (reap_slot i s) =
    (if pstate s i = ZOMBIE then owned_pages s - stack_pages (process_table s ! i) else owned_pages s)"
proof (cases "pstate s i = ZOMBIE")
  case True
  then have "in_use s i" using assms by (simp add: in_use_def)
  then have "aligned_stack (process_table s ! i)" "stack_pages (process_table s ! i) \<subseteq> owned_pages s" "pages_wf s"
    using assms(1) by (simp_all add: kernel_inv_def stacks_ok_def)
  then show ?thesis using True by (simp add: reap_slot_def free_stack_owned)
qed (simp add: reap_slot_def)

lemma reap_prefix:
  assumes "kernel_inv s" "n \<le> 64"
  shows "kernel_inv (fold reap_slot [1..<n] s) \<and>
    (\<forall>j < 64. process_table (fold reap_slot [1..<n] s) ! j =
      (if 1 \<le> j \<and> j < n \<and> pstate s j = ZOMBIE
       then (process_table s ! j)\<lparr>state := UNUSED, pid := 0, kernel_stack := 0\<rparr> else process_table s ! j)) \<and>
    owned_pages (fold reap_slot [1..<n] s) =
      owned_pages s - (\<Union>j \<in> {j. 1 \<le> j \<and> j < n \<and> pstate s j = ZOMBIE}. stack_pages (process_table s ! j))"
  using assms(2)
proof (induction n)
  case 0
  then show ?case using assms(1) by simp
next
  case (Suc n)
  show ?case
  proof (cases "n = 0")
    case True
    then show ?thesis using assms(1) by (auto simp: less_Suc_eq)
  next
    case False
    define t where "t = fold reap_slot [1..<n] s"
    have IH: "kernel_inv t" "\<And>j. j < 64 \<Longrightarrow> process_table t ! j =
        (if 1 \<le> j \<and> j < n \<and> pstate s j = ZOMBIE
         then (process_table s ! j)\<lparr>state := UNUSED, pid := 0, kernel_stack := 0\<rparr> else process_table s ! j)"
      "owned_pages t = owned_pages s - (\<Union>j \<in> {j. 1 \<le> j \<and> j < n \<and> pstate s j = ZOMBIE}. stack_pages (process_table s ! j))"
      using Suc by (simp_all add: t_def)
    have n: "1 \<le> n" "n < 64" using False Suc.prems by simp_all
    have len: "length (process_table t) = 64" using IH(1) by (simp add: kernel_inv_def sched_inv_def)
    have tn: "process_table t ! n = process_table s ! n" using IH(2) n by simp
    have f: "fold reap_slot [1..<Suc n] s = reap_slot n t" using n by (simp add: t_def)
    have k: "kernel_inv (reap_slot n t)" using kernel_inv_reap_slot [OF IH(1) n] .
    have tab: "process_table (reap_slot n t) ! j =
      (if 1 \<le> j \<and> j < Suc n \<and> pstate s j = ZOMBIE
       then (process_table s ! j)\<lparr>state := UNUSED, pid := 0, kernel_stack := 0\<rparr> else process_table s ! j)" if "j < 64" for j
      using that IH(2) [OF that] n tn by (auto simp: reap_slot_table [OF len n(2)] len nth_list_update)
    have "{j. 1 \<le> j \<and> j < Suc n \<and> pstate s j = ZOMBIE} =
        {j. 1 \<le> j \<and> j < n \<and> pstate s j = ZOMBIE} \<union> (if pstate s n = ZOMBIE then {n} else {})"
      using n by (auto simp: less_Suc_eq)
    then have "owned_pages (reap_slot n t) =
      owned_pages s - (\<Union>j \<in> {j. 1 \<le> j \<and> j < Suc n \<and> pstate s j = ZOMBIE}. stack_pages (process_table s ! j))"
      using reap_slot_owned [OF IH(1) n] IH(3) tn by auto
    then show ?thesis unfolding f using k tab by simp
  qed
qed

text \<open>
  C24: \<open>reap_zombies\<close> turns every zombie slot into an unused one and releases exactly the
  kernel stacks of the zombies; no other slot changes and no other page is released.
\<close>

theorem reap_zombies_correct:
  assumes "kernel_inv s"
  shows "(\<forall>j < 64. process_table (reap_zombies s) ! j =
      (if 1 \<le> j \<and> pstate s j = ZOMBIE
       then (process_table s ! j)\<lparr>state := UNUSED, pid := 0, kernel_stack := 0\<rparr> else process_table s ! j))
    \<and> owned_pages (reap_zombies s) =
      owned_pages s - (\<Union>j \<in> {j. 1 \<le> j \<and> j < 64 \<and> pstate s j = ZOMBIE}. stack_pages (process_table s ! j))"
  using reap_prefix [OF assms order_refl] by (simp add: reap_zombies_def MAX_PROCESSES_def del: upt_rec_numeral)

lemma schedule_two_ready: "current_index (schedule two_ready) = 1" "pstate (schedule two_ready) 1 = RUNNING"
proof -
  have inv: "sched_inv two_ready" using two_ready_inv by (simp add: kernel_inv_def)
  then show "current_index (schedule two_ready) = 1"
    by (rule schedule_picks) (auto simp: runnable_def two_ready_facts ahead_def split: if_splits)
  with schedule_within [OF inv, of 1] show "pstate (schedule two_ready) 1 = RUNNING"
    by (auto simp: runnable_def two_ready_facts)
qed

theorem reap_zombies_correct_witness:
  "pstate (kernel_thread_return (schedule two_ready)) 1 = ZOMBIE
    \<and> pstate (reap_zombies (kernel_thread_return (schedule two_ready))) 1 = UNUSED"
proof -
  let ?t = "schedule two_ready" and ?z = "kernel_thread_return (schedule two_ready)"
  have inv: "kernel_inv ?t" by (rule kernel_inv_schedule [OF two_ready_inv])
  then have z: "kernel_inv ?z" by (rule kernel_inv_return) (use schedule_two_ready in simp)
  have "current_process ?t = Some 1" "length (process_table ?t) = 64"
    using inv schedule_two_ready by (simp_all add: kernel_inv_def sched_inv_def)
  then have "pstate ?z 1 = ZOMBIE" by (simp add: kernel_thread_return_def process_table_upd)
  with reap_zombies_correct [OF z] show ?thesis by simp
qed

text \<open>
  When the kernel stack of a new user process can be had but its user stack cannot,
  \<open>create_user\<close> gives back one of the four pages of the kernel stack: the other three stay
  allocated although no process uses them.
\<close>

theorem create_user_leaks:
  assumes "pages_wf s" and "free_slot s \<noteq> None" and "alloc_pages 4 s = (t, k)" and "k \<noteq> 0"
    and "snd (alloc_pages 4 t) = 0"
  shows "\<exists>b. k = page_addr b \<and> snd (create_user pname entry_point pgd s) = None
    \<and> owned_pages (fst (create_user pname entry_point pgd s)) = owned_pages s \<union> {b + 1..<b + 4}
    \<and> {b + 1..<b + 4} \<inter> owned_pages s = {}"
proof -
  have four: "KERNEL_STACK_SIZE div PAGE_SIZE = 4" "USER_STACK_SIZE div PAGE_SIZE = 4"
    by (simp_all add: KERNEL_STACK_SIZE_def USER_STACK_SIZE_def PAGE_SIZE_def)
  have wt: "pages_wf t" using alloc_pages_wf [OF assms(1), of 4] assms(3) by simp
  have t: "alloc_pages 4 t = (t, 0)"
    using alloc_pages_failed [OF assms(5) wt] assms(5) by (metis prod.collapse)
  obtain b where b: "k = page_addr b" "b + 4 \<le> 65536" "owned_pages t = owned_pages s \<union> {b..<b + 4}"
      "{b..<b + 4} \<inter> owned_pages s = {}"
    by (rule alloc_pages_owned [OF assms(1), of 4]) (use assms(3,4) in simp_all)
  have c: "create_user pname entry_point pgd s = (free_page k t, None)"
    using assms(2-4) t by (auto simp: create_user_def four Let_def)
  have "owned_pages (free_page (page_addr b) t) = owned_pages t - {b}"
    using fold_free_page [OF wt, of "[b]"] b(3) by simp
  moreover have "x \<notin> owned_pages s" if "b \<le> x" "x < b + 4" for x using b(4) that by fastforce
  ultimately show ?thesis using b(1,3) c by (intro exI [of _ b]) auto
qed

end
