(* ===== verification/Uart.thy ===== *)
theory Uart
  imports Arch Kstring
begin

text \<open>
  The serial console, src/src/uart/uart.cpp: the PL011 driver and the formatted printing on
  top of it.  The polling loops of \<open>putc\<close> and \<open>getc\<close> end only when the device says so, so
  they are partial functions and everything that prints may not return.  Strings are read
  from memory; the bytes of a string literal are given as a list.  The variable arguments of
  \<open>printf\<close> are the 64-bit slots that \<open>va_arg\<close> reads one after the other.
\<close>

section \<open>The PL011 driver\<close>

definition UART_BASE :: u64 where "UART_BASE = 0x09000000"
definition UART_DR :: u64 where "UART_DR = UART_BASE + 0x000"
definition UART_FR :: u64 where "UART_FR = UART_BASE + 0x018"
definition UART_IBRD :: u64 where "UART_IBRD = UART_BASE + 0x024"
definition UART_FBRD :: u64 where "UART_FBRD = UART_BASE + 0x028"
definition UART_LCRH :: u64 where "UART_LCRH = UART_BASE + 0x02C"
definition UART_CR :: u64 where "UART_CR = UART_BASE + 0x030"
definition UART_IMSC :: u64 where "UART_IMSC = UART_BASE + 0x038"
definition UART_ICR :: u64 where "UART_ICR = UART_BASE + 0x044"
definition FR_TXFF :: u32 where "FR_TXFF = push_bit 5 1"
definition FR_RXFE :: u32 where "FR_RXFE = push_bit 4 1"

definition uart_init :: "'a cpu_scheme \<Rightarrow> 'a cpu_scheme" where
  "uart_init s =
     (let s = write32 UART_CR 0 s;
          s = write32 UART_ICR 0x7FF s;
          s = write32 UART_IBRD 13 s;
          s = write32 UART_FBRD 1 s;
          s = write32 UART_LCRH (push_bit 4 1 OR push_bit 5 3) s;
          s = write32 UART_IMSC (push_bit 4 1) s
      in write32 UART_CR (push_bit 0 1 OR push_bit 8 1 OR push_bit 9 1) s)"

partial_function (option) wait_clear :: "device \<Rightarrow> u32 \<Rightarrow> 'a cpu_scheme \<Rightarrow> 'a cpu_scheme option" where
  "wait_clear dev flag s =
     (case read32 dev UART_FR s of
        (s, v) \<Rightarrow> if v AND flag \<noteq> 0 then wait_clear dev flag s else Some s)"

definition putc :: "device \<Rightarrow> u8 \<Rightarrow> 'a cpu_scheme \<Rightarrow> 'a cpu_scheme option" where
  "putc dev c s = Option.bind (wait_clear dev FR_TXFF s) (\<lambda>s. Some (write32 UART_DR (ucast c) s))"

definition getc :: "device \<Rightarrow> 'a cpu_scheme \<Rightarrow> ('a cpu_scheme \<times> u8) option" where
  "getc dev s =
     Option.bind (wait_clear dev FR_RXFE s)
       (\<lambda>s. case read32 dev UART_DR s of (s, v) \<Rightarrow> Some (s, ucast (v AND 0xFF)))"

section \<open>Printing\<close>

partial_function (option) puts :: "device \<Rightarrow> u64 \<Rightarrow> 'a cpu_scheme \<Rightarrow> 'a cpu_scheme option" where
  "puts dev p s =
     (let c = mem s p
      in if c = 0 then Some s
         else Option.bind (if c = 10 then putc dev 13 s else Some s)
           (\<lambda>s. Option.bind (putc dev c s) (\<lambda>s. puts dev (p + 1) s)))"

fun puts_lit :: "device \<Rightarrow> u8 list \<Rightarrow> 'a cpu_scheme \<Rightarrow> 'a cpu_scheme option" where
  "puts_lit dev [] s = Some s"
| "puts_lit dev (c # cs) s =
     Option.bind (if c = 10 then putc dev 13 s else Some s)
       (\<lambda>s. Option.bind (putc dev c s) (puts_lit dev cs))"

definition ascii :: "string \<Rightarrow> u8 list" where
  "ascii cs = map (\<lambda>c. of_nat (of_char c)) cs"

definition hex_chars :: "u8 list" where
  "hex_chars = ascii ''0123456789abcdef''"

fun puthex_loop :: "device \<Rightarrow> u64 \<Rightarrow> nat \<Rightarrow> bool \<Rightarrow> 'a cpu_scheme \<Rightarrow> (bool \<times> 'a cpu_scheme) option" where
  "puthex_loop dev value 0 leading s = Some (leading, s)"
| "puthex_loop dev value (Suc k) leading s =
     (let i = 4 * k; nibble = ucast (drop_bit i value AND 0xF) :: u8
      in if nibble = 0 \<and> leading \<and> i > 0 then puthex_loop dev value k leading s
         else Option.bind (putc dev (hex_chars ! unat nibble) s) (puthex_loop dev value k False))"

definition puthex :: "device \<Rightarrow> u64 \<Rightarrow> 'a cpu_scheme \<Rightarrow> 'a cpu_scheme option" where
  "puthex dev value s =
     Option.bind (puts_lit dev (ascii ''0x'') s)
       (\<lambda>s. Option.bind (puthex_loop dev value 16 True s)
         (\<lambda>(leading, s). if leading then putc dev 48 s else Some s))"

function digits_loop :: "u64 \<Rightarrow> u8 list \<Rightarrow> u8 list" where
  "digits_loop v buf = (if v > 0 then digits_loop (v div 10) (buf @ [48 + ucast (v mod 10)]) else buf)"
  by auto
termination
  by (relation "measure (\<lambda>(v, _). unat v)") (auto simp: unat_div word_gt_0 unat_gt_0)

declare digits_loop.simps [simp del]

fun put_down :: "device \<Rightarrow> u8 list \<Rightarrow> nat \<Rightarrow> 'a cpu_scheme \<Rightarrow> 'a cpu_scheme option" where
  "put_down dev buf 0 s = Some s"
| "put_down dev buf (Suc i) s = Option.bind (putc dev (buf ! i) s) (put_down dev buf i)"

definition putuint :: "device \<Rightarrow> u64 \<Rightarrow> 'a cpu_scheme \<Rightarrow> 'a cpu_scheme option" where
  "putuint dev value s =
     (if value = 0 then putc dev 48 s
      else let buf = digits_loop value [] in put_down dev buf (length buf) s)"

definition putdec :: "device \<Rightarrow> i64 \<Rightarrow> 'a cpu_scheme \<Rightarrow> 'a cpu_scheme option" where
  "putdec dev value s =
     Option.bind (if value <s 0 then putc dev 45 s else Some s)
       (\<lambda>s. let value = (if value <s 0 then - value else value)
            in if value = 0 then putc dev 48 s
               else let buf = digits_loop value [] in put_down dev buf (length buf) s)"

definition takes_arg :: "u8 \<Rightarrow> bool" where
  "takes_arg d \<longleftrightarrow> d \<in> {115, 100, 117, 120, 112, 99}"

definition printf_conv :: "device \<Rightarrow> u8 \<Rightarrow> u64 \<Rightarrow> 'a cpu_scheme \<Rightarrow> 'a cpu_scheme option" where
  "printf_conv dev d v s =
     (if d = 115 then (if v \<noteq> 0 then puts dev v s else puts_lit dev (ascii ''(null)'') s)
      else if d = 100 then putdec dev v s
      else if d = 117 then putuint dev v s
      else if d = 120 \<or> d = 112 then puthex dev v s
      else if d = 99 then putc dev (ucast (ucast v :: i32)) s
      else if d = 37 then putc dev 37 s
      else Option.bind (putc dev 37 s) (putc dev d))"

partial_function (option) printf_loop ::
  "device \<Rightarrow> (nat \<Rightarrow> u64) \<Rightarrow> nat \<Rightarrow> u64 \<Rightarrow> 'a cpu_scheme \<Rightarrow> 'a cpu_scheme option" where
  "printf_loop dev args n fmt s =
     (let c = mem s fmt
      in if c = 0 then Some s
         else if c = 37
         then let d = mem s (fmt + 1)
              in Option.bind (printf_conv dev d (args n) s)
                   (\<lambda>s. printf_loop dev args (if takes_arg d then n + 1 else n) (fmt + 2) s)
         else Option.bind (if c = 10 then putc dev 13 s else Some s)
                (\<lambda>s. Option.bind (putc dev c s) (\<lambda>s. printf_loop dev args n (fmt + 1) s)))"

definition printf :: "device \<Rightarrow> u64 \<Rightarrow> (nat \<Rightarrow> u64) \<Rightarrow> 'a cpu_scheme \<Rightarrow> 'a cpu_scheme option" where
  "printf dev fmt args s = printf_loop dev args 0 fmt s"

text \<open>\<open>printf\<close> on a literal format, given by its bytes.\<close>

fun printf_lit :: "device \<Rightarrow> (nat \<Rightarrow> u64) \<Rightarrow> nat \<Rightarrow> u8 list \<Rightarrow> 'a cpu_scheme \<Rightarrow> 'a cpu_scheme option" where
  "printf_lit dev args n [] s = Some s"
| "printf_lit dev args n [c] s = puts_lit dev [c] s"
| "printf_lit dev args n (c # d # cs) s =
     (if c = 37
      then Option.bind (printf_conv dev d (args n) s) (printf_lit dev args (if takes_arg d then n + 1 else n) cs)
      else Option.bind (if c = 10 then putc dev 13 s else Some s)
             (\<lambda>s. Option.bind (putc dev c s) (printf_lit dev args n (d # cs))))"

section \<open>What reaches the wire\<close>

text \<open>
  The bytes handed to the data register, in order, and the assumption on the device that its
  transmit FIFO always drains: however long the log, polling finds the full flag clear after
  finitely many reads.
\<close>

fun uart_tx :: "mmio_event list \<Rightarrow> u8 list" where
  "uart_tx [] = []"
| "uart_tx (Write32 a v # es) = (if a = UART_DR then ucast v # uart_tx es else uart_tx es)"
| "uart_tx (_ # es) = uart_tx es"

definition poll_fr :: "device \<Rightarrow> mmio_event list \<Rightarrow> mmio_event list" where
  "poll_fr dev log = log @ [Read32 UART_FR (dev log UART_FR)]"

definition drains :: "device \<Rightarrow> bool" where
  "drains dev \<longleftrightarrow> (\<forall>log. \<exists>n. dev ((poll_fr dev ^^ n) log) UART_FR AND FR_TXFF = 0)"

lemma uart_tx_append [simp]: "uart_tx (xs @ ys) = uart_tx xs @ uart_tx ys"
  by (induction xs rule: uart_tx.induct) auto

text \<open>
  A character sink: putting a character succeeds in a good state, appends it to the output
  and changes nothing else that can be observed.
\<close>

fun put_all :: "('c \<Rightarrow> 's \<Rightarrow> 's option) \<Rightarrow> 'c list \<Rightarrow> 's \<Rightarrow> 's option" where
  "put_all put [] s = Some s"
| "put_all put (c # cs) s = Option.bind (put c s) (put_all put cs)"

locale char_sink =
  fixes put :: "'c \<Rightarrow> 's \<Rightarrow> 's option"
    and out :: "'s \<Rightarrow> 'c list"
    and rest :: "'s \<Rightarrow> 's"
    and good :: bool
  assumes put_ok: "good \<Longrightarrow> \<exists>t. put c s = Some t \<and> out t = out s @ [c] \<and> rest t = rest s"
begin

lemma put_all_ok: "good \<Longrightarrow> \<exists>t. put_all put cs s = Some t \<and> out t = out s @ cs \<and> rest t = rest s"
proof (induction cs arbitrary: s)
  case (Cons c cs)
  obtain t where t: "put c s = Some t" "out t = out s @ [c]" "rest t = rest s" using put_ok Cons.prems by blast
  obtain u where "put_all put cs t = Some u" "out u = out t @ cs" "rest u = rest t" using Cons by blast
  then show ?case using t by simp
qed simp

end

lemma put_all_append: "put_all put (xs @ ys) s = Option.bind (put_all put xs s) (put_all put ys)"
  by (induction xs arbitrary: s) (auto split: Option.bind_splits)

lemma wait_clear_ends:
  assumes "dev ((poll_fr dev ^^ n) (mmio s)) UART_FR AND flag = 0"
  shows "\<exists>l. wait_clear dev flag s = Some (s\<lparr>mmio := l\<rparr>) \<and> uart_tx l = uart_tx (mmio s)"
  using assms
proof (induction n arbitrary: s)
  case 0
  then show ?case
    by (subst wait_clear.simps) (auto simp: read32_def Let_def intro: exI [of _ "mmio s @ [Read32 UART_FR (dev (mmio s) UART_FR)]"])
next
  case (Suc n)
  define t where "t = s\<lparr>mmio := poll_fr dev (mmio s)\<rparr>"
  have r: "read32 dev UART_FR s = (t, dev (mmio s) UART_FR)" by (simp add: read32_def t_def poll_fr_def Let_def)
  have tx: "uart_tx (mmio t) = uart_tx (mmio s)" by (simp add: t_def poll_fr_def)
  show ?case
  proof (cases "dev (mmio s) UART_FR AND flag = 0")
    case True
    then show ?thesis using r tx by (subst wait_clear.simps) (auto simp: t_def)
  next
    case False
    have "dev ((poll_fr dev ^^ n) (mmio t)) UART_FR AND flag = 0"
      using Suc.prems by (simp add: t_def funpow_swap1)
    from Suc.IH [OF this] obtain l where "wait_clear dev flag t = Some (t\<lparr>mmio := l\<rparr>)" "uart_tx l = uart_tx (mmio t)" by blast
    then show ?thesis using False r tx by (subst wait_clear.simps) (auto simp: t_def)
  qed
qed

lemma ucast_ucast_u8: "ucast (ucast c :: u32) = (c :: u8)"
  by (rule bit_word_eqI) (simp add: bit_simps)

interpretation uart: char_sink "putc dev" "\<lambda>s. uart_tx (mmio s)" "\<lambda>s. s\<lparr>mmio := []\<rparr>" "drains dev" for dev
proof
  fix c and s :: "'a cpu_scheme"
  assume "drains dev"
  then obtain n where "dev ((poll_fr dev ^^ n) (mmio s)) UART_FR AND FR_TXFF = 0" by (auto simp: drains_def)
  from wait_clear_ends [of dev n s, OF this] obtain l where
    "wait_clear dev FR_TXFF s = Some (s\<lparr>mmio := l\<rparr>)" "uart_tx l = uart_tx (mmio s)" by blast
  then show "\<exists>t. putc dev c s = Some t \<and> uart_tx (mmio t) = uart_tx (mmio s) @ [c] \<and> t\<lparr>mmio := []\<rparr> = s\<lparr>mmio := []\<rparr>"
    by (simp add: putc_def write32_def ucast_ucast_u8)
qed

section \<open>The reference format\<close>

text \<open>
  What a format string means, without any buffer, pointer or device: newlines become CR LF,
  numbers their shortest decimal or lower-case hexadecimal text.
\<close>

fun dec :: "nat \<Rightarrow> u8 list" where
  "dec n = (if n < 10 then [48 + of_nat n] else dec (n div 10) @ [48 + of_nat (n mod 10)])"

declare dec.simps [simp del]

definition sdec :: "int \<Rightarrow> u8 list" where
  "sdec z = (if z < 0 then 45 # dec (nat (- z)) else dec (nat z))"

fun hex :: "nat \<Rightarrow> u8 list" where
  "hex n = (if n < 16 then [hex_chars ! n] else hex (n div 16) @ [hex_chars ! (n mod 16)])"

declare hex.simps [simp del]

definition crlf :: "u8 list \<Rightarrow> u8 list" where
  "crlf cs = concat (map (\<lambda>c. if c = 10 then [13, 10] else [c]) cs)"

definition conv :: "(u64 \<Rightarrow> u8 list) \<Rightarrow> u8 \<Rightarrow> u64 \<Rightarrow> u8 list" where
  "conv str d v =
     (if d = 115 then crlf (if v = 0 then ascii ''(null)'' else str v)
      else if d = 100 then sdec (sint v)
      else if d = 117 then dec (unat v)
      else if d = 120 \<or> d = 112 then ascii ''0x'' @ hex (unat v)
      else if d = 99 then [ucast v]
      else if d = 37 then [37]
      else [37, d])"

fun format :: "(u64 \<Rightarrow> u8 list) \<Rightarrow> (nat \<Rightarrow> u64) \<Rightarrow> nat \<Rightarrow> u8 list \<Rightarrow> u8 list" where
  "format str args n [] = []"
| "format str args n [c] = crlf [c]"
| "format str args n (c # d # cs) =
     (if c = 37 then conv str d (args n) @ format str args (if takes_arg d then n + 1 else n) cs
      else crlf [c] @ format str args n (d # cs))"

text \<open>
  A format is complete when no lone percent sign ends it.  \<open>str_args\<close>: the argument slots its
  \<open>%s\<close> conversions read.
\<close>

fun complete_fmt :: "u8 list \<Rightarrow> bool" where
  "complete_fmt [] = True"
| "complete_fmt [c] = (c \<noteq> 37)"
| "complete_fmt (c # d # cs) = (if c = 37 then complete_fmt cs else complete_fmt (d # cs))"

fun str_args :: "nat \<Rightarrow> u8 list \<Rightarrow> nat list" where
  "str_args n (c # d # cs) =
     (if c = 37 then (if d = 115 then [n] else []) @ str_args (if takes_arg d then n + 1 else n) cs
      else str_args n (d # cs))"
| "str_args n _ = []"

section \<open>Printing against the reference\<close>

lemma wait_clear_rest: "wait_clear dev flag s = Some t \<Longrightarrow> t\<lparr>mmio := []\<rparr> = s\<lparr>mmio := []\<rparr>"
proof (induction rule: wait_clear.raw_induct [rotated, consumes 1])
  case (1 wait dev flag s t)
  then show ?case by (auto simp: read32_def Let_def split: if_splits)
qed

lemma mem_of_rest: "t\<lparr>mmio := []\<rparr> = s\<lparr>mmio := []\<rparr> \<Longrightarrow> mem t = mem (s :: 'a cpu_scheme)"
proof -
  assume "t\<lparr>mmio := []\<rparr> = s\<lparr>mmio := []\<rparr>"
  then have "mem (t\<lparr>mmio := []\<rparr>) = mem (s\<lparr>mmio := []\<rparr>)" by simp
  then show ?thesis by simp
qed

lemma putc_mem: "putc dev c s = Some t \<Longrightarrow> mem t = mem s"
  by (auto simp: putc_def write32_def dest!: wait_clear_rest mem_of_rest split: Option.bind_splits)

lemma crlf_simps [simp]: "crlf [] = []" "crlf (c # cs) = (if c = 10 then [13, 10] else [c]) @ crlf cs"
  by (simp_all add: crlf_def)

lemma bind_Some: "Option.bind x Some = x"
  by (cases x) simp_all

lemma put_all_single [simp]: "put_all put [c] s = put c s"
  by (cases "put c s") simp_all

lemma put_all_fun [simp]: "put_all put [] = Some" "put_all put (c # cs) = (\<lambda>s. Option.bind (put c s) (put_all put cs))"
  by (simp_all add: fun_eq_iff)

lemma puts_lit_all:
  fixes s :: "'a cpu_scheme"
  shows "puts_lit dev cs s = put_all (putc dev) (crlf cs) s"
proof (induction cs arbitrary: s)
  case (Cons c cs)
  then have "puts_lit dev cs = (put_all (putc dev) (crlf cs) :: 'a cpu_scheme \<Rightarrow> _)" by (intro ext)
  then show ?case by simp
qed simp

lemma puts_cstr:
  fixes s :: "'a cpu_scheme"
  shows "cstr (mem s) p cs \<Longrightarrow> puts dev p s = put_all (putc dev) (crlf cs) s"
proof (induction cs arbitrary: p s)
  case Nil
  then show ?case by (subst puts.simps) simp
next
  case (Cons c cs)
  have rest: "puts dev (p + 1) u = put_all (putc dev) (crlf cs) u" if "mem u = mem s" for u :: "'a cpu_scheme"
    using Cons that by simp
  have c: "mem s p = c" "c \<noteq> 0" using Cons.prems by simp_all
  show ?case
  proof (cases "c = 10")
    case True
    then show ?thesis using c
      by (subst puts.simps) (auto simp: rest dest!: putc_mem split: Option.bind_splits)
  next
    case False
    then show ?thesis using c
      by (subst puts.simps) (auto simp: rest dest!: putc_mem split: Option.bind_splits)
  qed
qed

lemma digits_loop_dec: "v \<noteq> 0 \<Longrightarrow> digits_loop v buf = buf @ rev (dec (unat v))"
proof (induction "unat v" arbitrary: v buf rule: less_induct)
  case less
  have "ucast (v mod 10) = (of_nat (unat (v mod 10)) :: u8)" by (simp only: of_nat_unat)
  then have d: "48 + ucast (v mod 10) = (48 + of_nat (unat v mod 10) :: u8)" by (simp add: unat_mod)
  have step: "digits_loop v buf = digits_loop (v div 10) (buf @ [48 + of_nat (unat v mod 10)])"
    using less.prems by (subst digits_loop.simps) (simp add: word_gt_0 d)
  show ?case
  proof (cases "unat v < 10")
    case True
    then have "v div 10 = 0" by (simp add: word_unat_eq_iff unat_div)
    then have "digits_loop v buf = buf @ [48 + of_nat (unat v mod 10)]"
      unfolding step by (subst digits_loop.simps) simp
    then show ?thesis using True by (subst dec.simps) simp
  next
    case False
    then have "unat (v div 10) < unat v" "v div 10 \<noteq> 0" by (simp_all add: word_unat_eq_iff unat_div)
    then have "digits_loop (v div 10) b = b @ rev (dec (unat v div 10))" for b
      using less.hyps [of "v div 10" b] by (simp add: unat_div)
    moreover have "dec (unat v) = dec (unat v div 10) @ [48 + of_nat (unat v mod 10)]"
      using False by (subst dec.simps) simp
    ultimately show ?thesis unfolding step by simp
  qed
qed

lemma put_down_all:
  fixes s :: "'a cpu_scheme"
  shows "n \<le> length buf \<Longrightarrow> put_down dev buf n s = put_all (putc dev) (rev (take n buf)) s"
proof (induction n arbitrary: s)
  case (Suc n)
  then have "put_down dev buf n = (put_all (putc dev) (rev (take n buf)) :: 'a cpu_scheme \<Rightarrow> _)" by (intro ext) simp
  then show ?case using Suc.prems by (simp add: take_Suc_conv_app_nth)
qed simp

lemma dec_0: "dec 0 = [48]" by (simp add: dec.simps)

lemma putuint_all: "putuint dev v s = put_all (putc dev) (dec (unat v)) s"
  by (simp add: putuint_def dec_0 Let_def put_down_all digits_loop_dec)

lemma unat_minus_signed:
  assumes "v <s 0"
  shows "unat (- v) = nat (- sint (v :: i64))"
proof -
  have s: "sint v < 0" using assms by (simp add: word_sless_alt)
  have ge: "- 9223372036854775808 \<le> sint v" using sint_ge [of v] by simp
  have "- v = word_of_int (- sint v)" by simp
  then have "uint (- v) = uint (word_of_int (- sint v) :: i64)" by (rule arg_cong)
  also have "\<dots> = - sint v" using s ge by (simp only: uint_word_of_int_eq) (rule take_bit_int_eq_self, simp_all)
  finally show ?thesis by (simp add: unat_eq_nat_uint)
qed

lemma sint_nonneg: "\<not> v <s 0 \<Longrightarrow> nat (sint v) = unat (v :: i64)"
proof -
  assume "\<not> v <s 0"
  then have s: "0 \<le> sint v" by (simp add: word_sless_alt)
  have "uint v = sint v" using s sint_lt [of v] by (simp add: uint_sint take_bit_int_eq_self)
  then show ?thesis by (simp add: unat_eq_nat_uint)
qed

lemma putdec_all: "putdec dev v s = put_all (putc dev) (sdec (sint v)) s"
proof (cases "v <s 0")
  case True
  then have "sint v < 0" "- v \<noteq> 0" by (auto simp: word_sless_alt)
  then show ?thesis using True
    by (simp add: putdec_def sdec_def Let_def put_down_all digits_loop_dec unat_minus_signed)
next
  case False
  then have "0 \<le> sint v" by (simp add: word_sless_alt)
  then show ?thesis using False sint_nonneg [OF False]
    by (simp add: putdec_def sdec_def Let_def put_down_all digits_loop_dec dec_0)
qed

definition hexd :: "nat \<Rightarrow> nat \<Rightarrow> u8 list" where
  "hexd n k = map (\<lambda>i. hex_chars ! (n div 16 ^ i mod 16)) (rev [0..<k])"

lemma hexd_Suc: "hexd n (Suc k) = hex_chars ! (n div 16 ^ k mod 16) # hexd n k"
  by (simp add: hexd_def)

lemma hexd_last: "hexd n (Suc k) = hexd (n div 16) k @ [hex_chars ! (n mod 16)]"
  by (induction k) (simp_all add: hexd_def div_mult2_eq)

lemma hex_hexd: "16 ^ k \<le> n \<Longrightarrow> n < 16 ^ Suc k \<Longrightarrow> hex n = hexd n (Suc k)"
proof (induction k arbitrary: n)
  case 0
  then show ?case by (simp add: hex.simps hexd_def)
next
  case (Suc k)
  then have "16 ^ k \<le> n div 16" "n div 16 < 16 ^ Suc k" by (simp_all add: less_eq_div_iff_mult_less_eq div_less_iff_less_mult mult.commute)
  then have "hex (n div 16) = hexd (n div 16) (Suc k)" by (rule Suc.IH)
  moreover have "16 \<le> n" using Suc.prems(1) by (rule order_trans [rotated]) simp
  ultimately show ?case by (subst hex.simps) (simp add: hexd_last [of n "Suc k"])
qed

lemma nibble: "unat (ucast (drop_bit (4 * k) v AND 0xF) :: u8) = unat (v :: u64) div 16 ^ k mod 16"
proof -
  have "(0xF :: u64) = mask 4" by (simp add: mask_eq_exp_minus_1)
  then have f: "unat (drop_bit (4 * k) v AND 0xF) = unat v div 16 ^ k mod 16"
    using unat_field [of "4 * k" v 4] by (simp add: power_mult)
  then have "unat (drop_bit (4 * k) v AND 0xF) < 256" by simp
  then show ?thesis unfolding f [symmetric] unsigned_ucast_eq by (simp add: take_bit_nat_eq_self)
qed

lemma puthex_loop_rest:
  fixes s :: "'a cpu_scheme"
  shows "puthex_loop dev v k False s = map_option (Pair False) (put_all (putc dev) (hexd (unat v) k) s)"
proof (induction k arbitrary: s)
  case (Suc k)
  have "hex_chars ! unat (ucast (drop_bit (4 * k) v AND 0xF) :: u8) = hex_chars ! (unat v div 16 ^ k mod 16)"
    by (simp only: nibble)
  then show ?case
    using Suc by (auto simp: Let_def hexd_Suc split: Option.bind_splits simp del: of_nat_unat)
qed (simp add: hexd_def)

lemma puthex_loop_lead:
  assumes "unat v < 16 ^ k" and "0 < k"
  shows "puthex_loop dev v k True s = map_option (Pair False) (put_all (putc dev) (hex (unat v)) s)"
  using assms
proof (induction k)
  case (Suc k)
  let ?n = "ucast (drop_bit (4 * k) v AND 0xF) :: u8"
  have n: "unat ?n = unat v div 16 ^ k" using nibble [of k v] Suc.prems(1)
    by (simp add: less_mult_imp_div_less mult.commute)
  show ?case
  proof (cases "?n = 0 \<and> 0 < k")
    case True
    then have "unat v div 16 ^ k = 0" using n by simp
    then have "unat v < 16 ^ k" by (simp add: div_eq_0_iff)
    then show ?thesis using True Suc.IH by (simp add: Let_def)
  next
    case False
    have "hex (unat v) = hexd (unat v) (Suc k)"
    proof (cases "k = 0")
      case True
      then show ?thesis using Suc.prems(1) by (simp add: hex.simps hexd_def)
    next
      case k: False
      then have "unat ?n \<noteq> 0" using False by (simp add: unat_eq_zero)
      then have "16 ^ k \<le> unat v" using n by (simp add: div_eq_0_iff)
      then show ?thesis using Suc.prems(1) by (rule hex_hexd)
    qed
    then have "hex (unat v) = hex_chars ! unat ?n # hexd (unat v) k" using nibble [of k v] by (simp add: hexd_Suc)
    moreover have "puthex_loop dev v (Suc k) True s = Option.bind (putc dev (hex_chars ! unat ?n) s) (puthex_loop dev v k False)"
      using False by (auto simp: Let_def)
    ultimately show ?thesis by (auto simp: puthex_loop_rest split: Option.bind_splits)
  qed
qed simp

lemma puthex_all: "puthex dev v s = put_all (putc dev) (ascii ''0x'' @ hex (unat v)) s"
proof -
  have "unat v < 16 ^ 16" using unat_lt_u64 [of v] by simp
  then have "puthex_loop dev v 16 True t = map_option (Pair False) (put_all (putc dev) (hex (unat v)) t)" for t :: "'a cpu_scheme"
    by (rule puthex_loop_lead) simp
  moreover have "crlf (ascii ''0x'') = ascii ''0x''" by (simp add: ascii_def)
  ultimately show ?thesis
    by (auto simp: puthex_def puts_lit_all put_all_append split: Option.bind_splits)
qed

lemma put_all_mem: "put_all (putc dev) cs s = Some t \<Longrightarrow> mem t = mem s"
  by (induction cs arbitrary: s) (auto dest!: putc_mem split: Option.bind_splits)

lemma printf_conv_all:
  assumes "d = 115 \<Longrightarrow> v \<noteq> 0 \<Longrightarrow> cstr (mem s) v (str v)"
  shows "printf_conv dev d v s = put_all (putc dev) (conv str d v) s"
proof -
  have "ucast (ucast v :: i32) = (ucast v :: u8)" by (rule bit_word_eqI) (simp add: bit_simps)
  then show ?thesis
    using assms
    by (auto simp: printf_conv_def conv_def puts_cstr puts_lit_all putdec_all putuint_all puthex_all
        simp del: put_all_fun split: Option.bind_splits)
qed

lemma printf_loop_all:
  assumes "cstr (mem s) fmt bs" and "complete_fmt bs"
    and "\<forall>k \<in> set (str_args n bs). args k \<noteq> 0 \<longrightarrow> cstr (mem s) (args k) (str (args k))"
  shows "printf_loop dev args n fmt s = put_all (putc dev) (format str args n bs) s"
  using assms
proof (induction str args n bs arbitrary: fmt s rule: format.induct)
  case (1 str args n)
  then show ?case by (subst printf_loop.simps) simp
next
  case (2 str args n c)
  have e: "printf_loop dev args n (fmt + 1) t = Some t" if "mem t = mem s" for t :: "'a cpu_scheme"
    using 2 that by (subst printf_loop.simps) simp
  show ?case
    using 2 by (subst printf_loop.simps) (auto simp: e dest!: putc_mem split: Option.bind_splits)
next
  case (3 str args n c d cs)
  show ?case
  proof (cases "c = 37")
    case True
    let ?n = "if takes_arg d then n + 1 else n"
    have IH: "printf_loop dev args ?n (fmt + 2) t = put_all (putc dev) (format str args ?n cs) t"
      if "mem t = mem s" for t :: "'a cpu_scheme"
      using 3 that True by (intro 3) (auto simp: add.assoc)
    have "printf_loop dev args n fmt s = Option.bind (printf_conv dev d (args n) s)
        (\<lambda>s. printf_loop dev args ?n (fmt + 2) s)"
      using 3 True by (subst printf_loop.simps) (simp add: Let_def)
    also have "printf_conv dev d (args n) s = put_all (putc dev) (conv str d (args n)) s"
      using 3 True by (intro printf_conv_all) simp
    also have "Option.bind \<dots> (\<lambda>s. printf_loop dev args ?n (fmt + 2) s)
        = Option.bind (put_all (putc dev) (conv str d (args n)) s) (put_all (putc dev) (format str args ?n cs))"
      using IH by (auto dest!: put_all_mem split: Option.bind_splits simp del: put_all_fun)
    finally show ?thesis using True by (simp add: put_all_append)
  next
    case False
    have IH: "printf_loop dev args n (fmt + 1) t = put_all (putc dev) (format str args n (d # cs)) t"
      if "mem t = mem s" for t :: "'a cpu_scheme"
      using 3 that False by (intro 3) auto
    show ?thesis
      using 3 False by (subst printf_loop.simps) (auto simp: IH dest!: putc_mem split: Option.bind_splits)
  qed
qed

text \<open>A literal format prints as the same string in memory would.\<close>

lemma printf_lit_all:
  fixes s :: "'a cpu_scheme"
  assumes "complete_fmt bs"
    and "\<forall>k \<in> set (str_args n bs). args k \<noteq> 0 \<longrightarrow> cstr (mem s) (args k) (str (args k))"
  shows "printf_lit dev args n bs s = put_all (putc dev) (format str args n bs) s"
  using assms
proof (induction str args n bs arbitrary: s rule: format.induct)
  case (3 str args n c d cs)
  show ?case
  proof (cases "c = 37")
    case True
    let ?n = "if takes_arg d then n + 1 else n"
    have IH: "printf_lit dev args ?n cs t = put_all (putc dev) (format str args ?n cs) t"
      if "mem t = mem s" for t :: "'a cpu_scheme"
      using 3 that True by (intro 3) auto
    have "printf_conv dev d (args n) s = put_all (putc dev) (conv str d (args n)) s"
      using 3 True by (intro printf_conv_all) simp
    moreover have "Option.bind (put_all (putc dev) (conv str d (args n)) s) (printf_lit dev args ?n cs)
        = Option.bind (put_all (putc dev) (conv str d (args n)) s) (put_all (putc dev) (format str args ?n cs))"
      using IH by (auto dest!: put_all_mem split: Option.bind_splits simp del: put_all_fun)
    ultimately show ?thesis using True by (simp add: put_all_append)
  next
    case False
    have IH: "printf_lit dev args n (d # cs) t = put_all (putc dev) (format str args n (d # cs)) t"
      if "mem t = mem s" for t :: "'a cpu_scheme"
      using 3 that False by (intro 3) auto
    show ?thesis
      using 3 False by (auto simp: IH dest!: putc_mem split: Option.bind_splits)
  qed
qed (simp_all add: puts_lit_all bind_Some)

text \<open>The decimal text of a number is its only digit string without a superfluous zero.\<close>

definition undec :: "u8 list \<Rightarrow> nat" where
  "undec ds = foldl (\<lambda>a d. 10 * a + unat (d - 48)) 0 ds"

lemma undec_dec: "undec (dec n) = n"
proof (induction n rule: dec.induct)
  case (1 n)
  have d: "unat (of_nat k :: u8) = k" if "k < 10" for k using that by (simp add: unat_of_nat)
  show ?case
  proof (cases "n < 10")
    case True
    then show ?thesis by (subst dec.simps) (simp add: undec_def d)
  next
    case False
    then have "undec (dec n) = 10 * undec (dec (n div 10)) + n mod 10"
      by (subst dec.simps) (simp add: undec_def d)
    then show ?thesis using 1 False by simp
  qed
qed

lemma dec_length: "n < 10 ^ k \<Longrightarrow> 0 < k \<Longrightarrow> length (dec n) \<le> k"
proof (induction k arbitrary: n)
  case (Suc k)
  show ?case
  proof (cases "n < 10")
    case True
    then show ?thesis by (subst dec.simps) simp
  next
    case False
    then have "k \<noteq> 0" using Suc.prems(1) by (cases k) simp_all
    moreover have "n div 10 < 10 ^ k" using Suc.prems(1) by (simp add: div_less_iff_less_mult mult.commute)
    ultimately have "length (dec (n div 10)) \<le> k" by (intro Suc.IH) simp_all
    then show ?thesis using False by (subst dec.simps) simp
  qed
qed simp

lemma dec_head: "dec n \<noteq> []" "n \<noteq> 0 \<Longrightarrow> hd (dec n) \<noteq> 48"
proof (induction n rule: dec.induct)
  case (1 n)
  show ne: "dec n \<noteq> []" by (subst dec.simps) simp
  assume n: "n \<noteq> 0"
  show "hd (dec n) \<noteq> 48"
  proof (cases "n < 10")
    case True
    then have "unat (of_nat n :: u8) = n" by (simp add: unat_of_nat)
    with n have "of_nat n \<noteq> (0 :: u8)" by (metis unat_0)
    then show ?thesis using True by (subst dec.simps) simp
  next
    case False
    then have "hd (dec (n div 10)) \<noteq> 48" "dec (n div 10) \<noteq> []" using 1 by simp_all
    then show ?thesis using False by (subst dec.simps) (simp add: hd_append)
  qed
qed

section \<open>Properties\<close>

text \<open>A device that is always ready, and a memory that holds "n=%d%s" with the string "!".\<close>

definition idle_device :: device where
  "idle_device log a = 0"

lemma idle_drains: "drains idle_device"
  by (simp add: drains_def idle_device_def)

definition fmt_ram :: ram where
  "fmt_ram = (\<lambda>_. 0)(0x1000 := 110, 0x1001 := 61, 0x1002 := 37, 0x1003 := 100, 0x1004 := 37, 0x1005 := 115, 0x1010 := 33)"

definition uart_cpu :: "ram \<Rightarrow> cpu" where
  "uart_cpu m = \<lparr>mem = m, bitmap = [], total_pages = 0, free_pages = 0, irq_enabled = False,
     mair_el1 = 0, tcr_el1 = 0, ttbr0_el1 = 0, sctlr_el1 = 0, vbar_el1 = 0, cntp_tval_el0 = 0,
     cntp_ctl_el0 = 0, mmio = []\<rparr>"

text \<open>
  C30: on a device whose transmit FIFO drains, \<open>printf\<close> returns and sends exactly the bytes
  of the reference format, and nothing but the access log changes: for every format string
  without a dangling percent sign whose \<open>%s\<close> arguments are null or point to strings.
\<close>

theorem printf_correct:
  assumes "drains dev" and "cstr (mem s) fmt bs" and "complete_fmt bs"
    and "\<forall>k \<in> set (str_args 0 bs). args k \<noteq> 0 \<longrightarrow> cstr (mem s) (args k) (str (args k))"
  shows "\<exists>t. printf dev fmt args s = Some t \<and> uart_tx (mmio t) = uart_tx (mmio s) @ format str args 0 bs
    \<and> t\<lparr>mmio := []\<rparr> = s\<lparr>mmio := []\<rparr>"
  unfolding printf_def printf_loop_all [OF assms(2-4)] using assms(1) by (rule uart.put_all_ok)

theorem printf_correct_witness:
  "\<exists>t. printf idle_device 0x1000 ((\<lambda>_. 0)(0 := - 42, 1 := 0x1010)) (uart_cpu fmt_ram) = Some t
    \<and> uart_tx (mmio t) = [110, 61, 45, 52, 50, 33]"
proof -
  let ?args = "(\<lambda>_. 0)(0 := - 42, 1 := 0x1010) :: nat \<Rightarrow> u64" and ?bs = "[110, 61, 37, 100, 37, 115] :: u8 list"
  have "dec 42 = [52, 50]" by (simp add: dec.simps)
  then have f: "format (\<lambda>_. [33]) ?args 0 ?bs = [110, 61, 45, 52, 50, 33]"
    by (simp add: conv_def takes_arg_def sdec_def)
  have "\<exists>t. printf idle_device 0x1000 ?args (uart_cpu fmt_ram) = Some t
      \<and> uart_tx (mmio t) = uart_tx (mmio (uart_cpu fmt_ram)) @ format (\<lambda>_. [33]) ?args 0 ?bs
      \<and> t\<lparr>mmio := []\<rparr> = (uart_cpu fmt_ram)\<lparr>mmio := []\<rparr>"
    by (rule printf_correct [OF idle_drains]) (simp_all add: uart_cpu_def fmt_ram_def takes_arg_def)
  then show ?thesis unfolding f by (auto simp: uart_cpu_def)
qed

text \<open>
  The text of an unsigned number is at most twenty digits, has no superfluous leading
  zero and reads back as the number, and the digit buffer of twenty bytes is never exceeded.
\<close>

theorem putuint_round_trip:
  assumes "drains dev"
  shows "\<exists>t ds. putuint dev v s = Some t \<and> uart_tx (mmio t) = uart_tx (mmio s) @ ds \<and> undec ds = unat v
    \<and> length ds \<le> 20 \<and> length (digits_loop v []) \<le> 20 \<and> (ds = [48] \<or> hd ds \<noteq> 48)"
proof -
  have "unat v < 10 ^ 20" using unat_lt_u64 [of v] by (rule order.strict_trans) simp
  then have l: "length (dec (unat v)) \<le> 20" by (rule dec_length) simp
  moreover have "length (digits_loop v []) \<le> 20"
  proof (cases "v = 0")
    case True
    then show ?thesis by (subst digits_loop.simps) simp
  next
    case False
    then show ?thesis using l by (simp add: digits_loop_dec)
  qed
  moreover have "dec (unat v) = [48] \<or> hd (dec (unat v)) \<noteq> 48"
    using dec_head(2) [of "unat v"] by (cases "unat v = 0") (simp_all add: dec_0)
  ultimately show ?thesis
    using uart.put_all_ok [OF assms, of "dec (unat v)" s] undec_dec [of "unat v"] by (auto simp: putuint_all)
qed

theorem putuint_round_trip_witness:
  "\<exists>t ds. putuint idle_device 907 (uart_cpu fmt_ram) = Some t \<and> uart_tx (mmio t) = ds \<and> undec ds = 907"
  using putuint_round_trip [OF idle_drains, of 907 "uart_cpu fmt_ram"] by (auto simp: uart_cpu_def)

text \<open>
  A percent sign at the end of the format makes \<open>printf\<close> print it with the terminating NUL and
  go on with whatever follows the string in memory.
\<close>

theorem printf_dangling_percent:
  assumes "mem s fmt = 37" and "mem s (fmt + 1) = 0"
  shows "printf dev fmt args s = Option.bind (put_all (putc dev) [37, 0] s) (printf_loop dev args 0 (fmt + 2))"
  unfolding printf_def
  using assms by (subst printf_loop.simps) (simp add: printf_conv_def takes_arg_def bind_Some)

end
