(* ===== verification/Interrupts.thy ===== *)
theory Interrupts
  imports Process Uart
begin

text \<open>
  Interrupts: the GICv2 driver (src/src/interrupts/gic.cpp), the handler table and the
  exception handlers (src/src/interrupts/exception.cpp) and the timer
  (src/src/timer/timer.cpp).  A function pointer is its address; what the code at an address
  does is the parameter \<open>call\<close> of \<open>handle_irq\<close>.  The counter frequency, the syndrome registers
  and the address of the vector table are inputs from the hardware and the linker.
\<close>

section \<open>State\<close>

record irqs = procs +
  irq_handlers :: "u64 list"
  tick_count :: u64
  timer_interval :: u64

section \<open>The interrupt controller\<close>

definition GICD_BASE :: u64 where "GICD_BASE = 0x08000000"
definition GICC_BASE :: u64 where "GICC_BASE = 0x08010000"
definition GICD_CTLR :: u64 where "GICD_CTLR = GICD_BASE + 0x000"
definition GICD_ISENABLER :: u64 where "GICD_ISENABLER = GICD_BASE + 0x100"
definition GICD_ICENABLER :: u64 where "GICD_ICENABLER = GICD_BASE + 0x180"
definition GICD_IPRIORITYR :: u64 where "GICD_IPRIORITYR = GICD_BASE + 0x400"
definition GICD_ITARGETSR :: u64 where "GICD_ITARGETSR = GICD_BASE + 0x800"
definition GICD_ICFGR :: u64 where "GICD_ICFGR = GICD_BASE + 0xC00"
definition GICC_CTLR :: u64 where "GICC_CTLR = GICC_BASE + 0x000"
definition GICC_PMR :: u64 where "GICC_PMR = GICC_BASE + 0x004"
definition GICC_IAR :: u64 where "GICC_IAR = GICC_BASE + 0x00C"
definition GICC_EOIR :: u64 where "GICC_EOIR = GICC_BASE + 0x010"

definition gic_init :: "'a cpu_scheme \<Rightarrow> 'a cpu_scheme" where
  "gic_init s =
     (let s = write32 GICD_CTLR 0 s;
          s = fold (\<lambda>i. write32 (GICD_ICFGR + of_nat (i div 16 * 4)) 0) (map (\<lambda>k. 32 + 16 * k) [0..<14]) s;
          s = fold (\<lambda>i s. write32 (GICD_ITARGETSR + of_nat (i div 4 * 4)) 0x01010101
                      (write32 (GICD_IPRIORITYR + of_nat (i div 4 * 4)) 0xa0a0a0a0 s))
                (map (\<lambda>k. 32 + 4 * k) [0..<56]) s;
          s = fold (\<lambda>i. write32 (GICD_ICENABLER + of_nat (i div 32 * 4)) 0xFFFFFFFF) (map (\<lambda>k. 32 + 32 * k) [0..<7]) s;
          s = write32 GICD_CTLR 1 s;
          s = write32 GICC_PMR 0xFF s
      in write32 GICC_CTLR 1 s)"

definition enable_irq :: "u32 \<Rightarrow> 'a cpu_scheme \<Rightarrow> 'a cpu_scheme" where
  "enable_irq intid s =
     (let reg = intid div 32; b = intid mod 32
      in write32 (GICD_ISENABLER + ucast (reg * 4)) (push_bit (unat b) 1) s)"

definition disable_irq :: "u32 \<Rightarrow> 'a cpu_scheme \<Rightarrow> 'a cpu_scheme" where
  "disable_irq intid s =
     (let reg = intid div 32; b = intid mod 32
      in write32 (GICD_ICENABLER + ucast (reg * 4)) (push_bit (unat b) 1) s)"

definition acknowledge :: "device \<Rightarrow> 'a cpu_scheme \<Rightarrow> 'a cpu_scheme \<times> u32" where
  "acknowledge dev s = read32 dev GICC_IAR s"

definition end_of_interrupt :: "u32 \<Rightarrow> 'a cpu_scheme \<Rightarrow> 'a cpu_scheme" where
  "end_of_interrupt intid s = write32 GICC_EOIR intid s"

definition set_priority :: "device \<Rightarrow> u32 \<Rightarrow> u8 \<Rightarrow> 'a cpu_scheme \<Rightarrow> 'a cpu_scheme" where
  "set_priority dev intid priority s =
     (let reg_offset = (intid div 4) * 4; byte_offset = intid mod 4;
          (s, val) = read32 dev (GICD_IPRIORITYR + ucast reg_offset) s;
          val = val AND NOT (push_bit (unat byte_offset * 8) 0xFF);
          val = val OR push_bit (unat byte_offset * 8) (ucast priority)
      in write32 (GICD_IPRIORITYR + ucast reg_offset) val s)"

definition set_target :: "device \<Rightarrow> u32 \<Rightarrow> u8 \<Rightarrow> 'a cpu_scheme \<Rightarrow> 'a cpu_scheme" where
  "set_target dev intid cpu_mask s =
     (let reg_offset = (intid div 4) * 4; byte_offset = intid mod 4;
          (s, val) = read32 dev (GICD_ITARGETSR + ucast reg_offset) s;
          val = val AND NOT (push_bit (unat byte_offset * 8) 0xFF);
          val = val OR push_bit (unat byte_offset * 8) (ucast cpu_mask)
      in write32 (GICD_ITARGETSR + ucast reg_offset) val s)"

section \<open>Exceptions and interrupt dispatch\<close>

definition exception_type_names :: "string list" where
  "exception_type_names =
    [''Sync (SP_EL0)'', ''IRQ (SP_EL0)'', ''FIQ (SP_EL0)'', ''SError (SP_EL0)'',
     ''Sync (ELx)'', ''IRQ (ELx)'', ''FIQ (ELx)'', ''SError (ELx)'',
     ''Sync (Lower64)'', ''IRQ (Lower64)'', ''FIQ (Lower64)'', ''SError (Lower64)'',
     ''Sync (Lower32)'', ''IRQ (Lower32)'', ''FIQ (Lower32)'', ''SError (Lower32)'']"

definition esr_class_name :: "u32 \<Rightarrow> string" where
  "esr_class_name ec =
     (if ec = 0x00 then ''Unknown reason''
      else if ec = 0x01 then ''WFI/WFE trapped''
      else if ec = 0x15 then ''SVC (AArch64)''
      else if ec = 0x18 then ''MSR/MRS trap''
      else if ec = 0x20 then ''Instruction abort (lower EL)''
      else if ec = 0x21 then ''Instruction abort (same EL)''
      else if ec = 0x22 then ''PC alignment fault''
      else if ec = 0x24 then ''Data abort (lower EL)''
      else if ec = 0x25 then ''Data abort (same EL)''
      else if ec = 0x26 then ''SP alignment fault''
      else if ec = 0x2C then ''FP exception''
      else if ec = 0x30 then ''Breakpoint (lower EL)''
      else if ec = 0x31 then ''Breakpoint (same EL)''
      else if ec = 0x32 then ''Software step (lower EL)''
      else if ec = 0x33 then ''Software step (same EL)''
      else if ec = 0x34 then ''Watchpoint (lower EL)''
      else if ec = 0x35 then ''Watchpoint (same EL)''
      else if ec = 0x3C then ''BRK instruction''
      else ''Other'')"

definition MAX_IRQ :: u32 where "MAX_IRQ = 256"

definition register_handler :: "u32 \<Rightarrow> u64 \<Rightarrow> 'a irqs_scheme \<Rightarrow> 'a irqs_scheme" where
  "register_handler intid handler s =
     (if intid < MAX_IRQ then s\<lparr>irq_handlers := (irq_handlers s)[unat intid := handler]\<rparr> else s)"

text \<open>
  \<open>handle_exception\<close> never returns: its result is the state in which the processor halts.
\<close>

definition handle_exception :: "device \<Rightarrow> u64 \<Rightarrow> u64 \<Rightarrow> u64 \<Rightarrow> u64 \<Rightarrow> u64 \<Rightarrow> 'a cpu_scheme \<Rightarrow> 'a cpu_scheme option" where
  "handle_exception dev type esr far elr ksp s =
     (let ec = ucast (drop_bit 26 esr AND 0x3F) :: u32; nl = [CHR 0x0A]
      in Option.bind (puts_lit dev (ascii (nl @ ''!!! EXCEPTION !!!'' @ nl)) s)
      (\<lambda>s. Option.bind (puts_lit dev (ascii ''  Type: '') s)
      (\<lambda>s. Option.bind (if type < 16 then puts_lit dev (ascii (exception_type_names ! unat type)) s else Some s)
      (\<lambda>s. Option.bind (puts_lit dev (ascii (nl @ ''  ESR:  '')) s)
      (\<lambda>s. Option.bind (puthex dev esr s)
      (\<lambda>s. Option.bind (puts_lit dev (ascii '' ('') s)
      (\<lambda>s. Option.bind (puts_lit dev (ascii (esr_class_name ec)) s)
      (\<lambda>s. Option.bind (puts_lit dev (ascii ('')'' @ nl @ ''  FAR:  '')) s)
      (\<lambda>s. Option.bind (puthex dev far s)
      (\<lambda>s. Option.bind (puts_lit dev (ascii (nl @ ''  ELR:  '')) s)
      (\<lambda>s. Option.bind (puthex dev elr s)
      (\<lambda>s. Option.bind (puts_lit dev (ascii (nl @ ''  SP:   '')) s)
      (\<lambda>s. Option.bind (puthex dev ksp s)
      (\<lambda>s. Option.bind (puts_lit dev (ascii nl) s)
      (\<lambda>s. puts_lit dev (ascii (''System halted.'' @ nl)) s)))))))))))))))"

definition unhandled_fmt :: "u8 list" where
  "unhandled_fmt = ascii (''Unhandled IRQ: %u'' @ [CHR 0x0A])"

definition handle_irq ::
  "device \<Rightarrow> (u64 \<Rightarrow> u32 \<Rightarrow> 'a irqs_scheme \<Rightarrow> 'a irqs_scheme option) \<Rightarrow> 'a irqs_scheme \<Rightarrow> 'a irqs_scheme option" where
  "handle_irq dev call s =
     (let (s, intid) = acknowledge dev s
      in Option.bind
           (if intid < MAX_IRQ \<and> irq_handlers s ! unat intid \<noteq> 0 then call (irq_handlers s ! unat intid) intid s
            else if intid < 1020 then printf_lit dev (\<lambda>_. ucast intid) 0 unhandled_fmt s
            else Some s)
           (\<lambda>s. Some (if intid < 1020 then end_of_interrupt intid s else s)))"

definition exception_init :: "device \<Rightarrow> u64 \<Rightarrow> 'a cpu_scheme \<Rightarrow> 'a cpu_scheme option" where
  "exception_init dev vector_table s =
     puts_lit dev (ascii (''  [ok] Exception vectors installed'' @ [CHR 0x0A])) (s\<lparr>vbar_el1 := vector_table\<rparr>)"

definition kernel_panic :: "device \<Rightarrow> u64 \<Rightarrow> 'a cpu_scheme \<Rightarrow> 'a cpu_scheme option" where
  "kernel_panic dev msg s =
     Option.bind (puts_lit dev (ascii ([CHR 0x0A] @ ''!!! KERNEL PANIC !!!'' @ [CHR 0x0A])) (disable_interrupts s))
       (\<lambda>s. Option.bind (puts dev msg s)
         (\<lambda>s. puts_lit dev (ascii ([CHR 0x0A] @ ''System halted.'' @ [CHR 0x0A])) s))"

section \<open>The timer\<close>

definition TIMER_IRQ :: u32 where "TIMER_IRQ = 30"
definition TIMER_HZ :: u64 where "TIMER_HZ = 100"

definition timer_handler :: "u32 \<Rightarrow> 'a irqs_scheme \<Rightarrow> 'a irqs_scheme" where
  "timer_handler intid s =
     (let s = s\<lparr>tick_count := tick_count s + 1\<rparr> in s\<lparr>cntp_tval_el0 := timer_interval s\<rparr>)"

definition timer_start :: "device \<Rightarrow> u64 \<Rightarrow> u64 \<Rightarrow> 'a irqs_scheme \<Rightarrow> 'a irqs_scheme" where
  "timer_start dev handler freq s =
     (let s = s\<lparr>timer_interval := freq div TIMER_HZ\<rparr>;
          s = s\<lparr>cntp_tval_el0 := timer_interval s\<rparr>;
          s = s\<lparr>cntp_ctl_el0 := 1\<rparr>;
          s = register_handler TIMER_IRQ handler s;
          s = set_priority dev TIMER_IRQ 0x80 s
      in enable_irq TIMER_IRQ s)"

definition timer_fmt :: "u8 list" where
  "timer_fmt = ascii (''  [ok] Timer: %u Hz (freq=%u)'' @ [CHR 0x0A])"

definition timer_init :: "device \<Rightarrow> u64 \<Rightarrow> u64 \<Rightarrow> 'a irqs_scheme \<Rightarrow> 'a irqs_scheme option" where
  "timer_init dev handler freq s =
     printf_lit dev (\<lambda>n. if n = 0 then TIMER_HZ else freq) 0 timer_fmt (timer_start dev handler freq s)"

definition get_ticks :: "'a irqs_scheme \<Rightarrow> u64" where
  "get_ticks s = tick_count s"

definition get_frequency :: "u64 \<Rightarrow> u64" where
  "get_frequency cntfrq_el0 = cntfrq_el0"

definition uptime_seconds :: "'a irqs_scheme \<Rightarrow> u64" where
  "uptime_seconds s = tick_count s div TIMER_HZ"

section \<open>Acknowledge and end of interrupt\<close>

text \<open>
  The accesses to the acknowledge and end-of-interrupt registers, in order.  An interrupt is
  completed when its acknowledge is directly followed by its end of interrupt.
\<close>

fun gic_trace :: "mmio_event list \<Rightarrow> mmio_event list" where
  "gic_trace [] = []"
| "gic_trace (Read32 a v # es) = (if a = GICC_IAR then Read32 a v # gic_trace es else gic_trace es)"
| "gic_trace (Write32 a v # es) = (if a = GICC_EOIR then Write32 a v # gic_trace es else gic_trace es)"
| "gic_trace (_ # es) = gic_trace es"

fun completed :: "mmio_event list \<Rightarrow> bool" where
  "completed [] = True"
| "completed (Read32 a v # es) =
     (if v < 1020 then (case es of Write32 b w # es \<Rightarrow> a = GICC_IAR \<and> b = GICC_EOIR \<and> w = v \<and> completed es | _ \<Rightarrow> False)
      else a = GICC_IAR \<and> completed es)"
| "completed _ = False"

lemma gic_trace_append [simp]: "gic_trace (xs @ ys) = gic_trace xs @ gic_trace ys"
  by (induction xs rule: gic_trace.induct) auto

lemma completed_append: "completed xs \<Longrightarrow> completed ys \<Longrightarrow> completed (xs @ ys)"
  by (induction xs rule: completed.induct) (auto split: if_splits list.splits mmio_event.splits)

lemma uart_not_gic [simp]: "UART_DR \<noteq> GICC_EOIR" "UART_FR \<noteq> GICC_IAR" "GICC_IAR \<noteq> UART_FR" "GICC_EOIR \<noteq> UART_DR"
  by (simp_all add: UART_DR_def UART_FR_def UART_BASE_def GICC_EOIR_def GICC_IAR_def GICC_BASE_def)

lemma wait_clear_gic: "wait_clear dev flag s = Some t \<Longrightarrow> gic_trace (mmio t) = gic_trace (mmio s)"
proof (induction rule: wait_clear.raw_induct [rotated, consumes 1])
  case (1 wait dev flag s t)
  then show ?case by (auto simp: read32_def Let_def split: if_splits)
qed

lemma putc_gic: "putc dev c s = Some t \<Longrightarrow> gic_trace (mmio t) = gic_trace (mmio s)"
  by (auto simp: putc_def write32_def dest!: wait_clear_gic split: Option.bind_splits)

lemma put_all_gic: "put_all (putc dev) cs s = Some t \<Longrightarrow> gic_trace (mmio t) = gic_trace (mmio s)"
  by (induction cs arbitrary: s) (auto dest!: putc_gic split: Option.bind_splits)

lemma unhandled_gic:
  assumes "printf_lit dev (\<lambda>_. v) 0 unhandled_fmt s = Some t"
  shows "gic_trace (mmio t) = gic_trace (mmio s)"
proof -
  have "complete_fmt unhandled_fmt" "str_args 0 unhandled_fmt = []"
    by (simp_all add: unhandled_fmt_def ascii_def takes_arg_def)
  then have "printf_lit dev (\<lambda>_. v) 0 unhandled_fmt s = put_all (putc dev) (format (\<lambda>_. []) (\<lambda>_. v) 0 unhandled_fmt) s"
    by (intro printf_lit_all) simp_all
  with assms show ?thesis by (intro put_all_gic) simp
qed

lemma handle_irq_trace:
  assumes "handle_irq dev call s = Some t"
    and "\<forall>h i u u'. call h i u = Some u' \<longrightarrow> gic_trace (mmio u') = gic_trace (mmio u)"
  shows "\<exists>v. gic_trace (mmio t) = gic_trace (mmio s) @ (Read32 GICC_IAR v # (if v < 1020 then [Write32 GICC_EOIR v] else []))"
proof -
  define v where "v = dev (mmio s) GICC_IAR"
  define u where "u = s\<lparr>mmio := mmio s @ [Read32 GICC_IAR v]\<rparr>"
  have a: "acknowledge dev s = (u, v)" by (simp add: acknowledge_def read32_def u_def v_def Let_def)
  have g: "gic_trace (mmio u) = gic_trace (mmio s) @ [Read32 GICC_IAR v]" by (simp add: u_def)
  show ?thesis
    using assms(1) g
    by (intro exI [of _ v])
      (auto simp: handle_irq_def a Let_def end_of_interrupt_def write32_def dest: assms(2) [rule_format] unhandled_gic
        split: if_splits Option.bind_splits)
qed

text \<open>
  C13: however many interrupts are taken, each one that is not spurious is ended exactly once,
  with its own number, before the next one is acknowledged, and spurious ones are not ended:
  for every device and every handler that leaves the two registers alone.
\<close>

theorem interrupts_completed:
  assumes "\<forall>h i u u'. call h i u = Some u' \<longrightarrow> gic_trace (mmio u') = gic_trace (mmio u)"
    and "completed (gic_trace (mmio s))"
    and "((\<lambda>r. Option.bind r (handle_irq dev call)) ^^ n) (Some s) = Some t"
  shows "completed (gic_trace (mmio t)) \<and>
    length (filter (\<lambda>e. \<exists>v. e = Read32 GICC_IAR v) (gic_trace (mmio t))) =
    length (filter (\<lambda>e. \<exists>v. e = Read32 GICC_IAR v) (gic_trace (mmio s))) + n"
  using assms(3)
proof (induction n arbitrary: t)
  case 0
  then show ?case using assms(2) by simp
next
  case (Suc n)
  then obtain u where u: "((\<lambda>r. Option.bind r (handle_irq dev call)) ^^ n) (Some s) = Some u" "handle_irq dev call u = Some t"
    by (auto simp: bind_eq_Some_conv)
  from handle_irq_trace [OF u(2) assms(1)] obtain v where
    v: "gic_trace (mmio t) = gic_trace (mmio u) @ (Read32 GICC_IAR v # (if v < 1020 then [Write32 GICC_EOIR v] else []))"
    by blast
  have "completed (Read32 GICC_IAR v # (if v < 1020 then [Write32 GICC_EOIR v] else []))" by simp
  then show ?case using Suc.IH [OF u(1)] v by (auto intro: completed_append)
qed

section \<open>Ticks\<close>

text \<open>The timer as the only interrupt source, and its handler as the only code that is called.\<close>

definition timer_calls :: "u64 \<Rightarrow> u64 \<Rightarrow> u32 \<Rightarrow> 'a irqs_scheme \<Rightarrow> 'a irqs_scheme option" where
  "timer_calls handler h intid s = (if h = handler then Some (timer_handler intid s) else None)"

definition timer_only :: device where
  "timer_only log a = (if a = GICC_IAR then TIMER_IRQ else 0)"

definition boot_irqs :: irqs where
  "boot_irqs = \<lparr>mem = (\<lambda>_. 0), bitmap = [], total_pages = 0, free_pages = 0, irq_enabled = False,
      mair_el1 = 0, tcr_el1 = 0, ttbr0_el1 = 0, sctlr_el1 = 0, vbar_el1 = 0, cntp_tval_el0 = 0,
      cntp_ctl_el0 = 0, mmio = [], first_block = 0, process_table = [],
      next_pid = 1, current_process = None, current_index = 0, cpu_regs = zero_context,
      irq_handlers = replicate 256 0, tick_count = 0, timer_interval = 0\<rparr>"

lemma timer_start_fields:
  assumes "length (irq_handlers s) = 256"
  shows "irq_handlers (timer_start dev handler freq s) ! 30 = handler" "tick_count (timer_start dev handler freq s) = tick_count s"
    "timer_interval (timer_start dev handler freq s) = freq div 100" "cntp_tval_el0 (timer_start dev handler freq s) = freq div 100"
  using assms by (simp_all add: timer_start_def register_handler_def TIMER_IRQ_def MAX_IRQ_def
      set_priority_def enable_irq_def read32_def write32_def Let_def TIMER_HZ_def)

text \<open>The message at the end of the set-up goes to the UART only.\<close>

lemma timer_init_done:
  assumes "drains dev" and "length (irq_handlers s) = 256"
  obtains u where "timer_init dev handler freq s = Some u"
    and "gic_trace (mmio u) = gic_trace (mmio (timer_start dev handler freq s))"
    and "irq_handlers u ! 30 = handler" "tick_count u = tick_count s"
    and "timer_interval u = freq div 100" "cntp_tval_el0 u = freq div 100"
proof -
  let ?s = "timer_start dev handler freq s" and ?a = "\<lambda>n :: nat. if n = 0 then TIMER_HZ else freq"
  have "complete_fmt timer_fmt" "str_args 0 timer_fmt = []" by (simp_all add: timer_fmt_def ascii_def takes_arg_def)
  then have p: "timer_init dev handler freq s = put_all (putc dev) (format (\<lambda>_. []) ?a 0 timer_fmt) ?s"
    unfolding timer_init_def by (intro printf_lit_all) simp_all
  obtain u where u: "put_all (putc dev) (format (\<lambda>_. []) ?a 0 timer_fmt) ?s = Some u" "u\<lparr>mmio := []\<rparr> = ?s\<lparr>mmio := []\<rparr>"
    using uart.put_all_ok [OF assms(1)] by blast
  have "irq_handlers u = irq_handlers ?s" "tick_count u = tick_count ?s" "timer_interval u = timer_interval ?s"
      "cntp_tval_el0 u = cntp_tval_el0 ?s"
    using arg_cong [OF u(2), of irq_handlers] arg_cong [OF u(2), of tick_count] arg_cong [OF u(2), of timer_interval]
      arg_cong [OF u(2), of cntp_tval_el0] by simp_all
  then show ?thesis using that p u(1) put_all_gic [OF u(1)] timer_start_fields [OF assms(2), of dev handler freq] by simp
qed

lemma timer_only_drains: "drains timer_only"
  by (simp add: drains_def timer_only_def)

theorem interrupts_completed_witness:
  "\<exists>t. ((\<lambda>r. Option.bind r (handle_irq timer_only (timer_calls 0x40080000))) ^^ 1)
        (timer_init timer_only 0x40080000 62500000 boot_irqs) = Some t
    \<and> completed (gic_trace (mmio t))"
proof -
  let ?call = "timer_calls 0x40080000"
  have len: "length (irq_handlers boot_irqs) = 256" by (simp add: boot_irqs_def)
  obtain u where u: "timer_init timer_only 0x40080000 62500000 boot_irqs = Some u"
      "gic_trace (mmio u) = gic_trace (mmio (timer_start timer_only 0x40080000 62500000 boot_irqs))" "irq_handlers u ! 30 = 0x40080000"
    using timer_init_done [OF timer_only_drains len] by metis
  have c: "\<forall>h i u u'. ?call h i u = Some u' \<longrightarrow> gic_trace (mmio u') = gic_trace (mmio u)"
    by (auto simp: timer_calls_def timer_handler_def Let_def split: if_splits)
  have s: "completed (gic_trace (mmio u))"
    unfolding u(2) by (simp add: timer_start_def register_handler_def TIMER_IRQ_def MAX_IRQ_def set_priority_def enable_irq_def
        read32_def write32_def boot_irqs_def Let_def GICC_EOIR_def GICC_IAR_def GICC_BASE_def
        GICD_IPRIORITYR_def GICD_ISENABLER_def GICD_BASE_def timer_only_def)
  obtain t where t: "((\<lambda>r. Option.bind r (handle_irq timer_only ?call)) ^^ 1) (Some u) = Some t"
    using u(3) by (simp add: handle_irq_def acknowledge_def read32_def timer_only_def TIMER_IRQ_def MAX_IRQ_def
        timer_calls_def Let_def)
  from interrupts_completed [OF c s t] t show ?thesis unfolding u(1) by blast
qed

lemma timer_irq:
  assumes "irq_handlers s ! 30 = handler" "handler \<noteq> 0" "dev (mmio s) GICC_IAR = TIMER_IRQ"
    and "\<forall>i u. call handler i u = Some (timer_handler i u)"
  shows "\<exists>t. handle_irq dev call s = Some t \<and> tick_count t = tick_count s + 1 \<and> cntp_tval_el0 t = timer_interval s
    \<and> timer_interval t = timer_interval s \<and> irq_handlers t = irq_handlers s
    \<and> mmio t = mmio s @ [Read32 GICC_IAR TIMER_IRQ, Write32 GICC_EOIR TIMER_IRQ]"
  using assms
  by (simp add: handle_irq_def acknowledge_def read32_def Let_def TIMER_IRQ_def MAX_IRQ_def
      timer_handler_def end_of_interrupt_def write32_def)

text \<open>
  Once the timer is set up, every timer interrupt advances the tick count by one, rearms
  the timer for a hundredth of a second and is ended; after \<open>100 * k\<close> of them the uptime has
  grown by \<open>k\<close> seconds, as long as the counter does not wrap.
\<close>

theorem timer_counts_ticks:
  assumes "handler \<noteq> 0" and "length (irq_handlers s) = 256" and "drains dev" and "\<forall>log. dev log GICC_IAR = TIMER_IRQ"
    and "\<forall>i u. call handler i u = Some (timer_handler i u)" and "tick_count s = 0" and "n < 2 ^ 64"
  shows "\<exists>t. ((\<lambda>r. Option.bind r (handle_irq dev call)) ^^ n) (timer_init dev handler freq s) = Some t
    \<and> unat (get_ticks t) = n \<and> unat (uptime_seconds t) = n div 100 \<and> cntp_tval_el0 t = freq div 100"
proof -
  obtain s0 where i: "timer_init dev handler freq s = Some s0"
    and s0: "irq_handlers s0 ! 30 = handler" "tick_count s0 = 0" "timer_interval s0 = freq div 100" "cntp_tval_el0 s0 = freq div 100"
    using timer_init_done [OF assms(3,2)] assms(6) by metis
  have "\<exists>t. ((\<lambda>r. Option.bind r (handle_irq dev call)) ^^ n) (Some s0) = Some t
    \<and> tick_count t = of_nat n \<and> cntp_tval_el0 t = freq div 100 \<and> timer_interval t = freq div 100 \<and> irq_handlers t ! 30 = handler"
  proof (induction n)
    case 0
    then show ?case using s0 by simp
  next
    case (Suc n)
    then obtain t where t: "((\<lambda>r. Option.bind r (handle_irq dev call)) ^^ n) (Some s0) = Some t" "tick_count t = of_nat n"
      "cntp_tval_el0 t = freq div 100" "timer_interval t = freq div 100" "irq_handlers t ! 30 = handler" by blast
    with timer_irq [of t handler dev call, OF t(5) assms(1) assms(4) [rule_format] assms(5)] show ?case by (auto simp: add.commute)
  qed
  then show ?thesis
    using assms(7) by (auto simp: i get_ticks_def uptime_seconds_def TIMER_HZ_def unat_div)
qed

theorem timer_counts_ticks_witness:
  "\<exists>t. ((\<lambda>r. Option.bind r (handle_irq timer_only (timer_calls 0x40080000))) ^^ 250)
        (timer_init timer_only 0x40080000 62500000 boot_irqs) = Some t
    \<and> unat (get_ticks t) = 250 \<and> unat (uptime_seconds t) = 2"
  using timer_counts_ticks [of "0x40080000" boot_irqs timer_only "timer_calls 0x40080000" 250 62500000]
  by (auto simp: timer_only_drains boot_irqs_def timer_only_def timer_calls_def)

end
