(* ===== verification/Vectors.thy ===== *)
theory Vectors
  imports Prelude
begin

text \<open>
  Exception entry and return, src/src/boot/vectors.S: the sixteen vector entries, the stubs
  they branch to, and the macros that save and restore the interrupted registers in an
  \<open>ExceptionFrame\<close> (src/src/interrupts/exception.h) on the kernel stack.  The C handler is a
  parameter: it gets the type and the frame pointer and returns with the stack pointer it
  was given.
\<close>

section \<open>Model\<close>

record vstate =
  gpr :: "nat \<Rightarrow> u64"
  vsp :: u64
  velr :: u64
  vspsr :: u64
  vmem :: ram

definition set_reg :: "nat \<Rightarrow> u64 \<Rightarrow> vstate \<Rightarrow> vstate" where
  "set_reg i v s = s\<lparr>gpr := (gpr s)(i := v)\<rparr>"

definition stp :: "u64 \<Rightarrow> u64 \<Rightarrow> nat \<Rightarrow> vstate \<Rightarrow> vstate" where
  "stp v w off s = s\<lparr>vmem := store64 (store64 (vmem s) (vsp s + of_nat off) v) (vsp s + of_nat (off + 8)) w\<rparr>"

definition ldp :: "nat \<Rightarrow> nat \<Rightarrow> nat \<Rightarrow> vstate \<Rightarrow> vstate" where
  "ldp i j off s =
     set_reg j (load64 (vmem s) (vsp s + of_nat (off + 8))) (set_reg i (load64 (vmem s) (vsp s + of_nat off)) s)"

definition save_pair :: "nat \<Rightarrow> vstate \<Rightarrow> vstate" where
  "save_pair k s = stp (gpr s (2 * k)) (gpr s (2 * k + 1)) (16 * k) s"

definition load_pair :: "nat \<Rightarrow> vstate \<Rightarrow> vstate" where
  "load_pair k s = ldp (2 * k) (2 * k + 1) (16 * k) s"

definition save_all :: "vstate \<Rightarrow> vstate" where
  "save_all s =
     (let s = s\<lparr>vsp := vsp s - 272\<rparr>;
          s = fold save_pair [0..<15] s;
          s = set_reg 21 (velr s) s;
          s = set_reg 22 (vspsr s) s;
          s = stp (gpr s 30) (gpr s 21) 240 s
      in stp (gpr s 22) 0 256 s)"

definition restore_all :: "vstate \<Rightarrow> vstate" where
  "restore_all s =
     (let s = ldp 30 21 240 s;
          s = ldp 22 23 256 s;
          s = s\<lparr>velr := gpr s 21\<rparr>;
          s = s\<lparr>vspsr := gpr s 22\<rparr>;
          s = fold load_pair [0..<15] s
      in s\<lparr>vsp := vsp s + 272\<rparr>)"

datatype stub = Exc_stub | Irq_stub | Sync_lower_stub

definition vector_table :: "stub list" where
  "vector_table =
    [Exc_stub, Irq_stub, Exc_stub, Exc_stub,
     Exc_stub, Irq_stub, Exc_stub, Exc_stub,
     Sync_lower_stub, Irq_stub, Exc_stub, Exc_stub,
     Exc_stub, Exc_stub, Exc_stub, Exc_stub]"

text \<open>
  \<open>handlers\<close> gives the C function each stub calls; entry \<open>n\<close> of the table first puts its
  number into \<open>x0\<close>.
\<close>

definition take_vector :: "(stub \<Rightarrow> u64 \<Rightarrow> u64 \<Rightarrow> vstate \<Rightarrow> vstate) \<Rightarrow> nat \<Rightarrow> vstate \<Rightarrow> vstate" where
  "take_vector handlers n s =
     (let s = set_reg 0 (of_nat n) s;
          s = save_all s;
          s = set_reg 1 (vsp s) s;
          s = handlers (vector_table ! n) (gpr s 0) (gpr s 1) s
      in restore_all s)"

section \<open>The frame\<close>

definition slot :: "ram \<Rightarrow> u64 \<Rightarrow> nat \<Rightarrow> u64" where
  "slot m b j = load64 m (b + of_nat (8 * j))"

lemma slot_store:
  assumes "i < 1000" "j < 1000"
  shows "slot (store64 m (b + of_nat (8 * i)) v) b j = (if j = i then v else slot m b j)"
proof -
  consider "j = i" | "i < j" | "j < i" by linarith
  then show ?thesis
  proof cases
    case 2
    then have "sep (b + of_nat (8 * i)) 8 (b + of_nat (8 * j)) 8" using assms by (intro sep_offsets) simp_all
    then show ?thesis using 2 by (simp add: slot_def load64_store64_sep)
  next
    case 3
    then have "sep (b + of_nat (8 * j)) 8 (b + of_nat (8 * i)) 8" using assms by (intro sep_offsets) simp_all
    then show ?thesis using 3 by (simp add: slot_def load64_store64_sep sep_commute)
  qed (simp add: slot_def)
qed

lemma stp_slots:
  assumes "i < 999" "j < 1000" "b = vsp s"
  shows "slot (vmem (stp v w (8 * i) s)) b j = (if j = i then v else if j = Suc i then w else slot (vmem s) b j)"
    "vsp (stp v w (8 * i) s) = vsp s" "gpr (stp v w (8 * i) s) = gpr s"
    "velr (stp v w (8 * i) s) = velr s" "vspsr (stp v w (8 * i) s) = vspsr s"
proof -
  have e: "8 * i + 8 = 8 * Suc i" by simp
  have "vmem (stp v w (8 * i) s) = store64 (store64 (vmem s) (vsp s + of_nat (8 * i)) v) (vsp s + of_nat (8 * Suc i)) w"
    unfolding stp_def e by simp
  moreover have "slot (store64 (store64 (vmem s) (vsp s + of_nat (8 * i)) v) (vsp s + of_nat (8 * Suc i)) w) (vsp s) j
      = (if j = Suc i then w else slot (store64 (vmem s) (vsp s + of_nat (8 * i)) v) (vsp s) j)"
    using assms by (intro slot_store) simp_all
  moreover have "slot (store64 (vmem s) (vsp s + of_nat (8 * i)) v) (vsp s) j = (if j = i then v else slot (vmem s) (vsp s) j)"
    using assms by (intro slot_store) simp_all
  ultimately show "slot (vmem (stp v w (8 * i) s)) b j = (if j = i then v else if j = Suc i then w else slot (vmem s) b j)"
    unfolding assms(3) by (simp only:) simp
qed (simp_all add: stp_def)

lemma ldp_gpr:
  "gpr (ldp i j (8 * k) s) = (gpr s)(i := slot (vmem s) (vsp s) k, j := slot (vmem s) (vsp s) (Suc k))"
  "vsp (ldp i j (8 * k) s) = vsp s" "vmem (ldp i j (8 * k) s) = vmem s"
  "velr (ldp i j (8 * k) s) = velr s" "vspsr (ldp i j (8 * k) s) = vspsr s"
  by (simp_all add: ldp_def set_reg_def slot_def add.commute [of 8])

lemma save_pair_slots:
  assumes "k < 400" "j < 1000"
  shows "slot (vmem (save_pair k s)) (vsp s) j =
      (if j = 2 * k \<or> j = 2 * k + 1 then gpr s j else slot (vmem s) (vsp s) j)"
    "vsp (save_pair k s) = vsp s" "gpr (save_pair k s) = gpr s"
    "velr (save_pair k s) = velr s" "vspsr (save_pair k s) = vspsr s"
  using stp_slots [of "2 * k" j "vsp s" s] assms by (auto simp: save_pair_def)

lemma load_pair_regs:
  "gpr (load_pair k s) j = (if j = 2 * k \<or> j = 2 * k + 1 then slot (vmem s) (vsp s) j else gpr s j)"
  "vsp (load_pair k s) = vsp s" "vmem (load_pair k s) = vmem s"
  "velr (load_pair k s) = velr s" "vspsr (load_pair k s) = vspsr s"
  using ldp_gpr [of "2 * k" "2 * k + 1" "2 * k" s] by (simp_all add: load_pair_def)

lemma save_pairs:
  assumes "n \<le> 15"
  shows "vsp (fold save_pair [0..<n] s) = vsp s \<and> gpr (fold save_pair [0..<n] s) = gpr s
    \<and> velr (fold save_pair [0..<n] s) = velr s \<and> vspsr (fold save_pair [0..<n] s) = vspsr s
    \<and> (\<forall>j < 2 * n. slot (vmem (fold save_pair [0..<n] s)) (vsp s) j = gpr s j)"
  using assms
proof (induction n)
  case (Suc n)
  define t where "t = fold save_pair [0..<n] s"
  have t: "vsp t = vsp s" "gpr t = gpr s" "velr t = velr s" "vspsr t = vspsr s"
      "\<And>j. j < 2 * n \<Longrightarrow> slot (vmem t) (vsp s) j = gpr s j"
    using Suc by (simp_all add: t_def)
  have "slot (vmem (save_pair n t)) (vsp s) j = gpr s j" if "j < 2 * Suc n" for j
    using save_pair_slots(1) [of n j t] t Suc.prems that by auto
  moreover have "fold save_pair [0..<Suc n] s = save_pair n t" by (simp add: t_def)
  ultimately show ?case using save_pair_slots(2-5) [of n 0 t] t Suc.prems by simp
qed simp

lemma load_pairs:
  assumes "n \<le> 15"
  shows "vsp (fold load_pair [0..<n] s) = vsp s \<and> vmem (fold load_pair [0..<n] s) = vmem s
    \<and> velr (fold load_pair [0..<n] s) = velr s \<and> vspsr (fold load_pair [0..<n] s) = vspsr s
    \<and> (\<forall>j. gpr (fold load_pair [0..<n] s) j = (if j < 2 * n then slot (vmem s) (vsp s) j else gpr s j))"
  using assms
proof (induction n)
  case (Suc n)
  then show ?case by (auto simp: load_pair_regs)
qed simp

lemma save_all_frame:
  "vsp (save_all s) = vsp s - 272"
  "j < 30 \<Longrightarrow> slot (vmem (save_all s)) (vsp s - 272) j = gpr s j"
  "slot (vmem (save_all s)) (vsp s - 272) 30 = gpr s 30"
  "slot (vmem (save_all s)) (vsp s - 272) 31 = velr s"
  "slot (vmem (save_all s)) (vsp s - 272) 32 = vspsr s"
  "slot (vmem (save_all s)) (vsp s - 272) 33 = 0"
proof -
  define t where "t = fold save_pair [0..<15] (s\<lparr>vsp := vsp s - 272\<rparr>)"
  have t: "vsp t = vsp s - 272" "gpr t = gpr s" "velr t = velr s" "vspsr t = vspsr s"
      "j < 30 \<Longrightarrow> slot (vmem t) (vsp s - 272) j = gpr s j" for j
    using save_pairs [of 15 "s\<lparr>vsp := vsp s - 272\<rparr>"] by (simp_all add: t_def)
  define u where "u = set_reg 22 (vspsr s) (set_reg 21 (velr s) t)"
  have u: "vsp u = vsp s - 272" "vmem u = vmem t" "gpr u 30 = gpr s 30" "gpr u 21 = velr s" "gpr u 22 = vspsr s"
    by (simp_all add: u_def set_reg_def t)
  define w where "w = stp (gpr u 30) (gpr u 21) (8 * 30) u"
  have w: "vsp w = vsp s - 272" "gpr w = gpr u" using stp_slots(2,3) [of 30 0 "vsp u" u] by (simp_all add: w_def u)
  have sv: "save_all s = stp (gpr w 22) 0 (8 * 32) w"
    unfolding save_all_def Let_def t_def [symmetric] by (simp add: w_def u_def t set_reg_def)
  have sw: "slot (vmem w) (vsp s - 272) j = (if j = 30 then gpr s 30 else if j = 31 then velr s else slot (vmem t) (vsp s - 272) j)"
    if "j < 1000" for j
    using that stp_slots(1) [of 30 j "vsp u" u] by (simp add: w_def u)
  have ss: "slot (vmem (save_all s)) (vsp s - 272) j = (if j = 32 then vspsr s else if j = 33 then 0 else slot (vmem w) (vsp s - 272) j)"
    if "j < 1000" for j
    using that stp_slots(1) [of 32 j "vsp w" w] unfolding sv by (simp add: w u)
  show "vsp (save_all s) = vsp s - 272"
    unfolding sv using stp_slots(2) [of 32 0 "vsp w" w] by (simp add: w)
  show "j < 30 \<Longrightarrow> slot (vmem (save_all s)) (vsp s - 272) j = gpr s j"
      "slot (vmem (save_all s)) (vsp s - 272) 30 = gpr s 30" "slot (vmem (save_all s)) (vsp s - 272) 31 = velr s"
      "slot (vmem (save_all s)) (vsp s - 272) 32 = vspsr s" "slot (vmem (save_all s)) (vsp s - 272) 33 = 0"
    by (simp_all add: ss sw t)
qed

lemma restore_all_regs:
  "j < 30 \<Longrightarrow> gpr (restore_all s) j = slot (vmem s) (vsp s) j"
  "gpr (restore_all s) 30 = slot (vmem s) (vsp s) 30"
  "velr (restore_all s) = slot (vmem s) (vsp s) 31"
  "vspsr (restore_all s) = slot (vmem s) (vsp s) 32"
  "vsp (restore_all s) = vsp s + 272" "vmem (restore_all s) = vmem s"
proof -
  define t where "t = ldp 22 23 (8 * 32) (ldp 30 21 (8 * 30) s)"
  have t: "vsp t = vsp s" "vmem t = vmem s" "gpr t 30 = slot (vmem s) (vsp s) 30"
      "gpr t 21 = slot (vmem s) (vsp s) 31" "gpr t 22 = slot (vmem s) (vsp s) 32"
    by (simp_all only: t_def ldp_gpr) (simp_all add: eval_nat_numeral)
  define u where "u = t\<lparr>velr := gpr t 21, vspsr := gpr t 22\<rparr>"
  have r: "restore_all s = (fold load_pair [0..<15] u)
      \<lparr>vsp := vsp (fold load_pair [0..<15] u) + 272\<rparr>"
    unfolding restore_all_def Let_def u_def t_def by simp
  show "j < 30 \<Longrightarrow> gpr (restore_all s) j = slot (vmem s) (vsp s) j" "gpr (restore_all s) 30 = slot (vmem s) (vsp s) 30"
      "velr (restore_all s) = slot (vmem s) (vsp s) 31" "vspsr (restore_all s) = slot (vmem s) (vsp s) 32"
      "vsp (restore_all s) = vsp s + 272" "vmem (restore_all s) = vmem s"
    unfolding r using load_pairs [of 15 u] t by (simp_all add: u_def)
qed

section \<open>Entry and return\<close>

text \<open>
  C12: taking vector \<open>n\<close> hands the handler a frame with registers \<open>x1\<close> to \<open>x30\<close>, the return
  address and the saved status of the interrupted code, and the handler's return loads all
  registers from that frame, so that whatever the handler leaves in the frame is what the
  interrupted code sees.  The exception is \<open>x0\<close>: the entry overwrites it with its number before
  it is saved, so slot 0 of the frame is the vector number and the interrupted \<open>x0\<close> is lost.
\<close>

theorem exception_frame_round_trip:
  assumes "n < 16" and "\<forall>k t f u. vsp (handlers k t f u) = vsp u"
  shows "\<exists>u. let f = vsp s - 272; h = handlers (vector_table ! n) (gpr u 0) f u; r = take_vector handlers n s in
      vsp u = f \<and> gpr u 1 = f
    \<and> slot (vmem u) f 0 = of_nat n \<and> (\<forall>i. 1 \<le> i \<longrightarrow> i \<le> 30 \<longrightarrow> slot (vmem u) f i = gpr s i)
    \<and> slot (vmem u) f 31 = velr s \<and> slot (vmem u) f 32 = vspsr s
    \<and> (\<forall>i \<le> 30. gpr r i = slot (vmem h) f i) \<and> velr r = slot (vmem h) f 31 \<and> vspsr r = slot (vmem h) f 32
    \<and> vsp r = vsp s \<and> vmem r = vmem h"
proof -
  define v where "v = save_all (set_reg 0 (of_nat n) s)"
  define u where "u = set_reg 1 (vsp v) v"
  define h where "h = handlers (vector_table ! n) (gpr u 0) (gpr u 1) u"
  have vs: "vsp v = vsp s - 272" using save_all_frame(1) [of "set_reg 0 (of_nat n) s"] by (simp add: v_def set_reg_def)
  have v: "j < 30 \<Longrightarrow> slot (vmem v) (vsp s - 272) j = (if j = 0 then of_nat n else gpr s j)"
      "slot (vmem v) (vsp s - 272) 30 = gpr s 30" "slot (vmem v) (vsp s - 272) 31 = velr s"
      "slot (vmem v) (vsp s - 272) 32 = vspsr s" for j
    using save_all_frame(2) [of _ "set_reg 0 (of_nat n) s"] save_all_frame(3-5) [of "set_reg 0 (of_nat n) s"]
    by (simp_all add: v_def set_reg_def)
  have u: "vsp u = vsp s - 272" "vmem u = vmem v" "gpr u 1 = vsp s - 272" by (simp_all add: u_def set_reg_def vs)
  have r: "take_vector handlers n s = restore_all h" by (simp add: take_vector_def Let_def h_def u_def v_def)
  have hs: "vsp h = vsp s - 272" using assms(2) u by (simp add: h_def)
  have "slot (vmem u) (vsp s - 272) i = gpr s i" if "1 \<le> i" "i \<le> 30" for i
    using v(1) [of i] v(2) that u by (cases "i = 30") simp_all
  moreover have "gpr (restore_all h) i = slot (vmem h) (vsp s - 272) i" if "i \<le> 30" for i
    using restore_all_regs(1) [of i h] restore_all_regs(2) [of h] that hs by (cases "i = 30") simp_all
  ultimately show ?thesis
    using u v(1) [of 0] v(3,4) restore_all_regs(3-6) [of h] hs
    by (intro exI [of _ u]) (simp add: Let_def r h_def)
qed

definition sample_vstate :: vstate where
  "sample_vstate = \<lparr>gpr = (\<lambda>i. of_nat (100 + i)), vsp = 0x40200000, velr = 0x400000, vspsr = 0, vmem = (\<lambda>_. 0)\<rparr>"

theorem exception_frame_round_trip_witness:
  "let r = take_vector (\<lambda>_ _ _ u. u) 8 sample_vstate in gpr r 5 = 105 \<and> gpr r 0 = 8 \<and> gpr sample_vstate 0 = 100"
proof -
  have sv: "vsp sample_vstate = 0x40200000" "gpr sample_vstate i = of_nat (100 + i)" for i
    by (simp_all only: sample_vstate_def vstate.select_convs)
  have h: "(8 :: nat) < 16" "\<forall>(k :: stub) (t :: u64) (f :: u64) u. vsp u = vsp u" by simp_all
  from exception_frame_round_trip [of 8 "\<lambda>_ _ _ u. u" sample_vstate, OF h, unfolded Let_def sv(1)]
  obtain u :: vstate where u: "vsp u = 0x40200000 - 272 \<and> gpr u 1 = 0x40200000 - 272
      \<and> slot (vmem u) (0x40200000 - 272) 0 = of_nat 8
      \<and> (\<forall>i. 1 \<le> i \<longrightarrow> i \<le> 30 \<longrightarrow> slot (vmem u) (0x40200000 - 272) i = gpr sample_vstate i)
      \<and> slot (vmem u) (0x40200000 - 272) 31 = velr sample_vstate \<and> slot (vmem u) (0x40200000 - 272) 32 = vspsr sample_vstate
      \<and> (\<forall>i \<le> 30. gpr (take_vector (\<lambda>_ _ _ u. u) 8 sample_vstate) i = slot (vmem u) (0x40200000 - 272) i)
      \<and> velr (take_vector (\<lambda>_ _ _ u. u) 8 sample_vstate) = slot (vmem u) (0x40200000 - 272) 31
      \<and> vspsr (take_vector (\<lambda>_ _ _ u. u) 8 sample_vstate) = slot (vmem u) (0x40200000 - 272) 32
      \<and> vsp (take_vector (\<lambda>_ _ _ u. u) 8 sample_vstate) = 0x40200000
      \<and> vmem (take_vector (\<lambda>_ _ _ u. u) 8 sample_vstate) = vmem u" ..
  then have "gpr (take_vector (\<lambda>_ _ _ u. u) 8 sample_vstate) 5 = gpr sample_vstate 5"
      "gpr (take_vector (\<lambda>_ _ _ u. u) 8 sample_vstate) 0 = of_nat 8" by simp_all
  then show ?thesis by (simp add: sv)
qed

end
