(* ===== verification/Packets.thy ===== *)
theory Packets
  imports Kstring
begin

text \<open>
  Vocabulary of the network stack (src/src/net/net.h): byte order, addresses, the Internet
  checksum, frames and the network interface.

  A received packet is a total function from offsets to bytes together with its length:
  reading past the length gives whatever the buffer holds there, as in the code.  A packet to
  be sent is the list of bytes that the local buffer of the code holds.  The wire is a
  parameter \<open>nic\<close>: which frame the next receive finds, whether the device confirms a frame in
  time and what the clock shows may depend on everything sent so far and on the number of
  receives made.
  Code that would write outside a local buffer ends in \<open>Overrun\<close>, and a run that is longer
  than its fuel in \<open>Out_of_fuel\<close>.
\<close>

section \<open>Byte order and addresses\<close>

definition bswap16 :: "u16 \<Rightarrow> u16" where
  "bswap16 v = of_le (rev (le_bytes 2 v))"

definition bswap32 :: "u32 \<Rightarrow> u32" where
  "bswap32 v = of_le (rev (le_bytes 4 v))"

definition htons :: "u16 \<Rightarrow> u16" where "htons v = bswap16 v"
definition ntohs :: "u16 \<Rightarrow> u16" where "ntohs v = bswap16 v"
definition htonl :: "u32 \<Rightarrow> u32" where "htonl v = bswap32 v"
definition ntohl :: "u32 \<Rightarrow> u32" where "ntohl v = bswap32 v"

type_synonym mac = "u8 list"
type_synonym ipv4 = u32

definition MAC_BROADCAST :: mac where "MAC_BROADCAST = replicate 6 0xFF"
definition MAC_ZERO :: mac where "MAC_ZERO = replicate 6 0"

definition make_ip :: "u8 \<Rightarrow> u8 \<Rightarrow> u8 \<Rightarrow> u8 \<Rightarrow> ipv4" where
  "make_ip a b c d = ucast a OR push_bit 8 (ucast b) OR push_bit 16 (ucast c) OR push_bit 24 (ucast d)"

definition ETH_TYPE_ARP :: u16 where "ETH_TYPE_ARP = 0x0806"
definition ETH_TYPE_IPV4 :: u16 where "ETH_TYPE_IPV4 = 0x0800"
definition ARP_REQUEST :: u16 where "ARP_REQUEST = 1"
definition ARP_REPLY :: u16 where "ARP_REPLY = 2"
definition IP_PROTO_ICMP :: u8 where "IP_PROTO_ICMP = 1"
definition IP_PROTO_TCP :: u8 where "IP_PROTO_TCP = 6"
definition IP_PROTO_UDP :: u8 where "IP_PROTO_UDP = 17"
definition ICMP_ECHO_REPLY :: u8 where "ICMP_ECHO_REPLY = 0"
definition ICMP_ECHO_REQUEST :: u8 where "ICMP_ECHO_REQUEST = 8"
definition TCP_FIN :: u8 where "TCP_FIN = 0x01"
definition TCP_SYN :: u8 where "TCP_SYN = 0x02"
definition TCP_RST :: u8 where "TCP_RST = 0x04"
definition TCP_PSH :: u8 where "TCP_PSH = 0x08"
definition TCP_ACK :: u8 where "TCP_ACK = 0x10"
definition MTU :: u32 where "MTU = 1500"
definition MAX_PACKET :: u32 where "MAX_PACKET = MTU + 14 + 4"

section \<open>Headers\<close>

text \<open>
  The packed structs of net.h as the bytes they occupy, in order of their fields; a field of
  two or four bytes lies in memory in little-endian order, so a field in network order is
  written through \<open>htons\<close> or \<open>htonl\<close>, as in the code.
\<close>

definition eth_header :: "mac \<Rightarrow> mac \<Rightarrow> u16 \<Rightarrow> u8 list" where
  "eth_header dst src ethertype = dst @ src @ le_bytes 2 ethertype"

definition arp_header :: "u16 \<Rightarrow> u16 \<Rightarrow> u8 \<Rightarrow> u8 \<Rightarrow> u16 \<Rightarrow> mac \<Rightarrow> ipv4 \<Rightarrow> mac \<Rightarrow> ipv4 \<Rightarrow> u8 list" where
  "arp_header hw_type proto_type hw_size proto_size opcode sender_mac sender_ip target_mac target_ip =
     le_bytes 2 hw_type @ le_bytes 2 proto_type @ [hw_size, proto_size] @ le_bytes 2 opcode
     @ sender_mac @ le_bytes 4 sender_ip @ target_mac @ le_bytes 4 target_ip"

definition ipv4_header :: "u8 \<Rightarrow> u8 \<Rightarrow> u16 \<Rightarrow> u16 \<Rightarrow> u16 \<Rightarrow> u8 \<Rightarrow> u8 \<Rightarrow> u16 \<Rightarrow> ipv4 \<Rightarrow> ipv4 \<Rightarrow> u8 list" where
  "ipv4_header version_ihl tos total_length identification flags_fragment ttl protocol checksum src dst =
     [version_ihl, tos] @ le_bytes 2 total_length @ le_bytes 2 identification @ le_bytes 2 flags_fragment
     @ [ttl, protocol] @ le_bytes 2 checksum @ le_bytes 4 src @ le_bytes 4 dst"

definition udp_header :: "u16 \<Rightarrow> u16 \<Rightarrow> u16 \<Rightarrow> u16 \<Rightarrow> u8 list" where
  "udp_header src_port dst_port len checksum =
     le_bytes 2 src_port @ le_bytes 2 dst_port @ le_bytes 2 len @ le_bytes 2 checksum"

definition tcp_header :: "u16 \<Rightarrow> u16 \<Rightarrow> u32 \<Rightarrow> u32 \<Rightarrow> u8 \<Rightarrow> u8 \<Rightarrow> u16 \<Rightarrow> u16 \<Rightarrow> u16 \<Rightarrow> u8 list" where
  "tcp_header src_port dst_port seq_num ack_num data_offset flags window checksum urgent =
     le_bytes 2 src_port @ le_bytes 2 dst_port @ le_bytes 4 seq_num @ le_bytes 4 ack_num
     @ [data_offset, flags] @ le_bytes 2 window @ le_bytes 2 checksum @ le_bytes 2 urgent"

type_synonym packet = "nat \<Rightarrow> u8"

definition get16 :: "packet \<Rightarrow> nat \<Rightarrow> u16" where
  "get16 p i = of_le [p i, p (i + 1)]"

definition get32 :: "packet \<Rightarrow> nat \<Rightarrow> u32" where
  "get32 p i = of_le [p i, p (i + 1), p (i + 2), p (i + 3)]"

definition get_mac6 :: "packet \<Rightarrow> nat \<Rightarrow> mac" where
  "get_mac6 p i = map (\<lambda>k. p (i + k)) [0..<6]"

definition get_bytes :: "packet \<Rightarrow> nat \<Rightarrow> nat \<Rightarrow> u8 list" where
  "get_bytes p i n = map (\<lambda>k. p (i + k)) [0..<n]"

section \<open>The Internet checksum\<close>

fun sum_words :: "u8 list \<Rightarrow> u32 \<Rightarrow> u32" where
  "sum_words (a # b # bs) acc = sum_words bs (acc + ucast (of_le [a, b] :: u16))"
| "sum_words [a] acc = acc + ucast a"
| "sum_words [] acc = acc"

lemma fold_carry_step: "unat ((acc AND 0xFFFF) + drop_bit 16 acc :: u32) = unat acc mod 65536 + unat acc div 65536"
proof -
  have m: "(0xFFFF :: u32) = mask 16" by (simp add: mask_eq_exp_minus_1)
  have a: "unat (acc AND 0xFFFF) = unat acc mod 65536" using unat_field [of 0 acc 16] by (simp add: m)
  have b: "unat (drop_bit 16 acc) = unat acc div 65536"
    by (simp only: unat_drop_bit_eq) (simp add: drop_bit_eq_div)
  have "unat acc < 2 ^ LENGTH(32)" by (rule unsigned_less)
  then have "unat acc div 65536 < 65536" by (simp add: div_less_iff_less_mult)
  moreover have "unat acc mod 65536 < 65536" by simp
  ultimately have "unat (acc AND 0xFFFF) + unat (drop_bit 16 acc) < 2 ^ LENGTH(32)" by (simp add: a b)
  then show ?thesis using a b by (simp add: unat_word_ariths)
qed

function fold_carry :: "u32 \<Rightarrow> u32" where
  "fold_carry acc = (if drop_bit 16 acc \<noteq> 0 then fold_carry ((acc AND 0xFFFF) + drop_bit 16 acc) else acc)"
  by auto

termination
proof (relation "measure unat")
  fix acc :: u32
  assume "drop_bit 16 acc \<noteq> 0"
  then have "unat (drop_bit 16 acc) \<noteq> 0" by (simp add: unat_eq_zero)
  then have "unat acc div 65536 \<noteq> 0" by (simp only: unat_drop_bit_eq) (simp add: drop_bit_eq_div)
  moreover have "unat acc = 65536 * (unat acc div 65536) + unat acc mod 65536" by simp
  ultimately have "unat acc mod 65536 + unat acc div 65536 < unat acc" by linarith
  then show "((acc AND 0xFFFF) + drop_bit 16 acc, acc) \<in> measure unat" using fold_carry_step by simp
qed simp

declare fold_carry.simps [simp del]

definition inet_checksum :: "u8 list \<Rightarrow> u16" where
  "inet_checksum data = ucast (NOT (fold_carry (sum_words data 0)))"

section \<open>The network interface\<close>

datatype crash = Overrun | Out_of_fuel

type_synonym 's outcome = "crash + 's"

fun and_then :: "'e + 's \<Rightarrow> ('s \<Rightarrow> 'e + 't) \<Rightarrow> 'e + 't" where
  "and_then (Inl e) f = Inl e"
| "and_then (Inr s) f = f s"

record nic =
  confirms :: "u8 list list \<Rightarrow> bool"
  wire :: "u8 list list \<Rightarrow> nat \<Rightarrow> (packet \<times> u32) option"
  clock :: "u8 list list \<Rightarrow> nat \<Rightarrow> u64"

record iface =
  tx :: "u8 list list"
  polls :: nat

text \<open>
  What the stack sees of the driver: \<open>nic_send\<close> hands over one frame and tells whether the
  device confirmed it, \<open>nic_receive\<close> asks for the next received frame, cut to the size of the
  caller's buffer.  The tick counter is read while packets come and go.
\<close>

definition nic_send :: "nic \<Rightarrow> u8 list \<Rightarrow> 'a iface_scheme \<Rightarrow> 'a iface_scheme \<times> bool" where
  "nic_send dev data s =
     (if data = [] then (s, False) else (s\<lparr>tx := tx s @ [data]\<rparr>, confirms dev (tx s @ [data])))"

definition nic_receive :: "nic \<Rightarrow> u32 \<Rightarrow> 'a iface_scheme \<Rightarrow> 'a iface_scheme \<times> (packet \<times> u32) option" where
  "nic_receive dev buf_size s =
     (s\<lparr>polls := polls s + 1\<rparr>,
      map_option (\<lambda>(pkt, len). (pkt, if len > buf_size then buf_size else len)) (wire dev (tx s) (polls s)))"

definition get_ticks_net :: "nic \<Rightarrow> 'a iface_scheme \<Rightarrow> u64" where
  "get_ticks_net dev s = clock dev (tx s) (polls s)"

lemma ntohs_get16: "ntohs (get16 p i) = of_le [p (i + 1), p i]"
  using le_bytes_of_le [of "[p i, p (i + 1)]", where 'a = 16]
  by (simp add: ntohs_def bswap16_def get16_def numeral_2_eq_2 del: of_le.simps le_bytes.simps)

lemma ntohl_get32: "ntohl (get32 p i) = of_le [p (i + 3), p (i + 2), p (i + 1), p i]"
  using le_bytes_of_le [of "[p i, p (i + 1), p (i + 2), p (i + 3)]", where 'a = 32]
  by (simp add: ntohl_def bswap32_def get32_def eval_nat_numeral del: of_le.simps le_bytes.simps)

lemma bswap16_involution [simp]: "bswap16 (bswap16 w) = w"
  using le_bytes_of_le [of "rev (le_bytes 2 w)", where 'a = 16] of_le_le_bytes [of 2 w]
  by (simp add: bswap16_def)

lemma bswap32_involution [simp]: "bswap32 (bswap32 w) = w"
  using le_bytes_of_le [of "rev (le_bytes 4 w)", where 'a = 32] of_le_le_bytes [of 4 w]
  by (simp add: bswap32_def)

lemma le_bytes_nonempty [simp]: "le_bytes 2 w \<noteq> []" "le_bytes 4 w \<noteq> []"
  by (simp_all flip: length_0_conv)

text \<open>A run that ends in a state with a property, or in one of the tolerated crashes.\<close>

fun outcome_ok :: "crash set \<Rightarrow> ('s \<Rightarrow> bool) \<Rightarrow> 's outcome \<Rightarrow> bool" where
  "outcome_ok E P (Inl e) \<longleftrightarrow> e \<in> E"
| "outcome_ok E P (Inr s) \<longleftrightarrow> P s"

lemma outcome_ok_then:
  "outcome_ok E P r \<Longrightarrow> (\<And>s. P s \<Longrightarrow> outcome_ok E Q (f s)) \<Longrightarrow> outcome_ok E Q (and_then r f)"
  by (cases r) simp_all

lemma outcome_ok_mono: "outcome_ok E P r \<Longrightarrow> (\<And>s. P s \<Longrightarrow> Q s) \<Longrightarrow> outcome_ok E Q r"
  by (cases r) simp_all

section \<open>One's complement arithmetic\<close>

lemma unat_lt_u32 [simp]: "unat (w :: u32) < 4294967296"
proof -
  have "unat w < 2 ^ LENGTH(32)" by (rule unsigned_less)
  then show ?thesis by simp
qed

lemma unat_lt_u16 [simp]: "unat (w :: u16) < 65536"
proof -
  have "unat w < 2 ^ LENGTH(16)" by (rule unsigned_less)
  then show ?thesis by simp
qed

lemma unat_lt_u8 [simp]: "unat (w :: u8) < 256"
proof -
  have "unat w < 2 ^ LENGTH(8)" by (rule unsigned_less)
  then show ?thesis by simp
qed

lemma unat_le_u8: "unat (w :: u8) \<le> 255"
  using unat_lt_u8 [of w] by linarith

lemma unat_drop16: "unat (drop_bit 16 (s :: u32)) = unat s div 65536"
  by (simp only: unat_drop_bit_eq) (simp add: drop_bit_eq_div)

text \<open>Folding keeps the value modulo \<open>2 ^ 16 - 1\<close>, and zero only for zero.\<close>

lemma fold_carry_mod:
  "unat (fold_carry s) < 65536 \<and> unat (fold_carry s) mod 65535 = unat s mod 65535 \<and> (unat (fold_carry s) = 0 \<longleftrightarrow> unat s = 0)"
proof (induction s rule: fold_carry.induct)
  case (1 s)
  show ?case
  proof (cases "drop_bit 16 s = 0")
    case True
    then have "unat s div 65536 = 0" using unat_drop16 [of s] by simp
    then have "unat s < 65536" by (simp add: div_eq_0_iff)
    then show ?thesis using True by (subst (1 2 3) fold_carry.simps) simp
  next
    case False
    let ?t = "(s AND 0xFFFF) + drop_bit 16 s"
    have f: "fold_carry s = fold_carry ?t" using False by (subst fold_carry.simps) simp
    have t: "unat ?t = unat s mod 65536 + unat s div 65536" by (rule fold_carry_step)
    have d: "unat s = 65536 * (unat s div 65536) + unat s mod 65536" by simp
    have "unat s div 65536 \<noteq> 0" using False unat_drop16 [of s] by (metis unat_eq_zero)
    then have "unat ?t \<noteq> 0" "unat s \<noteq> 0" using t d by linarith+
    moreover have "unat ?t mod 65535 = unat s mod 65535"
    proof -
      have "unat s = 65535 * (unat s div 65536) + unat ?t" using t d by linarith
      then show ?thesis by (metis mod_mult_self4)
    qed
    ultimately show ?thesis using 1 False f by simp
  qed
qed

fun word_sum :: "u8 list \<Rightarrow> nat" where
  "word_sum (a # b # bs) = unat a + 256 * unat b + word_sum bs"
| "word_sum [a] = unat a"
| "word_sum [] = 0"

lemma unat_pair: "unat (of_le [a, b] :: u16) = unat a + 256 * unat b"
proof -
  have "(of_le [a, b] :: u16) = ucast a OR push_bit 8 (ucast b)" by simp
  also have "\<dots> = ucast a + push_bit 8 (ucast b)"
    by (rule disjunctive_add [symmetric]) (auto simp: bit_simps dest: bit_imp_le_length)
  also have "unat \<dots> = unat a + 256 * unat b"
  proof -
    have "unat (ucast a :: u16) = unat a" "unat (ucast b :: u16) = unat b" by (simp_all add: unat_ucast_up)
    moreover have "unat (push_bit 8 (ucast b :: u16)) = 256 * unat (ucast b :: u16)"
      by (simp add: push_bit_eq_mult unat_word_ariths mult.commute unat_ucast_up)
    moreover have "unat a + 256 * unat b < 65536" using unat_le_u8 [of a] unat_le_u8 [of b] by linarith
    ultimately show ?thesis by (simp add: unat_word_ariths)
  qed
  finally show ?thesis .
qed

lemma word_sum_bound: "word_sum bs \<le> 65535 * length bs"
proof (induction bs rule: word_sum.induct)
  case (1 a b bs)
  then show ?case using unat_le_u8 [of a] unat_le_u8 [of b] by simp
next
  case (2 a)
  then show ?case using unat_le_u8 [of a] by simp
qed simp

lemma sum_words_nat:
  "unat acc + word_sum bs < 4294967296 \<Longrightarrow> unat (sum_words bs acc) = unat acc + word_sum bs"
proof (induction bs acc rule: sum_words.induct)
  case (1 a b bs acc)
  have "unat (ucast (of_le [a, b] :: u16) :: u32) = unat a + 256 * unat b"
    using unat_pair [of a b] by (simp add: unat_ucast_up del: of_le.simps)
  then have "unat (acc + ucast (of_le [a, b] :: u16)) = unat acc + (unat a + 256 * unat b)"
    using 1(2) by (simp add: unat_word_ariths del: of_le.simps)
  then show ?case using 1 by (simp del: of_le.simps)
next
  case (2 a acc)
  have "unat (ucast a :: u32) = unat a" by (simp add: unat_ucast_up)
  then show ?case using 2 by (simp add: unat_word_ariths)
qed simp

lemma word_sum_append: "even (length xs) \<Longrightarrow> word_sum (xs @ ys) = word_sum xs + word_sum ys"
  by (induction xs rule: word_sum.induct) auto

lemma checksum_nat:
  assumes "length bs \<le> 65536"
  shows "unat (inet_checksum bs) = 65535 - unat (fold_carry (sum_words bs 0))"
    and "unat (fold_carry (sum_words bs 0)) mod 65535 = word_sum bs mod 65535"
    and "unat (fold_carry (sum_words bs 0)) = 0 \<longleftrightarrow> word_sum bs = 0"
    and "unat (fold_carry (sum_words bs 0)) < 65536"
proof -
  let ?f = "fold_carry (sum_words bs 0)"
  have "word_sum bs \<le> 65535 * 65536" using word_sum_bound [of bs] assms by linarith
  then have s: "unat (sum_words bs 0) = word_sum bs" using sum_words_nat [of 0 bs] by simp
  show m: "unat ?f mod 65535 = word_sum bs mod 65535" "unat ?f = 0 \<longleftrightarrow> word_sum bs = 0" "unat ?f < 65536"
    using fold_carry_mod [of "sum_words bs 0"] s by simp_all
  have "(ucast (NOT ?f) :: u16) = NOT (ucast ?f)" by (rule bit_word_eqI) (simp add: bit_simps)
  moreover have "unat (ucast ?f :: u16) = unat ?f" using m(3) by (simp add: unsigned_ucast_eq take_bit_nat_eq_self)
  moreover have "unat (NOT w) = 65535 - unat w" for w :: u16
  proof -
    have "NOT w = - 1 - w" by (simp add: not_eq_complement)
    moreover have "unat (- 1 :: u16) = 65535" by (simp add: unsigned_minus_1_eq_mask mask_eq_exp_minus_1)
    moreover have "unat w \<le> 65535" using unat_lt_u16 [of w] by linarith
    ultimately show ?thesis by (simp add: unat_sub_if')
  qed
  ultimately show "unat (inet_checksum bs) = 65535 - unat ?f" by (simp add: inet_checksum_def)
qed

lemma word_sum_le_bytes: "word_sum (le_bytes 2 (w :: u16)) = unat w"
proof -
  have "of_le (le_bytes 2 w) = w" by (rule of_le_le_bytes) simp
  then have "of_le [ucast w, ucast (drop_bit 8 w)] = w" by (simp add: eval_nat_numeral del: of_le.simps)
  then have "unat (ucast w :: u8) + 256 * unat (ucast (drop_bit 8 w) :: u8) = unat w"
    using unat_pair [of "ucast w" "ucast (drop_bit 8 w)"] by (simp del: of_le.simps)
  then show ?thesis by (simp add: eval_nat_numeral)
qed

lemma checksum_zero:
  assumes "length bs \<le> 65536"
  shows "inet_checksum bs = 0 \<longleftrightarrow> word_sum bs \<noteq> 0 \<and> word_sum bs mod 65535 = 0"
proof -
  let ?f = "unat (fold_carry (sum_words bs 0))"
  note c = checksum_nat [OF assms]
  have "inet_checksum bs = 0 \<longleftrightarrow> unat (inet_checksum bs) = 0" by (simp add: unat_eq_zero)
  also have "\<dots> \<longleftrightarrow> 65535 \<le> ?f" unfolding c(1) by simp
  also have "\<dots> \<longleftrightarrow> ?f \<noteq> 0 \<and> ?f mod 65535 = 0"
  proof
    assume "65535 \<le> ?f"
    with c(4) have "?f = 65535" by linarith
    then show "?f \<noteq> 0 \<and> ?f mod 65535 = 0" by simp
  next
    assume a: "?f \<noteq> 0 \<and> ?f mod 65535 = 0"
    show "65535 \<le> ?f"
    proof (rule ccontr)
      assume "\<not> 65535 \<le> ?f"
      then have "?f mod 65535 = ?f" by (intro mod_less) linarith
      with a show False by metis
    qed
  qed
  also have "\<dots> \<longleftrightarrow> word_sum bs \<noteq> 0 \<and> word_sum bs mod 65535 = 0" using c(2,3) by simp
  finally show ?thesis .
qed

lemma checksum_field_sum:
  assumes "length bs \<le> 65536" "0 < word_sum bs"
  shows "(word_sum bs + unat (inet_checksum bs)) mod 65535 = 0"
proof -
  let ?f = "unat (fold_carry (sum_words bs 0))"
  note c = checksum_nat [OF assms(1)]
  have f: "?f \<le> 65535" using c(4) by linarith
  have "(word_sum bs + (65535 - ?f)) mod 65535 = (word_sum bs mod 65535 + (65535 - ?f)) mod 65535" by (simp add: mod_simps)
  also have "\<dots> = (?f mod 65535 + (65535 - ?f)) mod 65535" by (simp only: c(2))
  also have "\<dots> = (?f + (65535 - ?f)) mod 65535" by (simp add: mod_simps)
  also have "?f + (65535 - ?f) = 65535" using f by simp
  finally show ?thesis unfolding c(1) by simp
qed

lemma checksum_filled:
  assumes "even (length xs)" and "length xs + 2 + length ys \<le> 65536"
  shows "inet_checksum (xs @ le_bytes 2 (inet_checksum (xs @ [0, 0] @ ys)) @ ys) = 0"
proof -
  let ?m = "xs @ [0, 0] @ ys" and ?c = "inet_checksum (xs @ [0, 0] @ ys)"
  have e: "even (length (xs @ le_bytes 2 ?c))" "even (length (xs @ [0, 0]))" using assms(1) by simp_all
  have m: "word_sum ?m = word_sum xs + word_sum ys"
    using word_sum_append [OF assms(1), of "[0, 0] @ ys"] by simp
  have w: "word_sum (xs @ le_bytes 2 ?c @ ys) = word_sum ?m + unat ?c"
    using word_sum_append [OF e(1), of ys] word_sum_append [OF assms(1), of "le_bytes 2 ?c"] word_sum_le_bytes [of ?c] m
    by simp
  have l: "length ?m \<le> 65536" "length (xs @ le_bytes 2 ?c @ ys) \<le> 65536" using assms(2) by simp_all
  have "word_sum ?m + unat ?c \<noteq> 0 \<and> (word_sum ?m + unat ?c) mod 65535 = 0"
  proof (cases "word_sum ?m = 0")
    case True
    then have "unat ?c = 65535" using checksum_nat(1,3) [OF l(1)] by simp
    with True show ?thesis by simp
  next
    case False
    then show ?thesis using checksum_field_sum [OF l(1)] by simp
  qed
  then show ?thesis using checksum_zero [OF l(2)] w by simp
qed

text \<open>
  C27: the Internet checksum does what it is for.  A message whose checksum field was zero when
  the checksum was computed and then filled with it verifies, that is, its own checksum is
  zero; and a message verifies exactly when its 16-bit words, not all zero, sum to a multiple
  of \<open>2 ^ 16 - 1\<close>, which is the one's complement sum of RFC 1071.
\<close>

theorem inet_checksum_verifies:
  assumes "even (length xs)" and "length xs + 2 + length ys \<le> 65536"
  shows "inet_checksum (xs @ le_bytes 2 (inet_checksum (xs @ [0, 0] @ ys)) @ ys) = 0
    \<and> (length bs \<le> 65536 \<longrightarrow> (inet_checksum bs = 0 \<longleftrightarrow> word_sum bs \<noteq> 0 \<and> word_sum bs mod 65535 = 0))"
  using checksum_filled [OF assms] checksum_zero [of bs] by blast

theorem inet_checksum_verifies_witness:
  "inet_checksum ([0x45, 0] @ le_bytes 2 (inet_checksum ([0x45, 0] @ [0, 0] @ [1, 2, 3])) @ [1, 2, 3]) = 0"
  using inet_checksum_verifies [of "[0x45, 0]" "[1, 2, 3]" "[]"] by simp

end
