(* ===== verification/Net.thy ===== *)
theory Net
  imports Packets
begin

text \<open>
  The network layer, src/src/net/net.cpp: ARP cache and ARP, ICMP echo, dispatch of received
  packets, and sending of IPv4 packets with next-hop resolution.  \<open>tcp_input\<close> and
  \<open>socket_udp_input\<close>, which net.cpp calls, are arguments of the handlers, and \<open>poll\<close> is an
  argument of the functions that wait for packets; the theory of the whole stack closes the
  recursion.
\<close>

section \<open>State\<close>

record ArpEntry =
  arp_ip :: ipv4
  arp_mac :: mac
  arp_valid :: bool

record net = iface +
  local_ip :: ipv4
  gateway_ip :: ipv4
  netmask :: ipv4
  dns_server :: ipv4
  local_mac :: mac
  ip_id_counter :: u16
  arp_cache :: "ArpEntry list"

definition ARP_CACHE_SIZE :: nat where "ARP_CACHE_SIZE = 32"

section \<open>ARP cache\<close>

definition arp_lookup :: "ipv4 \<Rightarrow> 'a net_scheme \<Rightarrow> mac" where
  "arp_lookup ip s =
     (case find (\<lambda>i. arp_valid (arp_cache s ! i) \<and> arp_ip (arp_cache s ! i) = ip) [0..<ARP_CACHE_SIZE] of
        Some i \<Rightarrow> arp_mac (arp_cache s ! i)
      | None \<Rightarrow> MAC_ZERO)"

definition arp_cache_add :: "ipv4 \<Rightarrow> mac \<Rightarrow> 'a net_scheme \<Rightarrow> 'a net_scheme" where
  "arp_cache_add ip mac s =
     (case find (\<lambda>i. arp_valid (arp_cache s ! i) \<and> arp_ip (arp_cache s ! i) = ip) [0..<ARP_CACHE_SIZE] of
        Some i \<Rightarrow> s\<lparr>arp_cache := (arp_cache s)[i := (arp_cache s ! i)\<lparr>arp_mac := mac\<rparr>]\<rparr>
      | None \<Rightarrow>
          (case find (\<lambda>i. \<not> arp_valid (arp_cache s ! i)) [0..<ARP_CACHE_SIZE] of
             Some i \<Rightarrow> s\<lparr>arp_cache := (arp_cache s)[i := \<lparr>arp_ip = ip, arp_mac = mac, arp_valid = True\<rparr>]\<rparr>
           | None \<Rightarrow> s\<lparr>arp_cache := (arp_cache s)[0 := (arp_cache s ! 0)\<lparr>arp_ip := ip, arp_mac := mac\<rparr>]\<rparr>))"

section \<open>Received packets\<close>

definition handle_arp :: "nic \<Rightarrow> packet \<Rightarrow> u32 \<Rightarrow> 'a net_scheme \<Rightarrow> 'a net_scheme" where
  "handle_arp dev pkt len s =
     (if len < 14 + 28 then s
      else let sender_mac = get_mac6 pkt (14 + 8); sender_ip = get32 pkt (14 + 14);
               s = arp_cache_add sender_ip sender_mac s
           in if ntohs (get16 pkt (14 + 6)) = ARP_REQUEST \<and> get32 pkt (14 + 24) = local_ip s
              then let reply = eth_header sender_mac (local_mac s) (htons ETH_TYPE_ARP)
                         @ arp_header (htons 1) (htons ETH_TYPE_IPV4) 6 4 (htons ARP_REPLY)
                             (local_mac s) (local_ip s) sender_mac sender_ip
                   in fst (nic_send dev reply s)
              else s)"

definition ip_header20 :: "u16 \<Rightarrow> u16 \<Rightarrow> u16 \<Rightarrow> u8 \<Rightarrow> ipv4 \<Rightarrow> ipv4 \<Rightarrow> u8 list" where
  "ip_header20 total_length identification flags_fragment protocol src dst =
     (let checksum = inet_checksum (ipv4_header 0x45 0 total_length identification flags_fragment 64 protocol 0 src dst)
      in ipv4_header 0x45 0 total_length identification flags_fragment 64 protocol checksum src dst)"

definition echo_reply :: "packet \<Rightarrow> nat \<Rightarrow> u8 list" where
  "echo_reply payload len =
     (let checksum = inet_checksum ([ICMP_ECHO_REPLY, payload 1, 0, 0] @ get_bytes payload 4 (len - 4))
      in [ICMP_ECHO_REPLY, payload 1] @ le_bytes 2 checksum @ get_bytes payload 4 (len - 4))"

definition handle_icmp :: "nic \<Rightarrow> ipv4 \<Rightarrow> packet \<Rightarrow> u32 \<Rightarrow> 'a net_scheme \<Rightarrow> 'a net_scheme outcome" where
  "handle_icmp dev src payload len s =
     (if len < 8 then Inr s
      else if payload 0 = ICMP_ECHO_REQUEST
      then let total = 14 + 20 + len
           in if total > MAX_PACKET then Inr s
              else if unat len > unat MAX_PACKET - (14 + 20) then Inl Overrun
              else let dst = arp_lookup src s;
                       dst = (if dst = MAC_ZERO then arp_lookup (gateway_ip s) s else dst);
                       reply = eth_header dst (local_mac s) (htons ETH_TYPE_IPV4)
                         @ ip_header20 (htons (20 + ucast len)) (htons (ip_id_counter s)) 0 IP_PROTO_ICMP (local_ip s) src
                         @ echo_reply payload (unat len);
                       s = s\<lparr>ip_id_counter := ip_id_counter s + 1\<rparr>
                   in Inr (fst (nic_send dev reply s))
      else Inr s)"

type_synonym 's udp_handler = "ipv4 \<Rightarrow> u16 \<Rightarrow> u16 \<Rightarrow> packet \<Rightarrow> u32 \<Rightarrow> 's \<Rightarrow> 's"
type_synonym 's tcp_handler = "ipv4 \<Rightarrow> packet \<Rightarrow> u32 \<Rightarrow> 's \<Rightarrow> 's outcome"

definition handle_udp :: "'s udp_handler \<Rightarrow> ipv4 \<Rightarrow> packet \<Rightarrow> u32 \<Rightarrow> 's \<Rightarrow> 's" where
  "handle_udp udp_input src payload len s =
     (if len < 8 then s
      else let dst_port = ntohs (get16 payload 2);
               data_len = ntohs (get16 payload 4) - 8
           in udp_input src (ntohs (get16 payload 0)) dst_port (\<lambda>k. payload (8 + k)) (ucast data_len) s)"

definition handle_ipv4 ::
  "nic \<Rightarrow> 'a net_scheme tcp_handler \<Rightarrow> 'a net_scheme udp_handler \<Rightarrow> packet \<Rightarrow> u32 \<Rightarrow> 'a net_scheme \<Rightarrow> 'a net_scheme outcome" where
  "handle_ipv4 dev tcp_input udp_input pkt len s =
     (if len < 14 + 20 then Inr s
      else let ip_hdr_len = (ucast (pkt 14 AND 0x0F) :: u32) * 4;
               ip_total = ucast (ntohs (get16 pkt (14 + 2))) :: u32
           in if ip_total > len - 14 then Inr s
              else let payload = (\<lambda>k. pkt (14 + unat ip_hdr_len + k));
                       payload_len = ip_total - ip_hdr_len;
                       protocol = pkt (14 + 9); src = get32 pkt (14 + 12)
                   in if protocol = IP_PROTO_ICMP then handle_icmp dev src payload payload_len s
                      else if protocol = IP_PROTO_UDP then Inr (handle_udp udp_input src payload payload_len s)
                      else if protocol = IP_PROTO_TCP then tcp_input src payload payload_len s
                      else Inr s)"

definition net_handle_packet ::
  "nic \<Rightarrow> 'a net_scheme tcp_handler \<Rightarrow> 'a net_scheme udp_handler \<Rightarrow> packet \<Rightarrow> u32 \<Rightarrow> 'a net_scheme \<Rightarrow> 'a net_scheme outcome" where
  "net_handle_packet dev tcp_input udp_input pkt len s =
     (if len < 14 then Inr s
      else let ethertype = ntohs (get16 pkt 12)
           in if ethertype = ETH_TYPE_ARP then Inr (handle_arp dev pkt len s)
              else if ethertype = ETH_TYPE_IPV4 then handle_ipv4 dev tcp_input udp_input pkt len s
              else Inr s)"

section \<open>Sending\<close>

type_synonym 's poller = "'s \<Rightarrow> 's outcome"

fun arp_wait :: "'a net_scheme poller \<Rightarrow> ipv4 \<Rightarrow> nat \<Rightarrow> 'a net_scheme \<Rightarrow> ('a net_scheme \<times> mac) outcome" where
  "arp_wait poll ip 0 s = Inr (s, MAC_ZERO)"
| "arp_wait poll ip (Suc n) s =
     and_then (poll s)
       (\<lambda>s. let cached = arp_lookup ip s
            in if cached \<noteq> MAC_ZERO then Inr (s, cached) else arp_wait poll ip n s)"

fun arp_attempts :: "nic \<Rightarrow> 'a net_scheme poller \<Rightarrow> ipv4 \<Rightarrow> u8 list \<Rightarrow> nat \<Rightarrow> 'a net_scheme \<Rightarrow> ('a net_scheme \<times> mac) outcome" where
  "arp_attempts dev poll ip req 0 s = Inr (s, MAC_ZERO)"
| "arp_attempts dev poll ip req (Suc n) s =
     and_then (arp_wait poll ip 100000 (fst (nic_send dev req s)))
       (\<lambda>(s, cached). if cached \<noteq> MAC_ZERO then Inr (s, cached) else arp_attempts dev poll ip req n s)"

definition arp_resolve :: "nic \<Rightarrow> 'a net_scheme poller \<Rightarrow> ipv4 \<Rightarrow> 'a net_scheme \<Rightarrow> ('a net_scheme \<times> mac) outcome" where
  "arp_resolve dev poll ip s =
     (let cached = arp_lookup ip s
      in if cached \<noteq> MAC_ZERO then Inr (s, cached)
         else let req = eth_header MAC_BROADCAST (local_mac s) (htons ETH_TYPE_ARP)
                    @ arp_header (htons 1) (htons ETH_TYPE_IPV4) 6 4 (htons ARP_REQUEST)
                        (local_mac s) (local_ip s) MAC_ZERO ip
              in arp_attempts dev poll ip req 3 s)"

definition send_ip ::
  "nic \<Rightarrow> 'a net_scheme poller \<Rightarrow> ipv4 \<Rightarrow> u8 \<Rightarrow> u8 list \<Rightarrow> 'a net_scheme \<Rightarrow> ('a net_scheme \<times> bool) outcome" where
  "send_ip dev poll dst protocol payload s =
     (let payload_len = of_nat (length payload) :: u32; total = 14 + 20 + payload_len
      in if total > MAX_PACKET then Inr (s, False)
         else let next_hop = (if dst AND netmask s \<noteq> local_ip s AND netmask s then gateway_ip s else dst)
              in and_then (arp_resolve dev poll next_hop s)
                   (\<lambda>(s, dst_mac).
                      if dst_mac = MAC_ZERO then Inr (s, False)
                      else let pkt = eth_header dst_mac (local_mac s) (htons ETH_TYPE_IPV4)
                             @ ip_header20 (htons (20 + ucast payload_len)) (htons (ip_id_counter s)) (htons 0x4000)
                                 protocol (local_ip s) dst
                             @ payload;
                               s = s\<lparr>ip_id_counter := ip_id_counter s + 1\<rparr>
                           in Inr (nic_send dev pkt s)))"

definition send_frame :: "nic \<Rightarrow> u8 list \<Rightarrow> 'a net_scheme \<Rightarrow> 'a net_scheme \<times> bool" where
  "send_frame dev data s = nic_send dev data s"

definition set_ip :: "ipv4 \<Rightarrow> 'a net_scheme \<Rightarrow> 'a net_scheme" where "set_ip ip s = s\<lparr>local_ip := ip\<rparr>"
definition set_gateway :: "ipv4 \<Rightarrow> 'a net_scheme \<Rightarrow> 'a net_scheme" where "set_gateway gw s = s\<lparr>gateway_ip := gw\<rparr>"
definition set_netmask :: "ipv4 \<Rightarrow> 'a net_scheme \<Rightarrow> 'a net_scheme" where "set_netmask nm s = s\<lparr>netmask := nm\<rparr>"
definition set_dns :: "ipv4 \<Rightarrow> 'a net_scheme \<Rightarrow> 'a net_scheme" where "set_dns dns s = s\<lparr>dns_server := dns\<rparr>"
definition get_ip :: "'a net_scheme \<Rightarrow> ipv4" where "get_ip s = local_ip s"
definition get_gateway :: "'a net_scheme \<Rightarrow> ipv4" where "get_gateway s = gateway_ip s"
definition get_dns :: "'a net_scheme \<Rightarrow> ipv4" where "get_dns s = dns_server s"
definition get_mac :: "'a net_scheme \<Rightarrow> mac" where "get_mac s = local_mac s"

section \<open>The cache as a map\<close>

text \<open>
  The cache always has 32 entries, and no address is cached twice.  What it promises to its
  clients is that of a bounded map: a lookup after an insertion finds the inserted address,
  and every other address unless its entry was given up.
\<close>

definition arp_hit :: "ipv4 \<Rightarrow> 'a net_scheme \<Rightarrow> nat \<Rightarrow> bool" where
  "arp_hit ip s i \<longleftrightarrow> arp_valid (arp_cache s ! i) \<and> arp_ip (arp_cache s ! i) = ip"

definition arp_ok :: "'a net_scheme \<Rightarrow> bool" where
  "arp_ok s \<longleftrightarrow> length (arp_cache s) = 32
     \<and> (\<forall>ip. \<forall>i < 32. \<forall>j < 32. arp_hit ip s i \<longrightarrow> arp_hit ip s j \<longrightarrow> i = j)"

definition arp_map :: "'a net_scheme \<Rightarrow> ipv4 \<Rightarrow> mac option" where
  "arp_map s ip = map_option (\<lambda>i. arp_mac (arp_cache s ! i)) (find (arp_hit ip s) [0..<32])"

lemma arp_find: "find (\<lambda>i. arp_valid (arp_cache s ! i) \<and> arp_ip (arp_cache s ! i) = ip) [0..<ARP_CACHE_SIZE] = find (arp_hit ip s) [0..<32]"
  unfolding ARP_CACHE_SIZE_def by (rule arg_cong [of _ _ "\<lambda>P. find P _"]) (simp add: arp_hit_def fun_eq_iff)

lemma arp_lookup_map: "arp_lookup ip s = (case arp_map s ip of Some m \<Rightarrow> m | None \<Rightarrow> MAC_ZERO)"
  unfolding arp_lookup_def arp_find arp_map_def by (cases "find (arp_hit ip s) [0..<32]") simp_all

lemma find_hit:
  assumes "arp_ok s" "i < 32" "arp_hit ip s i"
  shows "find (arp_hit ip s) [0..<32] = Some i"
proof -
  have "\<not> arp_hit ip s j" if "j < i" for j
    using assms that less_trans [OF that assms(2)] unfolding arp_ok_def by blast
  then show ?thesis using assms(2,3) by (simp only: find_upt_Some) simp
qed

lemma arp_map_hit: "arp_ok s \<Longrightarrow> i < 32 \<Longrightarrow> arp_hit ip s i \<Longrightarrow> arp_map s ip = Some (arp_mac (arp_cache s ! i))"
  unfolding arp_map_def by (simp only: find_hit) simp

lemma arp_map_miss: "(\<And>i. i < 32 \<Longrightarrow> \<not> arp_hit ip s i) \<Longrightarrow> arp_map s ip = None"
  unfolding arp_map_def by (simp only: option.map_disc_iff find_upt_None) blast

text \<open>Replacing one entry by one for \<open>ip\<close>, when no other entry has this address.\<close>

lemma arp_update:
  assumes ok: "arp_ok s" and i: "i < 32" and e: "arp_valid e" "arp_ip e = ip" "arp_mac e = mac"
    and other: "\<And>j. j < 32 \<Longrightarrow> arp_hit ip s j \<Longrightarrow> j = i"
  defines "t \<equiv> s\<lparr>arp_cache := (arp_cache s)[i := e]\<rparr>"
  shows "arp_ok t" and "arp_map t = (\<lambda>q. if arp_hit q s i then None else arp_map s q)(ip \<mapsto> mac)"
proof -
  have len: "length (arp_cache s) = 32" using ok by (simp add: arp_ok_def)
  have hit: "arp_hit q t j = (if j = i then q = ip else arp_hit q s j)" if "j < 32" for q j
    using that i e len by (auto simp: arp_hit_def t_def nth_list_update)
  have mac: "arp_mac (arp_cache t ! j) = (if j = i then mac else arp_mac (arp_cache s ! j))" if "j < 32" for j
    using that i e len by (simp add: t_def nth_list_update)
  show okt: "arp_ok t"
    unfolding arp_ok_def
  proof (intro conjI allI impI)
    show "length (arp_cache t) = 32" using len by (simp add: t_def)
    fix q a b
    assume "a < 32" "b < 32" "arp_hit q t a" "arp_hit q t b"
    then show "a = b" using hit other ok unfolding arp_ok_def by (metis (no_types, lifting))
  qed
  show "arp_map t = (\<lambda>q. if arp_hit q s i then None else arp_map s q)(ip \<mapsto> mac)"
  proof (rule ext)
    fix q
    show "arp_map t q = ((\<lambda>q. if arp_hit q s i then None else arp_map s q)(ip \<mapsto> mac)) q"
    proof (cases "q = ip")
      case True
      then show ?thesis using arp_map_hit [OF okt i] hit [OF i] mac [OF i] by simp
    next
      case ne: False
      show ?thesis
      proof (cases "\<exists>j < 32. arp_hit q s j")
        case True
        then obtain j where j: "j < 32" "arp_hit q s j" by blast
        show ?thesis
        proof (cases "j = i")
          case True
          then have "\<not> arp_hit q t k" if "k < 32" for k
            using that hit [OF that] j ok ne i unfolding arp_ok_def by (metis (no_types, lifting))
          then show ?thesis using arp_map_miss [of q t] ne j True by simp
        next
          case False
          then have "\<not> arp_hit q s i" using ok j i unfolding arp_ok_def by blast
          then show ?thesis using arp_map_hit [OF okt j(1)] arp_map_hit [OF ok j] hit [OF j(1)] mac [OF j(1)] j False ne by simp
        qed
      next
        case False
        then have "arp_map s q = None" "arp_map t q = None" using arp_map_miss hit ne by (metis (no_types, lifting))+
        then show ?thesis using ne by simp
      qed
    qed
  qed
qed

lemma arp_full:
  assumes ok: "arp_ok s" and full: "\<And>i. i < 32 \<Longrightarrow> arp_valid (arp_cache s ! i)"
  shows "card (dom (arp_map s)) = 32"
proof -
  let ?f = "\<lambda>i. arp_ip (arp_cache s ! i)"
  have hit: "arp_hit (?f i) s i" if "i < 32" for i using full that by (simp add: arp_hit_def)
  have "dom (arp_map s) = ?f ` {..<32}"
  proof (rule set_eqI, rule iffI)
    fix q
    assume "q \<in> dom (arp_map s)"
    then obtain i where "i < 32" "arp_hit q s i" using arp_map_miss [of q s] by (metis domIff)
    then show "q \<in> ?f ` {..<32}" by (auto simp: arp_hit_def)
  next
    fix q
    assume "q \<in> ?f ` {..<32}"
    then show "q \<in> dom (arp_map s)" using arp_map_hit [OF ok] hit by auto
  qed
  moreover have "inj_on ?f {..<32}"
    using ok hit unfolding arp_ok_def inj_on_def by (metis (no_types, lifting) lessThan_iff)
  ultimately show ?thesis by (simp add: card_image)
qed

lemma arp_find_hit:
  assumes "find (arp_hit ip s) [0..<32] = Some i"
  shows "i < 32" "arp_hit ip s i"
  using assms by (auto simp: find_upt_Some)

lemma arp_map_dom: "ip \<in> dom (arp_map s) \<longleftrightarrow> find (arp_hit ip s) [0..<32] \<noteq> None"
  by (auto simp: arp_map_def)

lemma arp_cache_add_cases:
  assumes ok: "arp_ok s"
  obtains (update) i e where "i < 32" "arp_hit ip s i" "arp_valid e" "arp_ip e = ip" "arp_mac e = mac"
      "arp_cache_add ip mac s = s\<lparr>arp_cache := (arp_cache s)[i := e]\<rparr>"
    | (free) i e where "ip \<notin> dom (arp_map s)" "i < 32" "\<not> arp_valid (arp_cache s ! i)" "arp_valid e" "arp_ip e = ip" "arp_mac e = mac"
      "arp_cache_add ip mac s = s\<lparr>arp_cache := (arp_cache s)[i := e]\<rparr>"
    | (evict) e where "ip \<notin> dom (arp_map s)" "\<And>i. i < 32 \<Longrightarrow> arp_valid (arp_cache s ! i)" "arp_valid e" "arp_ip e = ip" "arp_mac e = mac"
      "arp_cache_add ip mac s = s\<lparr>arp_cache := (arp_cache s)[0 := e]\<rparr>"
proof (cases "find (arp_hit ip s) [0..<32]")
  case (Some i)
  note h = arp_find_hit [OF Some]
  have "arp_cache_add ip mac s = s\<lparr>arp_cache := (arp_cache s)[i := (arp_cache s ! i)\<lparr>arp_mac := mac\<rparr>]\<rparr>"
    unfolding arp_cache_add_def arp_find Some by simp
  then show ?thesis using update [of i "(arp_cache s ! i)\<lparr>arp_mac := mac\<rparr>"] h by (simp add: arp_hit_def)
next
  case None
  then have nd: "ip \<notin> dom (arp_map s)" by (simp add: arp_map_dom)
  show ?thesis
  proof (cases "find (\<lambda>i. \<not> arp_valid (arp_cache s ! i)) [0..<32]")
    case (Some i)
    have "arp_cache_add ip mac s = s\<lparr>arp_cache := (arp_cache s)[i := \<lparr>arp_ip = ip, arp_mac = mac, arp_valid = True\<rparr>]\<rparr>"
      using None Some unfolding arp_cache_add_def arp_find by (simp add: ARP_CACHE_SIZE_def)
    moreover have "i < 32" "\<not> arp_valid (arp_cache s ! i)" using Some by (auto simp: find_upt_Some)
    ultimately show ?thesis using free [of i "\<lparr>arp_ip = ip, arp_mac = mac, arp_valid = True\<rparr>"] nd by simp
  next
    case full: None
    have v: "arp_valid (arp_cache s ! i)" if "i < 32" for i using full that by (auto simp: find_upt_None)
    have "arp_cache_add ip mac s = s\<lparr>arp_cache := (arp_cache s)[0 := (arp_cache s ! 0)\<lparr>arp_ip := ip, arp_mac := mac\<rparr>]\<rparr>"
      using None full unfolding arp_cache_add_def arp_find by (simp add: ARP_CACHE_SIZE_def)
    then show ?thesis using evict [of "(arp_cache s ! 0)\<lparr>arp_ip := ip, arp_mac := mac\<rparr>"] nd v by simp
  qed
qed

lemma arp_no_hit: "ip \<notin> dom (arp_map s) \<Longrightarrow> j < 32 \<Longrightarrow> \<not> arp_hit ip s j"
  by (auto simp: arp_map_dom find_upt_None)

lemma arp_none_no_hit: "arp_map s ip = None \<Longrightarrow> j < 32 \<Longrightarrow> \<not> arp_hit ip s j"
  by (rule arp_no_hit) auto

lemma arp_cache_add_ok [simp]: "arp_ok s \<Longrightarrow> arp_ok (arp_cache_add ip mac s)"
  by (rule arp_cache_add_cases [of s ip mac]) (auto intro!: arp_update(1) dest: arp_none_no_hit simp: arp_ok_def [of s])

lemma arp_cache_add_map:
  assumes ok: "arp_ok s" and room: "ip \<in> dom (arp_map s) \<or> card (dom (arp_map s)) < 32"
  shows "arp_map (arp_cache_add ip mac s) = (arp_map s)(ip \<mapsto> mac)"
  using ok
proof (cases rule: arp_cache_add_cases [of s ip mac])
  case (update i e)
  have u: "\<And>j. j < 32 \<Longrightarrow> arp_hit ip s j \<Longrightarrow> j = i" using ok update(1,2) unfolding arp_ok_def by blast
  have "arp_hit q s i \<longleftrightarrow> q = ip" for q using update(2) by (auto simp: arp_hit_def)
  then show ?thesis using arp_update(2) [OF ok update(1,3,4,5) u] update(6) by (simp add: fun_eq_iff)
next
  case (free i e)
  have u: "\<And>j. j < 32 \<Longrightarrow> arp_hit ip s j \<Longrightarrow> j = i" using arp_no_hit [OF free(1)] by blast
  have "\<not> arp_hit q s i" for q using free(3) by (simp add: arp_hit_def)
  then show ?thesis using arp_update(2) [OF ok free(2,4,5,6) u] free(7) by simp
next
  case (evict e)
  then show ?thesis using room arp_full [OF ok evict(2)] by simp
qed

text \<open>A full cache gives up its first entry for a new address.\<close>

lemma arp_cache_add_evicts:
  assumes ok: "arp_ok s" and full: "\<And>i. i < 32 \<Longrightarrow> arp_valid (arp_cache s ! i)" and new: "ip \<notin> dom (arp_map s)"
  shows "arp_map (arp_cache_add ip mac s) = (arp_map s)(arp_ip (arp_cache s ! 0) := None, ip \<mapsto> mac)"
  using ok
proof (cases rule: arp_cache_add_cases [of s ip mac])
  case (update i e)
  then show ?thesis using new arp_no_hit by blast
next
  case (free i e)
  then show ?thesis using full by blast
next
  case (evict e)
  have u: "\<And>j. j < 32 \<Longrightarrow> arp_hit ip s j \<Longrightarrow> j = 0" using arp_no_hit [OF new] by blast
  have "arp_hit q s 0 \<longleftrightarrow> q = arp_ip (arp_cache s ! 0)" for q using full [of 0] by (auto simp: arp_hit_def)
  then show ?thesis using arp_update(2) [OF ok _ evict(3,4,5) u] evict(6) by (simp add: fun_eq_iff)
qed

lemma arp_map_finite: "arp_ok s \<Longrightarrow> finite (dom (arp_map s))"
proof -
  have "dom (arp_map s) \<subseteq> (\<lambda>i. arp_ip (arp_cache s ! i)) ` {..<32}"
  proof
    fix q
    assume "q \<in> dom (arp_map s)"
    then obtain i where "find (arp_hit q s) [0..<32] = Some i" by (auto simp: arp_map_dom)
    then have "i < 32" "arp_hit q s i" by (auto simp: find_upt_Some)
    then show "q \<in> (\<lambda>i. arp_ip (arp_cache s ! i)) ` {..<32}" by (auto simp: arp_hit_def)
  qed
  then show ?thesis by (rule finite_subset) simp
qed

text \<open>
  The contract of a bounded cache, and what its clients get from it: as long as the keys fit,
  a cache that has learnt a list of bindings is the map that the bindings describe, the last
  one for a key winning.
\<close>

locale bounded_cache =
  fixes ok :: "'s \<Rightarrow> bool" and the_map :: "'s \<Rightarrow> 'k \<Rightarrow> 'v option"
    and add :: "'k \<Rightarrow> 'v \<Rightarrow> 's \<Rightarrow> 's" and cap :: nat
  assumes ok_add: "ok s \<Longrightarrow> ok (add k v s)"
    and finite_map: "ok s \<Longrightarrow> finite (dom (the_map s))"
    and map_add: "ok s \<Longrightarrow> k \<in> dom (the_map s) \<or> card (dom (the_map s)) < cap
                    \<Longrightarrow> the_map (add k v s) = (the_map s)(k \<mapsto> v)"
begin

lemma learn_ok: "ok s \<Longrightarrow> ok (fold (\<lambda>(k, v). add k v) bs s)"
  by (induction bs arbitrary: s) (auto simp: ok_add)

lemma learn_map:
  "ok s \<Longrightarrow> card (dom (the_map s) \<union> fst ` set bs) \<le> cap
     \<Longrightarrow> the_map (fold (\<lambda>(k, v). add k v) bs s) = the_map s ++ map_of (rev bs)"
proof (induction bs arbitrary: s)
  case (Cons b bs)
  obtain k v where b: "b = (k, v)" by force
  let ?D = "dom (the_map s)" and ?A = "dom (the_map s) \<union> fst ` set (b # bs)"
  have fin: "finite ?A" using finite_map [OF Cons.prems(1)] by simp
  have "k \<in> ?D \<or> card ?D < cap"
  proof (cases "k \<in> ?D")
    case False
    then have "insert k ?D \<subseteq> ?A" "card (insert k ?D) = Suc (card ?D)"
      using b finite_map [OF Cons.prems(1)] by auto
    then have "Suc (card ?D) \<le> card ?A" using card_mono [OF fin, of "insert k ?D"] by simp
    then show ?thesis using Cons.prems(2) by linarith
  qed simp
  then have m: "the_map (add k v s) = (the_map s)(k \<mapsto> v)" by (rule map_add [OF Cons.prems(1)])
  have "dom (the_map (add k v s)) \<union> fst ` set bs = ?A" using m b by auto
  then have "the_map (fold (\<lambda>(k, v). add k v) bs (add k v s)) = the_map (add k v s) ++ map_of (rev bs)"
    using Cons.IH [OF ok_add [OF Cons.prems(1)]] Cons.prems(2) by simp
  then show ?case using b m by (simp add: map_add_upd_left [symmetric] map_add_def fun_eq_iff split: option.splits)
qed simp

end

interpretation arp: bounded_cache arp_ok arp_map arp_cache_add 32
  by unfold_locales (simp_all add: arp_cache_add_map arp_map_finite)

text \<open>
  C26: the ARP cache is a map.  As long as there are at most 32 addresses, after learning a
  list of bindings a lookup gives the hardware address that was learnt last for the address,
  or what it gave before when there is none, and the cache stays well formed.
\<close>

theorem arp_cache_learns:
  assumes "arp_ok s" and "card (dom (arp_map s) \<union> fst ` set bs) \<le> 32"
  shows "arp_ok (fold (\<lambda>(ip, mac). arp_cache_add ip mac) bs s)
    \<and> arp_lookup ip (fold (\<lambda>(ip, mac). arp_cache_add ip mac) bs s)
        = (case map_of (rev bs) ip of Some mac \<Rightarrow> mac | None \<Rightarrow> arp_lookup ip s)"
  using arp.learn_ok [OF assms(1), of bs] arp.learn_map [OF assms]
  by (simp add: arp_lookup_map map_add_def split: option.splits)

definition no_net :: net where
  "no_net = \<lparr>tx = [], polls = 0, local_ip = make_ip 10 0 2 15, gateway_ip = make_ip 10 0 2 2,
     netmask = make_ip 255 255 255 0, dns_server = make_ip 10 0 2 3, local_mac = [2, 0, 0, 0, 0, 1],
     ip_id_counter = 1, arp_cache = replicate 32 \<lparr>arp_ip = 0, arp_mac = MAC_ZERO, arp_valid = False\<rparr>\<rparr>"

lemma no_net_ok: "arp_ok no_net" "arp_map no_net = (\<lambda>_. None)"
  by (simp add: arp_ok_def arp_hit_def no_net_def) (rule ext, rule arp_map_miss, simp add: arp_hit_def no_net_def)

theorem arp_cache_learns_witness:
  "arp_lookup 7 (fold (\<lambda>(ip, mac). arp_cache_add ip mac) [(7, [1]), (9, [2]), (7, [3])] no_net) = [3]"
proof -
  have d: "dom (arp_map no_net) = {}" by (simp add: no_net_ok(2))
  show ?thesis using arp_cache_learns [of no_net "[(7, [1]), (9, [2]), (7, [3])]" 7] by (simp add: no_net_ok(1) d card_insert_if)
qed

section \<open>Ping\<close>

lemma le_bytes2_zero: "le_bytes 2 (0 :: u16) = [0, 0]"
  by (simp add: eval_nat_numeral)

lemma ip_header20_shape:
  obtains cs where "ip_header20 len ident ff p src dst = ipv4_header 0x45 0 len ident ff 64 p cs src dst"
    and "inet_checksum (ipv4_header 0x45 0 len ident ff 64 p cs src dst) = 0"
proof -
  let ?cs = "inet_checksum (ipv4_header 0x45 0 len ident ff 64 p 0 src dst)"
  let ?xs = "[0x45, 0] @ le_bytes 2 len @ le_bytes 2 ident @ le_bytes 2 ff @ [64, p]"
  let ?ys = "le_bytes 4 src @ le_bytes 4 dst"
  have h: "ipv4_header 0x45 0 len ident ff 64 p c src dst = ?xs @ le_bytes 2 c @ ?ys" for c
    by (simp add: ipv4_header_def)
  have "inet_checksum (?xs @ le_bytes 2 (inet_checksum (?xs @ [0, 0] @ ?ys)) @ ?ys) = 0"
    by (rule checksum_filled) simp_all
  then have "inet_checksum (ipv4_header 0x45 0 len ident ff 64 p ?cs src dst) = 0"
    unfolding h le_bytes2_zero by simp
  then show ?thesis using that [of ?cs] by (simp add: ip_header20_def)
qed

lemma ip_header20_length [simp]: "length (ip_header20 len ident ff p src dst) = 20"
  by (simp add: ip_header20_def ipv4_header_def Let_def)

lemma get_bytes_length [simp]: "length (get_bytes p i n) = n"
  by (simp add: get_bytes_def)

lemma echo_reply_shape:
  assumes "4 \<le> n" "n \<le> 65536"
  shows "inet_checksum (echo_reply p n) = 0" "length (echo_reply p n) = n"
    "take 2 (echo_reply p n) = [ICMP_ECHO_REPLY, p 1]" "drop 4 (echo_reply p n) = get_bytes p 4 (n - 4)"
proof -
  show "inet_checksum (echo_reply p n) = 0"
    using checksum_filled [of "[ICMP_ECHO_REPLY, p 1]" "get_bytes p 4 (n - 4)"] assms by (simp add: echo_reply_def)
qed (use assms in \<open>simp_all add: echo_reply_def Let_def\<close>)

text \<open>What \<open>handle_ipv4\<close> reads of a packet, and when it goes on to the protocol's handler.\<close>

definition hdr_len :: "packet \<Rightarrow> nat" where "hdr_len pkt = 4 * unat (pkt 14 AND 0x0F)"
definition total_len :: "packet \<Rightarrow> nat" where "total_len pkt = unat (ntohs (get16 pkt (14 + 2)))"

definition is_ipv4 :: "packet \<Rightarrow> u32 \<Rightarrow> bool" where
  "is_ipv4 pkt len \<longleftrightarrow> 34 \<le> unat len \<and> ntohs (get16 pkt 12) = ETH_TYPE_IPV4 \<and> total_len pkt + 14 \<le> unat len"

lemma hdr_len_lt: "hdr_len pkt \<le> 60"
proof -
  have "(0x0F :: u8) = mask 4" by (simp add: mask_eq_exp_minus_1)
  then have "unat (pkt 14 AND 0x0F) = unat (pkt 14) mod 16" using unat_field [of 0 "pkt 14" 4] by simp
  then show ?thesis by (simp add: hdr_len_def)
qed

lemma total_len_lt: "total_len pkt \<le> 65535"
  using unat_lt_u16 [of "ntohs (get16 pkt (14 + 2))"] unfolding total_len_def by linarith

lemma unat_hdr_len: "unat ((ucast (pkt 14 AND 0x0F) :: u32) * 4) = hdr_len pkt"
  using hdr_len_lt [of pkt] by (simp add: unat_word_ariths unat_ucast_up hdr_len_def mult.commute)

lemma unat_total_len: "unat (ucast (ntohs (get16 pkt (14 + 2))) :: u32) = total_len pkt"
  by (simp add: total_len_def unat_ucast_up)

lemma net_handle_ipv4:
  assumes "is_ipv4 pkt len"
  shows "net_handle_packet dev tcp udp pkt len s =
     (let payload = \<lambda>k. pkt (14 + hdr_len pkt + k);
          payload_len = of_nat (total_len pkt) - of_nat (hdr_len pkt);
          src = get32 pkt (14 + 12)
      in if pkt (14 + 9) = IP_PROTO_ICMP then handle_icmp dev src payload payload_len s
         else if pkt (14 + 9) = IP_PROTO_UDP then Inr (handle_udp udp src payload payload_len s)
         else if pkt (14 + 9) = IP_PROTO_TCP then tcp src payload payload_len s
         else Inr s)"
proof -
  have l: "34 \<le> unat len" "total_len pkt + 14 \<le> unat len" "ntohs (get16 pkt 12) = ETH_TYPE_IPV4"
    using assms by (simp_all add: is_ipv4_def)
  have a: "\<not> len < 14" "\<not> len < 14 + 20" using l(1) by (simp_all add: word_less_nat_alt)
  have "unat (len - 14) = unat len - 14" using l(1) by (simp add: unat_sub_if')
  then have b: "\<not> (ucast (ntohs (get16 pkt (14 + 2))) :: u32) > len - 14"
    using l(2) by (simp add: word_less_nat_alt unat_total_len [simplified])
  have c: "(ucast (pkt 14 AND 0x0F) :: u32) * 4 = of_nat (hdr_len pkt)"
    by (metis unat_hdr_len of_nat_unat ucast_id)
  have d: "(ucast (ntohs (get16 pkt (14 + 2))) :: u32) = of_nat (total_len pkt)"
    by (metis unat_total_len of_nat_unat ucast_id)
  have e: "ETH_TYPE_IPV4 \<noteq> ETH_TYPE_ARP" by (simp add: ETH_TYPE_IPV4_def ETH_TYPE_ARP_def)
  show ?thesis
    unfolding net_handle_packet_def handle_ipv4_def Let_def using a b e l(3)
    by (simp only: if_False if_True unat_hdr_len) (simp only: c d simp_thms if_True)
qed

lemma handle_icmp_overrun:
  "handle_icmp dev src p n s = Inl e \<longleftrightarrow> e = Overrun \<and> p 0 = ICMP_ECHO_REQUEST \<and> 4294967296 - 34 \<le> unat n"
proof -
  have m: "MAX_PACKET = 1518" by (simp add: MAX_PACKET_def MTU_def)
  have n: "unat n \<le> 4294967295" using unat_lt_u32 [of n] by linarith
  then have t: "unat (14 + 20 + n) = (if unat n + 34 < 4294967296 then unat n + 34 else unat n + 34 - 4294967296)"
    by (simp add: unat_word_ariths le_mod_geq)
  have "(\<not> n < 8 \<and> \<not> 14 + 20 + n > MAX_PACKET \<and> unat n > unat MAX_PACKET - (14 + 20)) \<longleftrightarrow> 4294967296 - 34 \<le> unat n"
    unfolding word_less_nat_alt t m using n by simp linarith
  then show ?thesis unfolding handle_icmp_def Let_def by (auto split: if_splits)
qed

lemma payload_len_cases:
  "unat (of_nat (total_len pkt) - of_nat (hdr_len pkt) :: u32)
     = (if hdr_len pkt \<le> total_len pkt then total_len pkt - hdr_len pkt
        else 4294967296 - (hdr_len pkt - total_len pkt))"
  using hdr_len_lt [of pkt] total_len_lt [of pkt]
  by (simp add: unat_sub_if' unat_of_nat take_bit_nat_eq_self) linarith

lemma net_handle_other:
  assumes "\<not> is_ipv4 pkt len"
  shows "\<exists>t. net_handle_packet dev tcp udp pkt len s = Inr t"
proof -
  have "unat (len - 14) = unat len - 14" if "\<not> len < 34" using that by (simp add: word_less_nat_alt unat_sub_if')
  then show ?thesis using assms
    unfolding net_handle_packet_def handle_ipv4_def is_ipv4_def Let_def
    by (auto simp: word_less_nat_alt unat_total_len [simplified])
qed

text \<open>
  C18: what a received packet can do to the stack.  Whatever its bytes and its length are, and
  whatever the state is, handling it ends in a state unless it is an ICMP echo request whose
  IP header claims to be longer than the whole IP packet, by at most 34 bytes: then the
  payload length wraps around, the check against the size of the reply buffer does not see it
  because it wraps around as well, and the payload is copied beyond the buffer.
\<close>

theorem net_handle_packet_overrun:
  assumes "\<And>src p n u. \<exists>v. tcp src p n u = Inr v"
  shows "net_handle_packet dev tcp udp pkt len s = Inl e \<longleftrightarrow>
    e = Overrun \<and> is_ipv4 pkt len \<and> pkt (14 + 9) = IP_PROTO_ICMP \<and> pkt (14 + hdr_len pkt) = ICMP_ECHO_REQUEST
    \<and> total_len pkt < hdr_len pkt \<and> hdr_len pkt \<le> total_len pkt + 34"
proof (cases "is_ipv4 pkt len")
  case True
  have t: "tcp src p n u \<noteq> Inl e" for src p n u using assms [of src p n u] by auto
  have "4294967296 - 34 \<le> unat (of_nat (total_len pkt) - of_nat (hdr_len pkt) :: u32)
      \<longleftrightarrow> total_len pkt < hdr_len pkt \<and> hdr_len pkt \<le> total_len pkt + 34"
    unfolding payload_len_cases using hdr_len_lt [of pkt] total_len_lt [of pkt] by auto
  then show ?thesis
    using True t unfolding net_handle_ipv4 [OF True] Let_def
    by (simp add: handle_icmp_overrun)
next
  case False
  then show ?thesis using net_handle_other [OF False, of dev tcp udp s] by auto
qed

definition quiet_nic :: nic where
  "quiet_nic = \<lparr>confirms = \<lambda>_. True, wire = \<lambda>_ _. None, clock = \<lambda>_ _. 0\<rparr>"

definition bad_ping :: packet where
  "bad_ping i = (if i = 12 then 8 else if i = 14 then 0x4F else if i = 17 then 28 else if i = 23 then 1 else if i = 74 then 8 else 0)"

theorem net_handle_packet_overrun_witness:
  "net_handle_packet quiet_nic (\<lambda>_ _ _ u. Inr u) (\<lambda>_ _ _ _ _ u. u)
     bad_ping 60 no_net = Inl Overrun"
proof -
  have h: "hdr_len bad_ping = 60" by (simp add: hdr_len_def bad_ping_def)
  have t: "total_len bad_ping = 28" by (simp add: total_len_def bad_ping_def ntohs_get16)
  have i: "is_ipv4 bad_ping 60"
    using t by (simp add: is_ipv4_def bad_ping_def ntohs_get16 ETH_TYPE_IPV4_def)
  show ?thesis
    using i h t by (subst net_handle_packet_overrun) (simp_all add: bad_ping_def IP_PROTO_ICMP_def ICMP_ECHO_REQUEST_def)
qed

text \<open>
  C19: ping.  An ICMP echo request in a well formed IPv4 packet (with or without options) that
  fits into a frame is answered by exactly one frame.  Its IP destination is the sender of the
  request and its IP source this host's address; its hardware destination is what the cache has
  for the sender, or else what it has for the gateway (all zeros when it has neither), and its
  hardware source is this host's.  The IP header has the right length and verifies, and the
  echo reply carries the code, the identifier, the sequence number and all data of the request
  and verifies as well.  Nothing else changes but the packet counter.  The destination address of
  the request plays no role: the code does not look at it.
\<close>

theorem ping_answered:
  fixes pkt :: packet and s :: "'a net_scheme"
  defines "n \<equiv> total_len pkt - hdr_len pkt" and "src \<equiv> get32 pkt (14 + 12)"
  defines "dst \<equiv> (if arp_lookup src s = MAC_ZERO then arp_lookup (gateway_ip s) s else arp_lookup src s)"
  assumes "is_ipv4 pkt len" and "pkt (14 + 9) = IP_PROTO_ICMP" and "pkt (14 + hdr_len pkt) = ICMP_ECHO_REQUEST"
    and "hdr_len pkt + 8 \<le> total_len pkt" and "14 + 20 + n \<le> unat MAX_PACKET"
  shows "\<exists>checksum icmp.
    let ip = ipv4_header 0x45 0 (htons (of_nat (20 + n))) (htons (ip_id_counter s)) 0 64 IP_PROTO_ICMP checksum (local_ip s) src
    in net_handle_packet dev tcp udp pkt len s
         = Inr (s\<lparr>ip_id_counter := ip_id_counter s + 1,
                 tx := tx s @ [eth_header dst (local_mac s) (htons ETH_TYPE_IPV4) @ ip @ icmp]\<rparr>)
       \<and> inet_checksum ip = 0 \<and> inet_checksum icmp = 0
       \<and> length icmp = n \<and> take 2 icmp = [ICMP_ECHO_REPLY, pkt (14 + hdr_len pkt + 1)]
       \<and> drop 4 icmp = get_bytes pkt (14 + hdr_len pkt + 4) (n - 4)"
proof -
  let ?w = "of_nat (total_len pkt) - of_nat (hdr_len pkt) :: u32" and ?p = "\<lambda>k. pkt (14 + hdr_len pkt + k)"
  have le: "hdr_len pkt \<le> total_len pkt" using assms(7) by linarith
  have m: "unat MAX_PACKET = 1518" by (simp add: MAX_PACKET_def MTU_def)
  have n: "8 \<le> n" "n \<le> 1484" using assms(7,8) unfolding n_def m by linarith+
  have w: "unat ?w = n" using payload_len_cases [of pkt] le by (simp add: n_def)
  have g: "\<not> ?w < 8" "\<not> 14 + 20 + ?w > MAX_PACKET" "\<not> unat ?w > unat MAX_PACKET - (14 + 20)"
    using n w by (simp_all add: word_less_nat_alt m unat_word_ariths)
  have u: "(ucast ?w :: u16) = of_nat n" using w by (metis of_nat_unat)
  obtain cs where cs: "ip_header20 (htons (of_nat (20 + n))) (htons (ip_id_counter s)) 0 IP_PROTO_ICMP (local_ip s) src
      = ipv4_header 0x45 0 (htons (of_nat (20 + n))) (htons (ip_id_counter s)) 0 64 IP_PROTO_ICMP cs (local_ip s) src"
    "inet_checksum (ipv4_header 0x45 0 (htons (of_nat (20 + n))) (htons (ip_id_counter s)) 0 64 IP_PROTO_ICMP cs (local_ip s) src) = 0"
    by (rule ip_header20_shape)
  have e: "?p 0 = ICMP_ECHO_REQUEST" using assms(6) by simp
  have "net_handle_packet dev tcp udp pkt len s = handle_icmp dev src ?p ?w s"
    unfolding net_handle_ipv4 [OF assms(4)] Let_def src_def using assms(5) by simp
  also have "\<dots> = Inr (fst (nic_send dev (eth_header dst (local_mac s) (htons ETH_TYPE_IPV4)
      @ ip_header20 (htons (20 + of_nat n)) (htons (ip_id_counter s)) 0 IP_PROTO_ICMP (local_ip s) src @ echo_reply ?p n)
      (s\<lparr>ip_id_counter := ip_id_counter s + 1\<rparr>)))"
    unfolding handle_icmp_def Let_def u w [symmetric] dst_def using g e by simp
  also have "\<dots> = Inr (s\<lparr>ip_id_counter := ip_id_counter s + 1,
      tx := tx s @ [eth_header dst (local_mac s) (htons ETH_TYPE_IPV4)
        @ ipv4_header 0x45 0 (htons (of_nat (20 + n))) (htons (ip_id_counter s)) 0 64 IP_PROTO_ICMP cs (local_ip s) src
        @ echo_reply ?p n]\<rparr>)"
    using cs(1) by (simp add: nic_send_def eth_header_def)
  finally show ?thesis
    using cs(2) echo_reply_shape [of n ?p] n unfolding Let_def
    by (intro exI [of _ cs] exI [of _ "echo_reply ?p n"]) (simp add: get_bytes_def add.assoc)
qed

definition good_ping :: packet where
  "good_ping i = (if i = 12 then 8 else if i = 14 then 0x45 else if i = 17 then 28 else if i = 23 then 1
     else if i = 26 then 10 else if i = 28 then 2 else if i = 29 then 2
     else if i = 30 then 10 else if i = 32 then 2 else if i = 33 then 15 else if i = 34 then 8 else if i = 41 then 5 else 0)"

theorem ping_answered_witness:
  "\<exists>frame. net_handle_packet quiet_nic (\<lambda>_ _ _ u. Inr u) (\<lambda>_ _ _ _ _ u. u) good_ping 42 no_net
     = Inr (no_net\<lparr>ip_id_counter := 2, tx := [frame]\<rparr>) \<and> drop 38 frame = [0, 0, 0, 5]"
proof -
  have h: "hdr_len good_ping = 20" by (simp add: hdr_len_def good_ping_def)
  have t: "total_len good_ping = 28" by (simp add: total_len_def good_ping_def ntohs_get16)
  have i: "is_ipv4 good_ping 42" using t by (simp add: is_ipv4_def good_ping_def ntohs_get16 ETH_TYPE_IPV4_def)
  have g: "good_ping 23 = IP_PROTO_ICMP" "good_ping 34 = ICMP_ECHO_REQUEST"
    by (simp_all add: good_ping_def IP_PROTO_ICMP_def ICMP_ECHO_REQUEST_def)
  have l: "arp_lookup ip no_net = MAC_ZERO" for ip using no_net_ok(2) by (simp add: arp_lookup_map)
  have n: "ip_id_counter no_net = 1" "tx no_net = []" "length (local_mac no_net) = 6" by (simp_all add: no_net_def)
  have d: "get_bytes good_ping 38 4 = [0, 0, 0, 5]" by (simp add: get_bytes_def upt_rec good_ping_def)
  obtain cs icmp where
    "net_handle_packet quiet_nic (\<lambda>_ _ _ u. Inr u) (\<lambda>_ _ _ _ _ u. u) good_ping 42 no_net
       = Inr (no_net\<lparr>ip_id_counter := 2, tx := [eth_header MAC_ZERO (local_mac no_net) (htons ETH_TYPE_IPV4)
           @ ipv4_header 0x45 0 (htons (of_nat 28)) (htons 1) 0 64 IP_PROTO_ICMP cs (local_ip no_net) (get32 good_ping 26) @ icmp]\<rparr>)"
    "drop 4 icmp = [0, 0, 0, 5]"
    using ping_answered [where pkt = good_ping and len = 42 and s = no_net and dev = quiet_nic
        and tcp = "\<lambda>_ _ _ u. Inr u" and udp = "\<lambda>_ _ _ _ _ u. u"] i g
    by (auto simp: h t l n d Let_def MAX_PACKET_def MTU_def)
  moreover have "drop 38 (eth_header MAC_ZERO (local_mac no_net) (htons ETH_TYPE_IPV4)
           @ ipv4_header 0x45 0 (htons (of_nat 28)) (htons 1) 0 64 IP_PROTO_ICMP cs (local_ip no_net) (get32 good_ping 26) @ icmp) = drop 4 icmp"
    using n(3) by (simp add: eth_header_def ipv4_header_def MAC_ZERO_def)
  ultimately show ?thesis by metis
qed

section \<open>What the IP layer relies on, and what it keeps\<close>

text \<open>
  The IP layer polls the network while it resolves an address.  If polling keeps an invariant
  of the stack, or ends in one of the crashes \<open>E\<close>, and the invariant allows frames to be sent,
  packets to be numbered and addresses to be cached, then so does sending a packet; and so does
  handling a received frame, if the handlers of TCP and UDP keep it and the frame does not
  overrun the reply buffer or \<open>E\<close> tolerates that.
\<close>

definition malformed_ping :: "packet \<Rightarrow> u32 \<Rightarrow> bool" where
  "malformed_ping pkt len \<longleftrightarrow> is_ipv4 pkt len \<and> pkt (14 + 9) = IP_PROTO_ICMP
     \<and> pkt (14 + hdr_len pkt) = ICMP_ECHO_REQUEST
     \<and> total_len pkt < hdr_len pkt \<and> hdr_len pkt \<le> total_len pkt + 34"

locale net_service =
  fixes dev :: nic and poll :: "'a net_scheme poller" and E :: "crash set" and I :: "'a net_scheme \<Rightarrow> bool"
  assumes poll_keeps: "I s \<Longrightarrow> outcome_ok E I (poll s)"
    and I_tx: "I s \<Longrightarrow> I (s\<lparr>tx := frames\<rparr>)"
    and I_id: "I s \<Longrightarrow> I (s\<lparr>ip_id_counter := c\<rparr>)"
    and I_arp: "I s \<Longrightarrow> I (arp_cache_add ip m s)"
begin

lemma nic_send_keeps: "I s \<Longrightarrow> I (fst (nic_send dev data s))"
  by (simp add: nic_send_def I_tx)

lemma arp_wait_keeps: "I s \<Longrightarrow> outcome_ok E (\<lambda>(t, m). I t) (arp_wait poll ip n s)"
  by (induction n arbitrary: s) (auto simp: Let_def intro!: outcome_ok_then [OF poll_keeps])

lemma arp_attempts_keeps: "I s \<Longrightarrow> outcome_ok E (\<lambda>(t, m). I t) (arp_attempts dev poll ip req n s)"
  by (induction n arbitrary: s) (auto intro!: outcome_ok_then [OF arp_wait_keeps] nic_send_keeps)

lemma arp_resolve_keeps: "I s \<Longrightarrow> outcome_ok E (\<lambda>(t, m). I t) (arp_resolve dev poll ip s)"
  unfolding arp_resolve_def Let_def by (auto intro!: arp_attempts_keeps)

lemma send_ip_keeps: "I s \<Longrightarrow> outcome_ok E (\<lambda>(t, b). I t) (send_ip dev poll dst protocol payload s)"
  unfolding send_ip_def Let_def
  by (auto intro!: outcome_ok_then [OF arp_resolve_keeps] simp: nic_send_def I_tx I_id split: if_splits)

lemma handle_arp_keeps: "I s \<Longrightarrow> I (handle_arp dev pkt len s)"
  unfolding handle_arp_def Let_def by (auto intro!: nic_send_keeps I_arp)

lemma handle_icmp_keeps:
  assumes "I s" and "handle_icmp dev src p n s \<noteq> Inl Overrun \<or> Overrun \<in> E"
  shows "outcome_ok E I (handle_icmp dev src p n s)"
  using assms unfolding handle_icmp_def Let_def by (auto intro!: nic_send_keeps I_id split: if_splits)

lemma net_handle_packet_keeps:
  assumes s: "I s" and safe: "\<not> malformed_ping pkt len \<or> Overrun \<in> E"
    and tcp: "\<And>src p n t. I t \<Longrightarrow> outcome_ok E I (tcp src p n t)"
    and udp: "\<And>src sp dp p n t. I t \<Longrightarrow> I (udp src sp dp p n t)"
  shows "outcome_ok E I (net_handle_packet dev tcp udp pkt len s)"
proof (cases "is_ipv4 pkt len")
  case True
  let ?n = "of_nat (total_len pkt) - of_nat (hdr_len pkt) :: u32"
  have "4294967296 - 34 \<le> unat ?n \<longleftrightarrow> total_len pkt < hdr_len pkt \<and> hdr_len pkt \<le> total_len pkt + 34"
    unfolding payload_len_cases using hdr_len_lt [of pkt] total_len_lt [of pkt] by auto
  then have "pkt (14 + 9) = IP_PROTO_ICMP \<Longrightarrow> outcome_ok E I (handle_icmp dev (get32 pkt (14 + 12)) (\<lambda>k. pkt (14 + hdr_len pkt + k)) ?n s)"
    using safe True by (intro handle_icmp_keeps [OF s]) (auto simp: handle_icmp_overrun malformed_ping_def)
  then show ?thesis unfolding net_handle_ipv4 [OF True] Let_def using s tcp udp
    by (auto simp: handle_udp_def Let_def)
next
  case False
  have l: "unat (len - 14) = unat len - 14" if "\<not> len < 34" using that by (simp add: word_less_nat_alt unat_sub_if')
  have "net_handle_packet dev tcp udp pkt len s \<in> {Inr s, Inr (handle_arp dev pkt len s)}"
    using False l unfolding net_handle_packet_def handle_ipv4_def is_ipv4_def Let_def
    by (auto simp: word_less_nat_alt unat_total_len [simplified])
  then show ?thesis using s handle_arp_keeps by auto
qed

end

section \<open>Sending without waiting\<close>

definition next_hop :: "ipv4 \<Rightarrow> 'a net_scheme \<Rightarrow> ipv4" where
  "next_hop dst s = (if dst AND netmask s \<noteq> local_ip s AND netmask s then gateway_ip s else dst)"

definition route_cached :: "ipv4 \<Rightarrow> 'a net_scheme \<Rightarrow> bool" where
  "route_cached dst s \<longleftrightarrow> arp_lookup (next_hop dst s) s \<noteq> MAC_ZERO"

text \<open>When the next hop is in the cache, sending a packet does not wait for the network: it
  sends at most one frame and numbers it.\<close>

lemma send_ip_cached:
  assumes "route_cached dst s"
  obtains frames c b where "send_ip dev poll dst protocol payload s = Inr (s\<lparr>tx := frames, ip_id_counter := c\<rparr>, b)"
proof -
  have r: "arp_resolve dev poll (next_hop dst s) s = Inr (s, arp_lookup (next_hop dst s) s)"
    using assms by (simp add: arp_resolve_def route_cached_def Let_def)
  have "send_ip dev poll dst protocol payload s = Inr (s, False)
      \<or> (\<exists>pkt. send_ip dev poll dst protocol payload s = Inr (nic_send dev pkt (s\<lparr>ip_id_counter := ip_id_counter s + 1\<rparr>)))"
    unfolding send_ip_def Let_def using assms r by (auto simp: next_hop_def route_cached_def)
  then show ?thesis
  proof
    assume "send_ip dev poll dst protocol payload s = Inr (s, False)"
    then show ?thesis using that [where frames = "tx s" and c = "ip_id_counter s" and b = False] by simp
  next
    assume "\<exists>pkt. send_ip dev poll dst protocol payload s = Inr (nic_send dev pkt (s\<lparr>ip_id_counter := ip_id_counter s + 1\<rparr>))"
    then obtain pkt where "send_ip dev poll dst protocol payload s = Inr (nic_send dev pkt (s\<lparr>ip_id_counter := ip_id_counter s + 1\<rparr>))" ..
    then show ?thesis
      using that [where frames = "tx s" and c = "ip_id_counter s + 1"]
        that [where frames = "tx s @ [pkt]" and c = "ip_id_counter s + 1"]
      by (auto simp: nic_send_def split: if_splits)
  qed
qed

end
