(* ===== verification/Byte_Rings.thy ===== *)
theory Byte_Rings
  imports Kstring
begin

text \<open>
  Byte rings.  The receive buffers of TCP connections (net/tcp.cpp) and of UDP sockets
  (net/socket.cpp) are arrays with a head, a tail and a count that the code fills and empties
  byte by byte, taking indices modulo the size.  This theory has the two loops, the queue of
  bytes that a ring represents, and the contract of a byte queue with what follows from it.
\<close>

fun ring_put :: "u32 \<Rightarrow> u8 list \<Rightarrow> u8 list \<times> u32 \<Rightarrow> u8 list \<times> u32" where
  "ring_put sz [] (buf, head) = (buf, head)"
| "ring_put sz (b # bs) (buf, head) = ring_put sz bs (buf[unat head := b], (head + 1) mod sz)"

fun ring_get :: "u32 \<Rightarrow> nat \<Rightarrow> u8 list \<Rightarrow> u32 \<Rightarrow> u8 list \<times> u32" where
  "ring_get sz 0 buf tail = ([], tail)"
| "ring_get sz (Suc n) buf tail =
     (let (bs, tail') = ring_get sz n buf ((tail + 1) mod sz) in (buf ! unat tail # bs, tail'))"

section \<open>The queue a ring represents\<close>

definition ring_bytes :: "nat \<Rightarrow> u8 list \<Rightarrow> nat \<Rightarrow> nat \<Rightarrow> u8 list" where
  "ring_bytes sz buf tail n = map (\<lambda>i. buf ! ((tail + i) mod sz)) [0..<n]"

definition ring_ok :: "nat \<Rightarrow> u8 list \<Rightarrow> u32 \<Rightarrow> u32 \<Rightarrow> u32 \<Rightarrow> bool" where
  "ring_ok sz buf head tail count \<longleftrightarrow>
     0 < sz \<and> sz < 2147483648 \<and> length buf = sz \<and> unat tail < sz \<and> unat count \<le> sz
     \<and> unat head = (unat tail + unat count) mod sz"

lemma ring_next:
  fixes h szw :: u32
  assumes "unat h < sz" "sz < 2147483648" "unat szw = sz"
  shows "unat ((h + 1) mod szw) = (unat h + 1) mod sz"
proof -
  have "unat (h + 1) = unat h + 1" using assms by (simp add: unat_word_ariths)
  then show ?thesis using assms by (simp add: unat_mod_distrib)
qed

lemma ring_bytes_Suc: "ring_bytes sz buf t (Suc n) = ring_bytes sz buf t n @ [buf ! ((t + n) mod sz)]"
  by (simp add: ring_bytes_def)

lemma ring_bytes_length [simp]: "length (ring_bytes sz buf t n) = n"
  by (simp add: ring_bytes_def)

lemma ring_bytes_Cons:
  assumes "t < sz"
  shows "ring_bytes sz buf t (Suc n) = buf ! t # ring_bytes sz buf ((t + 1) mod sz) n"
proof -
  have "map (\<lambda>i. buf ! ((t + i) mod sz)) [Suc 0..<Suc n] = map (\<lambda>i. buf ! (((t + 1) mod sz + i) mod sz)) [0..<n]"
    by (simp add: map_Suc_upt [symmetric] mod_simps del: upt_Suc)
  then show ?thesis using assms by (simp add: ring_bytes_def upt_conv_Cons del: upt_Suc)
qed

lemma ring_cells_distinct:
  assumes "i < (sz :: nat)" "n < sz" "i < n"
  shows "(t + i) mod sz \<noteq> (t + n) mod sz"
proof
  assume "(t + i) mod sz = (t + n) mod sz"
  then have "sz dvd (t + n) - (t + i)" using assms(3) by (metis mod_eq_dvd_iff_nat add_le_cancel_left less_imp_le_nat)
  then have "sz dvd n - i" by simp
  then show False using assms by (auto dest!: dvd_imp_le)
qed

lemma ring_bytes_update:
  assumes "n < sz" "length buf = sz"
  shows "ring_bytes sz (buf[(t + n) mod sz := b]) t n = ring_bytes sz buf t n"
proof -
  have "(t + n) mod sz \<noteq> (t + i) mod sz" if "i < n" for i
    using ring_cells_distinct [of i sz n t] assms(1) that by simp
  then show ?thesis using assms by (simp add: ring_bytes_def nth_list_update)
qed

lemma ring_put_correct:
  assumes "ring_ok sz buf head tail count" "unat szw = sz" "unat count + length bs \<le> sz"
    and "ring_put szw bs (buf, head) = (buf', head')"
  shows "ring_ok sz buf' head' tail (count + of_nat (length bs))
    \<and> ring_bytes sz buf' (unat tail) (unat (count + of_nat (length bs))) = ring_bytes sz buf (unat tail) (unat count) @ bs"
  using assms
proof (induction bs arbitrary: buf head count)
  case Nil
  then show ?case by simp
next
  case (Cons b bs)
  have ok: "0 < sz" "sz < 2147483648" "length buf = sz" "unat tail < sz" "unat head = (unat tail + unat count) mod sz"
    using Cons.prems(1) by (simp_all add: ring_ok_def)
  have c: "unat count < sz" using Cons.prems(3) by simp
  then have c1: "unat (count + 1) = unat count + 1" using ok(2) by (simp add: unat_word_ariths)
  have h: "unat head < sz" using ok by simp
  let ?buf = "buf[unat head := b]"
  have h1: "unat ((head + 1) mod szw) = (unat tail + unat (count + 1)) mod sz"
    using ring_next [OF h ok(2) Cons.prems(2)] ok(5) c1 by (simp add: mod_simps)
  have ok1: "ring_ok sz ?buf ((head + 1) mod szw) tail (count + 1)"
    using ok c c1 h1 by (simp add: ring_ok_def)
  have b1: "ring_bytes sz ?buf (unat tail) (unat (count + 1)) = ring_bytes sz buf (unat tail) (unat count) @ [b]"
    using ring_bytes_update [OF c ok(3), of "unat tail" b] ok h
    by (simp add: c1 ring_bytes_Suc)
  have e: "count + of_nat (length (b # bs)) = (count + 1) + of_nat (length bs)" by simp
  have len: "unat (count + 1) + length bs \<le> sz" using Cons.prems(3) c1 by simp
  have r: "ring_put szw bs (?buf, (head + 1) mod szw) = (buf', head')" using Cons.prems(4) by simp
  from Cons.IH [OF ok1 Cons.prems(2) len r] show ?case unfolding e b1 by simp
qed

lemma ring_get_correct:
  assumes "ring_ok sz buf head tail count" "unat szw = sz" "n \<le> unat count"
    and "ring_get szw n buf tail = (bs, tail')"
  shows "bs = take n (ring_bytes sz buf (unat tail) (unat count))
    \<and> ring_ok sz buf head tail' (count - of_nat n)
    \<and> ring_bytes sz buf (unat tail') (unat (count - of_nat n)) = drop n (ring_bytes sz buf (unat tail) (unat count))"
  using assms
proof (induction n arbitrary: tail count bs)
  case 0
  then show ?case by simp
next
  case (Suc n)
  have ok: "0 < sz" "sz < 2147483648" "length buf = sz" "unat tail < sz" "unat count \<le> sz"
      "unat head = (unat tail + unat count) mod sz"
    using Suc.prems(1) by (simp_all add: ring_ok_def)
  have c: "0 < unat count" using Suc.prems(3) by simp
  then have c1: "unat (count - 1) = unat count - 1" by (simp add: unat_sub_if')
  let ?t = "(tail + 1) mod szw"
  have t1: "unat ?t = (unat tail + 1) mod sz" by (rule ring_next [OF ok(4,2) Suc.prems(2)])
  obtain m where m: "unat count = Suc m" using c by (cases "unat count") auto
  have ok1: "ring_ok sz buf head ?t (count - 1)"
    using ok c1 t1 m by (simp add: ring_ok_def mod_simps)
  obtain bs' where r: "ring_get szw n buf ?t = (bs', tail')" "bs = buf ! unat tail # bs'"
    using Suc.prems(4) by (auto split: prod.splits)
  have l: "ring_bytes sz buf (unat tail) (unat count) = buf ! unat tail # ring_bytes sz buf (unat ?t) (unat (count - 1))"
    using ring_bytes_Cons [OF ok(4), of buf "unat count - 1"] c c1 t1 by simp
  have e: "count - of_nat (Suc n) = (count - 1) - of_nat n" by simp
  have n: "n \<le> unat (count - 1)" using Suc.prems(3) c1 by simp
  from Suc.IH [OF ok1 Suc.prems(2) n r(1)] show ?case unfolding e l r(2) by simp
qed

section \<open>Byte queues\<close>

text \<open>
  A client of a queue puts chunks and takes bytes in any order; \<open>queue_run\<close> collects what was
  accepted of the chunks and what was taken.
\<close>

datatype 'd queue_op = Put 'd | Take u32

fun queue_run :: "('d \<Rightarrow> 'q \<Rightarrow> 'q) \<Rightarrow> (u32 \<Rightarrow> 'q \<Rightarrow> u8 list \<times> 'q) \<Rightarrow> ('q \<Rightarrow> u8 list) \<Rightarrow> 'd queue_op list \<Rightarrow> 'q
    \<Rightarrow> u8 list \<times> u8 list \<times> 'q" where
  "queue_run put get content [] q = ([], [], q)"
| "queue_run put get content (Put d # ops) q =
     (let q' = put d q; (accepted, taken, r) = queue_run put get content ops q'
      in (drop (length (content q)) (content q') @ accepted, taken, r))"
| "queue_run put get content (Take n # ops) q =
     (let (bs, q') = get n q; (accepted, taken, r) = queue_run put get content ops q'
      in (accepted, bs @ taken, r))"

locale byte_queue =
  fixes ok :: "'q \<Rightarrow> bool" and content :: "'q \<Rightarrow> u8 list" and bytes :: "'d \<Rightarrow> u8 list"
    and put :: "'d \<Rightarrow> 'q \<Rightarrow> 'q" and get :: "u32 \<Rightarrow> 'q \<Rightarrow> u8 list \<times> 'q" and cap :: nat
  assumes ok_put: "ok q \<Longrightarrow> ok (put d q)"
    and content_put: "ok q \<Longrightarrow> content (put d q) = content q @ take (cap - length (content q)) (bytes d)"
    and get_spec: "ok q \<Longrightarrow> get n q = (bs, q') \<Longrightarrow>
      ok q' \<and> bs = take (unat n) (content q) \<and> content q' = drop (unat n) (content q)"
    and bounded: "ok q \<Longrightarrow> length (content q) \<le> cap"
begin

text \<open>First in, first out: what was taken, followed by what is left, is what was there followed
  by what was accepted.\<close>

lemma fifo:
  "ok q \<Longrightarrow> queue_run put get content ops q = (accepted, taken, r)
     \<Longrightarrow> ok r \<and> content q @ accepted = taken @ content r"
proof (induction ops arbitrary: q accepted taken)
  case (Cons p ops)
  show ?case
  proof (cases p)
    case (Put d)
    obtain acc tk where r: "queue_run put get content ops (put d q) = (acc, tk, r)"
      "accepted = drop (length (content q)) (content (put d q)) @ acc" "taken = tk"
      using Cons.prems(2) Put by (auto simp: Let_def split: prod.splits)
    show ?thesis using Cons.IH [OF ok_put [OF Cons.prems(1)] r(1)] r(2,3) content_put [OF Cons.prems(1), of d] by simp
  next
    case (Take n)
    obtain bs q' where g: "get n q = (bs, q')" by force
    obtain tk where r: "queue_run put get content ops q' = (accepted, tk, r)" "taken = bs @ tk"
      using Cons.prems(2) Take g by (auto simp: Let_def split: prod.splits)
    have s: "ok q'" "bs = take (unat n) (content q)" "content q' = drop (unat n) (content q)"
      using get_spec [OF Cons.prems(1) g] by auto
    then have c: "content q = bs @ content q'" by simp
    show ?thesis using Cons.IH [OF s(1) r(1)] r(2) c by simp
  qed
qed simp

end

end
