(* ===== verification/Tcp.thy ===== *)
theory Tcp
  imports Net Byte_Rings
begin

text \<open>
  TCP, src/src/net/tcp.cpp and tcp.h: the connection table, segments and their checksum, the
  state machine of received segments, retransmission, and the operations of \<open>TCP\<close>.

  Sending a segment goes through \<open>Net::send_ip\<close>, which may poll the network while it resolves
  the next hop, and polling hands received segments to \<open>tcp_input\<close> again.  Both are arguments
  here, \<open>send\<close> and \<open>poll\<close>, and every operation continues with the state they return; the
  theory of the whole stack supplies the real ones.
\<close>

section \<open>Connections\<close>

datatype TcpState = CLOSED | LISTEN | SYN_SENT | SYN_RECEIVED | ESTABLISHED | FIN_WAIT_1 | FIN_WAIT_2
  | CLOSE_WAIT | CLOSING | LAST_ACK | TIME_WAIT

definition TCP_BUF_SIZE :: u32 where "TCP_BUF_SIZE = 8192"

record TcpConnection =
  tc_active :: bool
  tc_state :: TcpState
  tc_local_ip :: ipv4
  tc_local_port :: u16
  tc_remote_ip :: ipv4
  tc_remote_port :: u16
  snd_nxt :: u32
  snd_una :: u32
  rcv_nxt :: u32
  rcv_wnd :: u16
  rx_buf :: "u8 list"
  rx_head :: u32
  rx_tail :: u32
  rx_count :: u32
  tx_buf :: "u8 list"
  tx_len :: u32
  tx_seq :: u32
  retransmit_tick :: u64
  retransmit_count :: u8

definition MAX_TCP_CONNECTIONS :: nat where "MAX_TCP_CONNECTIONS = 16"
definition RETRANSMIT_TICKS :: u64 where "RETRANSMIT_TICKS = 200"
definition MAX_RETRANSMITS :: u8 where "MAX_RETRANSMITS = 5"

record tcp = net +
  connections :: "TcpConnection list"
  next_ephemeral_port :: u16

definition conn_at :: "nat \<Rightarrow> 'a tcp_scheme \<Rightarrow> TcpConnection" where
  "conn_at i s = connections s ! i"

definition upd_conn :: "nat \<Rightarrow> (TcpConnection \<Rightarrow> TcpConnection) \<Rightarrow> 'a tcp_scheme \<Rightarrow> 'a tcp_scheme" where
  "upd_conn i f s = s\<lparr>connections := (connections s)[i := f (connections s ! i)]\<rparr>"

type_synonym 's sender = "ipv4 \<Rightarrow> u8 \<Rightarrow> u8 list \<Rightarrow> 's \<Rightarrow> ('s \<times> bool) outcome"

section \<open>Segments\<close>

definition tcp_checksum :: "ipv4 \<Rightarrow> ipv4 \<Rightarrow> u8 list \<Rightarrow> u16" where
  "tcp_checksum src dst seg =
     (let acc = sum_words (le_bytes 4 dst) (sum_words (le_bytes 4 src) 0);
          acc = acc + ucast (htons (ucast IP_PROTO_TCP));
          acc = acc + ucast (htons (of_nat (length seg)))
      in ucast (NOT (fold_carry (sum_words seg acc))))"

definition make_segment :: "TcpConnection \<Rightarrow> u8 \<Rightarrow> u8 list \<Rightarrow> u8 list" where
  "make_segment conn flags data =
     (let hdr = \<lambda>checksum. tcp_header (htons (tc_local_port conn)) (htons (tc_remote_port conn))
                  (htonl (snd_nxt conn)) (htonl (rcv_nxt conn)) (push_bit 4 5) flags
                  (htons (ucast (TCP_BUF_SIZE - rx_count conn))) checksum 0
      in hdr (tcp_checksum (tc_local_ip conn) (tc_remote_ip conn) (hdr 0 @ data)) @ data)"

definition segment_sent :: "u64 \<Rightarrow> u8 \<Rightarrow> u8 list \<Rightarrow> TcpConnection \<Rightarrow> TcpConnection" where
  "segment_sent ticks flags data conn =
     (let data_len = of_nat (length data);
          conn = (if flags AND TCP_SYN \<noteq> 0 then conn\<lparr>snd_nxt := snd_nxt conn + 1\<rparr> else conn);
          conn = (if flags AND TCP_FIN \<noteq> 0 then conn\<lparr>snd_nxt := snd_nxt conn + 1\<rparr> else conn)
      in if data_len > 0
         then let conn = (if data_len \<le> TCP_BUF_SIZE
                then conn\<lparr>tx_buf := data @ drop (length data) (tx_buf conn), tx_len := data_len,
                          tx_seq := snd_nxt conn - data_len,
                          retransmit_tick := ticks + RETRANSMIT_TICKS, retransmit_count := 0\<rparr>
                else conn)
              in conn\<lparr>snd_nxt := snd_nxt conn + data_len\<rparr>
         else conn)"

definition send_tcp_segment ::
  "nic \<Rightarrow> 'a tcp_scheme sender \<Rightarrow> nat \<Rightarrow> u8 \<Rightarrow> u8 list \<Rightarrow> 'a tcp_scheme \<Rightarrow> ('a tcp_scheme \<times> bool) outcome" where
  "send_tcp_segment dev send i flags data s =
     (if length data > unat TCP_BUF_SIZE then Inl Overrun
      else and_then (send (tc_remote_ip (conn_at i s)) IP_PROTO_TCP (make_segment (conn_at i s) flags data) s)
        (\<lambda>(s, ok). if ok then Inr (upd_conn i (segment_sent (get_ticks_net dev s) flags data) s, True) else Inr (s, False)))"

definition send_control ::
  "nic \<Rightarrow> 'a tcp_scheme sender \<Rightarrow> nat \<Rightarrow> u8 \<Rightarrow> 'a tcp_scheme \<Rightarrow> 'a tcp_scheme outcome" where
  "send_control dev send i flags s = and_then (send_tcp_segment dev send i flags [] s) (\<lambda>(s, ok). Inr s)"

section \<open>Retransmission\<close>

definition acked_bytes :: "TcpConnection \<Rightarrow> u32" where
  "acked_bytes conn = (if snd_una conn > tx_seq conn then snd_una conn - tx_seq conn else 0)"

definition retransmit ::
  "nic \<Rightarrow> 'a tcp_scheme sender \<Rightarrow> nat \<Rightarrow> u64 \<Rightarrow> 'a tcp_scheme \<Rightarrow> 'a tcp_scheme outcome" where
  "retransmit dev send i now s =
     (let conn = conn_at i s; acked = acked_bytes conn; remaining = tx_len conn - acked
      in and_then
           (if remaining > 0 \<and> remaining \<le> TCP_BUF_SIZE
            then let saved_nxt = snd_nxt conn
                 in and_then (send_tcp_segment dev send i (TCP_ACK OR TCP_PSH)
                                (take (unat remaining) (drop (unat acked) (tx_buf conn)))
                                (upd_conn i (\<lambda>c. c\<lparr>snd_nxt := snd_una c\<rparr>) s))
                      (\<lambda>(s, ok). Inr (upd_conn i (\<lambda>c. c\<lparr>snd_nxt := saved_nxt\<rparr>) s))
            else Inr s)
           (\<lambda>s. Inr (upd_conn i (\<lambda>c. c\<lparr>retransmit_count := retransmit_count c + 1,
              retransmit_tick := now + RETRANSMIT_TICKS * push_bit (unat (retransmit_count c + 1)) 1\<rparr>) s)))"

fun check_retransmit_from ::
  "nic \<Rightarrow> 'a tcp_scheme sender \<Rightarrow> u64 \<Rightarrow> nat list \<Rightarrow> 'a tcp_scheme \<Rightarrow> 'a tcp_scheme outcome" where
  "check_retransmit_from dev send now [] s = Inr s"
| "check_retransmit_from dev send now (i # is) s =
     (let conn = conn_at i s
      in if \<not> tc_active conn \<or> tc_state conn \<noteq> ESTABLISHED then check_retransmit_from dev send now is s
         else if tx_len conn = 0 then check_retransmit_from dev send now is s
         else if snd_una conn \<ge> tx_seq conn + tx_len conn
         then check_retransmit_from dev send now is (upd_conn i (\<lambda>c. c\<lparr>tx_len := 0\<rparr>) s)
         else if now \<ge> retransmit_tick conn
         then if retransmit_count conn \<ge> MAX_RETRANSMITS
              then check_retransmit_from dev send now is (upd_conn i (\<lambda>c. c\<lparr>tc_state := CLOSED, tc_active := False\<rparr>) s)
              else and_then (retransmit dev send i now s) (check_retransmit_from dev send now is)
         else check_retransmit_from dev send now is s)"

definition check_retransmit :: "nic \<Rightarrow> 'a tcp_scheme sender \<Rightarrow> 'a tcp_scheme \<Rightarrow> 'a tcp_scheme outcome" where
  "check_retransmit dev send s = check_retransmit_from dev send (get_ticks_net dev s) [0..<MAX_TCP_CONNECTIONS] s"

section \<open>Received segments\<close>

fun tcp_match ::
  "ipv4 \<Rightarrow> u16 \<Rightarrow> u16 \<Rightarrow> 'a tcp_scheme \<Rightarrow> nat list \<Rightarrow> nat option \<Rightarrow> nat option \<times> nat option" where
  "tcp_match src src_port dst_port s [] listen_conn = (None, listen_conn)"
| "tcp_match src src_port dst_port s (i # is) listen_conn =
     (let c = conn_at i s
      in if \<not> tc_active c then tcp_match src src_port dst_port s is listen_conn
         else let listen_conn = (if tc_state c = LISTEN \<and> tc_local_port c = dst_port then Some i else listen_conn)
              in if tc_remote_ip c = src \<and> tc_remote_port c = src_port \<and> tc_local_port c = dst_port
                 then (Some i, listen_conn)
                 else tcp_match src src_port dst_port s is listen_conn)"

definition passive_open ::
  "nic \<Rightarrow> 'a tcp_scheme sender \<Rightarrow> ipv4 \<Rightarrow> u16 \<Rightarrow> u16 \<Rightarrow> u32 \<Rightarrow> 'a tcp_scheme \<Rightarrow> 'a tcp_scheme outcome" where
  "passive_open dev send src src_port dst_port seq s =
     (case find (\<lambda>i. \<not> tc_active (conn_at i s)) [0..<MAX_TCP_CONNECTIONS] of
        Some i \<Rightarrow>
          send_control dev send i (TCP_SYN OR TCP_ACK)
            (upd_conn i (\<lambda>c. c\<lparr>tc_active := True, tc_state := SYN_RECEIVED, tc_local_ip := get_ip s,
               tc_local_port := dst_port, tc_remote_ip := src, tc_remote_port := src_port,
               rcv_nxt := seq + 1, snd_nxt := 1000, snd_una := 1000,
               rx_head := 0, rx_tail := 0, rx_count := 0\<rparr>) s)
      | None \<Rightarrow> Inr s)"

definition rx_append :: "packet \<times> u32 \<Rightarrow> TcpConnection \<Rightarrow> TcpConnection" where
  "rx_append seg conn =
     (let (data, data_len) = seg;
          space = TCP_BUF_SIZE - rx_count conn;
          copy = (if data_len < space then data_len else space);
          (buf, head) = ring_put TCP_BUF_SIZE (get_bytes data 0 (unat copy)) (rx_buf conn, rx_head conn)
      in conn\<lparr>rx_buf := buf, rx_head := head, rx_count := rx_count conn + copy, rcv_nxt := rcv_nxt conn + copy\<rparr>)"

definition tcp_established ::
  "nic \<Rightarrow> 'a tcp_scheme sender \<Rightarrow> nat \<Rightarrow> u8 \<Rightarrow> u32 \<Rightarrow> u32 \<Rightarrow> packet \<Rightarrow> u32 \<Rightarrow> 'a tcp_scheme \<Rightarrow> 'a tcp_scheme outcome" where
  "tcp_established dev send i flags seq ack data data_len s =
     (if flags AND TCP_FIN \<noteq> 0
      then send_control dev send i TCP_ACK (upd_conn i (\<lambda>c. c\<lparr>rcv_nxt := seq + 1, tc_state := CLOSE_WAIT\<rparr>) s)
      else let s = (if flags AND TCP_ACK \<noteq> 0 then upd_conn i (\<lambda>c. c\<lparr>snd_una := ack\<rparr>) s else s)
           in if data_len > 0 \<and> seq = rcv_nxt (conn_at i s)
              then send_control dev send i TCP_ACK (upd_conn i (rx_append (data, data_len)) s)
              else Inr s)"

definition tcp_state_machine ::
  "nic \<Rightarrow> 'a tcp_scheme sender \<Rightarrow> nat \<Rightarrow> u8 \<Rightarrow> u32 \<Rightarrow> u32 \<Rightarrow> packet \<Rightarrow> u32 \<Rightarrow> 'a tcp_scheme \<Rightarrow> 'a tcp_scheme outcome" where
  "tcp_state_machine dev send i flags seq ack data data_len s =
     (case tc_state (conn_at i s) of
        SYN_SENT \<Rightarrow>
          if flags AND (TCP_SYN OR TCP_ACK) = TCP_SYN OR TCP_ACK
          then send_control dev send i TCP_ACK
                 (upd_conn i (\<lambda>c. c\<lparr>rcv_nxt := seq + 1, snd_una := ack, tc_state := ESTABLISHED\<rparr>) s)
          else Inr s
      | SYN_RECEIVED \<Rightarrow>
          if flags AND TCP_ACK \<noteq> 0 then Inr (upd_conn i (\<lambda>c. c\<lparr>snd_una := ack, tc_state := ESTABLISHED\<rparr>) s) else Inr s
      | ESTABLISHED \<Rightarrow> tcp_established dev send i flags seq ack data data_len s
      | FIN_WAIT_1 \<Rightarrow>
          if flags AND TCP_ACK \<noteq> 0
          then if flags AND TCP_FIN \<noteq> 0
               then send_control dev send i TCP_ACK
                      (upd_conn i (\<lambda>c. c\<lparr>snd_una := ack, rcv_nxt := seq + 1, tc_state := TIME_WAIT\<rparr>) s)
               else Inr (upd_conn i (\<lambda>c. c\<lparr>snd_una := ack, tc_state := FIN_WAIT_2\<rparr>) s)
          else Inr s
      | FIN_WAIT_2 \<Rightarrow>
          if flags AND TCP_FIN \<noteq> 0
          then send_control dev send i TCP_ACK (upd_conn i (\<lambda>c. c\<lparr>rcv_nxt := seq + 1, tc_state := TIME_WAIT\<rparr>) s)
          else Inr s
      | LAST_ACK \<Rightarrow>
          if flags AND TCP_ACK \<noteq> 0 then Inr (upd_conn i (\<lambda>c. c\<lparr>tc_active := False, tc_state := CLOSED\<rparr>) s) else Inr s
      | _ \<Rightarrow> Inr s)"

definition tcp_input :: "nic \<Rightarrow> 'a tcp_scheme sender \<Rightarrow> ipv4 \<Rightarrow> packet \<Rightarrow> u32 \<Rightarrow> 'a tcp_scheme \<Rightarrow> 'a tcp_scheme outcome" where
  "tcp_input dev send src payload len s =
     (if len < 20 then Inr s
      else let src_port = ntohs (get16 payload 0); dst_port = ntohs (get16 payload 2);
               seq = ntohl (get32 payload 4); ack = ntohl (get32 payload 8); flags = payload 13;
               hdr_len = ucast (drop_bit 4 (payload 12)) * 4 :: u32;
               data_len = len - hdr_len; data = \<lambda>k. payload (unat hdr_len + k);
               (conn, listen_conn) = tcp_match src src_port dst_port s [0..<MAX_TCP_CONNECTIONS] None
           in if conn = None \<and> listen_conn \<noteq> None \<and> flags AND TCP_SYN \<noteq> 0
              then passive_open dev send src src_port dst_port seq s
              else case conn of
                     None \<Rightarrow> Inr s
                   | Some i \<Rightarrow> tcp_state_machine dev send i flags seq ack data data_len s)"

section \<open>Operations\<close>

definition zero_connection :: TcpConnection where
  "zero_connection = \<lparr>tc_active = False, tc_state = CLOSED, tc_local_ip = 0, tc_local_port = 0, tc_remote_ip = 0,
     tc_remote_port = 0, snd_nxt = 0, snd_una = 0, rcv_nxt = 0, rcv_wnd = 0,
     rx_buf = replicate (unat TCP_BUF_SIZE) 0, rx_head = 0, rx_tail = 0, rx_count = 0,
     tx_buf = replicate (unat TCP_BUF_SIZE) 0, tx_len = 0, tx_seq = 0, retransmit_tick = 0, retransmit_count = 0\<rparr>"

definition tcp_init :: "'a tcp_scheme \<Rightarrow> 'a tcp_scheme" where
  "tcp_init s = s\<lparr>connections := replicate MAX_TCP_CONNECTIONS zero_connection\<rparr>"

definition tcp_open :: "'a tcp_scheme \<Rightarrow> 'a tcp_scheme \<times> int" where
  "tcp_open s =
     (case find (\<lambda>i. \<not> tc_active (conn_at i s)) [0..<MAX_TCP_CONNECTIONS] of
        Some i \<Rightarrow> (upd_conn i (\<lambda>c. zero_connection\<lparr>tc_active := True, tc_state := CLOSED, tc_local_ip := get_ip s\<rparr>) s, int i)
      | None \<Rightarrow> (s, -1))"

definition bad_id :: "int \<Rightarrow> bool" where
  "bad_id cid \<longleftrightarrow> cid < 0 \<or> cid \<ge> int MAX_TCP_CONNECTIONS"

definition tcp_close :: "nic \<Rightarrow> 'a tcp_scheme sender \<Rightarrow> int \<Rightarrow> 'a tcp_scheme \<Rightarrow> 'a tcp_scheme outcome" where
  "tcp_close dev send cid s =
     (if bad_id cid then Inr s
      else let i = nat cid; conn = conn_at i s
           in if \<not> tc_active conn then Inr s
              else if tc_state conn = ESTABLISHED
              then and_then (send_control dev send i (TCP_FIN OR TCP_ACK) s)
                     (\<lambda>s. Inr (upd_conn i (\<lambda>c. c\<lparr>tc_state := FIN_WAIT_1\<rparr>) s))
              else if tc_state conn = CLOSE_WAIT
              then and_then (send_control dev send i (TCP_FIN OR TCP_ACK) s)
                     (\<lambda>s. Inr (upd_conn i (\<lambda>c. c\<lparr>tc_state := LAST_ACK\<rparr>) s))
              else Inr (upd_conn i (\<lambda>c. c\<lparr>tc_active := False, tc_state := CLOSED\<rparr>) s))"

definition tcp_bind :: "int \<Rightarrow> u16 \<Rightarrow> 'a tcp_scheme \<Rightarrow> 'a tcp_scheme \<times> int" where
  "tcp_bind cid port s = (if bad_id cid then (s, -1) else (upd_conn (nat cid) (\<lambda>c. c\<lparr>tc_local_port := port\<rparr>) s, 0))"

fun connect_wait :: "'a tcp_scheme poller \<Rightarrow> nat \<Rightarrow> nat \<Rightarrow> 'a tcp_scheme \<Rightarrow> ('a tcp_scheme \<times> int) outcome" where
  "connect_wait poll i 0 s = Inr (s, -1)"
| "connect_wait poll i (Suc n) s =
     and_then (poll s)
       (\<lambda>s. if tc_state (conn_at i s) = ESTABLISHED then Inr (s, 0)
            else if tc_state (conn_at i s) = CLOSED then Inr (s, -1)
            else connect_wait poll i n s)"

definition tcp_connect ::
  "nic \<Rightarrow> 'a tcp_scheme sender \<Rightarrow> 'a tcp_scheme poller \<Rightarrow> int \<Rightarrow> ipv4 \<Rightarrow> u16 \<Rightarrow> 'a tcp_scheme \<Rightarrow> ('a tcp_scheme \<times> int) outcome" where
  "tcp_connect dev send poll cid addr port s =
     (if bad_id cid then Inr (s, -1)
      else let i = nat cid;
               s = upd_conn i (\<lambda>c. c\<lparr>tc_remote_ip := addr, tc_remote_port := port\<rparr>) s;
               s = (if tc_local_port (conn_at i s) = 0
                    then upd_conn i (\<lambda>c. c\<lparr>tc_local_port := next_ephemeral_port s\<rparr>)
                           (s\<lparr>next_ephemeral_port := next_ephemeral_port s + 1\<rparr>)
                    else s);
               s = upd_conn i (\<lambda>c. c\<lparr>snd_nxt := 1000, snd_una := 1000, rcv_nxt := 0, tc_state := SYN_SENT\<rparr>) s
           in and_then (send_control dev send i TCP_SYN s) (connect_wait poll i 500000))"

definition tcp_listen :: "int \<Rightarrow> u16 \<Rightarrow> 'a tcp_scheme \<Rightarrow> 'a tcp_scheme \<times> int" where
  "tcp_listen cid port s =
     (if bad_id cid then (s, -1) else (upd_conn (nat cid) (\<lambda>c. c\<lparr>tc_local_port := port, tc_state := LISTEN\<rparr>) s, 0))"

definition accepted :: "TcpState set \<Rightarrow> nat \<Rightarrow> 'a tcp_scheme \<Rightarrow> nat option" where
  "accepted states l s =
     find (\<lambda>i. i \<noteq> l \<and> tc_active (conn_at i s) \<and> tc_local_port (conn_at i s) = tc_local_port (conn_at l s)
             \<and> tc_state (conn_at i s) \<in> states) [0..<MAX_TCP_CONNECTIONS]"

fun accept_wait :: "'a tcp_scheme poller \<Rightarrow> nat \<Rightarrow> nat \<Rightarrow> 'a tcp_scheme \<Rightarrow> ('a tcp_scheme \<times> int) outcome" where
  "accept_wait poll l 0 s = Inr (s, -1)"
| "accept_wait poll l (Suc n) s =
     and_then (poll s)
       (\<lambda>s. case accepted {ESTABLISHED} l s of
              Some i \<Rightarrow> Inr (s, int i)
            | None \<Rightarrow> accept_wait poll l n s)"

definition tcp_accept :: "'a tcp_scheme poller \<Rightarrow> int \<Rightarrow> 'a tcp_scheme \<Rightarrow> ('a tcp_scheme \<times> int) outcome" where
  "tcp_accept poll listen_id s =
     (if bad_id listen_id then Inr (s, -1)
      else case accepted {ESTABLISHED, SYN_RECEIVED} (nat listen_id) s of
             Some i \<Rightarrow> Inr (s, int i)
           | None \<Rightarrow> accept_wait poll (nat listen_id) 1000000 s)"

fun poll_and_check ::
  "nic \<Rightarrow> 'a tcp_scheme sender \<Rightarrow> 'a tcp_scheme poller \<Rightarrow> nat \<Rightarrow> 'a tcp_scheme \<Rightarrow> 'a tcp_scheme outcome" where
  "poll_and_check dev send poll 0 s = Inr s"
| "poll_and_check dev send poll (Suc n) s =
     and_then (poll s) (\<lambda>s. and_then (check_retransmit dev send s) (poll_and_check dev send poll n))"

function send_chunks ::
  "nic \<Rightarrow> 'a tcp_scheme sender \<Rightarrow> 'a tcp_scheme poller \<Rightarrow> nat \<Rightarrow> u8 list \<Rightarrow> nat \<Rightarrow> 'a tcp_scheme \<Rightarrow> ('a tcp_scheme \<times> int) outcome" where
  "send_chunks dev send poll i data sent s =
     (if data = [] then Inr (s, sint (of_nat sent :: i32))
      else let chunk = take 1460 data
           in and_then (send_tcp_segment dev send i (TCP_ACK OR TCP_PSH) chunk s)
                (\<lambda>(s, ok). if \<not> ok then Inr (s, sint (of_nat sent :: i32))
                           else and_then (poll_and_check dev send poll 10000 s)
                                  (send_chunks dev send poll i (drop 1460 data) (sent + length chunk))))"
  by pat_completeness auto
termination
  by (relation "measure (\<lambda>(dev, send, poll, i, data, sent, s). length data)") auto

declare send_chunks.simps [simp del]

definition tcp_send ::
  "nic \<Rightarrow> 'a tcp_scheme sender \<Rightarrow> 'a tcp_scheme poller \<Rightarrow> int \<Rightarrow> u8 list \<Rightarrow> 'a tcp_scheme \<Rightarrow> ('a tcp_scheme \<times> int) outcome" where
  "tcp_send dev send poll cid data s =
     (if bad_id cid \<or> tc_state (conn_at (nat cid) s) \<noteq> ESTABLISHED then Inr (s, -1)
      else send_chunks dev send poll (nat cid) data 0 s)"

text \<open>The wait of \<open>recv\<close> ends with \<open>True\<close> when the connection is gone and nothing is left to read.\<close>

fun recv_wait ::
  "nic \<Rightarrow> 'a tcp_scheme sender \<Rightarrow> 'a tcp_scheme poller \<Rightarrow> nat \<Rightarrow> nat \<Rightarrow> 'a tcp_scheme \<Rightarrow> ('a tcp_scheme \<times> bool) outcome" where
  "recv_wait dev send poll i 0 s = Inr (s, False)"
| "recv_wait dev send poll i (Suc n) s =
     (if rx_count (conn_at i s) \<noteq> 0 then Inr (s, False)
      else and_then (poll s) (\<lambda>s. and_then (check_retransmit dev send s)
        (\<lambda>s. if tc_state (conn_at i s) \<noteq> ESTABLISHED \<and> tc_state (conn_at i s) \<noteq> CLOSE_WAIT
             then Inr (s, rx_count (conn_at i s) = 0)
             else recv_wait dev send poll i n s)))"

definition rx_take :: "u32 \<Rightarrow> TcpConnection \<Rightarrow> u8 list \<times> TcpConnection" where
  "rx_take len conn =
     (let copy = (if rx_count conn < len then rx_count conn else len);
          (bs, tail) = ring_get TCP_BUF_SIZE (unat copy) (rx_buf conn) (rx_tail conn)
      in (bs, conn\<lparr>rx_tail := tail, rx_count := rx_count conn - copy\<rparr>))"

definition tcp_recv ::
  "nic \<Rightarrow> 'a tcp_scheme sender \<Rightarrow> 'a tcp_scheme poller \<Rightarrow> int \<Rightarrow> u32 \<Rightarrow> 'a tcp_scheme \<Rightarrow> ('a tcp_scheme \<times> int \<times> u8 list) outcome" where
  "tcp_recv dev send poll cid len s =
     (if bad_id cid then Inr (s, -1, [])
      else and_then (recv_wait dev send poll (nat cid) 1000000 s)
        (\<lambda>(s, gone). if gone then Inr (s, 0, [])
           else let (bs, conn) = rx_take len (conn_at (nat cid) s)
                in Inr (upd_conn (nat cid) (\<lambda>_. conn) s, int (length bs), bs)))"

definition tcp_get_state :: "int \<Rightarrow> 'a tcp_scheme \<Rightarrow> TcpState" where
  "tcp_get_state cid s = (if bad_id cid then CLOSED else tc_state (conn_at (nat cid) s))"

section \<open>Well-formed connection tables\<close>

definition conn_ok :: "TcpConnection \<Rightarrow> bool" where
  "conn_ok c \<longleftrightarrow> ring_ok 8192 (rx_buf c) (rx_head c) (rx_tail c) (rx_count c)
     \<and> length (tx_buf c) = 8192 \<and> unat (tx_len c) \<le> 8192"

definition tcp_ok :: "'a tcp_scheme \<Rightarrow> bool" where
  "tcp_ok s \<longleftrightarrow> length (connections s) = 16 \<and> (\<forall>c \<in> set (connections s). conn_ok c)"

definition rx_data :: "TcpConnection \<Rightarrow> u8 list" where
  "rx_data c = ring_bytes 8192 (rx_buf c) (unat (rx_tail c)) (unat (rx_count c))"

lemma TCP_BUF_SIZE_nat [simp]: "unat TCP_BUF_SIZE = 8192"
  by (simp add: TCP_BUF_SIZE_def)

lemma conn_ok_at: "tcp_ok s \<Longrightarrow> i < 16 \<Longrightarrow> conn_ok (conn_at i s)"
  by (simp add: tcp_ok_def conn_at_def)

lemma conn_at_upd [simp]: "tcp_ok s \<Longrightarrow> i < 16 \<Longrightarrow> conn_at i (upd_conn i f s) = f (conn_at i s)"
  by (simp add: tcp_ok_def conn_at_def upd_conn_def)

lemma conn_at_upd_other [simp]: "i \<noteq> j \<Longrightarrow> conn_at i (upd_conn j f s) = conn_at i s"
  by (simp add: conn_at_def upd_conn_def)

lemma tcp_ok_upd:
  assumes "tcp_ok s" and "conn_ok (conn_at i s) \<Longrightarrow> conn_ok (f (conn_at i s))"
  shows "tcp_ok (upd_conn i f s)"
proof (cases "i < 16")
  case True
  then have "conn_ok (f (conn_at i s))" using assms conn_ok_at by blast
  then show ?thesis using assms(1) set_update_subset_insert [of "connections s" i "f (conn_at i s)"]
    by (auto simp: tcp_ok_def upd_conn_def conn_at_def)
next
  case False
  then show ?thesis using assms(1) by (simp add: tcp_ok_def upd_conn_def list_update_beyond)
qed

lemma rx_append_copy:
  assumes "conn_ok c"
  defines "space \<equiv> TCP_BUF_SIZE - rx_count c"
  shows "unat (if n < space then n else space) = min (unat n) (8192 - unat (rx_count c))"
proof -
  have "unat (rx_count c) \<le> 8192" using assms(1) by (simp add: conn_ok_def ring_ok_def)
  then have "unat space = 8192 - unat (rx_count c)" by (simp add: space_def TCP_BUF_SIZE_def unat_sub_if')
  then show ?thesis by (simp add: word_less_nat_alt)
qed

lemma get_bytes_take: "take m (get_bytes p i n) = get_bytes p i (min m n)"
  by (cases "m \<le> n") (simp_all add: get_bytes_def take_map min_def)

lemma rx_append_correct:
  assumes ok: "conn_ok c"
  shows "conn_ok (rx_append (data, n) c)
    \<and> rx_data (rx_append (data, n) c) = rx_data c @ take (8192 - length (rx_data c)) (get_bytes data 0 (unat n))
    \<and> unat (rcv_nxt (rx_append (data, n) c) - rcv_nxt c) = length (rx_data (rx_append (data, n) c)) - length (rx_data c)"
proof -
  let ?copy = "if n < TCP_BUF_SIZE - rx_count c then n else TCP_BUF_SIZE - rx_count c"
  let ?bs = "get_bytes data 0 (unat ?copy)"
  have r: "ring_ok 8192 (rx_buf c) (rx_head c) (rx_tail c) (rx_count c)" using ok by (simp add: conn_ok_def)
  then have cnt: "unat (rx_count c) \<le> 8192" by (simp add: ring_ok_def)
  have cp: "unat ?copy = min (unat n) (8192 - unat (rx_count c))" by (rule rx_append_copy [OF ok])
  then have fit: "unat (rx_count c) + length ?bs \<le> 8192" using cnt by simp
  obtain buf head where p: "ring_put TCP_BUF_SIZE ?bs (rx_buf c, rx_head c) = (buf, head)" by force
  have l: "of_nat (length ?bs) = ?copy" by simp
  have a: "rx_append (data, n) c
      = c\<lparr>rx_buf := buf, rx_head := head, rx_count := rx_count c + ?copy, rcv_nxt := rcv_nxt c + ?copy\<rparr>"
    using p by (simp add: rx_append_def Let_def)
  note q = ring_put_correct [OF r TCP_BUF_SIZE_nat fit p, unfolded l]
  have t: "?bs = take (8192 - length (rx_data c)) (get_bytes data 0 (unat n))"
    unfolding get_bytes_take cp rx_data_def ring_bytes_length by (simp add: min.commute)
  have d: "rx_data (rx_append (data, n) c) = rx_data c @ ?bs"
    unfolding rx_data_def a using q by simp
  have "conn_ok (rx_append (data, n) c)" using q ok unfolding conn_ok_def a by simp
  moreover have "unat (rcv_nxt (rx_append (data, n) c) - rcv_nxt c) = length ?bs" unfolding a by simp
  ultimately show ?thesis using d t by simp
qed

lemma rx_take_correct:
  assumes ok: "conn_ok c" and "rx_take n c = (bs, c')"
  shows "conn_ok c' \<and> bs = take (unat n) (rx_data c) \<and> rx_data c' = drop (unat n) (rx_data c)"
proof -
  let ?copy = "if rx_count c < n then rx_count c else n"
  have r: "ring_ok 8192 (rx_buf c) (rx_head c) (rx_tail c) (rx_count c)" using ok by (simp add: conn_ok_def)
  have cp: "unat ?copy = min (unat (rx_count c)) (unat n)" by (simp add: word_less_nat_alt)
  obtain tail where g: "ring_get TCP_BUF_SIZE (unat ?copy) (rx_buf c) (rx_tail c) = (bs, tail)"
    and c': "c' = c\<lparr>rx_tail := tail, rx_count := rx_count c - ?copy\<rparr>"
    using assms(2) by (auto simp: rx_take_def Let_def split: prod.splits)
  have l: "of_nat (unat ?copy) = ?copy" by simp
  have "unat ?copy \<le> unat (rx_count c)" by (simp add: cp)
  note q = ring_get_correct [OF r TCP_BUF_SIZE_nat this g, unfolded l]
  have len: "length (rx_data c) = unat (rx_count c)" by (simp add: rx_data_def)
  have m: "take (unat ?copy) (rx_data c) = take (unat n) (rx_data c)" "drop (unat ?copy) (rx_data c) = drop (unat n) (rx_data c)"
    using len by (simp_all add: cp min_def)
  show ?thesis using q m ok unfolding c' rx_data_def conn_ok_def by simp
qed

interpretation rxq: byte_queue conn_ok rx_data "\<lambda>(data, n). get_bytes data 0 (unat n)" rx_append rx_take 8192
proof unfold_locales
  fix c and d :: "packet \<times> u32"
  assume c: "conn_ok c"
  obtain data n where d: "d = (data, n)" by force
  show "conn_ok (rx_append d c)"
    "rx_data (rx_append d c) = rx_data c @ take (8192 - length (rx_data c)) (case d of (data, n) \<Rightarrow> get_bytes data 0 (unat n))"
    using rx_append_correct [OF c] d by auto
  show "length (rx_data c) \<le> 8192" using c by (simp add: conn_ok_def ring_ok_def rx_data_def)
next
  fix c n bs c'
  assume "conn_ok c" "rx_take n c = (bs, c')"
  then show "conn_ok c' \<and> bs = take (unat n) (rx_data c) \<and> rx_data c' = drop (unat n) (rx_data c)"
    by (rule rx_take_correct)
qed

section \<open>What TCP relies on, and what it keeps\<close>

text \<open>
  The contract between TCP and the layer below.  An invariant \<open>I\<close> of the whole stack implies
  that the connection table is well formed, and does not depend on more of it; sending an IP
  packet and polling keep it, or end in one of the crashes \<open>E\<close>.  Then every operation of TCP
  keeps it as well and adds no crash of its own.
\<close>

locale ip_service =
  fixes dev :: nic and send :: "'a tcp_scheme sender" and poll :: "'a tcp_scheme poller"
    and E :: "crash set" and I :: "'a tcp_scheme \<Rightarrow> bool"
  assumes send_keeps: "I s \<Longrightarrow> outcome_ok E (\<lambda>(t, b). I t) (send a p d s)"
    and poll_keeps: "I s \<Longrightarrow> outcome_ok E I (poll s)"
    and I_conn: "I s \<Longrightarrow> (\<forall>c. conn_ok c \<longrightarrow> conn_ok (f c)) \<Longrightarrow> I (upd_conn i f s)"
    and I_port: "I s \<Longrightarrow> I (s\<lparr>next_ephemeral_port := port\<rparr>)"
    and I_tcp: "I s \<Longrightarrow> tcp_ok s"
begin

lemma segment_sent_ok: "length data \<le> 8192 \<Longrightarrow> conn_ok c \<Longrightarrow> conn_ok (segment_sent ticks flags data c)"
  by (auto simp: segment_sent_def Let_def conn_ok_def unat_of_nat take_bit_nat_eq_self)

lemma send_tcp_segment_keeps:
  assumes "I s" "length data \<le> 8192"
  shows "outcome_ok E (\<lambda>(t, b). I t) (send_tcp_segment dev send i flags data s)"
  unfolding send_tcp_segment_def using assms
  by (auto intro!: outcome_ok_then [OF send_keeps] I_conn segment_sent_ok)

lemma send_control_keeps: "I s \<Longrightarrow> outcome_ok E I (send_control dev send i flags s)"
  unfolding send_control_def by (rule outcome_ok_then [OF send_tcp_segment_keeps]) auto

lemma conn_ok_fields [simp]:
  "conn_ok (c\<lparr>tc_active := b\<rparr>) = conn_ok c" "conn_ok (c\<lparr>tc_state := st\<rparr>) = conn_ok c"
  "conn_ok (c\<lparr>tc_local_ip := ip\<rparr>) = conn_ok c" "conn_ok (c\<lparr>tc_local_port := p\<rparr>) = conn_ok c"
  "conn_ok (c\<lparr>tc_remote_ip := ip\<rparr>) = conn_ok c" "conn_ok (c\<lparr>tc_remote_port := p\<rparr>) = conn_ok c"
  "conn_ok (c\<lparr>snd_nxt := w\<rparr>) = conn_ok c" "conn_ok (c\<lparr>snd_una := w\<rparr>) = conn_ok c"
  "conn_ok (c\<lparr>rcv_nxt := w\<rparr>) = conn_ok c" "conn_ok (c\<lparr>retransmit_tick := t\<rparr>) = conn_ok c"
  "conn_ok (c\<lparr>retransmit_count := n\<rparr>) = conn_ok c"
  by (simp_all add: conn_ok_def)

lemma conn_ok_fresh: "conn_ok c \<Longrightarrow> conn_ok (c\<lparr>rx_head := 0, rx_tail := 0, rx_count := 0\<rparr>)"
  "conn_ok c \<Longrightarrow> conn_ok (c\<lparr>tx_len := 0\<rparr>)" "conn_ok zero_connection"
  by (simp_all add: conn_ok_def ring_ok_def zero_connection_def)

lemma retransmit_keeps: "I s \<Longrightarrow> outcome_ok E I (retransmit dev send i now s)"
  unfolding retransmit_def Let_def
  by (rule outcome_ok_then [of _ I], auto intro!: I_conn outcome_ok_then [OF send_tcp_segment_keeps] simp: word_le_nat_alt)

lemma check_retransmit_from_keeps: "I s \<Longrightarrow> outcome_ok E I (check_retransmit_from dev send now is s)"
proof (induction "is" arbitrary: s)
  case (Cons i "is")
  have u: "I (upd_conn i (\<lambda>c. c\<lparr>tx_len := 0\<rparr>) s)" "I (upd_conn i (\<lambda>c. c\<lparr>tc_state := CLOSED, tc_active := False\<rparr>) s)"
    using Cons.prems by (auto intro!: I_conn conn_ok_fresh)
  have "outcome_ok E I (and_then (retransmit dev send i now s) (check_retransmit_from dev send now is))"
    by (rule outcome_ok_then [OF retransmit_keeps [OF Cons.prems] Cons.IH])
  then show ?case using Cons.IH [OF Cons.prems] Cons.IH [OF u(1)] Cons.IH [OF u(2)] by (simp add: Let_def)
qed simp

lemma check_retransmit_keeps: "I s \<Longrightarrow> outcome_ok E I (check_retransmit dev send s)"
  unfolding check_retransmit_def by (rule check_retransmit_from_keeps)

lemma passive_open_keeps: "I s \<Longrightarrow> outcome_ok E I (passive_open dev send src sp dp seq s)"
  unfolding passive_open_def
  by (auto intro!: send_control_keeps I_conn conn_ok_fresh split: option.split)

lemma rx_append_ok: "\<forall>c. conn_ok c \<longrightarrow> conn_ok (rx_append (data, n) c)"
  using rx_append_correct by blast

lemma tcp_established_keeps: "I s \<Longrightarrow> outcome_ok E I (tcp_established dev send i flags seq ack data n s)"
  unfolding tcp_established_def Let_def by (auto intro!: send_control_keeps I_conn rx_append_ok)

lemma tcp_state_machine_keeps: "I s \<Longrightarrow> outcome_ok E I (tcp_state_machine dev send i flags seq ack data n s)"
  unfolding tcp_state_machine_def
  by (cases "tc_state (conn_at i s)") (auto intro!: send_control_keeps I_conn tcp_established_keeps)

lemma tcp_input_keeps: "I s \<Longrightarrow> outcome_ok E I (tcp_input dev send src payload len s)"
  unfolding tcp_input_def Let_def
  by (auto intro!: passive_open_keeps tcp_state_machine_keeps split: prod.split option.split)

lemma tcp_close_keeps: "I s \<Longrightarrow> outcome_ok E I (tcp_close dev send cid s)"
  unfolding tcp_close_def Let_def by (auto intro!: outcome_ok_then [OF send_control_keeps] I_conn)

lemma connect_wait_keeps: "I s \<Longrightarrow> outcome_ok E (\<lambda>(t, r). I t) (connect_wait poll i n s)"
  by (induction n arbitrary: s) (auto intro!: outcome_ok_then [OF poll_keeps])

lemma tcp_connect_keeps: "I s \<Longrightarrow> outcome_ok E (\<lambda>(t, r). I t) (tcp_connect dev send poll cid addr port s)"
  unfolding tcp_connect_def Let_def
  by (auto intro!: outcome_ok_then [OF send_control_keeps connect_wait_keeps] I_conn I_port)

lemma accept_wait_keeps: "I s \<Longrightarrow> outcome_ok E (\<lambda>(t, r). I t) (accept_wait poll i n s)"
  by (induction n arbitrary: s) (auto intro!: outcome_ok_then [OF poll_keeps] split: option.split)

lemma tcp_accept_keeps: "I s \<Longrightarrow> outcome_ok E (\<lambda>(t, r). I t) (tcp_accept poll cid s)"
  unfolding tcp_accept_def by (auto intro!: accept_wait_keeps split: option.split)

lemma poll_and_check_keeps: "I s \<Longrightarrow> outcome_ok E I (poll_and_check dev send poll n s)"
  by (induction n arbitrary: s) (auto intro!: outcome_ok_then [OF poll_keeps] outcome_ok_then [OF check_retransmit_keeps])

lemma send_chunks_keeps: "I s \<Longrightarrow> outcome_ok E (\<lambda>(t, r). I t) (send_chunks dev send poll i data sent s)"
proof (induction data arbitrary: sent s rule: length_induct)
  case (1 data)
  have "length (drop 1460 data) < length data" if "data \<noteq> []" using that by simp
  then show ?case using 1 unfolding send_chunks.simps [of dev send poll i data sent s] Let_def
    by (auto intro!: outcome_ok_then [OF send_tcp_segment_keeps] outcome_ok_then [OF poll_and_check_keeps])
qed

lemma tcp_send_keeps: "I s \<Longrightarrow> outcome_ok E (\<lambda>(t, r). I t) (tcp_send dev send poll cid data s)"
  unfolding tcp_send_def by (auto intro!: send_chunks_keeps)

lemma recv_wait_keeps: "I s \<Longrightarrow> outcome_ok E (\<lambda>(t, r). I t) (recv_wait dev send poll i n s)"
  by (induction n arbitrary: s) (auto intro!: outcome_ok_then [OF poll_keeps] outcome_ok_then [OF check_retransmit_keeps])

lemma tcp_recv_keeps: "I s \<Longrightarrow> outcome_ok E (\<lambda>(t, r). I t) (tcp_recv dev send poll cid len s)"
proof -
  assume s: "I s"
  have "outcome_ok E (\<lambda>(t, r). I t) (let (bs, conn) = rx_take len (conn_at (nat cid) t)
      in Inr (upd_conn (nat cid) (\<lambda>_. conn) t, int (length bs), bs))" if t: "I t" and c: "\<not> bad_id cid" for t
  proof -
    obtain bs conn where r: "rx_take len (conn_at (nat cid) t) = (bs, conn)" by force
    have "nat cid < 16" using c by (auto simp: bad_id_def MAX_TCP_CONNECTIONS_def)
    then have "conn_ok conn" using rx_take_correct [OF conn_ok_at [OF I_tcp [OF t]] r] by blast
    then show ?thesis using r t I_conn [of t "\<lambda>_. conn"] by simp
  qed
  then show ?thesis unfolding tcp_recv_def using s by (auto intro!: outcome_ok_then [OF recv_wait_keeps])
qed

lemma tcp_open_keeps: "I s \<Longrightarrow> I (fst (tcp_open s))"
  unfolding tcp_open_def by (auto intro!: I_conn conn_ok_fresh split: option.split)

lemma tcp_bind_keeps: "I s \<Longrightarrow> I (fst (tcp_bind cid port s))"
  unfolding tcp_bind_def by (auto intro!: I_conn)

lemma tcp_listen_keeps: "I s \<Longrightarrow> I (fst (tcp_listen cid port s))"
  unfolding tcp_listen_def by (auto intro!: I_conn)

end

end
