(* ===== verification/Tcp_Stream.thy ===== *)
theory Tcp_Stream
  imports Tcp
begin

text \<open>
  What an application sees of a TCP connection: the bytes the peer sent, in order, each once;
  and what the retransmission does to the bytes the peer sees.
\<close>

section \<open>Acknowledging\<close>

lemma segment_sent_ack [simp]: "segment_sent ticks TCP_ACK [] c = c"
  by (simp add: segment_sent_def TCP_ACK_def TCP_SYN_def TCP_FIN_def)

lemma upd_conn_id [simp]: "upd_conn i (\<lambda>c. c) s = s"
  by (simp add: upd_conn_def)

lemma send_ack_cached:
  assumes "route_cached (tc_remote_ip (conn_at i s)) s"
  obtains frames n where "send_control dev (send_ip dev poll) i TCP_ACK s = Inr (s\<lparr>tx := frames, ip_id_counter := n\<rparr>)"
proof -
  obtain frames n b where
    "send_ip dev poll (tc_remote_ip (conn_at i s)) IP_PROTO_TCP (make_segment (conn_at i s) TCP_ACK []) s
       = Inr (s\<lparr>tx := frames, ip_id_counter := n\<rparr>, b)"
    using send_ip_cached [OF assms] .
  then show ?thesis using that by (simp add: send_control_def send_tcp_segment_def upd_conn_def conn_at_def)
qed

lemma arp_lookup_upd [simp]:
  "arp_lookup ip (upd_conn i f s) = arp_lookup ip s"
  "arp_lookup ip (s\<lparr>tx := frames\<rparr>) = arp_lookup ip s"
  "arp_lookup ip (s\<lparr>ip_id_counter := n\<rparr>) = arp_lookup ip s"
  by (simp_all add: arp_lookup_def upd_conn_def cong: option.case_cong)

lemma route_cached_upd [simp]:
  "route_cached ip (upd_conn i f s) = route_cached ip s"
  "route_cached ip (s\<lparr>tx := frames\<rparr>) = route_cached ip s"
  "route_cached ip (s\<lparr>ip_id_counter := n\<rparr>) = route_cached ip s"
  by (simp_all add: route_cached_def next_hop_def) (simp_all add: upd_conn_def)

lemma conn_at_frame [simp]:
  "conn_at i (s\<lparr>tx := frames\<rparr>) = conn_at i s" "conn_at i (s\<lparr>ip_id_counter := n\<rparr>) = conn_at i s"
  by (simp_all add: conn_at_def)

lemma tcp_ok_frame [simp]:
  "tcp_ok (s\<lparr>tx := frames\<rparr>) = tcp_ok s" "tcp_ok (s\<lparr>ip_id_counter := n\<rparr>) = tcp_ok s"
  by (simp_all add: tcp_ok_def)

lemma rx_append_frame [simp]:
  "tc_state (rx_append seg c) = tc_state c" "tc_remote_ip (rx_append seg c) = tc_remote_ip c"
  by (simp_all add: rx_append_def Let_def split: prod.splits)

lemma rx_take_frame:
  "rx_take n c = (bs, c') \<Longrightarrow> tc_state c' = tc_state c \<and> tc_remote_ip c' = tc_remote_ip c \<and> rcv_nxt c' = rcv_nxt c"
  by (auto simp: rx_take_def Let_def split: prod.splits)

section \<open>Delivery\<close>

text \<open>
  What happens to an established connection: segments of the peer arrive, and the application
  reads.
\<close>

datatype rx_event = Segment u8 u32 u32 packet u32 | Read u32

fun tcp_session ::
  "nic \<Rightarrow> 'a tcp_scheme sender \<Rightarrow> nat \<Rightarrow> rx_event list \<Rightarrow> 'a tcp_scheme \<Rightarrow> (u8 list \<times> 'a tcp_scheme) outcome" where
  "tcp_session dev send i [] s = Inr ([], s)"
| "tcp_session dev send i (Segment flags seq ack data n # es) s =
     and_then (tcp_state_machine dev send i flags seq ack data n s) (tcp_session dev send i es)"
| "tcp_session dev send i (Read len # es) s =
     (let (bs, c) = rx_take len (conn_at i s)
      in and_then (tcp_session dev send i es (upd_conn i (\<lambda>_. c) s)) (\<lambda>(out, t). Inr (bs @ out, t)))"

text \<open>A segment without FIN that carries bytes of the peer's stream, which starts at \<open>isn\<close>.\<close>

fun of_stream :: "u32 \<Rightarrow> (nat \<Rightarrow> u8) \<Rightarrow> rx_event \<Rightarrow> bool" where
  "of_stream isn stream (Segment flags seq ack data n) \<longleftrightarrow>
     flags AND TCP_FIN = 0
     \<and> (\<exists>off. seq = isn + of_nat off \<and> off + unat n < 4294967296 \<and> (\<forall>k < unat n. data k = stream (off + k)))"
| "of_stream isn stream (Read n) \<longleftrightarrow> True"

definition receiving :: "u32 \<Rightarrow> nat \<Rightarrow> nat \<Rightarrow> 'a tcp_scheme \<Rightarrow> bool" where
  "receiving isn i m s \<longleftrightarrow> tcp_ok s \<and> tc_state (conn_at i s) = ESTABLISHED
     \<and> route_cached (tc_remote_ip (conn_at i s)) s
     \<and> rcv_nxt (conn_at i s) = isn + of_nat m \<and> m < 4294967296"

lemma stream_offset:
  assumes "isn + of_nat off = (isn + of_nat m :: u32)" "off < 4294967296" "m < 4294967296"
  shows "off = m"
proof -
  have "(of_nat off :: u32) = of_nat m" using assms(1) by simp
  then have "unat (of_nat off :: u32) = unat (of_nat m :: u32)" by simp
  then show ?thesis using assms(2,3) by (simp add: unat_of_nat take_bit_nat_eq_self)
qed

lemma segment_step:
  assumes i: "i < 16" and r: "receiving isn i m s" and seg: "of_stream isn stream (Segment flags seq ack data n)"
  obtains t k where "tcp_state_machine dev (send_ip dev poll) i flags seq ack data n s = Inr t"
    "receiving isn i (m + k) t" "rx_data (conn_at i t) = rx_data (conn_at i s) @ map (\<lambda>j. stream (m + j)) [0..<k]"
proof -
  let ?s = "if flags AND TCP_ACK \<noteq> 0 then upd_conn i (\<lambda>c. c\<lparr>snd_una := ack\<rparr>) s else s"
  let ?c = "conn_at i ?s"
  have ok: "tcp_ok s" and st: "tc_state (conn_at i s) = ESTABLISHED" and m: "m < 4294967296"
    and nx: "rcv_nxt (conn_at i s) = isn + of_nat m" and rc: "route_cached (tc_remote_ip (conn_at i s)) s"
    using r by (auto simp: receiving_def)
  have ok1: "tcp_ok ?s" using ok by (auto intro!: tcp_ok_upd simp: conn_ok_def)
  have c: "rx_data ?c = rx_data (conn_at i s)" "rcv_nxt ?c = isn + of_nat m" "tc_state ?c = ESTABLISHED"
      "tc_remote_ip ?c = tc_remote_ip (conn_at i s)" "route_cached (tc_remote_ip ?c) ?s"
    using ok i st nx rc by (auto simp: rx_data_def)
  have sm: "tcp_state_machine dev (send_ip dev poll) i flags seq ack data n s
      = (if n > 0 \<and> seq = rcv_nxt ?c then send_control dev (send_ip dev poll) i TCP_ACK (upd_conn i (rx_append (data, n)) ?s)
         else Inr ?s)"
    using st seg by (simp add: tcp_state_machine_def tcp_established_def Let_def)
  show ?thesis
  proof (cases "n > 0 \<and> seq = rcv_nxt ?c")
    case True
    obtain off where off: "seq = isn + of_nat off" "off + unat n < 4294967296" "\<And>k. k < unat n \<Longrightarrow> data k = stream (off + k)"
      using seg by auto
    have om: "off = m" using stream_offset [of isn off m] True off c(2) m by simp
    let ?t = "upd_conn i (rx_append (data, n)) ?s"
    have at: "conn_at i ?t = rx_append (data, n) ?c" by (rule conn_at_upd [OF ok1 i])
    note ra = rx_append_correct [OF conn_ok_at [OF ok1 i], of data n]
    let ?k = "min (8192 - length (rx_data ?c)) (unat n)"
    have bytes: "take (8192 - length (rx_data ?c)) (get_bytes data 0 (unat n)) = map (\<lambda>j. stream (m + j)) [0..<?k]"
      unfolding get_bytes_take using off(3) om by (simp add: get_bytes_def)
    have d: "rx_data (conn_at i ?t) = rx_data (conn_at i s) @ map (\<lambda>j. stream (m + j)) [0..<?k]"
      using ra at bytes c(1) by simp
    have "unat (rcv_nxt (conn_at i ?t) - rcv_nxt ?c) = ?k" using ra at bytes by simp
    then have "rcv_nxt (conn_at i ?t) - rcv_nxt ?c = of_nat ?k" by (metis of_nat_unat ucast_id)
    then have "rcv_nxt (conn_at i ?t) = isn + of_nat (m + ?k)" using c(2) by (simp add: algebra_simps)
    moreover have "tcp_ok ?t" using ok1 ra by (auto intro: tcp_ok_upd simp: rx_append_correct)
    moreover have "m + ?k < 4294967296" using off(2) om by linarith
    ultimately have r: "receiving isn i (m + ?k) ?t" using at c by (simp add: receiving_def)
    then have "route_cached (tc_remote_ip (conn_at i ?t)) ?t" by (simp add: receiving_def)
    then obtain frames q where "send_control dev (send_ip dev poll) i TCP_ACK ?t = Inr (?t\<lparr>tx := frames, ip_id_counter := q\<rparr>)"
      using send_ack_cached by blast
    then show ?thesis using that [of "?t\<lparr>tx := frames, ip_id_counter := q\<rparr>" ?k] sm True r d by (simp add: receiving_def)
  next
    case False
    have "receiving isn i (m + 0) ?s" using ok1 c m by (simp add: receiving_def)
    then show ?thesis using that [of ?s 0] sm False c(1) by simp
  qed
qed

lemma session_delivers:
  assumes i: "i < 16"
  shows "receiving isn i m s \<Longrightarrow> (\<forall>e \<in> set es. of_stream isn stream e)
    \<Longrightarrow> \<exists>out t k. tcp_session dev (send_ip dev poll) i es s = Inr (out, t) \<and> receiving isn i (m + k) t
      \<and> out @ rx_data (conn_at i t) = rx_data (conn_at i s) @ map (\<lambda>j. stream (m + j)) [0..<k]"
proof (induction es arbitrary: m s)
  case Nil
  then show ?case by (auto intro: exI [of _ 0])
next
  case (Cons e es)
  show ?case
  proof (cases e)
    case (Segment flags seq ack data n)
    obtain t k where t: "tcp_state_machine dev (send_ip dev poll) i flags seq ack data n s = Inr t"
      "receiving isn i (m + k) t" "rx_data (conn_at i t) = rx_data (conn_at i s) @ map (\<lambda>j. stream (m + j)) [0..<k]"
      using segment_step [OF i Cons.prems(1), of stream flags seq ack data n dev poll] Cons.prems(2) Segment by auto
    obtain out u l where u: "tcp_session dev (send_ip dev poll) i es t = Inr (out, u)" "receiving isn i (m + k + l) u"
      "out @ rx_data (conn_at i u) = rx_data (conn_at i t) @ map (\<lambda>j. stream (m + k + j)) [0..<l]"
      using Cons.IH [OF t(2)] Cons.prems(2) by auto
    have "map (\<lambda>j. stream (m + j)) [0..<k + l] = map (\<lambda>j. stream (m + j)) [0..<k] @ map (\<lambda>j. stream (m + k + j)) [0..<l]"
      by (induction l) (simp_all add: add.assoc)
    then show ?thesis using u t Segment by (intro exI [of _ out] exI [of _ u] exI [of _ "k + l"]) (simp add: add.assoc)
  next
    case (Read len)
    obtain bs c where r: "rx_take len (conn_at i s) = (bs, c)" by force
    have ok: "tcp_ok s" using Cons.prems(1) by (simp add: receiving_def)
    note rt = rx_take_correct [OF conn_ok_at [OF ok i] r] and fr = rx_take_frame [OF r]
    let ?s = "upd_conn i (\<lambda>_. c) s"
    have at: "conn_at i ?s = c" by (rule conn_at_upd [OF ok i])
    have "receiving isn i m ?s"
      using Cons.prems(1) rt fr at by (auto simp: receiving_def intro: tcp_ok_upd)
    then obtain out u l where u: "tcp_session dev (send_ip dev poll) i es ?s = Inr (out, u)" "receiving isn i (m + l) u"
      "out @ rx_data (conn_at i u) = rx_data (conn_at i ?s) @ map (\<lambda>j. stream (m + j)) [0..<l]"
      using Cons.IH [of m ?s] Cons.prems(2) by auto
    have "rx_data (conn_at i s) = bs @ rx_data c" using rt by simp
    then show ?thesis using u r Read at by (intro exI [of _ "bs @ out"] exI [of _ u] exI [of _ l]) simp
  qed
qed

text \<open>
  C9: reliable delivery.  However the peer's segments (without FIN) arrive, lost, repeated, out of order or
  overlapping, and whenever the application reads, the bytes it has read and those waiting in
  the receive ring are together exactly the beginning of the peer's stream, no byte missing,
  repeated or out of place, and the acknowledgement number counts them.  The session never
  crashes.  (The next hop to the peer is in the ARP cache, so that acknowledging does not wait
  for the network, and the stream is shorter than the space of sequence numbers.)
\<close>

theorem tcp_delivers_in_order:
  assumes "i < 16" and "tcp_ok s" and "tc_state (conn_at i s) = ESTABLISHED"
    and "route_cached (tc_remote_ip (conn_at i s)) s" and "rx_count (conn_at i s) = 0"
    and "\<forall>e \<in> set es. of_stream (rcv_nxt (conn_at i s)) stream e"
  shows "\<exists>out t m. tcp_session dev (send_ip dev poll) i es s = Inr (out, t)
    \<and> out @ rx_data (conn_at i t) = map stream [0..<m]
    \<and> rcv_nxt (conn_at i t) = rcv_nxt (conn_at i s) + of_nat m \<and> tcp_ok t"
proof -
  have "receiving (rcv_nxt (conn_at i s)) i 0 s" using assms by (simp add: receiving_def)
  moreover have "rx_data (conn_at i s) = []" using assms(5) by (simp add: rx_data_def ring_bytes_def)
  ultimately show ?thesis
    using session_delivers [OF assms(1) _ assms(6), of 0 s dev poll] by (auto simp: receiving_def)
qed

definition peer :: ipv4 where "peer = make_ip 10 0 2 2"

definition sample_conn :: TcpConnection where
  "sample_conn = zero_connection\<lparr>tc_active := True, tc_state := ESTABLISHED, tc_local_port := 80, tc_remote_ip := peer,
     tc_remote_port := 50000, snd_nxt := 1001, snd_una := 1001, rcv_nxt := 7\<rparr>"

definition sample_tcp :: tcp where
  "sample_tcp = \<lparr>tx = [], polls = 0, local_ip = make_ip 10 0 2 15, gateway_ip = peer, netmask = make_ip 255 255 255 0,
     dns_server = 0, local_mac = [2, 0, 0, 0, 0, 1], ip_id_counter = 1,
     arp_cache = \<lparr>arp_ip = peer, arp_mac = [2, 0, 0, 0, 0, 9], arp_valid = True\<rparr>
       # replicate 31 \<lparr>arp_ip = 0, arp_mac = MAC_ZERO, arp_valid = False\<rparr>,
     connections = replicate 16 sample_conn, next_ephemeral_port = 49152\<rparr>"

lemma sample_tcp_facts:
  "tcp_ok sample_tcp" "conn_at i sample_tcp = sample_conn \<or> 16 \<le> i" "route_cached peer sample_tcp"
proof -
  show "tcp_ok sample_tcp"
    by (simp add: tcp_ok_def sample_tcp_def sample_conn_def zero_connection_def conn_ok_def ring_ok_def)
  show "conn_at i sample_tcp = sample_conn \<or> 16 \<le> i"
    by (auto simp: conn_at_def sample_tcp_def not_le)
  have "arp_lookup peer sample_tcp = [2, 0, 0, 0, 0, 9]"
    by (simp add: arp_lookup_def ARP_CACHE_SIZE_def sample_tcp_def upt_conv_Cons)
  moreover have "next_hop peer sample_tcp = peer" by (simp add: next_hop_def sample_tcp_def)
  ultimately show "route_cached peer sample_tcp" by (simp add: route_cached_def MAC_ZERO_def eval_nat_numeral)
qed

text \<open>The second byte of the stream arrives first, then the first two, and the application reads.\<close>

theorem tcp_delivers_in_order_witness:
  "\<exists>out t m. tcp_session quiet_nic (send_ip quiet_nic Inr) 3
      [Segment TCP_ACK 8 1001 (\<lambda>k. of_nat (k + 1)) 1, Segment TCP_ACK 7 1001 (\<lambda>k. of_nat k) 2, Read 10] sample_tcp = Inr (out, t)
    \<and> out @ rx_data (conn_at 3 t) = map (\<lambda>k. of_nat k) [0..<m]
    \<and> rcv_nxt (conn_at 3 t) = 7 + of_nat m \<and> tcp_ok t"
proof -
  have c: "conn_at 3 sample_tcp = sample_conn" using sample_tcp_facts(2) [of 3] by simp
  have o: "of_stream 7 (\<lambda>k. of_nat k) (Segment TCP_ACK 8 1001 (\<lambda>k. of_nat (k + 1)) 1)"
    "of_stream 7 (\<lambda>k. of_nat k) (Segment TCP_ACK 7 1001 (\<lambda>k. of_nat k) 2)"
    by (simp_all add: TCP_ACK_def TCP_FIN_def) (rule exI [of _ 1] exI [of _ 0], simp)+
  show ?thesis
    using tcp_delivers_in_order [of 3 sample_tcp "[Segment TCP_ACK 8 1001 (\<lambda>k. of_nat (k + 1)) 1, Segment TCP_ACK 7 1001 (\<lambda>k. of_nat k) 2, Read 10]"
        "\<lambda>k. of_nat k" quiet_nic Inr] sample_tcp_facts o
    by (simp add: c sample_conn_def zero_connection_def del: of_stream.simps(1))
qed

section \<open>Retransmission\<close>

text \<open>
  The retransmission buffer holds the last data segment, but \<open>send_tcp_segment\<close> records as its
  sequence number the one that lies the length of the segment before its first byte.
\<close>

lemma data_flags: "(TCP_ACK OR TCP_PSH) AND TCP_SYN = 0" "(TCP_ACK OR TCP_PSH) AND TCP_FIN = 0"
  by (simp_all add: TCP_ACK_def TCP_PSH_def TCP_SYN_def TCP_FIN_def)

lemma data_sent:
  assumes "data \<noteq> []" "length data \<le> 1460"
  shows "segment_sent ticks (TCP_ACK OR TCP_PSH) data c =
    c\<lparr>tx_buf := data @ drop (length data) (tx_buf c), tx_len := of_nat (length data),
      tx_seq := snd_nxt c - of_nat (length data), retransmit_tick := ticks + RETRANSMIT_TICKS, retransmit_count := 0,
      snd_nxt := snd_nxt c + of_nat (length data)\<rparr>"
proof -
  have u: "unat (of_nat (length data) :: u32) = length data" using assms(2) by (simp add: unat_of_nat take_bit_nat_eq_self)
  then have "(of_nat (length data) :: u32) > 0" "of_nat (length data) \<le> TCP_BUF_SIZE"
    using assms by (simp_all add: word_less_nat_alt word_le_nat_alt)
  then show ?thesis by (simp add: segment_sent_def Let_def data_flags)
qed

abbreviation timed_out :: "nat \<Rightarrow> u64 \<Rightarrow> u32 \<Rightarrow> 'a tcp_scheme \<times> bool \<Rightarrow> 'a tcp_scheme outcome" where
  "timed_out i now nxt r \<equiv> (case r of (s, ok) \<Rightarrow>
     Inr (upd_conn i (\<lambda>k. k\<lparr>retransmit_count := retransmit_count k + 1,
            retransmit_tick := now + RETRANSMIT_TICKS * push_bit (unat (retransmit_count k + 1)) 1\<rparr>)
            (upd_conn i (\<lambda>k. k\<lparr>snd_nxt := nxt\<rparr>) s)))"

lemma retransmit_all:
  assumes "acked_bytes (conn_at i s) = 0" "tx_len (conn_at i s) = of_nat n" "0 < n" "n \<le> 1460"
  shows "retransmit dev send i now s =
    and_then (send_tcp_segment dev send i (TCP_ACK OR TCP_PSH) (take n (tx_buf (conn_at i s)))
                (upd_conn i (\<lambda>k. k\<lparr>snd_nxt := snd_una (conn_at i s)\<rparr>) s))
      (timed_out i now (snd_nxt (conn_at i s)))"
proof -
  have un: "unat (of_nat n :: u32) = n" using assms(4) by (simp add: unat_of_nat take_bit_nat_eq_self)
  then have "(of_nat n :: u32) > 0" "(of_nat n :: u32) \<le> TCP_BUF_SIZE"
    using assms(3,4) by (simp_all add: word_less_nat_alt word_le_nat_alt)
  moreover have "upd_conn i (\<lambda>c. c\<lparr>snd_nxt := snd_una c\<rparr>) s = upd_conn i (\<lambda>k. k\<lparr>snd_nxt := snd_una (conn_at i s)\<rparr>) s"
    by (simp add: upd_conn_def conn_at_def)
  ultimately show ?thesis
    using assms(1,2) un
    by (cases "send_tcp_segment dev send i (TCP_ACK OR TCP_PSH) (take n (tx_buf (conn_at i s)))
          (upd_conn i (\<lambda>k. k\<lparr>snd_nxt := snd_una (conn_at i s)\<rparr>) s)")
      (simp_all add: retransmit_def Let_def split: prod.splits)
qed

text \<open>
  C31: retransmission does not do its work.  (1) When all earlier data is acknowledged and one
  data segment is sent and lost, the next check takes it for acknowledged and empties the
  retransmission buffer without sending anything, although its bytes are still outstanding.
  (2) When instead two data segments of the same length are sent and the first is lost, a timeout sends
  the bytes of the second one under the sequence number of the first.
\<close>

theorem retransmission_broken:
  fixes c :: TcpConnection
  assumes "tc_active c" and "tc_state c = ESTABLISHED"
    and "snd_una c = snd_nxt c" and "data \<noteq> []" and "length data = n" and "length data2 = n" and "n \<le> 1460"
    and "unat (snd_nxt c) < 2147483648"
  defines "f \<equiv> TCP_ACK OR TCP_PSH"
  shows "(conn_at i s = segment_sent ticks f data c \<longrightarrow>
      check_retransmit_from dev send now [i] s = Inr (upd_conn i (\<lambda>c. c\<lparr>tx_len := 0\<rparr>) s)
      \<and> snd_nxt (conn_at i s) = snd_una (conn_at i s) + of_nat n)
    \<and> (conn_at i s = segment_sent ticks2 f data2 (segment_sent ticks f data c) \<and> retransmit_tick (conn_at i s) \<le> now \<longrightarrow>
      check_retransmit_from dev send now [i] s =
        and_then (send_tcp_segment dev send i f data2 (upd_conn i (\<lambda>k. k\<lparr>snd_nxt := snd_nxt c\<rparr>) s))
          (timed_out i now (snd_nxt c + of_nat n + of_nat n)))"
proof -
  have d: "data \<noteq> []" "length data \<le> 1460" "data2 \<noteq> []" "length data2 \<le> 1460" "0 < n" using assms by auto
  have un: "unat (of_nat n :: u32) = n" using assms(7) by (simp add: unat_of_nat take_bit_nat_eq_self)
  then have n0: "(of_nat n :: u32) \<noteq> 0" using d(5) by (metis unat_0 less_irrefl)
  have lt: "snd_nxt c < snd_nxt c + of_nat n"
    using un d(5) assms(7,8) by (simp add: word_less_nat_alt unat_word_ariths)
  note s1 = data_sent [OF d(1,2)] and s2 = data_sent [OF d(3,4)]
  show ?thesis
  proof (intro conjI impI)
    assume "conn_at i s = segment_sent ticks f data c"
    then show "check_retransmit_from dev send now [i] s = Inr (upd_conn i (\<lambda>c. c\<lparr>tx_len := 0\<rparr>) s)"
      "snd_nxt (conn_at i s) = snd_una (conn_at i s) + of_nat n"
      using assms(1-3,5) n0 by (simp_all add: f_def s1 Let_def)
  next
    let ?k = "conn_at i s"
    assume a: "?k = segment_sent ticks2 f data2 (segment_sent ticks f data c) \<and> retransmit_tick ?k \<le> now"
    have mr: "\<not> (0 :: u8) \<ge> MAX_RETRANSMITS" by (simp add: MAX_RETRANSMITS_def)
    have k: "tc_active ?k" "tc_state ?k = ESTABLISHED" "tx_len ?k = of_nat n" "tx_seq ?k = snd_nxt c" "snd_una ?k = snd_nxt c"
      "retransmit_count ?k = 0" "retransmit_tick ?k \<le> now" "snd_nxt ?k = snd_nxt c + of_nat n + of_nat n"
      "take n (tx_buf ?k) = data2"
      using a assms(1-3,5,6) by (auto simp: f_def s1 s2)
    have "acked_bytes ?k = 0" using k by (simp add: acked_bytes_def)
    note r = retransmit_all [OF this k(3) d(5) assms(7), of dev send now, unfolded k(5,8,9)]
    have "check_retransmit_from dev send now [i] s = retransmit dev send i now s"
      using k n0 lt mr by (cases "retransmit dev send i now s") (simp_all add: Let_def not_le)
    then show "check_retransmit_from dev send now [i] s =
        and_then (send_tcp_segment dev send i f data2 (upd_conn i (\<lambda>k. k\<lparr>snd_nxt := snd_nxt c\<rparr>) s))
          (timed_out i now (snd_nxt c + of_nat n + of_nat n))"
      unfolding f_def r by simp
  qed
qed

definition sample_lost :: tcp where
  "sample_lost = sample_tcp\<lparr>connections := replicate 16 (segment_sent 0 (TCP_ACK OR TCP_PSH) [4, 5, 6]
     (segment_sent 0 (TCP_ACK OR TCP_PSH) [1, 2, 3] sample_conn))\<rparr>"

theorem retransmission_broken_witness:
  "check_retransmit_from quiet_nic (\<lambda>_ _ _ s. Inr (s, False)) 1000 [3] sample_lost =
     and_then (send_tcp_segment quiet_nic (\<lambda>_ _ _ s. Inr (s, False)) 3 (TCP_ACK OR TCP_PSH) [4, 5, 6]
        (upd_conn 3 (\<lambda>k. k\<lparr>snd_nxt := 1001\<rparr>) sample_lost))
       (timed_out 3 1000 1007)"
proof -
  have c: "snd_una sample_conn = 1001" "snd_nxt sample_conn = 1001" "tc_active sample_conn" "tc_state sample_conn = ESTABLISHED"
    by (simp_all add: sample_conn_def)
  have l: "conn_at 3 sample_lost = segment_sent 0 (TCP_ACK OR TCP_PSH) [4, 5, 6] (segment_sent 0 (TCP_ACK OR TCP_PSH) [1, 2, 3] sample_conn)"
    by (simp add: sample_lost_def conn_at_def)
  have t: "retransmit_tick (conn_at 3 sample_lost) \<le> 1000" by (simp add: l data_sent RETRANSMIT_TICKS_def)
  show ?thesis
    using retransmission_broken [of sample_conn "[1, 2, 3]" 3 "[4, 5, 6]" 3 sample_lost 0 quiet_nic "\<lambda>_ _ _ s. Inr (s, False)" 1000 0] c l t
    by simp
qed

end
