(* ===== verification/Sockets.thy ===== *)
theory Sockets
  imports Tcp
begin

text \<open>
  The socket layer, src/src/net/socket.cpp: the socket table, UDP receive buffers, and the
  operations of \<open>Socket\<close> over TCP and over \<open>Net::send_ip\<close>.  A socket address that the caller
  passes is the memory at its pointer, read like a packet; addresses and bytes that an
  operation writes through a pointer are part of its result.  File descriptors and results are
  integers, and errors are the negative numbers of Linux.
\<close>

section \<open>State\<close>

definition AF_INET :: u32 where "AF_INET = 2"
definition SOCK_STREAM :: u32 where "SOCK_STREAM = 1"
definition SOCK_DGRAM :: u32 where "SOCK_DGRAM = 2"
definition SOCK_RAW :: u32 where "SOCK_RAW = 3"
definition LINUX_EIO :: int where "LINUX_EIO = -5"
definition LINUX_EAGAIN :: int where "LINUX_EAGAIN = -11"
definition LINUX_ENOMEM :: int where "LINUX_ENOMEM = -12"
definition LINUX_EINVAL :: int where "LINUX_EINVAL = -22"
definition LINUX_ENOTSOCK :: int where "LINUX_ENOTSOCK = -88"
definition LINUX_EAFNOSUPPORT :: int where "LINUX_EAFNOSUPPORT = -97"

definition MAX_SOCKETS :: nat where "MAX_SOCKETS = 64"
definition UDP_BUF_SIZE :: u32 where "UDP_BUF_SIZE = 4096"
definition SOCKET_FD_BASE :: int where "SOCKET_FD_BASE = 100"

datatype SockType = ST_NONE | ST_TCP | ST_UDP | ST_RAW

record UdpBuffer =
  ub_data :: "u8 list"
  ub_head :: u32
  ub_tail :: u32
  ub_count :: u32
  last_src_ip :: ipv4
  last_src_port :: u16

record SocketEntry =
  sk_active :: bool
  sk_type :: SockType
  sk_domain :: u32
  sk_local_port :: u16
  sk_remote_ip :: ipv4
  sk_remote_port :: u16
  tcp_conn_id :: int
  udp_buf :: "nat option"

record socks = tcp +
  sockets :: "SocketEntry list"
  next_udp_port :: u16
  udp_bufs :: "UdpBuffer list"

definition zero_socket :: SocketEntry where
  "zero_socket = \<lparr>sk_active = False, sk_type = ST_NONE, sk_domain = 0, sk_local_port = 0, sk_remote_ip = 0,
     sk_remote_port = 0, tcp_conn_id = 0, udp_buf = None\<rparr>"

definition zero_udp :: UdpBuffer where
  "zero_udp = \<lparr>ub_data = replicate (unat UDP_BUF_SIZE) 0, ub_head = 0, ub_tail = 0, ub_count = 0, last_src_ip = 0, last_src_port = 0\<rparr>"

definition sock_at :: "nat \<Rightarrow> 'a socks_scheme \<Rightarrow> SocketEntry" where
  "sock_at i s = sockets s ! i"

definition upd_sock :: "nat \<Rightarrow> (SocketEntry \<Rightarrow> SocketEntry) \<Rightarrow> 'a socks_scheme \<Rightarrow> 'a socks_scheme" where
  "upd_sock i f s = s\<lparr>sockets := (sockets s)[i := f (sockets s ! i)]\<rparr>"

definition udp_at :: "nat \<Rightarrow> 'a socks_scheme \<Rightarrow> UdpBuffer" where
  "udp_at i s = udp_bufs s ! i"

definition upd_udp :: "nat \<Rightarrow> (UdpBuffer \<Rightarrow> UdpBuffer) \<Rightarrow> 'a socks_scheme \<Rightarrow> 'a socks_scheme" where
  "upd_udp i f s = s\<lparr>udp_bufs := (udp_bufs s)[i := f (udp_bufs s ! i)]\<rparr>"

definition fd_to_idx :: "int \<Rightarrow> 'a socks_scheme \<Rightarrow> nat option" where
  "fd_to_idx fd s =
     (let idx = fd - SOCKET_FD_BASE
      in if idx < 0 \<or> idx \<ge> int MAX_SOCKETS then None
         else if \<not> sk_active (sock_at (nat idx) s) then None
         else Some (nat idx))"

section \<open>UDP buffers\<close>

definition udp_append :: "packet \<times> u32 \<Rightarrow> UdpBuffer \<Rightarrow> UdpBuffer" where
  "udp_append seg buf =
     (let (data, len) = seg;
          space = UDP_BUF_SIZE - ub_count buf;
          copy = (if len < space then len else space);
          (bytes, head) = ring_put UDP_BUF_SIZE (get_bytes data 0 (unat copy)) (ub_data buf, ub_head buf)
      in buf\<lparr>ub_data := bytes, ub_head := head, ub_count := ub_count buf + copy\<rparr>)"

definition socket_udp_input :: "ipv4 \<Rightarrow> u16 \<Rightarrow> u16 \<Rightarrow> packet \<Rightarrow> u32 \<Rightarrow> 'a socks_scheme \<Rightarrow> 'a socks_scheme" where
  "socket_udp_input src_ip src_port dst_port data len s =
     (case find (\<lambda>i. sk_active (sock_at i s) \<and> sk_type (sock_at i s) = ST_UDP \<and> sk_local_port (sock_at i s) = dst_port
                   \<and> udp_buf (sock_at i s) \<noteq> None) [0..<MAX_SOCKETS] of
        Some i \<Rightarrow> upd_udp (the (udp_buf (sock_at i s)))
                    (\<lambda>b. (udp_append (data, len) b)\<lparr>last_src_ip := src_ip, last_src_port := src_port\<rparr>) s
      | None \<Rightarrow> s)"

definition udp_take :: "u32 \<Rightarrow> UdpBuffer \<Rightarrow> u8 list \<times> UdpBuffer" where
  "udp_take len buf =
     (let copy = (if ub_count buf < len then ub_count buf else len);
          (bs, tail) = ring_get UDP_BUF_SIZE (unat copy) (ub_data buf) (ub_tail buf)
      in (bs, buf\<lparr>ub_tail := tail, ub_count := ub_count buf - copy\<rparr>))"

section \<open>Operations\<close>

definition socket_init :: "'a socks_scheme \<Rightarrow> 'a socks_scheme" where
  "socket_init s = tcp_init (s\<lparr>sockets := replicate MAX_SOCKETS zero_socket\<rparr>)"

definition socket_create :: "u32 \<Rightarrow> u32 \<Rightarrow> u32 \<Rightarrow> 'a socks_scheme \<Rightarrow> 'a socks_scheme \<times> int" where
  "socket_create domain type protocol s =
     (if domain \<noteq> AF_INET then (s, LINUX_EAFNOSUPPORT)
      else if type \<noteq> SOCK_STREAM \<and> type \<noteq> SOCK_DGRAM \<and> type \<noteq> SOCK_RAW then (s, LINUX_EINVAL)
      else let st = (if type = SOCK_STREAM then ST_TCP else if type = SOCK_DGRAM then ST_UDP else ST_RAW)
           in case find (\<lambda>i. \<not> sk_active (sock_at i s)) [0..<MAX_SOCKETS] of
                None \<Rightarrow> (s, LINUX_ENOMEM)
              | Some i \<Rightarrow>
                  let s = upd_sock i (\<lambda>_. zero_socket\<lparr>sk_active := True, sk_type := st, sk_domain := domain, tcp_conn_id := -1\<rparr>) s
                  in if st = ST_TCP
                     then let (s, cid) = tcp_open s; s = upd_sock i (\<lambda>k. k\<lparr>tcp_conn_id := cid\<rparr>) s
                          in if cid < 0 then (upd_sock i (\<lambda>k. k\<lparr>sk_active := False\<rparr>) s, LINUX_ENOMEM)
                             else (s, SOCKET_FD_BASE + int i)
                     else if st = ST_UDP
                     then (upd_sock i (\<lambda>k. k\<lparr>udp_buf := Some i\<rparr>) (upd_udp i (\<lambda>_. zero_udp) s), SOCKET_FD_BASE + int i)
                     else (s, SOCKET_FD_BASE + int i))"

definition socket_bind :: "int \<Rightarrow> packet \<Rightarrow> u32 \<Rightarrow> 'a socks_scheme \<Rightarrow> 'a socks_scheme \<times> int" where
  "socket_bind fd addr addrlen s =
     (case fd_to_idx fd s of
        None \<Rightarrow> (s, LINUX_ENOTSOCK)
      | Some i \<Rightarrow>
          if addrlen < 16 then (s, LINUX_EINVAL)
          else let s = upd_sock i (\<lambda>k. k\<lparr>sk_local_port := ntohs (get16 addr 2)\<rparr>) s
               in if sk_type (sock_at i s) = ST_TCP
                  then (fst (tcp_bind (tcp_conn_id (sock_at i s)) (sk_local_port (sock_at i s)) s), 0)
                  else (s, 0))"

definition socket_listen :: "int \<Rightarrow> u32 \<Rightarrow> 'a socks_scheme \<Rightarrow> 'a socks_scheme \<times> int" where
  "socket_listen fd backlog s =
     (case fd_to_idx fd s of
        None \<Rightarrow> (s, LINUX_ENOTSOCK)
      | Some i \<Rightarrow>
          if sk_type (sock_at i s) \<noteq> ST_TCP then (s, LINUX_EINVAL)
          else tcp_listen (tcp_conn_id (sock_at i s)) (sk_local_port (sock_at i s)) s)"

definition socket_accept :: "'a socks_scheme poller \<Rightarrow> int \<Rightarrow> 'a socks_scheme \<Rightarrow> ('a socks_scheme \<times> int) outcome" where
  "socket_accept poll fd s =
     (case fd_to_idx fd s of
        None \<Rightarrow> Inr (s, LINUX_ENOTSOCK)
      | Some idx \<Rightarrow>
          if sk_type (sock_at idx s) \<noteq> ST_TCP then Inr (s, LINUX_EINVAL)
          else and_then (tcp_accept poll (tcp_conn_id (sock_at idx s)) s)
            (\<lambda>(s, new_conn).
               if new_conn < 0 then Inr (s, LINUX_EAGAIN)
               else case find (\<lambda>i. \<not> sk_active (sock_at i s)) [0..<MAX_SOCKETS] of
                      None \<Rightarrow> Inr (s, LINUX_ENOMEM)
                    | Some i \<Rightarrow>
                        Inr (upd_sock i (\<lambda>k. k\<lparr>sk_active := True, sk_type := ST_TCP, sk_domain := sk_domain (sock_at idx s),
                               tcp_conn_id := new_conn, sk_local_port := sk_local_port (sock_at idx s)\<rparr>) s,
                             SOCKET_FD_BASE + int i)))"

definition socket_connect ::
  "nic \<Rightarrow> 'a socks_scheme sender \<Rightarrow> 'a socks_scheme poller \<Rightarrow> int \<Rightarrow> packet \<Rightarrow> u32 \<Rightarrow> 'a socks_scheme \<Rightarrow> ('a socks_scheme \<times> int) outcome" where
  "socket_connect dev send poll fd addr addrlen s =
     (case fd_to_idx fd s of
        None \<Rightarrow> Inr (s, LINUX_ENOTSOCK)
      | Some i \<Rightarrow>
          if addrlen < 16 then Inr (s, LINUX_EINVAL)
          else let remote_ip = get32 addr 4; remote_port = ntohs (get16 addr 2);
                   s = upd_sock i (\<lambda>k. k\<lparr>sk_remote_ip := remote_ip, sk_remote_port := remote_port\<rparr>) s
               in if sk_type (sock_at i s) = ST_TCP
                  then tcp_connect dev send poll (tcp_conn_id (sock_at i s)) remote_ip remote_port s
                  else Inr (s, 0))"

definition udp_sendto ::
  "'a socks_scheme sender \<Rightarrow> nat \<Rightarrow> u8 list \<Rightarrow> packet option \<Rightarrow> u32 \<Rightarrow> 'a socks_scheme \<Rightarrow> ('a socks_scheme \<times> int) outcome" where
  "udp_sendto send i buf dest_addr addrlen s =
     (let k = sock_at i s;
          (dst_ip, dst_port) =
            (case dest_addr of
               Some sa \<Rightarrow> if addrlen \<ge> 16 then (get32 sa 4, ntohs (get16 sa 2)) else (sk_remote_ip k, sk_remote_port k)
             | None \<Rightarrow> (sk_remote_ip k, sk_remote_port k));
          s = (if sk_local_port k = 0
               then upd_sock i (\<lambda>k. k\<lparr>sk_local_port := next_udp_port s\<rparr>) (s\<lparr>next_udp_port := next_udp_port s + 1\<rparr>)
               else s);
          len = of_nat (length buf) :: u32;
          hdr = udp_header (htons (sk_local_port (sock_at i s))) (htons dst_port) (htons (8 + ucast len)) 0;
          copy = (if len > MTU - 8 then MTU - 8 else len)
      in and_then (send dst_ip IP_PROTO_UDP (hdr @ take (unat copy) buf) s)
           (\<lambda>(s, ok). Inr (s, if ok then int (unat copy) else LINUX_EIO)))"

definition socket_sendto ::
  "nic \<Rightarrow> 'a socks_scheme sender \<Rightarrow> 'a socks_scheme poller \<Rightarrow> int \<Rightarrow> u8 list \<Rightarrow> packet option \<Rightarrow> u32 \<Rightarrow> 'a socks_scheme
     \<Rightarrow> ('a socks_scheme \<times> int) outcome" where
  "socket_sendto dev send poll fd buf dest_addr addrlen s =
     (case fd_to_idx fd s of
        None \<Rightarrow> Inr (s, LINUX_ENOTSOCK)
      | Some i \<Rightarrow>
          (case sk_type (sock_at i s) of
             ST_TCP \<Rightarrow> tcp_send dev send poll (tcp_conn_id (sock_at i s)) buf s
           | ST_UDP \<Rightarrow> udp_sendto send i buf dest_addr addrlen s
           | _ \<Rightarrow> Inr (s, LINUX_EINVAL)))"

fun udp_wait :: "'a socks_scheme poller \<Rightarrow> nat \<Rightarrow> nat \<Rightarrow> 'a socks_scheme \<Rightarrow> 'a socks_scheme outcome" where
  "udp_wait poll b 0 s = Inr s"
| "udp_wait poll b (Suc n) s =
     (if ub_count (udp_at b s) \<noteq> 0 then Inr s else and_then (poll s) (udp_wait poll b n))"

definition sockaddr_in :: "u16 \<Rightarrow> ipv4 \<Rightarrow> u8 list" where
  "sockaddr_in port ip = le_bytes 2 (ucast AF_INET :: u16) @ le_bytes 2 (htons port) @ le_bytes 4 ip"

text \<open>
  The result of \<open>recvfrom\<close> is the new state, the returned number, the bytes stored in the
  caller's buffer, and the source address if it was stored; \<open>addrlen\<close> is the number at the
  caller's pointer, if both pointers are there.
\<close>

definition udp_recvfrom ::
  "'a socks_scheme poller \<Rightarrow> nat \<Rightarrow> u32 \<Rightarrow> u32 option \<Rightarrow> 'a socks_scheme
     \<Rightarrow> ('a socks_scheme \<times> int \<times> u8 list \<times> u8 list option) outcome" where
  "udp_recvfrom poll i len addrlen s =
     (case udp_buf (sock_at i s) of
        None \<Rightarrow> Inr (s, LINUX_EIO, [], None)
      | Some b \<Rightarrow>
          and_then (udp_wait poll b 1000000 s)
            (\<lambda>s. if ub_count (udp_at b s) = 0 then Inr (s, LINUX_EAGAIN, [], None)
                 else let (bs, ubuf) = udp_take len (udp_at b s);
                          src = (case addrlen of
                                   Some n \<Rightarrow> if n \<ge> 16 then Some (sockaddr_in (last_src_port ubuf) (last_src_ip ubuf)) else None
                                 | None \<Rightarrow> None)
                      in Inr (upd_udp b (\<lambda>_. ubuf) s, int (length bs), bs, src)))"

definition socket_recvfrom ::
  "nic \<Rightarrow> 'a socks_scheme sender \<Rightarrow> 'a socks_scheme poller \<Rightarrow> int \<Rightarrow> u32 \<Rightarrow> u32 option \<Rightarrow> 'a socks_scheme
     \<Rightarrow> ('a socks_scheme \<times> int \<times> u8 list \<times> u8 list option) outcome" where
  "socket_recvfrom dev send poll fd len addrlen s =
     (case fd_to_idx fd s of
        None \<Rightarrow> Inr (s, LINUX_ENOTSOCK, [], None)
      | Some i \<Rightarrow>
          (case sk_type (sock_at i s) of
             ST_TCP \<Rightarrow> and_then (tcp_recv dev send poll (tcp_conn_id (sock_at i s)) len s)
                          (\<lambda>(s, ret, bs). Inr (s, ret, bs, None))
           | ST_UDP \<Rightarrow> udp_recvfrom poll i len addrlen s
           | _ \<Rightarrow> Inr (s, LINUX_EINVAL, [], None)))"

definition socket_setsockopt :: "int \<Rightarrow> 'a socks_scheme \<Rightarrow> int" where
  "socket_setsockopt fd s = (if fd_to_idx fd s = None then LINUX_ENOTSOCK else 0)"

definition socket_getsockopt :: "int \<Rightarrow> 'a socks_scheme \<Rightarrow> int" where
  "socket_getsockopt fd s = (if fd_to_idx fd s = None then LINUX_ENOTSOCK else 0)"

definition socket_getsockname :: "int \<Rightarrow> u32 option \<Rightarrow> 'a socks_scheme \<Rightarrow> int \<times> u8 list option" where
  "socket_getsockname fd addrlen s =
     (case fd_to_idx fd s of
        None \<Rightarrow> (LINUX_ENOTSOCK, None)
      | Some i \<Rightarrow>
          (case addrlen of
             None \<Rightarrow> (LINUX_EINVAL, None)
           | Some n \<Rightarrow> if n < 16 then (LINUX_EINVAL, None)
                       else (0, Some (sockaddr_in (sk_local_port (sock_at i s)) (get_ip s)))))"

definition socket_getpeername :: "int \<Rightarrow> u32 option \<Rightarrow> 'a socks_scheme \<Rightarrow> int \<times> u8 list option" where
  "socket_getpeername fd addrlen s =
     (case fd_to_idx fd s of
        None \<Rightarrow> (LINUX_ENOTSOCK, None)
      | Some i \<Rightarrow>
          (case addrlen of
             None \<Rightarrow> (LINUX_EINVAL, None)
           | Some n \<Rightarrow> if n < 16 then (LINUX_EINVAL, None)
                       else (0, Some (sockaddr_in (sk_remote_port (sock_at i s)) (sk_remote_ip (sock_at i s))))))"

definition socket_close :: "nic \<Rightarrow> 'a socks_scheme sender \<Rightarrow> int \<Rightarrow> 'a socks_scheme \<Rightarrow> ('a socks_scheme \<times> int) outcome" where
  "socket_close dev send fd s =
     (case fd_to_idx fd s of
        None \<Rightarrow> Inr (s, LINUX_ENOTSOCK)
      | Some i \<Rightarrow>
          and_then
            (if sk_type (sock_at i s) = ST_TCP \<and> tcp_conn_id (sock_at i s) \<ge> 0
             then tcp_close dev send (tcp_conn_id (sock_at i s)) s else Inr s)
            (\<lambda>s. Inr (upd_sock i (\<lambda>k. k\<lparr>sk_active := False\<rparr>) s, 0)))"

section \<open>Well-formed socket tables\<close>

definition udp_ok :: "UdpBuffer \<Rightarrow> bool" where
  "udp_ok b \<longleftrightarrow> ring_ok 4096 (ub_data b) (ub_head b) (ub_tail b) (ub_count b)"

definition udp_content :: "UdpBuffer \<Rightarrow> u8 list" where
  "udp_content b = ring_bytes 4096 (ub_data b) (unat (ub_tail b)) (unat (ub_count b))"

definition socks_ok :: "'a socks_scheme \<Rightarrow> bool" where
  "socks_ok s \<longleftrightarrow> length (sockets s) = 64 \<and> length (udp_bufs s) = 64 \<and> (\<forall>b \<in> set (udp_bufs s). udp_ok b)
     \<and> (\<forall>i < 64. \<forall>b. udp_buf (sock_at i s) = Some b \<longrightarrow> b = i)"

lemma UDP_BUF_SIZE_nat [simp]: "unat UDP_BUF_SIZE = 4096"
  by (simp add: UDP_BUF_SIZE_def)

lemma udp_append_correct:
  assumes ok: "udp_ok b"
  shows "udp_ok (udp_append (data, n) b)
    \<and> udp_content (udp_append (data, n) b) = udp_content b @ take (4096 - length (udp_content b)) (get_bytes data 0 (unat n))"
proof -
  let ?copy = "if n < UDP_BUF_SIZE - ub_count b then n else UDP_BUF_SIZE - ub_count b"
  let ?bs = "get_bytes data 0 (unat ?copy)"
  have r: "ring_ok 4096 (ub_data b) (ub_head b) (ub_tail b) (ub_count b)" using ok by (simp add: udp_ok_def)
  then have cnt: "unat (ub_count b) \<le> 4096" by (simp add: ring_ok_def)
  then have "unat (UDP_BUF_SIZE - ub_count b) = 4096 - unat (ub_count b)" by (simp add: UDP_BUF_SIZE_def unat_sub_if')
  then have cp: "unat ?copy = min (unat n) (4096 - unat (ub_count b))" by (simp add: word_less_nat_alt)
  then have fit: "unat (ub_count b) + length ?bs \<le> 4096" using cnt by simp
  obtain buf head where p: "ring_put UDP_BUF_SIZE ?bs (ub_data b, ub_head b) = (buf, head)" by force
  have l: "of_nat (length ?bs) = ?copy" by simp
  have a: "udp_append (data, n) b = b\<lparr>ub_data := buf, ub_head := head, ub_count := ub_count b + ?copy\<rparr>"
    using p by (simp add: udp_append_def Let_def)
  note q = ring_put_correct [OF r UDP_BUF_SIZE_nat fit p, unfolded l]
  have t: "?bs = take (4096 - length (udp_content b)) (get_bytes data 0 (unat n))"
    unfolding get_bytes_take cp udp_content_def ring_bytes_length by (simp add: min.commute)
  show ?thesis using q t unfolding udp_ok_def udp_content_def a by simp
qed

lemma udp_take_correct:
  assumes ok: "udp_ok b" and "udp_take n b = (bs, b')"
  shows "udp_ok b' \<and> bs = take (unat n) (udp_content b) \<and> udp_content b' = drop (unat n) (udp_content b)"
proof -
  let ?copy = "if ub_count b < n then ub_count b else n"
  have r: "ring_ok 4096 (ub_data b) (ub_head b) (ub_tail b) (ub_count b)" using ok by (simp add: udp_ok_def)
  have cp: "unat ?copy = min (unat (ub_count b)) (unat n)" by (simp add: word_less_nat_alt)
  obtain tail where g: "ring_get UDP_BUF_SIZE (unat ?copy) (ub_data b) (ub_tail b) = (bs, tail)"
    and b': "b' = b\<lparr>ub_tail := tail, ub_count := ub_count b - ?copy\<rparr>"
    using assms(2) by (auto simp: udp_take_def Let_def split: prod.splits)
  have l: "of_nat (unat ?copy) = ?copy" by simp
  have "unat ?copy \<le> unat (ub_count b)" by (simp add: cp)
  note q = ring_get_correct [OF r UDP_BUF_SIZE_nat this g, unfolded l]
  have len: "length (udp_content b) = unat (ub_count b)" by (simp add: udp_content_def)
  have m: "take (unat ?copy) (udp_content b) = take (unat n) (udp_content b)" "drop (unat ?copy) (udp_content b) = drop (unat n) (udp_content b)"
    using len by (simp_all add: cp min_def)
  show ?thesis using q m unfolding b' udp_content_def udp_ok_def by simp
qed

interpretation udpq: byte_queue udp_ok udp_content "\<lambda>(data, n). get_bytes data 0 (unat n)" udp_append udp_take 4096
proof unfold_locales
  fix c and d :: "packet \<times> u32"
  assume c: "udp_ok c"
  obtain data n where d: "d = (data, n)" by force
  show "udp_ok (udp_append d c)"
    "udp_content (udp_append d c) = udp_content c @ take (4096 - length (udp_content c)) (case d of (data, n) \<Rightarrow> get_bytes data 0 (unat n))"
    using udp_append_correct [OF c] d by auto
  show "length (udp_content c) \<le> 4096" using c by (simp add: udp_ok_def ring_ok_def udp_content_def)
next
  fix c n bs c'
  assume "udp_ok c" "udp_take n c = (bs, c')"
  then show "udp_ok c' \<and> bs = take (unat n) (udp_content c) \<and> udp_content c' = drop (unat n) (udp_content c)"
    by (rule udp_take_correct)
qed

section \<open>What sockets keep\<close>

locale sock_service = ip_service dev send poll E I
  for dev :: nic and send :: "'a socks_scheme sender" and poll :: "'a socks_scheme poller"
    and E :: "crash set" and I :: "'a socks_scheme \<Rightarrow> bool" +
  assumes I_sock: "I s \<Longrightarrow> (\<forall>k. (\<forall>b. udp_buf k = Some b \<longrightarrow> b = i) \<longrightarrow> (\<forall>b. udp_buf (f k) = Some b \<longrightarrow> b = i))
                     \<Longrightarrow> I (upd_sock i f s)"
    and I_udp: "I s \<Longrightarrow> (\<forall>b. udp_ok b \<longrightarrow> udp_ok (g b)) \<Longrightarrow> I (upd_udp i g s)"
    and I_udp_port: "I s \<Longrightarrow> I (s\<lparr>next_udp_port := port\<rparr>)"
    and I_socks: "I s \<Longrightarrow> socks_ok s"
begin

lemma udp_ok_at: "I s \<Longrightarrow> i < 64 \<Longrightarrow> udp_ok (udp_at i s)"
  using I_socks [of s] by (simp add: socks_ok_def udp_at_def)

lemma fd_idx: "fd_to_idx fd s = Some i \<Longrightarrow> i < 64"
  by (auto simp: fd_to_idx_def Let_def MAX_SOCKETS_def split: if_splits)

lemma udp_idx: "I s \<Longrightarrow> i < 64 \<Longrightarrow> udp_buf (sock_at i s) = Some b \<Longrightarrow> b = i"
  using I_socks [of s] by (simp add: socks_ok_def)

lemma socket_udp_input_keeps: "I s \<Longrightarrow> I (socket_udp_input ip sp dp data len s)"
proof -
  assume s: "I s"
  have "udp_ok ((udp_append (data, len) b)\<lparr>last_src_ip := ip, last_src_port := sp\<rparr>)" if "udp_ok b" for b
    using udp_append_correct [OF that, of data len] by (simp add: udp_ok_def)
  then show ?thesis using s unfolding socket_udp_input_def by (auto intro!: I_udp split: option.split)
qed

lemma zero_udp_ok: "udp_ok zero_udp"
  by (simp add: udp_ok_def zero_udp_def ring_ok_def)

lemma zero_socket_buf [simp]: "udp_buf zero_socket = None"
  by (simp add: zero_socket_def)

lemma socket_create_keeps: "I s \<Longrightarrow> I (fst (socket_create domain ty protocol s))"
proof -
  assume s: "I s"
  have t: "I t" if "tcp_open (upd_sock i (\<lambda>_. zero_socket\<lparr>sk_active := True, sk_type := ST_TCP, sk_domain := d, tcp_conn_id := -1\<rparr>) s) = (t, c)" for i d t c
  proof -
    have "I (fst (tcp_open (upd_sock i (\<lambda>_. zero_socket\<lparr>sk_active := True, sk_type := ST_TCP, sk_domain := d, tcp_conn_id := -1\<rparr>) s)))"
      using s by (auto intro!: tcp_open_keeps I_sock)
    then show ?thesis using that by simp
  qed
  show ?thesis using s unfolding socket_create_def Let_def
    by (auto intro!: I_sock I_udp zero_udp_ok dest!: t split: option.split prod.split)
qed

lemma socket_bind_keeps: "I s \<Longrightarrow> I (fst (socket_bind fd addr addrlen s))"
  unfolding socket_bind_def Let_def by (auto intro!: tcp_bind_keeps I_sock split: option.split)

lemma socket_listen_keeps: "I s \<Longrightarrow> I (fst (socket_listen fd backlog s))"
  unfolding socket_listen_def by (auto intro!: tcp_listen_keeps split: option.split)

lemma socket_accept_keeps: "I s \<Longrightarrow> outcome_ok E (\<lambda>(t, r). I t) (socket_accept poll fd s)"
  unfolding socket_accept_def
  by (auto intro!: outcome_ok_then [OF tcp_accept_keeps] I_sock split: option.split)

lemma socket_connect_keeps: "I s \<Longrightarrow> outcome_ok E (\<lambda>(t, r). I t) (socket_connect dev send poll fd addr addrlen s)"
  unfolding socket_connect_def Let_def by (auto intro!: tcp_connect_keeps I_sock split: option.split)

lemma udp_sendto_keeps: "I s \<Longrightarrow> outcome_ok E (\<lambda>(t, r). I t) (udp_sendto send i buf dest addrlen s)"
  unfolding udp_sendto_def Let_def
  by (auto intro!: outcome_ok_then [OF send_keeps] I_sock I_udp_port split: prod.split)

lemma socket_sendto_keeps: "I s \<Longrightarrow> outcome_ok E (\<lambda>(t, r). I t) (socket_sendto dev send poll fd buf dest addrlen s)"
  unfolding socket_sendto_def
  by (auto intro!: tcp_send_keeps udp_sendto_keeps split: option.split SockType.split)

lemma udp_wait_keeps: "I s \<Longrightarrow> outcome_ok E I (udp_wait poll b n s)"
  by (induction n arbitrary: s) (auto intro!: outcome_ok_then [OF poll_keeps])

lemma udp_recvfrom_keeps:
  assumes s: "I s" and i: "i < 64"
  shows "outcome_ok E (\<lambda>(t, r). I t) (udp_recvfrom poll i len addrlen s)"
proof -
  have "I (upd_udp i (\<lambda>_. u) t)" if "I t" "udp_take len (udp_at i t) = (bs, u)" for t bs u
    using udp_take_correct [OF udp_ok_at [OF that(1) i] that(2)] that(1) by (auto intro!: I_udp)
  then show ?thesis unfolding udp_recvfrom_def Let_def using udp_idx [OF s i] s
    by (auto intro!: outcome_ok_then [OF udp_wait_keeps] split: option.split prod.split)
qed

lemma socket_recvfrom_keeps: "I s \<Longrightarrow> outcome_ok E (\<lambda>(t, r). I t) (socket_recvfrom dev send poll fd len addrlen s)"
  unfolding socket_recvfrom_def
  by (auto intro!: outcome_ok_then [OF tcp_recv_keeps] udp_recvfrom_keeps dest: fd_idx split: option.split SockType.split)

lemma socket_close_keeps: "I s \<Longrightarrow> outcome_ok E (\<lambda>(t, r). I t) (socket_close dev send fd s)"
  unfolding socket_close_def
  by (auto intro!: outcome_ok_then [OF tcp_close_keeps] I_sock split: option.split)

end

end
