(* ===== verification/NetStack.thy ===== *)
theory NetStack
  imports Sockets
begin

text \<open>
  The whole network stack.  \<open>VirtioNet::poll\<close> (net/virtio_net.cpp), which \<open>Net::poll\<close> calls,
  receives frames until there is none and hands each to \<open>net_handle_packet\<close>; handling a segment
  may send, sending may resolve an address, and resolving polls again, so the recursion goes
  through all layers.  Fuel bounds it: one unit per received frame, and one for the receive
  that finds none.  The theorems show that any fuel above the number of frames that ever arrive
  is enough, that every sequence of socket calls keeps the tables of all layers well formed,
  and that none of them crashes unless the malformed echo request of the ICMP handler arrives.
\<close>

section \<open>Polling\<close>

fun net_poll :: "nic \<Rightarrow> nat \<Rightarrow> 'a socks_scheme \<Rightarrow> 'a socks_scheme outcome" where
  "net_poll dev 0 s = Inl Out_of_fuel"
| "net_poll dev (Suc n) s =
     (case nic_receive dev MAX_PACKET s of
        (s, None) \<Rightarrow> Inr s
      | (s, Some (pkt, len)) \<Rightarrow>
          and_then (net_handle_packet dev (tcp_input dev (send_ip dev (net_poll dev n))) socket_udp_input pkt len s)
            (net_poll dev n))"

text \<open>The socket calls of a program, in the order it makes them.\<close>

datatype socket_call =
    Create u32 u32 u32
  | Bind int packet u32
  | Listen int u32
  | Accept int
  | Connect int packet u32
  | Sendto int "u8 list" "packet option" u32
  | Recvfrom int u32 "u32 option"
  | Close int
  | Poll

fun do_call :: "nic \<Rightarrow> nat \<Rightarrow> socket_call \<Rightarrow> 'a socks_scheme \<Rightarrow> ('a socks_scheme \<times> int) outcome" where
  "do_call dev n (Create domain ty protocol) s = Inr (socket_create domain ty protocol s)"
| "do_call dev n (Bind fd addr addrlen) s = Inr (socket_bind fd addr addrlen s)"
| "do_call dev n (Listen fd backlog) s = Inr (socket_listen fd backlog s)"
| "do_call dev n (Accept fd) s = socket_accept (net_poll dev n) fd s"
| "do_call dev n (Connect fd addr addrlen) s = socket_connect dev (send_ip dev (net_poll dev n)) (net_poll dev n) fd addr addrlen s"
| "do_call dev n (Sendto fd buf dest addrlen) s =
     socket_sendto dev (send_ip dev (net_poll dev n)) (net_poll dev n) fd buf dest addrlen s"
| "do_call dev n (Recvfrom fd len addrlen) s =
     and_then (socket_recvfrom dev (send_ip dev (net_poll dev n)) (net_poll dev n) fd len addrlen s) (\<lambda>(s, r, _). Inr (s, r))"
| "do_call dev n (Close fd) s = socket_close dev (send_ip dev (net_poll dev n)) fd s"
| "do_call dev n Poll s = and_then (net_poll dev n s) (\<lambda>s. Inr (s, 0))"

fun do_calls :: "nic \<Rightarrow> nat \<Rightarrow> socket_call list \<Rightarrow> 'a socks_scheme \<Rightarrow> ('a socks_scheme \<times> int list) outcome" where
  "do_calls dev n [] s = Inr (s, [])"
| "do_calls dev n (c # cs) s =
     and_then (do_call dev n c s)
       (\<lambda>(s, r). and_then (do_calls dev n cs s) (\<lambda>(s, rs). Inr (s, r # rs)))"

section \<open>The invariant of the stack\<close>

definition stack_ok :: "'a socks_scheme \<Rightarrow> bool" where
  "stack_ok s \<longleftrightarrow> arp_ok s \<and> tcp_ok s \<and> socks_ok s"

definition stack_inv :: "nat \<Rightarrow> 'a socks_scheme \<Rightarrow> bool" where
  "stack_inv p s \<longleftrightarrow> stack_ok s \<and> p \<le> polls s"

definition wire_safe :: "nic \<Rightarrow> bool" where
  "wire_safe dev \<longleftrightarrow> (\<forall>t j pkt len. wire dev t j = Some (pkt, len)
     \<longrightarrow> \<not> malformed_ping pkt (if len > MAX_PACKET then MAX_PACKET else len))"

definition wire_ends :: "nic \<Rightarrow> nat \<Rightarrow> bool" where
  "wire_ends dev k \<longleftrightarrow> (\<forall>t j. k \<le> j \<longrightarrow> wire dev t j = None)"

lemma stack_ok_frame [simp]:
  "stack_ok (s\<lparr>tx := frames\<rparr>) = stack_ok s" "stack_ok (s\<lparr>polls := n\<rparr>) = stack_ok s"
  "stack_ok (s\<lparr>ip_id_counter := c\<rparr>) = stack_ok s" "stack_ok (s\<lparr>next_ephemeral_port := p\<rparr>) = stack_ok s"
  "stack_ok (s\<lparr>next_udp_port := p\<rparr>) = stack_ok s"
  by (simp_all add: stack_ok_def arp_ok_def arp_hit_def tcp_ok_def socks_ok_def sock_at_def)

lemma arp_cache_add_other [simp]:
  "connections (arp_cache_add ip m s) = connections s" "sockets (arp_cache_add ip m s) = sockets s"
  "udp_bufs (arp_cache_add ip m s) = udp_bufs s" "polls (arp_cache_add ip m s) = polls s"
  by (simp_all add: arp_cache_add_def split: option.split)

lemma upd_other [simp]:
  "arp_cache (upd_conn i f s) = arp_cache s" "polls (upd_conn i f s) = polls s"
  "sockets (upd_conn i f s) = sockets s" "udp_bufs (upd_conn i f s) = udp_bufs s"
  "arp_cache (upd_sock i g s) = arp_cache s" "connections (upd_sock i g s) = connections s"
  "polls (upd_sock i g s) = polls s" "udp_bufs (upd_sock i g s) = udp_bufs s"
  "arp_cache (upd_udp i h s) = arp_cache s" "connections (upd_udp i h s) = connections s"
  "polls (upd_udp i h s) = polls s" "sockets (upd_udp i h s) = sockets s"
  by (simp_all add: upd_conn_def upd_sock_def upd_udp_def)

lemma socks_ok_upd_sock:
  assumes "socks_ok s" "\<forall>k. (\<forall>b. udp_buf k = Some b \<longrightarrow> b = i) \<longrightarrow> (\<forall>b. udp_buf (f k) = Some b \<longrightarrow> b = i)"
  shows "socks_ok (upd_sock i f s)"
proof -
  have "udp_buf ((sockets s)[i := f (sockets s ! i)] ! j) = Some b \<longrightarrow> b = j" if "j < 64" for j b
    using assms that by (cases "j = i") (auto simp: socks_ok_def sock_at_def)
  then show ?thesis using assms(1) by (simp add: socks_ok_def sock_at_def upd_sock_def)
qed

lemma socks_ok_upd_udp:
  assumes "socks_ok s" "\<forall>b. udp_ok b \<longrightarrow> udp_ok (g b)"
  shows "socks_ok (upd_udp i g s)"
proof (cases "i < 64")
  case True
  then have "udp_ok (g (udp_bufs s ! i))" using assms by (simp add: socks_ok_def)
  then show ?thesis using assms(1) set_update_subset_insert [of "udp_bufs s" i "g (udp_bufs s ! i)"]
    by (auto simp: socks_ok_def sock_at_def upd_udp_def)
next
  case False
  then show ?thesis using assms(1) by (simp add: socks_ok_def sock_at_def upd_udp_def list_update_beyond)
qed

lemma stack_ok_arp: "stack_ok s \<Longrightarrow> stack_ok (arp_cache_add ip m s)"
  by (simp add: stack_ok_def) (simp add: tcp_ok_def socks_ok_def sock_at_def)

lemma stack_ok_conn: "stack_ok s \<Longrightarrow> \<forall>c. conn_ok c \<longrightarrow> conn_ok (f c) \<Longrightarrow> stack_ok (upd_conn i f s)"
  unfolding stack_ok_def by (auto simp: arp_ok_def arp_hit_def socks_ok_def sock_at_def intro: tcp_ok_upd)

lemma stack_ok_sock:
  "stack_ok s \<Longrightarrow> \<forall>k. (\<forall>b. udp_buf k = Some b \<longrightarrow> b = i) \<longrightarrow> (\<forall>b. udp_buf (f k) = Some b \<longrightarrow> b = i)
     \<Longrightarrow> stack_ok (upd_sock i f s)"
  using socks_ok_upd_sock [of s i f] by (simp add: stack_ok_def arp_ok_def arp_hit_def tcp_ok_def)

lemma stack_ok_udp: "stack_ok s \<Longrightarrow> \<forall>b. udp_ok b \<longrightarrow> udp_ok (g b) \<Longrightarrow> stack_ok (upd_udp i g s)"
  using socks_ok_upd_udp [of s g i] by (simp add: stack_ok_def arp_ok_def arp_hit_def tcp_ok_def)

text \<open>If polling keeps the invariant, all layers do.\<close>

lemma stack_service:
  assumes "\<And>t. stack_inv p t \<Longrightarrow> outcome_ok E (stack_inv p) (poll t)"
  shows "net_service poll E (stack_inv p :: 'a socks_scheme \<Rightarrow> bool)"
    and "sock_service (send_ip dev poll) poll E (stack_inv p :: 'a socks_scheme \<Rightarrow> bool)"
proof -
  show net: "net_service poll E (stack_inv p :: 'a socks_scheme \<Rightarrow> bool)"
    by unfold_locales (rule assms, assumption, auto simp: stack_inv_def stack_ok_arp)
  show "sock_service (send_ip dev poll) poll E (stack_inv p :: 'a socks_scheme \<Rightarrow> bool)"
  proof unfold_locales
    fix s a q d
    assume "stack_inv p (s :: 'a socks_scheme)"
    then show "outcome_ok E (\<lambda>(t, b). stack_inv p t) (send_ip dev poll a q d s)"
      by (rule net_service.send_ip_keeps [OF net])
  next
    fix s
    assume "stack_inv p (s :: 'a socks_scheme)"
    then show "tcp_ok s" "socks_ok s" by (simp_all add: stack_inv_def stack_ok_def)
  qed (auto intro: assms simp: stack_inv_def stack_ok_conn stack_ok_sock stack_ok_udp)
qed

text \<open>Polling keeps the invariant, by induction on the fuel: every nested poll comes after a
  receive, and once no more frames arrive there is none to nest in.\<close>

lemma net_poll_keeps:
  fixes s :: "'a socks_scheme"
  assumes safe: "Overrun \<in> E \<or> wire_safe dev"
  shows "Out_of_fuel \<in> E \<or> wire_ends dev k \<and> 1 \<le> n \<and> k < p + n \<Longrightarrow> stack_inv p s
    \<Longrightarrow> outcome_ok E (stack_inv p) (net_poll dev n s)"
proof (induction n arbitrary: p s)
  case 0
  then show ?case by auto
next
  case (Suc n)
  let ?s = "s\<lparr>polls := polls s + 1\<rparr>"
  have s: "stack_inv p ?s" "stack_inv (p + 1) ?s" using Suc.prems(2) by (simp_all add: stack_inv_def)
  show ?case
  proof (cases "wire dev (tx s) (polls s)")
    case None
    then show ?thesis using s by (simp add: nic_receive_def)
  next
    case (Some r)
    obtain pkt l where r: "r = (pkt, l)" by force
    let ?len = "if l > MAX_PACKET then MAX_PACKET else l"
    have m: "\<not> malformed_ping pkt ?len \<or> Overrun \<in> E" using safe Some r unfolding wire_safe_def by blast
    have fuel: "Out_of_fuel \<in> E \<or> wire_ends dev k \<and> 1 \<le> n \<and> k < (p + 1) + n"
    proof (cases "Out_of_fuel \<in> E")
      case False
      then have w: "wire_ends dev k" "k < p + Suc n" using Suc.prems(1) by auto
      have "polls s < k" using w(1) Some by (auto simp: wire_ends_def not_le [symmetric])
      then show ?thesis using w Suc.prems(2) by (auto simp: stack_inv_def)
    qed simp
    have poll: "outcome_ok E (stack_inv (p + 1)) (net_poll dev n t)" if "stack_inv (p + 1) t" for t :: "'a socks_scheme"
      by (rule Suc.IH [OF fuel that])
    have net: "net_service (net_poll dev n) E (stack_inv (p + 1) :: 'a socks_scheme \<Rightarrow> bool)"
      and sock: "sock_service (send_ip dev (net_poll dev n)) (net_poll dev n) E (stack_inv (p + 1) :: 'a socks_scheme \<Rightarrow> bool)"
      by (rule stack_service, rule poll, assumption)+
    have tcp: "outcome_ok E (stack_inv (p + 1)) (tcp_input dev (send_ip dev (net_poll dev n)) src q j t)"
      if "stack_inv (p + 1) t" for src q j and t :: "'a socks_scheme"
      using ip_service.tcp_input_keeps [OF sock_service.axioms(1) [OF sock] that] .
    have udp: "stack_inv (p + 1) (socket_udp_input src sp dp q j t)" if "stack_inv (p + 1) t" for src sp dp q j and t :: "'a socks_scheme"
      using sock_service.socket_udp_input_keeps [OF sock that] .
    let ?h = "net_handle_packet dev (tcp_input dev (send_ip dev (net_poll dev n))) socket_udp_input pkt ?len ?s"
    have "outcome_ok E (stack_inv (p + 1)) ?h"
      by (rule net_service.net_handle_packet_keeps [OF net s(2) m tcp udp])
    moreover have "net_poll dev (Suc n) s = and_then ?h (net_poll dev n)" using Some r by (simp add: nic_receive_def)
    ultimately have "outcome_ok E (stack_inv (p + 1)) (net_poll dev (Suc n) s)"
      using outcome_ok_then [of E "stack_inv (p + 1)" ?h, OF _ poll] by simp
    then show ?thesis by (rule outcome_ok_mono) (simp add: stack_inv_def)
  qed
qed

interpretation stack: sock_service dev "send_ip dev (net_poll dev n)" "net_poll dev n" "{Overrun, Out_of_fuel}" "stack_inv 0"
  for dev n
  by (rule stack_service(2)) (rule net_poll_keeps, simp_all)

lemma do_call_keeps:
  assumes "sock_service (send_ip dev (net_poll dev n)) (net_poll dev n) E (stack_inv 0 :: 'a socks_scheme \<Rightarrow> bool)"
    and s: "stack_ok (s :: 'a socks_scheme)"
  shows "outcome_ok E (\<lambda>(t, r). stack_ok t) (do_call dev n c s)"
proof -
  have eq: "stack_inv 0 = (stack_ok :: 'a socks_scheme \<Rightarrow> bool)" by (simp add: stack_inv_def fun_eq_iff)
  note sock = assms(1) [unfolded eq] and ip = sock_service.axioms(1) [OF assms(1), unfolded eq]
  show ?thesis
  proof (cases c)
    case (Recvfrom fd len addrlen)
    then show ?thesis
      using sock_service.socket_recvfrom_keeps [OF sock s, of dev fd len addrlen]
      by (auto intro: outcome_ok_then)
  next
    case Poll
    then show ?thesis by (simp add: outcome_ok_then [OF ip_service.poll_keeps [OF ip s]])
  qed (use s sock_service.socket_create_keeps [OF sock s] sock_service.socket_bind_keeps [OF sock s]
         sock_service.socket_listen_keeps [OF sock s] sock_service.socket_accept_keeps [OF sock s]
         sock_service.socket_connect_keeps [OF sock s] sock_service.socket_sendto_keeps [OF sock s]
         sock_service.socket_close_keeps [OF sock s] in \<open>simp_all add: case_prod_beta\<close>)
qed

lemma do_calls_keeps:
  assumes "sock_service (send_ip dev (net_poll dev n)) (net_poll dev n) E (stack_inv 0 :: 'a socks_scheme \<Rightarrow> bool)"
  shows "stack_ok (s :: 'a socks_scheme) \<Longrightarrow> outcome_ok E (\<lambda>(t, rs). stack_ok t \<and> length rs = length cs) (do_calls dev n cs s)"
proof (induction cs arbitrary: s)
  case (Cons c cs)
  have "outcome_ok E (\<lambda>(t, rs). stack_ok t \<and> length rs = Suc (length cs))
      (and_then (do_calls dev n cs u) (\<lambda>(t, rs). Inr (t, r # rs)))" if "stack_ok u" for r and u :: "'a socks_scheme"
    by (rule outcome_ok_then [OF Cons.IH [OF that]]) auto
  then show ?case by (auto intro!: outcome_ok_then [OF do_call_keeps [OF assms Cons.prems]])
qed simp

text \<open>
  C7: the network stack as a whole.  Whatever frames arrive and whatever socket calls a program
  makes, in any order and with any arguments, a run that returns leaves the ARP cache, the
  connection table, the socket table and all receive rings well formed, and answers every call.
  If only finitely many frames arrive and the malformed echo request is not among them, every
  run returns: with fuel above the number of receives that find a frame no poll runs out of it,
  however deeply sending, resolving and polling are nested, and no buffer is overrun.
\<close>

theorem network_runs:
  fixes s :: "'a socks_scheme"
  assumes "stack_ok s"
  shows "(\<forall>t rs. do_calls dev n cs s = Inr (t, rs) \<longrightarrow> stack_ok t \<and> length rs = length cs)
    \<and> (wire_safe dev \<and> wire_ends dev k \<and> k < n \<longrightarrow> (\<exists>t rs. do_calls dev n cs s = Inr (t, rs)))"
proof -
  have "outcome_ok {Overrun, Out_of_fuel} (\<lambda>(t, rs). stack_ok t \<and> length rs = length cs) (do_calls dev n cs s)"
    by (rule do_calls_keeps [OF stack.sock_service_axioms assms])
  moreover have "outcome_ok {} (\<lambda>(t, rs). stack_ok t \<and> length rs = length cs) (do_calls dev n cs s)"
    if w: "wire_safe dev \<and> wire_ends dev k \<and> k < n"
  proof (rule do_calls_keeps [OF stack_service(2) assms])
    fix t :: "'a socks_scheme"
    assume "stack_inv 0 t"
    then show "outcome_ok {} (stack_inv 0) (net_poll dev n t)" using w by (intro net_poll_keeps [where k = k]) auto
  qed
  ultimately show ?thesis by (cases "do_calls dev n cs s") auto
qed

definition sample_stack :: socks where
  "sample_stack = \<lparr>tx = [], polls = 0, local_ip = make_ip 10 0 2 15, gateway_ip = make_ip 10 0 2 2, netmask = make_ip 255 255 255 0,
     dns_server = 0, local_mac = [2, 0, 0, 0, 0, 1], ip_id_counter = 1,
     arp_cache = replicate 32 \<lparr>arp_ip = 0, arp_mac = MAC_ZERO, arp_valid = False\<rparr>,
     connections = replicate 16 zero_connection, next_ephemeral_port = 49152,
     sockets = replicate 64 zero_socket, next_udp_port = 50000, udp_bufs = replicate 64 zero_udp\<rparr>"

theorem network_runs_witness:
  "\<exists>t rs. do_calls quiet_nic 1 [Create 2 2 0, Bind 100 (\<lambda>k. of_nat k) 16, Sendto 100 [1, 2, 3] None 0, Recvfrom 100 4 None] sample_stack
     = Inr (t, rs) \<and> stack_ok t \<and> length rs = 4"
proof -
  have ok: "stack_ok sample_stack"
    by (simp add: stack_ok_def arp_ok_def arp_hit_def tcp_ok_def socks_ok_def sock_at_def sample_stack_def conn_ok_def
        zero_connection_def ring_ok_def udp_ok_def zero_udp_def zero_socket_def)
  have "wire_safe quiet_nic" "wire_ends quiet_nic 0" by (simp_all add: wire_safe_def wire_ends_def quiet_nic_def)
  moreover define cs where "cs = [Create 2 2 0, Bind 100 (\<lambda>k. of_nat k) 16, Sendto 100 [1, 2, 3] None 0, Recvfrom 100 4 None]"
  ultimately have "\<exists>t rs. do_calls quiet_nic 1 cs sample_stack = Inr (t, rs) \<and> stack_ok t \<and> length rs = length cs"
    using network_runs [OF ok, of quiet_nic 1 cs 0] zero_less_one by blast
  moreover have "length cs = 4" by (simp add: cs_def)
  ultimately show ?thesis unfolding cs_def by (simp only:)
qed

end
