(* ===== verification/Dns.thy ===== *)
theory Dns
  imports NetStack
begin

text \<open>
  The resolver, src/src/net/dns.cpp.  A host name is the list of its bytes before the NUL.  The
  query is built in a buffer of 512 bytes; code that would write beyond it ends in \<open>Overrun\<close>.
  The loop that waits for a response runs until the clock has advanced by 300 ticks, which no
  bound on the code's side limits, so it is given fuel: one unit per turn.
\<close>

section \<open>State\<close>

record resolv = socks +
  dns_txid :: u16

definition DNS_FLAG_QR :: u16 where "DNS_FLAG_QR = 0x8000"
definition DNS_FLAG_RD :: u16 where "DNS_FLAG_RD = 0x0100"
definition DNS_RCODE_MASK :: u16 where "DNS_RCODE_MASK = 0x000F"
definition DNS_TYPE_A :: u16 where "DNS_TYPE_A = 1"
definition DNS_CLASS_IN :: u16 where "DNS_CLASS_IN = 1"

definition dns_header :: "u16 \<Rightarrow> u16 \<Rightarrow> u16 \<Rightarrow> u16 \<Rightarrow> u16 \<Rightarrow> u16 \<Rightarrow> u8 list" where
  "dns_header ident flags qdcount ancount nscount arcount =
     le_bytes 2 ident @ le_bytes 2 flags @ le_bytes 2 qdcount @ le_bytes 2 ancount @ le_bytes 2 nscount @ le_bytes 2 arcount"

section \<open>Names\<close>

text \<open>
  The length byte of a label is its length cut to eight bits, and so is the length in the test
  against the buffer, but the whole label is copied.
\<close>

function encode_labels :: "u8 list \<Rightarrow> u32 \<Rightarrow> u8 list \<Rightarrow> u8 list outcome" where
  "encode_labels p max_len buf =
     (if p = [] \<or> \<not> of_nat (length buf) < max_len - 2 then Inr buf
      else let label = takeWhile (\<lambda>c. c \<noteq> 46) p; rest = dropWhile (\<lambda>c. c \<noteq> 46) p;
               label_len = of_nat (length label) :: u8
           in if length buf + 1 + unat label_len \<ge> unat max_len then Inr buf
              else if length buf + 1 + length label > unat max_len then Inl Overrun
              else encode_labels (drop 1 rest) max_len (buf @ label_len # label))"
  by auto

termination
proof (relation "measure (\<lambda>(p, _, _). length p)")
  fix p :: "u8 list" and max_len :: u32 and buf label rest :: "u8 list" and label_len :: u8
  assume "\<not> (p = [] \<or> \<not> of_nat (length buf) < max_len - 2)" and r: "rest = dropWhile (\<lambda>c. c \<noteq> 46) p"
  then have "p \<noteq> []" by simp
  moreover have "length rest \<le> length p" unfolding r by (rule length_dropWhile_le)
  ultimately show "((drop 1 rest, max_len, buf @ label_len # label), p, max_len, buf) \<in> measure (\<lambda>(p, _, _). length p)"
    by (cases "rest = []") (simp_all add: less_diff_conv2 Suc_le_eq)
qed simp

declare encode_labels.simps [simp del]

definition encode_name :: "u8 list \<Rightarrow> u32 \<Rightarrow> u8 list outcome" where
  "encode_name name max_len =
     and_then (encode_labels name max_len [])
       (\<lambda>buf. if length buf \<ge> unat max_len then Inl Overrun else Inr (buf @ [0]))"

function skip_name :: "packet \<Rightarrow> nat \<Rightarrow> nat \<Rightarrow> nat" where
  "skip_name d p endp =
     (if p < endp
      then if d p = 0 then p + 1
           else if d p AND 0xC0 = 0xC0 then p + 2
           else skip_name d (p + (1 + unat (d p))) endp
      else endp)"
  by auto

termination by (relation "measure (\<lambda>(_, p, endp). endp - p)") auto

declare skip_name.simps [simp del]

section \<open>Query and response\<close>

definition dns_query :: "u16 \<Rightarrow> u8 list \<Rightarrow> u8 list outcome" where
  "dns_query txid hostname =
     (let hdr = dns_header (htons txid) (htons DNS_FLAG_RD) (htons 1) 0 0 0
      in and_then (encode_name hostname (512 - of_nat (length hdr)))
           (\<lambda>name. let query = hdr @ name @ [0, ucast DNS_TYPE_A, 0, ucast DNS_CLASS_IN]
                   in if length query > 512 then Inl Overrun else Inr query))"

definition dns_udp :: "u16 \<Rightarrow> u8 list \<Rightarrow> u8 list" where
  "dns_udp txid query =
     udp_header (htons (10053 + (txid AND 0xFF))) (htons 53) (htons (of_nat (8 + length query))) 0 @ query"

fun skip_questions :: "packet \<Rightarrow> nat \<Rightarrow> nat \<Rightarrow> nat \<Rightarrow> nat" where
  "skip_questions d endp 0 p = p"
| "skip_questions d endp (Suc n) p = skip_questions d endp n (skip_name d p endp + 4)"

fun parse_answers :: "packet \<Rightarrow> nat \<Rightarrow> nat \<Rightarrow> nat \<Rightarrow> ipv4 option" where
  "parse_answers d endp 0 p = None"
| "parse_answers d endp (Suc n) p =
     (if \<not> p < endp then None
      else let p = skip_name d p endp
           in if p + 10 > endp then None
              else let rtype = of_le [d (p + 1), d p] :: u16; rdlength = of_le [d (p + 9), d (p + 8)] :: u16; p = p + 10
                   in if rtype = DNS_TYPE_A \<and> rdlength = 4 \<and> p + 4 \<le> endp then Some (get32 d p)
                      else parse_answers d endp n (p + unat rdlength))"

text \<open>The response to a query, from the bytes of the DNS message: \<open>None\<close> where the code goes on waiting.\<close>

definition parse_response :: "u16 \<Rightarrow> packet \<Rightarrow> nat \<Rightarrow> ipv4 option" where
  "parse_response txid d dns_len =
     (if dns_len < 12 then None
      else if ntohs (get16 d 0) \<noteq> txid then None
      else if ntohs (get16 d 2) AND DNS_FLAG_QR = 0 then None
      else if ntohs (get16 d 2) AND DNS_RCODE_MASK \<noteq> 0 then None
      else if ntohs (get16 d 6) = 0 then None
      else parse_answers d dns_len (unat (ntohs (get16 d 6)))
             (skip_questions d dns_len (unat (ntohs (get16 d 4))) 12))"

fun dns_wait ::
  "nic \<Rightarrow> nat \<Rightarrow> nat \<Rightarrow> u16 \<Rightarrow> u64 \<Rightarrow> 'a resolv_scheme \<Rightarrow> ('a resolv_scheme \<times> ipv4 option) outcome" where
  "dns_wait dev n 0 txid start s = Inl Out_of_fuel"
| "dns_wait dev n (Suc k) txid start s =
     (if \<not> get_ticks_net dev s - start < 300 then Inr (s, None)
      else and_then (net_poll dev n s)
        (\<lambda>s. case nic_receive dev 1500 s of
               (s, None) \<Rightarrow> dns_wait dev n k txid start s
             | (s, Some (buf, len)) \<Rightarrow>
                 if len < 14 + 20 + 8 + 12 then dns_wait dev n k txid start s
                 else if buf (14 + 9) \<noteq> IP_PROTO_UDP
                 then and_then (net_handle_packet dev (tcp_input dev (send_ip dev (net_poll dev n))) socket_udp_input buf len s)
                        (dns_wait dev n k txid start)
                 else if ntohs (get16 buf (14 + 20)) \<noteq> 53 then dns_wait dev n k txid start s
                 else case parse_response txid (\<lambda>i. buf (14 + 20 + 8 + i)) (unat len - (14 + 20 + 8)) of
                        Some ip \<Rightarrow> Inr (s, Some ip)
                      | None \<Rightarrow> dns_wait dev n k txid start s))"

fun dns_attempts ::
  "nic \<Rightarrow> nat \<Rightarrow> nat \<Rightarrow> ipv4 \<Rightarrow> u16 \<Rightarrow> u8 list \<Rightarrow> nat \<Rightarrow> 'a resolv_scheme \<Rightarrow> ('a resolv_scheme \<times> ipv4) outcome" where
  "dns_attempts dev n k server txid pkt 0 s = Inr (s, 0)"
| "dns_attempts dev n k server txid pkt (Suc a) s =
     and_then (send_ip dev (net_poll dev n) server IP_PROTO_UDP pkt s)
       (\<lambda>(s, _). and_then (dns_wait dev n k txid (get_ticks_net dev s) s)
         (\<lambda>(s, r). case r of Some ip \<Rightarrow> Inr (s, ip) | None \<Rightarrow> dns_attempts dev n k server txid pkt a s))"

definition dns_resolve :: "nic \<Rightarrow> nat \<Rightarrow> nat \<Rightarrow> u8 list \<Rightarrow> 'a resolv_scheme \<Rightarrow> ('a resolv_scheme \<times> ipv4) outcome" where
  "dns_resolve dev n k hostname s =
     (let server = (if get_dns s = 0 then make_ip 10 0 2 3 else get_dns s);
          txid = dns_txid s; s = s\<lparr>dns_txid := dns_txid s + 1\<rparr>
      in and_then (dns_query txid hostname)
           (\<lambda>query. dns_attempts dev n k server txid (dns_udp txid query) 3 s))"

section \<open>Messages as the protocol has them\<close>

text \<open>
  A name on the wire is a sequence of labels that ends in the root or in a pointer to an earlier
  name; a message is a header, questions, and resource records.
\<close>

type_synonym wire_name = "u8 list list \<times> u16 option"

record dns_record =
  rr_name :: wire_name
  rr_type :: u16
  rr_class :: u16
  rr_ttl :: u32
  rr_data :: "u8 list"

definition be16 :: "u16 \<Rightarrow> u8 list" where "be16 w = rev (le_bytes 2 w)"

definition label_bytes :: "u8 list \<Rightarrow> u8 list" where "label_bytes l = of_nat (length l) # l"

fun name_bytes :: "wire_name \<Rightarrow> u8 list" where
  "name_bytes (ls, None) = concat (map label_bytes ls) @ [0]"
| "name_bytes (ls, Some w) = concat (map label_bytes ls) @ be16 (w OR 0xC000)"

definition record_bytes :: "dns_record \<Rightarrow> u8 list" where
  "record_bytes r = name_bytes (rr_name r) @ be16 (rr_type r) @ be16 (rr_class r) @ rev (le_bytes 4 (rr_ttl r))
     @ be16 (of_nat (length (rr_data r))) @ rr_data r"

definition question_bytes :: "wire_name \<times> u16 \<times> u16 \<Rightarrow> u8 list" where
  "question_bytes = (\<lambda>(nm, ty, cl). name_bytes nm @ be16 ty @ be16 cl)"

text \<open>\<open>auth\<close> and \<open>add\<close> are the records of the authority and the additional section.\<close>

definition message_bytes ::
  "u16 \<Rightarrow> u16 \<Rightarrow> (wire_name \<times> u16 \<times> u16) list \<Rightarrow> dns_record list \<Rightarrow> dns_record list \<Rightarrow> dns_record list \<Rightarrow> u8 list" where
  "message_bytes ident flags qs rs auth add =
     be16 ident @ be16 flags @ be16 (of_nat (length qs)) @ be16 (of_nat (length rs))
     @ be16 (of_nat (length auth)) @ be16 (of_nat (length add))
     @ concat (map question_bytes qs) @ concat (map record_bytes rs) @ concat (map record_bytes auth) @ concat (map record_bytes add)"

definition name_ok :: "wire_name \<Rightarrow> bool" where
  "name_ok nm \<longleftrightarrow> (\<forall>l \<in> set (fst nm). 1 \<le> length l \<and> length l \<le> 63)"

definition record_ok :: "dns_record \<Rightarrow> bool" where
  "record_ok r \<longleftrightarrow> name_ok (rr_name r) \<and> length (rr_data r) < 65536"

definition is_address :: "dns_record \<Rightarrow> bool" where
  "is_address r \<longleftrightarrow> rr_type r = 1 \<and> length (rr_data r) = 4"

definition first_address :: "dns_record list \<Rightarrow> ipv4 option" where
  "first_address rs = map_option (\<lambda>r. of_le (rr_data r)) (find is_address rs)"

definition holds_at :: "packet \<Rightarrow> nat \<Rightarrow> u8 list \<Rightarrow> bool" where
  "holds_at d p bs \<longleftrightarrow> (\<forall>i < length bs. d (p + i) = bs ! i)"

lemma holds_at_append [simp]: "holds_at d p (xs @ ys) \<longleftrightarrow> holds_at d p xs \<and> holds_at d (p + length xs) ys"
proof
  assume h: "holds_at d p (xs @ ys)"
  show "holds_at d p xs \<and> holds_at d (p + length xs) ys"
    unfolding holds_at_def
  proof (intro conjI allI impI)
    fix i
    assume "i < length xs"
    then show "d (p + i) = xs ! i" using h by (simp add: holds_at_def nth_append)
  next
    fix i
    assume "i < length ys"
    then have "length xs + i < length (xs @ ys)" by simp
    with h have "d (p + (length xs + i)) = (xs @ ys) ! (length xs + i)" unfolding holds_at_def by blast
    then show "d (p + length xs + i) = ys ! i" by (simp add: add.assoc)
  qed
next
  assume "holds_at d p xs \<and> holds_at d (p + length xs) ys"
  then show "holds_at d p (xs @ ys)"
    unfolding holds_at_def
    by (metis (no_types, lifting) ab_semigroup_add_class.add_ac(1) le_add_diff_inverse length_append
        linorder_not_less nat_add_left_cancel_less nth_append)
qed

lemma holds_at_Cons [simp]: "holds_at d p (b # bs) \<longleftrightarrow> d p = b \<and> holds_at d (p + 1) bs"
  using holds_at_append [of d p "[b]" bs] by (simp add: holds_at_def)

lemma holds_at_Nil [simp]: "holds_at d p []"
  by (simp add: holds_at_def)

lemma be16_two: "be16 w = [ucast (drop_bit 8 w), ucast w]"
  by (simp add: be16_def eval_nat_numeral)

lemma of_le_two [simp]: "(of_le [ucast w, ucast (drop_bit 8 w)] :: u16) = w"
  using of_le_le_bytes [of 2 w] by (simp add: eval_nat_numeral)

lemma length_be16 [simp]: "length (be16 w) = 2"
  by (simp add: be16_two)

lemma be16_at: "holds_at d p (be16 w) \<Longrightarrow> (of_le [d (p + 1), d p] :: u16) = w"
  by (simp add: be16_two del: of_le.simps)

lemma ntohs_be16: "holds_at d p (be16 w) \<Longrightarrow> ntohs (get16 d p) = w"
  using be16_at by (simp add: ntohs_get16 del: of_le.simps)

lemma holds_at_get32: "holds_at d p bs \<Longrightarrow> length bs = 4 \<Longrightarrow> get32 d p = of_le bs"
proof -
  assume h: "holds_at d p bs" and "length bs = 4"
  then have "length bs = Suc (Suc (Suc (Suc 0)))" by simp
  then obtain a b c f where bs: "bs = [a, b, c, f]" by (auto simp only: length_Suc_conv length_0_conv)
  show ?thesis using h unfolding bs by (simp add: get32_def eval_nat_numeral del: of_le.simps)
qed

lemma label_byte:
  assumes "1 \<le> length l" "length l \<le> 63"
  shows "unat (of_nat (length l) :: u8) = length l" "(of_nat (length l) :: u8) \<noteq> 0" "(of_nat (length l) :: u8) AND 0xC0 \<noteq> 0xC0"
proof -
  show u: "unat (of_nat (length l) :: u8) = length l" using assms by (simp add: unat_of_nat take_bit_nat_eq_self)
  then show "(of_nat (length l) :: u8) \<noteq> 0" using assms by (metis not_one_le_zero unat_0)
  have "(of_nat (length l) :: u8) AND 0xC0 \<le> of_nat (length l)" by (rule word_and_le2)
  then have "unat ((of_nat (length l) :: u8) AND 0xC0) \<le> 63" using u assms(2) by (simp add: word_le_nat_alt)
  then show "(of_nat (length l) :: u8) AND 0xC0 \<noteq> 0xC0" by auto
qed

lemma pointer_byte: "(ucast (drop_bit 8 (w OR 0xC000 :: u16)) :: u8) AND 0xC0 = 0xC0" "(ucast (drop_bit 8 (w OR 0xC000 :: u16)) :: u8) \<noteq> 0"
proof -
  have "(0xC000 :: u16) = push_bit 14 (mask 2)" by (simp add: mask_eq_exp_minus_1 push_bit_eq_mult)
  moreover have c: "(0xC0 :: u8) = push_bit 6 (mask 2)" by (simp add: mask_eq_exp_minus_1 push_bit_eq_mult)
  ultimately show e: "(ucast (drop_bit 8 (w OR 0xC000)) :: u8) AND 0xC0 = 0xC0"
    by (auto intro!: bit_word_eqI simp: bit_simps simp del: push_bit_numeral mask_numeral)
  then show "(ucast (drop_bit 8 (w OR 0xC000)) :: u8) \<noteq> 0" by auto
qed

lemma length_name_bytes: "length (name_bytes nm) = sum_list (map (\<lambda>l. length l + 1) (fst nm)) + (if snd nm = None then 1 else 2)"
proof -
  obtain ls q where nm: "nm = (ls, q)" by force
  have "length (concat (map label_bytes ls)) = sum_list (map (\<lambda>l. length l + 1) ls)"
    by (simp add: length_concat comp_def label_bytes_def)
  then show ?thesis unfolding nm by (cases q) simp_all
qed

lemma skip_name_wire:
  "name_ok nm \<Longrightarrow> holds_at d p (name_bytes nm) \<Longrightarrow> p + length (name_bytes nm) \<le> e
     \<Longrightarrow> skip_name d p e = p + length (name_bytes nm)"
proof (induction "fst nm" arbitrary: nm p)
  case Nil
  obtain q where nm: "nm = ([], q)" using Nil by (metis prod.collapse)
  show ?case
  proof (cases q)
    case None
    then show ?thesis using Nil.prems nm by (simp add: skip_name.simps)
  next
    case (Some w)
    then have "d p AND 0xC0 = 0xC0" "d p \<noteq> 0" "p + 2 \<le> e"
      using Nil.prems nm pointer_byte [of w] by (simp_all add: be16_two)
    then show ?thesis using Some nm by (simp add: skip_name.simps)
  qed
next
  case (Cons l ls)
  obtain q where nm: "nm = (l # ls, q)" using Cons.hyps(2) by (metis prod.collapse)
  have b: "name_bytes nm = label_bytes l @ name_bytes (ls, q)" unfolding nm by (cases q) simp_all
  have l: "1 \<le> length l" "length l \<le> 63" and ok: "name_ok (ls, q)" using Cons.prems(1) by (simp_all add: nm name_ok_def)
  have d: "d p = of_nat (length l)" and h: "holds_at d (p + (1 + length l)) (name_bytes (ls, q))"
    using Cons.prems(2) by (simp_all add: b label_bytes_def)
  have len: "length (name_bytes nm) = 1 + length l + length (name_bytes (ls, q))" by (simp add: b label_bytes_def)
  have "skip_name d p e = skip_name d (p + (1 + length l)) e"
    using Cons.prems(3) len by (subst skip_name.simps) (simp add: d label_byte [OF l])
  also have "\<dots> = p + (1 + length l) + length (name_bytes (ls, q))"
    by (rule Cons.hyps(1) [OF _ ok h]) (use Cons.prems(3) len in simp_all)
  finally show ?case using len by simp
qed

lemma skip_questions_wire:
  "\<forall>(nm, ty, cl) \<in> set qs. name_ok nm \<Longrightarrow> holds_at d p (concat (map question_bytes qs))
     \<Longrightarrow> p + length (concat (map question_bytes qs)) \<le> e
     \<Longrightarrow> skip_questions d e (length qs) p = p + length (concat (map question_bytes qs))"
proof (induction qs arbitrary: p)
  case (Cons q qs)
  obtain nm ty cl where q: "q = (nm, ty, cl)" by (metis prod_cases3)
  have s: "skip_name d p e = p + length (name_bytes nm)"
    by (rule skip_name_wire) (use Cons.prems q in \<open>simp_all add: question_bytes_def\<close>)
  have "skip_questions d e (length qs) (p + length (question_bytes q)) = p + length (question_bytes q) + length (concat (map question_bytes qs))"
    by (rule Cons.IH) (use Cons.prems in simp_all)
  moreover have "length (question_bytes q) = length (name_bytes nm) + 4" by (simp add: q question_bytes_def)
  ultimately show ?case by (simp add: s add_ac)
qed simp

lemma parse_answers_wire:
  "\<forall>r \<in> set rs. record_ok r \<Longrightarrow> holds_at d p (concat (map record_bytes rs))
     \<Longrightarrow> p + length (concat (map record_bytes rs)) \<le> e
     \<Longrightarrow> parse_answers d e (length rs) p = first_address rs"
proof (induction rs arbitrary: p)
  case (Cons r rs)
  let ?n = "length (name_bytes (rr_name r))" and ?l = "of_nat (length (rr_data r)) :: u16"
  have ok: "name_ok (rr_name r)" "length (rr_data r) < 65536" using Cons.prems(1) by (simp_all add: record_ok_def)
  have len: "length (record_bytes r) = ?n + 10 + length (rr_data r)" by (simp add: record_bytes_def)
  have h: "holds_at d p (name_bytes (rr_name r))" "holds_at d (p + ?n) (be16 (rr_type r))"
      "holds_at d (p + ?n + 8) (be16 ?l)" "holds_at d (p + ?n + 10) (rr_data r)"
    using Cons.prems(2) by (simp_all add: record_bytes_def add_ac)
  have e: "p + ?n + 10 + length (rr_data r) + length (concat (map record_bytes rs)) \<le> e" using Cons.prems(3) len by simp
  have s: "skip_name d p e = p + ?n" by (rule skip_name_wire) (use ok h e in simp_all)
  have t: "(of_le [d (p + ?n + 1), d (p + ?n)] :: u16) = rr_type r" using h(2) by (rule be16_at)
  have u: "(of_le [d (p + ?n + 9), d (p + ?n + 8)] :: u16) = ?l" using be16_at [OF h(3)] by (simp add: add_ac del: of_le.simps)
  have ul: "unat ?l = length (rr_data r)" using ok(2) by (simp add: unat_of_nat take_bit_nat_eq_self)
  then have l4: "?l = 4 \<longleftrightarrow> length (rr_data r) = 4" by (simp add: word_unat_eq_iff)
  have pos: "p < e" using e by (simp add: trans_less_add1)
  have ih: "parse_answers d e (length rs) (p + ?n + 10 + length (rr_data r)) = first_address rs"
    by (rule Cons.IH) (use Cons.prems e len in \<open>simp_all add: add_ac\<close>)
  have data: "get32 d (p + ?n + 10) = of_le (rr_data r)" if "length (rr_data r) = 4" using h(4) that by (rule holds_at_get32)
  have "parse_answers d e (length (r # rs)) p =
      (if is_address r then Some (of_le (rr_data r)) else parse_answers d e (length rs) (p + ?n + 10 + length (rr_data r)))"
    using pos e data unfolding parse_answers.simps length_Cons Let_def s t u l4 ul DNS_TYPE_A_def is_address_def by auto
  then show ?case by (simp add: ih first_address_def)
qed (simp add: first_address_def)

lemma parse_response_wire:
  assumes "\<forall>(nm, ty, cl) \<in> set qs. name_ok nm" "\<forall>r \<in> set rs. record_ok r"
    and "length qs < 65536" "length rs < 65536"
    and "holds_at d 0 (message_bytes ident flags qs rs auth add)" "length (message_bytes ident flags qs rs auth add) \<le> n"
  shows "parse_response txid d n =
    (if ident = txid \<and> flags AND DNS_FLAG_QR \<noteq> 0 \<and> flags AND DNS_RCODE_MASK = 0 then first_address rs else None)"
proof -
  let ?q = "concat (map question_bytes qs)" and ?r = "concat (map record_bytes rs)"
  have h: "holds_at d 0 (be16 ident)" "holds_at d 2 (be16 flags)" "holds_at d 4 (be16 (of_nat (length qs)))"
      "holds_at d 6 (be16 (of_nat (length rs)))" "holds_at d 12 ?q" "holds_at d (12 + length ?q) ?r"
    using assms(5) by (simp_all add: message_bytes_def eval_nat_numeral)
  have n: "12 + length ?q + length ?r \<le> n" using assms(6) by (simp add: message_bytes_def)
  have u: "unat (of_nat (length qs) :: u16) = length qs" "unat (of_nat (length rs) :: u16) = length rs"
    using assms(3,4) by (simp_all add: unat_of_nat take_bit_nat_eq_self)
  have z: "(of_nat (length rs) :: u16) = 0 \<longleftrightarrow> rs = []" by (simp add: word_unat_eq_iff u(2))
  have sq: "skip_questions d n (length qs) 12 = 12 + length ?q"
    by (rule skip_questions_wire [OF assms(1) h(5)]) (use n in simp)
  have pa: "parse_answers d n (length rs) (12 + length ?q) = first_address rs"
    by (rule parse_answers_wire [OF assms(2) h(6)]) (use n in simp)
  have "\<not> n < 12" using n by simp
  moreover have "first_address [] = None" by (simp add: first_address_def)
  ultimately show ?thesis
    unfolding parse_response_def ntohs_be16 [OF h(1)] ntohs_be16 [OF h(2)] ntohs_be16 [OF h(3)] ntohs_be16 [OF h(4)] u z sq pa
    by auto
qed

text \<open>
  C37: the resolver understands responses.  Whatever response to the query with this number
  arrives - any questions, any answers with names in labels or compressed, records of other
  types before the address, any authority and additional records, any bytes behind the message -
  the resolver takes the first answer that carries an IPv4 address, and goes on waiting when
  there is none, when the message is no response or has another number, or when the server
  reports an error.  The labels of the names have 1 to 63 bytes.
\<close>

theorem dns_response_parsed:
  assumes "\<forall>(nm, ty, cl) \<in> set qs. name_ok nm" "\<forall>r \<in> set rs. record_ok r"
    and "length qs < 65536" "length rs < 65536"
    and "holds_at d 0 (message_bytes ident flags qs rs auth add)" "length (message_bytes ident flags qs rs auth add) \<le> n"
  shows "parse_response txid d n =
    (if ident = txid \<and> flags AND DNS_FLAG_QR \<noteq> 0 \<and> flags AND DNS_RCODE_MASK = 0 then first_address rs else None)"
  by (rule parse_response_wire [OF assms])

definition reply_records :: "dns_record list" where
  "reply_records =
     [\<lparr>rr_name = ([], Some 12), rr_type = 5, rr_class = 1, rr_ttl = 60, rr_data = label_bytes [98] @ [0]\<rparr>,
      \<lparr>rr_name = ([[98]], None), rr_type = 1, rr_class = 1, rr_ttl = 60, rr_data = [10, 0, 2, 7]\<rparr>]"

definition reply_extra :: dns_record where
  "reply_extra = \<lparr>rr_name = ([], None), rr_type = 41, rr_class = 1232, rr_ttl = 0, rr_data = []\<rparr>"

text \<open>A response with an alias before the address and an additional record, as servers add it for EDNS.\<close>

theorem dns_response_parsed_witness:
  "parse_response 9 (\<lambda>i. (message_bytes 9 0x8180 [(([[97]], None), 1, 1)] reply_records [] [reply_extra] @ replicate 60 0) ! i) 70 = Some (make_ip 10 0 2 7)"
proof -
  define qs :: "(wire_name \<times> u16 \<times> u16) list" where "qs = [(([[97]], None), 1, 1)]"
  define m where "m = message_bytes 9 0x8180 qs reply_records [] [reply_extra]"
  have l: "length m = 62"
    by (simp add: m_def qs_def message_bytes_def reply_records_def reply_extra_def record_bytes_def question_bytes_def label_bytes_def)
  define d where "d = (\<lambda>i. (m @ replicate 60 0) ! i)"
  have "holds_at d 0 m" by (simp add: d_def holds_at_def nth_append)
  moreover have "\<forall>r \<in> set reply_records. record_ok r" "\<forall>(nm, ty, cl) \<in> set qs. name_ok nm"
    by (simp_all add: qs_def reply_records_def record_ok_def name_ok_def label_bytes_def)
  moreover have "length reply_records < 65536" "length qs < 65536" by (simp_all add: reply_records_def qs_def)
  moreover have "(0x8180 :: u16) AND DNS_FLAG_QR \<noteq> 0" "(0x8180 :: u16) AND DNS_RCODE_MASK = 0"
    by (simp_all add: DNS_FLAG_QR_def DNS_RCODE_MASK_def)
  ultimately have "parse_response 9 d 70 = first_address reply_records"
    using dns_response_parsed [of qs reply_records d 9 "0x8180" "[]" "[reply_extra]" 70 9] l unfolding m_def by simp
  then show ?thesis unfolding d_def m_def qs_def
    by (simp only:) (simp add: first_address_def reply_records_def is_address_def make_ip_def push_bit_eq_mult)
qed

section \<open>Queries\<close>

fun dotted :: "u8 list list \<Rightarrow> u8 list" where
  "dotted [] = []"
| "dotted [l] = l"
| "dotted (l # ls) = l @ 46 # dotted ls"

lemma htons_bytes: "le_bytes 2 (htons w) = be16 w"
  using le_bytes_of_le [of "rev (le_bytes 2 w)", where 'a = 16] by (simp add: htons_def bswap16_def be16_def)

lemma label_cut: "length l \<le> 255 \<Longrightarrow> unat (of_nat (length l) :: u8) = length l"
  by (simp add: unat_of_nat take_bit_nat_eq_self)

lemma takeWhile_label: "46 \<notin> set l \<Longrightarrow> takeWhile (\<lambda>c. c \<noteq> 46) (l @ 46 # r) = l" "46 \<notin> set l \<Longrightarrow> takeWhile (\<lambda>c. c \<noteq> 46) l = l"
    "46 \<notin> set l \<Longrightarrow> dropWhile (\<lambda>c. c \<noteq> 46) (l @ 46 # r) = 46 # r" "46 \<notin> set l \<Longrightarrow> dropWhile (\<lambda>c. c \<noteq> 46) l = []"
  for l :: "u8 list"
  by (induction l) auto

lemma room: "length buf + k \<le> 497 \<Longrightarrow> (of_nat (length buf) :: u32) < 500 - 2"
  by (simp add: word_less_nat_alt unat_of_nat take_bit_nat_eq_self)

lemma encode_labels_dotted:
  "\<forall>l \<in> set ls. 1 \<le> length l \<and> length l \<le> 63 \<and> 46 \<notin> set l
     \<Longrightarrow> length buf + length (concat (map label_bytes ls)) \<le> 497
     \<Longrightarrow> encode_labels (dotted ls) 500 buf = Inr (buf @ concat (map label_bytes ls))"
proof (induction ls arbitrary: buf rule: dotted.induct)
  case 1
  then show ?case by (simp add: encode_labels.simps)
next
  case (2 l)
  then have "l \<noteq> []" "length l \<le> 255" "46 \<notin> set l" by auto
  then show ?case using 2 room [of buf 0]
    by (subst encode_labels.simps) (simp add: Let_def takeWhile_label label_cut label_bytes_def encode_labels.simps)
next
  case (3 l l' ls)
  then have l: "length l \<le> 255" "46 \<notin> set l" by auto
  have "encode_labels (dotted (l' # ls)) 500 (buf @ label_bytes l) = Inr ((buf @ label_bytes l) @ concat (map label_bytes (l' # ls)))"
    by (rule "3.IH") (use "3.prems" in auto)
  then show ?case using l "3.prems"(2) room [of buf 0]
    by (subst encode_labels.simps) (simp add: Let_def takeWhile_label label_cut label_bytes_def)
qed

lemma encode_labels_safe:
  "length buf + length p + 1 \<le> 497 \<Longrightarrow> length p \<le> 255
     \<Longrightarrow> \<exists>b. encode_labels p 500 buf = Inr b \<and> length b \<le> length buf + length p + 1"
proof (induction "length p" arbitrary: p buf rule: less_induct)
  case less
  show ?case
  proof (cases "p = []")
    case True
    then show ?thesis by (simp add: encode_labels.simps)
  next
    case False
    define l r where "l = takeWhile (\<lambda>c. c \<noteq> 46) p" and "r = dropWhile (\<lambda>c. c \<noteq> 46) p"
    have p: "length l + length r = length p" unfolding l_def r_def by (metis length_append takeWhile_dropWhile_id)
    have dec: "length (drop 1 r) < length p" using False p by (cases r) auto
    have e: "encode_labels p 500 buf = encode_labels (drop 1 r) 500 (buf @ of_nat (length l) # l)"
      using False less.prems p room [of buf 0]
      by (subst encode_labels.simps) (simp add: Let_def label_cut flip: l_def r_def)
    show ?thesis
    proof (cases "drop 1 r = []")
      case True
      then show ?thesis using p unfolding e by (simp add: encode_labels.simps)
    next
      case False
      let ?b = "buf @ of_nat (length l) # l"
      have "length (drop 1 r) + 1 = length r" using False by (cases r) auto
      then have n: "length ?b + length (drop 1 r) + 1 = length buf + length p + 1" using p by simp
      have "\<exists>b. encode_labels (drop 1 r) 500 ?b = Inr b \<and> length b \<le> length ?b + length (drop 1 r) + 1"
        by (rule less.hyps [OF dec]) (use n less.prems dec in linarith)+
      then show ?thesis unfolding e n .
    qed
  qed
qed

lemma dns_query_safe: "length h \<le> 255 \<Longrightarrow> \<exists>q. dns_query txid h = Inr q \<and> length q \<le> 273"
proof -
  have len: "length (dns_header a b c d e f) = 12" for a b c d e f by (simp add: dns_header_def)
  assume "length h \<le> 255"
  then show ?thesis using encode_labels_safe [of "[]" h] by (auto simp: dns_query_def encode_name_def len)
qed

text \<open>
  Queries are right.  Every host name of up to 255 bytes, whatever its bytes are, is made
  into a query without writing beyond the buffer; and the query for a name of dotted labels of 1
  to 63 bytes is the message that asks one question, for the address of the name with these
  labels.  (The shell's command line bounds a name by 246 bytes; the encoder itself has no check
  that would stop the four bytes after a longer name from being written behind the buffer.)
\<close>

theorem dns_query_correct:
  "(length h \<le> 255 \<longrightarrow> (\<exists>q. dns_query txid h = Inr q \<and> length q \<le> 273))
   \<and> ((\<forall>l \<in> set ls. 1 \<le> length l \<and> length l \<le> 63 \<and> 46 \<notin> set l) \<longrightarrow> length (concat (map label_bytes ls)) \<le> 254
      \<longrightarrow> dns_query txid (dotted ls) = Inr (message_bytes txid DNS_FLAG_RD [((ls, None), 1, 1)] [] [] []))"
proof (intro conjI impI)
  have len: "length (dns_header a b c d e f) = 12" for a b c d e f by (simp add: dns_header_def)
  show "length h \<le> 255 \<Longrightarrow> \<exists>q. dns_query txid h = Inr q \<and> length q \<le> 273" by (rule dns_query_safe)
  assume ls: "\<forall>l \<in> set ls. 1 \<le> length l \<and> length l \<le> 63 \<and> 46 \<notin> set l" "length (concat (map label_bytes ls)) \<le> 254"
  have "encode_labels (dotted ls) 500 [] = Inr (concat (map label_bytes ls))"
    using encode_labels_dotted [OF ls(1), of "[]"] ls(2) by simp
  then have "dns_query txid (dotted ls) = Inr (dns_header (htons txid) (htons DNS_FLAG_RD) (htons 1) 0 0 0
      @ (concat (map label_bytes ls) @ [0]) @ [0, 1, 0, 1])"
    using ls(2) by (simp add: dns_query_def encode_name_def len DNS_TYPE_A_def DNS_CLASS_IN_def)
  moreover have "be16 1 = [0, 1]" "le_bytes 2 (0 :: u16) = be16 0" by (simp_all add: be16_two eval_nat_numeral)
  ultimately show "dns_query txid (dotted ls) = Inr (message_bytes txid DNS_FLAG_RD [((ls, None), 1, 1)] [] [] [])"
    by (simp add: dns_header_def htons_bytes message_bytes_def question_bytes_def)
qed

text \<open>The name \<open>a.bc\<close>, and a name of 255 dots.\<close>

theorem dns_query_correct_witness:
  "dns_query 7 [97, 46, 98, 99] = Inr (message_bytes 7 DNS_FLAG_RD [(([[97], [98, 99]], None), 1, 1)] [] [] [])
   \<and> (\<exists>q. dns_query 7 (replicate 255 46) = Inr q)"
proof -
  have "dotted [[97], [98, 99]] = [97, 46, 98, 99]" by simp
  then show ?thesis using dns_query_correct [of "replicate 255 46" 7 "[[97], [98, 99]]"] by (auto simp: label_bytes_def)
qed

section \<open>Waiting for the response\<close>

text \<open>
  The resolver polls the stack, which takes every frame there is, and only then looks for its
  response among the frames that arrived in between.
\<close>

definition is_answer :: "u16 \<Rightarrow> packet \<Rightarrow> u32 \<Rightarrow> ipv4 \<Rightarrow> bool" where
  "is_answer txid buf len ip \<longleftrightarrow> 54 \<le> unat len \<and> unat len \<le> 1500 \<and> ntohs (get16 buf 12) = ETH_TYPE_IPV4 \<and> buf 23 = IP_PROTO_UDP
     \<and> ntohs (get16 buf 34) = 53 \<and> parse_response txid (\<lambda>i. buf (42 + i)) (unat len - 42) = Some ip"

definition dns_target :: "'a net_scheme \<Rightarrow> ipv4" where
  "dns_target s = (if get_dns s = 0 then make_ip 10 0 2 3 else get_dns s)"

text \<open>After \<open>2 k\<close> receives at the latest the clock shows that a number of ticks have passed.\<close>

definition clock_runs :: "nic \<Rightarrow> u64 \<Rightarrow> nat \<Rightarrow> bool" where
  "clock_runs dev w k \<longleftrightarrow> (\<forall>t j d. 2 * k \<le> d \<longrightarrow> d \<le> 2 * k + 1 \<longrightarrow> \<not> clock dev t (j + d) - clock dev t j < w)"

lemma clock_runsD: "clock_runs dev w k \<Longrightarrow> 2 * k \<le> d \<Longrightarrow> d \<le> 2 * k + 1 \<Longrightarrow> \<not> clock dev t (j + d) - clock dev t j < w"
  by (simp add: clock_runs_def)

text \<open>States that differ only in what was sent and received.\<close>

definition same_net :: "'a socks_scheme \<Rightarrow> 'a socks_scheme \<Rightarrow> bool" where
  "same_net s t \<longleftrightarrow> arp_cache t = arp_cache s \<and> local_ip t = local_ip s \<and> gateway_ip t = gateway_ip s
     \<and> netmask t = netmask s \<and> dns_server t = dns_server s \<and> polls s \<le> polls t"

lemma same_net_trans: "same_net s t \<Longrightarrow> same_net t u \<Longrightarrow> same_net s u"
  by (simp add: same_net_def)

lemma same_net_route: "same_net s t \<Longrightarrow> route_cached dst t = route_cached dst s"
  by (simp add: same_net_def route_cached_def next_hop_def arp_lookup_def cong: option.case_cong)

lemma send_ip_same_net:
  fixes s :: "'a socks_scheme"
  assumes "route_cached dst s"
  shows "\<exists>t b. send_ip dev poll dst p payload s = Inr (t, b) \<and> same_net s t \<and> polls t = polls s"
proof -
  obtain frames c b where "send_ip dev poll dst p payload s = Inr (s\<lparr>tx := frames, ip_id_counter := c\<rparr>, b)"
    by (rule send_ip_cached [OF assms])
  then show ?thesis by (simp add: same_net_def)
qed

lemma udp_frame_keeps:
  fixes s :: "'a socks_scheme"
  assumes "ntohs (get16 buf 12) = ETH_TYPE_IPV4" "buf 23 = IP_PROTO_UDP"
  shows "\<exists>t. net_handle_packet dev tcp socket_udp_input buf len s = Inr t \<and> same_net s t \<and> polls t = polls s \<and> tx t = tx s"
proof -
  have u: "same_net s (socket_udp_input a b c d e s)" "polls (socket_udp_input a b c d e s) = polls s"
      "tx (socket_udp_input a b c d e s) = tx s" for a b c d e
    by (simp_all add: socket_udp_input_def upd_udp_def same_net_def Let_def split: option.split)
  have r: "same_net s s" by (simp add: same_net_def)
  show ?thesis unfolding net_handle_packet_def handle_ipv4_def handle_udp_def Let_def
    using assms u r by (auto simp: ETH_TYPE_IPV4_def ETH_TYPE_ARP_def IP_PROTO_UDP_def IP_PROTO_ICMP_def IP_PROTO_TCP_def)
qed

lemma same_net_refl [simp]: "same_net s s" "same_net s (s\<lparr>polls := polls s + m\<rparr>)"
  by (simp_all add: same_net_def)

lemma dns_wait_quiet:
  fixes s :: "'a resolv_scheme"
  assumes "\<And>t j. polls s \<le> j \<Longrightarrow> wire dev t j = None" "i < k" "\<not> clock dev (tx s) (polls s + 2 * i) - start < 300"
  shows "\<exists>m. dns_wait dev (Suc n) k txid start s = Inr (s\<lparr>polls := polls s + m\<rparr>, None)"
  using assms
proof (induction k arbitrary: s i)
  case (Suc k)
  show ?case
  proof (cases "get_ticks_net dev s - start < 300")
    case True
    then have "i \<noteq> 0" using Suc.prems(3) by (cases "i = 0") (auto simp: get_ticks_net_def)
    then obtain j where i: "i = Suc j" by (cases i) auto
    let ?s = "s\<lparr>polls := polls s + 2\<rparr>"
    have "\<exists>m. dns_wait dev (Suc n) k txid start ?s = Inr (?s\<lparr>polls := polls ?s + m\<rparr>, None)"
      by (rule Suc.IH [where i = j]) (use Suc.prems i in \<open>simp_all add: add.commute add.left_commute\<close>)
    then show ?thesis using True Suc.prems(1) by (auto simp: nic_receive_def intro: exI [of _ "_ + 2"])
  next
    case False
    then have "dns_wait dev (Suc n) (Suc k) txid start s = Inr (s\<lparr>polls := polls s + 0\<rparr>, None)" by simp
    then show ?thesis by blast
  qed
qed simp

lemma dns_attempts_quiet:
  fixes s :: "'a resolv_scheme"
  assumes "\<And>t j. polls s \<le> j \<Longrightarrow> wire dev t j = None" "clock_runs dev 300 c" "c < k"
    and "route_cached server s"
  shows "\<exists>t. dns_attempts dev (Suc n) k server txid pkt a s = Inr (t, 0)"
  using assms(1,4)
proof (induction a arbitrary: s)
  case (Suc a)
  obtain t b where t: "send_ip dev (net_poll dev (Suc n)) server IP_PROTO_UDP pkt s = Inr (t, b)" "same_net s t" "polls t = polls s"
    using send_ip_same_net [OF Suc.prems(2)] by blast
  have "\<not> clock dev (tx t) (polls t + 2 * c) - get_ticks_net dev t < 300"
    using assms(2) by (simp add: clock_runs_def get_ticks_net_def)
  then have "\<exists>m. dns_wait dev (Suc n) k txid (get_ticks_net dev t) t = Inr (t\<lparr>polls := polls t + m\<rparr>, None)"
    by (intro dns_wait_quiet [where i = c]) (use Suc.prems(1) t(3) assms(3) in auto)
  then obtain m where m: "dns_wait dev (Suc n) k txid (get_ticks_net dev t) t = Inr (t\<lparr>polls := polls t + m\<rparr>, None)"
    by blast
  let ?u = "t\<lparr>polls := polls t + m\<rparr>"
  have "same_net s ?u" using t(2) by (auto intro: same_net_trans)
  then have "\<exists>v. dns_attempts dev (Suc n) k server txid pkt a ?u = Inr (v, 0)"
    by (intro Suc.IH) (use Suc.prems t(3) same_net_route [of s ?u server] in auto)
  then show ?case using t(1) m by simp
qed simp

text \<open>
  C38: answers are seen only by luck.  A response that arrives in the moment between the first
  poll of the stack and the resolver's own first look at the device is taken, and its address
  returned.  A response that is there earlier, when the resolver first polls, is handed to the stack, which has no
  socket for it: if nothing else arrives, all three attempts wait until their time is over and
  the resolver reports failure.
\<close>

theorem dns_answer_seen_or_lost:
  fixes s :: "'a resolv_scheme"
  assumes "length h \<le> 255" "route_cached (dns_target s) s" "is_answer (dns_txid s) buf len ip"
  shows "((\<forall>t. wire dev t (polls s) = None \<and> wire dev t (polls s + 1) = Some (buf, len))
      \<longrightarrow> (\<exists>t. dns_resolve dev (Suc n) (Suc k) h s = Inr (t, ip)))
    \<and> ((\<forall>t j. wire dev t j = (if j = polls s then Some (buf, len) else None)) \<and> clock_runs dev 300 c \<and> 1 \<le> c \<and> c < k
      \<longrightarrow> (\<exists>t. dns_resolve dev (Suc (Suc n)) (Suc k) h s = Inr (t, 0)))"
proof -
  define u where "u = s\<lparr>dns_txid := dns_txid s + 1\<rparr>"
  obtain q where q: "dns_query (dns_txid s) h = Inr q" "length q \<le> 273" using dns_query_safe [OF assms(1)] by blast
  let ?pkt = "dns_udp (dns_txid s) q" and ?server = "dns_target s"
  have r: "dns_resolve dev f g h s = dns_attempts dev f g ?server (dns_txid s) ?pkt 3 u" for f g
    by (simp add: dns_resolve_def dns_target_def q(1) u_def Let_def)
  have "same_net s u" by (simp add: u_def same_net_def)
  then have u: "polls u = polls s" "route_cached ?server u"
    using assms(2) same_net_route [of s u] by (simp_all add: u_def)
  have a: "54 \<le> unat len" "\<not> len > 1500" "\<not> len > MAX_PACKET" "\<not> len < 54" "ntohs (get16 buf 12) = ETH_TYPE_IPV4" "buf 23 = IP_PROTO_UDP" "ntohs (get16 buf 34) = 53"
      "parse_response (dns_txid s) (\<lambda>i. buf (42 + i)) (unat len - 42) = Some ip"
    using assms(3) by (simp_all add: is_answer_def word_less_nat_alt MAX_PACKET_def MTU_def)
  have seen: "\<exists>t. dns_resolve dev (Suc n) (Suc k) h s = Inr (t, ip)"
    if w: "\<forall>t. wire dev t (polls s) = None \<and> wire dev t (polls s + 1) = Some (buf, len)"
  proof -
    obtain t b where t: "send_ip dev (net_poll dev (Suc n)) ?server IP_PROTO_UDP ?pkt u = Inr (t, b)" "polls t = polls u"
      using send_ip_same_net [OF u(2)] by blast
    have "dns_wait dev (Suc n) (Suc k) (dns_txid s) (get_ticks_net dev t) t = Inr (t\<lparr>polls := polls t + 2\<rparr>, Some ip)"
      using w t(2) u(1) a by (simp add: nic_receive_def)
    then show ?thesis by (simp add: r t(1) numeral_3_eq_3 del: dns_wait.simps net_poll.simps)
  qed
  have lost: "\<exists>t. dns_resolve dev (Suc (Suc n)) (Suc k) h s = Inr (t, 0)"
    if w: "\<forall>t j. wire dev t j = (if j = polls s then Some (buf, len) else None)" and c: "clock_runs dev 300 c" "1 \<le> c" "c < k"
  proof -
    let ?f = "Suc (Suc n)"
    obtain t b where t: "send_ip dev (net_poll dev ?f) ?server IP_PROTO_UDP ?pkt u = Inr (t, b)" "polls t = polls u" "same_net u t"
      using send_ip_same_net [OF u(2)] by blast
    obtain v where v: "net_handle_packet dev (tcp_input dev (send_ip dev (net_poll dev (Suc n)))) socket_udp_input buf len (t\<lparr>polls := polls t + 1\<rparr>) = Inr v"
        "same_net (t\<lparr>polls := polls t + 1\<rparr>) v" "polls v = polls t + 1" "tx v = tx t"
      using udp_frame_keeps [OF a(5,6), of dev _ len "t\<lparr>polls := polls t + 1\<rparr>"] by fastforce
    let ?v = "v\<lparr>polls := polls v + 2\<rparr>"
    have "dns_wait dev ?f (Suc k) (dns_txid s) (get_ticks_net dev t) t = dns_wait dev ?f k (dns_txid s) (get_ticks_net dev t) ?v"
      using w t(2) u(1) a v by (simp add: nic_receive_def)
    moreover have "\<exists>m. dns_wait dev ?f k (dns_txid s) (get_ticks_net dev t) ?v = Inr (?v\<lparr>polls := polls ?v + m\<rparr>, None)"
    proof (rule dns_wait_quiet)
      show "wire dev x j = None" if "polls ?v \<le> j" for x j using w that v(3) t(2) u(1) by auto
      show "c - 1 < k" using c by simp
      have "polls ?v + 2 * (c - 1) = polls t + (2 * c + 1)" using v(3) c(2) by simp
      then show "\<not> clock dev (tx ?v) (polls ?v + 2 * (c - 1)) - get_ticks_net dev t < 300"
        using clock_runsD [OF c(1), of "2 * c + 1" "tx t" "polls t"] v(4) by (simp add: get_ticks_net_def)
    qed
    ultimately obtain m where m: "dns_wait dev ?f (Suc k) (dns_txid s) (get_ticks_net dev t) t = Inr (?v\<lparr>polls := polls ?v + m\<rparr>, None)" by (metis (no_types, lifting))
    let ?w = "?v\<lparr>polls := polls ?v + m\<rparr>"
    have "same_net u ?w" using t(3) v(2) by (auto simp: same_net_def)
    then have "\<exists>x. dns_attempts dev ?f (Suc k) ?server (dns_txid s) ?pkt 2 ?w = Inr (x, 0)"
      by (intro dns_attempts_quiet [OF _ c(1)]) (use w v(3) t(2) u c same_net_route [of u ?w ?server] in simp_all)
    then show ?thesis using t(1) m by (auto simp: r numeral_3_eq_3 numeral_2_eq_2 simp del: dns_wait.simps net_poll.simps)
  qed
  show ?thesis using seen lost by (intro conjI impI) (assumption, elim conjE, assumption+)
qed

definition reply_frame :: packet where
  "reply_frame i =
     (if i = 12 then 8 else if i = 23 then 17 else if i = 35 then 53 else if i < 42 then 0
      else if i < 93 then message_bytes 9 0x8180 [(([[97]], None), 1, 1)] reply_records [] [] ! (i - 42) else 0)"

definition name_client :: resolv where
  "name_client =
     \<lparr>tx = [], polls = 0, local_ip = make_ip 10 0 2 15, gateway_ip = make_ip 10 0 2 2, netmask = make_ip 255 255 255 0,
      dns_server = 0, local_mac = [2, 0, 0, 0, 0, 1], ip_id_counter = 1,
      arp_cache = \<lparr>arp_ip = make_ip 10 0 2 3, arp_mac = [2, 0, 0, 0, 0, 3], arp_valid = True\<rparr>
        # replicate 31 \<lparr>arp_ip = 0, arp_mac = MAC_ZERO, arp_valid = False\<rparr>,
      connections = replicate 16 zero_connection, next_ephemeral_port = 49152,
      sockets = replicate 64 zero_socket, next_udp_port = 50000, udp_bufs = replicate 64 zero_udp, dns_txid = 9\<rparr>"

lemma reply_is_answer: "is_answer 9 reply_frame 93 (make_ip 10 0 2 7)"
proof -
  define qs :: "(wire_name \<times> u16 \<times> u16) list" where "qs = [(([[97]], None), 1, 1)]"
  define m where "m = message_bytes 9 0x8180 qs reply_records [] []"
  have l: "length m = 51"
    by (simp add: m_def qs_def message_bytes_def reply_records_def record_bytes_def question_bytes_def label_bytes_def)
  let ?d = "\<lambda>i. reply_frame (42 + i)"
  have "holds_at ?d 0 m" using l by (simp add: holds_at_def reply_frame_def m_def qs_def)
  moreover have "\<forall>r \<in> set reply_records. record_ok r" "\<forall>(nm, ty, cl) \<in> set qs. name_ok nm"
    by (simp_all add: qs_def reply_records_def record_ok_def name_ok_def label_bytes_def)
  moreover have "length reply_records < 65536" "length qs < 65536" by (simp_all add: reply_records_def qs_def)
  moreover have "(0x8180 :: u16) AND DNS_FLAG_QR \<noteq> 0" "(0x8180 :: u16) AND DNS_RCODE_MASK = 0"
    by (simp_all add: DNS_FLAG_QR_def DNS_RCODE_MASK_def)
  ultimately have "parse_response 9 ?d 51 = first_address reply_records"
    using parse_response_wire [of qs reply_records ?d 9 "0x8180" "[]" "[]" 51 9] l unfolding m_def by simp
  moreover have "first_address reply_records = Some (make_ip 10 0 2 7)"
    by (simp add: first_address_def reply_records_def is_address_def make_ip_def push_bit_eq_mult)
  ultimately show ?thesis
    by (simp add: is_answer_def reply_frame_def ntohs_get16 ETH_TYPE_IPV4_def IP_PROTO_UDP_def)
qed

theorem dns_answer_seen_or_lost_witness:
  "(\<exists>t. dns_resolve \<lparr>confirms = \<lambda>_. True, wire = \<lambda>_ j. if j = 1 then Some (reply_frame, 93) else None, clock = \<lambda>_ j. of_nat j\<rparr>
      1 1 [97] name_client = Inr (t, make_ip 10 0 2 7))
   \<and> (\<exists>t. dns_resolve \<lparr>confirms = \<lambda>_. True, wire = \<lambda>_ j. if j = 0 then Some (reply_frame, 93) else None, clock = \<lambda>_ j. of_nat j\<rparr>
      2 152 [97] name_client = Inr (t, 0))"
proof -
  define late where "late = \<lparr>confirms = \<lambda>_ :: u8 list list. True, wire = \<lambda>_ j. if j = 1 then Some (reply_frame, 93) else None, clock = \<lambda>_ j. of_nat j\<rparr>"
  define early where "early = \<lparr>confirms = \<lambda>_ :: u8 list list. True, wire = \<lambda>_ j. if j = 0 then Some (reply_frame, 93) else None, clock = \<lambda>_ j. of_nat j\<rparr>"
  have i: "dns_txid name_client = 9" "polls name_client = 0" "dns_target name_client = make_ip 10 0 2 3"
    by (simp_all add: name_client_def dns_target_def get_dns_def)
  have gw: "make_ip 10 0 2 3 AND make_ip 255 255 255 0 = make_ip 10 0 2 15 AND make_ip 255 255 255 0"
    by (simp add: make_ip_def push_bit_eq_mult)
  have "arp_lookup (next_hop (make_ip 10 0 2 3) name_client) name_client = [2, 0, 0, 0, 0, 3]"
    by (simp add: name_client_def next_hop_def arp_lookup_def ARP_CACHE_SIZE_def upt_rec [of 0 32] gw)
  then have a: "route_cached (dns_target name_client) name_client"
    unfolding i(3) by (simp add: MAC_ZERO_def eval_nat_numeral route_cached_def)
  have an: "is_answer (dns_txid name_client) reply_frame 93 (make_ip 10 0 2 7)" unfolding i(1) by (rule reply_is_answer)
  have c: "clock_runs early 300 150" by (auto simp: clock_runs_def early_def word_less_nat_alt unat_of_nat take_bit_nat_eq_self)
  have l: "length [97 :: u8] \<le> 255" by simp
  note th = dns_answer_seen_or_lost [OF l a an]
  have "\<exists>t. dns_resolve late (Suc 0) (Suc 0) [97] name_client = Inr (t, make_ip 10 0 2 7)"
    using th [of late 0 0 0] i(2) by (simp add: late_def)
  moreover have "\<exists>t. dns_resolve early (Suc (Suc 0)) (Suc 151) [97] name_client = Inr (t, 0)"
    using th [of early 0 151 150] i(2) c by (simp add: early_def)
  ultimately show ?thesis unfolding late_def early_def by (simp add: numeral_2_eq_2)
qed

end
