(* ===== verification/Dhcp.thy ===== *)
theory Dhcp
  imports Dns
begin

text \<open>
  The DHCP client, src/src/net/dhcp.cpp, and the configuration of the network at boot by
  \<open>Net::init\<close> (src/src/net/net.cpp).  What the code prints is kept as the list of its calls of
  \<open>UART::puts\<close> and \<open>UART::printf\<close>, format and arguments.  As in the resolver, the loop that
  waits for a reply runs on fuel.
\<close>

section \<open>State\<close>

record dhcpc = resolv +
  dhcp_xid :: u32
  said :: "(string \<times> u64 list) list"

definition say :: "string \<Rightarrow> u64 list \<Rightarrow> 'a dhcpc_scheme \<Rightarrow> 'a dhcpc_scheme" where
  "say fmt args s = s\<lparr>said := said s @ [(fmt, args)]\<rparr>"

definition DHCP_MAGIC :: u32 where "DHCP_MAGIC = 0x63538263"
definition DHCP_DISCOVER :: u8 where "DHCP_DISCOVER = 1"
definition DHCP_OFFER :: u8 where "DHCP_OFFER = 2"
definition DHCP_REQUEST :: u8 where "DHCP_REQUEST = 3"
definition DHCP_ACK :: u8 where "DHCP_ACK = 5"

section \<open>Messages\<close>

definition add_option :: "u8 \<Rightarrow> u8 list \<Rightarrow> u8 list" where
  "add_option code data = code # of_nat (length data) # data"

definition add_option_byte :: "u8 \<Rightarrow> u8 \<Rightarrow> u8 list" where
  "add_option_byte code val = add_option code [val]"

text \<open>The search starts at an offset into the 308 bytes of options and finds the offset of the data.\<close>

function find_option_from :: "packet \<Rightarrow> u8 \<Rightarrow> nat \<Rightarrow> nat option" where
  "find_option_from options code p =
     (if p < 308 \<and> options p \<noteq> 0xFF
      then if options p = 0 then find_option_from options code (p + 1)
           else if p + 1 \<ge> 308 then None
           else if options p = code then Some (p + 2)
           else find_option_from options code (p + 2 + unat (options (p + 1)))
      else None)"
  by auto

termination by (relation "measure (\<lambda>(_, _, p). 308 - p)") auto

declare find_option_from.simps [simp del]

text \<open>A received message is a function from offsets to bytes; its options start at offset 240.\<close>

definition find_option :: "packet \<Rightarrow> u8 \<Rightarrow> nat option" where
  "find_option msg code = map_option (\<lambda>p. 240 + p) (find_option_from (\<lambda>i. msg (240 + i)) code 0)"

definition dhcp_options :: "u8 \<Rightarrow> u32 \<Rightarrow> u32 \<Rightarrow> u8 list" where
  "dhcp_options msg_type server_ip requested_ip =
     add_option_byte 53 msg_type
     @ (if msg_type = DHCP_REQUEST
        then (if requested_ip \<noteq> 0 then add_option 50 (le_bytes 4 requested_ip) else [])
             @ (if server_ip \<noteq> 0 then add_option 54 (le_bytes 4 server_ip) else [])
        else [])
     @ add_option 55 [1, 3, 6, 15] @ [0xFF]"

definition dhcp_packet :: "u32 \<Rightarrow> mac \<Rightarrow> u8 list \<Rightarrow> u8 list" where
  "dhcp_packet xid hw options =
     [1, 1, 6, 0] @ le_bytes 4 xid @ le_bytes 2 (0 :: u16) @ le_bytes 2 (htons 0x8000)
     @ replicate 16 0 @ (hw @ replicate 10 0) @ replicate 64 0 @ replicate 128 0
     @ le_bytes 4 DHCP_MAGIC @ options @ replicate (308 - length options) 0"

definition send_dhcp :: "nic \<Rightarrow> u8 \<Rightarrow> u32 \<Rightarrow> u32 \<Rightarrow> 'a dhcpc_scheme \<Rightarrow> 'a dhcpc_scheme \<times> bool" where
  "send_dhcp dev msg_type server_ip requested_ip s =
     (let pkt = eth_header MAC_BROADCAST (get_mac s) (htons ETH_TYPE_IPV4)
            @ ip_header20 (htons (20 + 8 + 548)) 0 0 IP_PROTO_UDP 0 0xFFFFFFFF
            @ udp_header (htons 68) (htons 67) (htons (8 + 548)) 0
            @ dhcp_packet (dhcp_xid s) (get_mac s) (dhcp_options msg_type server_ip requested_ip)
      in send_frame dev pkt s)"

text \<open>The tests a received frame has to pass; the message starts behind the three headers.\<close>

definition dhcp_reply :: "u8 \<Rightarrow> u32 \<Rightarrow> packet \<Rightarrow> u32 \<Rightarrow> packet option" where
  "dhcp_reply expected_type xid buf len =
     (let msg = (\<lambda>i. buf (14 + 20 + 8 + i))
      in if len < 14 + 20 + 8 + 240 then None
         else if buf (14 + 9) \<noteq> IP_PROTO_UDP then None
         else if ntohs (get16 buf (14 + 20 + 2)) \<noteq> 68 then None
         else if msg 0 \<noteq> 2 then None
         else if get32 msg 4 \<noteq> xid then None
         else if get32 msg 236 \<noteq> DHCP_MAGIC then None
         else case find_option msg 53 of
                None \<Rightarrow> None
              | Some p \<Rightarrow> if msg p \<noteq> expected_type then None else Some msg)"

fun receive_dhcp ::
  "nic \<Rightarrow> nat \<Rightarrow> nat \<Rightarrow> u8 \<Rightarrow> u64 \<Rightarrow> u64 \<Rightarrow> 'a dhcpc_scheme \<Rightarrow> ('a dhcpc_scheme \<times> packet option) outcome" where
  "receive_dhcp dev n 0 expected_type timeout_ticks start s = Inl Out_of_fuel"
| "receive_dhcp dev n (Suc k) expected_type timeout_ticks start s =
     (if \<not> get_ticks_net dev s - start < timeout_ticks then Inr (s, None)
      else and_then (net_poll dev n s)
        (\<lambda>s. case nic_receive dev 1500 s of
               (s, None) \<Rightarrow> receive_dhcp dev n k expected_type timeout_ticks start s
             | (s, Some (buf, len)) \<Rightarrow>
                 (case dhcp_reply expected_type (dhcp_xid s) buf len of
                    None \<Rightarrow> receive_dhcp dev n k expected_type timeout_ticks start s
                  | Some msg \<Rightarrow> Inr (s, Some msg))))"

definition await_dhcp :: "nic \<Rightarrow> nat \<Rightarrow> nat \<Rightarrow> u8 \<Rightarrow> 'a dhcpc_scheme \<Rightarrow> ('a dhcpc_scheme \<times> packet option) outcome" where
  "await_dhcp dev n k expected_type s = receive_dhcp dev n k expected_type 500 (get_ticks_net dev s) s"

section \<open>Configuration\<close>

definition octets :: "ipv4 \<Rightarrow> u64 list" where
  "octets a = map (\<lambda>i. ucast (drop_bit (8 * i) a AND 0xFF)) [0..<4]"

definition configure :: "packet \<Rightarrow> 'a dhcpc_scheme \<Rightarrow> 'a dhcpc_scheme" where
  "configure ack s =
     (let s = set_ip (get32 ack 16) s;
          s = (case find_option ack 1 of Some p \<Rightarrow> set_netmask (get32 ack p) s | None \<Rightarrow> s);
          s = (case find_option ack 3 of Some p \<Rightarrow> set_gateway (get32 ack p) s | None \<Rightarrow> s);
          s = (case find_option ack 6 of Some p \<Rightarrow> set_dns (get32 ack p) s | None \<Rightarrow> s)
      in say (''  DHCP: IP=%u.%u.%u.%u GW=%u.%u.%u.%u DNS=%u.%u.%u.%u'' @ [CHR 0x0A])
           (octets (get_ip s) @ octets (get_gateway s) @ octets (get_dns s)) s)"

definition dhcp_discover :: "nic \<Rightarrow> nat \<Rightarrow> nat \<Rightarrow> 'a dhcpc_scheme \<Rightarrow> ('a dhcpc_scheme \<times> bool) outcome" where
  "dhcp_discover dev n k s =
     (let s = say (''  DHCP: discovering...'' @ [CHR 0x0A]) [] s;
          s = s\<lparr>dhcp_xid := dhcp_xid s + 1\<rparr>;
          (s, sent) = send_dhcp dev DHCP_DISCOVER 0 0 s
      in if \<not> sent then Inr (say (''  DHCP: failed to send DISCOVER'' @ [CHR 0x0A]) [] s, False)
         else and_then (await_dhcp dev n k DHCP_OFFER s)
           (\<lambda>(s, reply). case reply of
              None \<Rightarrow> Inr (say (''  DHCP: no OFFER received'' @ [CHR 0x0A]) [] s, False)
            | Some offer \<Rightarrow>
                let server_ip = (case find_option offer 54 of Some p \<Rightarrow> get32 offer p | None \<Rightarrow> get32 offer 20);
                    (s, sent) = send_dhcp dev DHCP_REQUEST server_ip (get32 offer 16) s
                in if \<not> sent then Inr (say (''  DHCP: failed to send REQUEST'' @ [CHR 0x0A]) [] s, False)
                   else and_then (await_dhcp dev n k DHCP_ACK s)
                     (\<lambda>(s, reply). case reply of
                        None \<Rightarrow> Inr (say (''  DHCP: no ACK received'' @ [CHR 0x0A]) [] s, False)
                      | Some ack \<Rightarrow> Inr (configure ack s, True))))"

text \<open>\<open>Net::init\<close>; whether the driver finds a device, and its hardware address, is an argument.\<close>

definition net_init :: "nic \<Rightarrow> nat \<Rightarrow> nat \<Rightarrow> mac option \<Rightarrow> 'a dhcpc_scheme \<Rightarrow> 'a dhcpc_scheme outcome" where
  "net_init dev n k probe s =
     (let s = s\<lparr>arp_cache := replicate ARP_CACHE_SIZE \<lparr>arp_ip = 0, arp_mac = MAC_ZERO, arp_valid = False\<rparr>\<rparr>
      in case probe of
           None \<Rightarrow> Inr s
         | Some m \<Rightarrow>
             and_then (dhcp_discover dev n k (s\<lparr>local_mac := m\<rparr>))
               (\<lambda>(s, ok).
                  let s = (if ok then s
                           else say (''  DHCP failed, using static config'' @ [CHR 0x0A]) []
                                  (s\<lparr>local_ip := make_ip 10 0 2 15, gateway_ip := make_ip 10 0 2 2,
                                     netmask := make_ip 255 255 255 0, dns_server := make_ip 10 0 2 3\<rparr>))
                  in Inr (say (''  [ok] Network: %u.%u.%u.%u gw %u.%u.%u.%u dns %u.%u.%u.%u'' @ [CHR 0x0A])
                            (octets (local_ip s) @ octets (gateway_ip s) @ octets (dns_server s)) s)))"

section \<open>Options\<close>

type_synonym option_list = "(u8 \<times> u8 list) list"

definition options_bytes :: "option_list \<Rightarrow> u8 list" where
  "options_bytes opts = concat (map (\<lambda>(c, d). add_option c d) opts) @ [0xFF]"

definition options_ok :: "option_list \<Rightarrow> bool" where
  "options_ok opts \<longleftrightarrow> (\<forall>(c, d) \<in> set opts. c \<noteq> 0 \<and> c \<noteq> 0xFF \<and> length d \<le> 255) \<and> length (options_bytes opts) \<le> 308"

lemma options_bytes_Cons: "options_bytes ((c, d) # opts) = c # of_nat (length d) # d @ options_bytes opts"
  by (simp add: options_bytes_def add_option_def)

lemma find_option_from_bytes:
  "\<forall>(c, d) \<in> set opts. c \<noteq> 0 \<and> c \<noteq> 0xFF \<and> length d \<le> 255 \<Longrightarrow> holds_at od p (options_bytes opts)
     \<Longrightarrow> p + length (options_bytes opts) \<le> 308
     \<Longrightarrow> (case map_of opts code of
            None \<Rightarrow> find_option_from od code p = None
          | Some d \<Rightarrow> \<exists>q. find_option_from od code p = Some q \<and> holds_at od q d)"
proof (induction opts arbitrary: p)
  case Nil
  then show ?case by (simp add: options_bytes_def find_option_from.simps)
next
  case (Cons x opts)
  obtain c d where x: "x = (c, d)" by force
  have ok: "c \<noteq> 0" "c \<noteq> 0xFF" "length d \<le> 255" using Cons.prems(1) x by auto
  have h: "od p = c" "od (p + 1) = of_nat (length d)" "holds_at od (p + 2) d" "holds_at od (p + 2 + length d) (options_bytes opts)"
    using Cons.prems(2) by (simp_all add: x options_bytes_Cons add.commute)
  have e: "p + 2 + length d + length (options_bytes opts) \<le> 308" using Cons.prems(3) by (simp add: x options_bytes_Cons)
  have "find_option_from od code p = (if c = code then Some (p + 2) else find_option_from od code (p + 2 + length d))"
    using ok h e by (subst find_option_from.simps) (simp add: label_cut)
  moreover have "case map_of opts code of None \<Rightarrow> find_option_from od code (p + 2 + length d) = None
      | Some d' \<Rightarrow> \<exists>q. find_option_from od code (p + 2 + length d) = Some q \<and> holds_at od q d'"
    by (rule Cons.IH [OF _ h(4) e]) (use Cons.prems(1) in simp)
  ultimately show ?case using h(3) by (cases "c = code") (auto simp: x split: option.splits)
qed

lemma find_option_bytes:
  assumes "options_ok opts" "holds_at msg 240 (options_bytes opts)"
  shows "case map_of opts code of
      None \<Rightarrow> find_option msg code = None
    | Some d \<Rightarrow> \<exists>q. find_option msg code = Some q \<and> holds_at msg q d"
proof -
  let ?od = "\<lambda>i. msg (240 + i)"
  have h: "holds_at ?od q d = holds_at msg (240 + q) d" for q d by (simp add: holds_at_def add.assoc)
  have "case map_of opts code of None \<Rightarrow> find_option_from ?od code 0 = None
      | Some d \<Rightarrow> \<exists>q. find_option_from ?od code 0 = Some q \<and> holds_at ?od q d"
    by (rule find_option_from_bytes) (use assms h [of 0] in \<open>simp_all add: options_ok_def\<close>)
  then show ?thesis unfolding find_option_def h by (auto split: option.splits)
qed

section \<open>Obtaining a lease\<close>

definition server_message :: "u32 \<Rightarrow> option_list \<Rightarrow> packet \<Rightarrow> u32 \<Rightarrow> bool" where
  "server_message xid opts buf len \<longleftrightarrow> 282 \<le> unat len \<and> unat len \<le> 1500 \<and> buf 23 = IP_PROTO_UDP
     \<and> ntohs (get16 buf 36) = 68 \<and> buf 42 = 2 \<and> get32 buf 46 = xid \<and> get32 buf 278 = DHCP_MAGIC
     \<and> options_ok opts \<and> holds_at buf 282 (options_bytes opts)"

text \<open>The first address in an option, or what was configured before.\<close>

definition leased :: "u8 \<Rightarrow> option_list \<Rightarrow> ipv4 \<Rightarrow> ipv4" where
  "leased code opts old = (case map_of opts code of Some d \<Rightarrow> of_le (take 4 d) | None \<Rightarrow> old)"

lemma server_options:
  assumes "server_message xid opts buf len"
  shows "map_of opts code = None \<Longrightarrow> find_option (\<lambda>i. buf (42 + i)) code = None"
    and "map_of opts code = Some d \<Longrightarrow> \<exists>q. find_option (\<lambda>i. buf (42 + i)) code = Some q \<and> holds_at (\<lambda>i. buf (42 + i)) q d"
proof -
  have "holds_at (\<lambda>i. buf (42 + i)) 240 (options_bytes opts)" "options_ok opts"
    using assms by (simp_all add: server_message_def holds_at_def)
  note o = find_option_bytes [OF this(2,1), of code]
  show "map_of opts code = None \<Longrightarrow> find_option (\<lambda>i. buf (42 + i)) code = None" using o by simp
  show "map_of opts code = Some d \<Longrightarrow> \<exists>q. find_option (\<lambda>i. buf (42 + i)) code = Some q \<and> holds_at (\<lambda>i. buf (42 + i)) q d"
    using o by simp
qed

lemma server_address:
  assumes "server_message xid opts buf len" "\<forall>d. map_of opts code = Some d \<longrightarrow> 4 \<le> length d"
  shows "(find_option (\<lambda>i. buf (42 + i)) code = None \<and> map_of opts code = None)
    \<or> (\<exists>q d. find_option (\<lambda>i. buf (42 + i)) code = Some q \<and> map_of opts code = Some d \<and> get32 (\<lambda>i. buf (42 + i)) q = of_le (take 4 d))"
proof (cases "map_of opts code")
  case None
  then show ?thesis using server_options(1) [OF assms(1) None] by simp
next
  case (Some d)
  obtain q where q: "find_option (\<lambda>i. buf (42 + i)) code = Some q" "holds_at (\<lambda>i. buf (42 + i)) q d"
    using server_options(2) [OF assms(1) Some] by blast
  have "holds_at (\<lambda>i. buf (42 + i)) q (take 4 d)" using q(2) by (simp add: holds_at_def)
  then have "get32 (\<lambda>i. buf (42 + i)) q = of_le (take 4 d)" using assms(2) Some by (intro holds_at_get32) auto
  then show ?thesis using q(1) Some by blast
qed

lemma configure_fields:
  fixes s :: "'a dhcpc_scheme"
  assumes "server_message xid ack buf len" "\<forall>c \<in> {1, 3, 6}. \<forall>d. map_of ack c = Some d \<longrightarrow> 4 \<le> length d"
  defines "t \<equiv> configure (\<lambda>i. buf (42 + i)) s"
  shows "local_ip t = get32 buf 58" "netmask t = leased 1 ack (netmask s)" "gateway_ip t = leased 3 ack (gateway_ip s)"
    "dns_server t = leased 6 ack (dns_server s)" "tx t = tx s"
proof -
  have y: "get32 (\<lambda>i. buf (42 + i)) 16 = get32 buf 58" by (simp add: get32_def)
  have l: "\<forall>d. map_of ack 1 = Some d \<longrightarrow> 4 \<le> length d" "\<forall>d. map_of ack 3 = Some d \<longrightarrow> 4 \<le> length d"
      "\<forall>d. map_of ack 6 = Some d \<longrightarrow> 4 \<le> length d" using assms(2) by simp_all
  note a = server_address [OF assms(1) l(1)] server_address [OF assms(1) l(2)] server_address [OF assms(1) l(3)]
  show "local_ip t = get32 buf 58" "netmask t = leased 1 ack (netmask s)" "gateway_ip t = leased 3 ack (gateway_ip s)"
      "dns_server t = leased 6 ack (dns_server s)" "tx t = tx s"
    unfolding t_def configure_def Let_def leased_def using a
    by (auto simp: say_def set_ip_def set_netmask_def set_gateway_def set_dns_def y)
qed

lemma server_reply:
  assumes "server_message xid opts buf len" "map_of opts 53 = Some [ty]"
  shows "dhcp_reply ty xid buf len = Some (\<lambda>i. buf (42 + i))"
proof -
  obtain q where q: "find_option (\<lambda>i. buf (42 + i)) 53 = Some q" "buf (42 + q) = ty"
    using server_options(2) [OF assms] by auto
  have l: "\<not> len < 14 + 20 + 8 + 240" using assms(1) by (simp add: server_message_def word_less_nat_alt)
  have g: "get32 (\<lambda>i. buf (42 + i)) 4 = get32 buf 46" "get32 (\<lambda>i. buf (42 + i)) 236 = get32 buf 278"
    by (simp_all add: get32_def)
  show ?thesis unfolding dhcp_reply_def Let_def using l q assms(1) g by (simp add: server_message_def)
qed

text \<open>The reply arrives in the \<open>i\<close>-th round, behind the poll and in front of the look.\<close>

lemma receive_dhcp_reply:
  fixes s :: "'a dhcpc_scheme"
  assumes "\<And>t p. polls s \<le> p \<Longrightarrow> p \<le> polls s + 2 * i \<Longrightarrow> wire dev t p = None"
    and "\<And>t. wire dev t (polls s + 2 * i + 1) = Some (buf, len)"
    and "server_message (dhcp_xid s) opts buf len" "map_of opts 53 = Some [ty]"
    and "\<And>m. m \<le> i \<Longrightarrow> clock dev (tx s) (polls s + 2 * m) - start < w" and "i < k"
  shows "receive_dhcp dev (Suc n) k ty w start s = Inr (s\<lparr>polls := polls s + 2 * i + 2\<rparr>, Some (\<lambda>i. buf (42 + i)))"
  using assms
proof (induction i arbitrary: s k)
  case 0
  have "\<not> len > 1500" using "0.prems"(3) by (simp add: server_message_def word_less_nat_alt)
  moreover obtain k' where "k = Suc k'" using "0.prems"(6) by (cases k) auto
  moreover have "get_ticks_net dev s - start < w" using "0.prems"(5) [of 0] by (simp add: get_ticks_net_def)
  ultimately show ?case using "0.prems"(1) [of "polls s"] "0.prems"(2) server_reply [OF "0.prems"(3,4)]
    by (simp add: nic_receive_def)
next
  case (Suc i)
  obtain k' where k: "k = Suc k'" using Suc.prems(6) by (cases k) auto
  let ?s = "s\<lparr>polls := polls s + 2\<rparr>"
  have c: "get_ticks_net dev s - start < w" using Suc.prems(5) [of 0] by (simp add: get_ticks_net_def)
  have "receive_dhcp dev (Suc n) k' ty w start ?s = Inr (?s\<lparr>polls := polls ?s + 2 * i + 2\<rparr>, Some (\<lambda>i. buf (42 + i)))"
  proof (rule Suc.IH)
    show "clock dev (tx ?s) (polls ?s + 2 * m) - start < w" if "m \<le> i" for m using Suc.prems(5) [of "Suc m"] that by simp
  qed (use Suc.prems k in \<open>simp_all add: add.commute add.left_commute\<close>)
  moreover have "wire dev t (polls s) = None" "wire dev t (Suc (polls s)) = None" for t using Suc.prems(1) by simp_all
  ultimately show ?case using c by (simp add: k nic_receive_def)
qed

lemma await_dhcp_reply:
  fixes s :: "'a dhcpc_scheme"
  assumes "\<And>t p. polls s \<le> p \<Longrightarrow> p \<le> polls s + 2 * i \<Longrightarrow> wire dev t p = None"
    and "\<And>t. wire dev t (polls s + 2 * i + 1) = Some (buf, len)"
    and "server_message (dhcp_xid s) opts buf len" "map_of opts 53 = Some [ty]"
    and "\<And>t m. m \<le> i \<Longrightarrow> clock dev t (polls s + 2 * m) - clock dev t (polls s) < 500" and "i < k"
  shows "await_dhcp dev (Suc n) k ty s = Inr (s\<lparr>polls := polls s + 2 * i + 2\<rparr>, Some (\<lambda>i. buf (42 + i)))"
  unfolding await_dhcp_def
  by (rule receive_dhcp_reply [OF assms(1-4)]) (use assms(5,6) in \<open>simp_all add: get_ticks_net_def\<close>)

text \<open>
  A message of the client as a frame on the wire: broadcast Ethernet and IP from address 0 with a
  verifying header, UDP from port 68 to port 67, a request (operation 1) with the number of the
  exchange, the hardware address of the client, the magic cookie and the options.
\<close>

definition client_message :: "mac \<Rightarrow> u32 \<Rightarrow> option_list \<Rightarrow> u8 list \<Rightarrow> bool" where
  "client_message hw xid opts f \<longleftrightarrow> length f = 590
     \<and> take 6 f = replicate 6 0xFF \<and> take 6 (drop 6 f) = hw \<and> take 2 (drop 12 f) = [8, 0]
     \<and> inet_checksum (take 20 (drop 14 f)) = 0 \<and> f ! 14 = 0x45 \<and> take 2 (drop 16 f) = be16 576 \<and> f ! 23 = 17
     \<and> take 4 (drop 26 f) = [0, 0, 0, 0] \<and> take 4 (drop 30 f) = [0xFF, 0xFF, 0xFF, 0xFF]
     \<and> take 6 (drop 34 f) = [0, 68, 0, 67] @ be16 556
     \<and> take 4 (drop 42 f) = [1, 1, 6, 0] \<and> take 4 (drop 46 f) = le_bytes 4 xid \<and> take 2 (drop 52 f) = [0x80, 0]
     \<and> take 6 (drop 70 f) = hw \<and> take 4 (drop 278 f) = [0x63, 0x82, 0x53, 0x63]
     \<and> take (length (options_bytes opts)) (drop 282 f) = options_bytes opts"

definition discover_options :: option_list where
  "discover_options = [(53, [1]), (55, [1, 3, 6, 15])]"

definition request_options :: "ipv4 \<Rightarrow> ipv4 \<Rightarrow> option_list" where
  "request_options server req =
     (53, [3]) # (if req = 0 then [] else [(50, le_bytes 4 req)]) @ (if server = 0 then [] else [(54, le_bytes 4 server)])
     @ [(55, [1, 3, 6, 15])]"

lemma dhcp_options_bytes:
  "dhcp_options DHCP_DISCOVER server req = options_bytes discover_options"
  "dhcp_options DHCP_REQUEST server req = options_bytes (request_options server req)"
  by (simp_all add: dhcp_options_def discover_options_def request_options_def options_bytes_def add_option_def
      add_option_byte_def DHCP_DISCOVER_def DHCP_REQUEST_def)

lemma le_bytes_few:
  "le_bytes 2 w = [ucast w, ucast (drop_bit 8 w)]"
  "le_bytes 4 w = [ucast w, ucast (drop_bit 8 w), ucast (drop_bit 16 w), ucast (drop_bit 24 w)]"
proof -
  have "(2 :: nat) = Suc (Suc 0)" "(4 :: nat) = Suc (Suc (Suc (Suc 0)))" by simp_all
  then show "le_bytes 2 w = [ucast w, ucast (drop_bit 8 w)]"
    "le_bytes 4 w = [ucast w, ucast (drop_bit 8 w), ucast (drop_bit 16 w), ucast (drop_bit 24 w)]"
    by (simp_all only: le_bytes.simps drop_bit_drop_bit) simp_all
qed

lemma dhcp_packet_fields:
  assumes "length hw = 6" "length os \<le> 308"
  shows "length (dhcp_packet xid hw os) = 548" "take 4 (dhcp_packet xid hw os) = [1, 1, 6, 0]"
    "take 4 (drop 4 (dhcp_packet xid hw os)) = le_bytes 4 xid" "take 2 (drop 10 (dhcp_packet xid hw os)) = [0x80, 0]"
    "take 6 (drop 28 (dhcp_packet xid hw os)) = hw" "take 4 (drop 236 (dhcp_packet xid hw os)) = [0x63, 0x82, 0x53, 0x63]"
    "take (length os) (drop 240 (dhcp_packet xid hw os)) = os"
proof -
  have b: "le_bytes 4 DHCP_MAGIC = [0x63, 0x82, 0x53, 0x63]" "be16 0x8000 = [0x80, 0]"
    by (simp_all add: be16_def DHCP_MAGIC_def le_bytes_few drop_bit_eq_div)
  note shape = dhcp_packet_def htons_bytes b
  show "length (dhcp_packet xid hw os) = 548" "take 4 (dhcp_packet xid hw os) = [1, 1, 6, 0]"
    "take 4 (drop 4 (dhcp_packet xid hw os)) = le_bytes 4 xid" "take 2 (drop 10 (dhcp_packet xid hw os)) = [0x80, 0]"
    "take 6 (drop 28 (dhcp_packet xid hw os)) = hw" "take 4 (drop 236 (dhcp_packet xid hw os)) = [0x63, 0x82, 0x53, 0x63]"
    "take (length os) (drop 240 (dhcp_packet xid hw os)) = os"
    using assms by (simp_all add: shape)
qed

lemma dhcp_frame_message:
  assumes "length hw = 6" "length (options_bytes opts) \<le> 308"
  shows "client_message hw xid opts (eth_header MAC_BROADCAST hw (htons ETH_TYPE_IPV4)
    @ ip_header20 (htons (20 + 8 + 548)) 0 0 IP_PROTO_UDP 0 0xFFFFFFFF
    @ udp_header (htons 68) (htons 67) (htons (8 + 548)) 0 @ dhcp_packet xid hw (options_bytes opts))"
proof -
  define p where "p = dhcp_packet xid hw (options_bytes opts)"
  note p = dhcp_packet_fields [OF assms, of xid, folded p_def]
  obtain cs where cs: "ip_header20 (htons 576) 0 0 IP_PROTO_UDP 0 0xFFFFFFFF = ipv4_header 0x45 0 (htons 576) 0 0 64 IP_PROTO_UDP cs 0 0xFFFFFFFF"
    "inet_checksum (ipv4_header 0x45 0 (htons 576) 0 0 64 IP_PROTO_UDP cs 0 0xFFFFFFFF) = 0"
    by (rule ip_header20_shape)
  define e where "e = eth_header MAC_BROADCAST hw (htons ETH_TYPE_IPV4)"
  define h where "h = ipv4_header 0x45 0 (htons 576) 0 0 64 IP_PROTO_UDP cs 0 0xFFFFFFFF"
  define u where "u = udp_header (htons 68) (htons 67) (htons 556) 0"
  have b: "be16 68 = [0, 68]" "be16 67 = [0, 67]" "be16 0x800 = [8, 0]"
    "le_bytes 4 (0 :: u32) = [0, 0, 0, 0]" "le_bytes 4 (0xFFFFFFFF :: u32) = [0xFF, 0xFF, 0xFF, 0xFF]"
    by (simp_all add: be16_def le_bytes_few drop_bit_eq_div)
  have e: "length e = 14" "take 6 e = replicate 6 0xFF" "take 6 (drop 6 e) = hw" "take 2 (drop 12 e) = [8, 0]"
    using assms(1) by (simp_all add: e_def eth_header_def MAC_BROADCAST_def htons_bytes ETH_TYPE_IPV4_def b)
  have h: "length h = 20" "h ! 0 = 0x45" "take 2 (drop 2 h) = be16 576" "h ! 9 = 17" "take 4 (drop 12 h) = [0, 0, 0, 0]"
      "take 4 (drop 16 h) = [0xFF, 0xFF, 0xFF, 0xFF]" "inet_checksum h = 0"
    using cs(2) by (simp_all add: h_def ipv4_header_def htons_bytes b IP_PROTO_UDP_def nth_append)
  have u: "length u = 8" "take 6 u = [0, 68, 0, 67] @ be16 556" by (simp_all add: u_def udp_header_def htons_bytes b)
  have "client_message hw xid opts (e @ h @ u @ p)"
    using e h u p by (simp add: client_message_def nth_append)
  then show ?thesis using cs(1) by (simp add: e_def h_def u_def p_def)
qed

lemma send_dhcp_sent:
  assumes "\<And>fs. confirms dev fs" and "length (local_mac s) = 6"
    and "dhcp_options ty server req = options_bytes opts" and "length (options_bytes opts) \<le> 308"
  shows "\<exists>f. send_dhcp dev ty server req s = (s\<lparr>tx := tx s @ [f]\<rparr>, True) \<and> client_message (local_mac s) (dhcp_xid s) opts f"
proof -
  let ?f = "eth_header MAC_BROADCAST (get_mac s) (htons ETH_TYPE_IPV4)
            @ ip_header20 (htons (20 + 8 + 548)) 0 0 IP_PROTO_UDP 0 0xFFFFFFFF
            @ udp_header (htons 68) (htons 67) (htons (8 + 548)) 0
            @ dhcp_packet (dhcp_xid s) (get_mac s) (options_bytes opts)"
  have "send_dhcp dev ty server req s = (s\<lparr>tx := tx s @ [?f]\<rparr>, True)"
    using assms(1) by (simp add: send_dhcp_def send_frame_def nic_send_def eth_header_def MAC_BROADCAST_def Let_def assms(3))
  moreover have "client_message (local_mac s) (dhcp_xid s) opts ?f"
    using dhcp_frame_message [OF assms(2,4), of "dhcp_xid s"] by (simp add: get_mac_def)
  ultimately show ?thesis by blast
qed

lemma send_dhcp_frame:
  "arp_cache (fst (send_dhcp dev ty server req s)) = arp_cache s" "local_mac (fst (send_dhcp dev ty server req s)) = local_mac s"
  by (simp_all add: send_dhcp_def send_frame_def nic_send_def Let_def)

text \<open>
  C39: the client obtains a lease from a server whose replies it gets to see.  Suppose the device
  confirms what is sent, the offer arrives in some round of the wait for it and the
  acknowledgement in some round of the wait for that, each before the timeout of 500 ticks, and
  each behind the poll of the stack and in front of the client's own look at the device (a reply
  that is there at the poll is consumed by the stack and lost).  Then the exchange succeeds and
  sends two complete DHCP frames: a discovery, and a request with the same number for the
  offered address that names the server of the offer, by its identifier or else the address in
  the header.  The address of the acknowledgement, its mask and the first router and name server
  it lists are configured, whatever order and whatever other options the messages have; what the
  acknowledgement does not mention stays.  The options with addresses hold at least four bytes.
\<close>

theorem dhcp_obtains_lease:
  fixes s :: "'a dhcpc_scheme"
  assumes "\<And>fs. confirms dev fs" "length (local_mac s) = 6"
    and "\<And>t p. polls s \<le> p \<Longrightarrow> p \<le> polls s + 2 * i \<Longrightarrow> wire dev t p = None"
    and "\<And>t. wire dev t (polls s + 2 * i + 1) = Some (obuf, olen)"
    and "\<And>t p. polls s + 2 * i + 2 \<le> p \<Longrightarrow> p \<le> polls s + 2 * i + 2 + 2 * j \<Longrightarrow> wire dev t p = None"
    and "\<And>t. wire dev t (polls s + 2 * i + 2 + 2 * j + 1) = Some (abuf, alen)"
    and "\<And>t m. m \<le> i \<Longrightarrow> clock dev t (polls s + 2 * m) - clock dev t (polls s) < 500"
    and "\<And>t m. m \<le> j \<Longrightarrow> clock dev t (polls s + 2 * i + 2 + 2 * m) - clock dev t (polls s + 2 * i + 2) < 500"
    and "i < k" "j < k"
    and "server_message (dhcp_xid s + 1) offer obuf olen" "map_of offer 53 = Some [DHCP_OFFER]"
    and "server_message (dhcp_xid s + 1) ack abuf alen" "map_of ack 53 = Some [DHCP_ACK]"
    and "\<forall>d. map_of offer 54 = Some d \<longrightarrow> 4 \<le> length d"
    and "\<forall>c \<in> {1, 3, 6}. \<forall>d. map_of ack c = Some d \<longrightarrow> 4 \<le> length d"
  shows "\<exists>t f1 f2. dhcp_discover dev (Suc n) k s = Inr (t, True) \<and> tx t = tx s @ [f1, f2]
     \<and> client_message (local_mac s) (dhcp_xid s + 1) discover_options f1
     \<and> client_message (local_mac s) (dhcp_xid s + 1) (request_options (leased 54 offer (get32 obuf 62)) (get32 obuf 58)) f2
     \<and> local_ip t = get32 abuf 58 \<and> netmask t = leased 1 ack (netmask s)
     \<and> gateway_ip t = leased 3 ack (gateway_ip s) \<and> dns_server t = leased 6 ack (dns_server s)"
proof -
  let ?om = "\<lambda>i. obuf (42 + i)" and ?am = "\<lambda>i. abuf (42 + i)"
  define u0 where "u0 = say (''  DHCP: discovering...'' @ [CHR 0x0A]) [] s"
  define u where "u = u0\<lparr>dhcp_xid := dhcp_xid u0 + 1\<rparr>"
  have u: "polls u = polls s" "dhcp_xid u = dhcp_xid s + 1" "local_mac u = local_mac s" "tx u = tx s"
      "netmask u = netmask s" "gateway_ip u = gateway_ip s" "dns_server u = dns_server s"
    by (simp_all add: u_def u0_def say_def)
  have ol: "length (options_bytes discover_options) \<le> 308" "length (options_bytes (request_options sv rq)) \<le> 308" for sv rq
    by (simp_all add: options_bytes_def add_option_def discover_options_def request_options_def)
  obtain f1 where f1: "send_dhcp dev DHCP_DISCOVER 0 0 u = (u\<lparr>tx := tx u @ [f1]\<rparr>, True)"
      "client_message (local_mac s) (dhcp_xid s + 1) discover_options f1"
    using send_dhcp_sent [OF assms(1) _ dhcp_options_bytes(1) ol(1), of u 0 0] assms(2) u by auto
  define v where "v = u\<lparr>tx := tx u @ [f1], polls := polls u + 2 * i + 2\<rparr>"
  have o: "await_dhcp dev (Suc n) k DHCP_OFFER (u\<lparr>tx := tx u @ [f1]\<rparr>) = Inr (v, Some ?om)"
    unfolding v_def using assms(3,4,7,9,11,12) u by (subst await_dhcp_reply [where i = i and buf = obuf and len = olen and opts = offer]) simp_all
  have y: "get32 ?om 16 = get32 obuf 58" "get32 ?om 20 = get32 obuf 62" "get32 ?am 16 = get32 abuf 58" by (simp_all add: get32_def)
  define sv where "sv = leased 54 offer (get32 obuf 62)"
  have sv: "(case find_option ?om 54 of Some p \<Rightarrow> get32 ?om p | None \<Rightarrow> get32 ?om 20) = sv"
    using server_address [OF assms(11,15)] unfolding y leased_def sv_def by auto
  have vf: "local_mac v = local_mac s" "dhcp_xid v = dhcp_xid s + 1" "polls v = polls s + 2 * i + 2" using u by (simp_all add: v_def)
  obtain f2 where f2: "send_dhcp dev DHCP_REQUEST sv (get32 obuf 58) v = (v\<lparr>tx := tx v @ [f2]\<rparr>, True)"
      "client_message (local_mac s) (dhcp_xid s + 1) (request_options sv (get32 obuf 58)) f2"
    using send_dhcp_sent [OF assms(1) _ dhcp_options_bytes(2) ol(2), of v sv "get32 obuf 58"] assms(2) vf by auto
  define w where "w = v\<lparr>tx := tx v @ [f2], polls := polls v + 2 * j + 2\<rparr>"
  have a: "await_dhcp dev (Suc n) k DHCP_ACK (v\<lparr>tx := tx v @ [f2]\<rparr>) = Inr (w, Some ?am)"
    unfolding w_def using assms(5,6,8,10,13,14) vf
    by (subst await_dhcp_reply [where i = j and buf = abuf and len = alen and opts = ack]) simp_all
  have "dhcp_discover dev (Suc n) k s = Inr (configure ?am w, True)"
    unfolding dhcp_discover_def Let_def u0_def [symmetric] u_def [symmetric] using f1(1) o sv y f2(1) a by simp
  moreover have "netmask w = netmask s" "gateway_ip w = gateway_ip s" "dns_server w = dns_server s" "tx w = tx s @ [f1, f2]"
    using u by (simp_all add: w_def v_def)
  moreover note configure_fields [OF assms(13,16), of w]
  ultimately show ?thesis using f1(2) f2(2) unfolding sv_def by auto
qed

text \<open>A server that leases 10.0.2.44 with a mask and a router, behind an option the client does not know.\<close>

definition lease_frame :: "u32 \<Rightarrow> option_list \<Rightarrow> packet" where
  "lease_frame xid opts i =
     (if i = 23 then 17 else if i = 37 then 68 else if i = 42 then 2
      else if 46 \<le> i \<and> i < 50 then le_bytes 4 xid ! (i - 46)
      else if 58 \<le> i \<and> i < 62 then le_bytes 4 (make_ip 10 0 2 44) ! (i - 58)
      else if 278 \<le> i \<and> i < 282 then le_bytes 4 DHCP_MAGIC ! (i - 278)
      else if 282 \<le> i \<and> i < 282 + length (options_bytes opts) then options_bytes opts ! (i - 282) else 0)"

definition client :: dhcpc where
  "client = resolv.extend name_client (dhcpc.fields 0x12345678 [])"

lemma lease_frame_message:
  assumes "options_ok opts"
  shows "server_message xid opts (lease_frame xid opts) 590" "get32 (lease_frame xid opts) 58 = make_ip 10 0 2 44"
proof -
  have h: "holds_at (lease_frame xid opts) 46 (le_bytes 4 xid)" "holds_at (lease_frame xid opts) 58 (le_bytes 4 (make_ip 10 0 2 44))"
      "holds_at (lease_frame xid opts) 278 (le_bytes 4 DHCP_MAGIC)" "holds_at (lease_frame xid opts) 282 (options_bytes opts)"
    by (simp_all add: holds_at_def lease_frame_def)
  note g = holds_at_get32 [OF h(1)] holds_at_get32 [OF h(2)] holds_at_get32 [OF h(3)]
  have le: "of_le (le_bytes 4 w) = w" for w :: u32 by (rule of_le_le_bytes) simp
  show "get32 (lease_frame xid opts) 58 = make_ip 10 0 2 44" using g(2) by (simp add: le)
  show "server_message xid opts (lease_frame xid opts) 590"
    using g(1,3) h(4) assms by (simp add: server_message_def le) (simp add: lease_frame_def ntohs_get16 IP_PROTO_UDP_def)
qed

theorem dhcp_obtains_lease_witness:
  "\<exists>t. dhcp_discover \<lparr>confirms = \<lambda>_. True, wire = \<lambda>_ j.
        if j = 1 then Some (lease_frame 0x12345679 [(53, [2]), (54, [10, 0, 2, 2])], 590)
        else if j = 3 then Some (lease_frame 0x12345679 [(53, [5]), (51, [0, 0, 1, 0]), (1, [255, 0, 0, 0]), (3, [10, 0, 2, 9])], 590)
        else None, clock = \<lambda>_ _. 0\<rparr> 1 1 client = Inr (t, True)
      \<and> local_ip t = make_ip 10 0 2 44 \<and> gateway_ip t = make_ip 10 0 2 9 \<and> dns_server t = 0"
proof -
  define offer :: option_list where "offer = [(53, [2]), (54, [10, 0, 2, 2])]"
  define ack :: option_list where "ack = [(53, [5]), (51, [0, 0, 1, 0]), (1, [255, 0, 0, 0]), (3, [10, 0, 2, 9])]"
  have oks: "options_ok offer" "options_ok ack"
    by (simp_all add: offer_def ack_def options_ok_def options_bytes_def add_option_def)
  have maps: "map_of offer 53 = Some [DHCP_OFFER]" "map_of offer 54 = Some [10, 0, 2, 2]" "map_of ack 53 = Some [DHCP_ACK]"
      "map_of ack 1 = Some [255, 0, 0, 0]" "map_of ack 3 = Some [10, 0, 2, 9]" "map_of ack 6 = None"
    by (simp_all add: offer_def ack_def DHCP_OFFER_def DHCP_ACK_def)
  have c: "polls client = 0" "dhcp_xid client = 0x12345678" "length (local_mac client) = 6" "dns_server client = 0"
    by (simp_all add: client_def name_client_def resolv.extend_def dhcpc.fields_def)
  define ofr where "ofr = lease_frame 0x12345679 offer"
  define af where "af = lease_frame 0x12345679 ack"
  define dev :: nic where "dev = \<lparr>confirms = \<lambda>_. True, wire = \<lambda>_ j. if j = 1 then Some (ofr, 590) else if j = 3 then Some (af, 590) else None, clock = \<lambda>_ _. 0\<rparr>"
  have m: "server_message (dhcp_xid client + 1) offer ofr 590" "server_message (dhcp_xid client + 1) ack af 590"
      "get32 af 58 = make_ip 10 0 2 44"
    using lease_frame_message [OF oks(1)] lease_frame_message [OF oks(2)] by (simp_all add: c ofr_def af_def)
  have "\<exists>t f1 f2. dhcp_discover dev (Suc 0) (Suc 0) client = Inr (t, True) \<and> tx t = tx client @ [f1, f2]
     \<and> client_message (local_mac client) (dhcp_xid client + 1) discover_options f1
     \<and> client_message (local_mac client) (dhcp_xid client + 1) (request_options (leased 54 offer (get32 ofr 62)) (get32 ofr 58)) f2
     \<and> local_ip t = get32 af 58 \<and> netmask t = leased 1 ack (netmask client)
     \<and> gateway_ip t = leased 3 ack (gateway_ip client) \<and> dns_server t = leased 6 ack (dns_server client)"
    by (rule dhcp_obtains_lease [where i = 0 and j = 0, OF _ c(3) _ _ _ _ _ _ _ _ m(1) maps(1) m(2) maps(3)]) (simp_all add: dev_def c(1) maps)
  then obtain t where t: "dhcp_discover dev 1 1 client = Inr (t, True)" "local_ip t = make_ip 10 0 2 44"
      "gateway_ip t = leased 3 ack (gateway_ip client)" "dns_server t = leased 6 ack (dns_server client)" using m(3) by auto
  moreover have "leased 3 ack x = make_ip 10 0 2 9" "leased 6 ack x = x" for x
    by (simp_all add: leased_def maps make_ip_def push_bit_eq_mult)
  ultimately have "dhcp_discover dev 1 1 client = Inr (t, True) \<and> local_ip t = make_ip 10 0 2 44 \<and> gateway_ip t = make_ip 10 0 2 9 \<and> dns_server t = 0"
    by (simp add: c(4))
  then show ?thesis unfolding dev_def ofr_def af_def offer_def ack_def by blast
qed

section \<open>Boot without a server\<close>

lemma receive_dhcp_quiet:
  fixes s :: "'a dhcpc_scheme"
  assumes "\<And>t j. polls s \<le> j \<Longrightarrow> wire dev t j = None" "i < k" "\<not> clock dev (tx s) (polls s + 2 * i) - start < w"
  shows "\<exists>m. receive_dhcp dev (Suc n) k ty w start s = Inr (s\<lparr>polls := polls s + m\<rparr>, None)"
  using assms
proof (induction k arbitrary: s i)
  case (Suc k)
  show ?case
  proof (cases "get_ticks_net dev s - start < w")
    case True
    then have "i \<noteq> 0" using Suc.prems(3) by (cases "i = 0") (auto simp: get_ticks_net_def)
    then obtain j where i: "i = Suc j" by (cases i) auto
    let ?s = "s\<lparr>polls := polls s + 2\<rparr>"
    have "\<exists>m. receive_dhcp dev (Suc n) k ty w start ?s = Inr (?s\<lparr>polls := polls ?s + m\<rparr>, None)"
      by (rule Suc.IH [where i = j]) (use Suc.prems i in \<open>simp_all add: add.commute add.left_commute\<close>)
    then show ?thesis using True Suc.prems(1) by (auto simp: nic_receive_def intro: exI [of _ "_ + 2"])
  next
    case False
    then have "receive_dhcp dev (Suc n) (Suc k) ty w start s = Inr (s\<lparr>polls := polls s + 0\<rparr>, None)" by simp
    then show ?thesis by blast
  qed
qed simp

text \<open>
  The network comes up without a DHCP server.  Without a device nothing is configured; with
  a device on a silent network \<open>Net::init\<close> returns - the wait for an offer ends when the clock
  has advanced by 500 ticks, and the fuel of one unit per look at the device is enough - with the
  fixed addresses of the emulator's network, the hardware address of the device, and an empty,
  well formed ARP cache, whether or not the device confirms the frame that was sent.
\<close>

theorem net_init_falls_back:
  fixes s :: "'a dhcpc_scheme"
  assumes "\<And>t j. wire dev t j = None" "clock_runs dev 500 c" "c < k"
  shows "(\<exists>t. net_init dev (Suc n) k (Some m) s = Inr t \<and> local_mac t = m \<and> local_ip t = make_ip 10 0 2 15
       \<and> gateway_ip t = make_ip 10 0 2 2 \<and> netmask t = make_ip 255 255 255 0 \<and> dns_server t = make_ip 10 0 2 3
       \<and> arp_ok t \<and> (\<forall>ip. arp_lookup ip t = MAC_ZERO))
     \<and> (\<exists>t. net_init dev (Suc n) k None s = Inr t \<and> local_ip t = local_ip s \<and> tx t = tx s)"
proof -
  define u where "u = s\<lparr>arp_cache := replicate ARP_CACHE_SIZE \<lparr>arp_ip = 0, arp_mac = MAC_ZERO, arp_valid = False\<rparr>, local_mac := m\<rparr>"
  define v0 where "v0 = say (''  DHCP: discovering...'' @ [CHR 0x0A]) [] u"
  define v where "v = v0\<lparr>dhcp_xid := dhcp_xid v0 + 1\<rparr>"
  obtain x b where x: "send_dhcp dev DHCP_DISCOVER 0 0 v = (x, b)" "arp_cache x = arp_cache u" "local_mac x = m"
    using send_dhcp_frame [of dev DHCP_DISCOVER 0 0 v] by (cases "send_dhcp dev DHCP_DISCOVER 0 0 v") (auto simp: v_def v0_def u_def say_def)
  have "\<not> clock dev (tx x) (polls x + 2 * c) - get_ticks_net dev x < 500"
    using clock_runsD [OF assms(2)] by (simp add: get_ticks_net_def)
  then have "\<exists>p. await_dhcp dev (Suc n) k DHCP_OFFER x = Inr (x\<lparr>polls := polls x + p\<rparr>, None)"
    unfolding await_dhcp_def by (intro receive_dhcp_quiet [where i = c]) (use assms in auto)
  then obtain p where p: "await_dhcp dev (Suc n) k DHCP_OFFER x = Inr (x\<lparr>polls := polls x + p\<rparr>, None)" by blast
  obtain y where y: "dhcp_discover dev (Suc n) k u = Inr (y, False)" "arp_cache y = arp_cache u" "local_mac y = m"
    using x p unfolding dhcp_discover_def Let_def v0_def [symmetric] v_def [symmetric] by (cases b) (auto simp: say_def)
  have arp: "arp_ok t \<and> (\<forall>ip. arp_lookup ip t = MAC_ZERO)" if "arp_cache t = arp_cache u" for t :: "'a dhcpc_scheme"
    using that by (auto simp: arp_ok_def arp_hit_def arp_lookup_def u_def ARP_CACHE_SIZE_def split: option.split dest!: find_upt_Some [THEN iffD1])
  show ?thesis
  proof
    show "\<exists>t. net_init dev (Suc n) k None s = Inr t \<and> local_ip t = local_ip s \<and> tx t = tx s" by (simp add: net_init_def)
  next
    define t where "t = y\<lparr>local_ip := make_ip 10 0 2 15, gateway_ip := make_ip 10 0 2 2, netmask := make_ip 255 255 255 0, dns_server := make_ip 10 0 2 3\<rparr>"
    obtain z where z: "net_init dev (Suc n) k (Some m) s = Inr (t\<lparr>said := z\<rparr>)"
      using y(1) unfolding net_init_def Let_def u_def [symmetric] by (auto simp: say_def t_def u_def [symmetric])
    then show "\<exists>t. net_init dev (Suc n) k (Some m) s = Inr t \<and> local_mac t = m \<and> local_ip t = make_ip 10 0 2 15
       \<and> gateway_ip t = make_ip 10 0 2 2 \<and> netmask t = make_ip 255 255 255 0 \<and> dns_server t = make_ip 10 0 2 3
       \<and> arp_ok t \<and> (\<forall>ip. arp_lookup ip t = MAC_ZERO)"
      using y arp [of "t\<lparr>said := z\<rparr>"] by (simp add: t_def)
  qed
qed

theorem net_init_falls_back_witness:
  "\<exists>t. net_init \<lparr>confirms = \<lambda>_. True, wire = \<lambda>_ _. None, clock = \<lambda>_ j. of_nat j\<rparr> 1 251 (Some [2, 0, 0, 0, 0, 1]) client = Inr t
      \<and> local_ip t = make_ip 10 0 2 15"
proof -
  define dev :: nic where "dev = \<lparr>confirms = \<lambda>_. True, wire = \<lambda>_ _. None, clock = \<lambda>_ j. of_nat j\<rparr>"
  have w: "wire dev t j = None" for t j by (simp add: dev_def)
  have c: "clock_runs dev 500 250" by (auto simp: clock_runs_def dev_def word_less_nat_alt unat_of_nat take_bit_nat_eq_self)
  show ?thesis using net_init_falls_back [OF w c, where k = 251 and n = 0 and m = "[2, 0, 0, 0, 0, 1]" and s = client] unfolding dev_def by auto
qed

end
