(* ===== verification/Syscalls.thy ===== *)
theory Syscalls
  imports Scheduling Interrupts Dhcp
begin

text \<open>
  System calls: src/src/compat/linux_syscalls.cpp and net_syscalls.cpp and the entry
  \<open>handle_sync_lower\<close> of src/src/syscall/syscall.cpp.

  A system call runs in the kernel with the page table of the process in TTBR0, so a pointer
  the process passes is translated by the hardware walk of the page tables; an address that
  does not translate, or a write to a read-only page, is a data abort in the kernel.  (Pointers
  into device memory are not distinguished from pointers into RAM.)  Results are the values of
  register x0; the network stack is a component of the state.  A call that never returns ends
  in a value of \<open>stop\<close>: a data abort, a device that is never ready, the halt of a process
  without a kernel to return to, or a crash of the network stack.

  The statics of the kernel are fields of the state, not bytes of memory.  The linker puts them
  at the physical addresses \<open>kernel_data\<close>, and the code checks no pointer it gets from a
  process; an access of user memory that translates to an address in this range is the outcome
  \<open>Kernel_access\<close>: the process reads or overwrites the kernel's own tables, and the model does
  not follow it further.  An index outside the table of file descriptors is \<open>Table_overrun\<close>.
\<close>

section \<open>State\<close>

datatype FdType = FD_NONE | FD_CONSOLE | FD_FILE | FD_SOCKET

record FdEntry =
  fd_type :: FdType
  socket_id :: u32

record compat = irqs +
  current_brk :: u64
  brk_base :: u64
  mmap_next :: u64
  fd_table :: "FdEntry list"
  tid_address :: u64
  rng_state :: u64
  current_syscall_frame :: u64
  kernel_return_addr :: u64
  kernel_data :: "u64 \<times> u64"
  net_state :: dhcpc

record hw =
  console :: device
  network :: nic
  net_fuel :: nat
  cntfrq :: u64
  cntpct :: u64

datatype stop = Data_abort u64 | Kernel_access u64 | Table_overrun | Device_hangs | Halted | Network crash

definition BRK_BASE_ADDR :: u64 where "BRK_BASE_ADDR = 0x10000000"
definition BRK_MAX_SIZE :: u64 where "BRK_MAX_SIZE = 64 * 1024 * 1024"
definition MMAP_BASE :: u64 where "MMAP_BASE = 0x20000000"
definition MMAP_MAX :: u64 where "MMAP_MAX = 0x30000000"
definition MAP_FIXED :: u64 where "MAP_FIXED = 0x10"
definition MAX_FDS :: u64 where "MAX_FDS = 256"
definition LINUX_ENOENT :: int where "LINUX_ENOENT = -2"
definition LINUX_ENOSYS :: int where "LINUX_ENOSYS = -38"

section \<open>User memory\<close>

definition in_kernel_data :: "u64 \<Rightarrow> 'a compat_scheme \<Rightarrow> bool" where
  "in_kernel_data pa s \<longleftrightarrow> fst (kernel_data s) \<le> pa \<and> pa < snd (kernel_data s)"

definition load_user :: "u64 \<Rightarrow> 'a compat_scheme \<Rightarrow> stop + u8" where
  "load_user va s =
     (case walk (mem s) (ttbr0_el1 s) va of
        Some (pa, e) \<Rightarrow> if in_kernel_data pa s then Inl (Kernel_access va) else Inr (mem s pa)
      | None \<Rightarrow> Inl (Data_abort va))"

definition store_user :: "u64 \<Rightarrow> u8 \<Rightarrow> 'a compat_scheme \<Rightarrow> stop + 'a compat_scheme" where
  "store_user va b s =
     (case walk (mem s) (ttbr0_el1 s) va of
        Some (pa, e) \<Rightarrow>
          if e AND PTE_AP_RO \<noteq> 0 then Inl (Data_abort va)
          else if in_kernel_data pa s then Inl (Kernel_access va)
          else Inr (s\<lparr>mem := (mem s)(pa := b)\<rparr>)
      | None \<Rightarrow> Inl (Data_abort va))"

fun load_bytes_user :: "u64 \<Rightarrow> nat \<Rightarrow> 'a compat_scheme \<Rightarrow> stop + u8 list" where
  "load_bytes_user va 0 s = Inr []"
| "load_bytes_user va (Suc n) s =
     and_then (load_user va s) (\<lambda>b. and_then (load_bytes_user (va + 1) n s) (\<lambda>bs. Inr (b # bs)))"

fun store_bytes_user :: "u64 \<Rightarrow> u8 list \<Rightarrow> 'a compat_scheme \<Rightarrow> stop + 'a compat_scheme" where
  "store_bytes_user va [] s = Inr s"
| "store_bytes_user va (b # bs) s = and_then (store_user va b s) (store_bytes_user (va + 1) bs)"

definition load64_user :: "u64 \<Rightarrow> 'a compat_scheme \<Rightarrow> stop + u64" where
  "load64_user va s = and_then (load_bytes_user va 8 s) (\<lambda>bs. Inr (of_le bs))"

fun from_device :: "'s option \<Rightarrow> stop + 's" where
  "from_device (Some s) = Inr s"
| "from_device None = Inl Device_hangs"

type_synonym 's syscall = "'s \<Rightarrow> stop + ('s \<times> u64)"

section \<open>Memory management\<close>

definition current_pgd :: "'a compat_scheme \<Rightarrow> u64" where
  "current_pgd s = (case get_current s of Some p \<Rightarrow> page_table (process_table s ! p) | None \<Rightarrow> 0)"

definition page_up :: "u64 \<Rightarrow> u64" where
  "page_up a = (a + PAGE_SIZE - 1) AND NOT (PAGE_SIZE - 1)"

definition brk_premap :: "u64 \<Rightarrow> nat \<Rightarrow> 'a compat_scheme \<Rightarrow> 'a compat_scheme" where
  "brk_premap pgd i s =
     (let (s, page) = alloc_page s
      in if page \<noteq> 0 then map_user_page pgd (BRK_BASE_ADDR + of_nat i * PAGE_SIZE) page PTE_USER_RWX s else s)"

definition brk_start :: "'a compat_scheme \<Rightarrow> 'a compat_scheme" where
  "brk_start s =
     (if brk_base s = 0
      then let s = s\<lparr>brk_base := BRK_BASE_ADDR, current_brk := BRK_BASE_ADDR\<rparr>; pgd = current_pgd s
           in if pgd \<noteq> 0 then fold (brk_premap pgd) [0..<16] s else s
      else s)"

fun map_new_pages :: "u64 \<Rightarrow> u64 \<Rightarrow> nat \<Rightarrow> 'a compat_scheme \<Rightarrow> 'a compat_scheme \<times> bool" where
  "map_new_pages pgd va 0 s = (s, True)"
| "map_new_pages pgd va (Suc n) s =
     (let (s, page) = alloc_page s
      in if page = 0 then (s, False)
         else map_new_pages pgd (va + PAGE_SIZE) n (if pgd \<noteq> 0 then map_user_page pgd va page PTE_USER_RWX s else s))"

definition sys_brk :: "u64 \<Rightarrow> 'a compat_scheme syscall" where
  "sys_brk addr s =
     (let s = brk_start s
      in if addr = 0 then Inr (s, current_brk s)
         else if addr < brk_base s \<or> addr > brk_base s + BRK_MAX_SIZE then Inr (s, current_brk s)
         else let old_page_end = page_up (current_brk s); new_page_end = page_up addr; pgd = current_pgd s;
                  (s, ok) = (if new_page_end > old_page_end \<and> pgd \<noteq> 0
                             then map_new_pages pgd old_page_end (unat ((new_page_end - old_page_end) div PAGE_SIZE)) s
                             else (s, True))
              in if ok then Inr (s\<lparr>current_brk := addr\<rparr>, addr) else Inr (s, current_brk s))"

definition sys_mmap :: "u64 \<Rightarrow> u64 \<Rightarrow> u64 \<Rightarrow> 'a compat_scheme syscall" where
  "sys_mmap addr len flags s =
     (if len = 0 then Inr (s, of_int LINUX_EINVAL)
      else let len = page_up len;
               fixed = (flags AND MAP_FIXED \<noteq> 0 \<and> addr \<noteq> 0);
               vaddr = (if fixed then addr AND NOT (PAGE_SIZE - 1) else mmap_next s);
               s = (if fixed then s else s\<lparr>mmap_next := mmap_next s + len\<rparr>)
           in if \<not> fixed \<and> mmap_next s > MMAP_MAX then Inr (s, of_int LINUX_ENOMEM)
              else let (s, ok) = map_new_pages (current_pgd s) vaddr (unat (len div PAGE_SIZE)) s
                   in Inr (s, if ok then vaddr else of_int LINUX_ENOMEM))"

definition sys_munmap :: "'a compat_scheme syscall" where "sys_munmap s = Inr (s, 0)"
definition sys_mprotect :: "'a compat_scheme syscall" where "sys_mprotect s = Inr (s, 0)"
definition sys_madvise :: "'a compat_scheme syscall" where "sys_madvise s = Inr (s, 0)"

section \<open>Files\<close>

definition fd_at :: "nat \<Rightarrow> 'a compat_scheme \<Rightarrow> stop + FdEntry" where
  "fd_at i s = (if i < length (fd_table s) then Inr (fd_table s ! i) else Inl Table_overrun)"

definition upd_fd :: "nat \<Rightarrow> FdType \<Rightarrow> 'a compat_scheme \<Rightarrow> stop + 'a compat_scheme" where
  "upd_fd i ty s = and_then (fd_at i s) (\<lambda>e. Inr (s\<lparr>fd_table := (fd_table s)[i := e\<lparr>fd_type := ty\<rparr>]\<rparr>))"

fun find_fd :: "nat list \<Rightarrow> 'a compat_scheme \<Rightarrow> stop + nat option" where
  "find_fd [] s = Inr None"
| "find_fd (i # is) s = and_then (fd_at i s) (\<lambda>e. if fd_type e = FD_NONE then Inr (Some i) else find_fd is s)"

fun write_loop :: "device \<Rightarrow> u64 \<Rightarrow> nat \<Rightarrow> 'a compat_scheme \<Rightarrow> stop + 'a compat_scheme" where
  "write_loop dev buf 0 s = Inr s"
| "write_loop dev buf (Suc n) s =
     and_then (load_user buf s) (\<lambda>c. and_then (from_device (putc dev c s)) (write_loop dev (buf + 1) n))"

definition sys_write :: "device \<Rightarrow> u64 \<Rightarrow> u64 \<Rightarrow> u64 \<Rightarrow> 'a compat_scheme syscall" where
  "sys_write dev fd buf count s =
     and_then (if fd > 2
               then if fd \<ge> MAX_FDS then Inr True
                    else and_then (fd_at (unat fd) s) (\<lambda>e. Inr (fd_type e = FD_NONE))
               else Inr False)
       (\<lambda>unused. if unused then Inr (s, of_int LINUX_ENOENT)
                 else if fd \<le> 2 then and_then (write_loop dev buf (unat count) s) (\<lambda>s. Inr (s, count))
                 else Inr (s, of_int LINUX_EIO))"

fun read_loop :: "device \<Rightarrow> u64 \<Rightarrow> u64 \<Rightarrow> nat \<Rightarrow> 'a compat_scheme syscall" where
  "read_loop dev buf i 0 s = Inr (s, i)"
| "read_loop dev buf i (Suc n) s =
     and_then (from_device (getc dev s))
       (\<lambda>(s, c). and_then (store_user (buf + i) c s)
         (\<lambda>s. if c = 13 \<or> c = 10
              then and_then (store_user (buf + i) 10 s) (\<lambda>s. Inr (s, i + 1))
              else read_loop dev buf (i + 1) n s))"

definition sys_read :: "device \<Rightarrow> u64 \<Rightarrow> u64 \<Rightarrow> u64 \<Rightarrow> 'a compat_scheme syscall" where
  "sys_read dev fd buf count s =
     (if fd = 0 then read_loop dev buf 0 (unat count) s else Inr (s, of_int LINUX_ENOENT))"

fun writev_loop :: "device \<Rightarrow> u64 \<Rightarrow> u64 \<Rightarrow> nat \<Rightarrow> u64 \<Rightarrow> 'a compat_scheme syscall" where
  "writev_loop dev fd iov 0 acc s = Inr (s, acc)"
| "writev_loop dev fd iov (Suc n) acc s =
     and_then (load64_user iov s) (\<lambda>iov_base. and_then (load64_user (iov + 8) s)
       (\<lambda>iov_len. and_then (sys_write dev fd iov_base iov_len s)
         (\<lambda>(s, ret). if sint ret < 0 then Inr (s, ret) else writev_loop dev fd (iov + 16) n (acc + ret) s)))"

definition sys_writev :: "device \<Rightarrow> u64 \<Rightarrow> u64 \<Rightarrow> u64 \<Rightarrow> 'a compat_scheme syscall" where
  "sys_writev dev fd iov_ptr iovcnt s = writev_loop dev fd iov_ptr (unat iovcnt) 0 s"

text \<open>The comparison with a literal by \<open>strcmp\<close>: it reads the path up to the first difference.\<close>

fun path_is :: "u8 list \<Rightarrow> u64 \<Rightarrow> 'a compat_scheme \<Rightarrow> stop + bool" where
  "path_is [] va s = and_then (load_user va s) (\<lambda>b. Inr (b = 0))"
| "path_is (c # cs) va s = and_then (load_user va s) (\<lambda>b. if b = c then path_is cs (va + 1) s else Inr False)"

definition sys_openat :: "u64 \<Rightarrow> 'a compat_scheme syscall" where
  "sys_openat pathname s =
     and_then (path_is (ascii ''/dev/null'') pathname s)
       (\<lambda>null. if null
               then and_then (find_fd [3..<unat MAX_FDS] s)
                      (\<lambda>r. case r of
                             Some i \<Rightarrow> and_then (upd_fd i FD_CONSOLE s) (\<lambda>s. Inr (s, of_nat i))
                           | None \<Rightarrow> Inr (s, of_int LINUX_ENOENT))
               else Inr (s, of_int LINUX_ENOENT))"

definition sys_close :: "u64 \<Rightarrow> 'a compat_scheme syscall" where
  "sys_close fd s =
     (if fd < 3 then Inr (s, 0)
      else if fd < MAX_FDS then and_then (upd_fd (unat fd) FD_NONE s) (\<lambda>s. Inr (s, 0))
      else Inr (s, of_int LINUX_ENOENT))"

definition sys_fstat :: "u64 \<Rightarrow> u64 \<Rightarrow> 'a compat_scheme syscall" where
  "sys_fstat fd statbuf s =
     and_then (store_bytes_user statbuf (replicate 128 0) s)
       (\<lambda>s. if fd \<le> 2
            then and_then (store_bytes_user (statbuf + 16) (le_bytes 4 (8630 :: u32)) s)
                   (\<lambda>s. and_then (store_bytes_user (statbuf + 56) (le_bytes 4 (1024 :: u32)) s) (\<lambda>s. Inr (s, 0)))
            else Inr (s, of_int LINUX_ENOENT))"

definition sys_fstatat :: "u64 \<Rightarrow> 'a compat_scheme syscall" where
  "sys_fstatat statbuf s = and_then (store_bytes_user statbuf (replicate 128 0) s) (\<lambda>s. Inr (s, of_int LINUX_ENOENT))"

definition sys_ioctl :: "'a compat_scheme syscall" where "sys_ioctl s = Inr (s, 0)"

section \<open>Processes and time\<close>

text \<open>The fields of the exception frame that the kernel writes: \<open>elr\<close> and \<open>spsr\<close> follow 31 registers.\<close>

definition return_to_kernel :: "u64 \<Rightarrow> 'a compat_scheme \<Rightarrow> 'a compat_scheme" where
  "return_to_kernel frame s =
     s\<lparr>mem := store64 (store64 (mem s) (frame + 248) (kernel_return_addr s)) (frame + 256) 0x3c5\<rparr>"

definition exit_fmt :: "u8 list" where "exit_fmt = ascii (''[pid %u] exit(%u)'' @ [CHR 0x0A])"

definition sys_exit :: "device \<Rightarrow> u64 \<Rightarrow> 'a compat_scheme syscall" where
  "sys_exit dev code s =
     and_then
       (case get_current s of
          Some p \<Rightarrow> and_then (from_device (printf_lit dev (\<lambda>n. if n = 0 then ucast (pid (process_table s ! p)) else code) 0 exit_fmt s))
                      (\<lambda>s. Inr (upd_proc p (state_update (\<lambda>_. ZOMBIE)) s))
        | None \<Rightarrow> Inr s)
       (\<lambda>s. if current_syscall_frame s \<noteq> 0 \<and> kernel_return_addr s \<noteq> 0
            then Inr (return_to_kernel (current_syscall_frame s) s, code)
            else Inl Halted)"

definition sys_exit_group :: "device \<Rightarrow> u64 \<Rightarrow> 'a compat_scheme syscall" where
  "sys_exit_group dev code s = sys_exit dev code s"

definition sys_getpid :: "'a compat_scheme syscall" where
  "sys_getpid s = Inr (s, case get_current s of Some p \<Rightarrow> ucast (pid (process_table s ! p)) | None \<Rightarrow> 1)"

definition sys_gettid :: "'a compat_scheme syscall" where "sys_gettid s = sys_getpid s"
definition sys_getuid :: "'a compat_scheme syscall" where "sys_getuid s = Inr (s, 0)"
definition sys_geteuid :: "'a compat_scheme syscall" where "sys_geteuid s = Inr (s, 0)"
definition sys_getgid :: "'a compat_scheme syscall" where "sys_getgid s = Inr (s, 0)"
definition sys_getegid :: "'a compat_scheme syscall" where "sys_getegid s = Inr (s, 0)"
definition sys_getppid :: "'a compat_scheme syscall" where "sys_getppid s = Inr (s, 0)"

definition sys_set_tid_address :: "u64 \<Rightarrow> 'a compat_scheme syscall" where
  "sys_set_tid_address tidptr s = sys_gettid (s\<lparr>tid_address := tidptr\<rparr>)"

definition sys_clock_gettime :: "hw \<Rightarrow> u64 \<Rightarrow> 'a compat_scheme syscall" where
  "sys_clock_gettime env tp s =
     (let ticks = get_ticks s; freq = get_frequency (cntfrq env); cnt = cntpct env;
          (sec, nsec) = (if freq > 0 then (cnt div freq, cnt mod freq * 1000000000 div freq)
                         else (ticks div 100, ticks mod 100 * 10000000))
      in and_then (store_bytes_user tp (le_bytes 8 sec) s)
           (\<lambda>s. and_then (store_bytes_user (tp + 8) (le_bytes 8 nsec) s) (\<lambda>s. Inr (s, 0))))"

section \<open>Signals and the rest\<close>

definition sys_rt_sigaction :: "'a compat_scheme syscall" where "sys_rt_sigaction s = Inr (s, 0)"

definition sys_rt_sigprocmask :: "u64 \<Rightarrow> 'a compat_scheme syscall" where
  "sys_rt_sigprocmask oldset s =
     and_then (if oldset \<noteq> 0 then store_bytes_user oldset (replicate 8 0) s else Inr s) (\<lambda>s. Inr (s, 0))"

definition sys_sigaltstack :: "u64 \<Rightarrow> 'a compat_scheme syscall" where
  "sys_sigaltstack old_ss s =
     and_then (if old_ss \<noteq> 0 then store_bytes_user old_ss (replicate 24 0) s else Inr s) (\<lambda>s. Inr (s, 0))"

fun store_fields :: "u64 \<Rightarrow> u8 list list \<Rightarrow> 'a compat_scheme \<Rightarrow> stop + 'a compat_scheme" where
  "store_fields va [] s = Inr s"
| "store_fields va (f # fs) s = and_then (store_bytes_user va (f @ [0]) s) (store_fields (va + 65) fs)"

definition sys_uname :: "u64 \<Rightarrow> 'a compat_scheme syscall" where
  "sys_uname buf s =
     and_then (store_bytes_user buf (replicate 390 0) s)
       (\<lambda>s. and_then (store_fields buf [ascii ''Linux'', ascii ''hackers-os'', ascii ''6.1.0-hackers'',
                        ascii ''#1 SMP HackersOS'', ascii ''aarch64'', ascii ''(none)''] s)
              (\<lambda>s. Inr (s, 0)))"

definition xorshift :: "u64 \<Rightarrow> u64" where
  "xorshift x = (let x = x XOR push_bit 13 x; x = x XOR drop_bit 7 x in x XOR push_bit 17 x)"

fun random_loop :: "u64 \<Rightarrow> nat \<Rightarrow> 'a compat_scheme \<Rightarrow> stop + 'a compat_scheme" where
  "random_loop out 0 s = Inr s"
| "random_loop out (Suc n) s =
     (let s = s\<lparr>rng_state := xorshift (rng_state s)\<rparr>
      in and_then (store_user out (ucast (rng_state s)) s) (random_loop (out + 1) n))"

definition sys_getrandom :: "u64 \<Rightarrow> u64 \<Rightarrow> 'a compat_scheme syscall" where
  "sys_getrandom buf buflen s = and_then (random_loop buf (unat buflen) s) (\<lambda>s. Inr (s, buflen))"

definition sys_futex :: "'a compat_scheme syscall" where "sys_futex s = Inr (s, 0)"

text \<open>The state in which another process continues; the call returns 0 when this one is chosen again.\<close>

definition sys_sched_yield :: "'a compat_scheme syscall" where "sys_sched_yield s = Inr (yield s, 0)"

definition sys_faccessat :: "'a compat_scheme syscall" where "sys_faccessat s = Inr (s, of_int LINUX_ENOENT)"
definition sys_readlinkat :: "'a compat_scheme syscall" where "sys_readlinkat s = Inr (s, of_int LINUX_ENOENT)"
definition sys_kill :: "'a compat_scheme syscall" where "sys_kill s = Inr (s, 0)"
definition sys_rseq :: "'a compat_scheme syscall" where "sys_rseq s = Inr (s, of_int LINUX_ENOSYS)"

section \<open>Networking\<close>

fun net_result :: "'a compat_scheme \<Rightarrow> (dhcpc \<times> int) outcome \<Rightarrow> stop + ('a compat_scheme \<times> u64)" where
  "net_result s (Inl e) = Inl (Network e)"
| "net_result s (Inr (n, r)) = Inr (s\<lparr>net_state := n\<rparr>, of_int r)"

definition as_i32 :: "u64 \<Rightarrow> int" where "as_i32 w = sint (ucast w :: 32 word)"

definition load_if :: "bool \<Rightarrow> u64 \<Rightarrow> nat \<Rightarrow> 'a compat_scheme \<Rightarrow> stop + u8 list" where
  "load_if c va n s = (if c then load_bytes_user va n s else Inr [])"

definition is_socket :: "u64 \<Rightarrow> 'a compat_scheme \<Rightarrow> bool" where
  "is_socket fd s \<longleftrightarrow> fd_to_idx (as_i32 fd) (net_state s) \<noteq> None"

definition sock_of :: "u64 \<Rightarrow> 'a compat_scheme \<Rightarrow> SocketEntry" where
  "sock_of fd s = sock_at (the (fd_to_idx (as_i32 fd) (net_state s))) (net_state s)"

definition sys_socket :: "u64 \<Rightarrow> u64 \<Rightarrow> u64 \<Rightarrow> 'a compat_scheme syscall" where
  "sys_socket domain type protocol s =
     net_result s (Inr (socket_create (ucast domain) (ucast (type AND 0xFF)) (ucast protocol) (net_state s)))"

definition sys_bind :: "u64 \<Rightarrow> u64 \<Rightarrow> u64 \<Rightarrow> 'a compat_scheme syscall" where
  "sys_bind fd addr addrlen s =
     and_then (load_if (is_socket fd s \<and> (ucast addrlen :: u32) \<ge> 16) addr 8 s)
       (\<lambda>sa. net_result s (Inr (socket_bind (as_i32 fd) (\<lambda>k. sa ! k) (ucast addrlen) (net_state s))))"

definition sys_listen :: "u64 \<Rightarrow> u64 \<Rightarrow> 'a compat_scheme syscall" where
  "sys_listen fd backlog s = net_result s (Inr (socket_listen (as_i32 fd) (ucast backlog) (net_state s)))"

definition sys_accept :: "hw \<Rightarrow> u64 \<Rightarrow> 'a compat_scheme syscall" where
  "sys_accept env fd s = net_result s (socket_accept (net_poll (network env) (net_fuel env)) (as_i32 fd) (net_state s))"

definition sys_connect :: "hw \<Rightarrow> u64 \<Rightarrow> u64 \<Rightarrow> u64 \<Rightarrow> 'a compat_scheme syscall" where
  "sys_connect env fd addr addrlen s =
     (let dev = network env; poll = net_poll dev (net_fuel env)
      in and_then (load_if (is_socket fd s \<and> (ucast addrlen :: u32) \<ge> 16) addr 8 s)
           (\<lambda>sa. net_result s (socket_connect dev (send_ip dev poll) poll (as_i32 fd) (\<lambda>k. sa ! k) (ucast addrlen) (net_state s))))"

text \<open>How many bytes of the buffer \<open>sendto\<close> reads.\<close>

text \<open>
  The bytes \<open>sys_sendto\<close> will read are fetched before the first is sent.  The code reads a TCP
  buffer segment by segment; the difference shows only when a later part of the buffer faults:
  here nothing has been sent then, there the segments in front of the fault have.
\<close>

definition sendto_reads :: "u64 \<Rightarrow> u32 \<Rightarrow> 'a compat_scheme \<Rightarrow> nat" where
  "sendto_reads fd len s =
     (if \<not> is_socket fd s then 0
      else case sk_type (sock_of fd s) of
             ST_TCP \<Rightarrow> if tcp_get_state (tcp_conn_id (sock_of fd s)) (net_state s) = ESTABLISHED then unat len else 0
           | ST_UDP \<Rightarrow> min (unat len) (unat (MTU - 8))
           | _ \<Rightarrow> 0)"

definition sys_sendto :: "hw \<Rightarrow> u64 \<Rightarrow> u64 \<Rightarrow> u64 \<Rightarrow> u64 \<Rightarrow> u64 \<Rightarrow> 'a compat_scheme syscall" where
  "sys_sendto env fd buf len addr addrlen s =
     (let dev = network env; poll = net_poll dev (net_fuel env); n = ucast len :: u32
      in and_then (load_bytes_user buf (sendto_reads fd n s) s)
           (\<lambda>bs. and_then (load_if (is_socket fd s \<and> sk_type (sock_of fd s) = ST_UDP \<and> addr \<noteq> 0 \<and> (ucast addrlen :: u32) \<ge> 16) addr 8 s)
             (\<lambda>sa. net_result s (socket_sendto dev (send_ip dev poll) poll (as_i32 fd)
                (bs @ replicate (unat n - length bs) 0) (if addr \<noteq> 0 then Some (\<lambda>k. sa ! k) else None) (ucast addrlen) (net_state s)))))"

definition sys_recvfrom :: "hw \<Rightarrow> u64 \<Rightarrow> u64 \<Rightarrow> u64 \<Rightarrow> u64 \<Rightarrow> u64 \<Rightarrow> 'a compat_scheme syscall" where
  "sys_recvfrom env fd buf len addr addrlen s =
     (let dev = network env; poll = net_poll dev (net_fuel env);
          want = (is_socket fd s \<and> sk_type (sock_of fd s) = ST_UDP \<and> addr \<noteq> 0 \<and> addrlen \<noteq> 0)
      in and_then (load_if want addrlen 4 s)
           (\<lambda>n. case socket_recvfrom dev (send_ip dev poll) poll (as_i32 fd) (ucast len) (if want then Some (of_le n) else None) (net_state s) of
                  Inl e \<Rightarrow> Inl (Network e)
                | Inr (net, ret, bs, src) \<Rightarrow>
                    and_then (store_bytes_user buf bs (s\<lparr>net_state := net\<rparr>))
                      (\<lambda>s. case src of
                             None \<Rightarrow> Inr (s, of_int ret)
                           | Some sa \<Rightarrow> and_then (store_bytes_user addr sa s)
                               (\<lambda>s. and_then (store_bytes_user addrlen (le_bytes 4 (16 :: u32)) s) (\<lambda>s. Inr (s, of_int ret))))))"

definition sys_setsockopt :: "u64 \<Rightarrow> 'a compat_scheme syscall" where
  "sys_setsockopt fd s = Inr (s, of_int (socket_setsockopt (as_i32 fd) (net_state s)))"

definition sys_getsockopt :: "u64 \<Rightarrow> 'a compat_scheme syscall" where
  "sys_getsockopt fd s = Inr (s, of_int (socket_getsockopt (as_i32 fd) (net_state s)))"

text \<open>\<open>getsockname\<close> and \<open>getpeername\<close> read the length and write the address and the length.\<close>

definition sys_sockaddr ::
  "(int \<Rightarrow> u32 option \<Rightarrow> dhcpc \<Rightarrow> int \<times> u8 list option) \<Rightarrow> u64 \<Rightarrow> u64 \<Rightarrow> u64 \<Rightarrow> 'a compat_scheme syscall" where
  "sys_sockaddr op fd addr addrlen s =
     (let given = (addr \<noteq> 0 \<and> addrlen \<noteq> 0)
      in and_then (load_if (is_socket fd s \<and> given) addrlen 4 s)
           (\<lambda>n. case op (as_i32 fd) (if given then Some (of_le n) else None) (net_state s) of
                  (ret, None) \<Rightarrow> Inr (s, of_int ret)
                | (ret, Some sa) \<Rightarrow> and_then (store_bytes_user addr sa s)
                    (\<lambda>s. and_then (store_bytes_user addrlen (le_bytes 4 (16 :: u32)) s) (\<lambda>s. Inr (s, of_int ret)))))"

definition sys_getsockname :: "u64 \<Rightarrow> u64 \<Rightarrow> u64 \<Rightarrow> 'a compat_scheme syscall" where
  "sys_getsockname fd addr addrlen s = sys_sockaddr socket_getsockname fd addr addrlen s"

definition sys_getpeername :: "u64 \<Rightarrow> u64 \<Rightarrow> u64 \<Rightarrow> 'a compat_scheme syscall" where
  "sys_getpeername fd addr addrlen s = sys_sockaddr socket_getpeername fd addr addrlen s"

section \<open>Dispatch\<close>

datatype SysNo =
    SYS_io_setup | SYS_setxattr | SYS_ioctl | SYS_faccessat | SYS_openat | SYS_close | SYS_read | SYS_write | SYS_writev
  | SYS_readlinkat | SYS_fstatat | SYS_fstat | SYS_exit | SYS_exit_group | SYS_set_tid_address
  | SYS_futex | SYS_clock_gettime | SYS_sched_yield | SYS_kill | SYS_tkill | SYS_rt_sigaction
  | SYS_rt_sigprocmask | SYS_rt_sigreturn | SYS_sigaltstack | SYS_uname | SYS_getpid | SYS_getppid
  | SYS_getuid | SYS_geteuid | SYS_getgid | SYS_getegid | SYS_gettid | SYS_socket | SYS_bind
  | SYS_listen | SYS_accept | SYS_connect | SYS_getsockname | SYS_getpeername | SYS_sendto
  | SYS_recvfrom | SYS_setsockopt | SYS_getsockopt | SYS_brk | SYS_munmap | SYS_clone | SYS_mmap
  | SYS_mprotect | SYS_madvise | SYS_rseq | SYS_getrandom

fun syscall_nr :: "SysNo \<Rightarrow> u64" where
  "syscall_nr SYS_io_setup = 0"
| "syscall_nr SYS_setxattr = 5"
| "syscall_nr SYS_ioctl = 29"
| "syscall_nr SYS_faccessat = 48"
| "syscall_nr SYS_openat = 56"
| "syscall_nr SYS_close = 57"
| "syscall_nr SYS_read = 63"
| "syscall_nr SYS_write = 64"
| "syscall_nr SYS_writev = 66"
| "syscall_nr SYS_readlinkat = 78"
| "syscall_nr SYS_fstatat = 79"
| "syscall_nr SYS_fstat = 80"
| "syscall_nr SYS_exit = 93"
| "syscall_nr SYS_exit_group = 94"
| "syscall_nr SYS_set_tid_address = 96"
| "syscall_nr SYS_futex = 98"
| "syscall_nr SYS_clock_gettime = 113"
| "syscall_nr SYS_sched_yield = 124"
| "syscall_nr SYS_kill = 129"
| "syscall_nr SYS_tkill = 130"
| "syscall_nr SYS_rt_sigaction = 134"
| "syscall_nr SYS_rt_sigprocmask = 135"
| "syscall_nr SYS_rt_sigreturn = 139"
| "syscall_nr SYS_sigaltstack = 132"
| "syscall_nr SYS_uname = 160"
| "syscall_nr SYS_getpid = 172"
| "syscall_nr SYS_getppid = 173"
| "syscall_nr SYS_getuid = 174"
| "syscall_nr SYS_geteuid = 175"
| "syscall_nr SYS_getgid = 176"
| "syscall_nr SYS_getegid = 177"
| "syscall_nr SYS_gettid = 178"
| "syscall_nr SYS_socket = 198"
| "syscall_nr SYS_bind = 200"
| "syscall_nr SYS_listen = 201"
| "syscall_nr SYS_accept = 202"
| "syscall_nr SYS_connect = 203"
| "syscall_nr SYS_getsockname = 204"
| "syscall_nr SYS_getpeername = 205"
| "syscall_nr SYS_sendto = 206"
| "syscall_nr SYS_recvfrom = 207"
| "syscall_nr SYS_setsockopt = 208"
| "syscall_nr SYS_getsockopt = 209"
| "syscall_nr SYS_brk = 214"
| "syscall_nr SYS_munmap = 215"
| "syscall_nr SYS_clone = 220"
| "syscall_nr SYS_mmap = 222"
| "syscall_nr SYS_mprotect = 226"
| "syscall_nr SYS_madvise = 233"
| "syscall_nr SYS_rseq = 293"
| "syscall_nr SYS_getrandom = 278"

definition unknown_fmt :: "u8 list" where "unknown_fmt = ascii (''[compat] unknown syscall %u'' @ [CHR 0x0A])"

text \<open>The groups of the dispatcher, as its comments have them; \<open>None\<close> when the number is of another group.\<close>

definition dispatch_memory :: "u64 \<Rightarrow> u64 \<Rightarrow> u64 \<Rightarrow> u64 \<Rightarrow> ('a compat_scheme syscall) option" where
  "dispatch_memory nr a0 a1 a3 =
     (if nr = syscall_nr SYS_brk then Some (sys_brk a0)
      else if nr = syscall_nr SYS_mmap then Some (sys_mmap a0 a1 a3)
      else if nr = syscall_nr SYS_munmap then Some sys_munmap
      else if nr = syscall_nr SYS_mprotect then Some sys_mprotect
      else if nr = syscall_nr SYS_madvise then Some sys_madvise
      else None)"

definition dispatch_io :: "hw \<Rightarrow> u64 \<Rightarrow> u64 \<Rightarrow> u64 \<Rightarrow> u64 \<Rightarrow> ('a compat_scheme syscall) option" where
  "dispatch_io env nr a0 a1 a2 =
     (if nr = syscall_nr SYS_read then Some (sys_read (console env) a0 a1 a2)
      else if nr = syscall_nr SYS_write then Some (sys_write (console env) a0 a1 a2)
      else if nr = syscall_nr SYS_writev then Some (sys_writev (console env) a0 a1 a2)
      else if nr = syscall_nr SYS_openat then Some (sys_openat a1)
      else if nr = syscall_nr SYS_close then Some (sys_close a0)
      else if nr = syscall_nr SYS_fstat then Some (sys_fstat a0 a1)
      else if nr = syscall_nr SYS_fstatat then Some (sys_fstatat a2)
      else if nr = syscall_nr SYS_ioctl then Some sys_ioctl
      else if nr = syscall_nr SYS_faccessat then Some sys_faccessat
      else if nr = syscall_nr SYS_readlinkat then Some sys_readlinkat
      else None)"

definition dispatch_process :: "hw \<Rightarrow> u64 \<Rightarrow> u64 \<Rightarrow> ('a compat_scheme syscall) option" where
  "dispatch_process env nr a0 =
     (if nr = syscall_nr SYS_exit then Some (sys_exit (console env) a0)
      else if nr = syscall_nr SYS_exit_group then Some (sys_exit_group (console env) a0)
      else if nr = syscall_nr SYS_getpid then Some sys_getpid
      else if nr = syscall_nr SYS_getppid then Some sys_getppid
      else if nr = syscall_nr SYS_gettid then Some sys_gettid
      else if nr = syscall_nr SYS_getuid then Some sys_getuid
      else if nr = syscall_nr SYS_geteuid then Some sys_geteuid
      else if nr = syscall_nr SYS_getgid then Some sys_getgid
      else if nr = syscall_nr SYS_getegid then Some sys_getegid
      else if nr = syscall_nr SYS_set_tid_address then Some (sys_set_tid_address a0)
      else if nr = syscall_nr SYS_clone then Some (\<lambda>s. Inr (s, of_int LINUX_ENOSYS))
      else if nr = syscall_nr SYS_sched_yield then Some sys_sched_yield
      else if nr = syscall_nr SYS_kill \<or> nr = syscall_nr SYS_tkill then Some sys_kill
      else None)"

definition dispatch_misc :: "hw \<Rightarrow> u64 \<Rightarrow> u64 \<Rightarrow> u64 \<Rightarrow> u64 \<Rightarrow> ('a compat_scheme syscall) option" where
  "dispatch_misc env nr a0 a1 a2 =
     (if nr = syscall_nr SYS_clock_gettime then Some (sys_clock_gettime env a1)
      else if nr = syscall_nr SYS_rt_sigaction then Some sys_rt_sigaction
      else if nr = syscall_nr SYS_rt_sigprocmask then Some (sys_rt_sigprocmask a2)
      else if nr = syscall_nr SYS_rt_sigreturn then Some (\<lambda>s. Inr (s, 0))
      else if nr = syscall_nr SYS_sigaltstack then Some (sys_sigaltstack a1)
      else if nr = syscall_nr SYS_uname then Some (sys_uname a0)
      else if nr = syscall_nr SYS_getrandom then Some (sys_getrandom a0 a1)
      else if nr = syscall_nr SYS_futex then Some sys_futex
      else if nr = syscall_nr SYS_rseq then Some sys_rseq
      else None)"

definition dispatch_net :: "hw \<Rightarrow> u64 \<Rightarrow> u64 \<Rightarrow> u64 \<Rightarrow> u64 \<Rightarrow> u64 \<Rightarrow> u64 \<Rightarrow> ('a compat_scheme syscall) option" where
  "dispatch_net env nr a0 a1 a2 a4 a5 =
     (if nr = syscall_nr SYS_socket then Some (sys_socket a0 a1 a2)
      else if nr = syscall_nr SYS_bind then Some (sys_bind a0 a1 a2)
      else if nr = syscall_nr SYS_listen then Some (sys_listen a0 a1)
      else if nr = syscall_nr SYS_accept then Some (sys_accept env a0)
      else if nr = syscall_nr SYS_connect then Some (sys_connect env a0 a1 a2)
      else if nr = syscall_nr SYS_sendto then Some (sys_sendto env a0 a1 a2 a4 a5)
      else if nr = syscall_nr SYS_recvfrom then Some (sys_recvfrom env a0 a1 a2 a4 a5)
      else if nr = syscall_nr SYS_setsockopt then Some (sys_setsockopt a0)
      else if nr = syscall_nr SYS_getsockopt then Some (sys_getsockopt a0)
      else if nr = syscall_nr SYS_getsockname then Some (sys_getsockname a0 a1 a2)
      else if nr = syscall_nr SYS_getpeername then Some (sys_getpeername a0 a1 a2)
      else None)"

fun first_some :: "'x option list \<Rightarrow> 'x \<Rightarrow> 'x" where
  "first_some [] d = d"
| "first_some (Some x # xs) d = x"
| "first_some (None # xs) d = first_some xs d"

definition dispatch :: "hw \<Rightarrow> u64 \<Rightarrow> u64 \<Rightarrow> u64 \<Rightarrow> u64 \<Rightarrow> u64 \<Rightarrow> u64 \<Rightarrow> u64 \<Rightarrow> 'a compat_scheme syscall" where
  "dispatch env nr a0 a1 a2 a3 a4 a5 =
     first_some [dispatch_memory nr a0 a1 a3, dispatch_io env nr a0 a1 a2, dispatch_process env nr a0,
                 dispatch_misc env nr a0 a1 a2, dispatch_net env nr a0 a1 a2 a4 a5]
       (\<lambda>s. and_then (from_device (printf_lit (console env) (\<lambda>_. nr) 0 unknown_fmt s))
              (\<lambda>s. Inr (s, of_int LINUX_ENOSYS)))"

definition linux_init :: "device \<Rightarrow> 'a compat_scheme \<Rightarrow> stop + 'a compat_scheme" where
  "linux_init dev s =
     (let zero = \<lparr>fd_type = FD_NONE, socket_id = 0\<rparr>; con = zero\<lparr>fd_type := FD_CONSOLE\<rparr>;
          s = s\<lparr>fd_table := [con, con, con] @ replicate (unat MAX_FDS - 3) zero,
                current_brk := 0, brk_base := 0, mmap_next := MMAP_BASE\<rparr>
      in from_device (puts_lit dev (ascii (''  [ok] Linux syscall compatibility layer'' @ [CHR 0x0A])) s))"

section \<open>Entry\<close>

definition frame_reg :: "u64 \<Rightarrow> nat \<Rightarrow> 'a compat_scheme \<Rightarrow> u64" where
  "frame_reg frame i s = load64 (mem s) (frame + of_nat (8 * i))"

definition crash_fmt :: "u8 list" where
  "crash_fmt = ascii ([CHR 0x0A] @ ''!!! User process exception: ESR=%x FAR=%x'' @ [CHR 0x0A])"

definition handle_sync_lower :: "hw \<Rightarrow> u64 \<Rightarrow> u64 \<Rightarrow> u64 \<Rightarrow> 'a compat_scheme \<Rightarrow> stop + 'a compat_scheme" where
  "handle_sync_lower env esr far frame s =
     (if drop_bit 26 esr AND 0x3F = 0x15
      then let s = s\<lparr>current_syscall_frame := frame\<rparr>; r = \<lambda>i. frame_reg frame i s
           in and_then (dispatch env (r 8) (r 0) (r 1) (r 2) (r 3) (r 4) (r 5) s)
                (\<lambda>(s, ret). Inr (s\<lparr>mem := store64 (mem s) frame ret, current_syscall_frame := 0\<rparr>))
      else and_then (from_device (printf_lit (console env) (\<lambda>n. if n = 0 then esr else far) 0 crash_fmt s))
             (\<lambda>s. let s = (case get_current s of Some p \<Rightarrow> upd_proc p (state_update (\<lambda>_. ZOMBIE)) s | None \<Rightarrow> s)
                  in Inr (if kernel_return_addr s \<noteq> 0 then return_to_kernel frame s else s)))"

end
