(* ===== verification/Syscall_Props.thy ===== *)
theory Syscall_Props
  imports Syscalls Process_Props
begin

text \<open>
  What system calls do to the kernel: they keep its invariants, writing to the console shows
  exactly the bytes of the process, and growing the heap maps nothing.
\<close>

section \<open>The invariant of the kernel between system calls\<close>

definition brk_ok :: "'a compat_scheme \<Rightarrow> bool" where
  "brk_ok s \<longleftrightarrow> brk_base s = 0
     \<or> brk_base s = BRK_BASE_ADDR \<and> BRK_BASE_ADDR \<le> current_brk s \<and> current_brk s \<le> BRK_BASE_ADDR + BRK_MAX_SIZE"

definition user_inv :: "'a compat_scheme \<Rightarrow> bool" where
  "user_inv s \<longleftrightarrow> kernel_inv s \<and> pstate s (current_index s) \<noteq> UNUSED
     \<and> length (fd_table s) = 256 \<and> brk_ok s \<and> stack_ok (net_state s)"

fun keeps :: "stop + ('a compat_scheme \<times> u64) \<Rightarrow> bool" where
  "keeps (Inl e) = (e \<noteq> Table_overrun)"
| "keeps (Inr (s, v)) = user_inv s"

text \<open>A step that does not leave the table of file descriptors.\<close>

fun in_table :: "stop + 'x \<Rightarrow> bool" where
  "in_table (Inl e) = (e \<noteq> Table_overrun)"
| "in_table (Inr x) = True"

lemma in_table_then: "in_table r \<Longrightarrow> (\<And>x. in_table (f x)) \<Longrightarrow> in_table (and_then r f)"
  by (cases r) auto

lemma in_table_user [simp]: "in_table (load_user va s)" "in_table (store_user va b s)" "in_table (from_device r)"
  by (simp_all add: load_user_def store_user_def split: option.split) (cases r; simp)

lemma in_table_bytes [simp]:
  "in_table (load_bytes_user va n s)" "in_table (store_bytes_user va bs s)" "in_table (load_if c va n s)"
  "in_table (load64_user va s)" "in_table (path_is cs va s)" "in_table (store_fields va fs s)"
proof -
  show l: "in_table (load_bytes_user va n s)" for va n
    by (induction n arbitrary: va) (auto intro!: in_table_then)
  show st: "in_table (store_bytes_user va bs s)" for va bs s
    by (induction bs arbitrary: va s) (auto intro!: in_table_then)
  show "in_table (load_if c va n s)" by (simp add: load_if_def l)
  show "in_table (load64_user va s)" unfolding load64_user_def by (rule in_table_then) (simp_all add: l del: load_bytes_user.simps)
  show "in_table (path_is cs va s)" by (induction cs arbitrary: va) (auto intro!: in_table_then)
  show "in_table (store_fields va fs s)" by (induction fs arbitrary: va s) (auto intro!: in_table_then st)
qed

lemma in_table_loops [simp]: "in_table (write_loop dev buf n s)" "in_table (random_loop out n s)"
proof -
  show "in_table (write_loop dev buf n s)" by (induction n arbitrary: buf s) (auto intro!: in_table_then)
  show "in_table (random_loop out n s)" by (induction n arbitrary: out s) (auto simp: Let_def intro!: in_table_then)
qed

lemma keeps_then:
  "in_table r \<Longrightarrow> (\<And>s. r = Inr s \<Longrightarrow> user_inv s \<and> keeps (f s)) \<Longrightarrow> keeps (and_then r f)"
  by (cases r) auto

lemma keeps_value: "in_table r \<Longrightarrow> (\<And>x. r = Inr x \<Longrightarrow> keeps (f x)) \<Longrightarrow> keeps (and_then r f)"
  by (cases r) auto

lemma kernel_inv_fields:
  "process_table t = process_table s \<Longrightarrow> current_index t = current_index s \<Longrightarrow> current_process t = current_process s
   \<Longrightarrow> bitmap t = bitmap s \<Longrightarrow> total_pages t = total_pages s \<Longrightarrow> free_pages t = free_pages s
   \<Longrightarrow> kernel_inv t = kernel_inv s"
  by (simp add: kernel_inv_def sched_inv_def stacks_ok_def in_use_def pages_wf_def free_set_def owned_pages_def)

lemma kernel_inv_frame:
  fixes s :: "'a compat_scheme"
  shows "kernel_inv (s\<lparr>mem := m\<rparr>) = kernel_inv s" "kernel_inv (s\<lparr>mmio := l\<rparr>) = kernel_inv s"
    "kernel_inv (s\<lparr>mmap_next := a\<rparr>) = kernel_inv s" "kernel_inv (s\<lparr>tid_address := a\<rparr>) = kernel_inv s"
    "kernel_inv (s\<lparr>rng_state := a\<rparr>) = kernel_inv s" "kernel_inv (s\<lparr>current_syscall_frame := a\<rparr>) = kernel_inv s"
    "kernel_inv (s\<lparr>fd_table := f\<rparr>) = kernel_inv s" "kernel_inv (s\<lparr>net_state := n\<rparr>) = kernel_inv s"
    "kernel_inv (s\<lparr>brk_base := a\<rparr>) = kernel_inv s" "kernel_inv (s\<lparr>current_brk := b\<rparr>) = kernel_inv s"
  by (rule kernel_inv_fields; simp)+

lemma user_inv_fields [simp]:
  "user_inv (s\<lparr>mem := m\<rparr>) = user_inv s" "user_inv (s\<lparr>mmio := l\<rparr>) = user_inv s"
  "user_inv (s\<lparr>mmap_next := a\<rparr>) = user_inv s" "user_inv (s\<lparr>tid_address := a\<rparr>) = user_inv s"
  "user_inv (s\<lparr>rng_state := a\<rparr>) = user_inv s" "user_inv (s\<lparr>current_syscall_frame := a\<rparr>) = user_inv s"
  by (simp_all add: user_inv_def brk_ok_def kernel_inv_frame)

section \<open>Devices and user memory\<close>

lemma user_inv_rest:
  assumes "t\<lparr>mmio := []\<rparr> = (s :: 'a compat_scheme)\<lparr>mmio := []\<rparr>" shows "user_inv t = user_inv s"
  using arg_cong [OF assms, of user_inv] by simp

lemma putc_rest: "putc dev c s = Some t \<Longrightarrow> t\<lparr>mmio := []\<rparr> = s\<lparr>mmio := []\<rparr>"
  by (auto simp: putc_def write32_def dest!: wait_clear_rest split: Option.bind_splits)

lemma getc_rest: "getc dev s = Some (t, c) \<Longrightarrow> t\<lparr>mmio := []\<rparr> = s\<lparr>mmio := []\<rparr>"
  by (auto simp: getc_def read32_def Let_def dest!: wait_clear_rest split: Option.bind_splits)

lemma put_all_rest: "put_all (putc dev) cs s = Some t \<Longrightarrow> t\<lparr>mmio := []\<rparr> = s\<lparr>mmio := []\<rparr>"
  by (induction cs arbitrary: s) (auto dest!: putc_rest split: Option.bind_splits)

lemma from_device_Inr: "from_device r = Inr t \<longleftrightarrow> r = Some t"
  by (cases r) auto

lemma printf_keeps:
  assumes "complete_fmt bs" "str_args n bs = []" "from_device (printf_lit dev args n bs s) = Inr (t :: 'a compat_scheme)" "user_inv s"
  shows "user_inv t"
proof -
  have "printf_lit dev args n bs s = put_all (putc dev) (format (\<lambda>_. []) args n bs) s"
    using assms(1,2) by (intro printf_lit_all) simp_all
  then have "t\<lparr>mmio := []\<rparr> = s\<lparr>mmio := []\<rparr>" using assms(3) by (auto simp: from_device_Inr dest!: put_all_rest)
  then show ?thesis using assms(4) user_inv_rest by blast
qed

lemma putc_keeps: "from_device (putc dev c s) = Inr (t :: 'a compat_scheme) \<Longrightarrow> user_inv s \<Longrightarrow> user_inv t"
  using user_inv_rest by (auto simp: from_device_Inr dest!: putc_rest)

lemma getc_keeps: "from_device (getc dev s) = Inr (t :: 'a compat_scheme, c) \<Longrightarrow> user_inv s \<Longrightarrow> user_inv t"
  using user_inv_rest by (auto simp: from_device_Inr dest!: getc_rest)

lemma store_user_keeps: "store_user va b s = Inr t \<Longrightarrow> user_inv s \<Longrightarrow> user_inv t"
  by (auto simp: store_user_def split: option.splits if_splits)

lemma store_bytes_keeps: "store_bytes_user va bs s = Inr t \<Longrightarrow> user_inv s \<Longrightarrow> user_inv t"
proof (induction va bs s arbitrary: t rule: store_bytes_user.induct)
  case (2 va b bs s)
  then show ?case by (cases "store_user va b s") (auto dest: store_user_keeps)
qed simp

lemma store_then:
  assumes "user_inv s" "\<And>t. user_inv t \<Longrightarrow> keeps (f t)"
  shows "keeps (and_then (store_bytes_user va bs s) f)"
  using assms store_bytes_keeps by (intro keeps_then in_table_bytes) blast

section \<open>Pages\<close>

lemma alloc_page_compat [simp]:
  "fd_table (fst (alloc_page s)) = fd_table s" "brk_base (fst (alloc_page s)) = brk_base s"
  "current_brk (fst (alloc_page s)) = current_brk s" "net_state (fst (alloc_page s)) = net_state s"
  by (simp_all add: alloc_page_def mark_used_def Let_def split: option.split)

lemma get_or_create_compat [simp]:
  "fd_table (fst (get_or_create_table t i s)) = fd_table s" "brk_base (fst (get_or_create_table t i s)) = brk_base s"
  "current_brk (fst (get_or_create_table t i s)) = current_brk s" "net_state (fst (get_or_create_table t i s)) = net_state s"
  by (simp_all add: get_or_create_table_def Let_def set_entry_def case_prod_beta)

lemma map_user_page_compat [simp]:
  "fd_table (map_user_page pgd v p f s) = fd_table s" "brk_base (map_user_page pgd v p f s) = brk_base s"
  "current_brk (map_user_page pgd v p f s) = current_brk s" "net_state (map_user_page pgd v p f s) = net_state s"
  by (simp_all add: map_user_page_def map_page_in_table_def Let_def set_entry_def case_prod_beta)

lemma user_inv_grow:
  assumes "user_inv s" "same_procs s t" "pages_wf t" "owned_pages s \<subseteq> owned_pages t"
    and "fd_table t = fd_table s" "brk_ok t = brk_ok s" "net_state t = net_state s"
  shows "user_inv t"
  using assms kernel_inv_grow [OF _ assms(2-4)] by (auto simp: user_inv_def same_procs_def)

lemma alloc_page_keeps: "user_inv s \<Longrightarrow> user_inv (fst (alloc_page s))"
proof -
  assume s: "user_inv s"
  then have "pages_wf s" by (auto simp: user_inv_def dest: kernel_inv_wf)
  then show ?thesis
    using s by (intro user_inv_grow [OF s same_procs_alloc_page]) (simp_all add: alloc_page_wf alloc_page_grows brk_ok_def)
qed

lemma map_user_page_keeps: "user_inv s \<Longrightarrow> user_inv (map_user_page pgd v p f s)"
proof -
  assume s: "user_inv s"
  then have wf: "pages_wf s" by (auto simp: user_inv_def dest: kernel_inv_wf)
  show ?thesis
    by (rule user_inv_grow [OF s], simp_all add: brk_ok_def)
      (simp_all add: map_user_page_def same_procs_map_page map_page_in_table_grows [OF wf])
qed

lemma brk_premap_keeps: "user_inv s \<Longrightarrow> user_inv (brk_premap pgd i s)"
  using alloc_page_keeps [of s] by (auto simp: brk_premap_def split: prod.split intro!: map_user_page_keeps)

lemma fold_keeps: "user_inv s \<Longrightarrow> user_inv (fold (brk_premap pgd) is s)"
  by (induction "is" arbitrary: s) (simp_all add: brk_premap_keeps)

lemma map_new_pages_keeps: "user_inv s \<Longrightarrow> user_inv (fst (map_new_pages pgd va n s))"
proof (induction n arbitrary: va s)
  case (Suc n)
  show ?case using alloc_page_keeps [OF Suc.prems]
    by (simp add: Let_def case_prod_beta Suc.IH map_user_page_keeps)
qed simp

section \<open>Every system call keeps the invariant\<close>

lemma brk_start_keeps: "user_inv s \<Longrightarrow> user_inv (brk_start s) \<and> brk_base (brk_start s) \<noteq> 0"
proof -
  assume s: "user_inv s"
  have b: "BRK_BASE_ADDR \<noteq> 0" by (simp add: BRK_BASE_ADDR_def)
  let ?s = "s\<lparr>brk_base := BRK_BASE_ADDR, current_brk := BRK_BASE_ADDR\<rparr>"
  have i: "user_inv ?s"
    using s by (simp add: user_inv_def brk_ok_def kernel_inv_frame BRK_BASE_ADDR_def BRK_MAX_SIZE_def)
  have "brk_base (fold (brk_premap pgd) is t) = brk_base t" for pgd "is" and t :: "'a compat_scheme"
    by (induction "is" arbitrary: t) (simp_all add: brk_premap_def case_prod_beta)
  then show ?thesis using s b fold_keeps [OF i] i by (simp add: brk_start_def Let_def)
qed

lemma sys_brk_keeps: "user_inv s \<Longrightarrow> keeps (sys_brk addr s)"
proof -
  assume "user_inv s"
  then have b: "user_inv (brk_start s)" "brk_base (brk_start s) \<noteq> 0" by (simp_all add: brk_start_keeps)
  have set: "user_inv (t\<lparr>current_brk := addr\<rparr>)"
    if "user_inv t" "\<not> addr < brk_base t" "\<not> addr > brk_base t + BRK_MAX_SIZE" for t :: "'a compat_scheme"
    using that by (auto simp: user_inv_def brk_ok_def kernel_inv_frame)
  have base: "brk_base (fst (map_new_pages pgd va n t)) = brk_base t" for pgd va n and t :: "'a compat_scheme"
    by (induction n arbitrary: va t) (simp_all add: Let_def case_prod_beta)
  show ?thesis
    unfolding sys_brk_def Let_def case_prod_beta
    using b map_new_pages_keeps [OF b(1)] by (auto simp: base intro!: set)
qed

lemma sys_mmap_keeps: "user_inv s \<Longrightarrow> keeps (sys_mmap addr len flags s)"
  unfolding sys_mmap_def Let_def case_prod_beta by (simp add: map_new_pages_keeps)

lemma write_loop_keeps: "write_loop dev buf n s = Inr t \<Longrightarrow> user_inv s \<Longrightarrow> user_inv t"
proof (induction n arbitrary: buf s)
  case (Suc n)
  then obtain c u where "from_device (putc dev c s) = Inr u" "write_loop dev (buf + 1) n u = Inr t"
    by (cases "load_user buf s"; cases "from_device (putc dev (projr (load_user buf s)) s)") auto
  then show ?case using Suc putc_keeps by blast
qed simp

lemma sys_write_keeps: "user_inv s \<Longrightarrow> keeps (sys_write dev fd buf count s)"
proof -
  assume s: "user_inv s"
  have "in_table (and_then (fd_at (unat fd) s) (\<lambda>e. Inr (fd_type e = FD_NONE)))" if "\<not> fd \<ge> MAX_FDS"
  proof -
    have "unat fd < 256" using that by (simp add: MAX_FDS_def word_le_nat_alt)
    then show ?thesis using s by (simp add: fd_at_def user_inv_def)
  qed
  then show ?thesis unfolding sys_write_def using s
    by (intro keeps_value) (auto intro!: keeps_then dest: write_loop_keeps)
qed

lemma read_loop_keeps: "user_inv s \<Longrightarrow> keeps (read_loop dev buf i n s)"
proof (induction n arbitrary: i s)
  case (Suc n)
  show ?case
  proof (simp only: read_loop.simps, rule keeps_value [OF in_table_user(3)], clarify)
    fix t c
    assume t: "from_device (getc dev s) = Inr (t, c)"
    then have "user_inv t" using getc_keeps Suc.prems by blast
    then show "keeps (and_then (store_user (buf + i) c t)
        (\<lambda>s. if c = 13 \<or> c = 10 then and_then (store_user (buf + i) 10 s) (\<lambda>s. Inr (s, i + 1)) else read_loop dev buf (i + 1) n s))"
      using store_user_keeps Suc.IH by (auto intro!: keeps_then)
  qed
qed simp

lemma writev_loop_keeps: "user_inv s \<Longrightarrow> keeps (writev_loop dev fd iov n acc s)"
proof (induction n arbitrary: iov acc s)
  case (Suc n)
  have "keeps (and_then (sys_write dev fd a b s) (\<lambda>(s, ret). if sint ret < 0 then Inr (s, ret) else writev_loop dev fd (iov + 16) n (acc + ret) s))" for a b
    using sys_write_keeps [OF Suc.prems, of dev fd a b] Suc.IH by (cases "sys_write dev fd a b s") auto
  then show ?case by (simp only: writev_loop.simps) (rule keeps_value [OF in_table_bytes(4)], rule keeps_value [OF in_table_bytes(4)])
qed simp

lemma upd_fd_keeps: "user_inv s \<Longrightarrow> i < 256 \<Longrightarrow> keeps (and_then (upd_fd i ty s) (\<lambda>s. Inr (s, v)))"
  by (simp add: user_inv_def upd_fd_def fd_at_def kernel_inv_frame brk_ok_def)

lemma sys_openat_keeps: "user_inv s \<Longrightarrow> keeps (sys_openat path s)"
proof -
  assume s: "user_inv s"
  have f: "in_table (find_fd is s) \<and> (\<forall>i. find_fd is s = Inr (Some i) \<longrightarrow> i < 256)" if "\<forall>i \<in> set is. i < 256" for "is"
    using that s by (induction "is") (auto simp: fd_at_def user_inv_def)
  have n: "\<forall>i \<in> set [3..<unat MAX_FDS]. i < 256" by (simp add: MAX_FDS_def)
  show ?thesis unfolding sys_openat_def
  proof (rule keeps_value [OF in_table_bytes(5)])
    fix x
    have "keeps (and_then (find_fd [3..<unat MAX_FDS] s) (\<lambda>r. case r of
        Some i \<Rightarrow> and_then (upd_fd i FD_CONSOLE s) (\<lambda>s. Inr (s, of_nat i)) | None \<Rightarrow> Inr (s, of_int LINUX_ENOENT)))"
      using f [OF n] s by (intro keeps_value) (auto split: option.split intro!: upd_fd_keeps)
    then show "keeps (if x then and_then (find_fd [3..<unat MAX_FDS] s) (\<lambda>r. case r of
        Some i \<Rightarrow> and_then (upd_fd i FD_CONSOLE s) (\<lambda>s. Inr (s, of_nat i)) | None \<Rightarrow> Inr (s, of_int LINUX_ENOENT))
      else Inr (s, of_int LINUX_ENOENT))" using s by simp
  qed
qed

lemma sys_close_keeps: "user_inv s \<Longrightarrow> keeps (sys_close fd s)"
  by (auto simp: sys_close_def MAX_FDS_def word_less_nat_alt intro: upd_fd_keeps)

lemma sys_fstat_keeps: "user_inv s \<Longrightarrow> keeps (sys_fstat fd statbuf s)" "user_inv s \<Longrightarrow> keeps (sys_fstatat statbuf s)"
  unfolding sys_fstat_def sys_fstatat_def by (auto intro!: store_then)

lemma zombie_keeps:
  assumes "user_inv s" "get_current s = Some p"
  shows "user_inv (upd_proc p (state_update (\<lambda>_. ZOMBIE)) s)"
proof -
  have p: "current_process s = Some p" "p = current_index s" "length (process_table s) = 64" "p < 64"
    using assms by (auto simp: user_inv_def kernel_inv_def sched_inv_def get_current_def)
  have "kernel_inv (kernel_thread_return s)" using assms(1) by (intro kernel_inv_return) (auto simp: user_inv_def)
  then have "kernel_inv (upd_proc p (state_update (\<lambda>_. ZOMBIE)) s)" by (simp add: kernel_thread_return_def p(1))
  then show ?thesis using assms(1) p
    by (simp add: user_inv_def brk_ok_def process_table_upd) (simp add: upd_proc_def)
qed

lemma exit_fmt_ok: "complete_fmt exit_fmt" "str_args 0 exit_fmt = []"
  by (simp_all add: exit_fmt_def ascii_def takes_arg_def)

lemma return_to_kernel_keeps [simp]: "user_inv (return_to_kernel frame s) = user_inv s"
  by (simp add: return_to_kernel_def)

lemma sys_exit_keeps: "user_inv s \<Longrightarrow> keeps (sys_exit dev code s)"
proof (cases "get_current s")
  case None
  assume "user_inv s"
  then show ?thesis using None by (simp add: sys_exit_def)
next
  case (Some p)
  assume s: "user_inv s"
  let ?a = "\<lambda>n. if n = 0 then ucast (pid (process_table s ! p)) else code"
  let ?r = "from_device (printf_lit dev ?a 0 exit_fmt s)"
  have "user_inv t \<and> get_current t = Some p" if t: "?r = Inr t" for t
  proof -
    have "printf_lit dev ?a 0 exit_fmt s = put_all (putc dev) (format (\<lambda>_. []) ?a 0 exit_fmt) s"
      by (rule printf_lit_all) (simp_all add: exit_fmt_ok)
    then have "t\<lparr>mmio := []\<rparr> = s\<lparr>mmio := []\<rparr>" using t put_all_rest by (metis from_device_Inr)
    from arg_cong [OF this, of current_process] have "current_process t = current_process s" by simp
    then show ?thesis using printf_keeps [OF exit_fmt_ok t s] Some by (simp add: get_current_def)
  qed
  then show ?thesis unfolding sys_exit_def Some using in_table_user(3) [of "printf_lit dev ?a 0 exit_fmt s"]
    by (cases ?r) (auto intro: zombie_keeps)
qed

lemma yield_keeps: "user_inv s \<Longrightarrow> user_inv (yield s)"
proof -
  assume s: "user_inv s"
  then have k: "kernel_inv (schedule s)" and si: "sched_inv s"
    by (simp_all add: user_inv_def kernel_inv_schedule) (simp add: kernel_inv_def)
  have f: "fd_table (schedule s) = fd_table s" "brk_ok (schedule s) = brk_ok s" "net_state (schedule s) = net_state s"
    by (simp_all add: schedule_def Let_def upd_proc_def context_switch_def switch_page_table_def brk_ok_def split: option.split)
  have "pstate (schedule s) (current_index (schedule s)) \<noteq> UNUSED"
  proof (cases "\<exists>i < 64. runnable s i")
    case True
    from schedule_switch [OF si True] show ?thesis by (metis ProcessState.distinct(3))
  next
    case False
    then show ?thesis using schedule_idle [OF si] s by (auto simp: user_inv_def)
  qed
  then show ?thesis using s k f by (simp add: user_inv_def yield_def)
qed

lemma clock_gettime_keeps: "user_inv s \<Longrightarrow> keeps (sys_clock_gettime env tp s)"
  unfolding sys_clock_gettime_def Let_def case_prod_beta by (auto intro!: store_then)

lemma store_if_keeps: "user_inv s \<Longrightarrow> keeps (and_then (if c then store_bytes_user va bs s else Inr s) (\<lambda>s. Inr (s, v)))"
  by (cases c) (auto intro: store_then)

lemma store_fields_keeps: "store_fields va fs s = Inr t \<Longrightarrow> user_inv s \<Longrightarrow> user_inv t"
proof (induction va fs s rule: store_fields.induct)
  case (2 va f fs s)
  then show ?case by (cases "store_bytes_user va (f @ [0]) s") (auto dest: store_bytes_keeps)
qed simp

lemma sys_uname_keeps: "user_inv s \<Longrightarrow> keeps (sys_uname buf s)"
  unfolding sys_uname_def
  by (intro store_then keeps_then) (auto dest: store_fields_keeps simp del: store_fields.simps)

lemma random_loop_keeps: "random_loop out n s = Inr t \<Longrightarrow> user_inv s \<Longrightarrow> user_inv t"
proof (induction n arbitrary: out s)
  case (Suc n)
  let ?s = "s\<lparr>rng_state := xorshift (rng_state s)\<rparr>"
  obtain u where u: "store_user out (ucast (rng_state ?s)) ?s = Inr u" "random_loop (out + 1) n u = Inr t"
    using Suc.prems(1) by (cases "store_user out (ucast (rng_state ?s)) ?s") (auto simp: Let_def)
  have "user_inv u" using store_user_keeps [OF u(1)] Suc.prems(2) by simp
  then show ?case using Suc.IH u(2) by blast
qed simp

lemma sys_getrandom_keeps: "user_inv s \<Longrightarrow> keeps (sys_getrandom buf n s)"
  unfolding sys_getrandom_def using random_loop_keeps by (auto intro!: keeps_then)

lemma store_addr_keeps:
  "user_inv s \<Longrightarrow> keeps (and_then (store_bytes_user a xs s) (\<lambda>s. and_then (store_bytes_user b ys s) (\<lambda>s. Inr (s, v))))"
  by (auto intro!: store_then)

text \<open>The network calls keep the stack well formed, by the theorem about sockets.\<close>

lemma stack_inv_0: "stack_inv 0 = stack_ok"
  by (simp add: stack_inv_def fun_eq_iff)

lemmas socket_keeps =
  stack.socket_create_keeps [unfolded stack_inv_0] stack.socket_bind_keeps [unfolded stack_inv_0]
  stack.socket_listen_keeps [unfolded stack_inv_0]

lemma net_keeps:
  assumes "user_inv s" "outcome_ok E (\<lambda>(n, r). stack_ok n) res"
  shows "keeps (net_result s res)"
  using assms by (cases res) (auto simp: user_inv_def kernel_inv_frame brk_ok_def)

lemma net_call_keeps:
  assumes s: "user_inv s"
  shows "keeps (sys_socket a b c s)" "keeps (sys_bind a b c s)" "keeps (sys_listen a b s)" "keeps (sys_accept env a s)"
    "keeps (sys_connect env a b c s)" "keeps (sys_sendto env a b c d e s)" "keeps (sys_recvfrom env a b c d e s)"
    "keeps (sys_setsockopt a s)" "keeps (sys_getsockopt a s)" "keeps (sys_getsockname a b c s)" "keeps (sys_getpeername a b c s)"
proof -
  let ?E = "{Overrun, Out_of_fuel}"
  have n: "stack_ok (net_state s)" using s by (simp add: user_inv_def)
  have pure: "outcome_ok ?E (\<lambda>(n, r). stack_ok n) (Inr x)" if "stack_ok (fst x)" for x :: "dhcpc \<times> int"
    using that by (simp add: case_prod_beta)
  show "keeps (sys_socket a b c s)" "keeps (sys_listen a b s)" "keeps (sys_bind a b c s)"
    unfolding sys_socket_def sys_listen_def sys_bind_def using n
    by (auto intro!: keeps_value net_keeps [OF s pure] socket_keeps)
  show "keeps (sys_accept env a s)" "keeps (sys_connect env a b c s)" "keeps (sys_sendto env a b c d e s)"
    unfolding sys_accept_def sys_connect_def sys_sendto_def Let_def using n
    by (auto intro!: keeps_value net_keeps [OF s] stack.socket_accept_keeps [unfolded stack_inv_0]
        stack.socket_connect_keeps [unfolded stack_inv_0] stack.socket_sendto_keeps [unfolded stack_inv_0])
  have addr: "keeps (sys_sockaddr op a b c s)" for op
    unfolding sys_sockaddr_def Let_def
    by (rule keeps_value) (auto simp: s store_addr_keeps [OF s] split: prod.split option.split)
  show "keeps (sys_setsockopt a s)" "keeps (sys_getsockopt a s)" "keeps (sys_getsockname a b c s)" "keeps (sys_getpeername a b c s)"
    using s by (simp_all add: sys_setsockopt_def sys_getsockopt_def sys_getsockname_def sys_getpeername_def addr)
  show "keeps (sys_recvfrom env a b c d e s)"
    unfolding sys_recvfrom_def Let_def
  proof (rule keeps_value [OF in_table_bytes(3)])
    fix x
    let ?w = "is_socket a s \<and> sk_type (sock_of a s) = ST_UDP \<and> d \<noteq> 0 \<and> e \<noteq> 0"
    let ?p = "net_poll (network env) (net_fuel env)"
    let ?r = "socket_recvfrom (network env) (send_ip (network env) ?p) ?p (as_i32 a) (ucast c) (if ?w then Some (of_le x) else None) (net_state s)"
    have r: "outcome_ok ?E (\<lambda>(t, _). stack_ok t) ?r" by (rule stack.socket_recvfrom_keeps [unfolded stack_inv_0, OF n])
    then have "user_inv (s\<lparr>net_state := t\<rparr>)" if "?r = Inr (t, y)" for t y
      using s that by (simp add: user_inv_def kernel_inv_frame brk_ok_def)
    then show "keeps (case ?r of Inl e \<Rightarrow> Inl (Network e)
        | Inr (net, ret, bs, src) \<Rightarrow> and_then (store_bytes_user b bs (s\<lparr>net_state := net\<rparr>))
            (\<lambda>s. case src of None \<Rightarrow> Inr (s, of_int ret)
               | Some sa \<Rightarrow> and_then (store_bytes_user d sa s)
                   (\<lambda>s. and_then (store_bytes_user e (le_bytes 4 (16 :: u32)) s) (\<lambda>s. Inr (s, of_int ret)))))"
      by (auto intro!: store_then split: sum.split prod.split option.split)
  qed
qed

lemma first_some_all: "(\<And>f. Some f \<in> set xs \<Longrightarrow> P f) \<Longrightarrow> P d \<Longrightarrow> P (first_some xs d)"
  by (induction xs d rule: first_some.induct) auto

lemma unknown_fmt_ok: "complete_fmt unknown_fmt" "str_args 0 unknown_fmt = []"
  by (simp_all add: unknown_fmt_def ascii_def takes_arg_def)

lemma dispatch_group_keeps:
  assumes s: "user_inv s"
  shows "dispatch_memory nr a b d = Some f \<Longrightarrow> keeps (f s)" "dispatch_io env nr a b c = Some f \<Longrightarrow> keeps (f s)"
    "dispatch_process env nr a = Some f \<Longrightarrow> keeps (f s)" "dispatch_misc env nr a b c = Some f \<Longrightarrow> keeps (f s)"
    "dispatch_net env nr a b c d e = Some f \<Longrightarrow> keeps (f s)"
proof -
  show "dispatch_memory nr a b d = Some f \<Longrightarrow> keeps (f s)"
    using s by (auto simp: dispatch_memory_def sys_brk_keeps sys_mmap_keeps sys_munmap_def sys_mprotect_def sys_madvise_def split: if_splits)
  show "dispatch_io env nr a b c = Some f \<Longrightarrow> keeps (f s)"
    using s by (auto simp: dispatch_io_def sys_read_def read_loop_keeps sys_write_keeps sys_writev_def writev_loop_keeps
        sys_openat_keeps sys_close_keeps sys_fstat_keeps sys_ioctl_def sys_faccessat_def sys_readlinkat_def split: if_splits)
  have "user_inv (s\<lparr>tid_address := t\<rparr>)" for t using s by simp
  then show "dispatch_process env nr a = Some f \<Longrightarrow> keeps (f s)"
    using s by (auto simp: dispatch_process_def sys_exit_keeps sys_exit_group_def sys_getpid_def sys_gettid_def sys_getppid_def
        sys_getuid_def sys_geteuid_def sys_getgid_def sys_getegid_def sys_set_tid_address_def sys_sched_yield_def yield_keeps
        sys_kill_def split: if_splits)
  show "dispatch_misc env nr a b c = Some f \<Longrightarrow> keeps (f s)"
    using s by (auto simp: dispatch_misc_def clock_gettime_keeps sys_rt_sigaction_def sys_rt_sigprocmask_def sys_sigaltstack_def
        store_if_keeps sys_uname_keeps sys_getrandom_keeps sys_futex_def sys_rseq_def simp del: and_then.simps split: if_splits)
  show "dispatch_net env nr a b c d e = Some f \<Longrightarrow> keeps (f s)"
    using net_call_keeps [OF s] by (auto simp: dispatch_net_def split: if_splits)
qed

lemma dispatch_keeps: "user_inv s \<Longrightarrow> keeps (dispatch env nr a0 a1 a2 a3 a4 a5 s)"
proof -
  assume s: "user_inv s"
  have "keeps (and_then (from_device (printf_lit (console env) (\<lambda>_. nr) 0 unknown_fmt s)) (\<lambda>s. Inr (s, of_int LINUX_ENOSYS)))"
    using printf_keeps [OF unknown_fmt_ok _ s] by (auto intro!: keeps_then)
  then show ?thesis unfolding dispatch_def
    by (intro first_some_all [where P = "\<lambda>f. keeps (f s)"]) (auto dest: dispatch_group_keeps [OF s, OF sym])
qed

lemma crash_fmt_ok: "complete_fmt crash_fmt" "str_args 0 crash_fmt = []"
  by (simp_all add: crash_fmt_def ascii_def takes_arg_def)


definition bare_kernel :: compat where
  "bare_kernel = \<lparr>mem = (\<lambda>_. 0), bitmap = [], total_pages = 0, free_pages = 0, irq_enabled = False,
      mair_el1 = 0, tcr_el1 = 0, ttbr0_el1 = 0, sctlr_el1 = 0, vbar_el1 = 0, cntp_tval_el0 = 0,
      cntp_ctl_el0 = 0, mmio = [], first_block = 0, process_table = replicate 64 blank_process,
      next_pid = 1, current_process = None, current_index = 0, cpu_regs = zero_context,
      irq_handlers = [], tick_count = 0, timer_interval = 0, current_brk = 0, brk_base = 0, mmap_next = MMAP_BASE,
      fd_table = replicate 256 \<lparr>fd_type = FD_NONE, socket_id = 0\<rparr>, tid_address = 0, rng_state = 0x12345678DEADBEEF,
      current_syscall_frame = 0, kernel_return_addr = 0, kernel_data = (0x40080000, 0x40081000), net_state = client\<rparr>"

definition sample_kernel :: compat where
  "sample_kernel = process_init 0 (pages_init 0x40100000 0x10000000 bare_kernel)"

lemma pages_init_compat [simp]:
  "fd_table (pages_init h t s) = fd_table s" "brk_base (pages_init h t s) = brk_base s"
  "current_brk (pages_init h t s) = current_brk s" "net_state (pages_init h t s) = net_state s" "kernel_data (pages_init h t s) = kernel_data s"
proof -
  have "fd_table (fold mark_used is u) = fd_table u \<and> brk_base (fold mark_used is u) = brk_base u
      \<and> current_brk (fold mark_used is u) = current_brk u \<and> net_state (fold mark_used is u) = net_state u \<and> kernel_data (fold mark_used is u) = kernel_data u" for "is" and u :: "'a compat_scheme"
    by (induction "is" arbitrary: u) (simp_all add: mark_used_def)
  then show "fd_table (pages_init h t s) = fd_table s" "brk_base (pages_init h t s) = brk_base s"
    "current_brk (pages_init h t s) = current_brk s" "net_state (pages_init h t s) = net_state s" "kernel_data (pages_init h t s) = kernel_data s"
    by (simp_all add: pages_init_def Let_def)
qed

lemma process_init_compat [simp]:
  "fd_table (process_init nm s) = fd_table s" "brk_base (process_init nm s) = brk_base s"
  "current_brk (process_init nm s) = current_brk s" "net_state (process_init nm s) = net_state s" "kernel_data (process_init nm s) = kernel_data s"
proof -
  have "fd_table (fold (\<lambda>i. upd_proc i f) is u) = fd_table u \<and> brk_base (fold (\<lambda>i. upd_proc i f) is u) = brk_base u
      \<and> current_brk (fold (\<lambda>i. upd_proc i f) is u) = current_brk u \<and> net_state (fold (\<lambda>i. upd_proc i f) is u) = net_state u
      \<and> kernel_data (fold (\<lambda>i. upd_proc i f) is u) = kernel_data u"
    for f "is" and u :: "'a compat_scheme"
    by (induction "is" arbitrary: u) (simp_all add: upd_proc_def)
  then show "fd_table (process_init nm s) = fd_table s" "brk_base (process_init nm s) = brk_base s"
    "current_brk (process_init nm s) = current_brk s" "net_state (process_init nm s) = net_state s" "kernel_data (process_init nm s) = kernel_data s"
    by (simp_all add: process_init_def Let_def) (simp_all add: upd_proc_def)
qed

lemma client_ok: "stack_ok client"
  by (auto simp: stack_ok_def arp_ok_def arp_hit_def tcp_ok_def socks_ok_def sock_at_def client_def name_client_def resolv.extend_def
      dhcpc.fields_def conn_ok_def zero_connection_def ring_ok_def udp_ok_def zero_udp_def zero_socket_def nth_Cons' split: if_splits)

lemma sample_kernel_inv: "user_inv sample_kernel"
proof -
  let ?p = "pages_init 0x40100000 0x10000000 bare_kernel"
  have l: "length (process_table ?p) = 64" "current_index ?p = 0" "pages_wf ?p"
    using same_procs_pages_init [of bare_kernel "0x40100000" "0x10000000"]
    by (simp_all add: same_procs_def bare_kernel_def pages_init_spec(1))
  have "kernel_inv sample_kernel" unfolding sample_kernel_def by (rule process_init_inv [OF l])
  moreover have "pstate sample_kernel (current_index sample_kernel) = RUNNING"
    using process_init_table(2,3) [OF l(1), of 0] l(2) by (simp add: sample_kernel_def)
  ultimately show ?thesis by (simp add: user_inv_def brk_ok_def sample_kernel_def bare_kernel_def client_ok)
qed

definition sample_env :: hw where
  "sample_env = \<lparr>console = idle_device, network = quiet_nic, net_fuel = 1, cntfrq = 0, cntpct = 0\<rparr>"


section \<open>Pointers into the kernel\<close>

lemma l2_block_writable: "l2_block i AND PTE_AP_RO = 0"
proof -
  have "(0x40000000 + of_nat i * 0x200000 :: u64) = push_bit 21 (0x200 + of_nat i)"
    by (simp add: push_bit_eq_mult algebra_simps)
  then have "\<not> bit (l2_block i) 7"
    by (simp add: l2_block_def bit_simps PTE_VALID_def PTE_AF_def PTE_SH_INNER_def PTE_ATTR_NORMAL_def PTE_AP_RW_def PTE_UXN_def)
  moreover have "PTE_AP_RO = 2 ^ 7" by (simp add: PTE_AP_RO_def)
  ultimately show ?thesis using and_exp_eq_0_iff_not_bit [of "l2_block i" 7] by simp
qed

lemma kernel_data_frame [simp]:
  "kernel_data (mmu_init kp s) = kernel_data s" "kernel_data (fst (create_user_page_table kp s)) = kernel_data s"
proof -
  have "kernel_data (fst (alloc_page t)) = kernel_data t" for t :: "'a compat_scheme"
    by (simp add: alloc_page_def mark_used_def Let_def split: option.split)
  then show "kernel_data (mmu_init kp s) = kernel_data s" "kernel_data (fst (create_user_page_table kp s)) = kernel_data s"
    by (simp_all add: mmu_init_def create_user_page_table_def Let_def case_prod_beta)
qed

text \<open>
  A process reaches the kernel's tables through the system calls.  Its page table is a copy of
  the kernel's, so every address of RAM translates, with write permission for the kernel, to
  itself; \<open>fstat\<close> clears 128 bytes at whatever address it is given.  With an address in the
  kernel's data it overwrites them.
\<close>

theorem user_pointer_reaches_kernel:
  fixes s :: "'a compat_scheme"
  assumes wf: "pages_wf s" "kp \<in> held_pages s" and free: "2 \<le> card (free_set s)"
    and c: "create_user_page_table kp (mmu_init kp s) = (u, pgd)"
    and va: "0x40000000 \<le> va" "va < 0x50000000" "in_kernel_data va s"
  shows "sys_fstat fd va (u\<lparr>ttbr0_el1 := pgd\<rparr>) = Inl (Kernel_access va)"
proof -
  have ne: "free_set s \<noteq> {}" using free by auto
  have "card (free_set (mmu_init kp s)) = card (free_set s) - 1"
    using mmu_init_tables(7) [OF wf ne] ne Min_in [of "free_set s"] free card_ge_0_finite [of "free_set s"] by simp
  then have "free_set (mmu_init kp s) \<noteq> {}" using free by auto
  from create_user_page_table_same_view [OF mmu_init_pt_wf [OF wf ne] this] c
  have "walk (mem u) pgd va = walk (mem (mmu_init kp s)) kp va" by auto
  also have "\<dots> = Some (va, l2_block ((unat va - 0x40000000) div 0x200000))"
    using mmu_init_walk [OF wf ne, of va] va(2) va(1) [THEN leD] by (simp only: if_False if_True)
  finally have w: "walk (mem u) pgd va = Some (va, l2_block ((unat va - 0x40000000) div 0x200000))" .
  have "kernel_data u = kernel_data s" using kernel_data_frame(2) [of kp "mmu_init kp s"] c by simp
  then have "store_user va 0 (u\<lparr>ttbr0_el1 := pgd\<rparr>) = Inl (Kernel_access va)"
    using va(3) by (simp add: store_user_def w l2_block_writable in_kernel_data_def)
  moreover have "replicate 128 (0 :: u8) = 0 # replicate 127 0" by (simp add: numeral_eq_Suc)
  ultimately show ?thesis by (simp add: sys_fstat_def)
qed

section \<open>Writing to the console\<close>

lemma load_user_frame [simp]:
  "load_user va (s\<lparr>mmio := l\<rparr>) = load_user va s" "load_user va (s\<lparr>current_syscall_frame := a\<rparr>) = load_user va s"
  by (simp_all add: load_user_def in_kernel_data_def split: option.split)

lemma load_bytes_frame [simp]:
  "load_bytes_user va n (s\<lparr>mmio := l\<rparr>) = load_bytes_user va n s"
  "load_bytes_user va n (s\<lparr>current_syscall_frame := a\<rparr>) = load_bytes_user va n s"
  by (induction n arbitrary: va) simp_all

lemma putc_shows:
  assumes "drains dev"
  obtains l where "putc dev c s = Some ((s :: 'a compat_scheme)\<lparr>mmio := l\<rparr>)" "uart_tx l = uart_tx (mmio s) @ [c]"
proof -
  obtain t where t: "putc dev c s = Some t" "uart_tx (mmio t) = uart_tx (mmio s) @ [c]" "t\<lparr>mmio := []\<rparr> = s\<lparr>mmio := []\<rparr>"
    using uart.put_ok [OF assms, of c s] by blast
  have "t = s\<lparr>mmio := mmio t\<rparr>" using arg_cong [OF t(3), of "\<lambda>r. r\<lparr>mmio := mmio t\<rparr>"] by simp
  then show ?thesis using that [of "mmio t"] t by simp
qed

lemma write_loop_shows:
  assumes "drains dev"
  shows "load_bytes_user buf n s = Inr bs
    \<Longrightarrow> \<exists>l. write_loop dev buf n s = Inr (s\<lparr>mmio := l\<rparr>) \<and> uart_tx l = uart_tx (mmio s) @ bs"
proof (induction n arbitrary: buf s bs)
  case 0
  then show ?case by (auto intro: exI [of _ "mmio s"])
next
  case (Suc n)
  obtain c cs where c: "load_user buf s = Inr c" "load_bytes_user (buf + 1) n s = Inr cs" "bs = c # cs"
    using Suc.prems by (cases "load_user buf s"; cases "load_bytes_user (buf + 1) n s") auto
  obtain l where l: "putc dev c s = Some (s\<lparr>mmio := l\<rparr>)" "uart_tx l = uart_tx (mmio s) @ [c]" by (rule putc_shows [OF assms])
  have "\<exists>k. write_loop dev (buf + 1) n (s\<lparr>mmio := l\<rparr>) = Inr (s\<lparr>mmio := l, mmio := k\<rparr>) \<and> uart_tx k = uart_tx l @ cs"
    using Suc.IH [of "buf + 1" "s\<lparr>mmio := l\<rparr>" cs] c(2) by simp
  then show ?case using c l by auto
qed

text \<open>
  Writing to the console end to end.  When a process makes the system call \<open>write\<close> on
  standard output or error (or input) with a buffer that is mapped in its address space, and
  the serial port drains, the call returns, exactly the bytes of the buffer, as the process's
  page tables translate it, go out on the serial port, in order, register x0 of the process is
  the count, and nothing else changes.
\<close>

theorem write_shows_bytes:
  assumes "drains (console env)" and "drop_bit 26 esr AND 0x3F = 0x15" and "frame_reg frame 8 s = syscall_nr SYS_write"
    and "frame_reg frame 0 s \<le> 2" and "load_bytes_user (frame_reg frame 1 s) (unat (frame_reg frame 2 s)) s = Inr bs"
  shows "\<exists>l. handle_sync_lower env esr far frame s =
      Inr (s\<lparr>mem := store64 (mem s) frame (frame_reg frame 2 s), mmio := l, current_syscall_frame := 0\<rparr>)
    \<and> uart_tx l = uart_tx (mmio s) @ bs"
proof -
  let ?s = "s\<lparr>current_syscall_frame := frame\<rparr>"
  have r: "frame_reg frame i ?s = frame_reg frame i s" for i by (simp add: frame_reg_def)
  have d: "dispatch env (syscall_nr SYS_write) a0 a1 a2 a3 a4 a5 = sys_write (console env) a0 a1 a2" for a0 a1 a2 a3 a4 a5
    by (simp add: dispatch_def dispatch_memory_def dispatch_io_def)
  obtain l where l: "write_loop (console env) (frame_reg frame 1 s) (unat (frame_reg frame 2 s)) ?s = Inr (?s\<lparr>mmio := l\<rparr>)"
    "uart_tx l = uart_tx (mmio s) @ bs"
    using write_loop_shows [OF assms(1), of "frame_reg frame 1 s" "unat (frame_reg frame 2 s)" ?s bs] assms(5) by auto
  show ?thesis using assms(2,4) l unfolding handle_sync_lower_def Let_def r assms(3) d
    by (auto simp: sys_write_def intro!: exI [of _ l])
qed

text \<open>A process with a 1 GB block that maps RAM writes the byte \<open>H\<close>.\<close>

definition hello_mem :: ram where
  "hello_mem = store64 (store64 (store64 (store64 (store64 ((\<lambda>_. 0)(0x40082000 := 72)) 0x40081000 1) 0x40081008 0x40082000)
     0x40081010 1) 0x40081040 64) 0x40090008 0x40000001"

definition hello_kernel :: compat where
  "hello_kernel = sample_kernel\<lparr>mem := hello_mem, ttbr0_el1 := 0x40090000\<rparr>"

lemma hello_mem_facts:
  "load64 hello_mem 0x40081000 = 1" "load64 hello_mem 0x40081008 = 0x40082000" "load64 hello_mem 0x40081010 = 1"
  "load64 hello_mem 0x40081040 = 64" "load64 hello_mem 0x40090008 = 0x40000001" "hello_mem 0x40082000 = 72"
proof -
  have s: "sep 0x40081008 8 0x40081000 8" "sep 0x40081010 8 0x40081000 8" "sep 0x40081040 8 0x40081000 8" "sep 0x40090008 8 0x40081000 8"
    "sep 0x40081010 8 0x40081008 8" "sep 0x40081040 8 0x40081008 8" "sep 0x40090008 8 0x40081008 8"
    "sep 0x40081040 8 0x40081010 8" "sep 0x40090008 8 0x40081010 8" "sep 0x40090008 8 0x40081040 8"
    by (simp_all add: sep_def)
  show "load64 hello_mem 0x40081000 = 1" "load64 hello_mem 0x40081008 = 0x40082000" "load64 hello_mem 0x40081010 = 1"
    "load64 hello_mem 0x40081040 = 64" "load64 hello_mem 0x40090008 = 0x40000001"
    unfolding hello_mem_def by (simp_all add: load64_store64_same load64_store64_sep s)
  show "hello_mem 0x40082000 = 72" unfolding hello_mem_def by (simp add: store64_apply in_range_def)
qed

theorem write_shows_bytes_witness:
  "\<exists>l. handle_sync_lower sample_env 0x56000000 0 0x40081000 hello_kernel =
      Inr (hello_kernel\<lparr>mem := store64 hello_mem 0x40081000 1, mmio := l, current_syscall_frame := 0\<rparr>)
    \<and> uart_tx l = uart_tx (mmio hello_kernel) @ [72]"
proof -
  have f: "frame_reg 0x40081000 8 hello_kernel = syscall_nr SYS_write" "frame_reg 0x40081000 0 hello_kernel = 1"
    "frame_reg 0x40081000 1 hello_kernel = 0x40082000" "frame_reg 0x40081000 2 hello_kernel = 1"
    by (simp_all add: frame_reg_def hello_kernel_def hello_mem_facts)
  have "entry hello_mem 0x40090000 1 = 0x40000001" by (simp add: entry_def hello_mem_facts)
  then have "walk hello_mem 0x40090000 0x40082000 = Some (0x40082000, 0x40000001)"
    by (simp add: walk_def Let_def drop_bit_eq_div)
  then have "load_bytes_user 0x40082000 1 hello_kernel = Inr [72]"
    by (simp add: load_user_def in_kernel_data_def hello_kernel_def hello_mem_facts sample_kernel_def bare_kernel_def)
  then show ?thesis
    using write_shows_bytes [of sample_env "0x56000000" "0x40081000" hello_kernel "[72]" 0] f
    by (simp add: sample_env_def idle_drains drop_bit_eq_div) (simp add: hello_kernel_def)
qed

section \<open>Growing the heap\<close>

text \<open>
  The first entry of the top table of every process is the 1 GB block that \<open>MMU::init\<close> made
  for the devices, copied by \<open>create_user_page_table\<close>; the heap of a process lies below 1 GB.
\<close>

definition DEVICE_BLOCK :: u64 where "DEVICE_BLOCK = 0x60000000000405"

definition under_block :: "u64 \<Rightarrow> 'a mm_scheme \<Rightarrow> bool" where
  "under_block pgd s \<longleftrightarrow> pages_wf s \<and> pgd \<in> held_pages s \<and> entry (mem s) pgd 0 = DEVICE_BLOCK"

lemma under_block_walk:
  assumes "under_block pgd s" "va < 0x40000000"
  shows "walk (mem s) pgd va = Some (va, DEVICE_BLOCK)"
proof -
  have lt: "va < 0x8000000000" using assms(2) by (simp add: word_less_nat_alt)
  have "walk (mem s) pgd va = Some ((DEVICE_BLOCK AND 0x0000FFFFC0000000) OR (va AND 0x3FFFFFFF), DEVICE_BLOCK)"
    by (rule walk_below(1) [OF lt]) (use assms i1_low [OF assms(2)] in \<open>simp_all add: under_block_def DEVICE_BLOCK_def\<close>)
  then show ?thesis using mask_low [OF assms(2)] by (simp add: DEVICE_BLOCK_def)
qed

lemma under_block_map:
  assumes "under_block pgd s" "va < 0x40000000"
  shows "map_user_page pgd va page f s = s"
  unfolding map_user_page_def
  by (rule map_over_null_block)
    (use assms i1_low [OF assms(2)] in \<open>simp_all add: under_block_def DEVICE_BLOCK_def ADDR_MASK_def\<close>)

lemma under_block_alloc:
  assumes "under_block pgd s"
  shows "under_block pgd (fst (alloc_page s))" and "card (free_set s) \<le> card (free_set (fst (alloc_page s))) + 1"
proof -
  have wf: "pages_wf s" and h: "pgd \<in> held_pages s" and e: "entry (mem s) pgd 0 = DEVICE_BLOCK"
    using assms by (simp_all add: under_block_def)
  show "under_block pgd (fst (alloc_page s))"
  proof (cases "free_set s = {}")
    case True
    then show ?thesis using assms by (simp add: alloc_page_full)
  next
    case False
    then have nz: "snd (alloc_page s) \<noteq> 0" by (simp add: alloc_page_result [OF wf])
    have "pgd \<noteq> snd (alloc_page s)" using pg.alloc_fresh [OF wf nz] h by blast
    then have "entry (mem (fst (alloc_page s))) pgd 0 = DEVICE_BLOCK"
      using entry_alloc_page [OF wf nz held_is_page [OF wf h], of 0] h e by simp
    then show ?thesis using alloc_page_wf [OF wf] alloc_page_grows [OF wf] h by (auto simp: under_block_def)
  qed
  show "card (free_set s) \<le> card (free_set (fst (alloc_page s))) + 1"
    using alloc_page_free_set [OF wf] by (simp add: card_Diff_singleton_if) linarith
qed

lemma brk_premap_block:
  assumes "under_block pgd s" "i < 16"
  shows "under_block pgd (brk_premap pgd i s) \<and> card (free_set s) \<le> card (free_set (brk_premap pgd i s)) + 1"
proof -
  have "unat (BRK_BASE_ADDR + of_nat i * PAGE_SIZE) < 0x40000000"
    using assms(2) by (simp add: BRK_BASE_ADDR_def PAGE_SIZE_def unat_word_ariths unat_of_nat take_bit_nat_eq_self)
  then have v: "BRK_BASE_ADDR + of_nat i * PAGE_SIZE < 0x40000000" by (simp add: word_less_nat_alt)
  note a = under_block_alloc [OF assms(1)]
  show ?thesis using a under_block_map [OF a(1) v] by (simp add: brk_premap_def case_prod_beta)
qed

lemma brk_premaps_block:
  "under_block pgd s \<Longrightarrow> set is \<subseteq> {..<16} \<Longrightarrow> under_block pgd (fold (brk_premap pgd) is s)
     \<and> card (free_set s) \<le> card (free_set (fold (brk_premap pgd) is s)) + length is"
proof (induction "is" arbitrary: s)
  case (Cons i "is")
  have b: "under_block pgd (brk_premap pgd i s)" "card (free_set s) \<le> card (free_set (brk_premap pgd i s)) + 1"
    using brk_premap_block [OF Cons.prems(1), of i] Cons.prems(2) by auto
  show ?case using Cons.IH [OF b(1)] b(2) Cons.prems(2) by simp
qed simp

lemma map_new_pages_block:
  "under_block pgd s \<Longrightarrow> unat va + n * 4096 \<le> 0x40000000 \<Longrightarrow>
     under_block pgd (fst (map_new_pages pgd va n s)) \<and> (n \<le> card (free_set s) \<longrightarrow> snd (map_new_pages pgd va n s))"
proof (induction n arbitrary: va s)
  case (Suc n)
  have wf: "pages_wf s" using Suc.prems(1) by (simp add: under_block_def)
  have v: "va < 0x40000000" using Suc.prems(2) by (simp add: word_less_nat_alt)
  have u: "unat (va + PAGE_SIZE) = unat va + 4096" using Suc.prems(2) by (simp add: PAGE_SIZE_def unat_word_ariths)
  note a = under_block_alloc [OF Suc.prems(1)]
  have m: "map_user_page pgd va p f (fst (alloc_page s)) = fst (alloc_page s)" for p f by (rule under_block_map [OF a(1) v])
  have r: "snd (alloc_page s) \<noteq> 0" if "Suc n \<le> card (free_set s)" using that alloc_page_result [OF wf] by auto
  show ?case using Suc.IH [OF a(1), of "va + PAGE_SIZE"] Suc.prems(2) u a r by (auto simp: Let_def case_prod_beta m)
qed simp

lemma brk_premaps_frame [simp]:
  "current_pgd (fold (brk_premap pgd) is s) = current_pgd s" "brk_base (fold (brk_premap pgd) is s) = brk_base s"
  "current_brk (fold (brk_premap pgd) is s) = current_brk s"
proof -
  have p: "current_pgd (fst (alloc_page s)) = current_pgd s" "current_pgd (map_user_page g v p f s) = current_pgd s"
    for g v p f and s :: "'a compat_scheme"
    using same_procs_alloc_page [of s] same_procs_map_page [of s g v p f]
    by (simp_all add: current_pgd_def get_current_def same_procs_def map_user_page_def split: option.split)
  show "current_pgd (fold (brk_premap pgd) is s) = current_pgd s" "brk_base (fold (brk_premap pgd) is s) = brk_base s"
    "current_brk (fold (brk_premap pgd) is s) = current_brk s"
    by (induction "is" arbitrary: s) (simp_all add: brk_premap_def case_prod_beta p)
qed

lemma brk_start_block:
  fixes s :: "'a compat_scheme"
  assumes "under_block (current_pgd s) s" "brk_ok s"
  defines "u \<equiv> brk_start s"
  shows "under_block (current_pgd s) u" "current_pgd u = current_pgd s" "card (free_set s) \<le> card (free_set u) + 16"
    "brk_base u = BRK_BASE_ADDR" "BRK_BASE_ADDR \<le> current_brk u" "current_brk u \<le> BRK_BASE_ADDR + BRK_MAX_SIZE"
proof -
  let ?s = "s\<lparr>brk_base := BRK_BASE_ADDR, current_brk := BRK_BASE_ADDR\<rparr>"
  have g: "current_pgd ?s = current_pgd s" by (simp add: current_pgd_def get_current_def split: option.split)
  have b: "under_block (current_pgd s) ?s" "free_set ?s = free_set s"
    using assms(1) by (simp_all add: under_block_def pages_wf_def free_set_def owned_pages_def)
  have "set [0..<16] \<subseteq> {..<16 :: nat}" by auto
  note p = brk_premaps_block [OF b(1) this]
  show "under_block (current_pgd s) u" "current_pgd u = current_pgd s" "card (free_set s) \<le> card (free_set u) + 16"
    "brk_base u = BRK_BASE_ADDR" "BRK_BASE_ADDR \<le> current_brk u" "current_brk u \<le> BRK_BASE_ADDR + BRK_MAX_SIZE"
    using assms(1,2) b g p by (auto simp: u_def brk_start_def Let_def brk_ok_def BRK_BASE_ADDR_def BRK_MAX_SIZE_def)
qed

lemma page_up_le: "unat a \<le> 0x20000000 \<Longrightarrow> unat (page_up a) \<le> unat a + 4095"
proof -
  assume a: "unat a \<le> 0x20000000"
  have "unat (page_up a) \<le> unat (a + 4095)" unfolding page_up_def word_le_nat_alt [symmetric]
    by (simp add: PAGE_SIZE_def) (metis add.commute word_and_le2)
  also have "\<dots> = unat a + 4095" using a by (simp add: unat_word_ariths)
  finally show ?thesis .
qed

lemma page_up_base:
  assumes "BRK_BASE_ADDR \<le> a" "a \<le> BRK_BASE_ADDR + BRK_MAX_SIZE"
  shows "BRK_BASE_ADDR \<le> page_up a"
proof -
  have u: "unat (a + 4095) = unat a + 4095" using assms(2)
    by (simp add: unat_word_ariths word_le_nat_alt BRK_BASE_ADDR_def BRK_MAX_SIZE_def)
  have m: "(- 4096 :: u64) = NOT (mask 12)" by (simp add: mask_eq_exp_minus_1 not_eq_complement)
  have "page_up a = (a + 4095) AND NOT (mask 12)" by (simp add: page_up_def PAGE_SIZE_def m add.commute)
  then have e: "page_up a = push_bit 12 (drop_bit 12 (a + 4095))"
    by (auto intro!: bit_word_eqI simp: bit_simps)
  have "(a + 4095) div 4096 \<ge> 0x10000" using assms(1) u
    by (simp add: word_le_nat_alt unat_div BRK_BASE_ADDR_def)
  then have "unat (page_up a) \<ge> 0x10000000"
    using u assms(2) by (simp add: e push_bit_eq_mult drop_bit_eq_div unat_word_ariths unat_div word_le_nat_alt BRK_BASE_ADDR_def BRK_MAX_SIZE_def)
  then show ?thesis by (simp add: word_le_nat_alt BRK_BASE_ADDR_def)
qed

text \<open>
  C40: a process that asks for more heap is told that it has it, and has none: \<open>sys_brk\<close> returns
  the address it was asked for when the pages are there, and afterwards every address below 1 GB,
  the whole heap area included, is still the device block the process started with, which user
  code cannot even access. (The tables below the first entry are never made, because
  \<open>get_or_create_table\<close> takes the block for a table, at address 0, and \<open>map_page_in_table\<close> gives up.)
\<close>

theorem brk_maps_nothing:
  fixes s :: "'a compat_scheme"
  assumes "under_block (current_pgd s) s" "brk_ok s" "16400 \<le> card (free_set s)"
    and "BRK_BASE_ADDR \<le> addr" "addr \<le> BRK_BASE_ADDR + BRK_MAX_SIZE"
  shows "\<exists>t. sys_brk addr s = Inr (t, addr) \<and> current_brk t = addr \<and> DEVICE_BLOCK AND PTE_AP_USER = 0
     \<and> (\<forall>va < 0x40000000. walk (mem t) (current_pgd s) va = Some (va, DEVICE_BLOCK))"
proof -
  let ?g = "current_pgd s"
  define u where "u = brk_start s"
  note u = brk_start_block [OF assms(1,2), folded u_def]
  let ?old = "page_up (current_brk u)" and ?new = "page_up addr"
  define n where "n = unat ((?new - ?old) div PAGE_SIZE)"
  define r where "r = (if ?new > ?old \<and> ?g \<noteq> 0 then map_new_pages ?g ?old n u else (u, True))"
  have hi: "unat ?new \<le> 0x14000FFF" "unat BRK_BASE_ADDR \<le> unat (current_brk u)"
    using page_up_le [of addr] assms(5) u(5) by (simp_all add: word_le_nat_alt BRK_BASE_ADDR_def BRK_MAX_SIZE_def)
  have lo: "BRK_BASE_ADDR \<le> ?old" using u(5,6) by (rule page_up_base)
  have r: "under_block ?g (fst r) \<and> snd r"
  proof (cases "?new > ?old \<and> ?g \<noteq> 0")
    case True
    then have d: "unat (?new - ?old) = unat ?new - unat ?old" by (simp add: unat_sub word_le_nat_alt word_less_nat_alt)
    have "n * 4096 \<le> unat ?new - unat ?old" unfolding n_def by (simp add: unat_div PAGE_SIZE_def d)
    moreover have "unat ?old < unat ?new" "0x10000000 \<le> unat ?old"
      using lo True by (simp_all add: word_le_nat_alt word_less_nat_alt BRK_BASE_ADDR_def)
    ultimately have "unat ?old + n * 4096 \<le> 0x40000000" "n \<le> 16384" using hi(1) by linarith+
    then show ?thesis using map_new_pages_block [OF u(1)] u(3) assms(3) True by (simp add: r_def)
  next
    case False
    then have "r = (u, True)" by (auto simp: r_def)
    then show ?thesis using u(1) by simp
  qed
  have nz: "addr \<noteq> 0" using assms(4) by (auto simp: BRK_BASE_ADDR_def)
  have "sys_brk addr s = Inr ((fst r)\<lparr>current_brk := addr\<rparr>, addr)"
    using nz assms(4,5) r unfolding sys_brk_def Let_def u_def [symmetric] u(2,4) n_def [symmetric] r_def [symmetric] case_prod_beta
    by (auto simp: linorder_not_less)
  moreover have "DEVICE_BLOCK AND PTE_AP_USER = 0" by (simp add: DEVICE_BLOCK_def PTE_AP_USER_def)
  ultimately show ?thesis using r under_block_walk by (intro exI [of _ "(fst r)\<lparr>current_brk := addr\<rparr>"]) auto
qed

text \<open>A process whose top table is the page at 0x40001000.\<close>

definition heap_kernel :: compat where
  "heap_kernel = (pages_init 0x40100000 0x10000000 bare_kernel)
     \<lparr>mem := set_entry 0x40001000 0 DEVICE_BLOCK (\<lambda>_. 0), current_process := Some 0,
      process_table := [blank_process\<lparr>page_table := 0x40001000\<rparr>]\<rparr>"

lemma heap_kernel_facts:
  "current_pgd heap_kernel = 0x40001000" "under_block 0x40001000 heap_kernel" "brk_ok heap_kernel"
  "card (free_set heap_kernel) = 65280"
proof -
  let ?p = "pages_init 0x40100000 0x10000000 bare_kernel"
  show "current_pgd heap_kernel = 0x40001000" by (simp add: current_pgd_def get_current_def heap_kernel_def)
  show "brk_ok heap_kernel" by (simp add: brk_ok_def heap_kernel_def bare_kernel_def)
  have f: "pages_wf ?p" "free_set ?p = {256..<65536}" "unat (total_pages ?p) = 65536"
    by (simp_all add: pages_init_spec memory_base_def PAGE_SIZE_def)
  have h: "pages_wf heap_kernel" "free_set heap_kernel = {256..<65536}" "unat (total_pages heap_kernel) = 65536"
    using f by (simp_all add: heap_kernel_def pages_wf_def free_set_def)
  then show "card (free_set heap_kernel) = 65280" by simp
  have "1 \<notin> free_set heap_kernel" by (simp add: h)
  then have "1 \<in> owned_pages heap_kernel" using h(3) by (simp add: owned_pages_def free_set_def)
  moreover have "page_addr 1 = 0x40001000" by (simp add: page_addr_def memory_base_def PAGE_SIZE_def)
  ultimately have "0x40001000 \<in> held_pages heap_kernel" by (metis image_eqI)
  moreover from this have "is_page 0x40001000" by (rule held_is_page [OF h(1)])
  ultimately show "under_block 0x40001000 heap_kernel" using h(1) by (simp add: under_block_def heap_kernel_def entry_set_entry)
qed

theorem brk_maps_nothing_witness:
  "\<exists>t. sys_brk 0x10021000 heap_kernel = Inr (t, 0x10021000) \<and> walk (mem t) 0x40001000 0x10020000 = Some (0x10020000, DEVICE_BLOCK)"
proof -
  have "BRK_BASE_ADDR \<le> 0x10021000" "0x10021000 \<le> BRK_BASE_ADDR + BRK_MAX_SIZE"
    by (simp_all add: BRK_BASE_ADDR_def BRK_MAX_SIZE_def)
  then obtain t where t: "sys_brk 0x10021000 heap_kernel = Inr (t, 0x10021000)"
      "\<forall>va < 0x40000000. walk (mem t) 0x40001000 va = Some (va, DEVICE_BLOCK)"
    using brk_maps_nothing [of heap_kernel "0x10021000"] heap_kernel_facts by auto
  have "(0x10020000 :: u64) < 0x40000000" by simp
  then have "walk (mem t) 0x40001000 0x10020000 = Some (0x10020000, DEVICE_BLOCK)" by (rule t(2) [rule_format])
  then show ?thesis using t(1) by blast
qed

end
