(* ===== verification/Virtio.thy ===== *)
theory Virtio
  imports Syscalls
begin

text \<open>
  What the two virtio drivers share: the register layout and the ring structures of
  src/src/drivers/virtio.h, the search for a device, the queue set-up and the publication
  of a descriptor chain.  The devices themselves are hardware.  Their registers answer
  through the parameter \<open>dev\<close> of type \<open>device\<close>; their direct memory access is a parameter of
  type \<open>dma\<close>, which takes the log of register accesses, the device's own state and the
  memory to the next state of the device and of the memory.
\<close>

section \<open>Registers and rings\<close>

datatype VirtioReg =
    VIRTIO_MMIO_MAGIC | VIRTIO_MMIO_VERSION | VIRTIO_MMIO_DEVICE_ID | VIRTIO_MMIO_VENDOR_ID
  | VIRTIO_MMIO_HOST_FEATURES | VIRTIO_MMIO_GUEST_FEATURES | VIRTIO_MMIO_QUEUE_SEL
  | VIRTIO_MMIO_QUEUE_NUM_MAX | VIRTIO_MMIO_QUEUE_NUM | VIRTIO_MMIO_QUEUE_READY
  | VIRTIO_MMIO_QUEUE_NOTIFY | VIRTIO_MMIO_INT_STATUS | VIRTIO_MMIO_INT_ACK | VIRTIO_MMIO_STATUS
  | VIRTIO_MMIO_QUEUE_DESC_LOW | VIRTIO_MMIO_QUEUE_DESC_HIGH
  | VIRTIO_MMIO_QUEUE_AVAIL_LOW | VIRTIO_MMIO_QUEUE_AVAIL_HIGH
  | VIRTIO_MMIO_QUEUE_USED_LOW | VIRTIO_MMIO_QUEUE_USED_HIGH

fun vreg :: "VirtioReg \<Rightarrow> u64" where
  "vreg VIRTIO_MMIO_MAGIC = 0x000"
| "vreg VIRTIO_MMIO_VERSION = 0x004"
| "vreg VIRTIO_MMIO_DEVICE_ID = 0x008"
| "vreg VIRTIO_MMIO_VENDOR_ID = 0x00C"
| "vreg VIRTIO_MMIO_HOST_FEATURES = 0x010"
| "vreg VIRTIO_MMIO_GUEST_FEATURES = 0x020"
| "vreg VIRTIO_MMIO_QUEUE_SEL = 0x030"
| "vreg VIRTIO_MMIO_QUEUE_NUM_MAX = 0x034"
| "vreg VIRTIO_MMIO_QUEUE_NUM = 0x038"
| "vreg VIRTIO_MMIO_QUEUE_READY = 0x044"
| "vreg VIRTIO_MMIO_QUEUE_NOTIFY = 0x050"
| "vreg VIRTIO_MMIO_INT_STATUS = 0x060"
| "vreg VIRTIO_MMIO_INT_ACK = 0x064"
| "vreg VIRTIO_MMIO_STATUS = 0x070"
| "vreg VIRTIO_MMIO_QUEUE_DESC_LOW = 0x080"
| "vreg VIRTIO_MMIO_QUEUE_DESC_HIGH = 0x084"
| "vreg VIRTIO_MMIO_QUEUE_AVAIL_LOW = 0x090"
| "vreg VIRTIO_MMIO_QUEUE_AVAIL_HIGH = 0x094"
| "vreg VIRTIO_MMIO_QUEUE_USED_LOW = 0x0A0"
| "vreg VIRTIO_MMIO_QUEUE_USED_HIGH = 0x0A4"

datatype VirtioStatus =
    VIRTIO_STATUS_ACK | VIRTIO_STATUS_DRIVER | VIRTIO_STATUS_FEATURES | VIRTIO_STATUS_DRIVER_OK

fun vstatus :: "VirtioStatus \<Rightarrow> u32" where
  "vstatus VIRTIO_STATUS_ACK = 1"
| "vstatus VIRTIO_STATUS_DRIVER = 2"
| "vstatus VIRTIO_STATUS_FEATURES = 8"
| "vstatus VIRTIO_STATUS_DRIVER_OK = 4"

definition VRING_DESC_F_NEXT :: u16 where "VRING_DESC_F_NEXT = 1"
definition VRING_DESC_F_WRITE :: u16 where "VRING_DESC_F_WRITE = 2"
definition VIRTIO_MMIO_BASE :: u64 where "VIRTIO_MMIO_BASE = 0x0a000000"
definition VIRTIO_MMIO_STRIDE :: u64 where "VIRTIO_MMIO_STRIDE = 0x200"
definition VIRTIO_MMIO_COUNT :: nat where "VIRTIO_MMIO_COUNT = 32"
definition QUEUE_SIZE :: u32 where "QUEUE_SIZE = 16"

text \<open>
  A descriptor is 16 packed bytes.  The available ring is two 16-bit words (flags, index)
  followed by its entries; the used ring has the same head, and entries of two 32-bit
  words.  \<open>avail_push\<close> is the publication of a chain: the head goes into the slot the index
  selects, then the index is incremented (and wraps at 16 bits).
\<close>

definition VirtqDesc :: "u64 \<Rightarrow> u32 \<Rightarrow> u16 \<Rightarrow> u16 \<Rightarrow> u8 list" where
  "VirtqDesc addr len flags nxt = le_bytes 8 addr @ le_bytes 4 len @ le_bytes 2 flags @ le_bytes 2 nxt"

definition put_desc :: "u64 \<Rightarrow> u16 \<Rightarrow> u64 \<Rightarrow> u32 \<Rightarrow> u16 \<Rightarrow> u16 \<Rightarrow> ram \<Rightarrow> ram" where
  "put_desc table i addr len flags nxt m =
     write_bytes m (table + 16 * ucast i) (VirtqDesc addr len flags nxt)"

definition ring_idx :: "ram \<Rightarrow> u64 \<Rightarrow> u16" where
  "ring_idx m ring = load16 m (ring + 2)"

definition avail_slot :: "u64 \<Rightarrow> u16 \<Rightarrow> u64" where
  "avail_slot ring idx = ring + 4 + 2 * ucast (ucast idx mod QUEUE_SIZE)"

definition avail_push :: "u64 \<Rightarrow> u16 \<Rightarrow> ram \<Rightarrow> ram" where
  "avail_push ring head m =
     (let m = store16 m (avail_slot ring (ring_idx m ring)) head
      in store16 m (ring + 2) (ring_idx m ring + 1))"

section \<open>Finding and configuring a device\<close>

fun probe_from :: "device \<Rightarrow> u32 \<Rightarrow> nat list \<Rightarrow> 'a cpu_scheme \<Rightarrow> 'a cpu_scheme \<times> u64 option" where
  "probe_from dev wanted [] s = (s, None)"
| "probe_from dev wanted (i # is) s =
     (let base = VIRTIO_MMIO_BASE + of_nat i * VIRTIO_MMIO_STRIDE;
          (s, magic) = read32 dev (base + vreg VIRTIO_MMIO_MAGIC) s;
          (s, dev_id) = read32 dev (base + vreg VIRTIO_MMIO_DEVICE_ID) s
      in if magic = 0x74726976 \<and> dev_id = wanted then (s, Some base)
         else probe_from dev wanted is s)"

definition probe_device :: "device \<Rightarrow> u32 \<Rightarrow> 'a cpu_scheme \<Rightarrow> 'a cpu_scheme \<times> u64 option" where
  "probe_device dev wanted s = probe_from dev wanted [0..<VIRTIO_MMIO_COUNT] s"

definition write_queue_addrs :: "u64 \<Rightarrow> u64 \<times> u64 \<times> u64 \<Rightarrow> 'a cpu_scheme \<Rightarrow> 'a cpu_scheme" where
  "write_queue_addrs base q s =
     (case q of (dp, ap, up) \<Rightarrow>
        let s = write32 (base + vreg VIRTIO_MMIO_QUEUE_DESC_LOW) (ucast (dp AND 0xFFFFFFFF)) s;
            s = write32 (base + vreg VIRTIO_MMIO_QUEUE_DESC_HIGH) (ucast (drop_bit 32 dp)) s;
            s = write32 (base + vreg VIRTIO_MMIO_QUEUE_AVAIL_LOW) (ucast (ap AND 0xFFFFFFFF)) s;
            s = write32 (base + vreg VIRTIO_MMIO_QUEUE_AVAIL_HIGH) (ucast (drop_bit 32 ap)) s;
            s = write32 (base + vreg VIRTIO_MMIO_QUEUE_USED_LOW) (ucast (up AND 0xFFFFFFFF)) s;
            s = write32 (base + vreg VIRTIO_MMIO_QUEUE_USED_HIGH) (ucast (drop_bit 32 up)) s
        in write32 (base + vreg VIRTIO_MMIO_QUEUE_READY) 1 s)"

definition setup_queue ::
  "device \<Rightarrow> u64 \<Rightarrow> u32 \<Rightarrow> 'a cpu_scheme \<Rightarrow> 'a cpu_scheme \<times> (u64 \<times> u64 \<times> u64) option" where
  "setup_queue dev base queue_num s =
     (let s = write32 (base + vreg VIRTIO_MMIO_QUEUE_SEL) queue_num s;
          (s, max_size) = read32 dev (base + vreg VIRTIO_MMIO_QUEUE_NUM_MAX) s
      in if max_size = 0 then (s, None)
         else let qsz = (if QUEUE_SIZE < max_size then QUEUE_SIZE else max_size);
                  s = write32 (base + vreg VIRTIO_MMIO_QUEUE_NUM) qsz s;
                  (s, dp) = alloc_page s;
                  (s, ap) = alloc_page s;
                  (s, up) = alloc_page s
              in if dp = 0 \<or> ap = 0 \<or> up = 0 then (s, None)
                 else (write_queue_addrs base (dp, ap, up) s, Some (dp, ap, up)))"

definition negotiate :: "device \<Rightarrow> u64 \<Rightarrow> u32 \<Rightarrow> 'a cpu_scheme \<Rightarrow> 'a cpu_scheme \<times> u32 \<times> u32" where
  "negotiate dev base accept s =
     (let s = write32 (base + vreg VIRTIO_MMIO_STATUS) 0 s;
          status = vstatus VIRTIO_STATUS_ACK;
          s = write32 (base + vreg VIRTIO_MMIO_STATUS) status s;
          status = status OR vstatus VIRTIO_STATUS_DRIVER;
          s = write32 (base + vreg VIRTIO_MMIO_STATUS) status s;
          (s, features) = read32 dev (base + vreg VIRTIO_MMIO_HOST_FEATURES) s;
          s = write32 (base + vreg VIRTIO_MMIO_GUEST_FEATURES) (features AND accept) s;
          status = status OR vstatus VIRTIO_STATUS_FEATURES;
          s = write32 (base + vreg VIRTIO_MMIO_STATUS) status s
      in (s, features, status))"

section \<open>Regions of memory\<close>

text \<open>
  \<open>regions_apart rs\<close>: the regions (address, length) are pairwise disjoint.  \<open>frame rs m m'\<close>: the
  two memories agree outside the regions.
\<close>

fun regions_apart :: "(u64 \<times> nat) list \<Rightarrow> bool" where
  "regions_apart [] = True"
| "regions_apart ((a, n) # rs) = (list_all (\<lambda>(b, k). sep a n b k) rs \<and> regions_apart rs)"

definition frame :: "(u64 \<times> nat) list \<Rightarrow> ram \<Rightarrow> ram \<Rightarrow> bool" where
  "frame rs m m' \<longleftrightarrow> (\<forall>x. list_all (\<lambda>(a, n). \<not> in_range a n x) rs \<longrightarrow> m' x = m x)"

lemma frame_refl [simp]: "frame rs m m"
  by (simp add: frame_def)

lemma frame_trans: "frame rs m m' \<Longrightarrow> frame rs' m' m'' \<Longrightarrow> frame (rs @ rs') m m''"
  by (simp add: frame_def)

lemma frame_mono: "frame rs m m' \<Longrightarrow> set rs \<subseteq> set rs' \<Longrightarrow> frame rs' m m'"
  by (simp add: frame_def list_all_iff) blast

lemma frame_write: "length bs \<le> 2 ^ 64 \<Longrightarrow> frame [(a, length bs)] m (write_bytes m a bs)"
  by (simp add: frame_def write_bytes_apply)

lemma frame_read:
  assumes "frame rs m m'" "list_all (\<lambda>(a, n). sep a n b k) rs" "k \<le> 2 ^ 64"
  shows "read_bytes m' b k = read_bytes m b k"
  using assms
  by (intro read_bytes_cong) (fastforce simp: frame_def list_all_iff dest: sep_not_in_range)+

lemma frame_idx:
  "frame rs m m' \<Longrightarrow> list_all (\<lambda>(a, n). sep a n (r + 2) 2) rs \<Longrightarrow> ring_idx m' r = ring_idx m r"
  unfolding ring_idx_def load16_def using frame_read [of rs m m' "r + 2" 2] by simp

lemma write_bytes_append:
  "write_bytes m a (xs @ ys) = write_bytes (write_bytes m a xs) (a + of_nat (length xs)) ys"
  by (induction xs arbitrary: m a) (simp_all add: add_ac)

lemma read_bytes_append:
  "read_bytes m a (n + k) = read_bytes m a n @ read_bytes m (a + of_nat n) k"
  by (induction n arbitrary: a) (simp_all add: add_ac)

lemma load16_store16_same [simp, ram_simps]: "load16 (store16 m a v) a = v"
  using read_write_bytes_same [of "le_bytes 2 v" m a]
  by (simp add: load16_def store16_def of_le_le_bytes)

lemma load16_store16_sep [ram_simps]: "sep a 2 b 2 \<Longrightarrow> load16 (store16 m a v) b = load16 m b"
  by (simp add: load16_def store16_def read_write_bytes_sep)

lemma frame_store16: "frame [(a, 2)] m (store16 m a v)"
  using frame_write [of "le_bytes 2 v" a m] by (simp add: store16_def)

lemma in_range_sub: "in_range (a + of_nat i) j x \<Longrightarrow> i + j \<le> n \<Longrightarrow> n \<le> 2 ^ 64 \<Longrightarrow> in_range a n x"
proof -
  assume "in_range (a + of_nat i) j x" "i + j \<le> n" "n \<le> 2 ^ 64"
  then obtain l where l: "l < j" "x = a + of_nat i + of_nat l"
    unfolding in_range_offset by blast
  with \<open>i + j \<le> n\<close> \<open>n \<le> 2 ^ 64\<close> have "i + l < n \<and> i + l < 2 ^ 64 \<and> x = a + of_nat (i + l)" by simp
  then show "in_range a n x" unfolding in_range_offset by blast
qed

lemma frame_sub:
  "frame [(a + of_nat i, j)] m m' \<Longrightarrow> i + j \<le> n \<Longrightarrow> n \<le> 2 ^ 64 \<Longrightarrow> frame [(a, n)] m m'"
  unfolding frame_def using in_range_sub [of a i j _ n] by auto

section \<open>The available ring\<close>

lemma avail_slot_offset:
  "avail_slot ring idx = ring + of_nat (4 + 2 * (unat idx mod 16))"
proof -
  have "unat (ucast idx mod 16 :: u32) = unat idx mod 16"
    by (simp add: unat_mod unat_ucast_up)
  then have "ucast (ucast idx mod 16 :: u32) = (of_nat (unat idx mod 16) :: u64)"
    by (metis of_nat_unat)
  then show ?thesis by (simp add: avail_slot_def QUEUE_SIZE_def add_ac)
qed

lemma avail_push_correct:
  shows "ring_idx (avail_push ring head m) ring = ring_idx m ring + 1"
    and "load16 (avail_push ring head m) (avail_slot ring (ring_idx m ring)) = head"
    and "frame [(ring, 36)] m (avail_push ring head m)"
proof -
  let ?k = "4 + 2 * (unat (ring_idx m ring) mod 16)"
  let ?m = "store16 m (ring + of_nat ?k) head"
  have "unat (ring_idx m ring) mod 16 < 16" by (rule mod_less_divisor) simp
  then have k: "?k + 2 \<le> 36" by linarith
  have s: "sep (ring + of_nat 2) 2 (ring + of_nat ?k) 2" using k by (intro sep_offsets) auto
  then have s': "sep (ring + of_nat ?k) 2 (ring + 2) 2" by (simp add: sep_commute)
  have idx: "ring_idx ?m ring = ring_idx m ring"
    using s' by (simp add: ring_idx_def load16_store16_sep)
  have p: "avail_push ring head m = store16 ?m (ring + 2) (ring_idx m ring + 1)"
    unfolding avail_push_def avail_slot_offset Let_def idx ..
  show "ring_idx (avail_push ring head m) ring = ring_idx m ring + 1"
    unfolding p by (simp add: ring_idx_def)
  show "load16 (avail_push ring head m) (avail_slot ring (ring_idx m ring)) = head"
    unfolding p avail_slot_offset using s by (simp add: load16_store16_sep)
  have "frame [(ring, 36)] m ?m" by (rule frame_sub [OF frame_store16]) (use k in auto)
  moreover have "frame [(ring, 36)] ?m (store16 ?m (ring + of_nat 2) (ring_idx m ring + 1))"
    by (rule frame_sub [OF frame_store16]) auto
  ultimately show "frame [(ring, 36)] m (avail_push ring head m)"
    unfolding p using frame_trans frame_mono by fastforce
qed

section \<open>What the device sees\<close>

text \<open>
  \<open>last_written\<close> is the value a device register holds, \<open>queue_regs\<close> the rings the driver
  programmed into the device at \<open>base\<close>.
\<close>

definition last_written :: "mmio_event list \<Rightarrow> u64 \<Rightarrow> u32" where
  "last_written evs a = fold (\<lambda>e v. case e of Write32 b w \<Rightarrow> if b = a then w else v | _ \<Rightarrow> v) evs 0"

lemma last_written_append [simp]:
  "last_written (evs @ [Write32 b w]) a = (if b = a then w else last_written evs a)"
  "last_written (evs @ [Read32 b w]) a = last_written evs a"
  by (simp_all add: last_written_def)

definition reg_pair :: "mmio_event list \<Rightarrow> u64 \<Rightarrow> u64 \<Rightarrow> u64" where
  "reg_pair evs lo hi = ucast (last_written evs lo) OR push_bit 32 (ucast (last_written evs hi))"

definition queue_regs :: "u64 \<Rightarrow> mmio_event list \<Rightarrow> u64 \<times> u64 \<times> u64 \<Rightarrow> bool" where
  "queue_regs base evs q \<longleftrightarrow>
     q = (reg_pair evs (base + vreg VIRTIO_MMIO_QUEUE_DESC_LOW) (base + vreg VIRTIO_MMIO_QUEUE_DESC_HIGH),
          reg_pair evs (base + vreg VIRTIO_MMIO_QUEUE_AVAIL_LOW) (base + vreg VIRTIO_MMIO_QUEUE_AVAIL_HIGH),
          reg_pair evs (base + vreg VIRTIO_MMIO_QUEUE_USED_LOW) (base + vreg VIRTIO_MMIO_QUEUE_USED_HIGH)) \<and>
     last_written evs (base + vreg VIRTIO_MMIO_QUEUE_NUM) = QUEUE_SIZE"

text \<open>The registers the driver touches per request are not the queue registers.\<close>

lemma queue_regs_log [simp]:
  "queue_regs base (evs @ [Read32 a v]) q = queue_regs base evs q"
  "queue_regs base (evs @ [Write32 (base + 0x50) v]) q = queue_regs base evs q"
  "queue_regs base (evs @ [Write32 (base + 0x64) v]) q = queue_regs base evs q"
  by (simp_all add: queue_regs_def reg_pair_def)

lemma length_VirtqDesc [simp]: "length (VirtqDesc a l f n) = 16"
  by (simp add: VirtqDesc_def)

section \<open>Queue set-up\<close>

text \<open>A page request changes the allocator's fields and memory, nothing else.\<close>

lemma alloc_page_shape: "\<exists>m b f. fst (alloc_page s) = s\<lparr>mem := m, bitmap := b, free_pages := f\<rparr>"
proof (cases "free_set s = {}")
  case True
  have "s = s\<lparr>mem := mem s, bitmap := bitmap s, free_pages := free_pages s\<rparr>" by simp
  with True show ?thesis by (metis alloc_page_full fst_conv)
next
  case False
  have "s\<lparr>bitmap := x, free_pages := y, mem := z\<rparr> = s\<lparr>mem := z, bitmap := x, free_pages := y\<rparr>" for x y z
    by simp
  then show ?thesis unfolding alloc_page_first [OF False] mark_used_def fst_conv by blast
qed

text \<open>
  \<open>fresh_pages s t ps\<close>: \<open>t\<close> is \<open>s\<close> after handing out the pages \<open>ps\<close>, which are
  zeroed, pairwise apart and apart from every page held before.
\<close>

definition held :: "'a mm_scheme \<Rightarrow> u64 set" where
  "held s = page_addr ` owned_pages s"

lemma pages_log [simp]:
  "pages_wf (s\<lparr>mmio := l\<rparr>) = pages_wf s" "free_set (s\<lparr>mmio := l\<rparr>) = free_set s" "held (s\<lparr>mmio := l\<rparr>) = held s"
  by (simp_all add: pages_wf_def free_set_def held_def owned_pages_def)

definition fresh_pages :: "'a mm_scheme \<Rightarrow> 'a mm_scheme \<Rightarrow> u64 list \<Rightarrow> bool" where
  "fresh_pages s t ps \<longleftrightarrow>
     pages_wf t \<and> held t = set ps \<union> held s \<and> card (free_set t) + length ps = card (free_set s) \<and>
     regions_apart (map (\<lambda>p. (p, 4096)) ps) \<and>
     (\<forall>p \<in> set ps. p \<noteq> 0 \<and> (\<forall>b \<in> held s. sep p 4096 b 4096) \<and> (\<forall>x. in_range p 4096 x \<longrightarrow> mem t x = 0)) \<and>
     frame (map (\<lambda>p. (p, 4096)) ps) (mem s) (mem t)"

lemma fresh_page:
  assumes "pages_wf s" "free_set s \<noteq> {}"
  shows "fresh_pages s (fst (alloc_page s)) [snd (alloc_page s)]"
proof -
  have nz: "snd (alloc_page s) \<noteq> 0" using assms by (simp add: alloc_page_result)
  have "card (free_set (fst (alloc_page s))) + 1 = card (free_set s)"
    using assms by (simp add: alloc_page_free_set card_gt_0_iff)
  then show ?thesis
    using nz assms(1) pg.inv_alloc [OF assms(1)] pg.alloc_held [OF assms(1) nz] pg.alloc_apart [OF assms(1) nz]
      pg.alloc_store [OF assms(1) nz]
    by (auto simp: fresh_pages_def held_def frame_def)
qed

lemma fresh_pages_trans:
  assumes "fresh_pages s t ps" "fresh_pages t u qs"
  shows "fresh_pages s u (qs @ ps)"
proof -
  have st: "held t = set ps \<union> held s" "frame (map (\<lambda>p. (p, 4096)) ps) (mem s) (mem t)"
    and tu: "\<forall>q \<in> set qs. \<forall>b \<in> held t. sep q 4096 b 4096" "frame (map (\<lambda>p. (p, 4096)) qs) (mem t) (mem u)"
    using assms by (auto simp: fresh_pages_def)
  have ap: "regions_apart (map (\<lambda>p. (p, 4096 :: nat)) (xs @ ys))"
    if "regions_apart (map (\<lambda>p. (p, 4096 :: nat)) xs)" "regions_apart (map (\<lambda>p. (p, 4096 :: nat)) ys)"
      "\<forall>x \<in> set xs. \<forall>y \<in> set ys. sep x 4096 y 4096" for xs ys
    using that by (induction xs) (auto simp: list_all_iff)
  have "mem u x = 0" if "p \<in> set ps" "in_range p 4096 x" for p x
  proof -
    have "list_all (\<lambda>(a, n). \<not> in_range a n x) (map (\<lambda>p. (p, 4096)) qs)"
      using tu(1) st(1) that sep_not_in_range by (fastforce simp: list_all_iff)
    then have "mem u x = mem t x" using tu(2) by (simp add: frame_def)
    then show ?thesis using assms(1) that by (simp add: fresh_pages_def)
  qed
  moreover have "frame (map (\<lambda>p. (p, 4096)) (qs @ ps)) (mem s) (mem u)"
    using frame_mono [OF frame_trans [OF st(2) tu(2)]] by fastforce
  ultimately show ?thesis
    using assms st(1) ap [of qs ps] by (auto simp: fresh_pages_def)
qed

lemma reg_pair_join:
  "ucast (ucast (v AND 0xFFFFFFFF :: u64) :: u32) OR push_bit 32 (ucast (ucast (drop_bit 32 v) :: u32)) = v"
proof -
  have m: "(0xFFFFFFFF :: u64) = mask 32" by (simp add: mask_eq_exp_minus_1)
  show ?thesis unfolding m by (rule bit_word_eqI) (auto simp: bit_simps)
qed

lemma queue_regs_written:
  assumes "last_written (mmio s) (base + vreg VIRTIO_MMIO_QUEUE_NUM) = QUEUE_SIZE"
  shows "queue_regs base (mmio (write_queue_addrs base q s)) q"
  using assms
  by (cases q) (simp add: queue_regs_def write_queue_addrs_def write32_def reg_pair_def reg_pair_join last_written_def Let_def)

lemma setup_queue_correct:
  fixes s :: "'a cpu_scheme"
  assumes wf: "pages_wf s" and room: "3 \<le> card (free_set s)"
    and big: "\<forall>evs. QUEUE_SIZE \<le> dev evs (base + vreg VIRTIO_MMIO_QUEUE_NUM_MAX)"
  shows "\<exists>t D A U. setup_queue dev base qn s = (t, Some (D, A, U)) \<and> fresh_pages s t [U, A, D] \<and>
    queue_regs base (mmio t) (D, A, U) \<and> (\<exists>m b f l. t = s\<lparr>mem := m, bitmap := b, free_pages := f, mmio := l\<rparr>)"
proof -
  define s1 where "s1 = write32 (base + vreg VIRTIO_MMIO_QUEUE_SEL) qn s"
  define mx where "mx = dev (mmio s1) (base + vreg VIRTIO_MMIO_QUEUE_NUM_MAX)"
  define s2 where "s2 = fst (read32 dev (base + vreg VIRTIO_MMIO_QUEUE_NUM_MAX) s1)"
  define s3 where "s3 = write32 (base + vreg VIRTIO_MMIO_QUEUE_NUM) QUEUE_SIZE s2"
  define s4 where "s4 = fst (alloc_page s3)"
  define s5 where "s5 = fst (alloc_page s4)"
  define s6 where "s6 = fst (alloc_page s5)"
  define D where "D = snd (alloc_page s3)"
  define A where "A = snd (alloc_page s4)"
  define U where "U = snd (alloc_page s5)"
  have mx: "QUEUE_SIZE \<le> mx" using big by (simp add: mx_def)
  then have "mx \<noteq> 0" "(if QUEUE_SIZE < mx then QUEUE_SIZE else mx) = QUEUE_SIZE"
    by (auto simp: QUEUE_SIZE_def)
  have r: "read32 dev (base + vreg VIRTIO_MMIO_QUEUE_NUM_MAX) s1 = (s2, mx)"
    by (simp add: s2_def mx_def read32_def Let_def)
  have shape3: "s3 = s\<lparr>mmio := mmio s3\<rparr>"
    by (simp add: s3_def s2_def s1_def write32_def read32_def Let_def)
  have same3: "pages_wf s3" "free_set s3 = free_set s" "held s3 = held s" "mem s3 = mem s"
    using wf by (subst shape3, simp)+
  have p4: "fresh_pages s3 s4 [D]"
    unfolding s4_def D_def using same3 room by (intro fresh_page) auto
  then have p5: "fresh_pages s4 s5 [A]"
    unfolding s5_def A_def using same3 room by (intro fresh_page) (auto simp: fresh_pages_def)
  then have p6: "fresh_pages s5 s6 [U]"
    unfolding s6_def U_def using p4 same3 room by (intro fresh_page) (auto simp: fresh_pages_def)
  from fresh_pages_trans [OF fresh_pages_trans [OF p4 p5] p6]
  have fp: "fresh_pages s3 s6 [U, A, D]" by simp
  then have nz: "D \<noteq> 0" "A \<noteq> 0" "U \<noteq> 0" by (auto simp: fresh_pages_def)
  define t where "t = write_queue_addrs base (D, A, U) s6"
  have run: "setup_queue dev base qn s = (t, Some (D, A, U))"
    unfolding setup_queue_def Let_def s1_def [symmetric] r
    using \<open>mx \<noteq> 0\<close> \<open>(if _ then _ else _) = _\<close> nz
    by (simp add: s3_def s4_def s5_def s6_def D_def A_def U_def t_def case_prod_beta)
  have shape: "\<exists>m b f. s6 = s3\<lparr>mem := m, bitmap := b, free_pages := f\<rparr>"
    using alloc_page_shape [of s3] alloc_page_shape [of s4] alloc_page_shape [of s5]
    unfolding s4_def [symmetric] s5_def [symmetric] s6_def [symmetric] by fastforce
  then have l: "mmio s6 = mmio s3" by auto
  have st: "\<exists>l. t = s6\<lparr>mmio := l\<rparr>"
    by (rule exI [of _ "mmio t"]) (simp add: t_def write_queue_addrs_def write32_def Let_def)
  then have "fresh_pages s t [U, A, D]"
    using fp same3 by (auto simp: fresh_pages_def)
  moreover have "queue_regs base (mmio t) (D, A, U)"
    unfolding t_def by (rule queue_regs_written) (simp add: l s3_def write32_def)
  moreover have "\<exists>m b f l. t = s\<lparr>mem := m, bitmap := b, free_pages := f, mmio := l\<rparr>"
  proof -
    obtain m b f l where "s6 = s3\<lparr>mem := m, bitmap := b, free_pages := f\<rparr>" "t = s6\<lparr>mmio := l\<rparr>"
      using shape st by blast
    then have "t = s\<lparr>mem := m, bitmap := b, free_pages := f, mmio := l\<rparr>" by (subst (asm) shape3) simp
    then show ?thesis by blast
  qed
  ultimately show ?thesis using run by blast
qed

end
