(* ===== verification/Virtio_Blk.thy ===== *)
theory Virtio_Blk
  imports Virtio
begin

text \<open>
  The block device driver, src/src/drivers/virtio_blk.cpp: one request at a time, three
  descriptors (header, data, status), completion by polling the used ring.  The addresses
  of the function-local statics \<open>header\<close> and \<open>status_byte\<close> and of the sector buffer of the
  file system are fields the linker decides.
\<close>

section \<open>State and operations\<close>

type_synonym 'd dma = "mmio_event list \<Rightarrow> 'd \<times> ram \<Rightarrow> 'd \<times> ram"

record 'd blk = compat +
  device_base :: u64
  capacity_sectors :: u64
  desc :: u64
  avail :: u64
  used_ring :: u64
  last_used_idx :: u16
  header_addr :: u64
  status_addr :: u64
  buffer_addr :: u64
  media :: 'd

definition SECTOR_SIZE :: u32 where "SECTOR_SIZE = 512"
definition VIRTIO_DEV_BLK :: u32 where "VIRTIO_DEV_BLK = 2"
definition VIRTIO_BLK_T_IN :: u32 where "VIRTIO_BLK_T_IN = 0"
definition VIRTIO_BLK_T_OUT :: u32 where "VIRTIO_BLK_T_OUT = 1"

definition VirtioBlkReqHeader :: "u32 \<Rightarrow> u64 \<Rightarrow> u8 list" where
  "VirtioBlkReqHeader ty sector = le_bytes 4 ty @ le_bytes 4 (0 :: u32) @ le_bytes 8 sector"

definition blk_init :: "device \<Rightarrow> ('d, 'a) blk_scheme \<Rightarrow> (('d, 'a) blk_scheme \<times> bool) option" where
  "blk_init dev s =
     (case probe_device dev VIRTIO_DEV_BLK s of
        (s, None) \<Rightarrow>
          Option.bind (puts_lit dev (ascii ''  [--] No virtio-blk device found'' @ [10]) s)
            (\<lambda>s. Some (s, False))
      | (s, Some base) \<Rightarrow>
          (let s = s\<lparr>device_base := base\<rparr>;
               (s, features, status) = negotiate dev base 0 s
           in case setup_queue dev base 0 s of
                (s, None) \<Rightarrow> Some (s, False)
              | (s, Some (desc_page, avail_page, used_page)) \<Rightarrow>
                  let s = s\<lparr>desc := desc_page, avail := avail_page, used_ring := used_page\<rparr>;
                      s = write32 (base + vreg VIRTIO_MMIO_STATUS) (status OR vstatus VIRTIO_STATUS_DRIVER_OK) s;
                      (s, cap_lo) = read32 dev (base + 0x100) s;
                      (s, cap_hi) = read32 dev (base + 0x104) s;
                      s = s\<lparr>capacity_sectors := ucast cap_lo OR push_bit 32 (ucast cap_hi)\<rparr>
                  in Option.bind
                       (printf_lit dev
                          (\<lambda>n. if n = 0 then capacity_sectors s
                               else capacity_sectors s * ucast SECTOR_SIZE div (1024 * 1024))
                          0 (ascii ''  [ok] virtio-blk: %u sectors (%u MB)'' @ [10]) s)
                       (\<lambda>s. Some (s, True))))"

definition submit :: "u32 \<Rightarrow> u64 \<Rightarrow> u64 \<Rightarrow> ('d, 'a) blk_scheme \<Rightarrow> ('d, 'a) blk_scheme" where
  "submit ty sector buf s =
     (let m = write_bytes (mem s) (header_addr s) (VirtioBlkReqHeader ty sector);
          m = m(status_addr s := 0xFF);
          m = put_desc (desc s) 0 (header_addr s) 16 VRING_DESC_F_NEXT 1 m;
          m = put_desc (desc s) 1 buf SECTOR_SIZE
                (VRING_DESC_F_NEXT OR (if ty = VIRTIO_BLK_T_IN then VRING_DESC_F_WRITE else 0)) 2 m;
          m = put_desc (desc s) 2 (status_addr s) 1 VRING_DESC_F_WRITE 0 m;
          m = avail_push (avail s) 0 m
      in write32 (device_base s + vreg VIRTIO_MMIO_QUEUE_NOTIFY) 0 (s\<lparr>mem := m\<rparr>))"

text \<open>
  Each read of \<open>used_ring->idx\<close> is preceded by whatever the device did meanwhile.  The loop
  has no bound in the code: a device that never answers is the value \<open>None\<close>.
\<close>

partial_function (option) poll_used :: "'d dma \<Rightarrow> ('d, 'a) blk_scheme \<Rightarrow> ('d, 'a) blk_scheme option" where
  "poll_used dma s =
     (case dma (mmio s) (media s, mem s) of (d, m) \<Rightarrow>
        let s = s\<lparr>media := d, mem := m\<rparr>
        in if ring_idx (mem s) (used_ring s) = last_used_idx s then poll_used dma s else Some s)"

definition do_request ::
  "device \<Rightarrow> 'd dma \<Rightarrow> u32 \<Rightarrow> u64 \<Rightarrow> u64 \<Rightarrow> ('d, 'a) blk_scheme \<Rightarrow> (('d, 'a) blk_scheme \<times> bool) option" where
  "do_request dev dma ty sector buf s =
     Option.bind (poll_used dma (submit ty sector buf s))
       (\<lambda>s. let s = s\<lparr>last_used_idx := ring_idx (mem s) (used_ring s)\<rparr>;
                (s, isr) = read32 dev (device_base s + vreg VIRTIO_MMIO_INT_STATUS) s;
                s = write32 (device_base s + vreg VIRTIO_MMIO_INT_ACK) isr s
            in Some (s, mem s (status_addr s) = 0))"

definition read_sector ::
  "device \<Rightarrow> 'd dma \<Rightarrow> u64 \<Rightarrow> u64 \<Rightarrow> ('d, 'a) blk_scheme \<Rightarrow> (('d, 'a) blk_scheme \<times> bool) option" where
  "read_sector dev dma sector buf s =
     (if sector \<ge> capacity_sectors s then Some (s, False)
      else do_request dev dma VIRTIO_BLK_T_IN sector buf s)"

definition write_sector ::
  "device \<Rightarrow> 'd dma \<Rightarrow> u64 \<Rightarrow> u64 \<Rightarrow> ('d, 'a) blk_scheme \<Rightarrow> (('d, 'a) blk_scheme \<times> bool) option" where
  "write_sector dev dma sector buf s =
     (if sector \<ge> capacity_sectors s then Some (s, False)
      else do_request dev dma VIRTIO_BLK_T_OUT sector buf s)"

definition get_capacity :: "('d, 'a) blk_scheme \<Rightarrow> u64" where
  "get_capacity s = capacity_sectors s"

section \<open>What the disk promises\<close>

text \<open>
  The virtio block protocol as a contract on the parameter \<open>dma\<close>.  \<open>posted\<close> is a request that sits in the rings: the available index is one past the index of the device,
  the slot names descriptor 0, and the three descriptors and the header describe a transfer
  of one sector.  A device that is busy (for a finite number of looks) leaves memory
  alone; once it serves the request it transfers the sector, writes status 0 and advances
  the used index, and it writes nothing but the used ring, the status byte and, for a read,
  the data buffer.
\<close>

definition blk_chain :: "u32 \<Rightarrow> u64 \<Rightarrow> u64 \<Rightarrow> u64 \<Rightarrow> u8 list" where
  "blk_chain ty hdr buf st =
     VirtqDesc hdr 16 VRING_DESC_F_NEXT 1 @
     VirtqDesc buf SECTOR_SIZE
       (VRING_DESC_F_NEXT OR (if ty = VIRTIO_BLK_T_IN then VRING_DESC_F_WRITE else 0)) 2 @
     VirtqDesc st 1 VRING_DESC_F_WRITE 0"

fun posted :: "u16 \<Rightarrow> u32 \<Rightarrow> u64 \<Rightarrow> u64 \<times> u64 \<times> u64 \<Rightarrow> u64 \<times> u64 \<times> u64 \<Rightarrow> ram \<Rightarrow> bool" where
  "posted nx ty sec (D, A, U) (hdr, buf, st) m \<longleftrightarrow>
     ring_idx m A = nx + 1 \<and> load16 m (avail_slot A nx) = 0 \<and>
     read_bytes m D 48 = blk_chain ty hdr buf st \<and> read_bytes m hdr 16 = VirtioBlkReqHeader ty sec"

fun regions :: "u64 \<times> u64 \<times> u64 \<Rightarrow> u64 \<times> u64 \<times> u64 \<Rightarrow> (u64 \<times> nat) list" where
  "regions (D, A, U) (hdr, buf, st) = [(D, 48), (A, 36), (U, 132), (hdr, 16), (st, 1), (buf, 512)]"

locale virtio_disk =
  fixes dma :: "'d dma"
    and base :: u64
    and contents :: "'d \<Rightarrow> u64 \<Rightarrow> u8 list"
    and extent :: "'d \<Rightarrow> u64"
    and next_avail :: "'d \<Rightarrow> u16"
    and delay :: "'d \<Rightarrow> nat"
  assumes sector_length: "length (contents d sec) = 512"
    and busy: "0 < delay d \<Longrightarrow> dma evs (d, m) = (d', m') \<Longrightarrow>
      m' = m \<and> delay d' < delay d \<and>
      contents d' = contents d \<and> extent d' = extent d \<and> next_avail d' = next_avail d"
    and served: "delay d = 0 \<Longrightarrow> queue_regs base evs (D, A, U) \<Longrightarrow>
      posted (next_avail d) ty sec (D, A, U) (hdr, buf, st) m \<Longrightarrow>
      regions_apart (regions (D, A, U) (hdr, buf, st)) \<Longrightarrow> sec < extent d \<Longrightarrow>
      ty = VIRTIO_BLK_T_IN \<or> ty = VIRTIO_BLK_T_OUT \<Longrightarrow> dma evs (d, m) = (d', m') \<Longrightarrow>
      next_avail d' = next_avail d + 1 \<and> extent d' = extent d \<and>
      ring_idx m' U = ring_idx m U + 1 \<and> m' st = 0 \<and>
      frame ((if ty = VIRTIO_BLK_T_IN then [(buf, 512)] else []) @ [(U, 132), (st, 1)]) m m' \<and>
      (if ty = VIRTIO_BLK_T_IN then contents d' = contents d \<and> read_bytes m' buf 512 = contents d sec
       else contents d' = (contents d)(sec := read_bytes m buf 512))"

text \<open>
  The invariant of the driver between two requests, for a device with the given extent and
  index.
\<close>

definition blk_ready :: "u64 \<Rightarrow> ('d \<Rightarrow> u64) \<Rightarrow> ('d \<Rightarrow> u16) \<Rightarrow> u64 \<Rightarrow> ('d, 'a) blk_scheme \<Rightarrow> bool" where
  "blk_ready base extent next_avail buf s \<longleftrightarrow>
     device_base s = base \<and> queue_regs base (mmio s) (desc s, avail s, used_ring s) \<and>
     ring_idx (mem s) (avail s) = next_avail (media s) \<and>
     ring_idx (mem s) (used_ring s) = last_used_idx s \<and>
     capacity_sectors s = extent (media s) \<and>
     regions_apart (regions (desc s, avail s, used_ring s) (header_addr s, buf, status_addr s))"

lemma length_header [simp]: "length (VirtioBlkReqHeader ty sec) = 16"
  by (simp add: VirtioBlkReqHeader_def)

lemma length_blk_chain [simp]: "length (blk_chain ty hdr buf st) = 48"
  by (simp add: blk_chain_def)

text \<open>Submitting a request posts it, and touches nothing but the rings and the statics.\<close>

lemma submit_memory:
  "mem (submit ty sec buf s) =
     avail_push (avail s) 0
       (write_bytes ((write_bytes (mem s) (header_addr s) (VirtioBlkReqHeader ty sec))(status_addr s := 0xFF))
          (desc s) (blk_chain ty (header_addr s) buf (status_addr s)))"
  by (simp add: submit_def write32_def put_desc_def blk_chain_def write_bytes_append Let_def add_ac)

lemma frame_upd: "frame [(a, 1)] m (m(a := v))"
  using frame_write [of "[v]" a m] by simp

lemma submit_posts:
  assumes "regions_apart (regions (desc s, avail s, used_ring s) (header_addr s, buf, status_addr s))"
  shows "posted (ring_idx (mem s) (avail s)) ty sec (desc s, avail s, used_ring s)
           (header_addr s, buf, status_addr s) (mem (submit ty sec buf s))"
    and "frame [(header_addr s, 16), (status_addr s, 1), (desc s, 48), (avail s, 36)]
           (mem s) (mem (submit ty sec buf s))"
proof -
  let ?D = "desc s" and ?A = "avail s" and ?h = "header_addr s" and ?st = "status_addr s"
  let ?c = "blk_chain ty ?h buf ?st" and ?H = "VirtioBlkReqHeader ty sec"
  define m1 where "m1 = write_bytes (mem s) ?h ?H"
  define m2 where "m2 = m1(?st := 0xFF)"
  define m3 where "m3 = write_bytes m2 ?D ?c"
  define m4 where "m4 = avail_push ?A 0 m3"
  have m: "mem (submit ty sec buf s) = m4"
    by (simp add: submit_memory m1_def m2_def m3_def m4_def)
  have sp: "sep ?D 48 ?A 36" "sep ?D 48 ?h 16" "sep ?D 48 ?st 1" "sep ?A 36 ?h 16" "sep ?A 36 ?st 1"
    "sep ?h 16 ?st 1"
    using assms by simp_all
  note sp = sp sp [THEN sep_commute]
  have f1: "frame [(?h, 16)] (mem s) m1" using frame_write [of ?H ?h "mem s"] by (simp add: m1_def)
  have f2: "frame [(?st, 1)] m1 m2" unfolding m2_def by (rule frame_upd)
  have f3: "frame [(?D, 48)] m2 m3" using frame_write [of ?c ?D m2] by (simp add: m3_def)
  have f4: "frame [(?A, 36)] m3 m4" by (simp add: m4_def avail_push_correct)
  have f: "frame [(?h, 16), (?st, 1), (?D, 48)] (mem s) m3"
    using frame_trans [OF f1 frame_trans [OF f2 f3]] by simp
  show "frame [(?h, 16), (?st, 1), (?D, 48), (?A, 36)] (mem s) (mem (submit ty sec buf s))"
    using frame_trans [OF f f4] by (simp add: m)
  have "sep a n (?A + of_nat 2) 2" if "sep a n ?A 36" for a n
    using that by (rule sep_sub) simp_all
  then have "ring_idx m3 ?A = ring_idx (mem s) ?A"
    using sp by (intro frame_idx [OF f]) simp_all
  then have a: "ring_idx m4 ?A = ring_idx (mem s) ?A + 1" "load16 m4 (avail_slot ?A (ring_idx (mem s) ?A)) = 0"
    using avail_push_correct(1, 2) [of ?A 0 m3] by (simp_all add: m4_def)
  have "read_bytes m3 ?D 48 = ?c" using read_write_bytes_same [of ?c m2 ?D] by (simp add: m3_def)
  then have d: "read_bytes m4 ?D 48 = ?c" using frame_read [OF f4, of ?D 48] sp by simp
  have "read_bytes m1 ?h 16 = ?H" using read_write_bytes_same [of ?H "mem s" ?h] by (simp add: m1_def)
  then have h: "read_bytes m4 ?h 16 = ?H"
    using frame_read [OF f2, of ?h 16] frame_read [OF f3, of ?h 16] frame_read [OF f4, of ?h 16] sp by simp
  show "posted (ring_idx (mem s) ?A) ty sec (?D, ?A, used_ring s) (?h, buf, ?st)
          (mem (submit ty sec buf s))"
    by (simp add: m a d h)
qed

section \<open>The driver over the contract\<close>

lemma submit_fields [simp]:
  "media (submit ty sec buf s) = media s" "device_base (submit ty sec buf s) = device_base s"
  "desc (submit ty sec buf s) = desc s" "avail (submit ty sec buf s) = avail s"
  "used_ring (submit ty sec buf s) = used_ring s" "last_used_idx (submit ty sec buf s) = last_used_idx s"
  "capacity_sectors (submit ty sec buf s) = capacity_sectors s"
  "header_addr (submit ty sec buf s) = header_addr s" "status_addr (submit ty sec buf s) = status_addr s"
  "mmio (submit ty sec buf s) =
     mmio s @ [Write32 (device_base s + vreg VIRTIO_MMIO_QUEUE_NOTIFY) 0]"
  by (simp_all add: submit_def write32_def Let_def)

text \<open>What the driver leaves alone: everything but the memory, the log, the device and its index.\<close>

definition same_driver :: "('d, 'a) blk_scheme \<Rightarrow> ('d, 'a) blk_scheme \<Rightarrow> bool" where
  "same_driver s t \<longleftrightarrow>
     t\<lparr>mem := mem s, mmio := mmio s, media := media s, last_used_idx := last_used_idx s\<rparr> = s"

context virtio_disk
begin

definition completion :: "u32 \<Rightarrow> u64 \<Rightarrow> u64 \<Rightarrow> ('d, 'a) blk_scheme \<Rightarrow> 'd \<Rightarrow> ram \<Rightarrow> bool" where
  "completion ty sec buf s d m \<longleftrightarrow>
      next_avail d = next_avail (media s) + 1 \<and> extent d = extent (media s) \<and>
      ring_idx m (used_ring s) = last_used_idx s + 1 \<and> m (status_addr s) = 0 \<and>
      frame ((if ty = VIRTIO_BLK_T_IN then [(buf, 512)] else []) @ [(used_ring s, 132), (status_addr s, 1)])
        (mem s) m \<and>
      (if ty = VIRTIO_BLK_T_IN
       then contents d = contents (media s) \<and> read_bytes m buf 512 = contents (media s) sec
       else contents d = (contents (media s))(sec := read_bytes (mem s) buf 512))"

lemma poll_ends:
  assumes "queue_regs base (mmio s) (desc s, avail s, used_ring s)"
    and "posted (next_avail (media s)) ty sec (desc s, avail s, used_ring s)
           (header_addr s, buf, status_addr s) (mem s)"
    and "regions_apart (regions (desc s, avail s, used_ring s) (header_addr s, buf, status_addr s))"
    and "sec < extent (media s)" and "ty = VIRTIO_BLK_T_IN \<or> ty = VIRTIO_BLK_T_OUT"
    and "ring_idx (mem s) (used_ring s) = last_used_idx s"
  shows "\<exists>d m. poll_used dma s = Some (s\<lparr>media := d, mem := m\<rparr>) \<and>
      completion ty sec buf s d m"
  using assms
proof (induction "delay (media s)" arbitrary: s rule: less_induct)
  case less
  obtain d m where dm: "dma (mmio s) (media s, mem s) = (d, m)" by fastforce
  show ?case
  proof (cases "0 < delay (media s)")
    case True
    note b = busy [OF True dm]
    let ?s = "s\<lparr>media := d, mem := m\<rparr>"
    have "poll_used dma s = poll_used dma ?s"
      using b less.prems(6) by (subst poll_used.simps) (simp add: dm)
    moreover have "\<exists>d' m'. poll_used dma ?s = Some (?s\<lparr>media := d', mem := m'\<rparr>) \<and>
        completion ty sec buf ?s d' m'"
      by (rule less.hyps) (use b less.prems in \<open>simp_all del: posted.simps regions.simps\<close>)
    moreover have "completion ty sec buf ?s d' m' = completion ty sec buf s d' m'" for d' m'
      using b by (simp add: completion_def)
    ultimately show ?thesis by simp
  next
    case False
    then have "delay (media s) = 0" by simp
    note b = served [OF this less.prems(1-5) dm]
    have "last_used_idx s + 1 \<noteq> last_used_idx s" by simp
    then have "poll_used dma s = Some (s\<lparr>media := d, mem := m\<rparr>)"
      using b less.prems(6) by (subst poll_used.simps) (simp add: dm)
    moreover have "completion ty sec buf s d m" using b less.prems(6) by (simp add: completion_def)
    ultimately show ?thesis by blast
  qed
qed

lemma request_correct:
  assumes rdy: "blk_ready base extent next_avail buf s" and sec: "sec < extent (media s)"
    and ty: "ty = VIRTIO_BLK_T_IN \<or> ty = VIRTIO_BLK_T_OUT"
  shows "\<exists>t. do_request dev dma ty sec buf s = Some (t, True) \<and>
      blk_ready base extent next_avail buf t \<and> same_driver s t \<and>
      frame (regions (desc s, avail s, used_ring s) (header_addr s, buf, status_addr s)) (mem s) (mem t) \<and>
      (if ty = VIRTIO_BLK_T_IN
       then contents (media t) = contents (media s) \<and> read_bytes (mem t) buf 512 = contents (media s) sec
       else contents (media t) = (contents (media s))(sec := read_bytes (mem s) buf 512) \<and>
            read_bytes (mem t) buf 512 = read_bytes (mem s) buf 512)"
proof -
  let ?q = "(desc s, avail s, used_ring s)" and ?r = "(header_addr s, buf, status_addr s)"
  let ?u = "submit ty sec buf s"
  have ap: "regions_apart (regions ?q ?r)" and q: "queue_regs base (mmio s) ?q"
    and base: "device_base s = base" and nx: "ring_idx (mem s) (avail s) = next_avail (media s)"
    and used: "ring_idx (mem s) (used_ring s) = last_used_idx s"
    and cap: "capacity_sectors s = extent (media s)"
    using rdy by (simp_all add: blk_ready_def)
  note post = submit_posts [OF ap, of ty sec]
  have sub: "sep a n (r + 2) 2" if "sep a n r k" "4 \<le> k" for a r :: u64 and n k
    using sep_sub [of a n r k 2 2] that by simp
  have sp: "list_all (\<lambda>(a, n). sep a n buf 512)
        [(header_addr s, 16), (status_addr s, 1), (desc s, 48), (avail s, 36)]"
    "list_all (\<lambda>(a, n). sep a n (used_ring s + 2) 2)
        [(header_addr s, 16), (status_addr s, 1), (desc s, 48), (avail s, 36)]"
    "list_all (\<lambda>(a, n). sep a n (avail s + 2) 2) [(buf, 512), (used_ring s, 132), (status_addr s, 1)]"
    "list_all (\<lambda>(a, n). sep a n buf 512) [(used_ring s, 132), (status_addr s, 1)]"
    using ap sub [of _ _ "used_ring s" 132] sub [of _ _ "avail s" 36] sep_commute [of "avail s" 36]
      sep_commute [of "used_ring s" 132]
    by (simp_all del: One_nat_def)
  have buf: "read_bytes (mem ?u) buf 512 = read_bytes (mem s) buf 512"
    using frame_read [OF post(2) sp(1)] by simp
  have used': "ring_idx (mem ?u) (used_ring s) = last_used_idx s"
    using frame_idx [OF post(2) sp(2)] used by simp
  have "\<exists>d m. poll_used dma ?u = Some (?u\<lparr>media := d, mem := m\<rparr>) \<and> completion ty sec buf ?u d m"
    by (rule poll_ends)
      (use post(1) ap q sec ty used' base nx in \<open>simp_all del: posted.simps regions.simps\<close>)
  then obtain d m where p: "poll_used dma ?u = Some (?u\<lparr>media := d, mem := m\<rparr>)"
    and "completion ty sec buf ?u d m"
    by blast
  then have d: "next_avail d = next_avail (media s) + 1" "extent d = extent (media s)"
    and m: "ring_idx m (used_ring s) = last_used_idx s + 1" "m (status_addr s) = 0"
    and f: "frame ((if ty = VIRTIO_BLK_T_IN then [(buf, 512)] else []) @ [(used_ring s, 132), (status_addr s, 1)])
        (mem ?u) m"
    and c: "if ty = VIRTIO_BLK_T_IN
       then contents d = contents (media s) \<and> read_bytes m buf 512 = contents (media s) sec
       else contents d = (contents (media s))(sec := read_bytes (mem s) buf 512)"
    using buf by (simp_all add: completion_def)
  have f3: "frame [(buf, 512), (used_ring s, 132), (status_addr s, 1)] (mem ?u) m"
    using f by (rule frame_mono) auto
  have av: "ring_idx m (avail s) = next_avail d"
    using frame_idx [OF f3 sp(3)] post(1) nx d(1) by simp
  define t where "t = (?u\<lparr>media := d, mem := m\<rparr>)\<lparr>last_used_idx := last_used_idx s + 1,
      mmio := mmio ?u @ [Read32 (base + vreg VIRTIO_MMIO_INT_STATUS)
                (dev (mmio ?u) (base + vreg VIRTIO_MMIO_INT_STATUS)),
              Write32 (base + vreg VIRTIO_MMIO_INT_ACK) (dev (mmio ?u) (base + vreg VIRTIO_MMIO_INT_STATUS))]\<rparr>"
  have run: "do_request dev dma ty sec buf s = Some (t, True)"
    by (simp add: do_request_def p m t_def base read32_def write32_def Let_def)
  have q': "queue_regs base (mmio t) ?q"
    using q by (simp add: t_def base) (simp add: queue_regs_def reg_pair_def last_written_def)
  have "blk_ready base extent next_avail buf t"
    using ap q' m d av cap base by (simp add: blk_ready_def t_def)
  moreover have "same_driver s t"
    by (simp add: same_driver_def t_def submit_def write32_def Let_def)
  moreover have "frame (regions ?q ?r) (mem s) (mem t)"
    using frame_mono [OF frame_trans [OF post(2) f3], of "regions ?q ?r"] by (simp add: t_def)
  moreover have "read_bytes m buf 512 = read_bytes (mem s) buf 512" if "ty \<noteq> VIRTIO_BLK_T_IN"
    using frame_read [OF f, of buf 512] sp(4) buf that by simp
  ultimately show ?thesis using run c by (auto simp: t_def)
qed

end

section \<open>The interface the file system uses\<close>

text \<open>
  The file system reads into and writes from its static sector buffer.  Its model keeps the
  512 bytes of that buffer as a value, so the two operations below place the value at the
  buffer's address before the request and take it from there after a read.
\<close>

definition drv_read ::
  "device \<Rightarrow> 'd dma \<Rightarrow> u64 \<Rightarrow> u8 list \<Rightarrow> ('d, 'a) blk_scheme \<Rightarrow>
   (('d, 'a) blk_scheme \<times> u8 list \<times> bool) option" where
  "drv_read dev dma sector b s =
     Option.bind (read_sector dev dma sector (buffer_addr s) (s\<lparr>mem := write_bytes (mem s) (buffer_addr s) b\<rparr>))
       (\<lambda>(s, ok). Some (s, read_bytes (mem s) (buffer_addr s) 512, ok))"

definition drv_write ::
  "device \<Rightarrow> 'd dma \<Rightarrow> u64 \<Rightarrow> u8 list \<Rightarrow> ('d, 'a) blk_scheme \<Rightarrow> (('d, 'a) blk_scheme \<times> bool) option" where
  "drv_write dev dma sector b s =
     write_sector dev dma sector (buffer_addr s) (s\<lparr>mem := write_bytes (mem s) (buffer_addr s) b\<rparr>)"

text \<open>
  A block device as its clients see it: an array of 512-byte sectors, requests beyond the
  capacity refused without effect.
\<close>

locale block_device =
  fixes rd :: "u64 \<Rightarrow> u8 list \<Rightarrow> 's \<Rightarrow> ('s \<times> u8 list \<times> bool) option"
    and wr :: "u64 \<Rightarrow> u8 list \<Rightarrow> 's \<Rightarrow> ('s \<times> bool) option"
    and disk :: "'s \<Rightarrow> u64 \<Rightarrow> u8 list"
    and cap :: "'s \<Rightarrow> u64"
    and inv :: "'s \<Rightarrow> bool"
  assumes disk_length: "inv s \<Longrightarrow> length (disk s x) = 512"
    and rd_in: "inv s \<Longrightarrow> x < cap s \<Longrightarrow> length b = 512 \<Longrightarrow>
      \<exists>t. rd x b s = Some (t, disk s x, True) \<and> inv t \<and> disk t = disk s \<and> cap t = cap s"
    and rd_out: "inv s \<Longrightarrow> \<not> x < cap s \<Longrightarrow> length b = 512 \<Longrightarrow>
      \<exists>t. rd x b s = Some (t, b, False) \<and> inv t \<and> disk t = disk s \<and> cap t = cap s"
    and wr_in: "inv s \<Longrightarrow> x < cap s \<Longrightarrow> length b = 512 \<Longrightarrow>
      \<exists>t. wr x b s = Some (t, True) \<and> inv t \<and> disk t = (disk s)(x := b) \<and> cap t = cap s"
    and wr_out: "inv s \<Longrightarrow> \<not> x < cap s \<Longrightarrow> length b = 512 \<Longrightarrow>
      \<exists>t. wr x b s = Some (t, False) \<and> inv t \<and> disk t = disk s \<and> cap t = cap s"

definition drv_ready :: "u64 \<Rightarrow> ('d \<Rightarrow> u64) \<Rightarrow> ('d \<Rightarrow> u16) \<Rightarrow> ('d, 'a) blk_scheme \<Rightarrow> bool" where
  "drv_ready base extent next_avail s \<longleftrightarrow> blk_ready base extent next_avail (buffer_addr s) s"

lemma fill_buffer:
  assumes "drv_ready base extent next_avail s" "length b = 512"
  defines "t \<equiv> s\<lparr>mem := write_bytes (mem s) (buffer_addr s) b\<rparr>"
  shows "blk_ready base extent next_avail (buffer_addr s) t" "media t = media s"
    "buffer_addr t = buffer_addr s" "read_bytes (mem t) (buffer_addr s) 512 = b"
    "capacity_sectors t = extent (media s)"
proof -
  let ?b = "buffer_addr s"
  have ap: "regions_apart (regions (desc s, avail s, used_ring s) (header_addr s, ?b, status_addr s))"
    using assms(1) by (simp only: drv_ready_def blk_ready_def)
  have f: "frame [(?b, 512)] (mem s) (mem t)"
    using frame_write [of b ?b "mem s"] assms(2) by (simp add: t_def)
  have "sep ?b 512 (r + of_nat 2) 2" if "sep r k ?b 512" "4 \<le> k" for r k
    using that by (intro sep_sub [OF sep_commute]) auto
  then have "sep ?b 512 (avail s + 2) 2" "sep ?b 512 (used_ring s + 2) 2"
    using ap by fastforce+
  then have "ring_idx (mem t) (avail s) = ring_idx (mem s) (avail s)"
    "ring_idx (mem t) (used_ring s) = ring_idx (mem s) (used_ring s)"
    by (auto intro!: frame_idx [OF f])
  moreover have "mem t = write_bytes (mem s) ?b b" by (simp add: t_def)
  ultimately show "blk_ready base extent next_avail ?b t"
    using assms(1) by (simp add: drv_ready_def blk_ready_def t_def del: regions.simps)
  show "media t = media s" "buffer_addr t = ?b" by (simp_all add: t_def)
  show "read_bytes (mem t) ?b 512 = b"
    using read_write_bytes_same [of b "mem s" ?b] assms(2) by (simp add: t_def)
  show "capacity_sectors t = extent (media s)"
    using assms(1) by (simp add: drv_ready_def blk_ready_def t_def)
qed

lemma same_driver_fields:
  assumes "same_driver s t"
  shows "buffer_addr t = buffer_addr s" "capacity_sectors t = capacity_sectors s" "desc t = desc s"
    "avail t = avail s" "used_ring t = used_ring s" "header_addr t = header_addr s" "status_addr t = status_addr s"
proof -
  have "f (t\<lparr>mem := mem s, mmio := mmio s, media := media s, last_used_idx := last_used_idx s\<rparr>) = f s"
    for f :: "('a, 'b) blk_scheme \<Rightarrow> u64"
    using assms by (simp add: same_driver_def)
  from this [of buffer_addr] this [of capacity_sectors] this [of desc] this [of avail] this [of used_ring]
    this [of header_addr] this [of status_addr]
  show "buffer_addr t = buffer_addr s" "capacity_sectors t = capacity_sectors s" "desc t = desc s"
    "avail t = avail s" "used_ring t = used_ring s" "header_addr t = header_addr s" "status_addr t = status_addr s"
    by simp_all
qed

text \<open>The driver provides the interface over any disk that keeps the contract.\<close>

sublocale virtio_disk \<subseteq> block_device "drv_read dev dma" "drv_write dev dma" "\<lambda>s. contents (media s)"
  "\<lambda>s. extent (media s)" "drv_ready base extent next_avail" for dev
proof unfold_locales
  fix s :: "('d, 'a) blk_scheme" and x :: u64 and b :: "u8 list"
  assume inv: "drv_ready base extent next_avail s"
  show "length (contents (media s) x) = 512" by (rule sector_length)
  let ?t = "s\<lparr>mem := write_bytes (mem s) (buffer_addr s) b\<rparr>"
  assume b: "length b = 512"
  note f = fill_buffer [OF inv b]
  have ext: "extent (media t) = capacity_sectors t"
    if "blk_ready base extent next_avail (buffer_addr s) t" for t
    using that by (simp add: blk_ready_def)
  have cap: "capacity_sectors u = capacity_sectors ?t" "buffer_addr u = buffer_addr s"
    if "same_driver ?t u" for u
    using same_driver_fields [OF that] by simp_all
  have inv_t: "drv_ready base extent next_avail ?t" using f by (simp add: drv_ready_def)
  {
    assume x: "x < extent (media s)"
    then have x': "x < extent (media ?t)" by simp
    obtain u where u: "do_request dev dma VIRTIO_BLK_T_IN x (buffer_addr s) ?t = Some (u, True)"
        "blk_ready base extent next_avail (buffer_addr s) u" "same_driver ?t u"
        "contents (media u) = contents (media s)" "read_bytes (mem u) (buffer_addr s) 512 = contents (media s) x"
      using request_correct [OF f(1) x', of VIRTIO_BLK_T_IN dev] by auto
    then show "\<exists>t. drv_read dev dma x b s = Some (t, contents (media s) x, True) \<and>
        drv_ready base extent next_avail t \<and> contents (media t) = contents (media s) \<and>
        extent (media t) = extent (media s)"
      using x f(5) ext [OF u(2)] cap [OF u(3)]
      by (simp add: drv_read_def read_sector_def drv_ready_def)
    obtain u where u: "do_request dev dma VIRTIO_BLK_T_OUT x (buffer_addr s) ?t = Some (u, True)"
        "blk_ready base extent next_avail (buffer_addr s) u" "same_driver ?t u"
        "contents (media u) = (contents (media s))(x := b)"
      using request_correct [OF f(1) x', of VIRTIO_BLK_T_OUT dev] f(4)
      by (auto simp: VIRTIO_BLK_T_IN_def VIRTIO_BLK_T_OUT_def)
    then show "\<exists>t. drv_write dev dma x b s = Some (t, True) \<and>
        drv_ready base extent next_avail t \<and> contents (media t) = (contents (media s))(x := b) \<and>
        extent (media t) = extent (media s)"
      using x f(5) ext [OF u(2)] cap [OF u(3)]
      by (simp add: drv_write_def write_sector_def drv_ready_def)
  }
  {
    assume x: "\<not> x < extent (media s)"
    then show "\<exists>t. drv_read dev dma x b s = Some (t, b, False) \<and>
        drv_ready base extent next_avail t \<and> contents (media t) = contents (media s) \<and>
        extent (media t) = extent (media s)"
      using f inv_t by (simp add: drv_read_def read_sector_def not_less)
    show "\<exists>t. drv_write dev dma x b s = Some (t, False) \<and>
        drv_ready base extent next_avail t \<and> contents (media t) = contents (media s) \<and>
        extent (media t) = extent (media s)"
      using x f inv_t by (simp add: drv_write_def write_sector_def not_less)
  }
qed

section \<open>A disk\<close>

text \<open>
  A virtio block device that keeps the contract, written from the protocol: it follows the
  programmed rings, walks the descriptor chain and answers after \<open>latency\<close> looks.
\<close>

record disk =
  platter :: "u64 \<Rightarrow> u8 list"
  sectors :: u64
  seen :: u16
  latency :: nat
  busy_for :: nat

definition sector_of :: "disk \<Rightarrow> u64 \<Rightarrow> u8 list" where
  "sector_of d sec = take 512 (platter d sec @ replicate 512 0)"

definition disk_serve :: "u64 \<times> u64 \<times> u64 \<Rightarrow> disk \<Rightarrow> ram \<Rightarrow> disk \<times> ram" where
  "disk_serve q d m =
     (case q of (D, A, U) \<Rightarrow>
        let head = load16 m (avail_slot A (seen d));
            d0 = read_bytes m (D + 16 * ucast head) 16;
            d1 = read_bytes m (D + 16 * ucast (of_le (drop 14 d0) :: u16)) 16;
            d2 = read_bytes m (D + 16 * ucast (of_le (drop 14 d1) :: u16)) 16;
            h = read_bytes m (of_le (take 8 d0)) 16;
            ty = (of_le (take 4 h) :: u32); sec = (of_le (drop 8 h) :: u64); buf = (of_le (take 8 d1) :: u64);
            good = (sec < sectors d \<and> (ty = VIRTIO_BLK_T_IN \<or> ty = VIRTIO_BLK_T_OUT));
            uidx = ring_idx m U;
            d' = (if good \<and> ty = VIRTIO_BLK_T_OUT
                  then d\<lparr>platter := (platter d)(sec := read_bytes m buf 512)\<rparr> else d);
            m = (if good \<and> ty = VIRTIO_BLK_T_IN then write_bytes m buf (sector_of d sec) else m);
            m = m(of_le (take 8 d2) := (if good then 0 else 1));
            m = write_bytes m (U + of_nat (4 + 8 * (unat uidx mod 16))) (le_bytes 4 (ucast head :: u32) @ le_bytes 4 (513 :: u32));
            m = store16 m (U + 2) (uidx + 1)
        in (d'\<lparr>seen := seen d + 1, busy_for := latency d\<rparr>, m))"

definition disk_dma :: "u64 \<Rightarrow> disk dma" where
  "disk_dma base evs dm =
     (case dm of (d, m) \<Rightarrow>
        if 0 < busy_for d then (d\<lparr>busy_for := busy_for d - 1\<rparr>, m)
        else let q = (reg_pair evs (base + vreg VIRTIO_MMIO_QUEUE_DESC_LOW) (base + vreg VIRTIO_MMIO_QUEUE_DESC_HIGH),
                      reg_pair evs (base + vreg VIRTIO_MMIO_QUEUE_AVAIL_LOW) (base + vreg VIRTIO_MMIO_QUEUE_AVAIL_HIGH),
                      reg_pair evs (base + vreg VIRTIO_MMIO_QUEUE_USED_LOW) (base + vreg VIRTIO_MMIO_QUEUE_USED_HIGH))
             in if ring_idx m (fst (snd q)) = seen d then (d, m) else disk_serve q d m)"

lemma VirtqDesc_fields [simp]:
  "of_le (take 8 (VirtqDesc a l f n)) = a" "of_le (drop 14 (VirtqDesc a l f n)) = n"
  by (simp_all add: VirtqDesc_def of_le_le_bytes)

lemma header_fields [simp]:
  "of_le (take 4 (VirtioBlkReqHeader ty sec)) = ty" "of_le (drop 8 (VirtioBlkReqHeader ty sec)) = sec"
  by (simp_all add: VirtioBlkReqHeader_def of_le_le_bytes)

lemma chain_descs:
  assumes "read_bytes m D 48 = x @ y @ z" "length x = 16" "length y = 16" "length z = 16"
  shows "read_bytes m D 16 = x" "read_bytes m (D + 16) 16 = y" "read_bytes m (D + 32) 16 = z"
proof -
  have "read_bytes m D (16 + (16 + 16)) = x @ y @ z" using assms(1) by simp
  then have "read_bytes m D 16 @ read_bytes m (D + 16) 16 @ read_bytes m (D + 32) 16 = x @ y @ z"
    by (simp only: read_bytes_append) (simp add: add_ac)
  then show "read_bytes m D 16 = x" "read_bytes m (D + 16) 16 = y" "read_bytes m (D + 32) 16 = z"
    using assms(2-4) by (simp_all add: append_eq_append_conv)
qed

lemma length_sector_of [simp]: "length (sector_of d sec) = 512"
  by (simp add: sector_of_def)

text \<open>The memory the disk leaves behind, for any data transfer \<open>m1\<close> it starts with.\<close>

definition used_push :: "u64 \<Rightarrow> u16 \<Rightarrow> u8 list \<Rightarrow> ram \<Rightarrow> ram" where
  "used_push U uidx el m =
     store16 (write_bytes m (U + of_nat (4 + 8 * (unat uidx mod 16))) el) (U + 2) (uidx + 1)"

lemma used_push_correct:
  assumes "length el = 8"
  shows "ring_idx (used_push U uidx el m) U = uidx + 1" "frame [(U, 132)] m (used_push U uidx el m)"
proof -
  let ?k = "4 + 8 * (unat uidx mod 16)"
  let ?m = "write_bytes m (U + of_nat ?k) el"
  show "ring_idx (used_push U uidx el m) U = uidx + 1"
    by (simp add: used_push_def ring_idx_def)
  have "unat uidx mod 16 < 16" by (rule mod_less_divisor) simp
  then have k: "?k + 8 \<le> 132" by linarith
  have "frame [(U + of_nat ?k, 8)] m ?m"
    using frame_write [of el "U + of_nat ?k" m] assms by simp
  then have "frame [(U, 132)] m ?m" by (rule frame_sub) (use k in auto)
  moreover have "frame [(U, 132)] ?m (store16 ?m (U + of_nat 2) (uidx + 1))"
    by (rule frame_sub [OF frame_store16]) auto
  ultimately show "frame [(U, 132)] m (used_push U uidx el m)"
    using frame_mono [OF frame_trans, of "[(U, 132)]" m ?m "[(U, 132)]"] by (simp add: used_push_def)
qed

lemma disk_serves:
  assumes post: "posted (seen d) ty sec (D, A, U) (hdr, buf, st) m"
    and sec: "sec < sectors d" and ty: "ty = VIRTIO_BLK_T_IN \<or> ty = VIRTIO_BLK_T_OUT"
  shows "\<exists>el. length el = 8 \<and> disk_serve (D, A, U) d m =
     ((if ty = VIRTIO_BLK_T_OUT then d\<lparr>platter := (platter d)(sec := read_bytes m buf 512)\<rparr> else d)
        \<lparr>seen := seen d + 1, busy_for := latency d\<rparr>,
      used_push U (ring_idx m U) el
        ((if ty = VIRTIO_BLK_T_IN then write_bytes m buf (sector_of d sec) else m)(st := 0)))"
proof -
  have h: "load16 m (avail_slot A (seen d)) = 0" "read_bytes m hdr 16 = VirtioBlkReqHeader ty sec"
    and c: "read_bytes m D 48 = blk_chain ty hdr buf st"
    using post by simp_all
  note ds = chain_descs [OF c [unfolded blk_chain_def]]
  let ?el = "le_bytes 4 (ucast (0 :: u16) :: u32) @ le_bytes 4 (513 :: u32)"
  have "length ?el = 8" by simp
  moreover have "disk_serve (D, A, U) d m =
     ((if ty = VIRTIO_BLK_T_OUT then d\<lparr>platter := (platter d)(sec := read_bytes m buf 512)\<rparr> else d)
        \<lparr>seen := seen d + 1, busy_for := latency d\<rparr>,
      used_push U (ring_idx m U) ?el
        ((if ty = VIRTIO_BLK_T_IN then write_bytes m buf (sector_of d sec) else m)(st := 0)))"
    unfolding disk_serve_def used_push_def
    using h ds sec ty by (simp add: Let_def del: le_bytes.simps)
  ultimately show ?thesis by blast
qed

interpretation vdisk: virtio_disk "disk_dma base" base sector_of sectors seen busy_for for base
proof unfold_locales
  fix d d' :: disk and m m' :: ram and evs :: "mmio_event list" and D A U hdr buf st sec :: u64 and ty :: u32
  show "length (sector_of d sec) = 512" by simp
  show "m' = m \<and> busy_for d' < busy_for d \<and> sector_of d' = sector_of d \<and> sectors d' = sectors d \<and>
      seen d' = seen d" if "0 < busy_for d" "disk_dma base evs (d, m) = (d', m')"
    using that by (auto simp: disk_dma_def sector_of_def fun_eq_iff)
  assume idle: "busy_for d = 0" and q: "queue_regs base evs (D, A, U)"
    and post: "posted (seen d) ty sec (D, A, U) (hdr, buf, st) m"
    and ap: "regions_apart (regions (D, A, U) (hdr, buf, st))"
    and sec: "sec < sectors d" and ty: "ty = VIRTIO_BLK_T_IN \<or> ty = VIRTIO_BLK_T_OUT"
    and run: "disk_dma base evs (d, m) = (d', m')"
  let ?m1 = "if ty = VIRTIO_BLK_T_IN then write_bytes m buf (sector_of d sec) else m"
  have "ring_idx m A \<noteq> seen d" using post by simp
  with run idle q have "disk_serve (D, A, U) d m = (d', m')"
    by (simp add: disk_dma_def queue_regs_def)
  with disk_serves [OF post sec ty] obtain el where el: "length el = 8"
    and d': "d' = (if ty = VIRTIO_BLK_T_OUT then d\<lparr>platter := (platter d)(sec := read_bytes m buf 512)\<rparr> else d)
        \<lparr>seen := seen d + 1, busy_for := latency d\<rparr>"
    and m': "m' = used_push U (ring_idx m U) el (?m1(st := 0))"
    by auto
  have sp: "sep U 132 st 1" "sep U 132 buf 512" "sep st 1 buf 512"
    using ap by simp_all
  have f2: "frame [(st, 1)] ?m1 (?m1(st := 0))" by (rule frame_upd)
  have f3: "frame [(U, 132)] (?m1(st := 0)) m'" unfolding m' by (rule used_push_correct [OF el])
  have f1: "frame (if ty = VIRTIO_BLK_T_IN then [(buf, 512)] else []) m ?m1"
    using frame_write [of "sector_of d sec" buf m] by simp
  have st: "m' st = 0" using frame_read [OF f3, of st 1] sp by simp
  have rb: "read_bytes m' buf 512 = sector_of d sec" if "ty = VIRTIO_BLK_T_IN"
    using frame_read [OF f3, of buf 512] frame_read [OF f2, of buf 512] sp that
      read_write_bytes_same [of "sector_of d sec" m buf] by simp
  have so: "sector_of d' = (if ty = VIRTIO_BLK_T_OUT then (sector_of d)(sec := read_bytes m buf 512) else sector_of d)"
    by (auto simp: d' sector_of_def fun_eq_iff)
  have fr: "frame ((if ty = VIRTIO_BLK_T_IN then [(buf, 512)] else []) @ [(U, 132), (st, 1)]) m m'"
    using frame_mono [OF frame_trans [OF f1 frame_trans [OF f2 f3]]] by fastforce
  show "seen d' = seen d + 1 \<and> sectors d' = sectors d \<and> ring_idx m' U = ring_idx m U + 1 \<and> m' st = 0 \<and>
      frame ((if ty = VIRTIO_BLK_T_IN then [(buf, 512)] else []) @ [(U, 132), (st, 1)]) m m' \<and>
      (if ty = VIRTIO_BLK_T_IN then sector_of d' = sector_of d \<and> read_bytes m' buf 512 = sector_of d sec
       else sector_of d' = (sector_of d)(sec := read_bytes m buf 512))"
    using st rb so fr ty used_push_correct(1) [OF el] m'
    by (auto simp: d' VIRTIO_BLK_T_IN_def VIRTIO_BLK_T_OUT_def)
qed

end
