(* ===== verification/Blk_Props.thy ===== *)
theory Blk_Props
  imports Virtio_Blk Syscall_Props
begin

text \<open>
  The block driver from the probe to a finished transfer: start-up establishes the
  invariant the requests rely on, and a sector that was written is what a later read
  returns.
\<close>

section \<open>Start-up\<close>

definition virtio_slot :: "nat \<Rightarrow> u64" where
  "virtio_slot k = VIRTIO_MMIO_BASE + of_nat k * VIRTIO_MMIO_STRIDE"

text \<open>The first slot that reports the wanted kind of device is slot \<open>k\<close>.\<close>

definition device_at :: "device \<Rightarrow> u32 \<Rightarrow> nat \<Rightarrow> bool" where
  "device_at dev wanted k \<longleftrightarrow> k < VIRTIO_MMIO_COUNT \<and>
     (\<forall>evs. dev evs (virtio_slot k + vreg VIRTIO_MMIO_MAGIC) = 0x74726976 \<and>
            dev evs (virtio_slot k + vreg VIRTIO_MMIO_DEVICE_ID) = wanted) \<and>
     (\<forall>j < k. \<forall>evs. dev evs (virtio_slot j + vreg VIRTIO_MMIO_DEVICE_ID) \<noteq> wanted)"

lemma probe_finds:
  assumes "device_at dev wanted k"
  shows "\<exists>l. probe_device dev wanted s = (s\<lparr>mmio := l\<rparr>, Some (virtio_slot k))"
proof -
  have "\<exists>l. probe_from dev wanted [j..<VIRTIO_MMIO_COUNT] s = (s\<lparr>mmio := l\<rparr>, Some (virtio_slot k))"
    if "j \<le> k" for j
    using that
  proof (induction "k - j" arbitrary: j s)
    case 0
    then have "[j..<VIRTIO_MMIO_COUNT] = k # [Suc k..<VIRTIO_MMIO_COUNT]"
      using assms by (simp add: device_at_def upt_conv_Cons)
    then show ?case
      using assms by (auto simp: read32_def Let_def device_at_def virtio_slot_def)
  next
    case (Suc n)
    then have j: "j < k" "[j..<VIRTIO_MMIO_COUNT] = j # [Suc j..<VIRTIO_MMIO_COUNT]"
      using assms by (auto simp: device_at_def upt_conv_Cons)
    have IH: "\<exists>l. probe_from dev wanted [Suc j..<VIRTIO_MMIO_COUNT] t = (t\<lparr>mmio := l\<rparr>, Some (virtio_slot k))"
      for t :: "'a cpu_scheme"
      using Suc j by simp
    obtain l where "probe_from dev wanted [j..<VIRTIO_MMIO_COUNT] s
        = probe_from dev wanted [Suc j..<VIRTIO_MMIO_COUNT] (s\<lparr>mmio := l\<rparr>)"
      using assms j(1) unfolding j(2)
      by (auto simp: read32_def Let_def device_at_def virtio_slot_def)
    then show ?case using IH [of "s\<lparr>mmio := l\<rparr>"] by simp
  qed
  then show ?thesis by (simp add: probe_device_def)
qed

lemma rest_shape: "t\<lparr>mmio := []\<rparr> = s\<lparr>mmio := []\<rparr> \<Longrightarrow> t = s\<lparr>mmio := mmio t\<rparr>" for s :: "'a cpu_scheme"
proof -
  assume "t\<lparr>mmio := []\<rparr> = s\<lparr>mmio := []\<rparr>"
  then have "(t\<lparr>mmio := []\<rparr>)\<lparr>mmio := mmio t\<rparr> = (s\<lparr>mmio := []\<rparr>)\<lparr>mmio := mmio t\<rparr>" by simp
  then show ?thesis by simp
qed

text \<open>Console output does not touch the registers of a virtio slot.\<close>

lemma wait_clear_written:
  "wait_clear dev flag s = Some t \<Longrightarrow> last_written (mmio t) a = last_written (mmio s) a"
proof (induction rule: wait_clear.raw_induct [rotated, consumes 1])
  case (1 wait dev flag s t)
  then show ?case by (auto simp: read32_def Let_def split: if_splits)
qed

lemma put_all_written:
  "put_all (putc dev) cs s = Some t \<Longrightarrow> a \<noteq> UART_DR \<Longrightarrow> last_written (mmio t) a = last_written (mmio s) a"
  by (induction cs arbitrary: s)
    (auto simp: putc_def write32_def dest!: wait_clear_written split: Option.bind_splits)

lemma slot_not_uart:
  assumes "k < 32" "unat off < 512"
  shows "virtio_slot k + off \<noteq> UART_DR"
proof -
  have "unat (of_nat k * 0x200 :: u64) = k * 0x200" using assms by (simp add: unat_mult_lem [THEN iffD1])
  then have "unat (VIRTIO_MMIO_BASE + of_nat k * VIRTIO_MMIO_STRIDE) = 0x0a000000 + k * 0x200"
    using assms by (subst unat_add_small) (simp_all add: VIRTIO_MMIO_BASE_def VIRTIO_MMIO_STRIDE_def)
  then have "unat (virtio_slot k + off) = 0x0a000000 + k * 0x200 + unat off"
    unfolding virtio_slot_def using assms by (subst unat_add_small) simp_all
  moreover have "unat UART_DR = 0x09000000" by (simp add: UART_DR_def UART_BASE_def)
  ultimately show ?thesis by auto
qed

lemma vreg_small: "unat (vreg r) < 512"
  by (cases r) simp_all

lemma put_all_queue_regs:
  assumes "put_all (putc dev) cs s = Some t" "k < 32"
  shows "queue_regs (virtio_slot k) (mmio t) q = queue_regs (virtio_slot k) (mmio s) q"
proof -
  have "last_written (mmio t) (virtio_slot k + vreg r) = last_written (mmio s) (virtio_slot k + vreg r)" for r
    using assms by (intro put_all_written slot_not_uart) (use vreg_small in auto)
  then show ?thesis by (simp only: queue_regs_def reg_pair_def)
qed

text \<open>A static variable: its bytes lie in a page the kernel image occupies.\<close>

definition static_at :: "'a mm_scheme \<Rightarrow> u64 \<Rightarrow> nat \<Rightarrow> bool" where
  "static_at s a n \<longleftrightarrow> (\<exists>b \<in> held s. \<exists>i. a = b + of_nat i \<and> i + n \<le> 4096 \<and> 0 < n)"

lemma fresh_apart_static:
  assumes "fresh_pages s t ps" "p \<in> set ps" "static_at s a n"
  shows "sep p 4096 a n"
proof -
  obtain b i where b: "b \<in> held s" "a = b + of_nat i" "i + n \<le> 4096" "0 < n"
    using assms(3) by (auto simp: static_at_def)
  then have "sep p 4096 b 4096" using assms(1, 2) by (auto simp: fresh_pages_def)
  then show ?thesis using b sep_sub by blast
qed

lemma fresh_ring_idx:
  assumes "fresh_pages s t ps" "p \<in> set ps"
  shows "ring_idx (mem t) p = 0"
proof -
  have z: "\<forall>x. in_range p 4096 x \<longrightarrow> mem t x = 0" using assms by (simp add: fresh_pages_def)
  have "in_range p 4096 (p + 2)" "in_range p 4096 (p + 3)" by (simp_all add: in_range_def)
  then have "mem t (p + 2) = 0" "mem t (p + 3) = 0" using z by blast+
  then show ?thesis by (simp add: ring_idx_def load16_def eval_nat_numeral add.assoc)
qed

lemma negotiate_log: "\<exists>l f st. negotiate dev base acc s = (s\<lparr>mmio := l\<rparr>, f, st)"
  by (simp add: negotiate_def write32_def read32_def Let_def) blast

text \<open>
  C33: \<open>VirtioBlk::init\<close> establishes the invariant of the driver.  When the first block
  device sits in slot \<open>k\<close>, offers a queue of at least 16 entries and reports its size, when
  three pages are free and the console drains, start-up succeeds: the rings are three fresh,
  cleared pages apart from each other and from the driver's statics, the device has their
  addresses, and the driver's indices and capacity agree with the device.
\<close>

theorem blk_init_ready:
  fixes s :: "('d, 'a) blk_scheme"
  assumes dev: "device_at dev VIRTIO_DEV_BLK k" "drains dev"
    and big: "\<forall>evs. QUEUE_SIZE \<le> dev evs (virtio_slot k + vreg VIRTIO_MMIO_QUEUE_NUM_MAX)"
    and lo: "\<forall>evs. dev evs (virtio_slot k + 0x100) = ucast (extent (media s))"
    and hi: "\<forall>evs. dev evs (virtio_slot k + 0x104) = ucast (drop_bit 32 (extent (media s)))"
    and pages: "pages_wf s" "3 \<le> card (free_set s)"
    and idx: "next_avail (media s) = 0" "last_used_idx s = 0"
    and statics: "static_at s (header_addr s) 16" "static_at s (status_addr s) 1" "static_at s (buffer_addr s) 512"
      "regions_apart [(header_addr s, 16), (status_addr s, 1), (buffer_addr s, 512)]"
  shows "\<exists>t. blk_init dev s = Some (t, True) \<and> drv_ready (virtio_slot k) extent next_avail t \<and>
    media t = media s \<and> fresh_pages s t [used_ring t, avail t, desc t]"
proof -
  let ?base = "virtio_slot k"
  have k: "k < 32" using dev(1) by (simp add: device_at_def VIRTIO_MMIO_COUNT_def)
  obtain l1 where probe: "probe_device dev VIRTIO_DEV_BLK s = (s\<lparr>mmio := l1\<rparr>, Some ?base)"
    using probe_finds [OF dev(1)] by blast
  obtain l2 f st where neg: "negotiate dev ?base 0 ((s\<lparr>mmio := l1\<rparr>)\<lparr>device_base := ?base\<rparr>) =
      ((s\<lparr>mmio := l1\<rparr>)\<lparr>device_base := ?base, mmio := l2\<rparr>, f, st)"
    using negotiate_log [of dev ?base 0 "(s\<lparr>mmio := l1\<rparr>)\<lparr>device_base := ?base\<rparr>"] by auto
  define s2 where "s2 = s\<lparr>device_base := ?base, mmio := l2\<rparr>"
  have same2: "pages_wf s2" "card (free_set s2) = card (free_set s)" "held s2 = held s" "mem s2 = mem s"
    using pages by (simp_all add: s2_def pages_wf_def free_set_def held_def owned_pages_def)
  have "3 \<le> card (free_set s2)" using same2 pages by simp
  from setup_queue_correct [where dev = dev and base = ?base and qn = 0, OF same2(1) this big]
  obtain t D A U where q: "setup_queue dev ?base 0 s2 = (t, Some (D, A, U))" "fresh_pages s2 t [U, A, D]"
      "queue_regs ?base (mmio t) (D, A, U)"
    and "\<exists>m b f l. t = s2\<lparr>mem := m, bitmap := b, free_pages := f, mmio := l\<rparr>"
    by blast
  then obtain m b fr l where t: "t = s2\<lparr>mem := m, bitmap := b, free_pages := fr, mmio := l\<rparr>" by blast
  have fp: "fresh_pages s t [U, A, D]"
    using q(2) same2 by (simp add: fresh_pages_def)
  define u where "u = t\<lparr>desc := D, avail := A, used_ring := U,
      mmio := mmio t @ [Write32 (?base + 0x70) (st OR 4), Read32 (?base + 0x100) (ucast (extent (media s))),
        Read32 (?base + 0x104) (ucast (drop_bit 32 (extent (media s))))],
      capacity_sectors := extent (media s)\<rparr>"
  let ?fmt = "ascii ''  [ok] virtio-blk: %u sectors (%u MB)'' @ [10]"
  let ?args = "\<lambda>n :: nat. if n = 0 then extent (media s) else extent (media s) * ucast SECTOR_SIZE div (1024 * 1024)"
  have join: "ucast (ucast (extent (media s)) :: u32) OR push_bit 32 (ucast (ucast (drop_bit 32 (extent (media s))) :: u32))
      = extent (media s)"
    by (rule bit_word_eqI) (auto simp: bit_simps)
  have run: "blk_init dev s = Option.bind (printf_lit dev ?args 0 ?fmt u) (\<lambda>s. Some (s, True))"
    unfolding blk_init_def probe prod.case option.case Let_def neg
    using q(1) lo hi join
    by (simp add: s2_def u_def t write32_def read32_def Let_def cong: if_cong)
  have "complete_fmt ?fmt" "str_args 0 ?fmt = []" by (simp_all add: ascii_def takes_arg_def)
  then have "printf_lit dev ?args 0 ?fmt u = put_all (putc dev) (format (\<lambda>_. []) ?args 0 ?fmt) u"
    by (intro printf_lit_all) simp_all
  moreover obtain v where v: "put_all (putc dev) (format (\<lambda>_. []) ?args 0 ?fmt) u = Some v"
      "v\<lparr>mmio := []\<rparr> = u\<lparr>mmio := []\<rparr>"
    using uart.put_all_ok [OF dev(2)] by blast
  ultimately have init: "blk_init dev s = Some (v, True)" using run by simp
  have vu: "v = u\<lparr>mmio := mmio v\<rparr>"
    using v(2) by (rule rest_shape)
  have "queue_regs ?base (mmio u) (D, A, U)"
    using q(3) by (simp add: u_def queue_regs_def reg_pair_def last_written_def)
  then have qv: "queue_regs ?base (mmio v) (D, A, U)"
    using put_all_queue_regs [OF v(1) k] by simp
  have sp: "sep p 4096 (header_addr s) 16" "sep p 4096 (status_addr s) 1" "sep p 4096 (buffer_addr s) 512"
    if "p \<in> {U, A, D}" for p
    using fresh_apart_static [OF fp] that statics by auto
  have ap: "sep A 4096 D 4096" "sep U 4096 D 4096" "sep U 4096 A 4096"
    using fp by (simp_all add: fresh_pages_def)
  have "regions_apart (regions (D, A, U) (header_addr s, buffer_addr s, status_addr s))"
    using sp [of U] sp [of A] sp [of D] ap [THEN sep_commute] statics(4)
    by (auto elim!: sep_mono)
  then have "drv_ready ?base extent next_avail v"
    using qv idx fresh_ring_idx [OF fp, of A] fresh_ring_idx [OF fp, of U]
    by (subst vu) (simp add: drv_ready_def blk_ready_def u_def t s2_def del: regions.simps)
  moreover have "media v = media s" by (subst vu) (simp add: u_def t s2_def)
  moreover have "used_ring v = U" "avail v = A" "desc v = D" by (subst vu, simp add: u_def)+
  moreover have "fresh_pages s v [U, A, D]"
    using fp by (subst vu) (simp add: u_def fresh_pages_def held_def free_set_def pages_wf_def owned_pages_def)
  ultimately show ?thesis using init by auto
qed

section \<open>Transfers\<close>

text \<open>
  C32: What was written is what is read.  On a disk that keeps the virtio contract, whatever
  its latency, writing the 512 bytes of a buffer to sector \<open>x\<close> and then reading sector \<open>y\<close>
  into the buffer both return success; the buffer then holds the bytes written if \<open>y = x\<close> and
  the old contents of sector \<open>y\<close> otherwise, no other sector changed, the driver is ready for
  the next request, and no byte of memory outside the rings, the two statics and the buffer
  changed.
\<close>

theorem sector_write_read:
  assumes disk: "virtio_disk dma base contents extent next_avail delay"
    and rdy: "blk_ready base extent next_avail buf s"
    and x: "x < capacity_sectors s" and y: "y < capacity_sectors s"
  shows "\<exists>t u. write_sector dev dma x buf s = Some (t, True) \<and> read_sector dev dma y buf t = Some (u, True) \<and>
    read_bytes (mem u) buf 512 = (if y = x then read_bytes (mem s) buf 512 else contents (media s) y) \<and>
    contents (media u) = (contents (media s))(x := read_bytes (mem s) buf 512) \<and>
    blk_ready base extent next_avail buf u \<and>
    frame (regions (desc s, avail s, used_ring s) (header_addr s, buf, status_addr s)) (mem s) (mem u)"
proof -
  let ?rs = "regions (desc s, avail s, used_ring s) (header_addr s, buf, status_addr s)"
  have cap: "capacity_sectors s = extent (media s)" using rdy by (simp add: blk_ready_def)
  obtain t where t: "do_request dev dma VIRTIO_BLK_T_OUT x buf s = Some (t, True)"
      "blk_ready base extent next_avail buf t" "same_driver s t" "frame ?rs (mem s) (mem t)"
      "contents (media t) = (contents (media s))(x := read_bytes (mem s) buf 512)"
    using virtio_disk.request_correct [OF disk rdy, of x VIRTIO_BLK_T_OUT dev] x cap
    by (auto simp: VIRTIO_BLK_T_IN_def VIRTIO_BLK_T_OUT_def)
  have same: "capacity_sectors t = capacity_sectors s" "desc t = desc s" "avail t = avail s" "used_ring t = used_ring s"
    "header_addr t = header_addr s" "status_addr t = status_addr s"
    using same_driver_fields [OF t(3)] by simp_all
  have "y < extent (media t)" using t(2) y same(1) by (simp add: blk_ready_def)
  then obtain u where u: "do_request dev dma VIRTIO_BLK_T_IN y buf t = Some (u, True)"
      "blk_ready base extent next_avail buf u" "frame ?rs (mem t) (mem u)"
      "contents (media u) = contents (media t)" "read_bytes (mem u) buf 512 = contents (media t) y"
    using virtio_disk.request_correct [OF disk t(2), of y VIRTIO_BLK_T_IN dev] same by auto
  have "frame ?rs (mem s) (mem u)" using frame_mono [OF frame_trans [OF t(4) u(3)]] by simp
  then show ?thesis
    using t u x y same(1) by (auto simp: write_sector_def read_sector_def)
qed

text \<open>The 17th sector of a disk of 100 sectors that answers at the fourth look.\<close>

definition sample_disk :: disk where
  "sample_disk = \<lparr>platter = (\<lambda>x. [ucast x]), sectors = 100, seen = 0, latency = 3, busy_for = 3\<rparr>"

definition blk_kernel :: "disk blk" where
  "blk_kernel = write_queue_addrs (virtio_slot 0) (0x40100000, 0x40101000, 0x40102000)
     (write32 (virtio_slot 0 + vreg VIRTIO_MMIO_QUEUE_NUM) QUEUE_SIZE
       (compat.extend bare_kernel
          (blk.fields (virtio_slot 0) 100 0x40100000 0x40101000 0x40102000 0 0x40090000 0x40090010 0x40090200
             sample_disk)))"

lemma blk_kernel_ready: "blk_ready (virtio_slot 0) sectors seen 0x40090200 blk_kernel"
proof -
  have "queue_regs (virtio_slot 0) (mmio blk_kernel) (0x40100000, 0x40101000, 0x40102000)"
    unfolding blk_kernel_def by (rule queue_regs_written) (simp add: write32_def)
  moreover have "ring_idx (\<lambda>_. 0) r = 0" for r by (simp add: ring_idx_def load16_def eval_nat_numeral)
  ultimately show ?thesis
    by (simp add: blk_ready_def blk_kernel_def write_queue_addrs_def write32_def Let_def compat.defs blk.defs
        bare_kernel_def sample_disk_def sep_def)
qed

theorem sector_write_read_witness:
  "\<exists>t u. write_sector idle_device (disk_dma (virtio_slot 0)) 17 0x40090200 blk_kernel = Some (t, True) \<and>
    read_sector idle_device (disk_dma (virtio_slot 0)) 17 0x40090200 t = Some (u, True) \<and>
    read_bytes (mem u) 0x40090200 512 = read_bytes (mem blk_kernel) 0x40090200 512"
proof -
  have "capacity_sectors blk_kernel = 100"
    by (simp add: blk_kernel_def write_queue_addrs_def write32_def Let_def compat.defs blk.defs)
  then show ?thesis
    using sector_write_read [OF vdisk.virtio_disk_axioms blk_kernel_ready, of 17 17 idle_device] by auto
qed

text \<open>A machine with one block device, in slot 0, whose sectors are those of the sample disk.\<close>

definition blk_device :: device where
  "blk_device evs a =
     (if a = virtio_slot 0 then 0x74726976
      else if a = virtio_slot 0 + 0x8 then 2
      else if a = virtio_slot 0 + 0x34 then 1024
      else if a = virtio_slot 0 + 0x100 then 100 else 0)"

definition blk_boot :: "disk blk" where
  "blk_boot = pages_init 0x40100000 0x10000000
     (compat.extend bare_kernel (blk.fields 0 0 0 0 0 0 0x40090000 0x40090010 0x40090200 sample_disk))"

lemma pages_init_blk [simp]:
  fixes s :: "('d, 'a) blk_scheme"
  shows "header_addr (pages_init h t s) = header_addr s" "status_addr (pages_init h t s) = status_addr s"
    "buffer_addr (pages_init h t s) = buffer_addr s" "media (pages_init h t s) = media s"
    "last_used_idx (pages_init h t s) = last_used_idx s"
proof -
  have "header_addr (fold mark_used is u) = header_addr u \<and> status_addr (fold mark_used is u) = status_addr u \<and>
      buffer_addr (fold mark_used is u) = buffer_addr u \<and> media (fold mark_used is u) = media u \<and>
      last_used_idx (fold mark_used is u) = last_used_idx u" for "is" and u :: "('d, 'a) blk_scheme"
    by (induction "is" arbitrary: u) (simp_all add: mark_used_def)
  then show "header_addr (pages_init h t s) = header_addr s" "status_addr (pages_init h t s) = status_addr s"
    "buffer_addr (pages_init h t s) = buffer_addr s" "media (pages_init h t s) = media s"
    "last_used_idx (pages_init h t s) = last_used_idx s"
    by (simp_all add: pages_init_def Let_def)
qed

lemma blk_device_facts: "device_at blk_device VIRTIO_DEV_BLK 0" "drains blk_device"
  by (simp_all add: device_at_def VIRTIO_MMIO_COUNT_def VIRTIO_DEV_BLK_def drains_def blk_device_def
      virtio_slot_def VIRTIO_MMIO_BASE_def UART_FR_def UART_BASE_def)

lemma blk_boot_facts:
  "media blk_boot = sample_disk" "header_addr blk_boot = 0x40090000" "status_addr blk_boot = 0x40090010"
  "buffer_addr blk_boot = 0x40090200" "last_used_idx blk_boot = 0" "pages_wf blk_boot"
  "free_set blk_boot = {256..<65536}" "0x40090000 \<in> held blk_boot"
proof -
  show "media blk_boot = sample_disk" "header_addr blk_boot = 0x40090000" "status_addr blk_boot = 0x40090010"
    "buffer_addr blk_boot = 0x40090200" "last_used_idx blk_boot = 0"
    by (simp_all add: blk_boot_def compat.defs blk.defs)
  show "pages_wf blk_boot" by (simp add: blk_boot_def pages_init_spec)
  show f: "free_set blk_boot = {256..<65536}"
    by (simp add: blk_boot_def pages_init_spec memory_base_def PAGE_SIZE_def)
  have "unat (total_pages blk_boot) = 65536" by (simp add: blk_boot_def pages_init_spec)
  moreover have "144 \<notin> free_set blk_boot" by (simp add: f)
  ultimately have "144 \<in> owned_pages blk_boot" by (simp add: owned_pages_def free_set_def)
  then have "page_addr 144 \<in> held blk_boot" by (simp add: held_def)
  then show "0x40090000 \<in> held blk_boot" by (simp add: page_addr_def memory_base_def PAGE_SIZE_def)
qed

theorem blk_init_ready_witness:
  "\<exists>t. blk_init blk_device blk_boot = Some (t, True) \<and> drv_ready (virtio_slot 0) sectors seen t"
proof -
  have st: "static_at blk_boot (0x40090000 + of_nat i) n" if "i + n \<le> 4096" "0 < n" for i n
    using blk_boot_facts(8) that by (auto simp: static_at_def)
  note f = blk_boot_facts
  have "static_at blk_boot (header_addr blk_boot) 16" "static_at blk_boot (status_addr blk_boot) 1"
    "static_at blk_boot (buffer_addr blk_boot) 512"
    using st [of 0 16] st [of 16 1] st [of 512 512] by (simp_all add: f)
  moreover have "regions_apart [(header_addr blk_boot, 16), (status_addr blk_boot, 1), (buffer_addr blk_boot, 512)]"
    by (simp add: f sep_def)
  moreover have "QUEUE_SIZE \<le> blk_device evs (virtio_slot 0 + vreg VIRTIO_MMIO_QUEUE_NUM_MAX)" for evs
    by (simp add: blk_device_def QUEUE_SIZE_def)
  moreover have "blk_device evs (virtio_slot 0 + 0x100) = ucast (sectors (media blk_boot))"
    "blk_device evs (virtio_slot 0 + 0x104) = ucast (drop_bit 32 (sectors (media blk_boot)))" for evs
    by (simp_all add: blk_device_def f sample_disk_def drop_bit_eq_div)
  moreover have "seen (media blk_boot) = 0" by (simp add: f sample_disk_def)
  moreover have "3 \<le> card (free_set blk_boot)" by (simp add: f)
  ultimately show ?thesis
    using blk_init_ready [OF blk_device_facts, of sectors blk_boot seen] f(5, 6) by blast
qed

end
