(* ===== verification/Fat32.thy ===== *)
theory Fat32
  imports Virtio_Blk
begin

text \<open>
  The FAT32 file system, src/src/fs/fat32.cpp.  The statics are the record \<open>fat\<close>; the machine
  below (memory, driver, disk) is its field \<open>machine\<close>, and the two driver calls are the
  parameters \<open>rd\<close> and \<open>wr\<close> of every operation, so that the file system is verified against
  the interface \<open>block_device\<close> and not against one driver.  The 512 bytes of \<open>sector_buf\<close> are a
  value of the record.  A path is the list of its bytes before the NUL; the bytes that
  \<open>read_file\<close> copies to its caller are returned as a list.  Loops along a cluster chain follow
  whatever the disk says, so they may not end: such a run is \<open>None\<close>.
\<close>

section \<open>State and structures\<close>

type_synonym 's sector_read = "u64 \<Rightarrow> u8 list \<Rightarrow> 's \<Rightarrow> ('s \<times> u8 list \<times> bool) option"
type_synonym 's sector_write = "u64 \<Rightarrow> u8 list \<Rightarrow> 's \<Rightarrow> ('s \<times> bool) option"
type_synonym 's printer = "(nat \<Rightarrow> u64) \<Rightarrow> u8 list \<Rightarrow> 's \<Rightarrow> 's option"

record 's fat =
  machine :: 's
  mounted :: bool
  sectors_per_cluster :: u32
  fat_start_sector :: u32
  data_start_sector :: u32
  root_cluster :: u32
  bytes_per_sector :: u32
  num_fats :: u32
  fat_size_sectors :: u32
  total_clusters :: u32
  sector_buf :: "u8 list"

definition fld :: "nat \<Rightarrow> nat \<Rightarrow> u8 list \<Rightarrow> 'a::len word" where
  "fld off n b = of_le (take n (drop off b))"

record BPB =
  bpb_bytes_per_sector :: u16
  bpb_sectors_per_cluster :: u8
  bpb_reserved_sectors :: u16
  bpb_num_fats :: u8
  bpb_total_sectors_32 :: u32
  bpb_fat_size_32 :: u32
  bpb_root_cluster :: u32

definition to_bpb :: "u8 list \<Rightarrow> BPB" where
  "to_bpb b = \<lparr>bpb_bytes_per_sector = fld 11 2 b, bpb_sectors_per_cluster = fld 13 1 b,
     bpb_reserved_sectors = fld 14 2 b, bpb_num_fats = fld 16 1 b, bpb_total_sectors_32 = fld 32 4 b,
     bpb_fat_size_32 = fld 36 4 b, bpb_root_cluster = fld 44 4 b\<rparr>"

text \<open>A directory entry is 32 packed bytes; the time stamps and reserved bytes are never read.\<close>

record DirEntry =
  de_name :: "u8 list"
  de_attr :: u8
  first_cluster_hi :: u16
  first_cluster_lo :: u16
  de_file_size :: u32

definition DIRENT :: nat where "DIRENT = 32"

definition to_entry :: "u8 list \<Rightarrow> DirEntry" where
  "to_entry b = \<lparr>de_name = take 11 b, de_attr = fld 11 1 b, first_cluster_hi = fld 20 2 b,
     first_cluster_lo = fld 26 2 b, de_file_size = fld 28 4 b\<rparr>"

definition entry_at :: "u8 list \<Rightarrow> nat \<Rightarrow> DirEntry" where
  "entry_at b e = to_entry (take DIRENT (drop (DIRENT * e) b))"

definition entries_per_sector :: "'s fat \<Rightarrow> nat" where
  "entries_per_sector s = unat (bytes_per_sector s div of_nat DIRENT)"

definition ATTR_VOLUME_ID :: u8 where "ATTR_VOLUME_ID = 0x08"
definition ATTR_DIRECTORY :: u8 where "ATTR_DIRECTORY = 0x10"
definition ATTR_ARCHIVE :: u8 where "ATTR_ARCHIVE = 0x20"
definition ATTR_LFN :: u8 where "ATTR_LFN = 0x0F"
definition FAT32_MAX_FILENAME :: nat where "FAT32_MAX_FILENAME = 128"

definition first_cluster_of :: "DirEntry \<Rightarrow> u32" where
  "first_cluster_of e = push_bit 16 (ucast (first_cluster_hi e)) OR ucast (first_cluster_lo e)"

definition is_directory :: "DirEntry \<Rightarrow> bool" where
  "is_directory e \<longleftrightarrow> de_attr e AND ATTR_DIRECTORY \<noteq> 0"

section \<open>Sectors and clusters\<close>

definition read_buf :: "'s sector_read \<Rightarrow> u32 \<Rightarrow> 's fat \<Rightarrow> ('s fat \<times> bool) option" where
  "read_buf rd sector s =
     Option.bind (rd (ucast sector) (sector_buf s) (machine s))
       (\<lambda>(m, b, ok). Some (s\<lparr>machine := m, sector_buf := b\<rparr>, ok))"

definition write_from :: "'s sector_write \<Rightarrow> u32 \<Rightarrow> u8 list \<Rightarrow> 's fat \<Rightarrow> ('s fat \<times> bool) option" where
  "write_from wr sector b s =
     Option.bind (wr (ucast sector) b (machine s)) (\<lambda>(m, ok). Some (s\<lparr>machine := m\<rparr>, ok))"

definition cluster_to_sector :: "'s fat \<Rightarrow> u32 \<Rightarrow> u32" where
  "cluster_to_sector s cluster = data_start_sector s + (cluster - 2) * sectors_per_cluster s"

definition fat_sector :: "'s fat \<Rightarrow> u32 \<Rightarrow> u32" where
  "fat_sector s cluster = fat_start_sector s + (cluster * 4) div bytes_per_sector s"

definition entry_offset :: "'s fat \<Rightarrow> u32 \<Rightarrow> nat" where
  "entry_offset s cluster = unat ((cluster * 4) mod bytes_per_sector s)"

definition next_cluster :: "'s sector_read \<Rightarrow> u32 \<Rightarrow> 's fat \<Rightarrow> ('s fat \<times> u32) option" where
  "next_cluster rd cluster s =
     Option.bind (read_buf rd (fat_sector s cluster) s)
       (\<lambda>(s, ok). if \<not> ok then Some (s, 0x0FFFFFF8)
                  else Some (s, fld (entry_offset s cluster) 4 (sector_buf s) AND 0x0FFFFFFF))"

definition is_end_cluster :: "u32 \<Rightarrow> bool" where
  "is_end_cluster cluster \<longleftrightarrow> cluster \<ge> 0x0FFFFFF8"

section \<open>Names\<close>

definition lower :: "u8 \<Rightarrow> u8" where
  "lower c = (if c \<ge> 65 \<and> c \<le> 90 then c + 32 else c)"

definition upper :: "u8 \<Rightarrow> u8" where
  "upper c = (if c \<ge> 97 \<and> c \<le> 122 then c - 32 else c)"

definition fat_name_to_string :: "u8 list \<Rightarrow> u8 list" where
  "fat_name_to_string n =
     map lower (takeWhile (\<lambda>c. c \<noteq> 32) (take 8 n)) @
     (if n ! 8 \<noteq> 32 then 46 # map lower (takeWhile (\<lambda>c. c \<noteq> 32) (take 3 (drop 8 n))) else [])"

text \<open>\<open>strcmp\<close> stops at the first NUL of the converted name; the name searched for has none.\<close>

definition name_matches :: "u8 list \<Rightarrow> u8 list \<Rightarrow> bool" where
  "name_matches n nm \<longleftrightarrow> takeWhile (\<lambda>c. c \<noteq> 0) (fat_name_to_string n) = nm"

text \<open>
  The first loop takes up to eight characters before a dot, the second skips to the dot, the
  third takes up to three characters after it.
\<close>

definition pad :: "nat \<Rightarrow> u8 list \<Rightarrow> u8 list" where
  "pad k xs = xs @ replicate (k - length xs) 32"

definition string_to_fat_name :: "u8 list \<Rightarrow> u8 list" where
  "string_to_fat_name nm =
     (let base = takeWhile (\<lambda>c. c \<noteq> 46) nm;
          rest = dropWhile (\<lambda>c. c \<noteq> 46) nm
      in pad 8 (map upper (take 8 base)) @ pad 3 (map upper (take 3 (tl rest))))"

section \<open>Looking up a name\<close>

datatype scan = Next | Stop | Hit DirEntry

definition skipped :: "DirEntry \<Rightarrow> bool" where
  "skipped e \<longleftrightarrow> de_name e ! 0 = 0xE5 \<or> de_attr e = ATTR_LFN \<or> de_attr e AND ATTR_VOLUME_ID \<noteq> 0"

fun scan_entries :: "u8 list \<Rightarrow> u8 list \<Rightarrow> nat list \<Rightarrow> scan" where
  "scan_entries nm b [] = Next"
| "scan_entries nm b (e # es) =
     (if de_name (entry_at b e) ! 0 = 0 then Stop
      else if skipped (entry_at b e) then scan_entries nm b es
      else if name_matches (de_name (entry_at b e)) nm then Hit (entry_at b e)
      else scan_entries nm b es)"

fun scan_sectors :: "'s sector_read \<Rightarrow> u8 list \<Rightarrow> u32 \<Rightarrow> nat list \<Rightarrow> 's fat \<Rightarrow> ('s fat \<times> scan) option" where
  "scan_sectors rd nm sector [] s = Some (s, Next)"
| "scan_sectors rd nm sector (i # is) s =
     Option.bind (read_buf rd (sector + of_nat i) s)
       (\<lambda>(s, ok). if \<not> ok then Some (s, Stop)
                  else case scan_entries nm (sector_buf s) [0..<entries_per_sector s] of
                         Next \<Rightarrow> scan_sectors rd nm sector is s
                       | r \<Rightarrow> Some (s, r))"

partial_function (option) find_in_dir ::
  "'s sector_read \<Rightarrow> u32 \<Rightarrow> u8 list \<Rightarrow> 's fat \<Rightarrow> ('s fat \<times> DirEntry option) option" where
  "find_in_dir rd cluster nm s =
     (if is_end_cluster cluster then Some (s, None)
      else Option.bind (scan_sectors rd nm (cluster_to_sector s cluster) [0..<unat (sectors_per_cluster s)] s)
        (\<lambda>(s, r). case r of
             Hit e \<Rightarrow> Some (s, Some e)
           | Stop \<Rightarrow> Some (s, None)
           | Next \<Rightarrow> Option.bind (next_cluster rd cluster s)
               (\<lambda>(s, c). find_in_dir rd c nm s)))"

definition root_entry :: "'s fat \<Rightarrow> DirEntry" where
  "root_entry s = \<lparr>de_name = [], de_attr = ATTR_DIRECTORY,
     first_cluster_hi = ucast (drop_bit 16 (root_cluster s) AND 0xFFFF),
     first_cluster_lo = ucast (root_cluster s AND 0xFFFF), de_file_size = 0\<rparr>"

text \<open>\<open>component\<close> keeps at most 127 characters of a path component.\<close>

function resolve_from ::
  "'s sector_read \<Rightarrow> u32 \<Rightarrow> u8 list \<Rightarrow> DirEntry \<Rightarrow> 's fat \<Rightarrow> ('s fat \<times> DirEntry option) option" where
  "resolve_from rd cluster path res s =
     (if path = [] then Some (s, Some res)
      else let component = take (FAT32_MAX_FILENAME - 1) (takeWhile (\<lambda>c. c \<noteq> 47) path);
               rest = tl (dropWhile (\<lambda>c. c \<noteq> 47) path)
           in Option.bind (find_in_dir rd cluster component s)
             (\<lambda>(s, r). case r of
                  None \<Rightarrow> Some (s, None)
                | Some e \<Rightarrow>
                    if rest = [] then Some (s, Some e)
                    else if \<not> is_directory e then Some (s, None)
                    else resolve_from rd (first_cluster_of e) rest e s))"
  by pat_completeness auto
termination
proof (relation "measure (\<lambda>(rd, cluster, path, res, s). length path)")
  fix rd :: "'s sector_read" and cluster path res s component rest r and e :: DirEntry
  assume "path \<noteq> []" and rest: "rest = tl (dropWhile (\<lambda>c. c \<noteq> 47) path)" "rest \<noteq> []"
  then have "length rest < length (dropWhile (\<lambda>c. c \<noteq> 47) path)" by (cases "dropWhile (\<lambda>c. c \<noteq> 47) path") auto
  also have "\<dots> \<le> length path" by (rule length_dropWhile_le)
  finally show "((rd, first_cluster_of e, rest, e, r), rd, cluster, path, res, s)
      \<in> measure (\<lambda>(rd, cluster, path, res, s). length path)" for r
    by simp
qed simp

definition resolve_path :: "'s sector_read \<Rightarrow> u8 list \<Rightarrow> 's fat \<Rightarrow> ('s fat \<times> DirEntry option) option" where
  "resolve_path rd path s =
     (let path = (if path \<noteq> [] \<and> hd path = 47 then tl path else path)
      in resolve_from rd (root_cluster s) path (root_entry s) s)"

section \<open>Mounting and reading\<close>

definition fat_init :: "'s printer \<Rightarrow> 's sector_read \<Rightarrow> 's fat \<Rightarrow> ('s fat \<times> bool) option" where
  "fat_init pr rd s =
     Option.bind (read_buf rd 0 s)
       (\<lambda>(s, ok).
          let bpb = to_bpb (sector_buf s)
          in if \<not> ok then
               Option.bind (pr (\<lambda>_. 0) (ascii ''  [FAIL] Cannot read boot sector'' @ [10]) (machine s))
                 (\<lambda>m. Some (s\<lparr>machine := m\<rparr>, False))
             else if bpb_bytes_per_sector bpb \<noteq> 512 then
               Option.bind (pr (\<lambda>_. 0) (ascii ''  [FAIL] Unsupported sector size'' @ [10]) (machine s))
                 (\<lambda>m. Some (s\<lparr>machine := m\<rparr>, False))
             else
               let fat_start = ucast (bpb_reserved_sectors bpb);
                   spc = ucast (bpb_sectors_per_cluster bpb);
                   nf = ucast (bpb_num_fats bpb);
                   data_start = fat_start + nf * bpb_fat_size_32 bpb;
                   s = s\<lparr>bytes_per_sector := ucast (bpb_bytes_per_sector bpb), sectors_per_cluster := spc,
                         fat_start_sector := fat_start, num_fats := nf, fat_size_sectors := bpb_fat_size_32 bpb,
                         data_start_sector := data_start, root_cluster := bpb_root_cluster bpb,
                         total_clusters := (bpb_total_sectors_32 bpb - data_start) div spc, mounted := True\<rparr>
               in Option.bind
                    (pr (\<lambda>n. if n = 0 then ucast (sectors_per_cluster s) else ucast (root_cluster s))
                       (ascii ''  [ok] FAT32: %u sectors/cluster, root cluster %u'' @ [10]) (machine s))
                    (\<lambda>m. Some (s\<lparr>machine := m\<rparr>, True)))"

record Fat32DirEntry =
  fe_name :: "u8 list"
  fe_size :: u32
  fe_first_cluster :: u32
  is_dir :: bool

definition to_listing :: "DirEntry \<Rightarrow> Fat32DirEntry" where
  "to_listing e = \<lparr>fe_name = fat_name_to_string (de_name e), fe_size = de_file_size e,
     fe_first_cluster = first_cluster_of e, is_dir = is_directory e\<rparr>"

text \<open>The flag is True when the end mark of the directory was met.\<close>

fun list_entries :: "u8 list \<Rightarrow> nat \<Rightarrow> nat list \<Rightarrow> Fat32DirEntry list \<Rightarrow> bool \<times> Fat32DirEntry list" where
  "list_entries b mx [] out = (False, out)"
| "list_entries b mx (e # es) out =
     (if \<not> length out < mx then (False, out)
      else if de_name (entry_at b e) ! 0 = 0 then (True, out)
      else if skipped (entry_at b e) then list_entries b mx es out
      else list_entries b mx es (out @ [to_listing (entry_at b e)]))"

fun list_sectors ::
  "'s sector_read \<Rightarrow> nat \<Rightarrow> u32 \<Rightarrow> nat list \<Rightarrow> Fat32DirEntry list \<Rightarrow> 's fat \<Rightarrow>
   ('s fat \<times> bool option \<times> Fat32DirEntry list) option" where
  "list_sectors rd mx sector [] out s = Some (s, None, out)"
| "list_sectors rd mx sector (i # is) out s =
     (if \<not> length out < mx then Some (s, None, out)
      else Option.bind (read_buf rd (sector + of_nat i) s)
        (\<lambda>(s, ok). if \<not> ok then Some (s, Some False, out)
                   else case list_entries (sector_buf s) mx [0..<entries_per_sector s] out of
                          (True, out) \<Rightarrow> Some (s, Some True, out)
                        | (False, out) \<Rightarrow> list_sectors rd mx sector is out s))"

partial_function (option) list_clusters ::
  "'s sector_read \<Rightarrow> nat \<Rightarrow> u32 \<Rightarrow> Fat32DirEntry list \<Rightarrow> 's fat \<Rightarrow> ('s fat \<times> bool \<times> Fat32DirEntry list) option" where
  "list_clusters rd mx cluster out s =
     (if is_end_cluster cluster \<or> \<not> length out < mx then Some (s, True, out)
      else Option.bind
        (list_sectors rd mx (cluster_to_sector s cluster) [0..<unat (sectors_per_cluster s)] out s)
        (\<lambda>(s, r, out). case r of
             Some ok \<Rightarrow> Some (s, ok, out)
           | None \<Rightarrow> Option.bind (next_cluster rd cluster s) (\<lambda>(s, c). list_clusters rd mx c out s)))"

definition open_dir :: "'s sector_read \<Rightarrow> u8 list \<Rightarrow> 's fat \<Rightarrow> ('s fat \<times> u32 option) option" where
  "open_dir rd path s =
     (if path = [47] then Some (s, Some (root_cluster s))
      else Option.bind (resolve_path rd path s)
        (\<lambda>(s, r). case r of
             None \<Rightarrow> Some (s, None)
           | Some de \<Rightarrow> if \<not> is_directory de then Some (s, None) else Some (s, Some (first_cluster_of de))))"

definition list_dir ::
  "'s sector_read \<Rightarrow> u8 list \<Rightarrow> u32 \<Rightarrow> 's fat \<Rightarrow> ('s fat \<times> bool \<times> Fat32DirEntry list) option" where
  "list_dir rd path max_entries s =
     (if \<not> mounted s then Some (s, False, [])
      else Option.bind (open_dir rd path s)
        (\<lambda>(s, d). case d of
             None \<Rightarrow> Some (s, False, [])
           | Some c \<Rightarrow> list_clusters rd (unat max_entries) c [] s))"

fun copy_sectors ::
  "'s sector_read \<Rightarrow> u32 \<Rightarrow> nat list \<Rightarrow> u32 \<Rightarrow> u8 list \<Rightarrow> 's fat \<Rightarrow> ('s fat \<times> u32 \<times> u8 list \<times> bool) option" where
  "copy_sectors rd sector [] remaining dst s = Some (s, remaining, dst, True)"
| "copy_sectors rd sector (i # is) remaining dst s =
     (if \<not> remaining > 0 then Some (s, remaining, dst, True)
      else Option.bind (read_buf rd (sector + of_nat i) s)
        (\<lambda>(s, ok).
           let to_copy = (if remaining < bytes_per_sector s then remaining else bytes_per_sector s)
           in if \<not> ok then Some (s, remaining, dst, False)
              else copy_sectors rd sector is (remaining - to_copy) (dst @ take (unat to_copy) (sector_buf s)) s))"

partial_function (option) copy_clusters ::
  "'s sector_read \<Rightarrow> u32 \<Rightarrow> u32 \<Rightarrow> u8 list \<Rightarrow> 's fat \<Rightarrow> ('s fat \<times> u8 list \<times> bool) option" where
  "copy_clusters rd cluster remaining dst s =
     (if \<not> (remaining > 0 \<and> \<not> is_end_cluster cluster) then Some (s, dst, True)
      else Option.bind
        (copy_sectors rd (cluster_to_sector s cluster) [0..<unat (sectors_per_cluster s)] remaining dst s)
        (\<lambda>(s, remaining, dst, ok).
           if \<not> ok then Some (s, dst, False)
           else Option.bind (next_cluster rd cluster s)
             (\<lambda>(s, c). copy_clusters rd c remaining dst s)))"

text \<open>The result: what was copied, and \<open>bytes_read\<close> when the call reports success.\<close>

definition read_file ::
  "'s sector_read \<Rightarrow> u8 list \<Rightarrow> u32 \<Rightarrow> 's fat \<Rightarrow> ('s fat \<times> u8 list \<times> u32 option) option" where
  "read_file rd path buf_size s =
     (if \<not> mounted s then Some (s, [], None)
      else Option.bind (resolve_path rd path s)
        (\<lambda>(s, r). case r of
             None \<Rightarrow> Some (s, [], None)
           | Some de \<Rightarrow>
               if is_directory de then Some (s, [], None)
               else let fsize = (if de_file_size de > buf_size then buf_size else de_file_size de)
                    in Option.bind (copy_clusters rd (first_cluster_of de) fsize [] s)
                         (\<lambda>(s, dst, ok). Some (s, dst, if ok then Some fsize else None))))"

definition file_exists :: "'s sector_read \<Rightarrow> u8 list \<Rightarrow> 's fat \<Rightarrow> ('s fat \<times> bool) option" where
  "file_exists rd path s =
     (if \<not> mounted s then Some (s, False)
      else Option.bind (resolve_path rd path s) (\<lambda>(s, r). Some (s, r \<noteq> None)))"

definition file_size :: "'s sector_read \<Rightarrow> u8 list \<Rightarrow> 's fat \<Rightarrow> ('s fat \<times> u32) option" where
  "file_size rd path s =
     (if \<not> mounted s then Some (s, 0)
      else Option.bind (resolve_path rd path s)
        (\<lambda>(s, r). Some (s, case r of None \<Rightarrow> 0 | Some de \<Rightarrow> de_file_size de)))"

section \<open>Writing\<close>

definition put :: "u8 list \<Rightarrow> nat \<Rightarrow> u8 list \<Rightarrow> u8 list" where
  "put b off bs = take off b @ bs @ drop (off + length bs) b"

definition patch_entry :: "nat \<Rightarrow> u32 \<Rightarrow> u8 list \<Rightarrow> u8 list" where
  "patch_entry off val b = put b off (le_bytes 4 ((fld off 4 b AND 0xF0000000) OR (val AND 0x0FFFFFFF) :: u32))"

fun set_copies ::
  "'s sector_read \<Rightarrow> 's sector_write \<Rightarrow> u32 \<Rightarrow> u32 \<Rightarrow> nat list \<Rightarrow> 's fat \<Rightarrow> ('s fat \<times> bool) option" where
  "set_copies rd wr cluster val [] s = Some (s, True)"
| "set_copies rd wr cluster val (f # fs) s =
     (let sector = fat_sector s cluster + of_nat f * fat_size_sectors s
      in Option.bind (read_buf rd sector s)
        (\<lambda>(s, ok).
           if \<not> ok then Some (s, False)
           else let s = s\<lparr>sector_buf := patch_entry (entry_offset s cluster) val (sector_buf s)\<rparr>
                in Option.bind (write_from wr sector (sector_buf s) s)
                  (\<lambda>(s, ok). if \<not> ok then Some (s, False) else set_copies rd wr cluster val fs s)))"

definition set_fat_entry ::
  "'s sector_read \<Rightarrow> 's sector_write \<Rightarrow> u32 \<Rightarrow> u32 \<Rightarrow> 's fat \<Rightarrow> ('s fat \<times> bool) option" where
  "set_fat_entry rd wr cluster val s = set_copies rd wr cluster val [0..<unat (num_fats s)] s"

fun zero_sectors :: "'s sector_write \<Rightarrow> u32 \<Rightarrow> nat list \<Rightarrow> 's fat \<Rightarrow> 's fat option" where
  "zero_sectors wr sector [] s = Some s"
| "zero_sectors wr sector (i # is) s =
     Option.bind (write_from wr (sector + of_nat i) (replicate 512 0) s)
       (\<lambda>(s, ok). zero_sectors wr sector is s)"

fun alloc_from ::
  "'s sector_read \<Rightarrow> 's sector_write \<Rightarrow> nat list \<Rightarrow> 's fat \<Rightarrow> ('s fat \<times> u32) option" where
  "alloc_from rd wr [] s = Some (s, 0)"
| "alloc_from rd wr (i # is) s =
     (let c = of_nat i
      in Option.bind (read_buf rd (fat_sector s c) s)
        (\<lambda>(s, ok).
           if \<not> ok then alloc_from rd wr is s
           else if fld (entry_offset s c) 4 (sector_buf s) AND 0x0FFFFFFF = (0 :: u32) then
             Option.bind (set_fat_entry rd wr c 0x0FFFFFF8 s)
               (\<lambda>(s, _). Option.bind
                  (zero_sectors wr (cluster_to_sector s c) [0..<unat (sectors_per_cluster s)] s)
                  (\<lambda>s. Some (s, c)))
           else alloc_from rd wr is s))"

definition alloc_cluster :: "'s sector_read \<Rightarrow> 's sector_write \<Rightarrow> 's fat \<Rightarrow> ('s fat \<times> u32) option" where
  "alloc_cluster rd wr s = alloc_from rd wr [2..<unat (total_clusters s + 2)] s"

fun store_sectors ::
  "'s sector_write \<Rightarrow> u32 \<Rightarrow> nat list \<Rightarrow> u32 \<Rightarrow> u8 list \<Rightarrow> 's fat \<Rightarrow> ('s fat \<times> u32 \<times> u8 list \<times> bool) option" where
  "store_sectors wr sector [] remaining src s = Some (s, remaining, src, True)"
| "store_sectors wr sector (i # is) remaining src s =
     (if \<not> remaining > 0 then Some (s, remaining, src, True)
      else let to_write = (if remaining < bytes_per_sector s then remaining else bytes_per_sector s);
               b = put (sector_buf s) 0 (replicate (unat (bytes_per_sector s)) 0);
               b = put b 0 (take (unat to_write) src);
               s = s\<lparr>sector_buf := b\<rparr>
           in Option.bind (write_from wr (sector + of_nat i) b s)
             (\<lambda>(s, ok). if \<not> ok then Some (s, remaining, src, False)
                        else store_sectors wr sector is (remaining - to_write) (drop (unat to_write) src) s))"

definition extend_chain ::
  "'s sector_read \<Rightarrow> 's sector_write \<Rightarrow> u32 \<Rightarrow> u32 \<Rightarrow> 's fat \<Rightarrow> ('s fat \<times> u32 option) option" where
  "extend_chain rd wr cluster prev_cluster s =
     (if is_end_cluster cluster \<or> cluster = 0 then
        Option.bind (alloc_cluster rd wr s)
          (\<lambda>(s, new_c).
             if new_c = 0 then Some (s, None)
             else if prev_cluster \<noteq> 0 then
               Option.bind (set_fat_entry rd wr prev_cluster new_c s) (\<lambda>(s, _). Some (s, Some new_c))
             else Some (s, Some new_c))
      else Some (s, Some cluster))"

partial_function (option) store_clusters ::
  "'s sector_read \<Rightarrow> 's sector_write \<Rightarrow> u32 \<Rightarrow> u32 \<Rightarrow> u32 \<Rightarrow> u8 list \<Rightarrow> 's fat \<Rightarrow> ('s fat \<times> bool) option" where
  "store_clusters rd wr cluster prev_cluster remaining src s =
     (if \<not> remaining > 0 then Some (s, True)
      else Option.bind (extend_chain rd wr cluster prev_cluster s)
        (\<lambda>(s, c). case c of
             None \<Rightarrow> Some (s, False)
           | Some cluster \<Rightarrow>
               Option.bind
                 (store_sectors wr (cluster_to_sector s cluster) [0..<unat (sectors_per_cluster s)] remaining src s)
                 (\<lambda>(s, remaining, src, ok).
                    if \<not> ok then Some (s, False)
                    else Option.bind (next_cluster rd cluster s)
                      (\<lambda>(s, nxt). store_clusters rd wr nxt cluster remaining src s))))"

text \<open>\<open>size\<close> is the length of the data: at most \<open>2 ^ 32 - 1\<close> bytes.\<close>

definition write_file ::
  "'s sector_read \<Rightarrow> 's sector_write \<Rightarrow> u8 list \<Rightarrow> u8 list \<Rightarrow> 's fat \<Rightarrow> ('s fat \<times> bool) option" where
  "write_file rd wr path data s =
     (if \<not> mounted s then Some (s, False)
      else Option.bind (resolve_path rd path s)
        (\<lambda>(s, r). case r of
             None \<Rightarrow> Some (s, False)
           | Some de \<Rightarrow>
               if is_directory de then Some (s, False)
               else store_clusters rd wr (first_cluster_of de) 0 (of_nat (length data)) data s))"

text \<open>
  Creating an entry prepares it in \<open>sector_buf\<close>, then allocates a cluster, which reads FAT
  sectors into the same buffer, then completes the entry in the buffer and writes it out.
\<close>

definition create_entry ::
  "'s sector_read \<Rightarrow> 's sector_write \<Rightarrow> u32 \<Rightarrow> nat \<Rightarrow> u8 list \<Rightarrow> 's fat \<Rightarrow> ('s fat \<times> bool) option" where
  "create_entry rd wr sector e filename s =
     (let off = DIRENT * e;
          b = put (sector_buf s) off (replicate DIRENT 0);
          b = put b off (string_to_fat_name filename);
          b = put b (off + 11) [ATTR_ARCHIVE];
          s = s\<lparr>sector_buf := b\<rparr>
      in Option.bind (alloc_cluster rd wr s)
        (\<lambda>(s, first).
           if first = 0 then Some (s, False)
           else let b = put (sector_buf s) (off + 20) (le_bytes 2 (ucast (drop_bit 16 first AND 0xFFFF) :: u16));
                    b = put b (off + 26) (le_bytes 2 (ucast (first AND 0xFFFF) :: u16));
                    b = put b (off + 28) (le_bytes 4 (0 :: u32));
                    s = s\<lparr>sector_buf := b\<rparr>
                in write_from wr sector b s))"

fun create_sectors ::
  "'s sector_read \<Rightarrow> 's sector_write \<Rightarrow> u8 list \<Rightarrow> u32 \<Rightarrow> nat list \<Rightarrow> 's fat \<Rightarrow> ('s fat \<times> bool option) option" where
  "create_sectors rd wr filename sector [] s = Some (s, None)"
| "create_sectors rd wr filename sector (i # is) s =
     Option.bind (read_buf rd (sector + of_nat i) s)
       (\<lambda>(s, ok).
          if \<not> ok then Some (s, Some False)
          else case find (\<lambda>e. de_name (entry_at (sector_buf s) e) ! 0 = 0 \<or> de_name (entry_at (sector_buf s) e) ! 0 = 0xE5)
                      [0..<entries_per_sector s] of
                 Some e \<Rightarrow> Option.bind (create_entry rd wr (sector + of_nat i) e filename s)
                             (\<lambda>(s, ok). Some (s, Some ok))
               | None \<Rightarrow> create_sectors rd wr filename sector is s)"

partial_function (option) create_clusters ::
  "'s sector_read \<Rightarrow> 's sector_write \<Rightarrow> u8 list \<Rightarrow> u32 \<Rightarrow> 's fat \<Rightarrow> ('s fat \<times> bool) option" where
  "create_clusters rd wr filename cluster s =
     (if is_end_cluster cluster then Some (s, False)
      else Option.bind
        (create_sectors rd wr filename (cluster_to_sector s cluster) [0..<unat (sectors_per_cluster s)] s)
        (\<lambda>(s, r). case r of
             Some ok \<Rightarrow> Some (s, ok)
           | None \<Rightarrow> Option.bind (next_cluster rd cluster s) (\<lambda>(s, c). create_clusters rd wr filename c s)))"

definition create_file ::
  "'s sector_read \<Rightarrow> 's sector_write \<Rightarrow> u8 list \<Rightarrow> u8 list \<Rightarrow> 's fat \<Rightarrow> ('s fat \<times> bool) option" where
  "create_file rd wr dir_path filename s =
     (if \<not> mounted s then Some (s, False)
      else Option.bind (open_dir rd dir_path s)
        (\<lambda>(s, d). case d of
             None \<Rightarrow> Some (s, False)
           | Some c \<Rightarrow> create_clusters rd wr filename c s))"

partial_function (option) free_clusters ::
  "'s sector_read \<Rightarrow> 's sector_write \<Rightarrow> u32 \<Rightarrow> 's fat \<Rightarrow> 's fat option" where
  "free_clusters rd wr cluster s =
     (if \<not> (\<not> is_end_cluster cluster \<and> cluster \<ge> 2) then Some s
      else Option.bind (next_cluster rd cluster s)
        (\<lambda>(s, nxt). Option.bind (set_fat_entry rd wr cluster 0 s)
           (\<lambda>(s, _). free_clusters rd wr nxt s)))"

definition delete_file ::
  "'s sector_read \<Rightarrow> 's sector_write \<Rightarrow> u8 list \<Rightarrow> 's fat \<Rightarrow> ('s fat \<times> bool) option" where
  "delete_file rd wr path s =
     (if \<not> mounted s then Some (s, False)
      else Option.bind (resolve_path rd path s)
        (\<lambda>(s, r). case r of
             None \<Rightarrow> Some (s, False)
           | Some de \<Rightarrow>
               if is_directory de then Some (s, False)
               else Option.bind (free_clusters rd wr (first_cluster_of de) s) (\<lambda>s. Some (s, True))))"

end
