(* ===== verification/Fat32_Read.thy ===== *)
theory Fat32_Read
  imports Fat32
begin

text \<open>
  Reading a FAT32 volume against its on-disk meaning.  The specification is a set of pure
  functions of the disk contents: the chain of a cluster, the entries of a directory, the
  entry a path leads to, the bytes of a file.  The operations are proved to compute them on
  every device that keeps the \<open>block_device\<close> interface, without changing the disk.
\<close>

section \<open>The meaning of a volume\<close>

type_synonym image = "u64 \<Rightarrow> u8 list"

definition fat_next :: "image \<Rightarrow> 's fat \<Rightarrow> u32 \<Rightarrow> u32" where
  "fat_next D s c = fld (entry_offset s c) 4 (D (ucast (fat_sector s c))) AND 0x0FFFFFFF"

definition sectors_of :: "'s fat \<Rightarrow> u32 \<Rightarrow> u64 list" where
  "sectors_of s c = map (\<lambda>i. ucast (cluster_to_sector s c + of_nat i)) [0..<unat (sectors_per_cluster s)]"

fun fat_chain :: "image \<Rightarrow> 's fat \<Rightarrow> u32 \<Rightarrow> u32 list \<Rightarrow> bool" where
  "fat_chain D s c [] \<longleftrightarrow> is_end_cluster c"
| "fat_chain D s c (x # xs) \<longleftrightarrow> x = c \<and> \<not> is_end_cluster c \<and> fat_chain D s (fat_next D s c) xs"

definition on_disk :: "u64 \<Rightarrow> 's fat \<Rightarrow> u32 list \<Rightarrow> bool" where
  "on_disk n s cs \<longleftrightarrow> (\<forall>c \<in> set cs. ucast (fat_sector s c) < n \<and> (\<forall>x \<in> set (sectors_of s c). x < n))"

definition sector_entries :: "u8 list \<Rightarrow> DirEntry list" where
  "sector_entries b = map (entry_at b) [0..<16]"

definition dir_entries :: "image \<Rightarrow> 's fat \<Rightarrow> u32 list \<Rightarrow> DirEntry list" where
  "dir_entries D s cs = concat (map (\<lambda>x. sector_entries (D x)) (concat (map (sectors_of s) cs)))"

fun lookup :: "u8 list \<Rightarrow> DirEntry list \<Rightarrow> DirEntry option" where
  "lookup nm [] = None"
| "lookup nm (e # es) =
     (if de_name e ! 0 = 0 then None
      else if skipped e then lookup nm es
      else if name_matches (de_name e) nm then Some e
      else lookup nm es)"

definition component :: "u8 list \<Rightarrow> u8 list" where
  "component path = take (FAT32_MAX_FILENAME - 1) (takeWhile (\<lambda>c. c \<noteq> 47) path)"

definition remainder :: "u8 list \<Rightarrow> u8 list" where
  "remainder path = tl (dropWhile (\<lambda>c. c \<noteq> 47) path)"

text \<open>
  \<open>walks D n s c path K r\<close>: starting in the directory at cluster \<open>c\<close> the path leads to \<open>r\<close>,
  through directories that occupy the clusters \<open>K\<close>.
\<close>

inductive walks :: "image \<Rightarrow> u64 \<Rightarrow> 's fat \<Rightarrow> u32 \<Rightarrow> u8 list \<Rightarrow> u32 set \<Rightarrow> DirEntry option \<Rightarrow> bool"
  for D n s where
  missing: "path \<noteq> [] \<Longrightarrow> fat_chain D s c cs \<Longrightarrow> on_disk n s cs \<Longrightarrow>
    lookup (component path) (dir_entries D s cs) = None \<Longrightarrow> walks D n s c path (set cs) None"
| final: "path \<noteq> [] \<Longrightarrow> fat_chain D s c cs \<Longrightarrow> on_disk n s cs \<Longrightarrow>
    lookup (component path) (dir_entries D s cs) = Some e \<Longrightarrow> remainder path = [] \<Longrightarrow>
    walks D n s c path (set cs) (Some e)"
| not_dir: "path \<noteq> [] \<Longrightarrow> fat_chain D s c cs \<Longrightarrow> on_disk n s cs \<Longrightarrow>
    lookup (component path) (dir_entries D s cs) = Some e \<Longrightarrow> remainder path \<noteq> [] \<Longrightarrow>
    \<not> is_directory e \<Longrightarrow> walks D n s c path (set cs) None"
| down: "path \<noteq> [] \<Longrightarrow> fat_chain D s c cs \<Longrightarrow> on_disk n s cs \<Longrightarrow>
    lookup (component path) (dir_entries D s cs) = Some e \<Longrightarrow> remainder path \<noteq> [] \<Longrightarrow>
    is_directory e \<Longrightarrow> walks D n s (first_cluster_of e) (remainder path) K r \<Longrightarrow>
    walks D n s c path (set cs \<union> K) r"

definition chain_bytes :: "image \<Rightarrow> 's fat \<Rightarrow> u32 list \<Rightarrow> u8 list" where
  "chain_bytes D s cs = concat (map D (concat (map (sectors_of s) cs)))"

definition relative :: "u8 list \<Rightarrow> u8 list" where
  "relative path = (if path \<noteq> [] \<and> hd path = 47 then tl path else path)"

text \<open>Everything above depends on the geometry of the volume only.\<close>

definition same_volume :: "'s fat \<Rightarrow> 's fat \<Rightarrow> bool" where
  "same_volume s t \<longleftrightarrow> t\<lparr>machine := machine s, sector_buf := sector_buf s\<rparr> = s"

lemma same_volumeI: "same_volume s (s\<lparr>machine := m, sector_buf := b\<rparr>)"
  by (simp add: same_volume_def)

lemma same_volume_refl [simp]: "same_volume s s"
  by (simp add: same_volume_def)

lemma same_volume_shape: "same_volume s t \<Longrightarrow> t = s\<lparr>machine := machine t, sector_buf := sector_buf t\<rparr>"
proof -
  assume "same_volume s t"
  then have "s\<lparr>machine := machine t, sector_buf := sector_buf t\<rparr> =
      t\<lparr>machine := machine s, sector_buf := sector_buf s\<rparr>\<lparr>machine := machine t, sector_buf := sector_buf t\<rparr>"
    by (simp add: same_volume_def)
  then show ?thesis by simp
qed

lemma same_volume_trans: "same_volume s t \<Longrightarrow> same_volume t u \<Longrightarrow> same_volume s u"
proof -
  assume "same_volume s t" "same_volume t u"
  then obtain m b m' b' where "t = s\<lparr>machine := m, sector_buf := b\<rparr>" "u = t\<lparr>machine := m', sector_buf := b'\<rparr>"
    using same_volume_shape [of s t] same_volume_shape [of t u] by blast
  then show ?thesis by (simp add: same_volume_def)
qed

lemma same_volume_fields:
  assumes "same_volume s t"
  shows "mounted t = mounted s" "sectors_per_cluster t = sectors_per_cluster s" "root_cluster t = root_cluster s"
    "bytes_per_sector t = bytes_per_sector s" "num_fats t = num_fats s" "total_clusters t = total_clusters s"
    "fat_size_sectors t = fat_size_sectors s"
    "cluster_to_sector t = cluster_to_sector s" "fat_sector t = fat_sector s" "entry_offset t = entry_offset s"
    "sectors_of t = sectors_of s" "fat_next D t = fat_next D s" "on_disk n t = on_disk n s"
    "dir_entries D t = dir_entries D s" "root_entry t = root_entry s" "entries_per_sector t = entries_per_sector s"
    "chain_bytes D t = chain_bytes D s"
proof -
  obtain m b where t: "t = s\<lparr>machine := m, sector_buf := b\<rparr>"
    using same_volume_shape [OF assms] by blast
  show "mounted t = mounted s" "sectors_per_cluster t = sectors_per_cluster s" "root_cluster t = root_cluster s"
    "bytes_per_sector t = bytes_per_sector s" "num_fats t = num_fats s" "total_clusters t = total_clusters s"
    "fat_size_sectors t = fat_size_sectors s" "root_entry t = root_entry s"
    "entries_per_sector t = entries_per_sector s"
    by (simp_all add: t root_entry_def entries_per_sector_def)
  show c: "cluster_to_sector t = cluster_to_sector s" and f: "fat_sector t = fat_sector s"
    and e: "entry_offset t = entry_offset s"
    by (simp_all add: t cluster_to_sector_def fat_sector_def entry_offset_def fun_eq_iff)
  show o: "sectors_of t = sectors_of s"
    unfolding sectors_of_def fun_eq_iff c by (simp add: t)
  show "fat_next D t = fat_next D s" by (simp add: fat_next_def fun_eq_iff f e)
  show "on_disk n t = on_disk n s" by (simp add: on_disk_def fun_eq_iff f o)
  show "dir_entries D t = dir_entries D s" "chain_bytes D t = chain_bytes D s"
    by (simp_all add: dir_entries_def chain_bytes_def fun_eq_iff o)
qed

lemma fat_chain_volume: "same_volume s t \<Longrightarrow> fat_chain D t c cs = fat_chain D s c cs"
  by (induction cs arbitrary: c) (simp_all add: same_volume_fields)

section \<open>Reading against the interface\<close>

definition fat_ok :: "('s \<Rightarrow> bool) \<Rightarrow> 's fat \<Rightarrow> bool" where
  "fat_ok ok s \<longleftrightarrow> ok (machine s) \<and> length (sector_buf s) = 512 \<and> bytes_per_sector s = 512"

text \<open>\<open>quiet disk cap ok s t\<close>: from \<open>s\<close> to \<open>t\<close> only reads happened.\<close>

definition quiet :: "('s \<Rightarrow> image) \<Rightarrow> ('s \<Rightarrow> u64) \<Rightarrow> ('s \<Rightarrow> bool) \<Rightarrow> 's fat \<Rightarrow> 's fat \<Rightarrow> bool" where
  "quiet disk cap ok s t \<longleftrightarrow> same_volume s t \<and> fat_ok ok t \<and>
     disk (machine t) = disk (machine s) \<and> cap (machine t) = cap (machine s)"

lemma quiet_refl: "fat_ok ok s \<Longrightarrow> quiet disk cap ok s s"
  by (simp add: quiet_def)

lemma quiet_trans: "quiet disk cap ok s t \<Longrightarrow> quiet disk cap ok t u \<Longrightarrow> quiet disk cap ok s u"
  unfolding quiet_def by (auto intro: same_volume_trans)

lemma quiet_fields:
  assumes "quiet disk cap ok s t"
  shows "fat_ok ok t" "same_volume s t" "disk (machine t) = disk (machine s)" "cap (machine t) = cap (machine s)"
  using assms by (simp_all add: quiet_def)

lemma entries_16: "fat_ok ok s \<Longrightarrow> entries_per_sector s = 16"
  by (simp add: fat_ok_def entries_per_sector_def DIRENT_def unat_div)


text \<open>A scan of a sector followed by whatever follows is the lookup in the joint list.\<close>

definition resume :: "scan \<Rightarrow> DirEntry option \<Rightarrow> DirEntry option" where
  "resume r k = (case r of Next \<Rightarrow> k | Stop \<Rightarrow> None | Hit e \<Rightarrow> Some e)"

lemma lookup_append: "lookup nm (map (entry_at b) es @ rest) = resume (scan_entries nm b es) (lookup nm rest)"
  by (induction es) (simp_all add: resume_def)

context block_device
begin

lemma read_buf_in:
  assumes "fat_ok inv s" "ucast x < cap (machine s)"
  shows "\<exists>t. read_buf rd x s = Some (t, True) \<and> quiet disk cap inv s t \<and> sector_buf t = disk (machine s) (ucast x)"
proof -
  have "inv (machine s)" "length (sector_buf s) = 512" using assms by (simp_all add: fat_ok_def)
  from rd_in [OF this(1) assms(2) this(2)] obtain m where
    m: "rd (ucast x) (sector_buf s) (machine s) = Some (m, disk (machine s) (ucast x), True)"
       "inv m" "disk m = disk (machine s)" "cap m = cap (machine s)"
    by blast
  have "length (disk (machine s) (ucast x)) = 512" using assms disk_length by (simp add: fat_ok_def)
  with m assms show ?thesis
    by (auto simp: read_buf_def quiet_def fat_ok_def same_volumeI)
qed

lemma next_cluster_in:
  assumes "fat_ok inv s" "ucast (fat_sector s c) < cap (machine s)"
  shows "\<exists>t. next_cluster rd c s = Some (t, fat_next (disk (machine s)) s c) \<and> quiet disk cap inv s t"
proof -
  obtain t where t: "read_buf rd (fat_sector s c) s = Some (t, True)" "quiet disk cap inv s t"
      "sector_buf t = disk (machine s) (ucast (fat_sector s c))"
    using read_buf_in [OF assms] by blast
  then show ?thesis
    by (simp add: next_cluster_def fat_next_def same_volume_fields [OF quiet_fields(2)])
qed

lemma scan_sectors_correct:
  assumes "fat_ok inv s" "\<forall>i \<in> set is. ucast (sec + of_nat i :: u32) < cap (machine s)"
  shows "\<exists>t r. scan_sectors rd nm sec is s = Some (t, r) \<and> quiet disk cap inv s t \<and>
    (\<forall>rest. lookup nm (concat (map (\<lambda>i. sector_entries (disk (machine s) (ucast (sec + of_nat i)))) is) @ rest)
       = resume r (lookup nm rest))"
  using assms
proof (induction "is" arbitrary: s)
  case Nil
  then show ?case by (simp add: quiet_refl resume_def)
next
  case (Cons i "is")
  obtain t where t: "read_buf rd (sec + of_nat i) s = Some (t, True)" "quiet disk cap inv s t"
      "sector_buf t = disk (machine s) (ucast (sec + of_nat i))"
    using read_buf_in [of s "sec + of_nat i"] Cons.prems by auto
  note tf = quiet_fields [OF t(2)]
  have pre: "\<forall>i \<in> set is. ucast (sec + of_nat i :: u32) < cap (machine t)" using Cons.prems tf by simp
  obtain u r where u: "scan_sectors rd nm sec is t = Some (u, r)" "quiet disk cap inv t u"
    "\<forall>rest. lookup nm (concat (map (\<lambda>i. sector_entries (disk (machine t) (ucast (sec + of_nat i)))) is) @ rest)
       = resume r (lookup nm rest)"
    using Cons.IH [OF tf(1) pre] by blast
  have look: "lookup nm (sector_entries (disk (machine s) (ucast (sec + of_nat i))) @ rest) =
      resume (scan_entries nm (sector_buf t) [0..<16]) (lookup nm rest)" for rest
    by (simp only: sector_entries_def lookup_append t(3))
  show ?case
  proof (cases "scan_entries nm (sector_buf t) [0..<16]")
    case Next
    then show ?thesis
      using t u tf look by (auto simp: entries_16 resume_def intro: quiet_trans)
  qed (use t tf look in \<open>auto simp: entries_16 resume_def\<close>)
qed

lemma find_in_dir_correct:
  assumes "fat_ok inv s" "fat_chain (disk (machine s)) s c cs" "on_disk (cap (machine s)) s cs"
  shows "\<exists>t. find_in_dir rd c nm s = Some (t, lookup nm (dir_entries (disk (machine s)) s cs)) \<and>
    quiet disk cap inv s t"
  using assms
proof (induction cs arbitrary: c s)
  case Nil
  then show ?case by (subst find_in_dir.simps) (simp add: dir_entries_def quiet_refl)
next
  case (Cons x cs)
  let ?D = "disk (machine s)" and ?is = "[0..<unat (sectors_per_cluster s)]"
  have c: "x = c" "\<not> is_end_cluster c" "fat_chain ?D s (fat_next ?D s c) cs" using Cons.prems by auto
  have "\<forall>i \<in> set ?is. ucast (cluster_to_sector s c + of_nat i :: u32) < cap (machine s)"
    using Cons.prems(3) by (auto simp: on_disk_def sectors_of_def c)
  from scan_sectors_correct [OF Cons.prems(1) this, of nm] obtain t r where
    t: "scan_sectors rd nm (cluster_to_sector s c) ?is s = Some (t, r)" "quiet disk cap inv s t"
    and look: "\<forall>rest. lookup nm (concat (map (\<lambda>i. sector_entries (?D (ucast (cluster_to_sector s c + of_nat i)))) ?is) @ rest)
       = resume r (lookup nm rest)"
    by blast
  note tf = quiet_fields [OF t(2)] same_volume_fields [OF quiet_fields(2) [OF t(2)]]
  have "dir_entries ?D s (x # cs) =
      concat (map (\<lambda>i. sector_entries (?D (ucast (cluster_to_sector s c + of_nat i)))) ?is) @ dir_entries ?D s cs"
    by (simp add: dir_entries_def sectors_of_def c comp_def)
  then have res: "lookup nm (dir_entries ?D s (x # cs)) = resume r (lookup nm (dir_entries ?D s cs))"
    using look by simp
  obtain u where u: "next_cluster rd c t = Some (u, fat_next ?D s c)" "quiet disk cap inv t u"
    using next_cluster_in [OF tf(1), of c] Cons.prems(3) tf by (auto simp: on_disk_def c)
  note uf = quiet_fields [OF u(2)] same_volume_fields [OF quiet_fields(2) [OF u(2)]]
  have su: "quiet disk cap inv s u" using t(2) u(2) by (rule quiet_trans)
  obtain v where v: "find_in_dir rd (fat_next ?D s c) nm u = Some (v, lookup nm (dir_entries ?D s cs))"
      "quiet disk cap inv u v"
    using Cons.IH [of u "fat_next ?D s c"] Cons.prems(3) c(3) uf tf fat_chain_volume [OF quiet_fields(2) [OF su]]
    by (auto simp: on_disk_def)
  show ?case
  proof (cases r)
    case Next
    then show ?thesis
      using c t u v su res by (subst find_in_dir.simps) (auto simp: resume_def intro: quiet_trans)
  qed (use c t res in \<open>subst find_in_dir.simps, auto simp: resume_def\<close>)+
qed

end

section \<open>Paths, files and listings\<close>

declare resolve_from.simps [simp del]

lemma resolve_from_step:
  "path \<noteq> [] \<Longrightarrow> resolve_from rd c path res s =
     Option.bind (find_in_dir rd c (component path) s)
       (\<lambda>(s, r). case r of
            None \<Rightarrow> Some (s, None)
          | Some e \<Rightarrow>
              if remainder path = [] then Some (s, Some e)
              else if \<not> is_directory e then Some (s, None)
              else resolve_from rd (first_cluster_of e) (remainder path) e s)"
  unfolding component_def remainder_def by (subst resolve_from.simps) (simp add: Let_def)

definition visible :: "DirEntry list \<Rightarrow> Fat32DirEntry list" where
  "visible es = map to_listing (filter (\<lambda>e. \<not> skipped e) (takeWhile (\<lambda>e. de_name e ! 0 \<noteq> 0) es))"

definition ends :: "DirEntry list \<Rightarrow> bool" where
  "ends es \<longleftrightarrow> (\<exists>e \<in> set es. de_name e ! 0 = 0)"

lemma visible_append: "visible (xs @ ys) = visible xs @ (if ends xs then [] else visible ys)"
  by (induction xs) (auto simp: visible_def ends_def)

lemma list_entries_spec:
  assumes "list_entries b mx es out = (fl, out')" "length out \<le> mx"
  shows "out' = take mx (out @ visible (map (entry_at b) es)) \<and> length out' \<le> mx \<and>
    (if fl then ends (map (entry_at b) es) else ends (map (entry_at b) es) \<longrightarrow> length out' = mx)"
  using assms
proof (induction es arbitrary: out)
  case Nil
  then show ?case by (auto simp: visible_def ends_def)
next
  case (Cons e es)
  let ?x = "entry_at b e" and ?V = "visible (map (entry_at b) es)"
  consider "length out = mx" | "length out < mx" "de_name ?x ! 0 = 0"
    | "length out < mx" "de_name ?x ! 0 \<noteq> 0" "skipped ?x" | "length out < mx" "de_name ?x ! 0 \<noteq> 0" "\<not> skipped ?x"
    using Cons.prems(2) by linarith
  then show ?case
  proof cases
    case 1
    then show ?thesis using Cons.prems by auto
  next
    case 2
    then show ?thesis using Cons.prems by (auto simp: visible_def ends_def)
  next
    case 3
    then show ?thesis using Cons.prems Cons.IH [of out] by (auto simp: visible_def ends_def)
  next
    case 4
    then show ?thesis using Cons.prems Cons.IH [of "out @ [to_listing ?x]"] by (auto simp: visible_def ends_def)
  qed
qed

context block_device
begin

lemma resolve_from_correct:
  assumes "walks D n s c path K r" "fat_ok inv u" "same_volume s u" "disk (machine u) = D" "cap (machine u) = n"
  shows "\<exists>t. resolve_from rd c path res u = Some (t, r) \<and> quiet disk cap inv u t"
  using assms
proof (induction arbitrary: u res)
  case (missing path c cs)
  then obtain t where "find_in_dir rd c (component path) u = Some (t, None)" "quiet disk cap inv u t"
    using find_in_dir_correct [of u c cs "component path"] fat_chain_volume [of s u]
    by (auto simp: same_volume_fields)
  with missing.hyps show ?case by (simp add: resolve_from_step)
next
  case (final path c cs e)
  then obtain t where "find_in_dir rd c (component path) u = Some (t, Some e)" "quiet disk cap inv u t"
    using find_in_dir_correct [of u c cs "component path"] fat_chain_volume [of s u]
    by (auto simp: same_volume_fields)
  with final.hyps show ?case
    by (simp add: resolve_from_step)
next
  case (not_dir path c cs e)
  then obtain t where "find_in_dir rd c (component path) u = Some (t, Some e)" "quiet disk cap inv u t"
    using find_in_dir_correct [of u c cs "component path"] fat_chain_volume [of s u]
    by (auto simp: same_volume_fields)
  with not_dir.hyps show ?case
    by (simp add: resolve_from_step)
next
  case (down path c cs e K r)
  then obtain t where t: "find_in_dir rd c (component path) u = Some (t, Some e)" "quiet disk cap inv u t"
    using find_in_dir_correct [of u c cs "component path"] fat_chain_volume [of s u]
    by (auto simp: same_volume_fields)
  note tf = quiet_fields [OF t(2)]
  obtain v where v: "resolve_from rd (first_cluster_of e) (remainder path) e t = Some (v, r)"
      "quiet disk cap inv t v"
    using down.IH [of t e] tf down.prems same_volume_trans by (metis (no_types, lifting))
  show ?case
    using t v down.hyps quiet_trans [OF t(2) v(2)]
    by (simp add: resolve_from_step)
qed

lemma resolve_path_correct:
  assumes "fat_ok inv s" "walks (disk (machine s)) (cap (machine s)) s (root_cluster s) (relative path) K r"
  shows "\<exists>t. resolve_path rd path s = Some (t, r) \<and> quiet disk cap inv s t"
  using resolve_from_correct [OF assms(2) assms(1)]
  by (simp add: resolve_path_def relative_def [symmetric])

lemma resolve_root:
  assumes "relative path = []"
  shows "resolve_path rd path s = Some (s, Some (root_entry s))"
  using assms by (simp add: resolve_path_def relative_def [symmetric] resolve_from.simps)

lemma copy_sectors_correct:
  assumes "fat_ok inv s" "\<forall>i \<in> set is. ucast (sec + of_nat i :: u32) < cap (machine s)"
  shows "\<exists>t. copy_sectors rd sec is rem dst s = Some (t, of_nat (unat rem - 512 * length is),
      dst @ take (unat rem) (concat (map (\<lambda>i. disk (machine s) (ucast (sec + of_nat i))) is)), True) \<and>
    quiet disk cap inv s t"
  using assms
proof (induction "is" arbitrary: s rem dst)
  case Nil
  then show ?case by (simp add: quiet_refl)
next
  case (Cons i "is")
  show ?case
  proof (cases "rem = 0")
    case True
    with Cons.prems show ?thesis by (simp add: quiet_refl)
  next
    case False
    let ?b = "disk (machine s) (ucast (sec + of_nat i))"
    obtain t where t: "read_buf rd (sec + of_nat i) s = Some (t, True)" "quiet disk cap inv s t" "sector_buf t = ?b"
      using read_buf_in [of s "sec + of_nat i"] Cons.prems by auto
    note tf = quiet_fields [OF t(2)]
    have len: "length ?b = 512" using Cons.prems disk_length by (simp add: fat_ok_def)
    have bps: "bytes_per_sector t = 512" using tf by (simp add: fat_ok_def)
    define k where "k = (if rem < 512 then rem else 512)"
    have k: "unat k = min (unat rem) 512" by (auto simp: k_def word_less_nat_alt)
    then have sub: "unat (rem - k) = unat rem - 512" by (auto simp: unat_sub_if')
    have pre: "\<forall>i \<in> set is. ucast (sec + of_nat i :: u32) < cap (machine t)" using Cons.prems tf by simp
    obtain u where u: "copy_sectors rd sec is (rem - k) (dst @ take (unat k) ?b) t =
        Some (u, of_nat (unat (rem - k) - 512 * length is), (dst @ take (unat k) ?b) @
          take (unat (rem - k)) (concat (map (\<lambda>i. disk (machine t) (ucast (sec + of_nat i))) is)), True)"
        "quiet disk cap inv t u"
      using Cons.IH [OF tf(1) pre, of "rem - k" "dst @ take (unat k) ?b"] by blast
    have "0 < rem" using False by (simp add: word_neq_0_conv)
    then have "copy_sectors rd sec (i # is) rem dst s = copy_sectors rd sec is (rem - k) (dst @ take (unat k) ?b) t"
      using t bps by (simp add: k_def Let_def)
    moreover have "take (unat k) ?b = take (unat rem) ?b" using k len by (simp add: min_def)
    ultimately show ?thesis
      using u tf(3) sub len quiet_trans [OF t(2) u(2)] by simp
  qed
qed

lemma length_sectors: "fat_ok inv s \<Longrightarrow> length (concat (map (disk (machine s)) xs)) = 512 * length xs"
  using disk_length by (induction xs) (simp_all add: fat_ok_def)

lemma copy_clusters_correct:
  assumes "fat_ok inv s" "fat_chain (disk (machine s)) s c cs" "on_disk (cap (machine s)) s cs"
  shows "\<exists>t. copy_clusters rd c rem dst s = Some (t, dst @ take (unat rem) (chain_bytes (disk (machine s)) s cs), True) \<and>
    quiet disk cap inv s t"
  using assms
proof (induction cs arbitrary: c s rem dst)
  case Nil
  then show ?case by (subst copy_clusters.simps) (simp add: chain_bytes_def quiet_refl)
next
  case (Cons x cs)
  let ?D = "disk (machine s)" and ?is = "[0..<unat (sectors_per_cluster s)]"
  have c: "x = c" "\<not> is_end_cluster c" "fat_chain ?D s (fat_next ?D s c) cs" using Cons.prems by auto
  show ?case
  proof (cases "rem = 0")
    case True
    then show ?thesis using Cons.prems by (subst copy_clusters.simps) (simp add: quiet_refl)
  next
    case False
    define xs where "xs = concat (map (\<lambda>i. ?D (ucast (cluster_to_sector s c + of_nat i))) ?is)"
    have xs: "xs = concat (map ?D (sectors_of s c))" by (simp add: xs_def sectors_of_def comp_def)
    have "\<forall>i \<in> set ?is. ucast (cluster_to_sector s c + of_nat i :: u32) < cap (machine s)"
      using Cons.prems(3) by (auto simp: on_disk_def sectors_of_def c)
    from copy_sectors_correct [OF Cons.prems(1) this, of rem dst] obtain t where
      t: "copy_sectors rd (cluster_to_sector s c) ?is rem dst s =
          Some (t, of_nat (unat rem - length xs), dst @ take (unat rem) xs, True)" "quiet disk cap inv s t"
      using length_sectors [OF Cons.prems(1), of "sectors_of s c"] xs
      by (auto simp: xs_def [symmetric] sectors_of_def)
    note tf = quiet_fields [OF t(2)] same_volume_fields [OF quiet_fields(2) [OF t(2)]]
    obtain u where u: "next_cluster rd c t = Some (u, fat_next ?D s c)" "quiet disk cap inv t u"
      using next_cluster_in [OF tf(1), of c] Cons.prems(3) tf by (auto simp: on_disk_def c)
    have su: "quiet disk cap inv s u" using t(2) u(2) by (rule quiet_trans)
    note uf = quiet_fields [OF su] same_volume_fields [OF quiet_fields(2) [OF su]]
    let ?r = "of_nat (unat rem - length xs) :: u32"
    have r: "unat ?r = unat rem - length xs"
      using unsigned_less [of rem] by (simp add: unat_of_nat less_imp_diff_less)
    obtain v where v: "copy_clusters rd (fat_next ?D s c) ?r (dst @ take (unat rem) xs) u =
        Some (v, (dst @ take (unat rem) xs) @ take (unat ?r) (chain_bytes ?D s cs), True)" "quiet disk cap inv u v"
      using Cons.IH [of u "fat_next ?D s c" ?r "dst @ take (unat rem) xs"] Cons.prems(3) c(3) uf
        fat_chain_volume [OF quiet_fields(2) [OF su]] by (auto simp: on_disk_def)
    have "chain_bytes ?D s (x # cs) = xs @ chain_bytes ?D s cs" by (simp add: chain_bytes_def xs c)
    then have "dst @ take (unat rem) (chain_bytes ?D s (x # cs)) =
        (dst @ take (unat rem) xs) @ take (unat ?r) (chain_bytes ?D s cs)" by (simp add: r)
    moreover have "0 < rem" using False by (simp add: word_neq_0_conv)
    ultimately show ?thesis
      using c t u v quiet_trans [OF su v(2)] by (subst copy_clusters.simps) simp
  qed
qed

end

context block_device
begin

text \<open>
  Listing a run of entries \<open>A\<close> from \<open>out\<close>: the outcome \<open>r\<close> is the end mark (True) or that the
  run is over (None), and a list that is not full has missed nothing.
\<close>

definition listed :: "nat \<Rightarrow> DirEntry list \<Rightarrow> Fat32DirEntry list \<Rightarrow> bool option \<Rightarrow> Fat32DirEntry list \<Rightarrow> bool" where
  "listed mx A out r out' \<longleftrightarrow> out' = take mx (out @ visible A) \<and> length out' \<le> mx \<and>
     (r = Some True \<and> ends A \<or> r = None \<and> (ends A \<longrightarrow> length out' = mx))"

lemma listed_more:
  assumes "listed mx A out None out'"
  shows "take mx (out' @ visible B) = take mx (out @ visible (A @ B))"
proof (cases "length out' = mx")
  case True
  then have "take mx ((out @ visible A) @ ys) = out'" for ys
    using assms by (subst take_append) (auto simp: listed_def min_def split: if_splits)
  moreover have "take mx (out' @ visible B) = out'" using True by simp
  ultimately show ?thesis by (simp add: visible_append)
next
  case False
  then have "\<not> ends A" "out' = out @ visible A" using assms by (auto simp: listed_def)
  then show ?thesis by (simp add: visible_append)
qed

lemma listed_append:
  assumes "listed mx A out None out'" "listed mx B out' r out''"
  shows "listed mx (A @ B) out r out''"
proof -
  have "out'' = take mx (out @ visible (A @ B))"
    using listed_more [OF assms(1)] assms(2) by (simp add: listed_def)
  moreover have "ends A \<Longrightarrow> length out' = mx" using assms(1) unfolding listed_def by blast
  moreover have "length out' = mx \<Longrightarrow> length out'' = mx" using assms(2) by (auto simp: listed_def)
  moreover have "length out'' \<le> mx" "r = Some True \<and> ends B \<or> r = None \<and> (ends B \<longrightarrow> length out'' = mx)"
    using assms(2) unfolding listed_def by blast+
  moreover have "ends (A @ B) \<longleftrightarrow> ends A \<or> ends B" by (auto simp: ends_def)
  ultimately show ?thesis unfolding listed_def by blast
qed

lemma listed_stop:
  assumes "listed mx A out (Some True) out'"
  shows "listed mx (A @ B) out (Some True) out'"
  using assms by (auto simp: listed_def visible_append ends_def)

lemma list_sectors_correct:
  assumes "fat_ok inv s" "\<forall>i \<in> set is. ucast (sec + of_nat i :: u32) < cap (machine s)" "length out \<le> mx"
  shows "\<exists>t r out'. list_sectors rd mx sec is out s = Some (t, r, out') \<and> quiet disk cap inv s t \<and>
    listed mx (concat (map (\<lambda>i. sector_entries (disk (machine s) (ucast (sec + of_nat i)))) is)) out r out'"
  using assms
proof (induction "is" arbitrary: s out)
  case Nil
  then show ?case by (simp add: quiet_refl listed_def visible_def ends_def)
next
  case (Cons i "is")
  let ?A = "sector_entries (disk (machine s) (ucast (sec + of_nat i)))"
  let ?B = "concat (map (\<lambda>i. sector_entries (disk (machine s) (ucast (sec + of_nat i)))) is)"
  show ?case
  proof (cases "length out < mx")
    case False
    with Cons.prems show ?thesis by (auto simp: quiet_refl listed_def)
  next
    case True
    obtain t where t: "read_buf rd (sec + of_nat i) s = Some (t, True)" "quiet disk cap inv s t"
        "sector_buf t = disk (machine s) (ucast (sec + of_nat i))"
      using read_buf_in [of s "sec + of_nat i"] Cons.prems by auto
    note tf = quiet_fields [OF t(2)]
    obtain fl out1 where le: "list_entries (sector_buf t) mx [0..<16] out = (fl, out1)" by fastforce
    have ls: "listed mx ?A out (if fl then Some True else None) out1"
      using list_entries_spec [OF le] Cons.prems(3) t(3) by (auto simp: listed_def sector_entries_def)
    show ?thesis
    proof (cases fl)
      case True
      with \<open>length out < mx\<close> t le ls tf show ?thesis by (auto simp: entries_16 intro!: listed_stop)
    next
      case False
      have "\<forall>i \<in> set is. ucast (sec + of_nat i :: u32) < cap (machine t)" "length out1 \<le> mx"
        using Cons.prems tf ls by (auto simp: listed_def)
      from Cons.IH [OF tf(1) this] obtain u r out' where
        u: "list_sectors rd mx sec is out1 t = Some (u, r, out')" "quiet disk cap inv t u" "listed mx ?B out1 r out'"
        by (auto simp: tf)
      with False \<open>length out < mx\<close> t le ls tf show ?thesis
        by (auto simp: entries_16 intro!: listed_append quiet_trans [OF t(2)])
    qed
  qed
qed

lemma list_clusters_correct:
  assumes "fat_ok inv s" "fat_chain (disk (machine s)) s c cs" "on_disk (cap (machine s)) s cs" "length out \<le> mx"
  shows "\<exists>t. list_clusters rd mx c out s =
      Some (t, True, take mx (out @ visible (dir_entries (disk (machine s)) s cs))) \<and> quiet disk cap inv s t"
  using assms
proof (induction cs arbitrary: c s out)
  case Nil
  then show ?case by (subst list_clusters.simps) (simp add: dir_entries_def visible_def quiet_refl)
next
  case (Cons x cs)
  let ?D = "disk (machine s)" and ?is = "[0..<unat (sectors_per_cluster s)]"
  have c: "x = c" "\<not> is_end_cluster c" "fat_chain ?D s (fat_next ?D s c) cs" using Cons.prems by auto
  show ?case
  proof (cases "length out < mx")
    case False
    then show ?thesis using Cons.prems by (subst list_clusters.simps) (simp add: quiet_refl)
  next
    case True
    let ?A = "concat (map (\<lambda>i. sector_entries (?D (ucast (cluster_to_sector s c + of_nat i)))) ?is)"
    have "\<forall>i \<in> set ?is. ucast (cluster_to_sector s c + of_nat i :: u32) < cap (machine s)"
      using Cons.prems(3) by (auto simp: on_disk_def sectors_of_def c)
    from list_sectors_correct [OF Cons.prems(1) this Cons.prems(4)] obtain t r out1 where
      t: "list_sectors rd mx (cluster_to_sector s c) ?is out s = Some (t, r, out1)" "quiet disk cap inv s t"
      and ls: "listed mx ?A out r out1"
      by blast
    note tf = quiet_fields [OF t(2)] same_volume_fields [OF quiet_fields(2) [OF t(2)]]
    have de: "dir_entries ?D s (x # cs) = ?A @ dir_entries ?D s cs"
      by (simp add: dir_entries_def sectors_of_def c comp_def)
    show ?thesis
    proof (cases r)
      case (Some ok)
      with ls have "ok" "out1 = take mx (out @ visible (dir_entries ?D s (x # cs)))"
        by (auto simp: listed_def de visible_append)
      with Some True c t show ?thesis by (subst list_clusters.simps) auto
    next
      case None
      obtain u where u: "next_cluster rd c t = Some (u, fat_next ?D s c)" "quiet disk cap inv t u"
        using next_cluster_in [OF tf(1), of c] Cons.prems(3) tf by (auto simp: on_disk_def c)
      have su: "quiet disk cap inv s u" using t(2) u(2) by (rule quiet_trans)
      note uf = quiet_fields [OF su] same_volume_fields [OF quiet_fields(2) [OF su]]
      have l1: "length out1 \<le> mx" using ls by (simp add: listed_def)
      obtain v where v: "list_clusters rd mx (fat_next ?D s c) out1 u =
          Some (v, True, take mx (out1 @ visible (dir_entries ?D s cs)))" "quiet disk cap inv u v"
        using Cons.IH [of u "fat_next ?D s c" out1] Cons.prems(3) c(3) uf l1
          fat_chain_volume [OF quiet_fields(2) [OF su]] by (auto simp: on_disk_def)
      have "take mx (out1 @ visible (dir_entries ?D s cs)) = take mx (out @ visible (dir_entries ?D s (x # cs)))"
        using listed_more [of mx ?A out out1] ls None by (simp add: de)
      with None True c t u v quiet_trans [OF su v(2)] show ?thesis by (subst list_clusters.simps) auto
    qed
  qed
qed

end

end
