(* ===== verification/Fat32_Write.thy ===== *)
theory Fat32_Write
  imports Fat32_Read
begin

text \<open>
  Writing a FAT32 volume: where the sectors of the tables and of the clusters lie on a
  well-formed volume, what \<open>set_fat_entry\<close>, \<open>alloc_cluster\<close>, \<open>write_file\<close>, \<open>create_file\<close> and
  \<open>delete_file\<close> do to the disk, and the two conversions of names.
\<close>

section \<open>Well-formed volumes\<close>

text \<open>
  \<open>vol_ok n s\<close>: the mounted geometry describes a volume that fits a device of \<open>n\<close> sectors:
  sectors of 512 bytes, the tables directly before the data, room for an entry per cluster
  in each table, and cluster numbers below the reserved values.
\<close>

definition vol_ok :: "u64 \<Rightarrow> 's fat \<Rightarrow> bool" where
  "vol_ok n s \<longleftrightarrow>
     bytes_per_sector s = 512 \<and> 0 < unat (sectors_per_cluster s) \<and> 0 < unat (num_fats s) \<and>
     unat (data_start_sector s) = unat (fat_start_sector s) + unat (num_fats s) * unat (fat_size_sectors s) \<and>
     unat (data_start_sector s) + unat (total_clusters s) * unat (sectors_per_cluster s) \<le> unat n \<and>
     unat (data_start_sector s) + unat (total_clusters s) * unat (sectors_per_cluster s) < 2 ^ 32 \<and>
     unat (total_clusters s) + 2 \<le> 128 * unat (fat_size_sectors s) \<and>
     unat (total_clusters s) + 2 \<le> 0x0FFFFFF8"

definition cluster_ok :: "'s fat \<Rightarrow> u32 \<Rightarrow> bool" where
  "cluster_ok s c \<longleftrightarrow> 2 \<le> unat c \<and> unat c < unat (total_clusters s) + 2"

definition fat_copy :: "'s fat \<Rightarrow> nat \<Rightarrow> u32 \<Rightarrow> u64" where
  "fat_copy s f c = ucast (fat_sector s c + of_nat f * fat_size_sectors s)"

lemma unat_add32: "unat a + unat b < 2 ^ 32 \<Longrightarrow> unat (a + b) = unat a + unat b" for a b :: u32
  by (simp add: unat_plus_if')

lemma unat_mult32: "unat a * unat b < 2 ^ 32 \<Longrightarrow> unat (a * b) = unat a * unat b" for a b :: u32
  by (simp add: unat_mult_lem [THEN iffD1])

lemma unat_of_nat32: "i < 2 ^ 32 \<Longrightarrow> unat (of_nat i :: u32) = i"
  by (simp add: unat_of_nat)

lemma cluster_bounds:
  assumes "vol_ok n s" "cluster_ok s c"
  shows "unat c < 0x0FFFFFF8" "unat (c * 4) = unat c * 4" "unat c div 128 < unat (fat_size_sectors s)"
    "\<not> is_end_cluster c"
proof -
  show lt: "unat c < 0x0FFFFFF8" using assms by (simp add: vol_ok_def cluster_ok_def)
  then show "unat (c * 4) = unat c * 4" by (subst unat_mult32) simp_all
  have "unat c < 128 * unat (fat_size_sectors s)" using assms unfolding vol_ok_def cluster_ok_def by linarith
  then show "unat c div 128 < unat (fat_size_sectors s)" by (simp add: less_mult_imp_div_less mult.commute)
  show "\<not> is_end_cluster c" using lt by (simp add: is_end_cluster_def word_le_nat_alt)
qed

lemma entry_offset_ok:
  assumes "vol_ok n s" "cluster_ok s c"
  shows "entry_offset s c = 4 * (unat c mod 128)"
proof -
  have "entry_offset s c = unat c * 4 mod 512"
    using assms cluster_bounds(2) [OF assms] by (simp add: entry_offset_def vol_ok_def unat_mod)
  also have "\<dots> = (4 * unat c) mod (4 * 128)" by (simp add: mult.commute)
  also have "\<dots> = 4 * (unat c mod 128)" by (simp only: mult_mod_right)
  finally show ?thesis .
qed

lemma fat_sector_ok:
  assumes "vol_ok n s" "cluster_ok s c"
  shows "unat (fat_sector s c) = unat (fat_start_sector s) + unat c div 128"
proof -
  have d: "unat ((c * 4) div bytes_per_sector s) = unat c div 128"
    using assms cluster_bounds(2) [OF assms] by (simp add: vol_ok_def unat_div)
  have "unat (fat_start_sector s) + unat c div 128 < 2 ^ 32"
  proof -
    have "unat (fat_size_sectors s) \<le> unat (num_fats s) * unat (fat_size_sectors s)"
      using assms(1) by (simp add: vol_ok_def)
    then show ?thesis
      using cluster_bounds(3) [OF assms] assms(1) unfolding vol_ok_def by linarith
  qed
  then show ?thesis unfolding fat_sector_def by (subst unat_add32) (simp_all add: d)
qed

lemma fat_copy_ok:
  assumes v: "vol_ok n s" and c: "cluster_ok s c" and f: "f < unat (num_fats s)"
  shows "unat (fat_copy s f c) = unat (fat_start_sector s) + unat c div 128 + f * unat (fat_size_sectors s)"
    and "unat (fat_copy s f c) < unat (data_start_sector s)" "fat_copy s f c < n"
proof -
  have "Suc f * unat (fat_size_sectors s) \<le> unat (num_fats s) * unat (fat_size_sectors s)"
    using f by (intro mult_right_mono) simp_all
  then have m: "f * unat (fat_size_sectors s) + unat (fat_size_sectors s) \<le> unat (num_fats s) * unat (fat_size_sectors s)"
    by simp
  have ds: "unat (data_start_sector s) = unat (fat_start_sector s) + unat (num_fats s) * unat (fat_size_sectors s)"
    "unat (data_start_sector s) < 2 ^ 32" "unat (data_start_sector s) \<le> unat n"
    using v unfolding vol_ok_def by linarith+
  have "f < 4294967296" using f unat_lt_u32 [of "num_fats s"] by (rule less_trans)
  then have "f < 2 ^ 32" by simp
  then have uf: "unat (of_nat f :: u32) = f" by (rule unat_of_nat32)
  have "f * unat (fat_size_sectors s) < 2 ^ 32" using m ds by linarith
  then have mf: "unat (of_nat f * fat_size_sectors s :: u32) = f * unat (fat_size_sectors s)"
    using uf by (subst unat_mult32) simp_all
  have lt: "unat (fat_start_sector s) + unat c div 128 + f * unat (fat_size_sectors s) < unat (data_start_sector s)"
    using m ds cluster_bounds(3) [OF v c] by linarith
  then have "unat (fat_sector s c + of_nat f * fat_size_sectors s)
      = unat (fat_start_sector s) + unat c div 128 + f * unat (fat_size_sectors s)"
    using ds mf fat_sector_ok [OF v c] by (subst unat_add32) simp_all
  then show u: "unat (fat_copy s f c) = unat (fat_start_sector s) + unat c div 128 + f * unat (fat_size_sectors s)"
    by (simp add: fat_copy_def unat_ucast_up)
  then show "unat (fat_copy s f c) < unat (data_start_sector s)" "fat_copy s f c < n"
    using lt ds by (simp_all add: word_less_nat_alt)
qed

lemma sector_ok:
  assumes v: "vol_ok n s" and c: "cluster_ok s c" and i: "i < unat (sectors_per_cluster s)"
  shows "unat (cluster_to_sector s c + of_nat i) =
      unat (data_start_sector s) + (unat c - 2) * unat (sectors_per_cluster s) + i"
    and "ucast (cluster_to_sector s c + of_nat i :: u32) < n"
proof -
  let ?p = "unat (sectors_per_cluster s)"
  have two: "unat (c - 2) = unat c - 2" using c by (simp add: cluster_ok_def unat_sub_if')
  have "Suc (unat c - 2) * ?p \<le> unat (total_clusters s) * ?p"
    using c by (intro mult_right_mono) (auto simp: cluster_ok_def)
  then have m: "(unat c - 2) * ?p + ?p \<le> unat (total_clusters s) * ?p" by simp
  have ds: "unat (data_start_sector s) + unat (total_clusters s) * ?p < 2 ^ 32"
    "unat (data_start_sector s) + unat (total_clusters s) * ?p \<le> unat n"
    using v unfolding vol_ok_def by linarith+
  have mu: "unat ((c - 2) * sectors_per_cluster s) = (unat c - 2) * ?p"
    using m ds two by (subst unat_mult32) simp_all
  have cs: "unat (cluster_to_sector s c) = unat (data_start_sector s) + (unat c - 2) * ?p"
    unfolding cluster_to_sector_def using m ds mu by (subst unat_add32) simp_all
  have ui: "unat (of_nat i :: u32) = i" using i m ds by (intro unat_of_nat32) linarith
  show u: "unat (cluster_to_sector s c + of_nat i) = unat (data_start_sector s) + (unat c - 2) * ?p + i"
    using cs ui i m ds by (subst unat_add32) simp_all
  show "ucast (cluster_to_sector s c + of_nat i :: u32) < n"
    using u i m ds by (simp add: word_less_nat_alt unat_ucast_up)
qed

lemma on_disk_ok: "vol_ok n s \<Longrightarrow> \<forall>c \<in> set cs. cluster_ok s c \<Longrightarrow> on_disk n s cs"
proof -
  assume v: "vol_ok n s" and cs: "\<forall>c \<in> set cs. cluster_ok s c"
  have "ucast (fat_sector s c) < n" if "c \<in> set cs" for c
    using fat_copy_ok(3) [OF v, of c 0] cs that v by (simp add: fat_copy_def vol_ok_def)
  moreover have "x < n" if "c \<in> set cs" "x \<in> set (sectors_of s c)" for c x
    using that sector_ok(2) [OF v] cs by (auto simp: sectors_of_def)
  ultimately show ?thesis by (simp add: on_disk_def)
qed

lemma sectors_of_iff:
  assumes "vol_ok n s" "cluster_ok s c"
  shows "x \<in> set (sectors_of s c) \<longleftrightarrow> unat x < 2 ^ 32 \<and>
    unat (data_start_sector s) + (unat c - 2) * unat (sectors_per_cluster s) \<le> unat x \<and>
    unat x < unat (data_start_sector s) + (unat c - 2) * unat (sectors_per_cluster s) + unat (sectors_per_cluster s)"
    (is "_ \<longleftrightarrow> ?R")
proof
  assume "x \<in> set (sectors_of s c)"
  then obtain i where i: "i < unat (sectors_per_cluster s)" "x = ucast (cluster_to_sector s c + of_nat i)"
    by (auto simp: sectors_of_def)
  then show ?R
    using sector_ok(1) [OF assms i(1)] unat_lt_u32 [of "cluster_to_sector s c + of_nat i"]
    by (simp add: unat_ucast_up)
next
  assume R: ?R
  define i where "i = unat x - (unat (data_start_sector s) + (unat c - 2) * unat (sectors_per_cluster s))"
  have i: "i < unat (sectors_per_cluster s)" using R by (auto simp: i_def)
  have "unat (ucast (cluster_to_sector s c + of_nat i :: u32) :: u64) = unat x"
    using sector_ok(1) [OF assms i] R by (simp add: unat_ucast_up i_def)
  then have "x = ucast (cluster_to_sector s c + of_nat i)" by (simp add: word_unat_eq_iff)
  with i show "x \<in> set (sectors_of s c)" by (auto simp: sectors_of_def)
qed

lemma clusters_apart:
  assumes v: "vol_ok n s" and c: "cluster_ok s c" "cluster_ok s d" "c \<noteq> d"
  shows "set (sectors_of s c) \<inter> set (sectors_of s d) = {}"
proof -
  let ?p = "unat (sectors_per_cluster s)"
  have *: "(unat a - 2) * ?p + ?p \<le> (unat b - 2) * ?p" if "unat a < unat b" "cluster_ok s a" for a b :: u32
  proof -
    have "Suc (unat a - 2) * ?p \<le> (unat b - 2) * ?p"
      using that by (intro mult_right_mono) (auto simp: cluster_ok_def)
    then show ?thesis by simp
  qed
  have "unat c \<noteq> unat d" using c(3) by (simp add: word_unat_eq_iff)
  then consider "unat c < unat d" | "unat d < unat c" by linarith
  then show ?thesis
    using * [of c d] * [of d c] c sectors_of_iff [OF v c(1)] sectors_of_iff [OF v c(2)] by cases fastforce+
qed

lemma fat_not_data:
  assumes "vol_ok n s" "cluster_ok s c" "cluster_ok s d" "f < unat (num_fats s)"
  shows "fat_copy s f c \<notin> set (sectors_of s d)"
  using fat_copy_ok(2) [OF assms(1, 2, 4)] sectors_of_iff [OF assms(1, 3)] by auto

section \<open>Bytes inside a sector\<close>

lemma length_put [simp]: "off + length bs \<le> length b \<Longrightarrow> length (put b off bs) = length b"
  by (simp add: put_def)

lemma fld_put_same: "off + length bs \<le> length b \<Longrightarrow> n = length bs \<Longrightarrow> fld off n (put b off bs) = of_le bs"
  by (simp add: fld_def put_def)

lemma nth_put:
  "off + length bs \<le> length b \<Longrightarrow> i < length b \<Longrightarrow>
   put b off bs ! i = (if off \<le> i \<and> i < off + length bs then bs ! (i - off) else b ! i)"
  by (auto simp: put_def nth_append)

lemma fld_put_other:
  assumes "off + length bs \<le> length b" "o' + n \<le> length b" "o' + n \<le> off \<or> off + length bs \<le> o'"
  shows "fld o' n (put b off bs) = fld o' n b"
proof -
  have "take n (drop o' (put b off bs)) = take n (drop o' b)"
    using assms by (intro nth_equalityI) (auto simp: nth_put)
  then show ?thesis by (simp add: fld_def)
qed

lemma put_put: "off + length bs \<le> length b \<Longrightarrow> length cs = length bs \<Longrightarrow> put (put b off bs) off cs = put b off cs"
  by (simp add: put_def)

lemma length_patch_entry [simp]: "off + 4 \<le> length b \<Longrightarrow> length (patch_entry off v b) = length b"
  by (simp add: patch_entry_def)

lemma fld_patch_entry:
  "off + 4 \<le> length b \<Longrightarrow> fld off 4 (patch_entry off v b) = (fld off 4 b AND 0xF0000000) OR (v AND 0x0FFFFFFF :: u32)"
  by (simp add: patch_entry_def fld_put_same of_le_le_bytes)

lemma fld_patch_entry_other:
  "off + 4 \<le> length b \<Longrightarrow> o' + n \<le> length b \<Longrightarrow> o' + n \<le> off \<or> off + 4 \<le> o' \<Longrightarrow>
   fld o' n (patch_entry off v b) = fld o' n b"
  unfolding patch_entry_def by (rule fld_put_other) simp_all

lemma patch_entry_idem: "off + 4 \<le> length b \<Longrightarrow> patch_entry off v (patch_entry off v b) = patch_entry off v b"
proof -
  assume a: "off + 4 \<le> length b"
  have "((x AND m) OR (v AND n)) AND m OR (v AND n) = (x AND m) OR (v AND n)" for x m n :: u32
    by (rule bit_word_eqI) (auto simp: bit_simps)
  then have "(fld off 4 (patch_entry off v b) AND 0xF0000000) OR (v AND 0x0FFFFFFF :: u32)
      = (fld off 4 b AND 0xF0000000) OR (v AND 0x0FFFFFFF)"
    unfolding fld_patch_entry [OF a] by simp
  then show ?thesis
    using a by (subst (2) patch_entry_def) (simp add: patch_entry_def put_put)
qed

section \<open>Updating the tables\<close>

definition fat_entry :: "image \<Rightarrow> 's fat \<Rightarrow> nat \<Rightarrow> u32 \<Rightarrow> u32" where
  "fat_entry D s f c = fld (entry_offset s c) 4 (D (fat_copy s f c))"

lemma fat_next_entry: "fat_next D s c = fat_entry D s 0 c AND 0x0FFFFFFF"
  by (simp add: fat_next_def fat_entry_def fat_copy_def)

text \<open>The disk after entry \<open>c\<close> became \<open>v\<close> in the copies \<open>fs\<close>.\<close>

definition fat_update :: "image \<Rightarrow> 's fat \<Rightarrow> nat list \<Rightarrow> u32 \<Rightarrow> u32 \<Rightarrow> image" where
  "fat_update D s fs c v =
     (\<lambda>x. if x \<in> (\<lambda>f. fat_copy s f c) ` set fs then patch_entry (entry_offset s c) v (D x) else D x)"

definition wrote ::
  "('s \<Rightarrow> image) \<Rightarrow> ('s \<Rightarrow> u64) \<Rightarrow> ('s \<Rightarrow> bool) \<Rightarrow> 's fat \<Rightarrow> 's fat \<Rightarrow> image \<Rightarrow> bool" where
  "wrote disk cap ok s t D \<longleftrightarrow> same_volume s t \<and> fat_ok ok t \<and>
     disk (machine t) = D \<and> cap (machine t) = cap (machine s)"

lemma wrote_quiet: "quiet disk cap ok s t \<longleftrightarrow> wrote disk cap ok s t (disk (machine s))"
  by (simp add: quiet_def wrote_def)

lemma wrote_trans: "wrote disk cap ok s t D \<Longrightarrow> wrote disk cap ok t u D' \<Longrightarrow> wrote disk cap ok s u D'"
  unfolding wrote_def by (auto intro: same_volume_trans)

lemma wrote_fields:
  assumes "wrote disk cap ok s t D"
  shows "fat_ok ok t" "same_volume s t" "disk (machine t) = D" "cap (machine t) = cap (machine s)"
  using assms by (simp_all add: wrote_def)

lemma vol_ok_volume:
  assumes "same_volume s t"
  shows "vol_ok n t = vol_ok n s" "cluster_ok t = cluster_ok s" "fat_copy t = fat_copy s" "fat_entry D t = fat_entry D s"
    "fat_update D t = fat_update D s"
proof -
  obtain m b where t: "t = s\<lparr>machine := m, sector_buf := b\<rparr>" using same_volume_shape [OF assms] by blast
  show "vol_ok n t = vol_ok n s" "cluster_ok t = cluster_ok s"
    by (simp_all add: t vol_ok_def cluster_ok_def fun_eq_iff)
  note f = same_volume_fields [OF assms]
  show c: "fat_copy t = fat_copy s" by (simp add: fat_copy_def fun_eq_iff f)
  show "fat_entry D t = fat_entry D s" "fat_update D t = fat_update D s"
    by (simp_all add: fat_entry_def fat_update_def fun_eq_iff f c)
qed

context block_device
begin

lemma write_from_in:
  assumes "fat_ok inv s" "ucast x < cap (machine s)" "length b = 512"
  shows "\<exists>t. write_from wr x b s = Some (t, True) \<and>
    wrote disk cap inv s t ((disk (machine s))(ucast x := b)) \<and> sector_buf t = sector_buf s"
proof -
  have "inv (machine s)" using assms by (simp add: fat_ok_def)
  from wr_in [OF this assms(2, 3)] obtain m where
    m: "wr (ucast x) b (machine s) = Some (m, True)" "inv m" "disk m = (disk (machine s))(ucast x := b)"
      "cap m = cap (machine s)"
    by blast
  have "same_volume s (s\<lparr>machine := m\<rparr>)" using same_volumeI [where s = s and m = m and b = "sector_buf s"] by simp
  with m assms show ?thesis by (auto simp: write_from_def wrote_def fat_ok_def)
qed

lemma set_copies_correct:
  assumes "fat_ok inv s" "entry_offset s c + 4 \<le> 512" "\<forall>f \<in> set fs. fat_copy s f c < cap (machine s)"
  shows "\<exists>t. set_copies rd wr c v fs s = Some (t, True) \<and>
    wrote disk cap inv s t (fat_update (disk (machine s)) s fs c v) \<and>
    sector_buf t = (if fs = [] then sector_buf s else disk (machine t) (fat_copy s (last fs) c))"
  using assms
proof (induction fs arbitrary: s)
  case Nil
  then show ?case by (simp add: wrote_def fat_update_def)
next
  case (Cons f fs)
  let ?x = "fat_copy s f c" and ?D = "disk (machine s)" and ?off = "entry_offset s c"
  let ?sec = "fat_sector s c + of_nat f * fat_size_sectors s"
  let ?b = "patch_entry ?off v (?D ?x)"
  have x: "ucast ?sec = ?x" by (simp add: fat_copy_def)
  obtain t where t: "read_buf rd ?sec s = Some (t, True)" "quiet disk cap inv s t" "sector_buf t = ?D ?x"
    using read_buf_in [of s ?sec] Cons.prems x by auto
  note tf = quiet_fields [OF t(2)] same_volume_fields [OF quiet_fields(2) [OF t(2)]]
    vol_ok_volume [OF quiet_fields(2) [OF t(2)]]
  have len: "length (?D ?x) = 512" using Cons.prems(1) disk_length by (simp add: fat_ok_def)
  define t' where "t' = t\<lparr>sector_buf := ?b\<rparr>"
  have tt: "fat_ok inv t'" "same_volume t t'" "machine t' = machine t" "sector_buf t' = ?b"
    using tf(1) len Cons.prems(2) by (simp_all add: t'_def fat_ok_def same_volume_def)
  obtain u where u: "write_from wr ?sec ?b t' = Some (u, True)"
      "wrote disk cap inv t' u ((disk (machine t'))(?x := ?b))" "sector_buf u = ?b"
    using write_from_in [OF tt(1), of ?sec ?b] Cons.prems x tt tf len by auto
  have su: "wrote disk cap inv s u (?D(?x := ?b))"
    using u(2) tt tf same_volume_trans [OF tf(2) same_volume_trans [OF tt(2)]] by (simp add: wrote_def)
  note uf = wrote_fields [OF su] same_volume_fields [OF wrote_fields(2) [OF su]] vol_ok_volume [OF wrote_fields(2) [OF su]]
  have pre: "entry_offset u c + 4 \<le> 512" "\<forall>f \<in> set fs. fat_copy u f c < cap (machine u)"
    using Cons.prems uf by simp_all
  obtain w where w: "set_copies rd wr c v fs u = Some (w, True)"
      "wrote disk cap inv u w (fat_update (disk (machine u)) u fs c v)"
      "sector_buf w = (if fs = [] then sector_buf u else disk (machine w) (fat_copy u (last fs) c))"
    using Cons.IH [OF uf(1) pre] by blast
  have "fat_update (?D(?x := ?b)) s fs c v = fat_update ?D s (f # fs) c v"
    using patch_entry_idem [of ?off "?D ?x" v] len Cons.prems(2) by (auto simp: fat_update_def fun_eq_iff)
  then have sw: "wrote disk cap inv s w (fat_update ?D s (f # fs) c v)"
    using wrote_trans [OF su w(2)] uf by simp
  have "set_copies rd wr c v (f # fs) s = Some (w, True)"
    using t u w(1) tf by (simp add: Let_def t'_def)
  moreover have "disk (machine w) ?x = ?b" using sw by (simp add: wrote_def fat_update_def)
  ultimately show ?case using sw w(3) u(3) uf by auto
qed

end

text \<open>What the update means for the entries of a well-formed volume.\<close>

lemma entry_fits: "vol_ok n s \<Longrightarrow> cluster_ok s c \<Longrightarrow> entry_offset s c + 4 \<le> 512"
  using entry_offset_ok [of n s c] mod_less_divisor [of 128 "unat c"] by simp

lemma fat_entry_update_same:
  assumes "vol_ok n s" "cluster_ok s c" "f \<in> set fs" "length (D (fat_copy s f c)) = 512"
  shows "fat_entry (fat_update D s fs c v) s f c = (fat_entry D s f c AND 0xF0000000) OR (v AND 0x0FFFFFFF)"
  using assms entry_fits [OF assms(1, 2)] by (simp add: fat_entry_def fat_update_def fld_patch_entry)

lemma fat_copy_inj:
  assumes v: "vol_ok n s" and c: "cluster_ok s c" "cluster_ok s d" and f: "f < unat (num_fats s)" "g < unat (num_fats s)"
    and eq: "fat_copy s f c = fat_copy s g d"
  shows "f = g \<and> unat c div 128 = unat d div 128"
proof -
  let ?z = "unat (fat_size_sectors s)"
  have lt: "unat c div 128 < ?z" "unat d div 128 < ?z" using cluster_bounds(3) [OF v] c by blast+
  have "unat c div 128 + f * ?z = unat d div 128 + g * ?z"
    using fat_copy_ok(1) [OF v c(1) f(1)] fat_copy_ok(1) [OF v c(2) f(2)] eq by simp
  then have e: "f * ?z + unat c div 128 = g * ?z + unat d div 128" by linarith
  then have "(f * ?z + unat c div 128) div ?z = (g * ?z + unat d div 128) div ?z" by simp
  then have "f = g" using lt by simp
  with e show ?thesis by simp
qed

lemma fat_entry_update_other:
  assumes v: "vol_ok n s" and c: "cluster_ok s c" "cluster_ok s d" "d \<noteq> c" and f: "f < unat (num_fats s)"
    and fs: "\<forall>g \<in> set fs. g < unat (num_fats s)" and len: "length (D (fat_copy s f d)) = 512"
  shows "fat_entry (fat_update D s fs c val) s f d = fat_entry D s f d"
proof (cases "fat_copy s f d \<in> (\<lambda>g. fat_copy s g c) ` set fs")
  case True
  then obtain g where "g \<in> set fs" "fat_copy s f d = fat_copy s g c" by auto
  then have q: "unat d div 128 = unat c div 128" using fat_copy_inj [OF v c(2, 1) f] fs by blast
  have "unat d \<noteq> unat c" using c(3) by (simp add: word_unat_eq_iff)
  with q have "unat d mod 128 \<noteq> unat c mod 128" by (metis div_mult_mod_eq)
  then have "4 * (unat d mod 128) + 4 \<le> 4 * (unat c mod 128) \<or> 4 * (unat c mod 128) + 4 \<le> 4 * (unat d mod 128)"
    by linarith
  with True len entry_fits [OF v c(1)] entry_fits [OF v c(2)] entry_offset_ok [OF v c(1)] entry_offset_ok [OF v c(2)]
  show ?thesis by (simp add: fat_entry_def fat_update_def fld_patch_entry_other)
qed (simp add: fat_entry_def fat_update_def)

lemma fat_update_data:
  assumes "vol_ok n s" "cluster_ok s c" "cluster_ok s d" "\<forall>g \<in> set fs. g < unat (num_fats s)" "x \<in> set (sectors_of s d)"
  shows "fat_update D s fs c v x = D x"
  using fat_not_data [OF assms(1-3)] assms(4, 5) by (auto simp: fat_update_def)

lemma fat_update_length:
  assumes "entry_offset s c + 4 \<le> 512" "\<forall>x. length (D x) = 512"
  shows "length (fat_update D s fs c v x) = 512"
  using assms by (simp add: fat_update_def)

section \<open>Chains\<close>

lemma fat_chain_unique: "fat_chain D s c xs \<Longrightarrow> fat_chain D s c ys \<Longrightarrow> xs = ys"
proof (induction xs arbitrary: c ys)
  case Nil
  then show ?case by (cases ys) auto
next
  case (Cons x xs)
  then show ?case by (cases ys) auto
qed

lemma fat_chain_suffix: "fat_chain D s c (xs @ y # ys) \<Longrightarrow> fat_chain D s y (y # ys)"
  by (induction xs arbitrary: c) auto

lemma fat_chain_distinct:
  assumes "fat_chain D s c cs"
  shows "distinct cs"
proof (rule ccontr)
  assume "\<not> distinct cs"
  then obtain xs ys zs y where "cs = xs @ [y] @ ys @ [y] @ zs" using not_distinct_decomp by blast
  with assms have "fat_chain D s c (xs @ y # (ys @ y # zs))" "fat_chain D s c ((xs @ y # ys) @ y # zs)" by simp_all
  then have "fat_chain D s y (y # (ys @ y # zs))" "fat_chain D s y (y # zs)" by (auto dest!: fat_chain_suffix)
  then have "y # (ys @ y # zs) = y # zs" by (rule fat_chain_unique)
  then show False by simp
qed

lemma fat_chain_cong:
  assumes "\<forall>c \<in> set cs. fat_next D' s c = fat_next D s c"
  shows "fat_chain D' s c cs = fat_chain D s c cs"
  using assms by (induction cs arbitrary: c) auto

lemma dir_entries_cong:
  "\<forall>c \<in> set cs. \<forall>x \<in> set (sectors_of s c). D' x = D x \<Longrightarrow> dir_entries D' s cs = dir_entries D s cs"
  unfolding dir_entries_def by (intro arg_cong [where f = concat] map_cong) auto

lemma walks_cong:
  assumes "walks D n s c path K r"
    and "\<forall>c \<in> K. fat_next D' s c = fat_next D s c \<and> (\<forall>x \<in> set (sectors_of s c). D' x = D x)"
  shows "walks D' n s c path K r"
  using assms
proof (induction)
  case (missing path c cs)
  have "fat_chain D' s c cs = fat_chain D s c cs" "dir_entries D' s cs = dir_entries D s cs"
    using missing.prems by (auto intro!: fat_chain_cong dir_entries_cong)
  with missing show ?case by (intro walks.missing) auto
next
  case (final path c cs e)
  have "fat_chain D' s c cs = fat_chain D s c cs" "dir_entries D' s cs = dir_entries D s cs"
    using final.prems by (auto intro!: fat_chain_cong dir_entries_cong)
  with final show ?case by (intro walks.final) auto
next
  case (not_dir path c cs e)
  have "fat_chain D' s c cs = fat_chain D s c cs" "dir_entries D' s cs = dir_entries D s cs"
    using not_dir.prems by (auto intro!: fat_chain_cong dir_entries_cong)
  with not_dir show ?case by (intro walks.not_dir) auto
next
  case (down path c cs e K r)
  have "fat_chain D' s c cs = fat_chain D s c cs" "dir_entries D' s cs = dir_entries D s cs"
    using down.prems by (auto intro!: fat_chain_cong dir_entries_cong)
  with down show ?case by (intro walks.down) auto
qed

lemma walks_volume:
  assumes "same_volume s t" "walks D n s c path K r"
  shows "walks D n t c path K r"
  using assms(2)
  by (induction) (auto intro: walks.intros simp: fat_chain_volume [OF assms(1)] same_volume_fields [OF assms(1)])

section \<open>Filling sectors\<close>

text \<open>\<open>fill D xs src\<close>: the disk after the bytes \<open>src\<close> were laid out over the sectors \<open>xs\<close>.\<close>

fun fill :: "image \<Rightarrow> u64 list \<Rightarrow> u8 list \<Rightarrow> image" where
  "fill D [] src = D"
| "fill D (x # xs) src =
     (if src = [] then D
      else fill (D(x := take 512 src @ replicate (512 - length src) 0)) xs (drop 512 src))"

lemma fill_Nil [simp]: "fill D xs [] = D"
  by (cases xs) simp_all

lemma fill_append: "fill D (xs @ ys) src = fill (fill D xs src) ys (drop (512 * length xs) src)"
  by (induction xs arbitrary: D src) (simp_all add: add.commute)

lemma fill_other: "x \<notin> set xs \<Longrightarrow> fill D xs src x = D x"
  by (induction xs arbitrary: D src) auto

lemma fill_length: "\<forall>x. length (D x) = 512 \<Longrightarrow> length (fill D xs src x) = 512"
  by (induction xs arbitrary: D src) auto

lemma fill_contents:
  assumes "distinct xs" "length src \<le> 512 * length xs"
  shows "take (length src) (concat (map (fill D xs src) xs)) = src"
  using assms
proof (induction xs arbitrary: D src)
  case (Cons x xs)
  show ?case
  proof (cases "src = []")
    case False
    let ?b = "take 512 src @ replicate (512 - length src) 0"
    let ?D = "D(x := ?b)"
    have D: "fill D (x # xs) src = fill ?D xs (drop 512 src)" using False by simp
    have hd: "fill D (x # xs) src x = ?b" unfolding D using Cons.prems(1) by (simp add: fill_other)
    have "take (length (drop 512 src)) (concat (map (fill ?D xs (drop 512 src)) xs)) = drop 512 src"
      using Cons.prems by (intro Cons.IH) auto
    then have tl: "take (length src - 512) (concat (map (fill D (x # xs) src) xs)) = drop 512 src"
      by (simp only: D length_drop)
    have len: "length ?b = 512" by auto
    have b: "take (length src) ?b = take 512 src" by (cases "512 \<le> length src") simp_all
    let ?R = "concat (map (fill D (x # xs) src) xs)"
    have "concat (map (fill D (x # xs) src) (x # xs)) = ?b @ ?R"
      using hd by (simp only: list.map concat.simps)
    then have "take (length src) (concat (map (fill D (x # xs) src) (x # xs))) =
        take (length src) ?b @ take (length src - 512) ?R"
      by (simp only: take_append len)
    also have "\<dots> = src" unfolding b tl by (rule append_take_drop_id)
    finally show ?thesis .
  qed simp
qed simp

lemma sectors_distinct:
  assumes v: "vol_ok n s" and cs: "\<forall>c \<in> set cs. cluster_ok s c" "distinct cs"
  shows "distinct (concat (map (sectors_of s) cs))"
  using cs
proof (induction cs)
  case (Cons c cs)
  have "distinct (sectors_of s c)"
  proof -
    have "inj_on (\<lambda>i. ucast (cluster_to_sector s c + of_nat i) :: u64) {0..<unat (sectors_per_cluster s)}"
    proof (rule inj_onI)
      fix i j
      assume ij: "i \<in> {0..<unat (sectors_per_cluster s)}" "j \<in> {0..<unat (sectors_per_cluster s)}"
        and eq: "(ucast (cluster_to_sector s c + of_nat i) :: u64) = ucast (cluster_to_sector s c + of_nat j)"
      then have "unat (cluster_to_sector s c + of_nat i) = unat (cluster_to_sector s c + of_nat j)"
        by (simp add: ucast_up_inj)
      then show "i = j" using sector_ok(1) [OF v, of c] ij Cons.prems by simp
    qed
    then show ?thesis by (simp add: sectors_of_def distinct_map)
  qed
  moreover have "set (sectors_of s c) \<inter> set (concat (map (sectors_of s) cs)) = {}"
    using clusters_apart [OF v, of c] Cons.prems by fastforce
  ultimately show ?case using Cons by auto
qed simp

text \<open>Data sectors do not hold table entries, so filling them leaves every chain alone.\<close>

lemma fill_fat_next:
  assumes "vol_ok n s" "cluster_ok s c" "\<forall>d \<in> set ds. cluster_ok s d" "set xs \<subseteq> set (concat (map (sectors_of s) ds))"
  shows "fat_next (fill D xs src) s c = fat_next D s c"
proof -
  have "0 < unat (num_fats s)" using assms(1) by (simp add: vol_ok_def)
  then have "fat_copy s 0 c \<notin> set xs" using fat_not_data [OF assms(1, 2)] assms(3, 4) by fastforce
  then show ?thesis by (simp add: fat_next_entry fat_entry_def fill_other)
qed

context block_device
begin

lemma store_sectors_correct:
  assumes "fat_ok inv s" "\<forall>i \<in> set is. ucast (sec + of_nat i :: u32) < cap (machine s)" "length src < 2 ^ 32"
  shows "\<exists>t. store_sectors wr sec is (of_nat (length src)) src s =
      Some (t, of_nat (length (drop (512 * length is) src)), drop (512 * length is) src, True) \<and>
    wrote disk cap inv s t (fill (disk (machine s)) (map (\<lambda>i. ucast (sec + of_nat i)) is) src)"
  using assms
proof (induction "is" arbitrary: s src)
  case Nil
  then show ?case by (simp add: wrote_def)
next
  case (Cons i "is")
  show ?case
  proof (cases "src = []")
    case True
    with Cons.prems show ?thesis by (simp add: wrote_def)
  next
    case False
    let ?b = "take 512 src @ replicate (512 - length src) 0"
    let ?n = "of_nat (length src) :: u32" and ?x = "ucast (sec + of_nat i :: u32) :: u64"
    have un: "unat ?n = length src" using Cons.prems(3) by (rule unat_of_nat32)
    define k where "k = (if ?n < 512 then ?n else 512)"
    have k: "unat k = min (length src) 512" using un by (auto simp: k_def word_less_nat_alt)
    have pos: "0 < ?n" using False un by (simp add: word_less_nat_alt)
    have bps: "bytes_per_sector s = 512" "length (sector_buf s) = 512" using Cons.prems(1) by (simp_all add: fat_ok_def)
    have b: "put (put (sector_buf s) 0 (replicate 512 0)) 0 (take (unat k) src) = ?b"
      using bps k by (auto simp: put_def min_def)
    have ub: "unat (bytes_per_sector s) = 512" using bps by simp
    have kk: "(if ?n < bytes_per_sector s then ?n else bytes_per_sector s) = k" using bps by (simp add: k_def)
    define s' where "s' = s\<lparr>sector_buf := ?b\<rparr>"
    have ss: "fat_ok inv s'" "same_volume s s'" "machine s' = machine s"
      using Cons.prems(1) by (auto simp: s'_def fat_ok_def same_volume_def)
    have "length ?b = 512" by auto
    then obtain t where t: "write_from wr (sec + of_nat i) ?b s' = Some (t, True)"
        "wrote disk cap inv s' t ((disk (machine s'))(?x := ?b))"
      using write_from_in [OF ss(1), of "sec + of_nat i" ?b] Cons.prems ss by auto
    have st: "wrote disk cap inv s t ((disk (machine s))(?x := ?b))"
      using t(2) ss by (auto simp: wrote_def intro: same_volume_trans)
    note tf = wrote_fields [OF st]
    have pre: "\<forall>i \<in> set is. ucast (sec + of_nat i :: u32) < cap (machine t)" "length (drop 512 src) < 2 ^ 32"
      using Cons.prems tf by auto
    have dk: "drop (unat k) src = drop 512 src" using k by (simp add: min_def)
    have "unat (?n - k) = length (drop 512 src)" using k un by (auto simp: unat_sub_if')
    then have nk: "?n - k = of_nat (length (drop 512 src))" using pre(2) by (simp add: word_unat_eq_iff unat_of_nat32)
    obtain u where u: "store_sectors wr sec is (of_nat (length (drop 512 src))) (drop 512 src) t =
        Some (u, of_nat (length (drop (512 * length is) (drop 512 src))), drop (512 * length is) (drop 512 src), True)"
        "wrote disk cap inv t u (fill (disk (machine t)) (map (\<lambda>i. ucast (sec + of_nat i)) is) (drop 512 src))"
      using Cons.IH [OF tf(1) pre] by blast
    have "store_sectors wr sec (i # is) ?n src s = store_sectors wr sec is (?n - k) (drop (unat k) src) t"
      unfolding store_sectors.simps Let_def kk ub b s'_def [symmetric] t(1) using pos by simp
    then have "store_sectors wr sec (i # is) ?n src s =
        Some (u, of_nat (length (drop (512 * length (i # is)) src)), drop (512 * length (i # is)) src, True)"
      using u(1) unfolding nk dk by (simp add: add.commute)
    moreover have "wrote disk cap inv s u (fill (disk (machine s)) (map (\<lambda>i. ucast (sec + of_nat i)) (i # is)) src)"
      using wrote_trans [OF st u(2)] False tf by simp
    ultimately show ?thesis by blast
  qed
qed

text \<open>One round of the loop of \<open>write_file\<close> in a cluster of the chain.\<close>

lemma store_step:
  assumes ok: "fat_ok inv s" "vol_ok (cap (machine s)) s" and c: "cluster_ok s c"
    and src: "src \<noteq> []" "length src < 2 ^ 32"
  defines "rest \<equiv> drop (512 * unat (sectors_per_cluster s)) src"
  shows "\<exists>t. store_clusters rd wr c prev (of_nat (length src)) src s =
      store_clusters rd wr (fat_next (disk (machine s)) s c) c (of_nat (length rest)) rest t \<and>
    wrote disk cap inv s t (fill (disk (machine s)) (sectors_of s c) src)"
proof -
  let ?D = "disk (machine s)" and ?is = "[0..<unat (sectors_per_cluster s)]"
  have c0: "c \<noteq> 0" "\<not> is_end_cluster c" using c cluster_bounds(4) [OF ok(2) c] by (auto simp: cluster_ok_def)
  have pos: "0 < (of_nat (length src) :: u32)"
    using src unat_of_nat32 [OF src(2)] by (simp add: word_less_nat_alt)
  have secs: "map (\<lambda>i. ucast (cluster_to_sector s c + of_nat i)) ?is = sectors_of s c" by (simp add: sectors_of_def)
  have "\<forall>i \<in> set ?is. ucast (cluster_to_sector s c + of_nat i :: u32) < cap (machine s)"
    using sector_ok(2) [OF ok(2) c] by simp
  from store_sectors_correct [OF ok(1) this src(2)] obtain t where
    t: "store_sectors wr (cluster_to_sector s c) ?is (of_nat (length src)) src s =
        Some (t, of_nat (length rest), rest, True)"
      "wrote disk cap inv s t (fill ?D (sectors_of s c) src)"
    unfolding secs rest_def by auto
  note tf = wrote_fields [OF t(2)] same_volume_fields [OF wrote_fields(2) [OF t(2)]]
  have "ucast (fat_sector t c) < cap (machine t)"
    using on_disk_ok [OF ok(2), of "[c]"] c tf by (simp add: on_disk_def)
  from next_cluster_in [OF tf(1) this] obtain u where
    u: "next_cluster rd c t = Some (u, fat_next ?D s c)" "quiet disk cap inv t u"
    using tf fill_fat_next [OF ok(2) c, of "[c]" "sectors_of s c"] c by auto
  have "wrote disk cap inv s u (fill ?D (sectors_of s c) src)"
    using wrote_trans [OF t(2)] u(2) tf by (simp add: wrote_quiet)
  moreover have "store_clusters rd wr c prev (of_nat (length src)) src s =
      store_clusters rd wr (fat_next ?D s c) c (of_nat (length rest)) rest u"
    using pos c0 t(1) u(1) by (subst store_clusters.simps) (simp add: extend_chain_def)
  ultimately show ?thesis by blast
qed

text \<open>
  The rounds along an existing chain: either the data fits, or the loop arrives at the end of
  the chain with the rest.
\<close>

lemma store_chain:
  assumes "fat_ok inv s" "vol_ok (cap (machine s)) s" "fat_chain (disk (machine s)) s c cs"
    and "\<forall>c \<in> set cs. cluster_ok s c" and "length src < 2 ^ 32"
  defines "rest \<equiv> drop (512 * (unat (sectors_per_cluster s) * length cs)) src"
  shows "\<exists>t e. store_clusters rd wr c prev (of_nat (length src)) src s =
      (if rest = [] then Some (t, True)
       else store_clusters rd wr e (if cs = [] then prev else last cs) (of_nat (length rest)) rest t) \<and>
    is_end_cluster e \<and> wrote disk cap inv s t (fill (disk (machine s)) (concat (map (sectors_of s) cs)) src)"
  using assms(1-5) unfolding rest_def
proof (induction cs arbitrary: c s prev src)
  case Nil
  have "store_clusters rd wr c prev (of_nat (length src)) src s = Some (s, True)" if "src = []"
    using that by (subst store_clusters.simps) simp
  moreover have "wrote disk cap inv s s (disk (machine s))" using Nil by (simp add: wrote_def)
  ultimately show ?case using Nil.prems(3) by auto
next
  case (Cons x cs)
  let ?D = "disk (machine s)" and ?N = "512 * unat (sectors_per_cluster s)"
  have c: "x = c" "fat_chain ?D s (fat_next ?D s c) cs" "cluster_ok s c" using Cons.prems by auto
  show ?case
  proof (cases "src = []")
    case True
    then have "store_clusters rd wr c prev (of_nat (length src)) src s = Some (s, True)"
      by (subst store_clusters.simps) simp
    moreover have "wrote disk cap inv s s ?D" using Cons.prems by (simp add: wrote_def)
    moreover have "is_end_cluster 0x0FFFFFF8" by (simp add: is_end_cluster_def)
    ultimately show ?thesis using True by auto
  next
    case False
    let ?E = "fill ?D (sectors_of s c) src"
    obtain t where t: "store_clusters rd wr c prev (of_nat (length src)) src s =
          store_clusters rd wr (fat_next ?D s c) c (of_nat (length (drop ?N src))) (drop ?N src) t"
        "wrote disk cap inv s t ?E"
      using store_step [OF Cons.prems(1, 2) c(3) False Cons.prems(5)] by blast
    note tf = wrote_fields [OF t(2)] same_volume_fields [OF wrote_fields(2) [OF t(2)]]
      vol_ok_volume [OF wrote_fields(2) [OF t(2)]]
    have "fat_next ?E s d = fat_next ?D s d" if "cluster_ok s d" for d
      using fill_fat_next [OF Cons.prems(2) that, of "[c]" "sectors_of s c"] c(3) by simp
    then have ch: "fat_chain (disk (machine t)) t (fat_next ?D s c) cs"
      using c(2) fat_chain_cong [of cs ?E s ?D] Cons.prems(4) tf fat_chain_volume [OF tf(2)] by simp
    have pre: "vol_ok (cap (machine t)) t" "\<forall>c \<in> set cs. cluster_ok t c" "length (drop ?N src) < 2 ^ 32"
      using Cons.prems(2, 4, 5) tf by auto
    have fl: "fill ?D (concat (map (sectors_of s) (x # cs))) src = fill ?E (concat (map (sectors_of s) cs)) (drop ?N src)"
      by (simp add: fill_append c(1)) (simp add: sectors_of_def)
    have dr: "drop (512 * (unat (sectors_per_cluster t) * length cs)) (drop ?N src) =
        drop (512 * (unat (sectors_per_cluster s) * length (x # cs))) src"
      using tf by (simp add: distrib_left add.commute)
    from Cons.IH [OF tf(1) pre(1) ch pre(2, 3), of c] obtain u e where
      u: "store_clusters rd wr (fat_next ?D s c) c (of_nat (length (drop ?N src))) (drop ?N src) t =
          (let rest = drop (512 * (unat (sectors_per_cluster s) * length (x # cs))) src
           in if rest = [] then Some (u, True)
              else store_clusters rd wr e (if cs = [] then c else last cs) (of_nat (length rest)) rest u)"
        "is_end_cluster e" "wrote disk cap inv t u (fill ?E (concat (map (sectors_of s) cs)) (drop ?N src))"
      unfolding dr Let_def using tf by auto
    have "wrote disk cap inv s u (fill ?D (concat (map (sectors_of s) (x # cs))) src)"
      unfolding fl using wrote_trans [OF t(2) u(3)] .
    moreover have l: "(if x # cs = [] then prev else last (x # cs)) = (if cs = [] then c else last cs)"
      using c(1) by simp
    ultimately show ?thesis using u(2) unfolding t(1) u(1) Let_def l by blast
  qed
qed

lemma store_clusters_correct:
  assumes "fat_ok inv s" "vol_ok (cap (machine s)) s" "fat_chain (disk (machine s)) s c cs"
    and "\<forall>c \<in> set cs. cluster_ok s c" and "length src \<le> 512 * (unat (sectors_per_cluster s) * length cs)"
    and "length src < 2 ^ 32"
  shows "\<exists>t. store_clusters rd wr c prev (of_nat (length src)) src s = Some (t, True) \<and>
    wrote disk cap inv s t (fill (disk (machine s)) (concat (map (sectors_of s) cs)) src)"
  using store_chain [OF assms(1-4, 6), of prev] assms(5) by auto

end

section \<open>Allocating and freeing clusters\<close>

abbreviation copies :: "'s fat \<Rightarrow> nat list" where
  "copies s \<equiv> [0..<unat (num_fats s)]"

definition zeroed :: "image \<Rightarrow> u64 list \<Rightarrow> image" where
  "zeroed D xs = (\<lambda>x. if x \<in> set xs then replicate 512 0 else D x)"

text \<open>\<open>retabled s D D' g\<close>: every table entry \<open>d\<close> became \<open>g d\<close> of its old value, data is unchanged.\<close>

definition retabled :: "'s fat \<Rightarrow> image \<Rightarrow> image \<Rightarrow> (u32 \<Rightarrow> u32 \<Rightarrow> u32) \<Rightarrow> bool" where
  "retabled s D D' g \<longleftrightarrow>
     (\<forall>f < unat (num_fats s). \<forall>d. cluster_ok s d \<longrightarrow> fat_entry D' s f d = g d (fat_entry D s f d)) \<and>
     (\<forall>d x. cluster_ok s d \<longrightarrow> x \<in> set (sectors_of s d) \<longrightarrow> D' x = D x)"

lemma retabled_next:
  "retabled s D D' g \<Longrightarrow> vol_ok n s \<Longrightarrow> cluster_ok s d \<Longrightarrow> fat_next D' s d = g d (fat_entry D s 0 d) AND 0x0FFFFFFF"
  by (simp add: retabled_def fat_next_entry vol_ok_def)

lemma retabled_trans:
  "retabled s D D' g \<Longrightarrow> retabled s D' D'' h \<Longrightarrow> retabled s D D'' (\<lambda>d v. h d (g d v))"
  by (simp add: retabled_def)

lemma retabled_update:
  assumes "vol_ok n s" "cluster_ok s c" "\<forall>x. length (D x) = 512"
  shows "retabled s D (fat_update D s (copies s) c v)
    (\<lambda>d w. if d = c then (w AND 0xF0000000) OR (v AND 0x0FFFFFFF) else w)"
  unfolding retabled_def
  using fat_entry_update_same [OF assms(1, 2)] fat_entry_update_other [OF assms(1, 2)]
    fat_update_data [OF assms(1, 2)] assms(3) by auto

context block_device
begin

lemma disk_lengths: "fat_ok inv s \<Longrightarrow> \<forall>x. length (disk (machine s) x) = 512"
  using disk_length by (simp add: fat_ok_def)

lemma set_fat_entry_ok:
  assumes "fat_ok inv s" "vol_ok (cap (machine s)) s" "cluster_ok s c"
  shows "\<exists>t. set_fat_entry rd wr c v s = Some (t, True) \<and>
    wrote disk cap inv s t (fat_update (disk (machine s)) s (copies s) c v) \<and>
    sector_buf t = disk (machine t) (fat_copy s (unat (num_fats s) - 1) c)"
proof -
  have n: "0 < unat (num_fats s)" using assms(2) by (simp add: vol_ok_def)
  have "\<forall>f \<in> set (copies s). fat_copy s f c < cap (machine s)" using fat_copy_ok(3) [OF assms(2, 3)] by simp
  from set_copies_correct [OF assms(1) entry_fits [OF assms(2, 3)] this, of v] n
  show ?thesis by (simp add: set_fat_entry_def)
qed

lemma free_clusters_correct:
  assumes "fat_ok inv s" "vol_ok (cap (machine s)) s" "fat_chain (disk (machine s)) s c cs" "\<forall>c \<in> set cs. cluster_ok s c"
  shows "\<exists>t D. free_clusters rd wr c s = Some t \<and> wrote disk cap inv s t D \<and>
    retabled s (disk (machine s)) D (\<lambda>d w. if d \<in> set cs then w AND 0xF0000000 else w)"
  using assms
proof (induction cs arbitrary: c s)
  case Nil
  then show ?case by (subst free_clusters.simps) (simp add: wrote_def retabled_def)
next
  case (Cons x cs)
  let ?D = "disk (machine s)"
  have c: "x = c" "\<not> is_end_cluster c" "fat_chain ?D s (fat_next ?D s c) cs" "cluster_ok s c" "c \<notin> set cs"
    using Cons.prems fat_chain_distinct [OF Cons.prems(3)] by auto
  have "2 \<le> c" using c(4) by (simp add: cluster_ok_def word_le_nat_alt)
  have "ucast (fat_sector s c) < cap (machine s)"
    using on_disk_ok [OF Cons.prems(2), of "[c]"] c(4) by (simp add: on_disk_def)
  from next_cluster_in [OF Cons.prems(1) this] obtain t where
    t: "next_cluster rd c s = Some (t, fat_next ?D s c)" "quiet disk cap inv s t" by blast
  note tf = quiet_fields [OF t(2)] same_volume_fields [OF quiet_fields(2) [OF t(2)]]
    vol_ok_volume [OF quiet_fields(2) [OF t(2)]]
  let ?E = "fat_update ?D s (copies s) c 0"
  obtain u where u: "set_fat_entry rd wr c 0 t = Some (u, True)" "wrote disk cap inv t u ?E"
    using set_fat_entry_ok [OF tf(1), of c 0] tf Cons.prems(2) c(4) by auto
  have su: "wrote disk cap inv s u ?E" using t(2) u(2) by (simp add: wrote_quiet wrote_trans)
  note uf = wrote_fields [OF su] same_volume_fields [OF wrote_fields(2) [OF su]]
    vol_ok_volume [OF wrote_fields(2) [OF su]]
  have r: "retabled s ?D ?E (\<lambda>d w. if d = c then (w AND 0xF0000000) OR (0 AND 0x0FFFFFFF) else w)"
    using retabled_update [OF Cons.prems(2) c(4) disk_lengths [OF Cons.prems(1)], of 0] .
  have "fat_next ?E s d = fat_next ?D s d" if "d \<in> set cs" for d
  proof -
    have "d \<noteq> c" "cluster_ok s d" using that c(5) Cons.prems(4) by auto
    then show ?thesis using retabled_next [OF r Cons.prems(2), of d] by (simp add: fat_next_entry)
  qed
  then have "fat_chain (disk (machine u)) u (fat_next ?D s c) cs"
    using c(3) fat_chain_cong [of cs ?E s ?D] uf fat_chain_volume [OF uf(2)] by simp
  then obtain v D' where v: "free_clusters rd wr (fat_next ?D s c) u = Some v" "wrote disk cap inv u v D'"
      "retabled u ?E D' (\<lambda>d w. if d \<in> set cs then w AND 0xF0000000 else w)"
    using Cons.IH [of u "fat_next ?D s c"] uf Cons.prems(2, 4) by auto
  have r2: "retabled s ?E D' (\<lambda>d w. if d \<in> set cs then w AND 0xF0000000 else w)"
    using v(3) by (simp add: retabled_def uf)
  have "retabled s ?D D' (\<lambda>d w. if d \<in> set (x # cs) then w AND 0xF0000000 else w)"
    using retabled_trans [OF r r2] c(1, 5) by (auto simp: retabled_def)
  moreover have "free_clusters rd wr c s = Some v"
    using c(2) \<open>2 \<le> c\<close> t(1) u(1) v(1) by (subst free_clusters.simps) simp
  moreover have "wrote disk cap inv s v D'" using wrote_trans [OF su v(2)] .
  ultimately show ?case by blast
qed

lemma zero_sectors_correct:
  assumes "fat_ok inv s" "\<forall>i \<in> set is. ucast (sec + of_nat i :: u32) < cap (machine s)"
  shows "\<exists>t. zero_sectors wr sec is s = Some t \<and>
    wrote disk cap inv s t (zeroed (disk (machine s)) (map (\<lambda>i. ucast (sec + of_nat i)) is)) \<and>
    sector_buf t = sector_buf s"
  using assms
proof (induction "is" arbitrary: s)
  case Nil
  then show ?case by (simp add: wrote_def zeroed_def)
next
  case (Cons i "is")
  let ?x = "ucast (sec + of_nat i :: u32) :: u64"
  obtain t where t: "write_from wr (sec + of_nat i) (replicate 512 0) s = Some (t, True)"
      "wrote disk cap inv s t ((disk (machine s))(?x := replicate 512 0))" "sector_buf t = sector_buf s"
    using write_from_in [of s "sec + of_nat i" "replicate 512 0"] Cons.prems by auto
  note tf = wrote_fields [OF t(2)]
  have pre: "\<forall>i \<in> set is. ucast (sec + of_nat i :: u32) < cap (machine t)" using Cons.prems tf by simp
  obtain u where u: "zero_sectors wr sec is t = Some u" "sector_buf u = sector_buf t"
      "wrote disk cap inv t u (zeroed (disk (machine t)) (map (\<lambda>i. ucast (sec + of_nat i)) is))"
    using Cons.IH [OF tf(1) pre] by blast
  have "zeroed (disk (machine t)) (map (\<lambda>i. ucast (sec + of_nat i)) is) =
      zeroed (disk (machine s)) (map (\<lambda>i. ucast (sec + of_nat i)) (i # is))"
    by (auto simp: zeroed_def tf fun_eq_iff)
  with t u wrote_trans [OF t(2) u(3)] show ?case by simp
qed

lemma alloc_from_correct:
  assumes "fat_ok inv s" "vol_ok (cap (machine s)) s" "\<forall>i \<in> set ns. cluster_ok s (of_nat i)"
  shows "case find (\<lambda>i. fat_next (disk (machine s)) s (of_nat i) = 0) ns of
      None \<Rightarrow> \<exists>t. alloc_from rd wr ns s = Some (t, 0) \<and> quiet disk cap inv s t
    | Some i \<Rightarrow> \<exists>t. alloc_from rd wr ns s = Some (t, of_nat i) \<and>
        wrote disk cap inv s t (zeroed (fat_update (disk (machine s)) s (copies s) (of_nat i) 0x0FFFFFF8)
          (sectors_of s (of_nat i))) \<and>
        sector_buf t = fat_update (disk (machine s)) s (copies s) (of_nat i) 0x0FFFFFF8
          (fat_copy s (unat (num_fats s) - 1) (of_nat i))"
  using assms
proof (induction ns arbitrary: s)
  case Nil
  then show ?case by (simp add: quiet_refl)
next
  case (Cons i ns)
  let ?D = "disk (machine s)" and ?c = "of_nat i :: u32"
  have c: "cluster_ok s ?c" using Cons.prems by simp
  have "ucast (fat_sector s ?c) < cap (machine s)"
    using on_disk_ok [OF Cons.prems(2), of "[?c]"] c by (simp add: on_disk_def)
  from read_buf_in [OF Cons.prems(1) this] obtain t where
    t: "read_buf rd (fat_sector s ?c) s = Some (t, True)" "quiet disk cap inv s t"
       "sector_buf t = ?D (ucast (fat_sector s ?c))" by blast
  note tf = quiet_fields [OF t(2)] same_volume_fields [OF quiet_fields(2) [OF t(2)]]
    vol_ok_volume [OF quiet_fields(2) [OF t(2)]]
  have raw: "fld (entry_offset t ?c) 4 (sector_buf t) AND 0x0FFFFFFF = fat_next ?D s ?c"
    by (simp add: fat_next_def t(3) tf)
  show ?case
  proof (cases "fat_next ?D s ?c = 0")
    case False
    then have "alloc_from rd wr (i # ns) s = alloc_from rd wr ns t" using t(1) raw by (simp add: Let_def)
    moreover have "find (\<lambda>i. fat_next ?D s (of_nat i) = 0) (i # ns) = find (\<lambda>i. fat_next ?D s (of_nat i) = 0) ns"
      using False by simp
    ultimately show ?thesis
      using Cons.IH [of t] Cons.prems(2, 3) tf t(2)
      by (auto split: option.splits simp: wrote_quiet dest: quiet_trans wrote_trans intro: wrote_trans)
  next
    case True
    let ?E = "fat_update ?D s (copies s) ?c 0x0FFFFFF8"
    obtain u where u: "set_fat_entry rd wr ?c 0x0FFFFFF8 t = Some (u, True)" "wrote disk cap inv t u ?E"
        "sector_buf u = disk (machine u) (fat_copy s (unat (num_fats s) - 1) ?c)"
      using set_fat_entry_ok [OF tf(1), of ?c "0x0FFFFFF8"] tf Cons.prems(2) c by auto
    note uf = wrote_fields [OF u(2)] same_volume_fields [OF wrote_fields(2) [OF u(2)]]
    have "\<forall>j \<in> set [0..<unat (sectors_per_cluster u)]. ucast (cluster_to_sector u ?c + of_nat j :: u32) < cap (machine u)"
      using sector_ok(2) [OF Cons.prems(2) c] uf tf by simp
    from zero_sectors_correct [OF uf(1) this] obtain w where
      w: "zero_sectors wr (cluster_to_sector u ?c) [0..<unat (sectors_per_cluster u)] u = Some w"
         "wrote disk cap inv u w (zeroed ?E (sectors_of s ?c))" "sector_buf w = sector_buf u"
      using uf tf by (auto simp: sectors_of_def)
    have "alloc_from rd wr (i # ns) s = Some (w, ?c)" using t(1) raw True u(1) w(1) by (simp add: Let_def)
    moreover have "wrote disk cap inv s w (zeroed ?E (sectors_of s ?c))"
      using t(2) wrote_trans [OF u(2) w(2)] by (auto simp: wrote_quiet intro: wrote_trans)
    ultimately show ?thesis using True w(3) u(3) uf by auto
  qed
qed

end

text \<open>The search of \<open>alloc_cluster\<close> covers exactly the clusters of the volume, in order.\<close>

definition cluster_list :: "'s fat \<Rightarrow> nat list" where
  "cluster_list s = [2..<unat (total_clusters s) + 2]"

definition free_cluster :: "image \<Rightarrow> 's fat \<Rightarrow> u32 option" where
  "free_cluster D s = map_option of_nat (find (\<lambda>i. fat_next D s (of_nat i) = 0) (cluster_list s))"

lemma unat_total: "vol_ok n s \<Longrightarrow> unat (total_clusters s + 2) = unat (total_clusters s) + 2"
  by (subst unat_add32) (simp_all add: vol_ok_def)

lemma set_cluster_list: "i \<in> set (cluster_list s) \<longleftrightarrow> 2 \<le> i \<and> i < unat (total_clusters s) + 2"
  by (simp only: cluster_list_def set_upt atLeastLessThan_iff)

lemma alloc_range:
  assumes "vol_ok n s" "i \<in> set (cluster_list s)"
  shows "cluster_ok s (of_nat i)" "unat (of_nat i :: u32) = i"
proof -
  have i: "2 \<le> i" "i < unat (total_clusters s) + 2" using assms(2) by (simp_all only: set_cluster_list)
  moreover have "unat (total_clusters s) + 2 \<le> 268435448" using assms(1) by (simp add: vol_ok_def)
  ultimately have "i < 268435448" by linarith
  then have "i < 2 ^ 32" by simp
  then show u: "unat (of_nat i :: u32) = i" by (rule unat_of_nat32)
  show "cluster_ok s (of_nat i)" unfolding cluster_ok_def u using i by blast
qed

lemma cluster_listed: "cluster_ok s c \<longleftrightarrow> unat c \<in> set (cluster_list s)"
  by (simp only: set_cluster_list cluster_ok_def)

lemma free_cluster_None:
  assumes "vol_ok n s"
  shows "free_cluster D s = None \<longleftrightarrow> (\<forall>c. cluster_ok s c \<longrightarrow> fat_next D s c \<noteq> 0)"
proof -
  have "(\<forall>i \<in> set (cluster_list s). fat_next D s (of_nat i) \<noteq> 0) \<longleftrightarrow>
      (\<forall>c. cluster_ok s c \<longrightarrow> fat_next D s c \<noteq> 0)"
  proof (intro iffI allI impI ballI)
    fix c
    assume a: "\<forall>i \<in> set (cluster_list s). fat_next D s (of_nat i) \<noteq> 0" and "cluster_ok s c"
    then have "unat c \<in> set (cluster_list s)" by (simp only: cluster_listed)
    then show "fat_next D s c \<noteq> 0" using a [rule_format, of "unat c"] by simp
  qed (use alloc_range [OF assms] in blast)
  then show ?thesis by (auto simp: free_cluster_def find_None_iff)
qed

lemma free_cluster_Some:
  assumes "vol_ok n s" "free_cluster D s = Some c"
  shows "cluster_ok s c" "fat_next D s c = 0" "\<forall>d. cluster_ok s d \<and> fat_next D s d = 0 \<longrightarrow> c \<le> d" "c \<noteq> 0"
proof -
  obtain i where f: "find (\<lambda>i. fat_next D s (of_nat i) = 0) (cluster_list s) = Some i" and c: "c = of_nat i"
    using assms(2) by (auto simp: free_cluster_def)
  then have i: "2 \<le> i \<and> i < unat (total_clusters s) + 2 \<and> fat_next D s (of_nat i) = 0 \<and>
      (\<forall>j. 2 \<le> j \<longrightarrow> j < i \<longrightarrow> fat_next D s (of_nat j) \<noteq> 0)"
    unfolding cluster_list_def find_from_Some by blast
  then have "i \<in> set (cluster_list s)" by (simp only: set_cluster_list)
  then have u: "cluster_ok s c" "unat c = i" unfolding c by (rule alloc_range [OF assms(1)])+
  then show "cluster_ok s c" "fat_next D s c = 0" "c \<noteq> 0" using i c by (auto simp: cluster_ok_def)
  show "\<forall>d. cluster_ok s d \<and> fat_next D s d = 0 \<longrightarrow> c \<le> d"
  proof (intro allI impI)
    fix d
    assume d: "cluster_ok s d \<and> fat_next D s d = 0"
    have "\<not> unat d < i"
    proof
      assume "unat d < i"
      moreover have "2 \<le> unat d" using d by (simp add: cluster_ok_def)
      ultimately have "fat_next D s (of_nat (unat d)) \<noteq> 0" using i by blast
      then show False using d by simp
    qed
    then show "c \<le> d" using u by (simp add: word_le_nat_alt)
  qed
qed

definition allocated :: "image \<Rightarrow> 's fat \<Rightarrow> u32 \<Rightarrow> image" where
  "allocated D s c = zeroed (fat_update D s (copies s) c 0x0FFFFFF8) (sectors_of s c)"

text \<open>What \<open>create_entry\<close> puts over the bytes it finds in the buffer after the allocation.\<close>

definition link_entry :: "nat \<Rightarrow> u32 \<Rightarrow> u8 list \<Rightarrow> u8 list" where
  "link_entry e c b =
     put (put (put b (DIRENT * e + 20) (le_bytes 2 (ucast (drop_bit 16 c AND 0xFFFF) :: u16)))
       (DIRENT * e + 26) (le_bytes 2 (ucast (c AND 0xFFFF) :: u16)))
       (DIRENT * e + 28) (le_bytes 4 (0 :: u32))"

lemma length_string_to_fat_name [simp]: "length (string_to_fat_name nm) = 11"
  by (simp add: string_to_fat_name_def pad_def Let_def)

context block_device
begin

lemma alloc_cluster_ok:
  assumes "fat_ok inv s" "vol_ok (cap (machine s)) s"
  shows "case free_cluster (disk (machine s)) s of
      None \<Rightarrow> \<exists>t. alloc_cluster rd wr s = Some (t, 0) \<and> quiet disk cap inv s t
    | Some c \<Rightarrow> \<exists>t. alloc_cluster rd wr s = Some (t, c) \<and>
        wrote disk cap inv s t (allocated (disk (machine s)) s c) \<and>
        sector_buf t = fat_update (disk (machine s)) s (copies s) c 0x0FFFFFF8 (fat_copy s (unat (num_fats s) - 1) c)"
  using alloc_from_correct [OF assms, of "cluster_list s"] alloc_range(1) [OF assms(2)]
  unfolding alloc_cluster_def unat_total [OF assms(2)] free_cluster_def allocated_def cluster_list_def [symmetric]
  by (auto split: option.splits)

lemma create_entry_correct:
  assumes ok: "fat_ok inv s" "vol_ok (cap (machine s)) s" and c: "free_cluster (disk (machine s)) s = Some c"
    and e: "e < 16" and sec: "ucast sec < cap (machine s)"
  shows "\<exists>t. create_entry rd wr sec e nm s = Some (t, True) \<and>
    wrote disk cap inv s t ((allocated (disk (machine s)) s c)(ucast sec :=
      link_entry e c (fat_update (disk (machine s)) s (copies s) c 0x0FFFFFF8 (fat_copy s (unat (num_fats s) - 1) c))))"
proof -
  let ?D = "disk (machine s)" and ?off = "DIRENT * e"
  let ?F = "fat_update ?D s (copies s) c 0x0FFFFFF8 (fat_copy s (unat (num_fats s) - 1) c)"
  define b where "b = put (put (put (sector_buf s) ?off (replicate DIRENT 0)) ?off (string_to_fat_name nm))
      (?off + 11) [ATTR_ARCHIVE]"
  define s' where "s' = s\<lparr>sector_buf := b\<rparr>"
  have "length b = 512" using ok(1) e by (simp add: b_def DIRENT_def fat_ok_def)
  then have s': "fat_ok inv s'" "same_volume s s'" "machine s' = machine s"
    using ok(1) by (simp_all add: s'_def fat_ok_def same_volume_def)
  note sf = same_volume_fields [OF s'(2)] vol_ok_volume [OF s'(2)]
  have "vol_ok (cap (machine s')) s'" using ok(2) sf s' by simp
  moreover have "free_cluster ?D s' = free_cluster ?D s" by (simp add: free_cluster_def cluster_list_def sf)
  moreover have "allocated ?D s' c = allocated ?D s c" by (simp add: allocated_def sf)
  ultimately obtain t where t: "alloc_cluster rd wr s' = Some (t, c)" "wrote disk cap inv s' t (allocated ?D s c)"
      "sector_buf t = ?F"
    using alloc_cluster_ok [OF s'(1)] c s' sf by auto
  have st: "wrote disk cap inv s t (allocated ?D s c)"
    using t(2) s' by (auto simp: wrote_def intro: same_volume_trans)
  note tf = wrote_fields [OF st]
  have F: "length ?F = 512"
    using tf(1) t(3) by (simp add: fat_ok_def)
  define t' where "t' = t\<lparr>sector_buf := link_entry e c ?F\<rparr>"
  have L: "length (link_entry e c ?F) = 512" using F e by (simp add: link_entry_def DIRENT_def)
  then have t': "fat_ok inv t'" "same_volume t t'" "machine t' = machine t"
    using tf(1) by (simp_all add: t'_def fat_ok_def same_volume_def)
  obtain u where u: "write_from wr sec (link_entry e c ?F) t' = Some (u, True)"
      "wrote disk cap inv t' u ((disk (machine t'))(ucast sec := link_entry e c ?F))"
    using write_from_in [OF t'(1) _ L, of sec] sec tf t' by auto
  have "create_entry rd wr sec e nm s = Some (u, True)"
    using t(1, 3) u(1) free_cluster_Some(4) [OF ok(2) c]
    by (simp add: create_entry_def Let_def b_def s'_def t'_def link_entry_def)
  moreover have "wrote disk cap inv s u ((allocated ?D s c)(ucast sec := link_entry e c ?F))"
    using u(2) t' st by (auto simp: wrote_def intro: same_volume_trans)
  ultimately show ?thesis by blast
qed

end

section \<open>Names\<close>

text \<open>A lower-case name that fits 8.3: no blank, no dot, no upper-case letter, no NUL.\<close>

definition plain :: "u8 \<Rightarrow> bool" where
  "plain c \<longleftrightarrow> c \<noteq> 0 \<and> c \<noteq> 32 \<and> c \<noteq> 46 \<and> \<not> (c \<ge> 65 \<and> c \<le> 90)"

definition dotted :: "u8 list \<Rightarrow> u8 list \<Rightarrow> u8 list" where
  "dotted base ext = base @ (if ext = [] then [] else 46 # ext)"

lemma lower_upper: "plain c \<Longrightarrow> lower (upper c) = c"
  by (auto simp: plain_def lower_def upper_def word_le_nat_alt unat_sub_if' word_unat_eq_iff unat_plus_if'
      split: if_splits)

lemma upper_not_blank: "plain c \<Longrightarrow> upper c \<noteq> 32"
  by (auto simp: plain_def upper_def word_le_nat_alt unat_sub_if' word_unat_eq_iff split: if_splits)

lemma takeWhile_pad:
  assumes "\<forall>c \<in> set xs. c \<noteq> 32" "length xs \<le> k"
  shows "takeWhile (\<lambda>c. c \<noteq> 32) (pad k xs) = xs"
  using assms by (simp add: pad_def takeWhile_append takeWhile_replicate)

text \<open>
  Names survive the 8.3 encoding: a lower-case name with a base of at most 8 and an
  extension of at most 3 characters is read back as it was given.
\<close>

theorem fat_name_round_trip:
  assumes b: "\<forall>c \<in> set base. plain c" "length base \<le> 8" and x: "\<forall>c \<in> set ext. plain c" "length ext \<le> 3"
  shows "fat_name_to_string (string_to_fat_name (dotted base ext)) = dotted base ext"
proof -
  have d: "\<forall>c \<in> set base. c \<noteq> 46" using b(1) by (auto simp: plain_def)
  have "takeWhile (\<lambda>c. c \<noteq> 46) (dotted base ext) = base"
    using d by (auto simp: dotted_def takeWhile_append takeWhile_eq_all_conv)
  moreover have "tl (dropWhile (\<lambda>c. c \<noteq> 46) (dotted base ext)) = ext"
    using d by (auto simp: dotted_def dropWhile_append)
  ultimately have n: "string_to_fat_name (dotted base ext) = pad 8 (map upper base) @ pad 3 (map upper ext)"
    using b(2) x(2) by (simp add: string_to_fat_name_def Let_def)
  have l: "length (pad 8 (map upper base)) = 8" "length (pad 3 (map upper ext)) = 3"
    using b(2) x(2) by (simp_all add: pad_def)
  have lu: "map lower (map upper xs) = xs" if "\<forall>c \<in> set xs. plain c" for xs
    using that lower_upper by (simp add: map_idI comp_def)
  have tb: "takeWhile (\<lambda>c. c \<noteq> 32) (pad 8 (map upper base)) = map upper base"
    "takeWhile (\<lambda>c. c \<noteq> 32) (pad 3 (map upper ext)) = map upper ext"
    using b x upper_not_blank by (auto intro!: takeWhile_pad)
  have "(pad 8 (map upper base) @ pad 3 (map upper ext)) ! 8 = pad 3 (map upper ext) ! 0"
    using l by (simp add: nth_append)
  also have "\<dots> = (if ext = [] then 32 else upper (hd ext))"
    by (cases ext) (simp_all add: pad_def)
  finally have e: "(pad 8 (map upper base) @ pad 3 (map upper ext)) ! 8 \<noteq> 32 \<longleftrightarrow> ext \<noteq> []"
    using x(1) upper_not_blank by (auto simp: hd_conv_nth)
  show ?thesis
    unfolding fat_name_to_string_def n e using l tb lu [OF b(1)] lu [OF x(1)]
    by (simp add: dotted_def del: map_map)
qed

theorem fat_name_round_trip_witness:
  "fat_name_to_string (string_to_fat_name (ascii ''readme.md'')) = ascii ''readme.md''"
  using fat_name_round_trip [of "ascii ''readme''" "ascii ''md''"] by (simp add: dotted_def plain_def ascii_def)

end
