(* ===== verification/Fat32_Grow.thy ===== *)
theory Fat32_Grow
  imports Fat32_Write
begin

text \<open>
  Writing past the end of a chain: \<open>write_file\<close> allocates clusters one by one, links each to
  its predecessor and fills it.
\<close>

lemma fat_chain_snoc:
  assumes "fat_chain D s c cs" "cs \<noteq> []" "\<not> is_end_cluster x" "is_end_cluster (fat_next D' s x)"
    and "fat_next D' s (last cs) = x" "\<forall>d \<in> set cs. d \<noteq> last cs \<longrightarrow> fat_next D' s d = fat_next D s d"
  shows "fat_chain D' s c (cs @ [x])"
  using assms(1, 2, 5, 6) fat_chain_distinct [OF assms(1)]
proof (induction cs arbitrary: c)
  case (Cons y cs)
  show ?case
  proof (cases "cs = []")
    case True
    then show ?thesis using Cons.prems assms(3, 4) by simp
  next
    case False
    have "y \<noteq> last (y # cs)" using Cons.prems(5) False by (metis distinct.simps(2) last_ConsR last_in_set)
    then have "fat_next D' s y = fat_next D s y" using Cons.prems(4) by simp
    moreover have "fat_chain D' s (fat_next D s y) (cs @ [x])"
      using Cons.prems False by (intro Cons.IH) auto
    ultimately show ?thesis using Cons.prems(1) by auto
  qed
qed simp

text \<open>The free clusters of a volume.\<close>

definition free_clusters_of :: "image \<Rightarrow> 's fat \<Rightarrow> u32 set" where
  "free_clusters_of D s = {d. cluster_ok s d \<and> fat_next D s d = 0}"

lemma finite_free [simp]: "finite (free_clusters_of D s)"
  by simp

lemma mask28_small: "unat (c :: u32) < 0x0FFFFFF8 \<Longrightarrow> c AND 0x0FFFFFFF = c"
proof -
  assume "unat c < 0x0FFFFFF8"
  then have "unat c < 2 ^ 28" by simp
  moreover have m: "(0x0FFFFFFF :: u32) = mask 28" by (simp add: mask_eq_exp_minus_1)
  ultimately show ?thesis unfolding m using unat_field [of 0 c 28] by (simp add: word_unat_eq_iff)
qed

lemma mask28_eoc: "(w AND 0xF0000000 OR v AND 0x0FFFFFFF) AND 0x0FFFFFFF = v AND (0x0FFFFFFF :: u32)"
proof -
  have "(0xF0000000 :: u32) AND 0x0FFFFFFF = 0" by simp
  moreover have "(w AND m OR v AND n) AND n = w AND (m AND n) OR v AND n" for m n :: u32
    by (rule bit_word_eqI) (auto simp: bit_simps)
  ultimately show ?thesis by simp
qed

text \<open>
  \<open>linked D s p x src\<close>: the disk after cluster \<open>x\<close> was allocated, linked behind \<open>p\<close> and
  filled from \<open>src\<close>.
\<close>

definition linked :: "image \<Rightarrow> 's fat \<Rightarrow> u32 \<Rightarrow> u32 \<Rightarrow> u8 list \<Rightarrow> image" where
  "linked D s p x src = fill (fat_update (allocated D s x) s (copies s) p x) (sectors_of s x) src"

lemma linked_facts:
  assumes v: "vol_ok n s" and p: "cluster_ok s p" and x: "cluster_ok s x" "p \<noteq> x"
    and len: "\<forall>y. length (D y) = 512"
  shows "fat_next (linked D s p x src) s p = x"
    and "fat_next (linked D s p x src) s x = 0x0FFFFFF8"
    and "\<And>d. cluster_ok s d \<Longrightarrow> d \<noteq> p \<Longrightarrow> d \<noteq> x \<Longrightarrow> fat_next (linked D s p x src) s d = fat_next D s d"
    and "\<And>d y. cluster_ok s d \<Longrightarrow> d \<noteq> x \<Longrightarrow> y \<in> set (sectors_of s d) \<Longrightarrow> linked D s p x src y = D y"
    and "\<forall>y. length (linked D s p x src y) = 512"
proof -
  let ?A = "fat_update D s (copies s) x 0x0FFFFFF8" and ?Z = "allocated D s x"
  let ?U = "fat_update ?Z s (copies s) p x"
  have lA: "\<forall>y. length (?A y) = 512" using fat_update_length [OF entry_fits [OF v x(1)] len] by blast
  then have lZ: "\<forall>y. length (?Z y) = 512" by (simp add: allocated_def zeroed_def)
  then have lU: "\<forall>y. length (?U y) = 512" using fat_update_length [OF entry_fits [OF v p]] by blast
  then show "\<forall>y. length (linked D s p x src y) = 512" by (simp add: linked_def fill_length)
  have n0: "0 < unat (num_fats s)" using v by (simp add: vol_ok_def)
  have zA: "fat_entry ?Z s 0 d = fat_entry ?A s 0 d" if "cluster_ok s d" for d
    using fat_not_data [OF v that x(1) n0] by (simp add: fat_entry_def allocated_def zeroed_def)
  have fU: "fat_next (linked D s p x src) s d = fat_next ?U s d" if "cluster_ok s d" for d
    unfolding linked_def using fill_fat_next [OF v that, of "[x]" "sectors_of s x"] x(1) by simp
  note rA = retabled_update [OF v x(1) len, of "0x0FFFFFF8"]
  note rU = retabled_update [OF v p lZ, of x]
  have eA: "fat_entry ?A s 0 d = (if d = x then (fat_entry D s 0 d AND 0xF0000000) OR (0x0FFFFFF8 AND 0x0FFFFFFF)
      else fat_entry D s 0 d)" if "cluster_ok s d" for d
    using rA that n0 unfolding retabled_def by blast
  have eU: "fat_next ?U s d = (if d = p then (fat_entry ?Z s 0 d AND 0xF0000000) OR (x AND 0x0FFFFFFF)
      else fat_entry ?Z s 0 d) AND 0x0FFFFFFF" if "cluster_ok s d" for d
    using retabled_next [OF rU v that] .
  have "x AND 0x0FFFFFFF = x" using cluster_bounds(1) [OF v x(1)] by (rule mask28_small)
  then have "(w AND 0xF0000000 OR x AND 0x0FFFFFFF) AND 0x0FFFFFFF = x" for w using mask28_eoc [of w x] by simp
  then show "fat_next (linked D s p x src) s p = x" unfolding fU [OF p] eU [OF p] by (simp only: simp_thms if_True)
  show "fat_next (linked D s p x src) s x = 0x0FFFFFF8"
    using x mask28_eoc [of "fat_entry D s 0 x" "0x0FFFFFF8"] by (simp add: fU eU zA eA)
  show "fat_next (linked D s p x src) s d = fat_next D s d" if "cluster_ok s d" "d \<noteq> p" "d \<noteq> x" for d
    using that unfolding fU [OF that(1)] eU [OF that(1)] by (simp add: zA eA fat_next_entry)
  show "linked D s p x src y = D y" if d: "cluster_ok s d" "d \<noteq> x" "y \<in> set (sectors_of s d)" for d y
  proof -
    have "y \<notin> set (sectors_of s x)" using clusters_apart [OF v d(1) x(1) d(2)] d(3) by auto
    then have "linked D s p x src y = ?U y" by (simp add: linked_def fill_other)
    also have "\<dots> = ?Z y" using fat_update_data [OF v p d(1) _ d(3)] by simp
    also have "\<dots> = ?A y" using \<open>y \<notin> _\<close> by (simp add: allocated_def zeroed_def)
    also have "\<dots> = D y" using fat_update_data [OF v x(1) d(1) _ d(3)] by simp
    finally show ?thesis .
  qed
qed

lemma fill_take: "fill D xs (take (512 * length xs) src) = fill D xs src"
proof (induction xs arbitrary: D src)
  case (Cons x xs)
  have "take 512 (take (512 + 512 * length xs) src) = take 512 src" by simp
  moreover have "512 - length (take (512 + 512 * length xs) src) = 512 - length src" by simp
  moreover have "drop 512 (take (512 + 512 * length xs) src) = take (512 * length xs) (drop 512 src)"
    by (simp add: drop_take)
  ultimately show ?case using Cons.IH by simp
qed simp

lemma fill_prefix:
  assumes "distinct xs" "\<forall>x. length (D x) = 512"
  shows "take (length src) (concat (map (fill D xs src) xs)) = take (512 * length xs) src"
proof -
  let ?s = "take (512 * length xs) src" and ?C = "concat (map (fill D xs src) xs)"
  have l: "length (concat (map (fill D xs src) ys)) = 512 * length ys" for ys
    using fill_length [OF assms(2)] by (induction ys) simp_all
  have "take (length ?s) ?C = ?s" using fill_contents [OF assms(1), of ?s D] by (simp add: fill_take)
  moreover have "take (length ?s) ?C = take (length src) ?C" by (simp add: min_def l)
  ultimately show ?thesis by simp
qed

lemma chain_not_free:
  assumes "vol_ok n s" "fat_chain D s c cs" "\<forall>d \<in> set cs. cluster_ok s d" "d \<in> set cs"
  shows "fat_next D s d \<noteq> 0"
  using assms(2-4)
proof (induction cs arbitrary: c)
  case (Cons y cs)
  have "fat_next D s y \<noteq> 0"
  proof (cases cs)
    case Nil
    then show ?thesis using Cons.prems by (auto simp: is_end_cluster_def)
  next
    case (Cons z zs)
    then show ?thesis using Cons.prems by (auto simp: cluster_ok_def)
  qed
  then show ?case using Cons by auto
qed simp

context block_device
begin

text \<open>One round of the loop at the end of a chain.\<close>

lemma grow_step:
  assumes ok: "fat_ok inv s" "vol_ok (cap (machine s)) s" and p: "cluster_ok s p"
    and x: "free_cluster (disk (machine s)) s = Some x" "p \<noteq> x" and c: "is_end_cluster c"
    and src: "src \<noteq> []" "length src < 2 ^ 32"
  shows "\<exists>t. store_clusters rd wr c p (of_nat (length src)) src s =
      store_clusters rd wr 0x0FFFFFF8 x (of_nat (length (drop (512 * unat (sectors_per_cluster s)) src)))
        (drop (512 * unat (sectors_per_cluster s)) src) t \<and>
    wrote disk cap inv s t (linked (disk (machine s)) s p x src)"
proof -
  let ?D = "disk (machine s)" and ?is = "[0..<unat (sectors_per_cluster s)]"
  let ?U = "fat_update (allocated ?D s x) s (copies s) p x"
  note xf = free_cluster_Some [OF ok(2) x(1)]
  obtain t where t: "alloc_cluster rd wr s = Some (t, x)" "wrote disk cap inv s t (allocated ?D s x)"
    using alloc_cluster_ok [OF ok] x(1) by auto
  note tf = wrote_fields [OF t(2)] same_volume_fields [OF wrote_fields(2) [OF t(2)]]
    vol_ok_volume [OF wrote_fields(2) [OF t(2)]]
  obtain u where u: "set_fat_entry rd wr p x t = Some (u, True)" "wrote disk cap inv t u ?U"
    using set_fat_entry_ok [OF tf(1), of p x] tf ok(2) p by auto
  have su: "wrote disk cap inv s u ?U" using wrote_trans [OF t(2) u(2)] .
  note uf = wrote_fields [OF su] same_volume_fields [OF wrote_fields(2) [OF su]]
    vol_ok_volume [OF wrote_fields(2) [OF su]]
  have ext: "extend_chain rd wr c p s = Some (u, Some x)"
    using c t(1) u(1) xf(4) p by (auto simp: extend_chain_def cluster_ok_def)
  have secs: "map (\<lambda>i. ucast (cluster_to_sector u x + of_nat i)) [0..<unat (sectors_per_cluster u)] = sectors_of s x"
    by (simp add: sectors_of_def uf)
  have "\<forall>i \<in> set [0..<unat (sectors_per_cluster u)]. ucast (cluster_to_sector u x + of_nat i :: u32) < cap (machine u)"
    using sector_ok(2) [OF ok(2) xf(1)] uf by simp
  from store_sectors_correct [OF uf(1) this src(2)] obtain w where
    w: "store_sectors wr (cluster_to_sector u x) [0..<unat (sectors_per_cluster u)] (of_nat (length src)) src u =
        Some (w, of_nat (length (drop (512 * unat (sectors_per_cluster s)) src)),
          drop (512 * unat (sectors_per_cluster s)) src, True)"
      "wrote disk cap inv u w (linked ?D s p x src)"
    unfolding secs linked_def by (auto simp: uf)
  have sw: "wrote disk cap inv s w (linked ?D s p x src)" using wrote_trans [OF su w(2)] .
  note wf = wrote_fields [OF sw] same_volume_fields [OF wrote_fields(2) [OF sw]]
  have "ucast (fat_sector w x) < cap (machine w)"
    using on_disk_ok [OF ok(2), of "[x]"] xf(1) wf by (simp add: on_disk_def)
  from next_cluster_in [OF wf(1) this] obtain v where
    v: "next_cluster rd x w = Some (v, 0x0FFFFFF8)" "quiet disk cap inv w v"
    using linked_facts(2) [OF ok(2) p xf(1) x(2) disk_lengths [OF ok(1)]] wf by auto
  have "0 < (of_nat (length src) :: u32)"
    using src unat_of_nat32 [OF src(2)] by (simp add: word_less_nat_alt)
  then have "store_clusters rd wr c p (of_nat (length src)) src s =
      store_clusters rd wr 0x0FFFFFF8 x (of_nat (length (drop (512 * unat (sectors_per_cluster s)) src)))
        (drop (512 * unat (sectors_per_cluster s)) src) v"
    using ext w(1) v(1) by (subst store_clusters.simps) simp
  moreover have "wrote disk cap inv s v (linked ?D s p x src)"
    using sw v(2) wf by (auto simp: wrote_quiet intro: wrote_trans)
  ultimately show ?thesis by blast
qed

end

text \<open>
  \<open>grown s D D' cs news src\<close>: the chain \<open>cs\<close> was extended by the formerly free clusters
  \<open>news\<close>, which hold \<open>src\<close>; every other cluster and every other table entry is unchanged.
\<close>

definition grown :: "'s fat \<Rightarrow> image \<Rightarrow> image \<Rightarrow> u32 list \<Rightarrow> u32 list \<Rightarrow> u8 list \<Rightarrow> bool" where
  "grown s D D' cs news src \<longleftrightarrow>
     fat_chain D' s (hd cs) (cs @ news) \<and> set news \<subseteq> free_clusters_of D s \<and>
     take (length src) (chain_bytes D' s news) = src \<and>
     (\<forall>d. cluster_ok s d \<and> d \<notin> set news \<longrightarrow>
        (\<forall>y \<in> set (sectors_of s d). D' y = D y) \<and> (d \<noteq> last cs \<longrightarrow> fat_next D' s d = fat_next D s d))"

lemma grown_volume:
  assumes "same_volume s t"
  shows "grown t D D' cs news src = grown s D D' cs news src"
  using same_volume_fields [OF assms] vol_ok_volume [OF assms] fat_chain_volume [OF assms]
  by (simp add: grown_def free_clusters_of_def)

lemma grown_step:
  assumes v: "vol_ok n s" and cs: "fat_chain D s (hd cs) cs" "cs \<noteq> []" "\<forall>d \<in> set cs. cluster_ok s d"
    and x: "free_cluster D s = Some x" and len: "\<forall>y. length (D y) = 512"
    and g: "grown s (linked D s (last cs) x src) D' (cs @ [x]) news (drop (512 * unat (sectors_per_cluster s)) src)"
  shows "grown s D D' cs (x # news) src"
proof -
  let ?E = "linked D s (last cs) x src" and ?N = "512 * unat (sectors_per_cluster s)"
  note xf = free_cluster_Some [OF v x]
  have p: "cluster_ok s (last cs)" "last cs \<noteq> x"
    using cs chain_not_free [OF v cs(1, 3), of "last cs"] xf(2) by auto
  note E = linked_facts [OF v p(1) xf(1) p(2) len, where src = src]
  have "fat_next ?E s d = 0 \<longleftrightarrow> fat_next D s d = 0 \<and> d \<noteq> x" if "cluster_ok s d" for d
    using E(1, 2) E(3) [OF that] xf chain_not_free [OF v cs(1, 3), of "last cs"] cs(2)
    by (cases "d = last cs"; cases "d = x") auto
  then have fr: "free_clusters_of ?E s = free_clusters_of D s - {x}"
    by (auto simp: free_clusters_of_def)
  have news: "set news \<subseteq> free_clusters_of D s" "x \<notin> set news" "last cs \<notin> set news"
    using g fr chain_not_free [OF v cs(1, 3), of "last cs"] cs(2) by (auto simp: grown_def free_clusters_of_def)
  have keep: "(\<forall>y \<in> set (sectors_of s d). D' y = ?E y) \<and> (d \<noteq> x \<longrightarrow> fat_next D' s d = fat_next ?E s d)"
    if "cluster_ok s d" "d \<notin> set news" for d
    using g that by (simp add: grown_def)
  have secs: "concat (map D' (sectors_of s x)) = concat (map ?E (sectors_of s x))"
    using keep [OF xf(1) news(2)] by (intro arg_cong [where f = concat] map_cong) auto
  have "distinct (sectors_of s x)" using sectors_distinct [OF v, of "[x]"] xf(1) by simp
  moreover have lU: "\<forall>y. length (fat_update (allocated D s x) s (copies s) (last cs) x y) = 512"
  proof -
    have "\<forall>y. length (fat_update D s (copies s) x 0x0FFFFFF8 y) = 512"
      using fat_update_length [OF entry_fits [OF v xf(1)] len] by blast
    then have "\<forall>y. length (allocated D s x y) = 512" by (simp add: allocated_def zeroed_def)
    then show ?thesis using fat_update_length [OF entry_fits [OF v p(1)]] by blast
  qed
  ultimately have fx: "take (length src) (concat (map ?E (sectors_of s x))) = take ?N src"
    using fill_prefix [of "sectors_of s x" _ src] by (simp add: linked_def sectors_of_def)
  have lx: "length (concat (map ?E (sectors_of s x))) = ?N"
  proof -
    have "length (concat (map ?E ys)) = 512 * length ys" for ys using E(5) by (induction ys) simp_all
    from this [of "sectors_of s x"] show ?thesis by (simp add: sectors_of_def)
  qed
  have "take (length src) (chain_bytes D' s (x # news)) =
      take (length src) (concat (map ?E (sectors_of s x))) @ take (length src - ?N) (chain_bytes D' s news)"
    using secs lx by (simp add: chain_bytes_def)
  also have "\<dots> = take ?N src @ drop ?N src"
    using g fx by (simp add: grown_def)
  finally have "take (length src) (chain_bytes D' s (x # news)) = src" by simp
  moreover have "fat_chain D' s (hd cs) (cs @ x # news)" using g cs(2) by (simp add: grown_def)
  moreover have "set (x # news) \<subseteq> free_clusters_of D s" using news xf by (simp add: free_clusters_of_def)
  moreover have "(\<forall>y \<in> set (sectors_of s d). D' y = D y) \<and> (d \<noteq> last cs \<longrightarrow> fat_next D' s d = fat_next D s d)"
    if "cluster_ok s d" "d \<notin> set (x # news)" for d
    using keep [of d] E(3, 4) [of d] that by auto
  ultimately show ?thesis unfolding grown_def by blast
qed

context block_device
begin

lemma grow_correct:
  assumes "fat_ok inv s" "vol_ok (cap (machine s)) s" "fat_chain (disk (machine s)) s (hd cs) cs" "cs \<noteq> []"
    and "\<forall>d \<in> set cs. cluster_ok s d" "is_end_cluster c"
    and "length src \<le> 512 * (unat (sectors_per_cluster s) * m)" "m \<le> card (free_clusters_of (disk (machine s)) s)"
    and "length src < 2 ^ 32"
  shows "\<exists>t D' news. store_clusters rd wr c (last cs) (of_nat (length src)) src s = Some (t, True) \<and>
    wrote disk cap inv s t D' \<and> grown s (disk (machine s)) D' cs news src"
  using assms
proof (induction m arbitrary: s cs c src)
  case 0
  then have "src = []" by simp
  then have "store_clusters rd wr c (last cs) (of_nat (length src)) src s = Some (s, True)"
    by (subst store_clusters.simps) simp
  moreover have "wrote disk cap inv s s (disk (machine s))" using 0 by (simp add: wrote_def)
  moreover have "grown s (disk (machine s)) (disk (machine s)) cs [] src"
    using 0 \<open>src = []\<close> by (simp add: grown_def)
  ultimately show ?case by blast
next
  case (Suc m)
  let ?D = "disk (machine s)" and ?N = "512 * unat (sectors_per_cluster s)"
  show ?case
  proof (cases "src = []")
    case True
    then have "store_clusters rd wr c (last cs) (of_nat (length src)) src s = Some (s, True)"
      by (subst store_clusters.simps) simp
    moreover have "wrote disk cap inv s s ?D" using Suc.prems by (simp add: wrote_def)
    moreover have "grown s ?D ?D cs [] src" using Suc.prems True by (simp add: grown_def)
    ultimately show ?thesis by blast
  next
    case False
    have "free_clusters_of ?D s \<noteq> {}" using Suc.prems(8) by auto
    then obtain x where x: "free_cluster ?D s = Some x"
      using free_cluster_None [OF Suc.prems(2), of ?D] by (auto simp: free_clusters_of_def)
    note xf = free_cluster_Some [OF Suc.prems(2) x]
    have nf: "fat_next ?D s d \<noteq> 0" if "d \<in> set cs" for d
      using chain_not_free [OF Suc.prems(2, 3, 5) that] .
    have p: "cluster_ok s (last cs)" "last cs \<noteq> x" using Suc.prems(4, 5) nf [of "last cs"] xf(2) by auto
    let ?E = "linked ?D s (last cs) x src"
    note E = linked_facts [OF Suc.prems(2) p(1) xf(1) p(2) disk_lengths [OF Suc.prems(1)], where src = src]
    obtain t where t: "store_clusters rd wr c (last cs) (of_nat (length src)) src s =
          store_clusters rd wr 0x0FFFFFF8 x (of_nat (length (drop ?N src))) (drop ?N src) t"
        "wrote disk cap inv s t ?E"
      using grow_step [OF Suc.prems(1, 2) p(1) x p(2) Suc.prems(6) False Suc.prems(9)] by blast
    note tf = wrote_fields [OF t(2)] same_volume_fields [OF wrote_fields(2) [OF t(2)]]
      vol_ok_volume [OF wrote_fields(2) [OF t(2)]]
    have "fat_next ?E s d = fat_next ?D s d" if "d \<in> set cs" "d \<noteq> last cs" for d
      using E(3) [of d] that Suc.prems(5) nf [of d] xf(2) by auto
    then have chain: "fat_chain ?E s (hd cs) (cs @ [x])"
      using Suc.prems(3, 4) E(1, 2) cluster_bounds(4) [OF Suc.prems(2) xf(1)]
      by (intro fat_chain_snoc [of ?D]) (simp_all add: is_end_cluster_def)
    have "free_clusters_of ?D s - {x} \<subseteq> free_clusters_of ?E s"
    proof
      fix d
      assume "d \<in> free_clusters_of ?D s - {x}"
      then have d: "cluster_ok s d" "fat_next ?D s d = 0" "d \<noteq> x" by (auto simp: free_clusters_of_def)
      moreover have "d \<noteq> last cs" using d(2) nf [of "last cs"] Suc.prems(4) by auto
      ultimately show "d \<in> free_clusters_of ?E s" using E(3) [of d] by (simp add: free_clusters_of_def)
    qed
    then have "card (free_clusters_of ?D s - {x}) \<le> card (free_clusters_of ?E s)" by (intro card_mono) simp_all
    moreover have "x \<in> free_clusters_of ?D s" using xf by (simp add: free_clusters_of_def)
    ultimately have "m \<le> card (free_clusters_of ?E s)" using Suc.prems(8) by simp
    moreover have "free_clusters_of ?E t = free_clusters_of ?E s" by (simp add: free_clusters_of_def tf)
    ultimately have room: "m \<le> card (free_clusters_of (disk (machine t)) t)" using tf by simp
    have len: "length (drop ?N src) \<le> 512 * (unat (sectors_per_cluster t) * m)" "length (drop ?N src) < 2 ^ 32"
      using Suc.prems(7, 9) tf by (simp_all add: distrib_left)
    have "fat_chain (disk (machine t)) t (hd (cs @ [x])) (cs @ [x])"
      using chain Suc.prems(4) tf fat_chain_volume [OF tf(2)] by simp
    moreover have "vol_ok (cap (machine t)) t" "\<forall>d \<in> set (cs @ [x]). cluster_ok t d" "cs @ [x] \<noteq> []"
      using Suc.prems(2, 5) xf(1) tf by auto
    moreover have "is_end_cluster 0x0FFFFFF8" by (simp add: is_end_cluster_def)
    ultimately obtain u D' news where
      u: "store_clusters rd wr 0x0FFFFFF8 (last (cs @ [x])) (of_nat (length (drop ?N src))) (drop ?N src) t = Some (u, True)"
         "wrote disk cap inv t u D'" "grown t (disk (machine t)) D' (cs @ [x]) news (drop ?N src)"
      using Suc.IH [OF tf(1) _ _ _ _ _ len(1) room len(2)] by blast
    have "grown s ?E D' (cs @ [x]) news (drop ?N src)" using u(3) grown_volume [OF tf(2)] tf by simp
    then have "grown s ?D D' cs (x # news) src"
      by (rule grown_step [OF Suc.prems(2-5) x disk_lengths [OF Suc.prems(1)]])
    then show ?thesis using t(1) u(1) wrote_trans [OF t(2) u(2)] by auto
  qed
qed

end

text \<open>
  \<open>stored s D D' cs news src\<close>: the file with the chain \<open>cs\<close> now has the chain \<open>cs @ news\<close>
  and begins with \<open>src\<close>; clusters that are not part of it keep their data and their entry.
\<close>

definition stored :: "'s fat \<Rightarrow> image \<Rightarrow> image \<Rightarrow> u32 list \<Rightarrow> u32 list \<Rightarrow> u8 list \<Rightarrow> bool" where
  "stored s D D' cs news src \<longleftrightarrow>
     fat_chain D' s (hd cs) (cs @ news) \<and> set news \<subseteq> free_clusters_of D s \<and>
     take (length src) (chain_bytes D' s (cs @ news)) = src \<and>
     (\<forall>d. cluster_ok s d \<and> d \<notin> set (cs @ news) \<longrightarrow>
        (\<forall>y \<in> set (sectors_of s d). D' y = D y) \<and> fat_next D' s d = fat_next D s d)"

context block_device
begin

lemma chain_bytes_length:
  "\<forall>y. length (D y) = 512 \<Longrightarrow> length (chain_bytes D s cs) = 512 * (unat (sectors_per_cluster s) * length cs)"
proof -
  assume D: "\<forall>y. length (D y) = 512"
  have "length (concat (map D ys)) = 512 * length ys" for ys using D by (induction ys) simp_all
  moreover have "length (concat (map (sectors_of s) cs)) = unat (sectors_per_cluster s) * length cs"
    by (induction cs) (simp_all add: sectors_of_def)
  ultimately show ?thesis by (simp add: chain_bytes_def)
qed

lemma write_chain_correct:
  assumes ok: "fat_ok inv s" "vol_ok (cap (machine s)) s"
    and cs: "fat_chain (disk (machine s)) s (hd cs) cs" "cs \<noteq> []" "\<forall>d \<in> set cs. cluster_ok s d"
    and room: "length src \<le> 512 * (unat (sectors_per_cluster s) * (length cs + card (free_clusters_of (disk (machine s)) s)))"
    and small: "length src < 2 ^ 32"
  shows "\<exists>t D' news. store_clusters rd wr (hd cs) prev (of_nat (length src)) src s = Some (t, True) \<and>
    wrote disk cap inv s t D' \<and> stored s (disk (machine s)) D' cs news src"
proof -
  let ?D = "disk (machine s)" and ?xs = "concat (map (sectors_of s) cs)"
  let ?N = "512 * (unat (sectors_per_cluster s) * length cs)"
  let ?E = "fill ?D ?xs src" and ?rest = "drop ?N src"
  have lE: "\<forall>y. length (?E y) = 512" using fill_length [OF disk_lengths [OF ok(1)]] by blast
  have dist: "distinct ?xs" by (rule sectors_distinct [OF ok(2) cs(3) fat_chain_distinct [OF cs(1)]])
  have lxs: "length ?xs = unat (sectors_per_cluster s) * length cs" by (induction cs) (simp_all add: sectors_of_def)
  have pre: "take (length src) (chain_bytes ?E s cs) = take ?N src"
    using fill_prefix [OF dist disk_lengths [OF ok(1)], of src] lxs by (simp add: chain_bytes_def)
  have same: "fat_next ?E s d = fat_next ?D s d" if "cluster_ok s d" for d
    using fill_fat_next [OF ok(2) that cs(3)] by simp
  have out: "?E y = ?D y" if "cluster_ok s d" "d \<notin> set cs" "y \<in> set (sectors_of s d)" for d y
  proof -
    have "y \<notin> set ?xs" using clusters_apart [OF ok(2) that(1)] cs(3) that by fastforce
    then show ?thesis by (rule fill_other)
  qed
  have ch: "fat_chain ?E s (hd cs) cs" using cs(1, 3) fat_chain_cong [of cs ?E s ?D] same by simp
  have fr: "free_clusters_of ?E s = free_clusters_of ?D s" using same by (auto simp: free_clusters_of_def)
  have pl: "(if cs = [] then prev else last cs) = last cs" using cs(2) by simp
  obtain t e where t: "store_clusters rd wr (hd cs) prev (of_nat (length src)) src s =
      (if ?rest = [] then Some (t, True)
       else store_clusters rd wr e (last cs) (of_nat (length ?rest)) ?rest t)"
      "is_end_cluster e" "wrote disk cap inv s t ?E"
    using store_chain [OF ok cs(1, 3) small, of prev] unfolding pl by blast
  show ?thesis
  proof (cases "?rest = []")
    case True
    then have "stored s ?D ?E cs [] src" using pre ch same out by (auto simp: stored_def)
    then show ?thesis using t True by auto
  next
    case False
    note tf = wrote_fields [OF t(3)] same_volume_fields [OF wrote_fields(2) [OF t(3)]]
      vol_ok_volume [OF wrote_fields(2) [OF t(3)]]
    have "length ?rest \<le> 512 * (unat (sectors_per_cluster t) * card (free_clusters_of ?D s))"
      using room tf by (simp add: distrib_left)
    moreover have "card (free_clusters_of ?D s) \<le> card (free_clusters_of (disk (machine t)) t)"
      using fr by (simp add: free_clusters_of_def tf)
    moreover have "fat_chain (disk (machine t)) t (hd cs) cs" using ch tf fat_chain_volume [OF tf(2)] by simp
    moreover have "vol_ok (cap (machine t)) t" "\<forall>d \<in> set cs. cluster_ok t d" "length ?rest < 2 ^ 32"
      using ok(2) cs(3) small tf by auto
    ultimately obtain u D' news where
      u: "store_clusters rd wr e (last cs) (of_nat (length ?rest)) ?rest t = Some (u, True)"
         "wrote disk cap inv t u D'" "grown t (disk (machine t)) D' cs news ?rest"
      using grow_correct [OF tf(1) _ _ cs(2) _ t(2)] by blast
    have g: "grown s ?E D' cs news ?rest" using u(3) grown_volume [OF tf(2)] tf by simp
    have nn: "d \<notin> set news" if "d \<in> set cs" for d
      using g chain_not_free [OF ok(2) ch cs(3) that] by (auto simp: grown_def free_clusters_of_def)
    have "map D' ?xs = map ?E ?xs" using g cs(3) nn by (fastforce simp: grown_def)
    then have "chain_bytes D' s cs = chain_bytes ?E s cs" by (simp only: chain_bytes_def)
    then have "chain_bytes D' s (cs @ news) = chain_bytes ?E s cs @ chain_bytes D' s news"
      by (simp add: chain_bytes_def)
    then have "take (length src) (chain_bytes D' s (cs @ news)) = take ?N src @ take (length ?rest) (chain_bytes D' s news)"
      using pre chain_bytes_length [OF lE, of s cs] by simp
    also have "\<dots> = src" using g by (simp add: grown_def)
    finally have "take (length src) (chain_bytes D' s (cs @ news)) = src" .
    moreover have "(\<forall>y \<in> set (sectors_of s d). D' y = ?D y) \<and> fat_next D' s d = fat_next ?D s d"
      if "cluster_ok s d" "d \<notin> set (cs @ news)" for d
      using g that out same cs(2) by (auto simp: grown_def)
    moreover have "fat_chain D' s (hd cs) (cs @ news)" "set news \<subseteq> free_clusters_of ?D s"
      using g fr by (simp_all add: grown_def)
    ultimately have "stored s ?D D' cs news src" unfolding stored_def by blast
    then show ?thesis using t(1) False u(1) wrote_trans [OF t(3) u(2)] by auto
  qed
qed

end

end
