(* ===== verification/Fat32_Props.thy ===== *)
theory Fat32_Props
  imports Fat32_Grow Blk_Props
begin

text \<open>
  The properties of the file system, for every device with the \<open>block_device\<close> interface,
  and a small volume behind the block driver on which they are exercised.
\<close>

section \<open>A volume behind the driver\<close>

lemma disk_block_device:
  "block_device (drv_read dev (disk_dma base)) (drv_write dev (disk_dma base)) (\<lambda>s. sector_of (media s))
     (\<lambda>s. sectors (media s)) (drv_ready base sectors seen)"
  by unfold_locales

text \<open>
  Sector 0 is the boot sector, 1 and 2 are the tables, 3 the root directory (cluster 2) with
  the one file HELLO.TXT of 600 bytes in the clusters 3 and 4.
\<close>

definition boot_sector :: "u8 list" where
  "boot_sector = replicate 11 0 @ le_bytes 2 (512 :: u16) @ [1] @ le_bytes 2 (1 :: u16) @ [2] @ replicate 15 0 @
     le_bytes 4 (13 :: u32) @ le_bytes 4 (1 :: u32) @ replicate 4 0 @ le_bytes 4 (2 :: u32)"

definition fat_table :: "u8 list" where
  "fat_table = le_bytes 4 (0x0FFFFFF8 :: u32) @ le_bytes 4 (0x0FFFFFFF :: u32) @ le_bytes 4 (0x0FFFFFF8 :: u32) @
     le_bytes 4 (4 :: u32) @ le_bytes 4 (0x0FFFFFFF :: u32)"

definition hello_name :: "u8 list" where
  "hello_name = ascii ''HELLO   TXT''"

definition root_dir :: "u8 list" where
  "root_dir = hello_name @ [0x20] @ replicate 14 0 @ le_bytes 2 (3 :: u16) @ le_bytes 4 (600 :: u32)"

definition fat_disk :: disk where
  "fat_disk = sample_disk\<lparr>platter := (\<lambda>x.
     if x = 0 then boot_sector else if x = 1 \<or> x = 2 then fat_table else if x = 3 then root_dir
     else if x = 4 then replicate 512 0x61 else replicate 512 0x62)\<rparr>"

definition volume :: "disk blk fat" where
  "volume = \<lparr>machine = blk_kernel\<lparr>media := fat_disk\<rparr>, mounted = True, sectors_per_cluster = 1,
     fat_start_sector = 1, data_start_sector = 3, root_cluster = 2, bytes_per_sector = 512, num_fats = 2,
     fat_size_sectors = 1, total_clusters = 10, sector_buf = replicate 512 0\<rparr>"

abbreviation vol_image :: image where
  "vol_image \<equiv> sector_of fat_disk"

definition hello :: DirEntry where
  "hello = \<lparr>de_name = hello_name, de_attr = 0x20, first_cluster_hi = 0, first_cluster_lo = 3, de_file_size = 600\<rparr>"

lemma volume_ok:
  "fat_ok (drv_ready (virtio_slot 0) sectors seen) volume" "vol_ok 100 volume" "mounted volume"
  "media (machine volume) = fat_disk" "sectors fat_disk = 100" "root_cluster volume = 2"
proof -
  have "buffer_addr blk_kernel = 0x40090200"
    by (simp add: blk_kernel_def write_queue_addrs_def write32_def Let_def compat.defs blk.defs)
  moreover have "media blk_kernel = sample_disk"
    by (simp add: blk_kernel_def write_queue_addrs_def write32_def Let_def compat.defs blk.defs)
  ultimately have "drv_ready (virtio_slot 0) sectors seen (blk_kernel\<lparr>media := fat_disk\<rparr>)"
    using blk_kernel_ready by (simp add: drv_ready_def blk_ready_def fat_disk_def)
  then show "fat_ok (drv_ready (virtio_slot 0) sectors seen) volume" by (simp add: fat_ok_def volume_def)
  show "vol_ok 100 volume" by (simp add: vol_ok_def volume_def)
  show "mounted volume" "media (machine volume) = fat_disk" "sectors fat_disk = 100" "root_cluster volume = 2"
    by (simp_all add: volume_def fat_disk_def sample_disk_def)
qed

lemma volume_sectors:
  "vol_image 1 = take 512 (fat_table @ replicate 512 0)" "vol_image 3 = take 512 (root_dir @ replicate 512 0)"
  by (simp_all add: sector_of_def fat_disk_def)

lemma volume_fat: "fat_next vol_image volume c = fld (entry_offset volume c) 4 (vol_image 1) AND 0x0FFFFFFF"
  if "c \<in> {2, 3, 4}"
  using that by (auto simp: fat_next_def fat_sector_def volume_def)

lemma volume_chains:
  "fat_next vol_image volume 2 = 0x0FFFFFF8" "fat_next vol_image volume 3 = 4"
  "fat_next vol_image volume 4 = 0x0FFFFFFF"
  by (simp_all add: volume_fat volume_sectors entry_offset_def fld_def fat_table_def of_le_le_bytes)
    (simp_all add: volume_def volume_sectors fat_table_def of_le_le_bytes)

lemma volume_file_chains: "fat_chain vol_image volume 2 [2]" "fat_chain vol_image volume 3 [3, 4]"
  by (simp_all add: volume_chains is_end_cluster_def)

lemma volume_clusters: "cluster_ok volume 2" "cluster_ok volume 3" "cluster_ok volume 4"
  by (simp_all add: cluster_ok_def volume_def)

lemma replicate_2: "replicate 2 x = [x, x]"
  by (simp add: numeral_2_eq_2)

lemma hello_entry: "entry_at (vol_image 3) 0 = hello"
  by (simp add: entry_at_def volume_sectors DIRENT_def to_entry_def root_dir_def hello_def hello_name_def ascii_def
      fld_def of_le_le_bytes replicate_2)

lemma hello_cluster: "first_cluster_of hello = 3" "\<not> is_directory hello"
  by (simp_all add: first_cluster_of_def hello_def is_directory_def ATTR_DIRECTORY_def)

abbreviation hello_path :: "u8 list" where
  "hello_path \<equiv> ascii ''/hello.txt''"

lemma hello_walk: "walks vol_image 100 volume 2 (relative hello_path) {2} (Some hello)"
proof -
  have p: "relative hello_path = ascii ''hello.txt''" by (simp add: relative_def ascii_def)
  have "dir_entries vol_image volume [2] = sector_entries (vol_image 3)"
    by (simp add: dir_entries_def sectors_of_def cluster_to_sector_def volume_def)
  moreover have "sector_entries (vol_image 3) = hello # map (entry_at (vol_image 3)) [1..<16]"
    unfolding sector_entries_def by (subst upt_conv_Cons) (simp_all only: list.map hello_entry, simp_all)
  moreover have "fat_name_to_string hello_name = ascii ''hello.txt''"
    by (simp add: fat_name_to_string_def hello_name_def ascii_def lower_def)
  then have "name_matches hello_name (ascii ''hello.txt'')" "hello_name ! 0 \<noteq> 0" "\<not> skipped hello"
    by (simp_all add: name_matches_def ascii_def hello_def hello_name_def skipped_def ATTR_LFN_def ATTR_VOLUME_ID_def)
  ultimately have "lookup (ascii ''hello.txt'') (dir_entries vol_image volume [2]) = Some hello"
    by (simp add: hello_def)
  moreover have "component (ascii ''hello.txt'') = ascii ''hello.txt''" "remainder (ascii ''hello.txt'') = []"
    "ascii ''hello.txt'' \<noteq> []"
    by (simp_all add: component_def remainder_def ascii_def FAT32_MAX_FILENAME_def)
  moreover have "on_disk 100 volume [2]" using volume_clusters by (intro on_disk_ok volume_ok) simp
  ultimately have "walks vol_image 100 volume 2 (ascii ''hello.txt'') (set [2]) (Some hello)"
    using volume_file_chains by (intro walks.final) simp_all
  then show ?thesis by (simp add: p)
qed

section \<open>Reading\<close>

lemma read_file_ok:
  assumes dev: "block_device rd wr disk cap ok" and s: "fat_ok ok s" "mounted s"
    and path: "walks (disk (machine s)) (cap (machine s)) s (root_cluster s) (relative path) K (Some e)"
      "\<not> is_directory e"
    and chain: "fat_chain (disk (machine s)) s (first_cluster_of e) cs" "on_disk (cap (machine s)) s cs"
  shows "\<exists>t. read_file rd path buf_size s =
      Some (t, take (min (unat (de_file_size e)) (unat buf_size)) (chain_bytes (disk (machine s)) s cs),
        Some (min (de_file_size e) buf_size)) \<and> quiet disk cap ok s t"
proof -
  let ?n = "min (de_file_size e) buf_size"
  have n: "(if de_file_size e > buf_size then buf_size else de_file_size e) = ?n"
    "unat ?n = min (unat (de_file_size e)) (unat buf_size)"
    by (auto simp: min_def word_le_nat_alt word_less_nat_alt)
  obtain t where t: "resolve_path rd path s = Some (t, Some e)" "quiet disk cap ok s t"
    using block_device.resolve_path_correct [OF dev s(1) path(1)] by blast
  note tf = quiet_fields [OF t(2)] same_volume_fields [OF quiet_fields(2) [OF t(2)]]
  obtain u where u: "copy_clusters rd (first_cluster_of e) ?n [] t =
      Some (u, [] @ take (unat ?n) (chain_bytes (disk (machine t)) t cs), True)" "quiet disk cap ok t u"
    using block_device.copy_clusters_correct [OF dev tf(1), of "first_cluster_of e" cs ?n "[]"] chain tf
      fat_chain_volume [OF tf(2)] by auto
  have "read_file rd path buf_size s =
      Some (u, take (min (unat (de_file_size e)) (unat buf_size)) (chain_bytes (disk (machine s)) s cs), Some ?n)"
    using s(2) t(1) path(2) u(1) tf by (simp add: read_file_def n)
  then show ?thesis using quiet_trans [OF t(2) u(2)] by blast
qed

text \<open>
  C15: \<open>read_file\<close> returns the file.  On every block device, when the path leads through the
  directories on the disk to a file entry whose clusters form a chain on the volume,
  \<open>read_file\<close> ends, copies the first \<open>min(size, buffer)\<close> bytes of the chain's contents,
  reports that number, and changes nothing on the disk.
\<close>

theorem read_file_correct:
  assumes dev: "block_device rd wr disk cap ok" and s: "fat_ok ok s" "mounted s"
    and path: "walks (disk (machine s)) (cap (machine s)) s (root_cluster s) (relative path) K (Some e)"
      "\<not> is_directory e"
    and chain: "fat_chain (disk (machine s)) s (first_cluster_of e) cs" "on_disk (cap (machine s)) s cs"
  shows "\<exists>t. read_file rd path buf_size s =
      Some (t, take (min (unat (de_file_size e)) (unat buf_size)) (chain_bytes (disk (machine s)) s cs),
        Some (min (de_file_size e) buf_size)) \<and> quiet disk cap ok s t"
  using read_file_ok [OF assms] .

theorem read_file_correct_witness:
  "\<exists>t. read_file (drv_read idle_device (disk_dma (virtio_slot 0))) hello_path 700 volume =
    Some (t, take 600 (vol_image 4 @ vol_image 5), Some 600)"
proof -
  note v = volume_ok
  have w: "walks (sector_of (media (machine volume))) (sectors (media (machine volume))) volume (root_cluster volume)
      (relative hello_path) {2} (Some hello)"
    using hello_walk by (simp add: v)
  have "fat_chain (sector_of (media (machine volume))) volume (first_cluster_of hello) [3, 4]"
    using volume_file_chains(2) by (simp only: v hello_cluster)
  moreover have "on_disk (sectors (media (machine volume))) volume [3, 4]"
    using volume_clusters v(2) by (intro on_disk_ok) (simp_all add: v)
  moreover have "chain_bytes vol_image volume [3, 4] = vol_image 4 @ vol_image 5"
    by (simp add: chain_bytes_def sectors_of_def cluster_to_sector_def) (simp add: volume_def)
  ultimately show ?thesis
    using read_file_correct [OF disk_block_device v(1, 3) w hello_cluster(2), of "[3, 4]" idle_device 700]
    by (auto simp: v hello_def min_def)
qed

text \<open>
  C34: \<open>list_dir\<close> lists the directory: the entries before the end mark that are neither
  deleted nor part of a long name nor a volume label, in the order of the disk, as many as
  the caller has room for.
\<close>

theorem list_dir_correct:
  assumes dev: "block_device rd wr disk cap ok" and s: "fat_ok ok s" "mounted s"
    and chain: "fat_chain (disk (machine s)) s (root_cluster s) cs" "on_disk (cap (machine s)) s cs"
  shows "\<exists>t. list_dir rd [47] max_entries s =
      Some (t, True, take (unat max_entries) (visible (dir_entries (disk (machine s)) s cs))) \<and> quiet disk cap ok s t"
  using block_device.list_clusters_correct [OF dev s(1) chain, of "[]" "unat max_entries"] s(2)
  by (auto simp: list_dir_def open_dir_def)

theorem list_dir_correct_witness:
  "\<exists>t. list_dir (drv_read idle_device (disk_dma (virtio_slot 0))) [47] 10 volume =
    Some (t, True, take 10 (visible (dir_entries vol_image volume [2])))"
proof -
  have "on_disk 100 volume [2]" using volume_clusters by (intro on_disk_ok volume_ok) simp
  then show ?thesis
    using list_dir_correct [OF disk_block_device volume_ok(1, 3), of "[2]" idle_device 10] volume_file_chains
    by (auto simp: volume_ok)
qed

section \<open>Writing\<close>

text \<open>A directory on the path is in use, so its clusters are not free.\<close>

lemma walks_not_free:
  assumes v: "vol_ok n s" and w: "walks D n s c path K r" and K: "\<forall>d \<in> K. cluster_ok s d" "d \<in> K"
  shows "fat_next D s d \<noteq> 0"
  using w K
proof induction
  case (missing path c cs)
  then show ?case using chain_not_free [OF v missing.hyps(2)] by blast
next
  case (final path c cs e)
  then show ?case using chain_not_free [OF v final.hyps(2)] by blast
next
  case (not_dir path c cs e)
  then show ?case using chain_not_free [OF v not_dir.hyps(2)] by blast
next
  case (down path c cs e K r)
  then show ?case using chain_not_free [OF v down.hyps(2)] by blast
qed

text \<open>
  C16: \<open>write_file\<close> stores the data and \<open>read_file\<close> returns its beginning.  On every block device, for a
  file reached through directories that do not share clusters with it, and data of at least the
  size recorded in the entry, for which
  the file's clusters and the free clusters have room, \<open>write_file\<close> succeeds: the file's
  chain is extended by formerly free clusters as needed, it begins with the data, and no
  other cluster and no other entry of the first allocation table changes.  The path still
  leads to the same entry.  As \<open>write_file\<close> never updates the size recorded there, reading the
  file back yields only that many bytes of the data, cut to the size of the reader's buffer;
  the rest of the data is in the chain but out of reach.
\<close>

theorem write_file_read_file:
  assumes dev: "block_device rd wr disk cap ok" and s: "fat_ok ok s" "mounted s" "vol_ok (cap (machine s)) s"
    and path: "walks (disk (machine s)) (cap (machine s)) s (root_cluster s) (relative path) K (Some e)"
      "\<not> is_directory e"
    and chain: "fat_chain (disk (machine s)) s (first_cluster_of e) cs" "cs \<noteq> []"
    and use: "\<forall>d \<in> K \<union> set cs. cluster_ok s d" "K \<inter> set cs = {}"
    and room: "length data \<le> 512 * (unat (sectors_per_cluster s) *
      (length cs + card (free_clusters_of (disk (machine s)) s)))" "length data < 2 ^ 32"
    and size: "unat (de_file_size e) \<le> length data"
  shows "\<exists>t news u. write_file rd wr path data s = Some (t, True) \<and>
    stored s (disk (machine s)) (disk (machine t)) cs news data \<and>
    read_file rd path buf_size t =
      Some (u, take (min (unat (de_file_size e)) (unat buf_size)) data, Some (min (de_file_size e) buf_size))"
proof -
  let ?D = "disk (machine s)"
  have hd: "first_cluster_of e = hd cs" using chain by (cases cs) auto
  obtain t0 where t0: "resolve_path rd path s = Some (t0, Some e)" "quiet disk cap ok s t0"
    using block_device.resolve_path_correct [OF dev s(1) path(1)] by blast
  note f0 = quiet_fields [OF t0(2)] same_volume_fields [OF quiet_fields(2) [OF t0(2)]]
    vol_ok_volume [OF quiet_fields(2) [OF t0(2)]]
  have "fat_chain (disk (machine t0)) t0 (hd cs) cs"
    using chain hd f0 fat_chain_volume [OF f0(2)] by simp
  moreover have "free_clusters_of (disk (machine t0)) t0 = free_clusters_of ?D s"
    by (simp add: free_clusters_of_def f0)
  ultimately obtain t D' news where t: "store_clusters rd wr (hd cs) 0 (of_nat (length data)) data t0 = Some (t, True)"
      "wrote disk cap ok t0 t D'" "stored t0 (disk (machine t0)) D' cs news data"
    using block_device.write_chain_correct [OF dev f0(1), of cs data 0] s(3) chain(2) use(1) room f0 by auto
  have st: "stored s ?D D' cs news data"
    using t(3) fat_chain_volume [OF f0(2)] by (simp add: stored_def f0 free_clusters_of_def)
  have w: "write_file rd wr path data s = Some (t, True)"
    using s(2) t0(1) path(2) t(1) hd by (simp add: write_file_def)
  have wt: "wrote disk cap ok s t D'" using t0(2) t(2) by (auto simp: wrote_quiet intro: wrote_trans)
  note tf = wrote_fields [OF wt] same_volume_fields [OF wrote_fields(2) [OF wt]]
    vol_ok_volume [OF wrote_fields(2) [OF wt]]
  have news: "\<forall>d \<in> set news. cluster_ok s d \<and> fat_next ?D s d = 0"
    using st by (auto simp: stored_def free_clusters_of_def)
  have nK: "d \<notin> set (cs @ news)" "cluster_ok s d" if "d \<in> K" for d
    using that use news walks_not_free [OF s(3) path(1)] by auto
  have same: "(\<forall>x \<in> set (sectors_of s d). D' x = ?D x) \<and> fat_next D' s d = fat_next ?D s d"
    if "d \<in> K" for d
    using nK [OF that] st unfolding stored_def by simp
  have "walks D' (cap (machine s)) s (root_cluster s) (relative path) K (Some e)"
    by (rule walks_cong [OF path(1)]) (use same in blast)+
  then have "walks (disk (machine t)) (cap (machine t)) t (root_cluster t) (relative path) K (Some e)"
    using walks_volume [OF tf(2)] tf by simp
  moreover have "fat_chain (disk (machine t)) t (first_cluster_of e) (cs @ news)"
    using st hd tf fat_chain_volume [OF tf(2)] by (simp add: stored_def)
  moreover have "on_disk (cap (machine t)) t (cs @ news)"
    using s(3) use(1) news tf by (intro on_disk_ok) auto
  ultimately obtain u where "read_file rd path buf_size t =
      Some (u, take (min (unat (de_file_size e)) (unat buf_size)) (chain_bytes (disk (machine t)) t (cs @ news)),
        Some (min (de_file_size e) buf_size))"
    using read_file_ok [OF dev tf(1) _ _ path(2)] s(2) tf by metis
  moreover have "take (min (unat (de_file_size e)) (unat buf_size)) (chain_bytes (disk (machine t)) t (cs @ news)) =
      take (min (unat (de_file_size e)) (unat buf_size)) data"
  proof -
    have "take (length data) (chain_bytes D' s (cs @ news)) = data" using st by (simp add: stored_def)
    then have "take (min (unat (de_file_size e)) (unat buf_size)) (take (length data) (chain_bytes D' s (cs @ news))) =
        take (min (unat (de_file_size e)) (unat buf_size)) data" by simp
    then show ?thesis using size tf by (simp add: min_def split: if_splits)
  qed
  ultimately show ?thesis using w st tf by auto
qed

lemma volume_fields:
  "bytes_per_sector volume = 512" "sectors_per_cluster volume = 1" "num_fats volume = 2" "total_clusters volume = 10"
  "data_start_sector volume = 3" "fat_start_sector volume = 1" "fat_size_sectors volume = 1"
  by (simp_all add: volume_def)

lemma volume_free: "free_cluster vol_image volume = Some 5" "5 \<in> free_clusters_of vol_image volume"
proof -
  have z: "fat_next vol_image volume 5 = 0" "cluster_ok volume 5"
    by (simp_all add: fat_next_def fat_sector_def entry_offset_def volume_fields volume_sectors fat_table_def fld_def
        of_le_le_bytes cluster_ok_def) (simp_all add: numeral_eq_Suc)
  then show "5 \<in> free_clusters_of vol_image volume" by (simp add: free_clusters_of_def)
  obtain c where c: "free_cluster vol_image volume = Some c"
    using z free_cluster_None [OF volume_ok(2), of vol_image] by (cases "free_cluster vol_image volume") auto
  note f = free_cluster_Some [OF volume_ok(2) c]
  have "c \<le> 5" using f(3) z by blast
  then have "unat c \<le> 5" "2 \<le> unat c" using f(1) by (simp_all add: word_le_nat_alt cluster_ok_def)
  then have "unat c = 2 \<or> unat c = 3 \<or> unat c = 4 \<or> unat c = 5" by linarith
  then have "c = 2 \<or> c = 3 \<or> c = 4 \<or> c = 5" by (simp add: word_unat_eq_iff)
  then have "c = 5" using f(2) volume_chains by auto
  then show "free_cluster vol_image volume = Some 5" using c by simp
qed

theorem write_file_read_file_witness:
  "\<exists>t news u. write_file (drv_read idle_device (disk_dma (virtio_slot 0))) (drv_write idle_device (disk_dma (virtio_slot 0)))
      hello_path (replicate 1100 0x63) volume = Some (t, True) \<and>
    stored volume vol_image (sector_of (media (machine t))) [3, 4] news (replicate 1100 0x63) \<and>
    read_file (drv_read idle_device (disk_dma (virtio_slot 0))) hello_path 700 t = Some (u, replicate 600 0x63, Some 600)"
proof -
  note v = volume_ok
  have w: "walks (sector_of (media (machine volume))) (sectors (media (machine volume))) volume (root_cluster volume)
      (relative hello_path) {2} (Some hello)"
    using hello_walk by (simp add: v)
  have c: "fat_chain (sector_of (media (machine volume))) volume (first_cluster_of hello) [3, 4]"
    using volume_file_chains(2) by (simp only: v hello_cluster)
  have "0 < card (free_clusters_of vol_image volume)" using volume_free(2) by (auto simp: card_gt_0_iff)
  then have r: "length (replicate 1100 0x63 :: u8 list) \<le> 512 * (unat (sectors_per_cluster volume) *
      (length [3, 4 :: u32] + card (free_clusters_of (sector_of (media (machine volume))) volume)))"
    by (simp add: v volume_fields)
  have "vol_ok (sectors (media (machine volume))) volume" using v by simp
  from write_file_read_file [OF disk_block_device [where dev = idle_device] v(1, 3) this w hello_cluster(2) c _ _ _ r, where buf_size = 700]
  show ?thesis using volume_clusters by (simp add: v hello_def min_def)
qed

text \<open>
  C34: \<open>alloc_cluster\<close> takes the lowest free cluster of the volume, marks it as the end of a
  chain in every copy of the table, clears its sectors and changes no other entry and no
  other data; with no free cluster it returns 0 and writes nothing.
\<close>

theorem alloc_cluster_correct:
  assumes dev: "block_device rd wr disk cap ok" and s: "fat_ok ok s" "vol_ok (cap (machine s)) s"
  shows "\<exists>t c. alloc_cluster rd wr s = Some (t, c) \<and> fat_ok ok t \<and>
    (if c = 0 then disk (machine t) = disk (machine s) \<and> (\<forall>d. cluster_ok s d \<longrightarrow> fat_next (disk (machine s)) s d \<noteq> 0)
     else cluster_ok s c \<and> fat_next (disk (machine s)) s c = 0 \<and>
       (\<forall>d. cluster_ok s d \<and> fat_next (disk (machine s)) s d = 0 \<longrightarrow> c \<le> d) \<and>
       (\<forall>x \<in> set (sectors_of s c). disk (machine t) x = replicate 512 0) \<and>
       (\<forall>f < unat (num_fats s). fat_entry (disk (machine t)) s f c AND 0x0FFFFFFF = 0x0FFFFFF8) \<and>
       (\<forall>d. cluster_ok s d \<and> d \<noteq> c \<longrightarrow>
         (\<forall>x \<in> set (sectors_of s d). disk (machine t) x = disk (machine s) x) \<and>
         (\<forall>f < unat (num_fats s). fat_entry (disk (machine t)) s f d = fat_entry (disk (machine s)) s f d)))"
proof (cases "free_cluster (disk (machine s)) s")
  case None
  then obtain t where t: "alloc_cluster rd wr s = Some (t, 0)" "quiet disk cap ok s t"
    using block_device.alloc_cluster_ok [OF dev s] by auto
  then show ?thesis
    using quiet_fields [OF t(2)] None free_cluster_None [OF s(2), of "disk (machine s)"]
    by (intro exI [of _ t] exI [of _ 0]) simp
next
  case (Some c)
  let ?D = "disk (machine s)"
  note f = free_cluster_Some [OF s(2) Some]
  obtain t where t: "alloc_cluster rd wr s = Some (t, c)" "wrote disk cap ok s t (allocated ?D s c)"
    using block_device.alloc_cluster_ok [OF dev s] Some by auto
  note tf = wrote_fields [OF t(2)]
  have len: "\<forall>x. length (?D x) = 512" using block_device.disk_lengths [OF dev s(1)] .
  have e: "fat_entry (allocated ?D s c) s f d = fat_entry (fat_update ?D s (copies s) c 0x0FFFFFF8) s f d"
    if "f < unat (num_fats s)" "cluster_ok s d" for f d
    using fat_not_data [OF s(2) that(2) f(1) that(1)] by (simp add: allocated_def zeroed_def fat_entry_def)
  have d: "allocated ?D s c x = ?D x" if "x \<in> set (sectors_of s d)" "cluster_ok s d" "d \<noteq> c" for x d
    using clusters_apart [OF s(2) f(1) that(2)] that fat_update_data [OF s(2) f(1) that(2) _ that(1)]
    by (auto simp: allocated_def zeroed_def)
  have "fat_entry (fat_update ?D s (copies s) c 0x0FFFFFF8) s f d =
      (if d = c then fat_entry ?D s f c AND 0xF0000000 OR 0x0FFFFFF8 AND 0x0FFFFFFF else fat_entry ?D s f d)"
    if "f < unat (num_fats s)" "cluster_ok s d" for f d
    using retabled_update [OF s(2) f(1) len, of "0x0FFFFFF8"] that by (auto simp: retabled_def)
  then show ?thesis
    using t(1) tf f e d mask28_eoc [of _ "0x0FFFFFF8"]
    by (intro exI [of _ t] exI [of _ c]) (auto simp: allocated_def zeroed_def)
qed

theorem alloc_cluster_correct_witness:
  "\<exists>t c. alloc_cluster (drv_read idle_device (disk_dma (virtio_slot 0))) (drv_write idle_device (disk_dma (virtio_slot 0)))
    volume = Some (t, c) \<and> c \<noteq> 0 \<and> c \<le> 5"
proof -
  have "vol_ok (sectors (media (machine volume))) volume" using volume_ok by simp
  from alloc_cluster_correct [OF disk_block_device [where dev = idle_device] volume_ok(1) this]
  show ?thesis using volume_free(2) by (auto simp: volume_ok free_clusters_of_def split: if_splits)
qed

section \<open>Deleting and creating\<close>

text \<open>
  C32: \<open>delete_file\<close> frees every cluster of the file in every copy of the table and nothing
  else, but leaves the directory entry in place: the path still resolves, to an entry whose
  clusters are now free.
\<close>

theorem delete_file_keeps_entry:
  assumes dev: "block_device rd wr disk cap ok" and s: "fat_ok ok s" "mounted s" "vol_ok (cap (machine s)) s"
    and path: "walks (disk (machine s)) (cap (machine s)) s (root_cluster s) (relative path) K (Some e)"
      "\<not> is_directory e"
    and chain: "fat_chain (disk (machine s)) s (first_cluster_of e) cs"
    and use: "\<forall>d \<in> K \<union> set cs. cluster_ok s d" "K \<inter> set cs = {}"
  shows "\<exists>t u. delete_file rd wr path s = Some (t, True) \<and>
    retabled s (disk (machine s)) (disk (machine t)) (\<lambda>d w. if d \<in> set cs then w AND 0xF0000000 else w) \<and>
    file_exists rd path t = Some (u, True)"
proof -
  let ?D = "disk (machine s)"
  obtain t0 where t0: "resolve_path rd path s = Some (t0, Some e)" "quiet disk cap ok s t0"
    using block_device.resolve_path_correct [OF dev s(1) path(1)] by blast
  note f0 = quiet_fields [OF t0(2)] same_volume_fields [OF quiet_fields(2) [OF t0(2)]]
    vol_ok_volume [OF quiet_fields(2) [OF t0(2)]]
  obtain t D' where t: "free_clusters rd wr (first_cluster_of e) t0 = Some t" "wrote disk cap ok t0 t D'"
      "retabled t0 ?D D' (\<lambda>d w. if d \<in> set cs then w AND 0xF0000000 else w)"
    using block_device.free_clusters_correct [OF dev f0(1), of "first_cluster_of e" cs] s(3) chain use(1) f0
      fat_chain_volume [OF f0(2)] by auto
  have r: "retabled s ?D D' (\<lambda>d w. if d \<in> set cs then w AND 0xF0000000 else w)"
    using t(3) by (simp add: retabled_def f0 fat_entry_def)
  have wt: "wrote disk cap ok s t D'" using t0(2) t(2) by (auto simp: wrote_quiet intro: wrote_trans)
  note tf = wrote_fields [OF wt] same_volume_fields [OF wrote_fields(2) [OF wt]]
  have "fat_next D' s d = fat_next ?D s d \<and> (\<forall>x \<in> set (sectors_of s d). D' x = ?D x)" if "d \<in> K" for d
    using that use r retabled_next [OF r s(3), of d] by (auto simp: retabled_def fat_next_entry)
  then have "walks D' (cap (machine s)) s (root_cluster s) (relative path) K (Some e)"
    by (intro walks_cong [OF path(1)]) blast
  then have "walks (disk (machine t)) (cap (machine t)) t (root_cluster t) (relative path) K (Some e)"
    using walks_volume [OF tf(2)] tf by simp
  then obtain u where "resolve_path rd path t = Some (u, Some e)"
    using block_device.resolve_path_correct [OF dev tf(1)] by blast
  then show ?thesis using t0(1) t(1) path(2) s(2) r tf by (simp add: delete_file_def file_exists_def)
qed

theorem delete_file_keeps_entry_witness:
  "\<exists>t u. delete_file (drv_read idle_device (disk_dma (virtio_slot 0))) (drv_write idle_device (disk_dma (virtio_slot 0)))
      hello_path volume = Some (t, True) \<and>
    retabled volume vol_image (sector_of (media (machine t))) (\<lambda>d w. if d \<in> set [3, 4] then w AND 0xF0000000 else w) \<and>
    file_exists (drv_read idle_device (disk_dma (virtio_slot 0))) hello_path t = Some (u, True)"
proof -
  note v = volume_ok
  have w: "walks (sector_of (media (machine volume))) (sectors (media (machine volume))) volume (root_cluster volume)
      (relative hello_path) {2} (Some hello)"
    using hello_walk by (simp add: v)
  have c: "fat_chain (sector_of (media (machine volume))) volume (first_cluster_of hello) [3, 4]"
    using volume_file_chains(2) by (simp only: v hello_cluster)
  have "vol_ok (sectors (media (machine volume))) volume" using v by simp
  from delete_file_keeps_entry [OF disk_block_device [where dev = idle_device] v(1, 3) this w hello_cluster(2) c]
  show ?thesis using volume_clusters by (simp add: v)
qed

text \<open>
  C34: \<open>create_file\<close> overwrites the directory.  The buffer that holds the directory sector is
  also used by the allocation in between, so what is written back over the sector of the
  root directory is the table sector of the new cluster (its last copy), with only the
  cluster number and the size of the new entry filled in: the other entries of that sector
  and the new file's name are lost, although the call reports success.
\<close>

theorem create_file_overwrites_directory:
  assumes dev: "block_device rd wr disk cap ok" and s: "fat_ok ok s" "mounted s" "vol_ok (cap (machine s)) s"
    and root: "cluster_ok s (root_cluster s)"
    and slot: "find (\<lambda>e. de_name (entry_at (disk (machine s) (ucast (cluster_to_sector s (root_cluster s)))) e) ! 0 \<in> {0, 0xE5})
      [0..<16] = Some e"
    and c: "free_cluster (disk (machine s)) s = Some c"
  shows "\<exists>t. create_file rd wr [47] filename s = Some (t, True) \<and>
    disk (machine t) (ucast (cluster_to_sector s (root_cluster s))) =
      link_entry e c (disk (machine t) (fat_copy s (unat (num_fats s) - 1) c))"
proof -
  let ?D = "disk (machine s)" and ?sec = "cluster_to_sector s (root_cluster s)"
  let ?copy = "fat_copy s (unat (num_fats s) - 1) c"
  have n: "0 < unat (sectors_per_cluster s)" "unat (num_fats s) - 1 < unat (num_fats s)"
    using s(3) by (simp_all add: vol_ok_def)
  note f = free_cluster_Some [OF s(3) c]
  have sec: "ucast ?sec < cap (machine s)" using sector_ok(2) [OF s(3) root n(1)] by simp
  obtain t0 where t0: "read_buf rd ?sec s = Some (t0, True)" "quiet disk cap ok s t0" "sector_buf t0 = ?D (ucast ?sec)"
    using block_device.read_buf_in [OF dev s(1) sec] by blast
  note f0 = quiet_fields [OF t0(2)] same_volume_fields [OF quiet_fields(2) [OF t0(2)]]
    vol_ok_volume [OF quiet_fields(2) [OF t0(2)]]
  have e: "e < 16" using slot by (auto simp: find_Some_iff simp del: upt.simps)
  have "free_cluster (disk (machine t0)) t0 = Some c" using c f0 by (simp add: free_cluster_def cluster_list_def)
  then obtain t where t: "create_entry rd wr ?sec e filename t0 = Some (t, True)"
      "wrote disk cap ok t0 t ((allocated ?D t0 c)(ucast ?sec :=
        link_entry e c (fat_update ?D t0 (copies t0) c 0x0FFFFFF8 (fat_copy t0 (unat (num_fats t0) - 1) c))))"
    using block_device.create_entry_correct [OF dev f0(1) _ _ e, of c ?sec filename] s(3) sec f0 by auto
  have per: "entries_per_sector t0 = 16" using s(1) f0 by (simp add: entries_per_sector_def fat_ok_def DIRENT_def)
  have "create_sectors rd wr filename ?sec [0..<unat (sectors_per_cluster s)] s = Some (t, Some True)"
    using t0 t(1) slot n(1) by (subst upt_conv_Cons) (simp_all add: per del: upt.simps)
  then have "create_file rd wr [47] filename s = Some (t, True)"
    using s(2) cluster_bounds(4) [OF s(3) root] create_clusters.simps [of rd wr filename "root_cluster s" s]
    by (simp add: create_file_def open_dir_def)
  moreover have "ucast ?sec \<in> set (sectors_of s (root_cluster s))"
    using n(1) unfolding sectors_of_def by (force intro: image_eqI [of _ _ 0])
  then have ne: "?copy \<noteq> ucast ?sec" using fat_not_data [OF s(3) f(1) root n(2)] by metis
  moreover have "?copy \<notin> set (sectors_of s c)" using fat_not_data [OF s(3) f(1) f(1) n(2)] .
  ultimately show ?thesis
    using wrote_fields [OF t(2)] f0 by (simp add: allocated_def zeroed_def)
qed

theorem create_file_overwrites_directory_witness:
  "\<exists>t. create_file (drv_read idle_device (disk_dma (virtio_slot 0))) (drv_write idle_device (disk_dma (virtio_slot 0)))
      [47] (ascii ''a.txt'') volume = Some (t, True) \<and>
    sector_of (media (machine t)) 3 = link_entry 1 5 (sector_of (media (machine t)) 2)"
proof -
  note v = volume_ok
  have x: "cluster_to_sector volume 2 = 3" by (simp add: cluster_to_sector_def volume_def)
  have y: "fat_copy volume (Suc 0) 5 = 2"
    by (simp add: fat_copy_def fat_sector_def volume_def)
  have "de_name (entry_at (vol_image 3) 1) ! 0 = 0"
    by (simp add: entry_at_def volume_sectors DIRENT_def to_entry_def root_dir_def hello_name_def ascii_def)
  moreover have "[0..<16] = 0 # 1 # [2..<16 :: nat]" by (simp add: upt_rec)
  moreover have "de_name hello ! 0 = 0x48" by (simp add: hello_def hello_name_def ascii_def)
  ultimately have "find (\<lambda>e. de_name (entry_at (vol_image 3) e) ! 0 \<in> {0, 0xE5}) [0..<16] = Some 1"
    using hello_entry by simp
  moreover have "vol_ok (sectors (media (machine volume))) volume" using v by simp
  moreover have "cluster_ok volume (root_cluster volume)" using volume_clusters v by simp
  ultimately show ?thesis
    using create_file_overwrites_directory [OF disk_block_device [where dev = idle_device] v(1, 3), of 1 5 "ascii ''a.txt''"]
      volume_free(1) by (simp add: v x y volume_fields)
qed

section \<open>Mounting\<close>

text \<open>
  What a formatted disk of \<open>n\<close> sectors promises in its boot sector: sectors of 512 bytes, at
  least one table, whole clusters, a table entry for every cluster, and no more sectors
  than the disk has.
\<close>

definition bpb_ok :: "u64 \<Rightarrow> BPB \<Rightarrow> bool" where
  "bpb_ok n b \<longleftrightarrow>
     (let first = unat (bpb_reserved_sectors b) + unat (bpb_num_fats b) * unat (bpb_fat_size_32 b);
          count = (unat (bpb_total_sectors_32 b) - first) div unat (bpb_sectors_per_cluster b)
      in bpb_bytes_per_sector b = 512 \<and> 0 < unat (bpb_sectors_per_cluster b) \<and> 0 < unat (bpb_num_fats b) \<and>
        first \<le> unat (bpb_total_sectors_32 b) \<and> unat (bpb_total_sectors_32 b) \<le> unat n \<and>
        count + 2 \<le> 128 * unat (bpb_fat_size_32 b) \<and> count + 2 \<le> 0x0FFFFFF8)"

text \<open>
  C35: mounting a formatted disk yields a geometry without wrap-around: the 32-bit
  computations of \<open>init\<close> are exact, and from then on every sector of every cluster lies
  behind the tables and inside the disk.
\<close>

theorem fat_init_bounds:
  assumes dev: "block_device rd wr disk cap ok"
    and pr: "\<forall>args fmt m. ok m \<longrightarrow> (\<exists>m'. pr args fmt m = Some m' \<and> ok m' \<and> disk m' = disk m \<and> cap m' = cap m)"
    and s: "ok (machine s)" "length (sector_buf s) = 512" "bytes_per_sector s = 512" "0 < cap (machine s)"
    and b: "bpb_ok (cap (machine s)) (to_bpb (disk (machine s) 0))"
  shows "\<exists>t. fat_init pr rd s = Some (t, True) \<and> mounted t \<and> fat_ok ok t \<and> disk (machine t) = disk (machine s) \<and>
    vol_ok (cap (machine t)) t \<and> root_cluster t = bpb_root_cluster (to_bpb (disk (machine s) 0)) \<and>
    (\<forall>c x. cluster_ok t c \<longrightarrow> x \<in> set (sectors_of t c) \<longrightarrow>
      unat (data_start_sector t) \<le> unat x \<and> x < cap (machine t))"
proof -
  let ?b = "to_bpb (disk (machine s) 0)"
  have s0: "fat_ok ok s" using s by (simp add: fat_ok_def)
  obtain u where u: "read_buf rd 0 s = Some (u, True)" "quiet disk cap ok s u" "sector_buf u = disk (machine s) 0"
    using block_device.read_buf_in [OF dev s0, of 0] s(4) by auto
  note uf = quiet_fields [OF u(2)]
  define fs where "fs = (ucast (bpb_reserved_sectors ?b) :: u32)"
  define spc where "spc = (ucast (bpb_sectors_per_cluster ?b) :: u32)"
  define nf where "nf = (ucast (bpb_num_fats ?b) :: u32)"
  define ds where "ds = fs + nf * bpb_fat_size_32 ?b"
  define tc where "tc = (bpb_total_sectors_32 ?b - ds) div spc"
  define v where "v = u\<lparr>bytes_per_sector := ucast (bpb_bytes_per_sector ?b), sectors_per_cluster := spc,
    fat_start_sector := fs, num_fats := nf, fat_size_sectors := bpb_fat_size_32 ?b, data_start_sector := ds,
    root_cluster := bpb_root_cluster ?b, total_clusters := tc, mounted := True\<rparr>"
  have "ok (machine u)" using uf(1) by (simp add: fat_ok_def)
  then obtain m where m: "pr (\<lambda>n. if n = 0 then ucast spc else ucast (bpb_root_cluster ?b))
      (ascii ''  [ok] FAT32: %u sectors/cluster, root cluster %u'' @ [10]) (machine u) = Some m"
      "ok m" "disk m = disk (machine s)" "cap m = cap (machine s)"
    using pr uf(3, 4) by metis
  define t where "t = v\<lparr>machine := m\<rparr>"
  have bps: "bpb_bytes_per_sector ?b = 512" using b by (simp add: bpb_ok_def Let_def)
  have i: "fat_init pr rd s = Some (t, True)"
    using u m(1) bps by (simp add: fat_init_def t_def v_def tc_def ds_def nf_def fs_def spc_def Let_def cong: if_cong)
  have nat: "unat fs = unat (bpb_reserved_sectors ?b)" "unat spc = unat (bpb_sectors_per_cluster ?b)"
    "unat nf = unat (bpb_num_fats ?b)"
    by (simp_all add: fs_def spc_def nf_def unat_ucast_up)
  have lim: "unat fs + unat nf * unat (bpb_fat_size_32 ?b) \<le> unat (bpb_total_sectors_32 ?b)"
    using b by (simp add: bpb_ok_def Let_def nat)
  have "unat fs + unat nf * unat (bpb_fat_size_32 ?b) < 4294967296"
    using lim unat_lt_u32 [of "bpb_total_sectors_32 ?b"] by linarith
  then have ds: "unat ds = unat fs + unat nf * unat (bpb_fat_size_32 ?b)"
    unfolding ds_def by (subst unat_add32; subst unat_mult32) simp_all
  have tc: "unat tc = (unat (bpb_total_sectors_32 ?b) - unat ds) div unat spc"
    unfolding tc_def using lim ds by (simp add: unat_div unat_sub word_le_nat_alt)
  have "unat tc * unat spc \<le> unat (bpb_total_sectors_32 ?b) - unat ds" unfolding tc by (rule div_times_less_eq_dividend)
  then have total: "unat ds + unat tc * unat spc \<le> unat (bpb_total_sectors_32 ?b)" using lim ds by linarith
  have "unat ds + unat tc * unat spc < 4294967296"
    using total unat_lt_u32 [of "bpb_total_sectors_32 ?b"] by linarith
  then have vt: "vol_ok (cap (machine t)) t"
    using b bps ds tc total m(4)
    unfolding vol_ok_def t_def v_def bpb_ok_def Let_def nat [symmetric] by (simp del: unat_div)
  moreover have "fat_ok ok t" using m(2) u(3) uf(1) bps by (simp add: fat_ok_def t_def v_def)
  moreover have "unat (data_start_sector t) \<le> unat x \<and> x < cap (machine t)"
    if "cluster_ok t c" "x \<in> set (sectors_of t c)" for c x
    using sectors_of_iff [OF vt that(1)] on_disk_ok [OF vt, of "[c]"] that by (auto simp: on_disk_def)
  moreover have "mounted t" "root_cluster t = bpb_root_cluster ?b" "machine t = m" by (simp_all add: t_def v_def)
  ultimately show ?thesis using i m(3) by blast
qed

text \<open>The volume above, as the disk is before the mount.\<close>

theorem fat_init_bounds_witness:
  "\<exists>t. fat_init (\<lambda>_ _ m. Some m) (drv_read idle_device (disk_dma (virtio_slot 0)))
      (volume\<lparr>mounted := False, total_clusters := 0\<rparr>) = Some (t, True) \<and>
    mounted t \<and> root_cluster t = 2 \<and> vol_ok (sectors (media (machine t))) t"
proof -
  let ?s = "volume\<lparr>mounted := False, total_clusters := 0\<rparr>"
  have b: "to_bpb (vol_image 0) = \<lparr>bpb_bytes_per_sector = 512, bpb_sectors_per_cluster = 1, bpb_reserved_sectors = 1,
      bpb_num_fats = 2, bpb_total_sectors_32 = 13, bpb_fat_size_32 = 1, bpb_root_cluster = 2\<rparr>"
    by (simp add: sector_of_def fat_disk_def boot_sector_def to_bpb_def fld_def of_le_le_bytes)
  then have "bpb_ok 100 (to_bpb (vol_image 0))" by (simp add: bpb_ok_def)
  then have bpb: "bpb_ok (sectors (media (machine ?s))) (to_bpb (sector_of (media (machine ?s)) 0))"
    by (simp add: volume_ok)
  have s: "drv_ready (virtio_slot 0) sectors seen (machine ?s)" "length (sector_buf ?s) = 512"
      "bytes_per_sector ?s = 512" "0 < sectors (media (machine ?s))"
    using volume_ok(1) by (simp_all add: fat_ok_def volume_ok)
  obtain t where "fat_init (\<lambda>_ _ m. Some m) (drv_read idle_device (disk_dma (virtio_slot 0))) ?s = Some (t, True)"
      "mounted t" "vol_ok (sectors (media (machine t))) t" "root_cluster t = 2"
    using fat_init_bounds [OF disk_block_device [where dev = idle_device] _ s bpb, of "\<lambda>_ _ m. Some m"] b
    by (auto simp: volume_ok)
  then show ?thesis by blast
qed

end
