(* ===== verification/Elf.thy ===== *)
theory Elf
  imports Fat32
begin

text \<open>
  The program loader, src/src/elf/elf.cpp and elf.h.  The file system is used through the
  operations of the file system model, over any device \<open>rd\<close>; the machine below it has the
  heap, the pages and the process table, and messages go to the printer \<open>pr\<close>.  Headers are
  read from memory where they are used, as the code does through its pointers: the loader
  never copies them.  The page loop is a \<open>partial_function\<close>, so that returning is something
  to prove; the header counter is a \<open>u16\<close> and cannot pass the 16-bit number of headers.
\<close>

record Elf64_Ehdr =
  e_ident :: "u8 list"
  e_type :: u16
  e_machine :: u16
  e_entry :: u64
  e_phoff :: u64
  e_phentsize :: u16
  e_phnum :: u16

record Elf64_Phdr =
  p_type :: u32
  p_flags :: u32
  p_offset :: u64
  p_vaddr :: u64
  p_paddr :: u64
  p_filesz :: u64
  p_memsz :: u64
  p_align :: u64

definition EHDR_SIZE :: usize where "EHDR_SIZE = 64"

definition ehdr_at :: "ram \<Rightarrow> u64 \<Rightarrow> Elf64_Ehdr" where
  "ehdr_at m a = \<lparr>e_ident = read_bytes m a 16, e_type = load16 m (a + 16), e_machine = load16 m (a + 18),
     e_entry = load64 m (a + 24), e_phoff = load64 m (a + 32), e_phentsize = load16 m (a + 54),
     e_phnum = load16 m (a + 56)\<rparr>"

definition phdr_at :: "ram \<Rightarrow> u64 \<Rightarrow> Elf64_Phdr" where
  "phdr_at m a = \<lparr>p_type = load32 m a, p_flags = load32 m (a + 4), p_offset = load64 m (a + 8),
     p_vaddr = load64 m (a + 16), p_paddr = load64 m (a + 24), p_filesz = load64 m (a + 32),
     p_memsz = load64 m (a + 40), p_align = load64 m (a + 48)\<rparr>"

definition ELF_MAGIC :: "u8 list" where "ELF_MAGIC = [0x7F, 0x45, 0x4C, 0x46]"
definition EM_AARCH64 :: u16 where "EM_AARCH64 = 183"
definition ET_EXEC :: u16 where "ET_EXEC = 2"
definition PT_LOAD :: u32 where "PT_LOAD = 1"

definition elf_validate :: "ram \<Rightarrow> u64 \<Rightarrow> usize \<Rightarrow> bool" where
  "elf_validate m data sz =
     (if sz < EHDR_SIZE then False
      else let ehdr = ehdr_at m data
           in if take 4 (e_ident ehdr) \<noteq> ELF_MAGIC then False
              else if e_ident ehdr ! 4 \<noteq> 2 then False
              else if e_ident ehdr ! 5 \<noteq> 1 then False
              else if e_machine ehdr \<noteq> EM_AARCH64 then False
              else e_type ehdr = ET_EXEC)"

section \<open>Loading the segments\<close>

definition page_down :: "u64 \<Rightarrow> u64" where
  "page_down a = a AND NOT (PAGE_SIZE - 1)"

text \<open>The copy into one fresh page; all arithmetic is 64-bit and wraps.\<close>

definition copy_page :: "u64 \<Rightarrow> u32 \<Rightarrow> Elf64_Phdr \<Rightarrow> u64 \<Rightarrow> u64 \<Rightarrow> ram \<Rightarrow> ram" where
  "copy_page file_data bytes_read phdr va page m =
     (let seg_offset = va - p_vaddr phdr
      in if seg_offset < p_filesz phdr
         then let copy_off = p_offset phdr + seg_offset;
                  copy_len = (if seg_offset + PAGE_SIZE > p_filesz phdr then p_filesz phdr - seg_offset else PAGE_SIZE)
              in if copy_off + copy_len \<le> ucast bytes_read then memcpy m page (file_data + copy_off) copy_len else m
         else m)"

partial_function (option) load_pages ::
  "u64 \<Rightarrow> u32 \<Rightarrow> u64 \<Rightarrow> u64 \<Rightarrow> u64 \<Rightarrow> u64 \<Rightarrow> 'a mm_scheme \<Rightarrow> ('a mm_scheme \<times> bool) option" where
  "load_pages file_data bytes_read pgd ph va vend s =
     (if va < vend
      then let (s, page) = alloc_page s
           in if page = 0 then Some (s, False)
              else let s = map_user_page pgd va page PTE_USER_RWX s;
                       s = s\<lparr>mem := copy_page file_data bytes_read (phdr_at (mem s) ph) va page (mem s)\<rparr>
                   in load_pages file_data bytes_read pgd ph (va + PAGE_SIZE) vend s
      else Some (s, True))"

definition load_segment :: "u64 \<Rightarrow> u32 \<Rightarrow> u64 \<Rightarrow> u64 \<Rightarrow> 'a mm_scheme \<Rightarrow> ('a mm_scheme \<times> bool) option" where
  "load_segment file_data bytes_read pgd ph s =
     (let phdr = phdr_at (mem s) ph
      in if p_type phdr \<noteq> PT_LOAD then Some (s, True)
         else load_pages file_data bytes_read pgd ph (page_down (p_vaddr phdr))
                (page_down (p_vaddr phdr + p_memsz phdr + PAGE_SIZE - 1)) s)"

text \<open>\<open>i * e_phentsize\<close> is a product of two \<open>int\<close>s: it wraps at 32 bits and is sign-extended.\<close>

definition phdr_addr :: "ram \<Rightarrow> u64 \<Rightarrow> u16 \<Rightarrow> u64" where
  "phdr_addr m buf i =
     buf + e_phoff (ehdr_at m buf) + scast ((ucast i :: u32) * ucast (e_phentsize (ehdr_at m buf)))"

function load_segments :: "u64 \<Rightarrow> u32 \<Rightarrow> u64 \<Rightarrow> u16 \<Rightarrow> 'a mm_scheme \<Rightarrow> ('a mm_scheme \<times> bool) option" where
  "load_segments buf bytes_read pgd i s =
     (if i < e_phnum (ehdr_at (mem s) buf)
      then Option.bind (load_segment buf bytes_read pgd (phdr_addr (mem s) buf i) s)
             (\<lambda>(s, ok). if \<not> ok then Some (s, False) else load_segments buf bytes_read pgd (i + 1) s)
      else Some (s, True))"
  by pat_completeness auto
termination
proof (relation "measure (\<lambda>(buf, bytes_read, pgd, i, s). 2 ^ 16 - unat i)")
  fix buf pgd :: u64 and bytes_read :: u32 and i :: u16 and s t :: "'a mm_scheme" and ok r
  assume "i < e_phnum (ehdr_at (mem s) buf)"
  then have "unat i < unat (e_phnum (ehdr_at (mem s) buf))" by (simp add: word_less_nat_alt)
  moreover have "unat (e_phnum (ehdr_at (mem s) buf)) < 65536" by simp
  ultimately have "unat i < 65535" by linarith
  then have "unat (i + 1) = unat i + 1" "unat i < 65535"
    by (simp_all add: unat_word_ariths)
  then show "((buf, bytes_read, pgd, i + 1, t), buf, bytes_read, pgd, i, s) \<in>
      measure (\<lambda>(buf, bytes_read, pgd, i, s). 2 ^ 16 - unat i)" by simp
qed simp

section \<open>Loading and starting a program\<close>

abbreviation say :: "'s printer \<Rightarrow> (nat \<Rightarrow> u64) \<Rightarrow> string \<Rightarrow> 's fat \<Rightarrow> 's fat option" where
  "say pr args msg s \<equiv> Option.bind (pr args (ascii msg @ [10]) (machine s)) (\<lambda>m. Some (s\<lparr>machine := m\<rparr>))"

text \<open>The error exits after the buffer is allocated: a message, then the buffer is given back.\<close>

definition give_up ::
  "('a heap_scheme) printer \<Rightarrow> string \<Rightarrow> u64 \<Rightarrow> 'a heap_scheme fat \<Rightarrow> ('a heap_scheme fat \<times> u32) option" where
  "give_up pr msg buf s =
     Option.bind (say pr (\<lambda>_. 0) msg s) (\<lambda>s. Some (s\<lparr>machine := kfree buf (machine s)\<rparr>, 0))"

text \<open>
  \<open>path\<close> and \<open>pname\<close> are the pointers, \<open>path_str\<close> the string at \<open>path\<close>.  The error exits for a
  full process table or exhausted pages give back the buffer only: the page table and the
  pages mapped in it stay allocated.  The last message reads the entry point from the
  buffer after it has been given back.
\<close>

definition start_program ::
  "('a procs_scheme) printer \<Rightarrow> u64 \<Rightarrow> u64 \<Rightarrow> u64 \<Rightarrow> 'a procs_scheme fat \<Rightarrow> ('a procs_scheme fat \<times> u32) option" where
  "start_program pr pname buf pgd s =
     (let (m, proc) = create_user pname (e_entry (ehdr_at (mem (machine s)) buf)) pgd (machine s);
          s = s\<lparr>machine := m\<rparr>
      in case proc of
           None \<Rightarrow> give_up pr ''ELF: cannot create process'' buf s
         | Some i \<Rightarrow>
             let s = s\<lparr>machine := kfree buf (machine s)\<rparr>;
                 p = pid (process_table (machine s) ! i)
             in Option.bind
                  (say pr (\<lambda>n. if n = 0 then pname else if n = 1 then ucast p else e_entry (ehdr_at (mem (machine s)) buf))
                     (''ELF: loaded '' @ [CHR 0x27] @ ''%s'' @ [CHR 0x27] @ '' (pid %u, entry %x)'') s)
                  (\<lambda>s. Some (s, p)))"

definition load_image ::
  "('a procs_scheme) printer \<Rightarrow> u64 \<Rightarrow> u64 \<Rightarrow> u64 \<Rightarrow> u32 \<Rightarrow> 'a procs_scheme fat \<Rightarrow> ('a procs_scheme fat \<times> u32) option" where
  "load_image pr kernel_pgd pname buf bytes_read s =
     (if \<not> elf_validate (mem (machine s)) buf (ucast bytes_read) then give_up pr ''ELF: invalid ELF binary'' buf s
      else let (m, pgd) = create_user_page_table kernel_pgd (machine s);
               s = s\<lparr>machine := m\<rparr>
           in if pgd = 0 then give_up pr ''ELF: cannot create page table'' buf s
              else Option.bind (load_segments buf bytes_read pgd 0 (machine s))
                     (\<lambda>(m, ok). let s = s\<lparr>machine := m\<rparr>
                        in if \<not> ok then give_up pr ''ELF: out of pages'' buf s
                           else start_program pr pname buf pgd s))"

definition load_and_exec ::
  "('a procs_scheme) sector_read \<Rightarrow> ('a procs_scheme) printer \<Rightarrow> u64 \<Rightarrow> u64 \<Rightarrow> u8 list \<Rightarrow> u64 \<Rightarrow>
   'a procs_scheme fat \<Rightarrow> ('a procs_scheme fat \<times> u32) option" where
  "load_and_exec rd pr kernel_pgd path path_str pname s =
     Option.bind (file_size rd path_str s)
       (\<lambda>(s, fsize).
          if fsize = 0 then Option.bind (say pr (\<lambda>_. path) ''ELF: file not found: %s'' s) (\<lambda>s. Some (s, 0))
          else Option.bind (kmalloc (ucast fsize) (machine s))
            (\<lambda>(m, buf).
               let s = s\<lparr>machine := m\<rparr>
               in if buf = 0 then Option.bind (say pr (\<lambda>_. 0) ''ELF: out of memory'' s) (\<lambda>s. Some (s, 0))
                  else Option.bind (read_file rd path_str fsize s)
                    (\<lambda>(s, data, r).
                       let s = s\<lparr>machine := (machine s)\<lparr>mem := write_bytes (mem (machine s)) buf data\<rparr>\<rparr>
                       in case r of
                            None \<Rightarrow> give_up pr ''ELF: read failed'' buf s
                          | Some bytes_read \<Rightarrow> load_image pr kernel_pgd pname buf bytes_read s)))"

end
