(* ===== verification/Address_Space.thy ===== *)
theory Address_Space
  imports Mmu
begin

text \<open>
  What the page-table operations leave alone.  The translation tree of \<open>pgd\<close> occupies the
  pages \<open>tables\<close>; \<open>pt_grows\<close> relates the states before and after steps that only add to
  the tree and allocate pages: every allocated page that is not a table keeps its bytes,
  no such page becomes a table, and no block descriptor appears.  The program loader is
  verified on top of these facts.
\<close>

definition tables :: "ram \<Rightarrow> u64 \<Rightarrow> u64 set" where
  "tables m pgd = {t. \<exists>n. node_addr m pgd n = Some t}"

definition pt_grows :: "u64 \<Rightarrow> 'a mm_scheme \<Rightarrow> 'a mm_scheme \<Rightarrow> bool" where
  "pt_grows pgd s t \<longleftrightarrow>
     held_pages s \<subseteq> held_pages t \<and> tables (mem t) pgd \<inter> held_pages s \<subseteq> tables (mem s) pgd \<and>
     (\<forall>p \<in> held_pages s - tables (mem s) pgd. \<forall>x. in_range p 4096 x \<longrightarrow> mem t x = mem s x) \<and>
     (\<forall>va. no_block (mem s) pgd va \<longrightarrow> no_block (mem t) pgd va)"

lemma pt_grows_refl [simp]: "pt_grows pgd s s"
  by (simp add: pt_grows_def)

lemma pt_grows_trans:
  assumes "pt_grows pgd s t" "pt_grows pgd t u"
  shows "pt_grows pgd s u"
proof -
  have "p \<in> held_pages t - tables (mem t) pgd" if "p \<in> held_pages s - tables (mem s) pgd" for p
    using assms(1) that by (auto simp: pt_grows_def)
  then have "mem u x = mem s x" if "p \<in> held_pages s - tables (mem s) pgd" "in_range p 4096 x" for p x
    using assms that unfolding pt_grows_def by (metis (no_types, lifting))
  moreover have "held_pages s \<subseteq> held_pages t" "held_pages t \<subseteq> held_pages u"
      "tables (mem t) pgd \<inter> held_pages s \<subseteq> tables (mem s) pgd" "tables (mem u) pgd \<inter> held_pages t \<subseteq> tables (mem t) pgd"
      "no_block (mem s) pgd va \<Longrightarrow> no_block (mem u) pgd va" for va
    using assms by (simp_all only: pt_grows_def)
  ultimately show ?thesis unfolding pt_grows_def by (simp, blast)
qed

lemma pages_disjoint:
  assumes "is_page p" "is_page t" "p \<noteq> t" "in_range p 4096 x"
  shows "\<not> in_range t 4096 x"
proof -
  obtain i j where "p = page_addr i" "t = page_addr j" "i < 65536" "j < 65536"
    using assms(1, 2) by (auto simp: is_page_def)
  then have "sep p 4096 t 4096" using assms(3) by (auto intro: page_addr_sep_neq)
  then show ?thesis using assms(4) by (auto dest: sep_not_in_range)
qed

lemma set_entry_frame:
  assumes "is_page p" "is_page t" "p \<noteq> t" "idx < 512" "in_range p 4096 x"
  shows "set_entry t idx e m x = m x"
proof -
  have "\<not> in_range (t + 8 * idx) 8 x"
    using pages_disjoint [OF assms(1, 2, 3, 5)] entry_in_page [OF assms(2, 4)] by blast
  then show ?thesis by (simp add: set_entry_def store64_def write_bytes_apply)
qed

text \<open>Memory that agrees on the tables gives the same tree.\<close>

lemma tree_cong:
  assumes pages: "\<forall>t \<in> tables m pgd. is_page t"
    and same: "\<forall>t \<in> tables m pgd. \<forall>x. in_range t 4096 x \<longrightarrow> m' x = m x"
  shows "node_addr m' pgd n = node_addr m pgd n" "walk m' pgd va = walk m pgd va"
    "no_block m' pgd va = no_block m pgd va" "tables m' pgd = tables m pgd"
proof -
  have e: "entry m' t j = entry m t j" if "t \<in> tables m pgd" "j < 512" for t j
    unfolding entry_def using entry_in_page [OF bspec [OF pages that(1)] that(2)] bspec [OF same that(1)]
    by (auto intro!: load64_cong)
  have root: "pgd \<in> tables m pgd" by (auto simp: tables_def intro: exI [of _ Root])
  have nt: "next_table m' t j = next_table m t j" if "t \<in> tables m pgd" for t j
    using e [OF that, of j] by (cases "j < 512") (simp_all add: next_table_def)
  have l2: "t \<in> tables m pgd" if "next_table m pgd i = Some t" for i t
    using that by (auto simp: tables_def intro: exI [of _ "L2 i"])
  show n: "node_addr m' pgd n = node_addr m pgd n" for n
  proof (cases n)
    case (L3 i j)
    then show ?thesis using nt [OF root, of i] nt [OF l2, of i _ j] by (cases "next_table m pgd i") simp_all
  qed (use nt [OF root] in simp_all)
  have mem: "node_addr m pgd n = Some t \<Longrightarrow> t \<in> tables m pgd" for n t by (auto simp: tables_def)
  show "walk m' pgd va = walk m pgd va"
    by (rule walk_path_cong) (use e root mem idx_lt in blast)+
  show "no_block m' pgd va = no_block m pgd va"
    unfolding no_block_def n using e [OF root idx_lt] e [OF mem [of "L2 (i1 va)"] idx_lt] by fastforce
  show "tables m' pgd = tables m pgd" by (simp add: tables_def n)
qed

lemma pt_wf_tables:
  assumes "pt_wf s pgd" "t \<in> tables (mem s) pgd"
  shows "t \<in> held_pages s" "is_page t"
proof -
  obtain n where n: "node_addr (mem s) pgd n = Some t" using assms(2) unfolding tables_def by blast
  then show "t \<in> held_pages s" using assms(1) unfolding pt_wf_def by blast
  show "is_page t" by (rule pt_wf_page [OF assms(1) n])
qed

lemma pt_wf_cong:
  assumes "pt_wf s pgd" "\<And>n. node_addr (mem t) pgd n = node_addr (mem s) pgd n" "pages_wf t"
    "held_pages s \<subseteq> held_pages t"
  shows "pt_wf t pgd"
  unfolding pt_wf_def assms(2) using assms(1, 3, 4) unfolding pt_wf_def by blast

section \<open>The steps\<close>

lemma alloc_page_tree:
  assumes wf: "pt_wf s pgd" and free: "free_set s \<noteq> {}"
  shows "pt_wf (fst (alloc_page s)) pgd" "pt_grows pgd s (fst (alloc_page s))"
    "walk (mem (fst (alloc_page s))) pgd va = walk (mem s) pgd va"
    "snd (alloc_page s) \<noteq> 0" "snd (alloc_page s) \<notin> held_pages s" "is_page (snd (alloc_page s))"
    "snd (alloc_page s) \<in> held_pages (fst (alloc_page s)) - tables (mem (fst (alloc_page s))) pgd"
    "in_range (snd (alloc_page s)) 4096 x \<Longrightarrow> mem (fst (alloc_page s)) x = 0"
proof -
  have pw: "pages_wf s" using wf by (simp add: pt_wf_def)
  show nz: "snd (alloc_page s) \<noteq> 0" using alloc_page_result [OF pw] free by simp
  show fresh: "snd (alloc_page s) \<notin> held_pages s" by (rule pg.alloc_fresh [OF pw nz])
  have held: "held_pages (fst (alloc_page s)) = insert (snd (alloc_page s)) (held_pages s)"
    by (rule pg.alloc_held [OF pw nz])
  show "is_page (snd (alloc_page s))" by (rule held_is_page [OF alloc_page_wf [OF pw]]) (simp add: held)
  have same: "mem (fst (alloc_page s)) x = mem s x" if "p \<in> held_pages s" "in_range p 4096 x" for p x
    by (rule pg.held_memory_kept [OF pw that])
  note c = tree_cong [of "mem s" pgd "mem (fst (alloc_page s))"]
  have pages: "\<forall>t \<in> tables (mem s) pgd. is_page t" using pt_wf_tables [OF wf] by blast
  have s: "\<forall>t \<in> tables (mem s) pgd. \<forall>x. in_range t 4096 x \<longrightarrow> mem (fst (alloc_page s)) x = mem s x"
    using same pt_wf_tables [OF wf] by blast
  note c = c [OF pages s]
  show "walk (mem (fst (alloc_page s))) pgd va = walk (mem s) pgd va" by (rule c(2))
  show "pt_wf (fst (alloc_page s)) pgd"
    using pt_wf_cong [OF wf c(1) alloc_page_wf [OF pw]] by (simp add: held subset_insertI)
  show "pt_grows pgd s (fst (alloc_page s))"
    using c(3, 4) same unfolding pt_grows_def held by blast
  show "snd (alloc_page s) \<in> held_pages (fst (alloc_page s)) - tables (mem (fst (alloc_page s))) pgd"
    using c(4) fresh pt_wf_tables [OF wf] by (auto simp: held)
  show "mem (fst (alloc_page s)) x = 0" if "in_range (snd (alloc_page s)) 4096 x" for x
    using pg.alloc_store [OF pw nz] that by simp
qed

lemma get_or_create_table_adds:
  assumes wf: "pt_wf s pgd" and N: "node_addr (mem s) pgd N = Some t" and idx: "idx < 512"
    and N3: "\<And>i j. N \<noteq> L3 i j" and free: "free_set s \<noteq> {}"
  shows "pt_grows pgd s (fst (get_or_create_table t idx s))"
proof (cases "invalid (entry (mem s) t idx)")
  case False
  then show ?thesis by (simp add: get_or_create_table_def invalid_def PTE_VALID_def)
next
  case inv: True
  define m' where "m' = set_entry t idx (snd (alloc_page s) OR PTE_VALID OR PTE_TABLE) (mem (fst (alloc_page s)))"
  define new where "new = snd (alloc_page s)"
  note a = alloc_page_tree [OF wf free, folded new_def]
  note g = grow_entries [OF wf N idx free, folded m'_def, folded new_def]
  have n: "node_addr m' pgd n = (if n = child N idx then Some new else node_addr (mem s) pgd n)" for n
    using grow_nodes [OF wf N idx N3 free inv, folded m'_def, folded new_def] .
  have e: "fst (get_or_create_table t idx s) = (fst (alloc_page s))\<lparr>mem := m'\<rparr>"
    using inv a(4) by (simp add: get_or_create_table_def invalid_def PTE_VALID_def m'_def new_def Let_def split_beta)
  have t: "t \<in> tables (mem s) pgd" using N by (auto simp: tables_def)
  have "tables m' pgd \<inter> held_pages s \<subseteq> tables (mem s) pgd"
    using n a(5) by (auto simp: tables_def split: if_splits)
  moreover have "m' x = mem s x" if "p \<in> held_pages s - tables (mem s) pgd" "in_range p 4096 x" for p x
  proof -
    have "is_page p" using that(1) wf held_is_page [of s p] by (simp add: pt_wf_def)
    then have "m' x = mem (fst (alloc_page s)) x"
      unfolding m'_def using that t pt_wf_tables [OF wf t] idx by (intro set_entry_frame) auto
    then show ?thesis using a(2) that by (auto simp: pt_grows_def)
  qed
  moreover have "no_block m' pgd va" if nb: "no_block (mem s) pgd va" for va
  proof -
    have tp: "table_ptr (new OR PTE_VALID OR PTE_TABLE)" using table_descriptor [OF a(6)] by (simp add: table_ptr_def)
    have "invalid (entry m' pgd (i1 va)) \<or> table_ptr (entry m' pgd (i1 va))"
      using g(4) [of Root pgd "i1 va"] idx_lt nb tp by (auto simp: no_block_def)
    moreover have "invalid (entry m' u (i2 va)) \<or> table_ptr (entry m' u (i2 va))"
      if "node_addr m' pgd (L2 (i1 va)) = Some u" for u
    proof (cases "L2 (i1 va) = child N idx")
      case True
      then have "u = new" using that n [of "L2 (i1 va)"] by simp
      then show ?thesis using g(5) [OF idx_lt] by (simp add: invalid_def)
    next
      case False
      then have u: "node_addr (mem s) pgd (L2 (i1 va)) = Some u" using that n [of "L2 (i1 va)"] by simp
      then show ?thesis using g(4) [OF u idx_lt, of "drop_bit 21 va"] nb tp by (auto simp: no_block_def)
    qed
    ultimately show ?thesis by (auto simp: no_block_def)
  qed
  ultimately show ?thesis using a(2) by (simp add: pt_grows_def e owned_pages_def)
qed

lemma set_leaf_grows:
  assumes wf: "pt_wf s pgd" and u: "node_addr (mem s) pgd (L3 i j) = Some u" and k: "k < 512"
  shows "pt_grows pgd s (s\<lparr>mem := set_entry u k e (mem s)\<rparr>)"
proof -
  note l = set_leaf_nodes [OF wf u k, where e = e]
  have "tables (set_entry u k e (mem s)) pgd = tables (mem s) pgd" by (simp add: tables_def l(1))
  moreover have "set_entry u k e (mem s) x = mem s x" if "p \<in> held_pages s - tables (mem s) pgd" "in_range p 4096 x" for p x
  proof -
    have "u \<in> tables (mem s) pgd" using u unfolding tables_def by blast
    moreover have "is_page p" using that(1) wf held_is_page [of s p] by (simp add: pt_wf_def)
    ultimately show ?thesis
      using that pt_wf_page [OF wf u] k by (intro set_entry_frame [of p]) auto
  qed
  moreover have "no_block (set_entry u k e (mem s)) pgd va" if "no_block (mem s) pgd va" for va
    using that l(2) [of Root pgd, OF _ idx_lt] l(2) [of "L2 (i1 va)", OF _ idx_lt]
    unfolding no_block_def l(1) by auto
  ultimately show ?thesis by (simp add: pt_grows_def owned_pages_def)
qed

lemma map_user_page_grows:
  assumes wf: "pt_wf s pgd" and nb: "no_block (mem s) pgd virt" and free: "2 \<le> card (free_set s)"
  shows "pt_grows pgd s (map_user_page pgd virt phys flags s)"
    "card (free_set s) \<le> card (free_set (map_user_page pgd virt phys flags s)) + 2"
proof -
  have ne: "free_set s \<noteq> {}" using free by auto
  have ok1: "invalid (entry (mem s) pgd (i1 virt)) \<or> table_ptr (entry (mem s) pgd (i1 virt))"
    using nb by (simp add: no_block_def)
  have root: "node_addr (mem s) pgd Root = Some pgd" by simp
  obtain s1 t where s1: "get_or_create_table pgd (i1 virt) s = (s1, t)" "t \<noteq> 0" "pt_wf s1 pgd"
      "\<And>n. node_addr (mem s1) pgd n = (if n = child Root (i1 virt) then Some t else node_addr (mem s) pgd n)"
      "\<And>va. walk (mem s1) pgd va = walk (mem s) pgd va" "card (free_set s) \<le> card (free_set s1) + 1"
      "s1 = s \<or> (\<forall>j < 512. entry (mem s1) t j = 0)"
    by (rule get_or_create_table_tree [OF wf root idx_lt node.distinct(3) ne ok1]) (rule that)
  have g1: "pt_grows pgd s s1"
    using get_or_create_table_adds [OF wf root idx_lt node.distinct(3) ne, of "drop_bit 30 virt"] s1(1) by simp
  have t: "node_addr (mem s1) pgd (L2 (i1 virt)) = Some t" using s1(4) [of "L2 (i1 virt)"] by simp
  have ne1: "free_set s1 \<noteq> {}" using s1(6) free by auto
  have "no_block (mem s1) pgd virt" using g1 nb by (simp add: pt_grows_def)
  then have ok2: "invalid (entry (mem s1) t (i2 virt)) \<or> table_ptr (entry (mem s1) t (i2 virt))"
    using t by (simp add: no_block_def)
  obtain s2 u where s2: "get_or_create_table t (i2 virt) s1 = (s2, u)" "u \<noteq> 0" "pt_wf s2 pgd"
      "\<And>n. node_addr (mem s2) pgd n =
         (if n = child (L2 (i1 virt)) (i2 virt) then Some u else node_addr (mem s1) pgd n)"
      "\<And>va. walk (mem s2) pgd va = walk (mem s1) pgd va" "card (free_set s1) \<le> card (free_set s2) + 1"
      "s2 = s1 \<or> (\<forall>j < 512. entry (mem s2) u j = 0)"
    by (rule get_or_create_table_tree [OF s1(3) t idx_lt node.distinct(5) ne1 ok2]) (rule that)
  have g2: "pt_grows pgd s1 s2"
    using get_or_create_table_adds [OF s1(3) t idx_lt node.distinct(5) ne1, of "drop_bit 21 virt"] s2(1) by simp
  have e: "map_user_page pgd virt phys flags s =
      s2\<lparr>mem := set_entry u (i3 virt) ((phys AND ADDR_MASK) OR flags) (mem s2)\<rparr>"
    using s1(1,2) s2(1,2) by (simp add: map_user_page_def map_page_in_table_def Let_def)
  have u: "node_addr (mem s2) pgd (L3 (i1 virt) (i2 virt)) = Some u"
    using s2(4) [of "L3 (i1 virt) (i2 virt)"] by simp
  show "pt_grows pgd s (map_user_page pgd virt phys flags s)"
    unfolding e by (rule pt_grows_trans [OF pt_grows_trans [OF g1 g2] set_leaf_grows [OF s2(3) u idx_lt]])
  show "card (free_set s) \<le> card (free_set (map_user_page pgd virt phys flags s)) + 2"
    unfolding e using s1(6) s2(6) by (simp add: free_set_def)
qed

section \<open>Resident pages\<close>

text \<open>
  \<open>resident s pgd v f\<close>: the page of virtual address \<open>v\<close> is mapped for user code to a page
  that is no table and holds the bytes \<open>f 0, f 1, \<dots>\<close>.
\<close>

definition resident :: "'a mm_scheme \<Rightarrow> u64 \<Rightarrow> u64 \<Rightarrow> (nat \<Rightarrow> u8) \<Rightarrow> bool" where
  "resident s pgd v f \<longleftrightarrow> (\<exists>p \<in> held_pages s - tables (mem s) pgd.
     (\<forall>va. drop_bit 12 va = drop_bit 12 v \<longrightarrow>
        walk (mem s) pgd va = Some (p OR (va AND 0xFFF), p OR PTE_USER_RWX)) \<and>
     (\<forall>k < 4096. mem s (p + of_nat k) = f k))"

text \<open>A byte in an allocated page that is no table.\<close>

definition safe :: "'a mm_scheme \<Rightarrow> u64 \<Rightarrow> u64 \<Rightarrow> bool" where
  "safe s pgd x \<longleftrightarrow> (\<exists>p \<in> held_pages s - tables (mem s) pgd. in_range p 4096 x)"

lemma in_page: "k < 4096 \<Longrightarrow> in_range p 4096 (p + of_nat k)"
  by (auto simp: in_range_offset intro!: exI [of _ k])

lemma grows_page:
  assumes "pt_grows pgd s t" "p \<in> held_pages s - tables (mem s) pgd"
  shows "p \<in> held_pages t - tables (mem t) pgd" "in_range p 4096 x \<Longrightarrow> mem t x = mem s x"
  using assms unfolding pt_grows_def by blast+

lemma safe_grows:
  assumes "pt_grows pgd s t" "safe s pgd x"
  shows "safe t pgd x" "mem t x = mem s x"
  using grows_page [OF assms(1)] assms(2) unfolding safe_def by blast+

lemma resident_grows:
  assumes g: "pt_grows pgd s t" and r: "resident s pgd v f"
    and w: "\<And>va. drop_bit 12 va = drop_bit 12 v \<Longrightarrow> walk (mem t) pgd va = walk (mem s) pgd va"
  shows "resident t pgd v f"
proof -
  obtain p where p: "p \<in> held_pages s - tables (mem s) pgd"
      "\<forall>va. drop_bit 12 va = drop_bit 12 v \<longrightarrow>
        walk (mem s) pgd va = Some (p OR (va AND 0xFFF), p OR PTE_USER_RWX)"
      "\<forall>k < 4096. mem s (p + of_nat k) = f k"
    using r unfolding resident_def by blast
  have "mem t (p + of_nat k) = f k" if "k < 4096" for k
    using grows_page(2) [OF g p(1) in_page [OF that]] p(3) that by simp
  then show ?thesis unfolding resident_def using grows_page(1) [OF g p(1)] p(2) w by metis
qed

end
