(* ===== verification/Elf_Props.thy ===== *)
theory Elf_Props
  imports Elf Address_Space
begin

text \<open>
  The loader puts every byte of the program where the program headers say.  A segment is
  \<open>seg_ok\<close> when it starts on a page boundary, lies below the end of the translated address
  space and its file part lies inside the file; \<open>segment_byte\<close> is the byte that belongs at
  a virtual address of the segment.
\<close>

section \<open>Segments\<close>

definition segment_byte :: "ram \<Rightarrow> u64 \<Rightarrow> Elf64_Phdr \<Rightarrow> u64 \<Rightarrow> u8" where
  "segment_byte m buf phdr a =
     (if a - p_vaddr phdr < p_filesz phdr then m (buf + (p_offset phdr + (a - p_vaddr phdr))) else 0)"

definition seg_ok :: "u32 \<Rightarrow> Elf64_Phdr \<Rightarrow> bool" where
  "seg_ok bytes_read phdr \<longleftrightarrow>
     4096 dvd unat (p_vaddr phdr) \<and> unat (p_vaddr phdr) + unat (p_memsz phdr) \<le> 2 ^ 39 \<and>
     unat (p_filesz phdr) \<le> unat (p_memsz phdr) \<and> unat (p_offset phdr) + unat (p_filesz phdr) \<le> unat bytes_read"

definition seg_pages :: "Elf64_Phdr \<Rightarrow> nat" where
  "seg_pages phdr = (unat (p_memsz phdr) + 4095) div 4096"

definition seg_page :: "Elf64_Phdr \<Rightarrow> nat \<Rightarrow> u64" where
  "seg_page phdr j = p_vaddr phdr + of_nat (4096 * j)"

lemma unat_page_down: "unat (page_down a) = unat a div 4096 * 4096"
proof -
  have "PAGE_SIZE - 1 = mask 12" by (simp add: PAGE_SIZE_def mask_eq_exp_minus_1)
  then have "page_down a = push_bit 12 (drop_bit 12 a)"
    unfolding page_down_def by (intro bit_word_eqI) (auto simp: bit_simps simp del: mask_numeral)
  moreover have "unat (drop_bit 12 a) = unat a div 4096" by (simp add: unat_drop_div)
  moreover have "unat a div 4096 * 4096 < 18446744073709551616"
    using div_times_less_eq_dividend [of "unat a" 4096] unat_lt_u64 [of a] by linarith
  ultimately show ?thesis by (simp add: push_bit_eq_mult unat_word_ariths mult.commute)
qed

lemma seg_page_facts:
  assumes ok: "seg_ok br phdr" and j: "j \<le> seg_pages phdr"
  shows "unat (seg_page phdr j) = unat (p_vaddr phdr) + 4096 * j" "unat (seg_page phdr j) \<le> 2 ^ 39"
    "seg_page phdr j - p_vaddr phdr = of_nat (4096 * j)"
proof -
  have "4096 * j \<le> unat (p_memsz phdr) + 4095" using j unfolding seg_pages_def by (simp add: less_eq_div_iff_mult_less_eq mult.commute)
  moreover obtain q where q: "unat (p_vaddr phdr) = 4096 * q" using ok by (auto simp: seg_ok_def dvd_def)
  ultimately have "4096 * (q + j) < 2 ^ 39 + 4096" using ok by (simp add: seg_ok_def)
  then have "q + j \<le> 2 ^ 27" by simp
  then have le: "unat (p_vaddr phdr) + 4096 * j \<le> 2 ^ 39" using q by simp
  then have "unat (of_nat (4096 * j) :: u64) = 4096 * j" by (intro unat_of_nat_small) simp
  then show u: "unat (seg_page phdr j) = unat (p_vaddr phdr) + 4096 * j"
    unfolding seg_page_def using le by (subst unat_add_small) (simp_all del: of_nat_mult)
  show "unat (seg_page phdr j) \<le> 2 ^ 39" using u le by simp
  show "seg_page phdr j - p_vaddr phdr = of_nat (4096 * j)" by (simp add: seg_page_def)
qed

lemma segment_ends:
  assumes ok: "seg_ok br phdr"
  shows "page_down (p_vaddr phdr) = seg_page phdr 0"
    "page_down (p_vaddr phdr + p_memsz phdr + PAGE_SIZE - 1) = seg_page phdr (seg_pages phdr)"
proof -
  obtain q where q: "unat (p_vaddr phdr) = 4096 * q" using ok by (auto simp: seg_ok_def dvd_def)
  have lim: "unat (p_vaddr phdr) + unat (p_memsz phdr) \<le> 549755813888" using ok by (simp add: seg_ok_def)
  show "page_down (p_vaddr phdr) = seg_page phdr 0"
    by (simp add: word_unat_eq_iff unat_page_down q seg_page_def)
  have "unat (p_vaddr phdr + p_memsz phdr) = unat (p_vaddr phdr) + unat (p_memsz phdr)"
    using lim by (subst unat_add_small) simp_all
  then have "unat (p_vaddr phdr + p_memsz phdr + 4095) = unat (p_vaddr phdr) + unat (p_memsz phdr) + 4095"
    using lim by (subst unat_add_small) simp_all
  then have "unat (page_down (p_vaddr phdr + p_memsz phdr + 4095)) = (4096 * q + (unat (p_memsz phdr) + 4095)) div 4096 * 4096"
    by (simp add: unat_page_down q add.assoc)
  also have "\<dots> = unat (p_vaddr phdr) + 4096 * seg_pages phdr"
    by (simp add: seg_pages_def q div_mult_self4 add_mult_distrib)
  finally show "page_down (p_vaddr phdr + p_memsz phdr + PAGE_SIZE - 1) = seg_page phdr (seg_pages phdr)"
    using seg_page_facts(1) [OF ok order_refl] by (simp add: word_unat_eq_iff PAGE_SIZE_def add.commute)
qed

section \<open>The copy into one page\<close>

lemma memcpy_loop_frame: "\<not> in_range d n x \<Longrightarrow> memcpy_loop m d s n x = m x"
proof (induction n arbitrary: m d s)
  case (Suc n)
  then have ne: "x \<noteq> d" by (auto simp: in_range_def)
  then have "unat (x - (d + 1)) = unat (x - d) - 1"
    using unat_minus_one [of "x - d"] by (simp add: diff_diff_eq)
  then have "\<not> in_range (d + 1) n x" using Suc.prems by (simp add: in_range_def)
  then show ?case using Suc.IH ne by simp
qed simp

lemma memcpy_frame: "\<not> in_range d (unat n) x \<Longrightarrow> memcpy m d s n x = m x"
  by (simp add: memcpy_def memcpy_loop_frame)

lemma copy_page_frame: "\<not> in_range page 4096 x \<Longrightarrow> copy_page buf br phdr va page m x = m x"
proof -
  assume x: "\<not> in_range page 4096 x"
  let ?o = "va - p_vaddr phdr"
  let ?n = "if ?o + PAGE_SIZE > p_filesz phdr then p_filesz phdr - ?o else PAGE_SIZE"
  have "unat ?n \<le> 4096" if "?o < p_filesz phdr"
  proof (cases "?o + PAGE_SIZE > p_filesz phdr")
    case True
    then have "p_filesz phdr - ?o < PAGE_SIZE" using that
      by (auto simp: word_less_nat_alt PAGE_SIZE_def unat_sub_if' unat_plus_if' split: if_splits)
    then show ?thesis using True by (simp add: word_less_nat_alt PAGE_SIZE_def)
  qed (simp add: PAGE_SIZE_def)
  then have "memcpy m page a ?n x = m x" if "?o < p_filesz phdr" for a
    using that x memcpy_frame [of page ?n x m a] by (auto simp: in_range_def)
  then show ?thesis by (simp add: copy_page_def Let_def)
qed

lemma segment_byte_cong:
  assumes ok: "seg_ok br phdr" and same: "\<And>i. i < unat br \<Longrightarrow> m (buf + of_nat i) = m' (buf + of_nat i)"
  shows "segment_byte m buf phdr a = segment_byte m' buf phdr a"
proof (cases "a - p_vaddr phdr < p_filesz phdr")
  case True
  let ?i = "unat (p_offset phdr) + unat (a - p_vaddr phdr)"
  have "unat (p_offset phdr) + unat (p_filesz phdr) \<le> unat br" using ok by (simp add: seg_ok_def)
  then have "?i < unat br" using True unfolding word_less_nat_alt by linarith
  from same [OF this] show ?thesis using True by (simp add: segment_byte_def)
qed (simp add: segment_byte_def)

lemma copy_page_contents:
  assumes ok: "seg_ok br phdr" and j: "j < seg_pages phdr" and k: "k < 4096"
    and zero: "\<And>x. in_range page 4096 x \<Longrightarrow> m x = 0"
    and apart: "\<And>i. i < unat br \<Longrightarrow> \<not> in_range page 4096 (buf + of_nat i)"
  shows "copy_page buf br phdr (seg_page phdr j) page m (page + of_nat k) =
    segment_byte m buf phdr (seg_page phdr j + of_nat k)"
proof -
  define o' where "o' = (of_nat (4096 * j) :: u64)"
  define n where "n = (if o' + PAGE_SIZE > p_filesz phdr then p_filesz phdr - o' else PAGE_SIZE)"
  have lim: "unat (p_vaddr phdr) + 4096 * j \<le> 549755813888"
    using seg_page_facts(1, 2) [OF ok, of j] j by simp
  then have o: "unat o' = 4096 * j" "seg_page phdr j - p_vaddr phdr = o'"
    unfolding o'_def by (auto intro!: unat_of_nat_small simp: seg_page_def simp del: of_nat_mult)
  have k': "unat (o' + of_nat k) = 4096 * j + k" using o lim k by (subst unat_add_small) simp_all
  have fl: "unat (p_offset phdr) + unat (p_filesz phdr) \<le> unat br" "unat (p_filesz phdr) \<le> unat (p_memsz phdr)"
    using ok by (simp_all add: seg_ok_def)
  have "unat br < 4294967296" by (rule unat_lt_u32)
  then have br: "unat (p_offset phdr) + unat (p_filesz phdr) < 4294967296" using fl(1) by linarith
  have d: "seg_page phdr j + of_nat k - p_vaddr phdr = o' + of_nat k" by (simp add: o'_def seg_page_def)
  have z: "m (page + of_nat k) = 0" using zero [OF in_page [OF k]] .
  show ?thesis
  proof (cases "4096 * j < unat (p_filesz phdr)")
    case False
    then have "\<not> o' < p_filesz phdr" "\<not> o' + of_nat k < p_filesz phdr"
      using o(1) k' by (simp_all add: word_less_nat_alt)
    then show ?thesis unfolding copy_page_def segment_byte_def d o(2) using z by simp
  next
    case True
    have p: "unat (o' + PAGE_SIZE) = 4096 * j + 4096"
      using o(1) lim by (subst unat_add_small) (simp_all add: PAGE_SIZE_def)
    have n: "unat n = min 4096 (unat (p_filesz phdr) - 4096 * j)"
      using True o(1) p by (auto simp: n_def word_less_nat_alt PAGE_SIZE_def unat_sub_if' min_def)
    have off: "unat (p_offset phdr + o') = unat (p_offset phdr) + 4096 * j"
      using True fl br o(1) by (subst unat_add_small) simp_all
    have "unat (p_offset phdr + o' + n) = unat (p_offset phdr) + 4096 * j + unat n"
      using True fl br off n by (subst unat_add_small) simp_all
    then have fit: "p_offset phdr + o' + n \<le> ucast br"
      using True fl n by (simp add: word_le_nat_alt unat_ucast_up)
    have src: "\<not> in_range page 4096 (buf + (p_offset phdr + o') + of_nat i)" if "i < unat n" for i
    proof -
      have "unat (p_offset phdr) + 4096 * j + i < unat br" using that n True fl(1) by linarith
      from apart [OF this] show ?thesis by (simp add: o'_def add.assoc)
    qed
    have "unat n \<le> unat (page - (buf + (p_offset phdr + o')))"
    proof (rule ccontr)
      assume "\<not> ?thesis"
      then have "\<not> in_range page 4096 (buf + (p_offset phdr + o') + of_nat (unat (page - (buf + (p_offset phdr + o')))))"
        by (intro src) simp
      then show False by (simp add: in_range_def)
    qed
    then have "memcpy m page (buf + (p_offset phdr + o')) n (page + of_nat k) =
        (if k < unat n then m (buf + (p_offset phdr + o') + of_nat k) else 0)"
      using k z memcpy_loop_apply [of "unat n" page "buf + (p_offset phdr + o')" m "page + of_nat k"] unat_lt_u64 [of n]
      by (simp add: memcpy_def in_range_def)
    moreover have "k < unat n \<longleftrightarrow> o' + of_nat k < p_filesz phdr"
      using n k k' True by (auto simp: word_less_nat_alt)
    moreover have "o' < p_filesz phdr" using True o(1) by (simp add: word_less_nat_alt)
    ultimately show ?thesis
      unfolding copy_page_def segment_byte_def d o(2) Let_def using fit by (simp add: add.assoc flip: n_def)
  qed
qed

section \<open>One page\<close>

lemma user_flags: "PTE_USER_RWX AND 3 = 3" "PTE_USER_RWX AND ADDR_MASK = 0"
  by (simp_all add: PTE_USER_RWX_def PTE_VALID_def PTE_PAGE_def PTE_AF_def PTE_SH_INNER_def
      PTE_ATTR_NORMAL_def PTE_AP_RW_def PTE_AP_USER_def ADDR_MASK_def push_bit_eq_mult)

definition mapped_page :: "u64 \<Rightarrow> u64 \<Rightarrow> 'a mm_scheme \<Rightarrow> 'a mm_scheme" where
  "mapped_page pgd va s = map_user_page pgd va (snd (alloc_page s)) PTE_USER_RWX (fst (alloc_page s))"

lemma mapped_page_facts:
  assumes wf: "pt_wf s pgd" and nb: "no_block (mem s) pgd va" and free: "3 \<le> card (free_set s)"
    and va: "va < 0x8000000000"
  defines "page \<equiv> snd (alloc_page s)" and "t \<equiv> mapped_page pgd va s"
  shows "page \<noteq> 0" "is_page page" "page \<notin> held_pages s" "pt_wf t pgd" "pt_grows pgd s t"
    "card (free_set s) \<le> card (free_set t) + 3" "page \<in> held_pages t - tables (mem t) pgd"
    "walk (mem t) pgd a = (if drop_bit 12 a = drop_bit 12 va then Some (page OR (a AND 0xFFF), page OR PTE_USER_RWX)
       else walk (mem s) pgd a)"
    "in_range page 4096 x \<Longrightarrow> mem t x = 0"
proof -
  have ne: "free_set s \<noteq> {}" using free by auto
  note a = alloc_page_tree [OF wf ne, folded page_def]
  let ?u = "fst (alloc_page s)"
  have t: "t = map_user_page pgd va page PTE_USER_RWX ?u" by (simp add: t_def page_def mapped_page_def)
  have c: "card (free_set s) = card (free_set ?u) + 1" "2 \<le> card (free_set ?u)"
    using alloc_free_card [OF _ ne] wf free by (simp_all add: pt_wf_def)
  have nb': "no_block (mem ?u) pgd va" using a(2) nb by (simp add: pt_grows_def)
  note w = map_user_page_walk [OF a(1) nb' c(2) va user_flags, of page, folded t]
  note g = map_user_page_grows [OF a(1) nb' c(2), of page PTE_USER_RWX, folded t]
  show "page \<noteq> 0" "is_page page" "page \<notin> held_pages s" by (fact a)+
  show "pt_wf t pgd" using w by blast
  show "pt_grows pgd s t" by (rule pt_grows_trans [OF a(2) g(1)])
  show "card (free_set s) \<le> card (free_set t) + 3" using c(1) g(2) by simp
  show "page \<in> held_pages t - tables (mem t) pgd" by (rule grows_page(1) [OF g(1) a(7)])
  have "page AND ADDR_MASK = page" using a(6) page_addr_bits(1) by (auto simp: is_page_def)
  then show "walk (mem t) pgd a = (if drop_bit 12 a = drop_bit 12 va then Some (page OR (a AND 0xFFF), page OR PTE_USER_RWX)
       else walk (mem s) pgd a)" using w a(3) by simp
  show "mem t x = 0" if "in_range page 4096 x" for x
    using grows_page(2) [OF g(1) a(7) that] a(8) [OF that] by simp
qed

text \<open>Writing into a page that is no table.\<close>

lemma store_page:
  assumes wf: "pt_wf s pgd" and p: "p \<in> held_pages s - tables (mem s) pgd" and m: "\<And>x. \<not> in_range p 4096 x \<Longrightarrow> m x = mem s x"
  defines "t \<equiv> s\<lparr>mem := m\<rparr>"
  shows "pt_wf t pgd" "walk (mem t) pgd va = walk (mem s) pgd va" "tables (mem t) pgd = tables (mem s) pgd"
    "held_pages t = held_pages s" "free_set t = free_set s" "no_block (mem t) pgd va = no_block (mem s) pgd va"
proof -
  have pp: "is_page p" using wf p held_is_page [of s p] by (simp add: pt_wf_def)
  have "\<forall>t' \<in> tables (mem s) pgd. is_page t'" using pt_wf_tables(2) [OF wf] by blast
  moreover have "\<forall>t' \<in> tables (mem s) pgd. \<forall>x. in_range t' 4096 x \<longrightarrow> m x = mem s x"
  proof (intro ballI allI impI)
    fix t' x
    assume t': "t' \<in> tables (mem s) pgd" "in_range t' 4096 x"
    then have "\<not> in_range p 4096 x" using pages_disjoint [OF pt_wf_tables(2) [OF wf t'(1)] pp _ t'(2)] p by blast
    then show "m x = mem s x" by (rule m)
  qed
  ultimately have c: "node_addr m pgd n = node_addr (mem s) pgd n" "walk m pgd va = walk (mem s) pgd va"
      "tables m pgd = tables (mem s) pgd" "no_block m pgd va = no_block (mem s) pgd va" for n va
    by (rule tree_cong)+
  show "held_pages t = held_pages s" "free_set t = free_set s" by (simp_all add: t_def owned_pages_def free_set_def)
  show "walk (mem t) pgd va = walk (mem s) pgd va" "tables (mem t) pgd = tables (mem s) pgd"
    "no_block (mem t) pgd va = no_block (mem s) pgd va" by (simp_all add: t_def c)
  show "pt_wf t pgd" using wf by (intro pt_wf_cong [OF wf]) (simp_all add: t_def c pt_wf_def owned_pages_def)
qed

section \<open>The pages of a segment\<close>

lemma load_page_step:
  assumes wf: "pt_wf s pgd" and nb: "no_block (mem s) pgd (seg_page phdr j)" and free: "3 \<le> card (free_set s)"
    and ok: "seg_ok br phdr" and j: "j < seg_pages phdr" and buf: "\<forall>i < unat br. safe s pgd (buf + of_nat i)"
  defines "page \<equiv> snd (alloc_page s)" and "u \<equiv> mapped_page pgd (seg_page phdr j) s"
  defines "t \<equiv> u\<lparr>mem := copy_page buf br phdr (seg_page phdr j) page (mem u)\<rparr>"
  shows "pt_wf t pgd" "pt_grows pgd s t" "card (free_set s) \<le> card (free_set t) + 3"
    "resident t pgd (seg_page phdr j) (\<lambda>k. segment_byte (mem s) buf phdr (seg_page phdr j + of_nat k))"
    "drop_bit 12 a \<noteq> drop_bit 12 (seg_page phdr j) \<Longrightarrow> walk (mem t) pgd a = walk (mem s) pgd a"
proof -
  have "unat (seg_page phdr j) < 2 ^ 39"
    using seg_page_facts(1, 2) [OF ok, of "Suc j"] seg_page_facts(1) [OF ok, of j] j by simp
  then have va: "seg_page phdr j < 0x8000000000" by (simp add: word_less_nat_alt)
  note p = mapped_page_facts [OF wf nb free va, folded page_def u_def]
  have frame: "\<not> in_range page 4096 x \<Longrightarrow> copy_page buf br phdr (seg_page phdr j) page (mem u) x = mem u x" for x
    by (rule copy_page_frame)
  note st = store_page [OF p(4, 7) frame, folded t_def]
  have other: "\<not> in_range page 4096 x" if q: "q \<in> held_pages s" "in_range q 4096 x" for q x
    using pages_disjoint [OF held_is_page p(2) _ q(2)] wf q(1) p(3) by (auto simp: pt_wf_def)
  show "pt_wf t pgd" by (rule st(1))
  have "mem t x = mem s x" if "q \<in> held_pages s - tables (mem s) pgd" "in_range q 4096 x" for q x
    using frame [OF other [OF _ that(2)]] grows_page(2) [OF p(5) that] that(1) by (simp add: t_def)
  then show "pt_grows pgd s t" using p(5) st(3, 4, 6) unfolding pt_grows_def by simp
  show "card (free_set s) \<le> card (free_set t) + 3" using p(6) st(5) by simp
  show "walk (mem t) pgd a = walk (mem s) pgd a" if "drop_bit 12 a \<noteq> drop_bit 12 (seg_page phdr j)"
    using p(8) st(2) that by simp
  have apart: "\<not> in_range page 4096 (buf + of_nat i)" "mem u (buf + of_nat i) = mem s (buf + of_nat i)" if "i < unat br" for i
    using buf that other safe_grows(2) [OF p(5)] unfolding safe_def by blast+
  have "mem t (page + of_nat k) = segment_byte (mem s) buf phdr (seg_page phdr j + of_nat k)" if k: "k < 4096" for k
  proof -
    have "mem t (page + of_nat k) = segment_byte (mem u) buf phdr (seg_page phdr j + of_nat k)"
      unfolding t_def using copy_page_contents [OF ok j k p(9) apart(1)] by simp
    also have "\<dots> = segment_byte (mem s) buf phdr (seg_page phdr j + of_nat k)"
      by (rule segment_byte_cong [OF ok]) (use apart(2) in blast)
    finally show ?thesis .
  qed
  then show "resident t pgd (seg_page phdr j) (\<lambda>k. segment_byte (mem s) buf phdr (seg_page phdr j + of_nat k))"
    unfolding resident_def using p(7, 8) st by (intro bexI [of _ page]) auto
qed

lemma seg_page_number:
  assumes ok: "seg_ok br phdr" and j: "j \<le> seg_pages phdr"
  shows "unat (drop_bit 12 (seg_page phdr j)) = unat (p_vaddr phdr) div 4096 + j"
  using seg_page_facts(1) [OF assms] by (simp add: unat_drop_div)

lemma seg_page_inj:
  assumes "seg_ok br phdr" "i \<le> seg_pages phdr" "j \<le> seg_pages phdr"
  shows "drop_bit 12 (seg_page phdr i) = drop_bit 12 (seg_page phdr j) \<longleftrightarrow> i = j"
  using seg_page_number [OF assms(1, 2)] seg_page_number [OF assms(1, 3)] by (auto simp: word_unat_eq_iff)

lemma shifted_read:
  assumes "\<forall>k < n. m' (a + of_nat k) = m (a + of_nat k)" "d + l \<le> n" "l \<le> 2 ^ 64"
  shows "read_bytes m' (a + of_nat d) l = read_bytes m (a + of_nat d) l"
proof (rule read_bytes_cong [OF _ assms(3)])
  fix x
  assume "in_range (a + of_nat d) l x"
  then obtain i where "i < l" "x = a + of_nat d + of_nat i" by (auto simp: in_range_offset)
  then have "x = a + of_nat (d + i)" "d + i < n" using assms(2) by (simp_all add: add.assoc)
  then show "m' x = m x" using assms(1) by blast
qed

lemma phdr_at_cong:
  assumes "\<forall>k < 56. m' (ph + of_nat k) = m (ph + of_nat k)"
  shows "phdr_at m' ph = phdr_at m ph"
  using shifted_read [OF assms, of 0 4] shifted_read [OF assms, of 4 4] shifted_read [OF assms, of 8 8]
    shifted_read [OF assms, of 16 8] shifted_read [OF assms, of 24 8] shifted_read [OF assms, of 32 8]
    shifted_read [OF assms, of 40 8] shifted_read [OF assms, of 48 8]
  by (simp add: phdr_at_def load32_def load64_def)

text \<open>
  What loading the pages \<open>J\<close> of a segment achieves: the bytes are resident, every other
  page translates as before, and three pages at most were used for each.
\<close>

definition pages_loaded ::
  "u64 \<Rightarrow> u64 \<Rightarrow> Elf64_Phdr \<Rightarrow> nat set \<Rightarrow> 'a mm_scheme \<Rightarrow> 'a mm_scheme \<Rightarrow> bool" where
  "pages_loaded pgd buf phdr J s t \<longleftrightarrow>
     pt_wf t pgd \<and> pt_grows pgd s t \<and> card (free_set s) \<le> card (free_set t) + 3 * card J \<and>
     (\<forall>j \<in> J. resident t pgd (seg_page phdr j) (\<lambda>k. segment_byte (mem s) buf phdr (seg_page phdr j + of_nat k))) \<and>
     (\<forall>a. (\<forall>j \<in> J. drop_bit 12 a \<noteq> drop_bit 12 (seg_page phdr j)) \<longrightarrow> walk (mem t) pgd a = walk (mem s) pgd a)"

lemma load_pages_correct:
  assumes "pt_wf s pgd" "seg_ok br phdr" "j \<le> seg_pages phdr"
    and "\<forall>i \<in> {j..<seg_pages phdr}. no_block (mem s) pgd (seg_page phdr i)"
    and "3 * (seg_pages phdr - j) \<le> card (free_set s)"
    and "\<forall>i < unat br. safe s pgd (buf + of_nat i)"
    and "phdr_at (mem s) ph = phdr" "\<forall>i < 56. safe s pgd (ph + of_nat i)"
  shows "\<exists>t. load_pages buf br pgd ph (seg_page phdr j) (seg_page phdr (seg_pages phdr)) s = Some (t, True) \<and>
    pages_loaded pgd buf phdr {j..<seg_pages phdr} s t"
  using assms
proof (induction "seg_pages phdr - j" arbitrary: j s)
  case 0
  then have "j = seg_pages phdr" by simp
  then show ?case using 0 by (subst load_pages.simps) (simp add: pages_loaded_def)
next
  case (Suc d)
  note wf = Suc.prems(1) and ok = Suc.prems(2)
  have j: "j < seg_pages phdr" using Suc.hyps(2) by simp
  define page where "page = snd (alloc_page s)"
  define u where "u = mapped_page pgd (seg_page phdr j) s"
  define t where "t = u\<lparr>mem := copy_page buf br phdr (seg_page phdr j) page (mem u)\<rparr>"
  have nb: "no_block (mem s) pgd (seg_page phdr j)" using Suc.prems(4) j by simp
  have free: "3 \<le> card (free_set s)" using Suc.prems(5) j by simp
  note st = load_page_step [OF wf nb free ok j Suc.prems(6), folded page_def u_def, folded t_def]
  have "unat (seg_page phdr j) < 2 ^ 39"
    using seg_page_facts(1, 2) [OF ok, of "Suc j"] seg_page_facts(1) [OF ok, of j] j by simp
  then have va: "seg_page phdr j < 0x8000000000" by (simp add: word_less_nat_alt)
  note p = mapped_page_facts [OF wf nb free va, folded page_def u_def]
  have phdr: "phdr_at (mem u) ph = phdr" "phdr_at (mem t) ph = phdr"
    using phdr_at_cong [of "mem u" ph "mem s"] phdr_at_cong [of "mem t" ph "mem s"] Suc.prems(7, 8)
      safe_grows(2) [OF p(5)] safe_grows(2) [OF st(2)] by simp_all
  have lt: "seg_page phdr j < seg_page phdr (seg_pages phdr)"
    using seg_page_facts(1) [OF ok, of j] seg_page_facts(1) [OF ok order_refl] j by (simp add: word_less_nat_alt)
  have nxt: "seg_page phdr j + PAGE_SIZE = seg_page phdr (Suc j)" by (simp add: seg_page_def PAGE_SIZE_def)
  have step: "load_pages buf br pgd ph (seg_page phdr j) (seg_page phdr (seg_pages phdr)) s =
      load_pages buf br pgd ph (seg_page phdr (Suc j)) (seg_page phdr (seg_pages phdr)) t"
    using lt p(1) phdr(1)
    by (subst load_pages.simps) (simp add: split_beta Let_def nxt t_def u_def mapped_page_def page_def)
  have IH: "\<exists>t'. load_pages buf br pgd ph (seg_page phdr (Suc j)) (seg_page phdr (seg_pages phdr)) t = Some (t', True) \<and>
      pages_loaded pgd buf phdr {Suc j..<seg_pages phdr} t t'"
  proof (rule Suc.hyps(1))
    show "d = seg_pages phdr - Suc j" using Suc.hyps(2) by simp
    show "pt_wf t pgd" by (rule st(1))
    show "\<forall>i \<in> {Suc j..<seg_pages phdr}. no_block (mem t) pgd (seg_page phdr i)"
      using Suc.prems(4) st(2) unfolding pt_grows_def by simp
    show "3 * (seg_pages phdr - Suc j) \<le> card (free_set t)" using Suc.prems(5) st(3) j by simp
    show "\<forall>i < unat br. safe t pgd (buf + of_nat i)" "\<forall>i < 56. safe t pgd (ph + of_nat i)"
      using Suc.prems(6, 8) safe_grows(1) [OF st(2)] by blast+
  qed (use ok j phdr in simp_all)
  then obtain t' where t': "load_pages buf br pgd ph (seg_page phdr (Suc j)) (seg_page phdr (seg_pages phdr)) t = Some (t', True)"
      "pages_loaded pgd buf phdr {Suc j..<seg_pages phdr} t t'" by blast
  have J: "{j..<seg_pages phdr} = insert j {Suc j..<seg_pages phdr}" using j by auto
  note l = t'(2) [unfolded pages_loaded_def]
  have "segment_byte (mem t) buf phdr a = segment_byte (mem s) buf phdr a" for a
    by (rule segment_byte_cong [OF ok]) (use Suc.prems(6) safe_grows(2) [OF st(2)] in blast)
  moreover have "resident t' pgd (seg_page phdr j) (\<lambda>k. segment_byte (mem s) buf phdr (seg_page phdr j + of_nat k))"
  proof (rule resident_grows [OF _ st(4)])
    show "pt_grows pgd t t'" using l by blast
    fix va
    assume "drop_bit 12 va = drop_bit 12 (seg_page phdr j)"
    then show "walk (mem t') pgd va = walk (mem t) pgd va"
      using l seg_page_inj [OF ok, of j] j by auto
  qed
  moreover have "pt_grows pgd s t'" using l st(2) pt_grows_trans by blast
  moreover have "card {j..<seg_pages phdr} = Suc (card {Suc j..<seg_pages phdr})" using j by simp
  ultimately have "pages_loaded pgd buf phdr {j..<seg_pages phdr} s t'"
    using l st(3, 5) unfolding pages_loaded_def J by simp
  then show ?case using step t'(1) by simp
qed

section \<open>All segments\<close>

definition phdrs :: "ram \<Rightarrow> u64 \<Rightarrow> Elf64_Phdr list" where
  "phdrs m buf = map (\<lambda>i. phdr_at m (phdr_addr m buf (of_nat i))) [0..<unat (e_phnum (ehdr_at m buf))]"

definition pages_of :: "Elf64_Phdr \<Rightarrow> u64 list" where
  "pages_of ph = (if p_type ph = PT_LOAD then map (\<lambda>j. drop_bit 12 (seg_page ph j)) [0..<seg_pages ph] else [])"

definition page_list :: "Elf64_Phdr list \<Rightarrow> u64 list" where
  "page_list ps = concat (map pages_of ps)"

text \<open>The bytes of the headers lie in pages that loading does not touch.\<close>

definition image_safe :: "'a mm_scheme \<Rightarrow> u64 \<Rightarrow> u64 \<Rightarrow> u32 \<Rightarrow> bool" where
  "image_safe s pgd buf br \<longleftrightarrow>
     64 \<le> unat br \<and> (\<forall>i < unat br. safe s pgd (buf + of_nat i)) \<and>
     (\<forall>i < unat (e_phnum (ehdr_at (mem s) buf)). \<forall>k < 56. safe s pgd (phdr_addr (mem s) buf (of_nat i) + of_nat k))"

definition segments_ok :: "'a mm_scheme \<Rightarrow> u64 \<Rightarrow> u32 \<Rightarrow> Elf64_Phdr list \<Rightarrow> bool" where
  "segments_ok s pgd br ps \<longleftrightarrow>
     (\<forall>ph \<in> set ps. p_type ph = PT_LOAD \<longrightarrow>
        seg_ok br ph \<and> (\<forall>j < seg_pages ph. no_block (mem s) pgd (seg_page ph j))) \<and>
     distinct (page_list ps) \<and> 3 * length (page_list ps) \<le> card (free_set s)"

definition segments_loaded :: "u64 \<Rightarrow> u64 \<Rightarrow> Elf64_Phdr list \<Rightarrow> 'a mm_scheme \<Rightarrow> 'a mm_scheme \<Rightarrow> bool" where
  "segments_loaded pgd buf ps s t \<longleftrightarrow>
     pt_wf t pgd \<and> pt_grows pgd s t \<and>
     (\<forall>ph \<in> set ps. p_type ph = PT_LOAD \<longrightarrow> (\<forall>j < seg_pages ph.
        resident t pgd (seg_page ph j) (\<lambda>k. segment_byte (mem s) buf ph (seg_page ph j + of_nat k)))) \<and>
     (\<forall>a. drop_bit 12 a \<notin> set (page_list ps) \<longrightarrow> walk (mem t) pgd a = walk (mem s) pgd a)"

lemma ehdr_at_cong:
  assumes "\<forall>k < 64. m' (a + of_nat k) = m (a + of_nat k)"
  shows "ehdr_at m' a = ehdr_at m a"
  using shifted_read [OF assms, of 0 16] shifted_read [OF assms, of 16 2] shifted_read [OF assms, of 18 2]
    shifted_read [OF assms, of 24 8] shifted_read [OF assms, of 32 8] shifted_read [OF assms, of 54 2]
    shifted_read [OF assms, of 56 2]
  by (simp add: ehdr_at_def load16_def load64_def)

lemma image_kept:
  assumes safe: "image_safe s pgd buf br" and g: "pt_grows pgd s t"
  shows "ehdr_at (mem t) buf = ehdr_at (mem s) buf" "phdrs (mem t) buf = phdrs (mem s) buf" "image_safe t pgd buf br"
proof -
  have "\<forall>k < 64. mem t (buf + of_nat k) = mem s (buf + of_nat k)"
    using safe safe_grows(2) [OF g] by (simp add: image_safe_def)
  then show e: "ehdr_at (mem t) buf = ehdr_at (mem s) buf" by (rule ehdr_at_cong)
  have a: "phdr_addr (mem t) buf i = phdr_addr (mem s) buf i" for i by (simp add: phdr_addr_def e)
  show "phdrs (mem t) buf = phdrs (mem s) buf"
    using safe safe_grows(2) [OF g] unfolding phdrs_def e a image_safe_def by (auto intro!: phdr_at_cong)
  show "image_safe t pgd buf br"
    using safe safe_grows(1) [OF g] by (simp add: image_safe_def e a)
qed

lemma load_segment_correct:
  assumes wf: "pt_wf s pgd" and buf: "\<forall>i < unat br. safe s pgd (buf + of_nat i)"
    and ph: "\<forall>k < 56. safe s pgd (ph + of_nat k)" and ok: "segments_ok s pgd br (phdr_at (mem s) ph # ps)"
  shows "\<exists>t. load_segment buf br pgd ph s = Some (t, True) \<and> segments_loaded pgd buf [phdr_at (mem s) ph] s t \<and>
    segments_ok t pgd br ps"
proof (cases "p_type (phdr_at (mem s) ph) = PT_LOAD")
  case False
  then show ?thesis
    using wf ok by (simp add: load_segment_def segments_loaded_def segments_ok_def page_list_def pages_of_def)
next
  case True
  let ?p = "phdr_at (mem s) ph"
  have p: "seg_ok br ?p" "\<forall>j < seg_pages ?p. no_block (mem s) pgd (seg_page ?p j)"
    using ok True by (simp_all add: segments_ok_def)
  have room: "3 * seg_pages ?p + 3 * length (page_list ps) \<le> card (free_set s)"
    using ok True by (simp add: segments_ok_def page_list_def pages_of_def)
  obtain t where t: "load_pages buf br pgd ph (seg_page ?p 0) (seg_page ?p (seg_pages ?p)) s = Some (t, True)"
      "pages_loaded pgd buf ?p {0..<seg_pages ?p} s t"
    using load_pages_correct [OF wf p(1) le0 _ _ buf refl ph] p(2) room by auto
  note l = t(2) [unfolded pages_loaded_def]
  have "load_segment buf br pgd ph s = Some (t, True)"
    using True t(1) by (simp add: load_segment_def segment_ends [OF p(1)])
  moreover have "segments_loaded pgd buf [?p] s t"
    using l True by (auto simp: segments_loaded_def page_list_def pages_of_def)
  moreover have "segments_ok t pgd br ps"
    using ok l room by (auto simp: segments_ok_def page_list_def pt_grows_def)
  ultimately show ?thesis by blast
qed

lemma segments_loaded_Cons:
  assumes first: "segments_loaded pgd buf [ph] s t" and rest: "segments_loaded pgd buf ps t u"
    and dis: "distinct (page_list (ph # ps))"
    and buf: "\<forall>i < unat br. safe s pgd (buf + of_nat i)" and ok: "\<forall>p \<in> set ps. p_type p = PT_LOAD \<longrightarrow> seg_ok br p"
  shows "segments_loaded pgd buf (ph # ps) s u"
proof -
  note f = first [unfolded segments_loaded_def] and r = rest [unfolded segments_loaded_def]
  have g: "pt_grows pgd s t" "pt_grows pgd t u" using f r by blast+
  have pl: "page_list (ph # ps) = pages_of ph @ page_list ps" "page_list [ph] = pages_of ph" by (simp_all add: page_list_def)
  have bytes: "segment_byte (mem t) buf p a = segment_byte (mem s) buf p a" if "p \<in> set ps" "p_type p = PT_LOAD" for p a
    using that ok buf safe_grows(2) [OF g(1)] by (intro segment_byte_cong [of br]) auto
  have "resident u pgd (seg_page ph j) (\<lambda>k. segment_byte (mem s) buf ph (seg_page ph j + of_nat k))"
    if "p_type ph = PT_LOAD" "j < seg_pages ph" for j
  proof (rule resident_grows [OF g(2)])
    show "resident t pgd (seg_page ph j) (\<lambda>k. segment_byte (mem s) buf ph (seg_page ph j + of_nat k))"
      using f that by simp
    fix va
    assume va: "drop_bit 12 va = drop_bit 12 (seg_page ph j)"
    have "drop_bit 12 (seg_page ph j) \<in> set (pages_of ph)" using that by (simp add: pages_of_def)
    then have "drop_bit 12 va \<notin> set (page_list ps)" using va dis pl by auto
    then show "walk (mem u) pgd va = walk (mem t) pgd va" using r by blast
  qed
  moreover have "walk (mem u) pgd a = walk (mem s) pgd a" if "drop_bit 12 a \<notin> set (page_list (ph # ps))" for a
    using f r that unfolding pl by simp
  moreover have "resident u pgd (seg_page p j) (\<lambda>k. segment_byte (mem s) buf p (seg_page p j + of_nat k))"
    if "p \<in> set ps" "p_type p = PT_LOAD" "j < seg_pages p" for p j
    using r that bytes by simp
  ultimately show ?thesis
    using r pt_grows_trans [OF g] unfolding segments_loaded_def by simp
qed

lemma load_segments_correct:
  assumes "pt_wf s pgd" "image_safe s pgd buf br" "drop (unat i) (phdrs (mem s) buf) = ps"
    and "unat i \<le> length (phdrs (mem s) buf)" "segments_ok s pgd br ps"
  shows "\<exists>t. load_segments buf br pgd i s = Some (t, True) \<and> segments_loaded pgd buf ps s t"
  using assms
proof (induction ps arbitrary: i s)
  case Nil
  then have "\<not> i < e_phnum (ehdr_at (mem s) buf)" by (simp add: phdrs_def word_less_nat_alt)
  then show ?case using Nil by (subst load_segments.simps) (simp add: segments_loaded_def)
next
  case (Cons p ps)
  let ?n = "unat (e_phnum (ehdr_at (mem s) buf))" and ?ph = "phdr_addr (mem s) buf i"
  have len: "length (phdrs (mem s) buf) = ?n" by (simp add: phdrs_def)
  have i: "unat i < ?n" using Cons.prems(3) len by (metis drop_eq_Nil leI list.distinct(1))
  then have lt: "i < e_phnum (ehdr_at (mem s) buf)" by (simp add: word_less_nat_alt)
  have p: "p = phdr_at (mem s) ?ph" "drop (Suc (unat i)) (phdrs (mem s) buf) = ps"
    using Cons.prems(3) i len by (simp_all add: Cons_nth_drop_Suc [symmetric]) (simp add: phdrs_def)
  note safe = Cons.prems(2) [unfolded image_safe_def]
  have "\<forall>i < ?n. \<forall>k < 56. safe s pgd (phdr_addr (mem s) buf (of_nat i) + of_nat k)" using safe by blast
  from this [rule_format, OF i] have ph: "\<forall>k < 56. safe s pgd (?ph + of_nat k)" by simp
  obtain t where t: "load_segment buf br pgd ?ph s = Some (t, True)" "segments_loaded pgd buf [p] s t" "segments_ok t pgd br ps"
    using load_segment_correct [OF Cons.prems(1) _ ph, of br buf ps] safe Cons.prems(5) p(1) by auto
  have g: "pt_grows pgd s t" "pt_wf t pgd" using t(2) by (simp_all add: segments_loaded_def)
  note k = image_kept [OF Cons.prems(2) g(1)]
  have "unat i + 1 < 65536" using i unat_lt_u16 [of "e_phnum (ehdr_at (mem s) buf)"] by linarith
  then have u: "unat (i + 1) = Suc (unat i)" by (simp add: unat_word_ariths)
  obtain v where v: "load_segments buf br pgd (i + 1) t = Some (v, True)" "segments_loaded pgd buf ps t v"
    using Cons.IH [OF g(2) k(3) _ _ t(3), of "i + 1"] k(2) p(2) u i len by auto
  have "segments_loaded pgd buf (p # ps) s v"
    using Cons.prems(5) safe by (intro segments_loaded_Cons [OF t(2) v(2), of br]) (auto simp: segments_ok_def)
  moreover have "load_segments buf br pgd i s = Some (v, True)"
    using lt t(1) v(1) by (subst load_segments.simps) simp
  ultimately show ?case by blast
qed

text \<open>The resident bytes, seen from the program.\<close>

lemma page_or_offset: "is_page p \<Longrightarrow> p OR (a AND 0xFFF) = p + of_nat (unat a mod 4096)"
  "is_page p \<Longrightarrow> (p OR (a AND 0xFFF)) AND ADDR_MASK = p"
proof -
  assume p: "is_page p"
  then have m: "p AND ADDR_MASK = p" using page_addr_bits(1) by (auto simp: is_page_def)
  have lo: "\<not> bit p n" if "n < 12" for n
    using arg_cong [OF m, of "\<lambda>w. bit w n"] that by (auto simp: bit_and_iff bit_ADDR_MASK)
  have f: "a AND 0xFFF = take_bit 12 a" by (simp add: take_bit_eq_mask mask_eq_exp_minus_1)
  have "p + take_bit 12 a = p OR take_bit 12 a"
    using lo by (intro disjunctive_add) (auto simp: bit_take_bit_iff not_le)
  moreover have "take_bit 12 a = of_nat (unat a mod 4096)"
    by (simp add: word_unat_eq_iff unat_of_nat take_bit_eq_mod unat_mod)
  ultimately show "p OR (a AND 0xFFF) = p + of_nat (unat a mod 4096)" unfolding f by simp
  have "(take_bit 12 a) AND ADDR_MASK = 0"
    by (rule bit_word_eqI) (auto simp: bit_simps bit_ADDR_MASK)
  then show "(p OR (a AND 0xFFF)) AND ADDR_MASK = p" unfolding f using m by (simp add: bit.conj_disj_distrib2)
qed

lemma resident_byte:
  assumes wf: "pt_wf s pgd" and r: "resident s pgd v f" and a: "drop_bit 12 a = drop_bit 12 v"
  shows "\<exists>pa. walk (mem s) pgd a = Some (pa, (pa AND ADDR_MASK) OR PTE_USER_RWX) \<and> mem s pa = f (unat a mod 4096)"
proof -
  obtain p where p: "p \<in> held_pages s" "walk (mem s) pgd a = Some (p OR (a AND 0xFFF), p OR PTE_USER_RWX)"
      "\<forall>k < 4096. mem s (p + of_nat k) = f k"
    using r a unfolding resident_def by blast
  have "is_page p" using p(1) wf held_is_page [of s p] by (simp add: pt_wf_def)
  note o = page_or_offset [OF this, of a]
  have "mem s (p OR (a AND 0xFFF)) = f (unat a mod 4096)" using p(3) unfolding o(1) by simp
  then show ?thesis using p(2) o(2) by auto
qed

lemma seg_page_at:
  assumes ok: "seg_ok br ph" and a: "unat (p_vaddr ph) \<le> unat a" "unat a < unat (p_vaddr ph) + unat (p_memsz ph)"
  defines "j \<equiv> (unat a - unat (p_vaddr ph)) div 4096"
  shows "j < seg_pages ph" "drop_bit 12 a = drop_bit 12 (seg_page ph j)" "seg_page ph j + of_nat (unat a mod 4096) = a"
proof -
  let ?d = "unat a - unat (p_vaddr ph)"
  obtain q where q: "unat (p_vaddr ph) = 4096 * q" using ok by (auto simp: seg_ok_def dvd_def)
  have "4096 * j \<le> ?d" unfolding j_def by simp
  then have "4096 * j + 4096 \<le> unat (p_memsz ph) + 4095" using a by simp
  then show j: "j < seg_pages ph"
    unfolding seg_pages_def by (simp add: Suc_le_eq [symmetric] less_eq_div_iff_mult_less_eq)
  have u: "unat a = 4096 * q + ?d" using a(1) q by simp
  have n: "unat a div 4096 = q + j" "unat a mod 4096 = ?d mod 4096" unfolding j_def by (subst u, simp)+
  note p = seg_page_facts(1) [OF ok less_imp_le [OF j]]
  show "drop_bit 12 a = drop_bit 12 (seg_page ph j)"
    using n(1) p q by (simp add: word_unat_eq_iff unat_drop_div)
  have "unat (seg_page ph j) + unat a mod 4096 = unat a" using p q n(2) u unfolding j_def by (simp add: mult.commute)
  then have "of_nat (unat (seg_page ph j) + unat a mod 4096) = a" by simp
  then show "seg_page ph j + of_nat (unat a mod 4096) = a" by simp
qed

section \<open>A small program\<close>

text \<open>
  One segment of 8 bytes at 0x7000000000, the first four from the file; the file image is
  in a page of the kernel.
\<close>

definition elf_image :: "u64 \<Rightarrow> u8 list" where
  "elf_image vaddr = ELF_MAGIC @ [2, 1] @ replicate 10 0 @ le_bytes 2 (2 :: u16) @ le_bytes 2 (183 :: u16) @
     le_bytes 4 (1 :: u32) @ le_bytes 8 vaddr @ le_bytes 8 (64 :: u64) @ replicate 14 0 @
     le_bytes 2 (56 :: u16) @ le_bytes 2 (1 :: u16) @ replicate 6 0 @
     le_bytes 4 (1 :: u32) @ le_bytes 4 (7 :: u32) @ le_bytes 8 (120 :: u64) @ le_bytes 8 vaddr @ le_bytes 8 vaddr @
     le_bytes 8 (4 :: u64) @ le_bytes 8 (8 :: u64) @ le_bytes 8 (4096 :: u64) @ [1, 2, 3, 4]"

definition elf_machine :: "u64 \<Rightarrow> cpu" where
  "elf_machine vaddr = (let s = mmu_init 0x40001000 boot_cpu in s\<lparr>mem := write_bytes (mem s) 0x40002000 (elf_image vaddr)\<rparr>)"

lemma elf_image_length: "length (elf_image v) = 124"
  by (simp add: elf_image_def ELF_MAGIC_def)

lemma read_image:
  "d + l \<le> 124 \<Longrightarrow> read_bytes (mem (elf_machine v)) (0x40002000 + of_nat d) l = take l (drop d (elf_image v))"
  by (rule nth_equalityI)
    (simp_all add: elf_machine_def Let_def nth_read_bytes write_bytes_apply in_range_def elf_image_length add.assoc
      flip: of_nat_add)

definition sample_phdr :: "u64 \<Rightarrow> Elf64_Phdr" where
  "sample_phdr v = \<lparr>p_type = 1, p_flags = 7, p_offset = 120, p_vaddr = v, p_paddr = v, p_filesz = 4, p_memsz = 8, p_align = 4096\<rparr>"

lemma sample_header:
  "phdr_addr (mem (elf_machine v)) 0x40002000 0 = 0x40002040"
  "phdr_at (mem (elf_machine v)) 0x40002040 = sample_phdr v"
  "phdrs (mem (elf_machine v)) 0x40002000 = [sample_phdr v]"
proof -
  note r = read_image [of _ _ v]
  have b: "take 8 (drop 32 (elf_image v)) = le_bytes 8 (64 :: u64)" "take 2 (drop 56 (elf_image v)) = le_bytes 2 (1 :: u16)"
      "take 4 (drop 64 (elf_image v)) = le_bytes 4 (1 :: u32)" "take 4 (drop 68 (elf_image v)) = le_bytes 4 (7 :: u32)"
      "take 8 (drop 72 (elf_image v)) = le_bytes 8 (120 :: u64)" "take 8 (drop 80 (elf_image v)) = le_bytes 8 v"
      "take 8 (drop 88 (elf_image v)) = le_bytes 8 v" "take 8 (drop 96 (elf_image v)) = le_bytes 8 (4 :: u64)"
      "take 8 (drop 104 (elf_image v)) = le_bytes 8 (8 :: u64)" "take 8 (drop 112 (elf_image v)) = le_bytes 8 (4096 :: u64)"
    by (simp_all add: elf_image_def ELF_MAGIC_def)
  have off: "e_phoff (ehdr_at (mem (elf_machine v)) 0x40002000) = 64"
    using r [of 32 8] b by (simp add: ehdr_at_def load64_def of_le_le_bytes)
  have num: "e_phnum (ehdr_at (mem (elf_machine v)) 0x40002000) = 1"
    using r [of 56 2] b by (simp add: ehdr_at_def load16_def of_le_le_bytes)
  show a: "phdr_addr (mem (elf_machine v)) 0x40002000 0 = 0x40002040" by (simp add: phdr_addr_def off)
  show p: "phdr_at (mem (elf_machine v)) 0x40002040 = sample_phdr v"
    using r [of 64 4] r [of 68 4] r [of 72 8] r [of 80 8] r [of 88 8] r [of 96 8] r [of 104 8] r [of 112 8] b
    by (simp add: phdr_at_def sample_phdr_def load32_def load64_def of_le_le_bytes)
  show "phdrs (mem (elf_machine v)) 0x40002000 = [sample_phdr v]" by (simp add: phdrs_def num a p)
qed

lemma elf_machine_tree:
  "pt_wf (elf_machine v) 0x40001000" "free_set (elf_machine v) = {257..<65536}"
  "i < 4096 \<Longrightarrow> safe (elf_machine v) 0x40001000 (0x40002000 + of_nat i)"
  "0x80000000 \<le> va \<Longrightarrow> va < 0x8000000000 \<Longrightarrow> no_block (mem (elf_machine v)) 0x40001000 va"
proof -
  let ?s = "mmu_init 0x40001000 boot_cpu" and ?p = "0x40002000 :: u64"
  note b = boot_cpu_facts(1, 3) boot_cpu_free
  have p: "page_addr 2 = ?p" by (simp add: page_addr_def memory_base_def PAGE_SIZE_def)
  have tp: "unat (total_pages boot_cpu) = 65536"
    unfolding boot_cpu_def by (simp add: pages_init_spec memory_base_def PAGE_SIZE_def)
  have "2 \<notin> free_set boot_cpu" by (simp add: boot_cpu_facts(2))
  then have "2 \<in> owned_pages boot_cpu" using tp by (simp add: owned_pages_def free_set_def)
  then have "?p \<in> held_pages boot_cpu" using p by (metis image_eqI)
  moreover have "page_addr (Min (free_set boot_cpu)) \<noteq> ?p"
    using mmu_init_tables(6) [OF b] calculation by auto
  ultimately have held: "?p \<in> held_pages ?s - tables (mem ?s) 0x40001000"
    using mmu_init_tables(2) [OF b] mmu_init_nodes [OF b] by (auto simp: tables_def split: node.splits if_splits)
  have frame: "write_bytes (mem ?s) ?p (elf_image v) x = mem ?s x" if "\<not> in_range ?p 4096 x" for x
    using that by (auto simp: write_bytes_apply in_range_def elf_image_length)
  have e: "elf_machine v = ?s\<lparr>mem := write_bytes (mem ?s) ?p (elf_image v)\<rparr>" by (simp add: elf_machine_def Let_def)
  note st = store_page [OF boot_mmu_facts(1) held frame, folded e]
  show "pt_wf (elf_machine v) 0x40001000" "free_set (elf_machine v) = {257..<65536}"
    using st(1, 5) boot_mmu_facts(2) by simp_all
  show "safe (elf_machine v) 0x40001000 (?p + of_nat i)" if "i < 4096" for i
    unfolding safe_def using held in_page [OF that, of ?p] st(3, 4) by (intro bexI [of _ ?p]) simp_all
  assume va: "0x80000000 \<le> va" "va < 0x8000000000"
  have "unat (i1 va) = unat va div 2 ^ 30 mod 512" by (rule unat_idx)
  moreover have "2 \<le> unat va div 2 ^ 30" "unat va div 2 ^ 30 < 512"
    using va by (simp_all add: word_le_nat_alt word_less_nat_alt less_eq_div_iff_mult_less_eq div_less_iff_less_mult)
  ultimately have i: "i1 va \<noteq> 0" "i1 va \<noteq> 1" by (auto simp: word_unat_eq_iff)
  then have "entry (mem ?s) 0x40001000 (i1 va) = 0" using mmu_init_tables(8) [OF b idx_lt, of "drop_bit 30 va"] by simp
  then have "no_block (mem ?s) 0x40001000 va" by (simp add: no_block_def invalid_def next_table_def table_ptr_def)
  then show "no_block (mem (elf_machine v)) 0x40001000 va" using st(6) by simp
qed

section \<open>The properties\<close>

text \<open>
  C8: \<open>load_segments\<close>, the loop of the loader over the program headers, puts every byte of a
  well-placed program in place.  The conditions: the page table is well formed, the image lies
  in memory that is neither free nor a table, the segments start on page boundaries and share
  no pages, no block descriptor lies on the way to any of their pages, and there are three
  free pages for each of these.  Then the loop ends with success; afterwards the hardware walk
  translates every address of every loaded segment, with user access, to a byte that is the
  file's byte or, behind the file part, zero, and all other addresses translate as before.
  The conditions leave out programs linked below the first gigabyte, at 0x400000 for example,
  where the process tables have a device block under which nothing gets mapped, and segments
  that start inside a page.
\<close>

theorem elf_program_loaded:
  assumes wf: "pt_wf s pgd" and img: "image_safe s pgd buf bytes_read"
    and ok: "segments_ok s pgd bytes_read (phdrs (mem s) buf)"
  shows "\<exists>t. load_segments buf bytes_read pgd 0 s = Some (t, True) \<and> pt_wf t pgd \<and>
    (\<forall>ph \<in> set (phdrs (mem s) buf). p_type ph = PT_LOAD \<longrightarrow>
      (\<forall>a. unat (p_vaddr ph) \<le> unat a \<and> unat a < unat (p_vaddr ph) + unat (p_memsz ph) \<longrightarrow>
        (\<exists>pa. walk (mem t) pgd a = Some (pa, (pa AND ADDR_MASK) OR PTE_USER_RWX) \<and>
          mem t pa = segment_byte (mem s) buf ph a))) \<and>
    (\<forall>a. drop_bit 12 a \<notin> set (page_list (phdrs (mem s) buf)) \<longrightarrow> walk (mem t) pgd a = walk (mem s) pgd a)"
proof -
  obtain t where t: "load_segments buf bytes_read pgd 0 s = Some (t, True)" "segments_loaded pgd buf (phdrs (mem s) buf) s t"
    using load_segments_correct [OF wf img _ _ ok, of 0] by auto
  note l = t(2) [unfolded segments_loaded_def]
  have "\<exists>pa. walk (mem t) pgd a = Some (pa, (pa AND ADDR_MASK) OR PTE_USER_RWX) \<and> mem t pa = segment_byte (mem s) buf ph a"
    if ph: "ph \<in> set (phdrs (mem s) buf)" "p_type ph = PT_LOAD"
      and a: "unat (p_vaddr ph) \<le> unat a" "unat a < unat (p_vaddr ph) + unat (p_memsz ph)" for ph a
  proof -
    have so: "seg_ok bytes_read ph" using ok ph by (simp add: segments_ok_def)
    note j = seg_page_at [OF so a]
    have "pt_wf t pgd" using l by blast
    from resident_byte [OF this _ j(2)] l ph j(1) show ?thesis by (metis (no_types, lifting) j(3))
  qed
  then show ?thesis using t(1) l by blast
qed

theorem elf_program_loaded_witness:
  "\<exists>t pa. load_segments 0x40002000 124 0x40001000 0 (elf_machine 0x7000000000) = Some (t, True) \<and>
    walk (mem t) 0x40001000 0x7000000002 = Some (pa, (pa AND ADDR_MASK) OR PTE_USER_RWX) \<and> mem t pa = 3"
proof -
  let ?s = "elf_machine 0x7000000000" and ?p = "sample_phdr 0x7000000000"
  note m = elf_machine_tree [where v = "0x7000000000"] and h = sample_header [of "0x7000000000"]
  have num: "unat (e_phnum (ehdr_at (mem ?s) 0x40002000)) = 1"
    using arg_cong [OF h(3), of length] by (simp add: phdrs_def)
  have ph: "safe ?s 0x40001000 (0x40002040 + of_nat k)" if "k < 56" for k
    using m(3) [of "64 + k"] that by (simp add: add.assoc)
  have img: "image_safe ?s 0x40001000 0x40002000 124"
    unfolding image_safe_def num using m(3) ph h(1) by auto
  have sp: "seg_pages ?p = 1" "seg_page ?p 0 = 0x7000000000" "p_type ?p = PT_LOAD"
    by (simp_all add: seg_pages_def seg_page_def sample_phdr_def PT_LOAD_def)
  have "seg_ok 124 ?p" by (simp add: seg_ok_def sample_phdr_def)
  then have ok: "segments_ok ?s 0x40001000 124 (phdrs (mem ?s) 0x40002000)"
    unfolding h(3) segments_ok_def using m(2) m(4) [of "0x7000000000"]
    by (simp add: sp page_list_def pages_of_def)
  have "\<exists>pa. walk (mem t) 0x40001000 0x7000000002 = Some (pa, (pa AND ADDR_MASK) OR PTE_USER_RWX) \<and>
      mem t pa = segment_byte (mem ?s) 0x40002000 ?p 0x7000000002"
    if "\<forall>a. unat (p_vaddr ?p) \<le> unat a \<and> unat a < unat (p_vaddr ?p) + unat (p_memsz ?p) \<longrightarrow>
        (\<exists>pa. walk (mem t) 0x40001000 a = Some (pa, (pa AND ADDR_MASK) OR PTE_USER_RWX) \<and>
          mem t pa = segment_byte (mem ?s) 0x40002000 ?p a)" for t :: cpu
    using that [rule_format, of "0x7000000002"] by (simp add: sample_phdr_def)
  moreover have "read_bytes (mem ?s) (0x40002000 + of_nat 122) 1 = [3]"
    by (subst read_image) (simp_all add: elf_image_def ELF_MAGIC_def)
  then have "segment_byte (mem ?s) 0x40002000 ?p 0x7000000002 = 3"
    by (simp add: segment_byte_def sample_phdr_def)
  ultimately show ?thesis
    using elf_program_loaded [OF m(1) img ok] h(3) sp(3) by auto
qed

lemma one_page:
  assumes "0 < n" "v mod 4096 + n \<le> 4096"
  shows "(v + n + 4095) div 4096 = v div 4096 + (1 :: nat)"
proof -
  obtain q r where v: "v = 4096 * q + r" "r < 4096" by (metis mod_mult_div_eq mod_less_divisor zero_less_numeral add.commute)
  then have "r + n \<le> 4096" using assms(2) by simp
  then have "(4096 * q + r + n + 4095) div 4096 = q + 1"
    using assms(1) by (intro div_nat_eqI) simp_all
  then show ?thesis using v by simp
qed

text \<open>
  C36: a segment that does not start on a page boundary loses its first page.  The offset of
  the page below its start wraps around to a huge number, so nothing is copied: a segment
  inside one page is mapped, reported as loaded, and reads as zeros whatever the file holds.
\<close>

theorem elf_unaligned_segment_zero:
  assumes wf: "pt_wf s pgd" and free: "3 \<le> card (free_set s)" and ph: "phdr_at (mem s) ph = phdr" "p_type phdr = PT_LOAD"
    and safe: "\<forall>k < 56. safe s pgd (ph + of_nat k)"
    and unaligned: "\<not> 4096 dvd unat (p_vaddr phdr)" "0 < p_memsz phdr"
      "unat (p_vaddr phdr) mod 4096 + unat (p_memsz phdr) \<le> 4096" "unat (p_filesz phdr) \<le> 2 ^ 63"
    and va: "p_vaddr phdr < 0x8000000000" "no_block (mem s) pgd (page_down (p_vaddr phdr))"
  shows "\<exists>t. load_segment buf bytes_read pgd ph s = Some (t, True) \<and> resident t pgd (page_down (p_vaddr phdr)) (\<lambda>_. 0)"
proof -
  let ?v = "unat (p_vaddr phdr)" and ?va = "page_down (p_vaddr phdr)"
  define u where "u = mapped_page pgd ?va s"
  have v: "unat ?va = ?v div 4096 * 4096" by (rule unat_page_down)
  have lim: "?v < 549755813888" using va(1) by (simp add: word_less_nat_alt)
  have le: "?v div 4096 * 4096 \<le> ?v" "?v = ?v div 4096 * 4096 + ?v mod 4096" by simp_all
  have small: "?va < 0x8000000000" using v le lim by (simp add: word_less_nat_alt)
  note p = mapped_page_facts [OF wf va(2) free small, folded u_def]
  have "?v mod 4096 \<noteq> 0" using unaligned(1) by (simp add: dvd_eq_mod_eq_0)
  then have "unat ?va < ?v" using v le(2) by linarith
  then have "?va < p_vaddr phdr" by (simp add: word_less_nat_alt)
  then have "unat (?va - p_vaddr phdr) = unat ?va + 18446744073709551616 - ?v"
    by (simp add: unat_sub_if' word_less_nat_alt)
  also have "\<dots> = 18446744073709551616 - ?v mod 4096" using v le(2) by linarith
  finally have "unat (?va - p_vaddr phdr) = 18446744073709551616 - ?v mod 4096" .
  moreover have "?v mod 4096 < 4096" by simp
  ultimately have "\<not> ?va - p_vaddr phdr < p_filesz phdr" using unaligned(4) by (simp add: word_less_nat_alt)
  then have copy: "copy_page buf bytes_read phdr ?va page m = m" for page m by (simp add: copy_page_def)
  have "unat (p_memsz phdr) \<le> 4096" using unaligned(3) by simp
  then have "unat (p_vaddr phdr + p_memsz phdr) = ?v + unat (p_memsz phdr)"
    using lim by (subst unat_add_small) simp_all
  then have "unat (p_vaddr phdr + p_memsz phdr + 4095) = ?v + unat (p_memsz phdr) + 4095"
    using lim unaligned(3) by (subst unat_add_small) simp_all
  moreover have "(?v + unat (p_memsz phdr) + 4095) div 4096 = ?v div 4096 + 1"
    by (rule one_page) (use unaligned(2, 3) in \<open>simp_all add: word_less_nat_alt\<close>)
  ultimately have "unat (page_down (p_vaddr phdr + p_memsz phdr + 4095)) = unat ?va + 4096"
    by (simp add: unat_page_down)
  moreover have "unat (?va + 4096) = unat ?va + 4096" using v le lim by (subst unat_add_small) simp_all
  ultimately have vend: "page_down (p_vaddr phdr + p_memsz phdr + PAGE_SIZE - 1) = ?va + PAGE_SIZE"
    by (simp add: word_unat_eq_iff PAGE_SIZE_def add.commute)
  have "?va < ?va + PAGE_SIZE" using v le lim by (simp add: word_less_nat_alt PAGE_SIZE_def unat_add_small)
  moreover have "phdr_at (mem u) ph = phdr"
    using phdr_at_cong [of "mem u" ph "mem s"] ph(1) safe safe_grows(2) [OF p(5)] by simp
  ultimately have "load_pages buf bytes_read pgd ph ?va (?va + PAGE_SIZE) s =
      load_pages buf bytes_read pgd ph (?va + PAGE_SIZE) (?va + PAGE_SIZE) u"
    using p(1) copy by (subst load_pages.simps) (simp add: split_beta Let_def u_def mapped_page_def)
  then have "load_segment buf bytes_read pgd ph s = Some (u, True)"
    using ph by (simp add: load_segment_def vend load_pages.simps [of _ _ _ _ "?va + PAGE_SIZE"])
  moreover have "resident u pgd ?va (\<lambda>_. 0)"
    unfolding resident_def using p(7, 8, 9) in_page by (intro bexI [of _ "snd (alloc_page s)"]) auto
  ultimately show ?thesis by blast
qed

theorem elf_unaligned_segment_zero_witness:
  "\<exists>t. load_segment 0x40002000 124 0x40001000 0x40002040 (elf_machine 0x7000000100) = Some (t, True) \<and>
    resident t 0x40001000 0x7000000000 (\<lambda>_. 0)"
proof -
  note m = elf_machine_tree [where v = "0x7000000100"] and h = sample_header [of "0x7000000100"]
  have pd: "page_down 0x7000000100 = 0x7000000000" by (simp add: word_unat_eq_iff unat_page_down)
  have "safe (elf_machine 0x7000000100) 0x40001000 (0x40002040 + of_nat k)" if "k < 56" for k
    using m(3) [of "64 + k"] that by (simp add: add.assoc)
  then show ?thesis
    using elf_unaligned_segment_zero [OF m(1) _ h(2), of "0x40002000" 124] m(2) m(4) [of "0x7000000000"] pd
    by (simp add: sample_phdr_def PT_LOAD_def)
qed

end
