(* ===== verification/User_Mode.thy ===== *)
theory User_Mode
  imports Vectors
begin

text \<open>
  The way into user code and back, src/src/process/enter_user.S.  The state is that of the
  exception vectors with the two further registers the code writes.  The addresses of the
  two saved words and of the label \<open>kernel_return_from_user\<close> are parameters; \<open>tlbi\<close>, \<open>dsb\<close>
  and \<open>isb\<close> have no effect on this state.
\<close>

record uregs =
  core :: vstate
  ttbr0 :: u64
  sp_el0 :: u64

text \<open>\<open>stp a, b, [sp, #-16]!\<close> and \<open>ldp a, b, [sp], #16\<close>\<close>

definition push_pair :: "nat \<times> nat \<Rightarrow> vstate \<Rightarrow> vstate" where
  "push_pair ab s = (let s = s\<lparr>vsp := vsp s - 16\<rparr> in stp (gpr s (fst ab)) (gpr s (snd ab)) 0 s)"

definition pop_pair :: "nat \<times> nat \<Rightarrow> vstate \<Rightarrow> vstate" where
  "pop_pair ab s = (let s = ldp (fst ab) (snd ab) 0 s in s\<lparr>vsp := vsp s + 16\<rparr>)"

definition callee_saved :: "(nat \<times> nat) list" where
  "callee_saved = [(19, 20), (21, 22), (23, 24), (25, 26), (27, 28), (29, 30)]"

text \<open>\<open>adr x4, p; str x3, [x4]\<close>\<close>

definition save_word :: "u64 \<Rightarrow> vstate \<Rightarrow> vstate" where
  "save_word p s = (let s = set_reg 4 p s in s\<lparr>vmem := store64 (vmem s) (gpr s 4) (gpr s 3)\<rparr>)"

definition enter_usermode :: "u64 \<Rightarrow> u64 \<Rightarrow> u64 \<Rightarrow> uregs \<Rightarrow> uregs" where
  "enter_usermode kernel_return_from_user kernel_return_addr kernel_return_sp u =
     (let s = core u;
          s = set_reg 3 kernel_return_from_user s;
          s = save_word kernel_return_addr s;
          s = set_reg 3 (vsp s) s;
          s = save_word kernel_return_sp s;
          s = fold push_pair callee_saved s;
          s = set_reg 3 (vsp s) s;
          s = save_word kernel_return_sp s;
          u = u\<lparr>core := s, ttbr0 := gpr s 2, sp_el0 := gpr s 1\<rparr>;
          s = s\<lparr>velr := gpr s 0\<rparr>;
          s = set_reg 0 0 s;
          s = s\<lparr>vspsr := gpr s 0\<rparr>;
          s = fold (\<lambda>i. set_reg i 0) [0..<31] s
      in u\<lparr>core := s\<rparr>)"

text \<open>The result is the state at the final \<open>ret\<close>, which goes to the address in \<open>x30\<close>.\<close>

definition return_from_user :: "u64 \<Rightarrow> uregs \<Rightarrow> uregs" where
  "return_from_user kernel_return_sp u =
     (let s = core u;
          s = set_reg 4 kernel_return_sp s;
          s = set_reg 3 (load64 (vmem s) (gpr s 4)) s;
          s = s\<lparr>vsp := gpr s 3\<rparr>;
          s = fold pop_pair (rev callee_saved) s
      in u\<lparr>core := s\<rparr>)"

section \<open>The saved registers\<close>

lemma push_regs:
  assumes "vsp s = b + of_nat (8 * i + 16)"
  shows "vsp (push_pair (p, q) s) = b + of_nat (8 * i)" "gpr (push_pair (p, q) s) = gpr s"
  using assms by (simp_all add: push_pair_def stp_def Let_def)

lemma push_slots:
  assumes "vsp s = b + of_nat (8 * i + 16)" "i < 900" "j < 900"
  shows "slot (vmem (push_pair (p, q) s)) b j = (if j = i then gpr s p else if j = Suc i then gpr s q else slot (vmem s) b j)"
proof -
  have sp: "vsp s - 16 = b + of_nat (8 * i)" using assms(1) by simp
  have m: "vmem (push_pair (p, q) s) =
      store64 (store64 (vmem s) (b + of_nat (8 * i)) (gpr s p)) (b + of_nat (8 * Suc i)) (gpr s q)"
    using sp by (simp add: push_pair_def stp_def Let_def algebra_simps)
  have "slot (vmem (push_pair (p, q) s)) b j =
      (if j = Suc i then gpr s q else slot (store64 (vmem s) (b + of_nat (8 * i)) (gpr s p)) b j)"
    unfolding m by (rule slot_store) (use assms in simp_all)
  moreover have "slot (store64 (vmem s) (b + of_nat (8 * i)) (gpr s p)) b j = (if j = i then gpr s p else slot (vmem s) b j)"
    by (rule slot_store) (use assms in simp_all)
  ultimately show ?thesis by (simp only:) simp
qed

lemma pop_regs:
  assumes "vsp s = b + of_nat (8 * i)"
  shows "gpr (pop_pair (p, q) s) = (gpr s)(p := slot (vmem s) b i, q := slot (vmem s) b (Suc i))"
    "vsp (pop_pair (p, q) s) = b + of_nat (8 * i + 16)" "vmem (pop_pair (p, q) s) = vmem s"
  using assms by (simp_all add: pop_pair_def ldp_def set_reg_def slot_def Let_def add.commute add.left_commute)

text \<open>After the six pushes the twelve registers are in the twelve words from \<open>b\<close>.\<close>

definition saved_at :: "ram \<Rightarrow> u64 \<Rightarrow> (nat \<Rightarrow> u64) \<Rightarrow> bool" where
  "saved_at m b g \<longleftrightarrow> (\<forall>k < 6. slot m b (2 * k) = g (29 - 2 * k) \<and> slot m b (2 * k + 1) = g (30 - 2 * k))"

lemma pushes:
  fixes s :: vstate
  defines "t \<equiv> fold push_pair callee_saved s"
  shows "vsp t = vsp s - 96" "gpr t = gpr s" "saved_at (vmem t) (vsp s - 96) (gpr s)"
proof -
  define b where "b = vsp s - 96"
  define s1 where "s1 = push_pair (19, 20) s"
  define s2 where "s2 = push_pair (21, 22) s1"
  define s3 where "s3 = push_pair (23, 24) s2"
  define s4 where "s4 = push_pair (25, 26) s3"
  define s5 where "s5 = push_pair (27, 28) s4"
  have t: "t = push_pair (29, 30) s5"
    by (simp add: t_def callee_saved_def s1_def s2_def s3_def s4_def s5_def)
  have b: "vsp s = b + of_nat (8 * 10 + 16)" by (simp add: b_def)
  note r1 = push_regs [OF b, of 19 20, folded s1_def] and p1 = push_slots [OF b, of _ 19 20, folded s1_def]
  have b1: "vsp s1 = b + of_nat (8 * 8 + 16)" using r1 by simp
  note r2 = push_regs [OF b1, of 21 22, folded s2_def] and p2 = push_slots [OF b1, of _ 21 22, folded s2_def]
  have b2: "vsp s2 = b + of_nat (8 * 6 + 16)" using r2 by simp
  note r3 = push_regs [OF b2, of 23 24, folded s3_def] and p3 = push_slots [OF b2, of _ 23 24, folded s3_def]
  have b3: "vsp s3 = b + of_nat (8 * 4 + 16)" using r3 by simp
  note r4 = push_regs [OF b3, of 25 26, folded s4_def] and p4 = push_slots [OF b3, of _ 25 26, folded s4_def]
  have b4: "vsp s4 = b + of_nat (8 * 2 + 16)" using r4 by simp
  note r5 = push_regs [OF b4, of 27 28, folded s5_def] and p5 = push_slots [OF b4, of _ 27 28, folded s5_def]
  have b5: "vsp s5 = b + of_nat (8 * 0 + 16)" using r5 by simp
  note r6 = push_regs [OF b5, of 29 30, folded t] and p6 = push_slots [OF b5, of _ 29 30, folded t]
  note g = r1(2) r2(2) r3(2) r4(2) r5(2) r6(2)
  show "vsp t = vsp s - 96" "gpr t = gpr s" using r6(1) g by (simp_all add: b_def)
  have "slot (vmem t) b (2 * k) = gpr s (29 - 2 * k) \<and> slot (vmem t) b (2 * k + 1) = gpr s (30 - 2 * k)" if "k < 6" for k
  proof -
    from that have "k = 0 \<or> k = 1 \<or> k = 2 \<or> k = 3 \<or> k = 4 \<or> k = 5" by linarith
    then show ?thesis
      by (elim disjE) (simp_all add: p1 p2 p3 p4 p5 p6 g)
  qed
  then show "saved_at (vmem t) (vsp s - 96) (gpr s)" by (simp add: saved_at_def b_def)
qed

lemma pops:
  assumes m: "saved_at (vmem s) (vsp s) g"
  defines "t \<equiv> fold pop_pair (rev callee_saved) s"
  shows "vsp t = vsp s + 96" "19 \<le> i \<Longrightarrow> i \<le> 30 \<Longrightarrow> gpr t i = g i"
proof -
  define b where "b = vsp s"
  define s1 where "s1 = pop_pair (29, 30) s"
  define s2 where "s2 = pop_pair (27, 28) s1"
  define s3 where "s3 = pop_pair (25, 26) s2"
  define s4 where "s4 = pop_pair (23, 24) s3"
  define s5 where "s5 = pop_pair (21, 22) s4"
  have t: "t = pop_pair (19, 20) s5"
    by (simp add: t_def callee_saved_def s1_def s2_def s3_def s4_def s5_def)
  have b: "vsp s = b + of_nat (8 * 0)" by (simp add: b_def)
  note p1 = pop_regs [OF b, of 29 30, folded s1_def]
  have b1: "vsp s1 = b + of_nat (8 * 2)" using p1 by simp
  note p2 = pop_regs [OF b1, of 27 28, folded s2_def]
  have b2: "vsp s2 = b + of_nat (8 * 4)" using p2 by simp
  note p3 = pop_regs [OF b2, of 25 26, folded s3_def]
  have b3: "vsp s3 = b + of_nat (8 * 6)" using p3 by simp
  note p4 = pop_regs [OF b3, of 23 24, folded s4_def]
  have b4: "vsp s4 = b + of_nat (8 * 8)" using p4 by simp
  note p5 = pop_regs [OF b4, of 21 22, folded s5_def]
  have b5: "vsp s5 = b + of_nat (8 * 10)" using p5 by simp
  note p6 = pop_regs [OF b5, of 19 20, folded t]
  have sl: "slot (vmem s) b (2 * k) = g (29 - 2 * k)" "slot (vmem s) b (2 * k + 1) = g (30 - 2 * k)" if "k < 6" for k
    using m that by (simp_all add: saved_at_def b_def)
  show "vsp t = vsp s + 96" using p6(2) by (simp add: b_def)
  assume "19 \<le> i" "i \<le> 30"
  then have "i = 19 \<or> i = 20 \<or> i = 21 \<or> i = 22 \<or> i = 23 \<or> i = 24 \<or> i = 25 \<or> i = 26 \<or> i = 27 \<or> i = 28 \<or> i = 29 \<or> i = 30"
    by presburger
  then show "gpr t i = g i"
    using sl [of 0] sl [of 1] sl [of 2] sl [of 3] sl [of 4] sl [of 5]
    by (elim disjE) (simp_all add: p1 p2 p3 p4 p5 p6)
qed

lemma save_word_regs:
  "vsp (save_word p s) = vsp s" "i \<noteq> 4 \<Longrightarrow> gpr (save_word p s) i = gpr s i"
  "vmem (save_word p s) = store64 (vmem s) p (gpr s 3)"
  by (simp_all add: save_word_def set_reg_def)

lemma slot_store_sep:
  assumes "sep p 8 b 96" "j < 12"
  shows "slot (store64 m p v) b j = slot m b j"
proof -
  have "8 * j + 8 \<le> 96" using assms(2) by linarith
  then have "sep p 8 (b + of_nat (8 * j)) 8" by (rule sep_sub [OF assms(1)]) simp
  then show ?thesis by (simp add: slot_def load64_store64_sep)
qed

lemma fold_clear: "i < n \<Longrightarrow> gpr (fold (\<lambda>i. set_reg i 0) [0..<n] s) i = 0"
  "vmem (fold (\<lambda>i. set_reg i 0) [0..<n] s) = vmem s" "vsp (fold (\<lambda>i. set_reg i 0) [0..<n] s) = vsp s"
  "velr (fold (\<lambda>i. set_reg i 0) [0..<n] s) = velr s" "vspsr (fold (\<lambda>i. set_reg i 0) [0..<n] s) = vspsr s"
  by (induction n) (auto simp: set_reg_def less_Suc_eq)

section \<open>Round trip\<close>

text \<open>
  What must survive while user code runs: the twelve saved words below the stack pointer
  and the saved stack pointer itself.
\<close>

definition kernel_side_kept :: "u64 \<Rightarrow> u64 \<Rightarrow> uregs \<Rightarrow> uregs \<Rightarrow> bool" where
  "kernel_side_kept kernel_return_sp b u v \<longleftrightarrow>
     (\<forall>j < 12. slot (vmem (core v)) b j = slot (vmem (core u)) b j) \<and>
     load64 (vmem (core v)) kernel_return_sp = load64 (vmem (core u)) kernel_return_sp \<and> ttbr0 v = ttbr0 u"

text \<open>
  C10: user code is entered with a clean register file at the given entry point, stack and page
  table, at EL0 with interrupts enabled; and whatever it does to the registers, the return
  path gives the caller of \<open>enter_usermode\<close> its stack pointer and its callee-saved registers
  (the return address among them) back.  The page table, however, is still that of the user
  process: nothing on the way back writes \<open>TTBR0\<close>.
\<close>

theorem user_mode_round_trip:
  assumes sep: "sep kernel_return_sp 8 (vsp (core u) - 96) 96"
    and kept: "kernel_side_kept kernel_return_sp (vsp (core u) - 96) (enter_usermode ret_fn ret_addr kernel_return_sp u) v"
  shows "velr (core (enter_usermode ret_fn ret_addr kernel_return_sp u)) = gpr (core u) 0
    \<and> sp_el0 (enter_usermode ret_fn ret_addr kernel_return_sp u) = gpr (core u) 1
    \<and> ttbr0 (enter_usermode ret_fn ret_addr kernel_return_sp u) = gpr (core u) 2
    \<and> vspsr (core (enter_usermode ret_fn ret_addr kernel_return_sp u)) = 0
    \<and> (\<forall>i < 31. gpr (core (enter_usermode ret_fn ret_addr kernel_return_sp u)) i = 0)
    \<and> (\<forall>i. 19 \<le> i \<and> i \<le> 30 \<longrightarrow> gpr (core (return_from_user kernel_return_sp v)) i = gpr (core u) i)
    \<and> vsp (core (return_from_user kernel_return_sp v)) = vsp (core u)
    \<and> ttbr0 (return_from_user kernel_return_sp v) = gpr (core u) 2"
proof -
  define b where "b = vsp (core u) - 96"
  define s0 where "s0 = save_word kernel_return_sp (set_reg 3 (vsp (core u)) (save_word ret_addr (set_reg 3 ret_fn (core u))))"
  define s1 where "s1 = fold push_pair callee_saved s0"
  define s2 where "s2 = save_word kernel_return_sp (set_reg 3 (vsp s1) s1)"
  let ?e = "enter_usermode ret_fn ret_addr kernel_return_sp u"
  have s0: "vsp s0 = vsp (core u)" "\<And>i. i \<noteq> 3 \<Longrightarrow> i \<noteq> 4 \<Longrightarrow> gpr s0 i = gpr (core u) i"
    by (simp_all add: s0_def save_word_regs) (simp_all add: save_word_def set_reg_def)
  note p = pushes [of s0, folded s1_def, unfolded s0(1), folded b_def]
  have s2: "vsp s2 = b" "\<And>i. i \<noteq> 3 \<Longrightarrow> i \<noteq> 4 \<Longrightarrow> gpr s2 i = gpr (core u) i" "vmem s2 = store64 (vmem s1) kernel_return_sp b"
    using p s0 by (simp_all add: s2_def save_word_regs) (simp_all add: save_word_def set_reg_def)
  have e: "core ?e = fold (\<lambda>i. set_reg i 0) [0..<31] ((set_reg 0 0 (s2\<lparr>velr := gpr s2 0\<rparr>))\<lparr>vspsr := 0\<rparr>)"
      "ttbr0 ?e = gpr s2 2" "sp_el0 ?e = gpr s2 1"
    by (simp_all add: enter_usermode_def Let_def s2_def s1_def s0_def set_reg_def save_word_regs del: upt.simps)
  have m: "vmem (core ?e) = store64 (vmem s1) kernel_return_sp b" by (simp add: e(1) fold_clear s2 set_reg_def del: upt.simps)
  have "saved_at (vmem (core ?e)) b (gpr s0)"
    using p(3) sep slot_store_sep [of kernel_return_sp b] unfolding m by (simp add: saved_at_def b_def)
  then have sv: "saved_at (vmem (core v)) b (gpr s0)"
    using kept by (simp add: saved_at_def kernel_side_kept_def b_def)
  define w where "w = (set_reg 3 b (set_reg 4 kernel_return_sp (core v)))\<lparr>vsp := b\<rparr>"
  have "load64 (vmem (core v)) kernel_return_sp = b"
    using kept unfolding kernel_side_kept_def m by (simp add: b_def)
  then have ret: "core (return_from_user kernel_return_sp v) = fold pop_pair (rev callee_saved) w" "ttbr0 (return_from_user kernel_return_sp v) = ttbr0 v"
    by (simp_all add: return_from_user_def Let_def w_def set_reg_def)
  have "saved_at (vmem w) (vsp w) (gpr s0)" using sv by (simp add: w_def set_reg_def)
  note q = pops [OF this, folded ret(1)]
  have "\<forall>i. 19 \<le> i \<and> i \<le> 30 \<longrightarrow> gpr (core (return_from_user kernel_return_sp v)) i = gpr (core u) i"
    using q(2) s0(2) by simp
  moreover have "vsp (core (return_from_user kernel_return_sp v)) = vsp (core u)" using q(1) by (simp add: w_def b_def)
  moreover have "\<forall>i < 31. gpr (core ?e) i = 0" unfolding e(1) using fold_clear(1) by blast
  moreover have "velr (core ?e) = gpr (core u) 0" "vspsr (core ?e) = 0"
    by (simp_all add: e(1) fold_clear s2 set_reg_def del: upt.simps)
  ultimately show ?thesis using e(2, 3) s2(2) ret(2) kept by (simp add: kernel_side_kept_def)
qed

definition sample_user :: uregs where
  "sample_user = \<lparr>core = \<lparr>gpr = (\<lambda>i. of_nat (100 + i)), vsp = 0x40080000, velr = 0, vspsr = 0, vmem = (\<lambda>_. 0)\<rparr>,
     ttbr0 = 0x40001000, sp_el0 = 0\<rparr>"

theorem user_mode_round_trip_witness:
  "let e = enter_usermode 0x40010000 0x40090008 0x40090000 sample_user;
       v = return_from_user 0x40090000 (e\<lparr>core := (core e)\<lparr>gpr := (\<lambda>_. 7)\<rparr>\<rparr>)
   in gpr (core v) 30 = 130 \<and> vsp (core v) = 0x40080000 \<and> ttbr0 v = 102"
proof -
  let ?e = "enter_usermode 0x40010000 0x40090008 0x40090000 sample_user"
  have sep: "sep 0x40090000 8 (vsp (core sample_user) - 96) 96" by (simp add: sep_def sample_user_def)
  have "kernel_side_kept 0x40090000 (vsp (core sample_user) - 96) ?e (?e\<lparr>core := (core ?e)\<lparr>gpr := (\<lambda>_. 7)\<rparr>\<rparr>)"
    by (simp add: kernel_side_kept_def)
  from user_mode_round_trip [OF sep this] show ?thesis by (simp add: Let_def) (simp add: sample_user_def)
qed

end
