(* ===== verification/Boot.thy ===== *)
theory Boot
  imports Prelude
begin

text \<open>
  The first instructions of the kernel, src/src/boot/start.S: parking the other processors,
  the way down to EL1, clearing the BSS and setting the stack.  The addresses the linker
  provides are parameters.  Registers of the higher exception levels are written and never
  read again by the kernel; they are part of the state so that their values can be stated.
\<close>

record bstate =
  mpidr_el1 :: u64
  CurrentEL :: u64
  scr_el3 :: u64
  hcr_el2 :: u64
  cnthctl_el2 :: u64
  cntvoff_el2 :: u64
  boot_sctlr_el1 :: u64
  pstate :: u64
  boot_sp :: u64
  boot_mem :: ram

text \<open>\<open>eret\<close>: the mode field of the saved status is the new level; the whole value is the new state.\<close>

definition eret :: "u64 \<Rightarrow> bstate \<Rightarrow> bstate" where
  "eret spsr s = s\<lparr>pstate := spsr, CurrentEL := push_bit 2 (drop_bit 2 spsr AND 3)\<rparr>"

definition from_el3 :: "bstate \<Rightarrow> bstate" where
  "from_el3 s = eret 0x3c9 (s\<lparr>scr_el3 := scr_el3 s OR push_bit 10 1 OR push_bit 0 1\<rparr>)"

definition from_el2 :: "bstate \<Rightarrow> bstate" where
  "from_el2 s = eret 0x3c5 (s\<lparr>hcr_el2 := push_bit 31 1, cnthctl_el2 := cnthctl_el2 s OR 3,
     cntvoff_el2 := 0, boot_sctlr_el1 := 0\<rparr>)"

definition to_el1 :: "bstate \<Rightarrow> bstate" where
  "to_el1 s =
     (let level = drop_bit 2 (CurrentEL s)
      in if level = 2 then from_el2 s
         else if level = 3 then from_el2 (from_el3 s)
         else s)"

text \<open>\<open>b.ge\<close> compares signed.\<close>

partial_function (option) bss_loop :: "u64 \<Rightarrow> u64 \<Rightarrow> ram \<Rightarrow> ram option" where
  "bss_loop x0 x1 m = (if sint x1 \<le> sint x0 then Some m else bss_loop (x0 + 8) x1 (store64 m x0 0))"

datatype boot = Parked | Kernel_main bstate

definition start :: "u64 \<Rightarrow> u64 \<Rightarrow> u64 \<Rightarrow> bstate \<Rightarrow> boot option" where
  "start bss_start bss_end stack_top s =
     (if mpidr_el1 s AND 0xFF \<noteq> 0 then Some Parked
      else let s = to_el1 s
           in Option.bind (bss_loop bss_start bss_end (boot_mem s))
                (\<lambda>m. Some (Kernel_main (s\<lparr>boot_mem := m, boot_sp := stack_top\<rparr>))))"

section \<open>Clearing the BSS\<close>

lemma sint_le:
  fixes a b :: u64
  assumes "unat a < 2 ^ 63" "unat b < 2 ^ 63"
  shows "sint b \<le> sint a \<longleftrightarrow> unat b \<le> unat a"
proof -
  have s: "sint w = uint w" if "unat w < 2 ^ 63" for w :: u64
  proof -
    have "\<not> bit (uint w) 63" using not_bit_high [OF that order_refl] by (simp add: bit_uint_iff)
    then have "sint w = take_bit 63 (uint w)" by (simp add: sint_uint signed_take_bit_eq_if_positive)
    moreover have "unat w < 9223372036854775808" using that by simp
    then have "int (unat w) < 9223372036854775808" by linarith
    then have "uint w < 9223372036854775808" by simp
    then have "take_bit 63 (uint w) = uint w" by (intro take_bit_int_eq_self) simp_all
    ultimately show ?thesis by (simp only:)
  qed
  show ?thesis using s [OF assms(1)] s [OF assms(2)] by (simp add: word_le_nat_alt flip: word_le_def)
qed

text \<open>The words from \<open>a\<close> up to the first one at or behind \<open>b\<close>; nothing else changes.\<close>

lemma bss_loop_clears:
  assumes "unat a + 8 * n < 2 ^ 63" "unat b \<le> unat a + 8 * n" "unat a + 8 * n < unat b + 8"
  shows "bss_loop a b m = Some (\<lambda>x. if in_range a (8 * n) x then 0 else m x)"
  using assms
proof (induction n arbitrary: a m)
  case 0
  then have "sint b \<le> sint a" by (subst sint_le) simp_all
  then show ?case by (subst bss_loop.simps) (simp add: in_range_def)
next
  case (Suc n)
  have "unat a < unat b" using Suc.prems by simp
  then have lt: "\<not> sint b \<le> sint a" using Suc.prems by (subst sint_le) simp_all
  have u: "unat (a + 8) = unat a + 8" using Suc.prems by (subst unat_add_small) simp_all
  then have "bss_loop (a + 8) b (store64 m a 0) = Some (\<lambda>x. if in_range (a + 8) (8 * n) x then 0 else store64 m a 0 x)"
    using Suc.prems by (intro Suc.IH) simp_all
  moreover have "(if in_range (a + 8) (8 * n) x then 0 else store64 m a 0 x) = (if in_range a (8 * Suc n) x then 0 else m x)" for x
  proof -
    have "in_range a (8 * Suc n) x \<longleftrightarrow> in_range a 8 x \<or> in_range (a + 8) (8 * n) x"
    proof (cases "unat (x - a) < 8")
      case False
      then have "unat (x - a - 8) = unat (x - a) - 8" by (simp add: unat_sub word_le_nat_alt)
      then show ?thesis using False by (auto simp: in_range_def diff_diff_eq)
    qed (simp add: in_range_def)
    moreover have "le_bytes 8 (0 :: u64) = replicate 8 0" by (simp add: numeral_eq_Suc)
    ultimately show ?thesis by (auto simp: store64_def write_bytes_apply in_range_def)
  qed
  ultimately show ?case using lt by (subst bss_loop.simps) simp
qed

section \<open>From reset to the kernel\<close>

text \<open>
  C29: boot reaches the kernel in the expected state.  Every processor but the first is parked.
  The first one, started at EL1, EL2 or EL3, calls \<open>kernel_main\<close> at EL1 with the stack at its
  top and the BSS cleared (to the next multiple of eight bytes), all other memory as it was;
  coming from a higher level, interrupts are masked, EL1 is AArch64 with the MMU off, and the
  physical timer is accessible.
\<close>

theorem boot_reaches_kernel:
  assumes bss: "unat bss_start + 8 * n < 2 ^ 63" "unat bss_end \<le> unat bss_start + 8 * n" "unat bss_start + 8 * n < unat bss_end + 8"
    and el: "CurrentEL s = push_bit 2 level" "level \<in> {1, 2, 3}"
  shows "if mpidr_el1 s AND 0xFF \<noteq> 0 then start bss_start bss_end stack_top s = Some Parked
    else \<exists>t. start bss_start bss_end stack_top s = Some (Kernel_main t) \<and> CurrentEL t = push_bit 2 1 \<and> boot_sp t = stack_top \<and>
      boot_mem t = (\<lambda>x. if in_range bss_start (8 * n) x then 0 else boot_mem s x) \<and>
      (level \<noteq> 1 \<longrightarrow> pstate t = 0x3c5 \<and> boot_sctlr_el1 t = 0 \<and> bit (hcr_el2 t) 31 \<and> cnthctl_el2 t AND 3 = 3 \<and> cntvoff_el2 t = 0)"
proof -
  have "drop_bit 2 (CurrentEL s) = level" using el by auto
  moreover have "boot_mem (to_el1 s) = boot_mem s"
    by (simp add: to_el1_def from_el2_def from_el3_def eret_def Let_def)
  moreover have "(c OR 3) AND 3 = (3 :: u64)" for c by (simp add: bit.conj_disj_distrib2 bit.disj_conj_distrib)
  ultimately show ?thesis
    using el bss_loop_clears [OF bss]
    by (auto simp: start_def to_el1_def from_el2_def from_el3_def eret_def Let_def bit_simps)
qed

definition sample_boot :: bstate where
  "sample_boot = \<lparr>mpidr_el1 = 0x80000000, CurrentEL = 12, scr_el3 = 0, hcr_el2 = 0, cnthctl_el2 = 0, cntvoff_el2 = 5,
     boot_sctlr_el1 = 1, pstate = 0, boot_sp = 0, boot_mem = (\<lambda>_. 0xFF)\<rparr>"

theorem boot_reaches_kernel_witness:
  "\<exists>t. start 0x40005000 0x4000500C 0x40020000 sample_boot = Some (Kernel_main t) \<and> CurrentEL t = 4 \<and>
    boot_mem t 0x4000500F = 0 \<and> boot_mem t 0x40005010 = 0xFF"
  using boot_reaches_kernel [of "0x40005000" 2 "0x4000500C" sample_boot 3 "0x40020000"]
  by (auto simp: sample_boot_def in_range_def)

end
