(* ===== verification/Shell.thy ===== *)
theory Shell
  imports Elf
begin

text \<open>
  The shell, src/src/shell/shell.cpp.  The command buffer and its position are part of the
  state; a write outside the 256 bytes of the buffer ends in \<open>Overrun_buffer\<close>.  What the shell
  prints is kept as the list of its calls of the console (\<open>print\<close>): a string argument is its
  bytes or, where the code passes a pointer to memory outside the shell, the pointer.  The
  commands use the models of the other parts.  What is not under src/ is in \<open>env\<close>: the block
  device and the console of the parts below, the network, the address the linker gives to the
  command buffer, and the run of a user program from its entry to its exit.  \<open>char\<close> is
  unsigned on this architecture.
\<close>

section \<open>State\<close>

datatype arg = Num u64 | Str "u8 list" | Ptr u64

datatype print = Puts "u8 list" | Putc u8 | Printf "u8 list" "arg list"

record 'd shell =
  sys :: "'d blk fat"
  cmd_buf :: "u8 list"
  cmd_pos :: u32
  user_process_exited :: bool
  user_exit_code :: i64
  out :: "print list"

record 'd env =
  sector_reader :: "('d blk) sector_read"
  printer_below :: "('d blk) printer"
  wire_below :: nic
  poll_fuel :: nat
  wait_fuel :: nat
  kernel_table :: u64
  cmd_buf_at :: u64
  user_run :: "u64 \<Rightarrow> u64 \<Rightarrow> u64 \<Rightarrow> 'd blk fat \<Rightarrow> 'd blk fat option"

text \<open>How a command can fail to come back.\<close>

datatype shell_stop = Hangs | Reset "print list" | Overrun_buffer | Net_stop crash

type_synonym 'd result = "shell_stop + 'd shell"

definition CMD_BUF_SIZE :: nat where "CMD_BUF_SIZE = 256"

definition emit :: "print list \<Rightarrow> 'd shell \<Rightarrow> 'd shell" where
  "emit ps s = s\<lparr>out := out s @ ps\<rparr>"

abbreviation line :: "string \<Rightarrow> print" where
  "line t \<equiv> Puts (ascii t @ [10])"

abbreviation show_line :: "string \<Rightarrow> arg list \<Rightarrow> print" where
  "show_line t as \<equiv> Printf (ascii t @ [10]) as"

fun wait_for :: "'a option \<Rightarrow> ('a \<Rightarrow> 'd result) \<Rightarrow> 'd result" where
  "wait_for None f = Inl Hangs"
| "wait_for (Some x) f = f x"

fun from_net :: "'n outcome \<Rightarrow> ('n \<Rightarrow> 'd result) \<Rightarrow> 'd result" where
  "from_net (Inl e) f = Inl (Net_stop e)"
| "from_net (Inr x) f = f x"

abbreviation net :: "'d shell \<Rightarrow> dhcpc" where
  "net s \<equiv> net_state (machine (sys s))"

definition set_net :: "dhcpc \<Rightarrow> 'd shell \<Rightarrow> 'd shell" where
  "set_net n s = s\<lparr>sys := (sys s)\<lparr>machine := (machine (sys s))\<lparr>net_state := n\<rparr>\<rparr>\<rparr>"

section \<open>Commands\<close>

definition print_prompt :: "'d shell \<Rightarrow> 'd shell" where
  "print_prompt = emit [Puts ([0x1b] @ ascii ''[32mhackers-os'' @ [0x1b] @ ascii ''[0m> '')]"

definition cmd_help :: "'d shell \<Rightarrow> 'd shell" where
  "cmd_help = emit
     [line ''Available commands:'', line ''  help          - Show this help'', line ''  clear         - Clear screen'',
      line ''  mem           - Show memory usage'', line ''  ps            - List processes'',
      line ''  uptime        - Show system uptime'', line ''  ls [path]     - List directory'',
      line ''  cat <file>    - Print file contents'', line ''  run <file>    - Execute ELF binary'',
      line ''  ifconfig      - Show network config'', line ''  ping <ip>     - Ping an IP address'',
      line ''  nslookup <h>  - DNS lookup'', line ''  info          - System information'',
      line ''  reboot        - Reboot system'']"

definition cmd_clear :: "'d shell \<Rightarrow> 'd shell" where
  "cmd_clear = emit [Puts ([0x1b] @ ascii ''[2J'' @ [0x1b] @ ascii ''[H'')]"

definition cmd_mem :: "'d shell \<Rightarrow> 'd result" where
  "cmd_mem s =
     (let m = machine (sys s); total = get_total_count m; used = total - get_free_count m;
          s = emit [line ''Memory:'', show_line ''  Pages: %u / %u used (%u KB / %u KB)''
                [Num used, Num total, Num (used * 4), Num (total * 4)]] s
      in wait_for (get_used m) (\<lambda>u. wait_for (get_free m) (\<lambda>f.
           Inr (emit [show_line ''  Heap:  %u bytes used, %u bytes free'' [Num u, Num f]] s))))"

definition state_text :: "ProcessState \<Rightarrow> string" where
  "state_text st =
     (case st of RUNNING \<Rightarrow> ''RUNNING'' | READY \<Rightarrow> ''READY  '' | BLOCKED \<Rightarrow> ''BLOCKED'' | ZOMBIE \<Rightarrow> ''ZOMBIE ''
      | UNUSED \<Rightarrow> ''???    '')"

definition ps_line :: "'d shell \<Rightarrow> nat \<Rightarrow> print list" where
  "ps_line s i =
     (case get_process (of_nat i) (machine (sys s)) of
        None \<Rightarrow> []
      | Some k \<Rightarrow> let p = process_table (machine (sys s)) ! k
                  in [show_line ''%u    %s  %s'' [Num (ucast (pid p)), Str (ascii (state_text (state p))), Ptr (name p)]])"

definition cmd_ps :: "'d shell \<Rightarrow> 'd shell" where
  "cmd_ps s = emit ([line ''PID  STATE    NAME'', line ''---  -------  ----''] @ concat (map (ps_line s) [0..<MAX_PROCESSES])) s"

definition cmd_uptime :: "'d shell \<Rightarrow> 'd shell" where
  "cmd_uptime s =
     (let secs = uptime_seconds (machine (sys s)); mins = secs div 60; hours = mins div 60
      in emit [show_line ''Uptime: %u:%u:%u (%u ticks)''
           [Num hours, Num (mins mod 60), Num (secs mod 60), Num (get_ticks (machine (sys s)))]] s)"

definition ls_line :: "Fat32DirEntry \<Rightarrow> print" where
  "ls_line e =
     (if is_dir e then show_line ''  [DIR] %s'' [Str (fe_name e)]
      else Printf (ascii ''  %u'' @ [9] @ ascii ''%s'' @ [10]) [Num (ucast (fe_size e)), Str (fe_name e)])"

definition cmd_ls :: "'d env \<Rightarrow> u8 list option \<Rightarrow> 'd shell \<Rightarrow> 'd result" where
  "cmd_ls env arg s =
     (let path = (case arg of None \<Rightarrow> [47] | Some p \<Rightarrow> if p = [] then [47] else p)
      in wait_for (list_dir (sector_reader env) path 32 (sys s)) (\<lambda>(k, ok, entries).
           let s = s\<lparr>sys := k\<rparr>
           in if \<not> ok then Inr (emit [show_line ''Cannot list directory: %s'' [Str path]] s)
              else Inr (emit (map ls_line entries @ [show_line ''%u entries'' [Num (of_nat (length entries))]]) s)))"

definition cmd_cat :: "'d env \<Rightarrow> u8 list option \<Rightarrow> 'd shell \<Rightarrow> 'd result" where
  "cmd_cat env arg s =
     (case arg of
        None \<Rightarrow> Inr (emit [line ''Usage: cat <file>''] s)
      | Some path \<Rightarrow>
          if path = [] then Inr (emit [line ''Usage: cat <file>''] s)
          else wait_for (file_size (sector_reader env) path (sys s)) (\<lambda>(k, fsize).
            let s = s\<lparr>sys := k\<rparr>
            in if fsize = 0 then Inr (emit [show_line ''File not found: %s'' [Str path]] s)
               else let fsize = (if fsize > 65536 then 65536 else fsize)
                    in wait_for (kmalloc (ucast (fsize + 1)) (machine (sys s))) (\<lambda>(m, buf).
                         let s = s\<lparr>sys := (sys s)\<lparr>machine := m\<rparr>\<rparr>
                         in if buf = 0 then Inr (emit [line ''Out of memory''] s)
                            else wait_for (read_file (sector_reader env) path fsize (sys s)) (\<lambda>(k, data, r).
                              let m = (machine k)\<lparr>mem := write_bytes (mem (machine k)) buf data\<rparr>
                              in case r of
                                   None \<Rightarrow> Inr (emit [show_line ''Error reading: %s'' [Str path]]
                                                (s\<lparr>sys := k\<lparr>machine := kfree buf m\<rparr>\<rparr>))
                                 | Some bytes_read \<Rightarrow>
                                     let m = m\<lparr>mem := (mem m)(buf + ucast bytes_read := 0)\<rparr>;
                                         text = takeWhile (\<lambda>c. c \<noteq> 0) (read_bytes (mem m) buf (unat bytes_read))
                                     in Inr (emit [Puts text, Putc 10] (s\<lparr>sys := k\<lparr>machine := kfree buf m\<rparr>\<rparr>))))))"

definition notify_user_exit :: "i64 \<Rightarrow> 'd shell \<Rightarrow> 'd shell" where
  "notify_user_exit code s = s\<lparr>user_process_exited := True, user_exit_code := code\<rparr>"

text \<open>\<open>p\<close> is the address of the argument inside the command buffer; it becomes the process's name.\<close>

definition cmd_run :: "'d env \<Rightarrow> (u64 \<times> u8 list) option \<Rightarrow> 'd shell \<Rightarrow> 'd result" where
  "cmd_run env arg s =
     (case arg of
        None \<Rightarrow> Inr (emit [line ''Usage: run <file>''] s)
      | Some (p, path) \<Rightarrow>
          if path = [] then Inr (emit [line ''Usage: run <file>''] s)
          else wait_for (load_and_exec (sector_reader env) (printer_below env) (kernel_table env) p path p (sys s)) (\<lambda>(k, pid).
            let s = s\<lparr>sys := k\<rparr>
            in if pid = 0 then Inr (emit [show_line ''Failed to run: %s'' [Str path]] s)
               else case get_process pid (machine (sys s)) of
                      None \<Rightarrow> Inr (emit [show_line ''Process %u not found'' [Num (ucast pid)]] s)
                    | Some i \<Rightarrow>
                        let s = emit [Printf (ascii ''Running '' @ [39] @ ascii ''%s'' @ [39] @ ascii '' (pid %u)...'' @ [10])
                                  [Str path, Num (ucast pid)]] s;
                            s = s\<lparr>user_process_exited := False\<rparr>;
                            proc = process_table (machine (sys s)) ! i
                        in wait_for (if page_table proc \<noteq> 0 \<and> user_entry proc \<noteq> 0
                                     then user_run env (user_entry proc) (user_stack proc) (page_table proc) (sys s)
                                     else Some (sys s)) (\<lambda>k.
                             Inr (emit [show_line ''Process %u exited (code %d)'' [Num (ucast pid), Num (user_exit_code s)]]
                               (s\<lparr>sys := k\<rparr>)))))"

definition cmd_info :: "'d shell \<Rightarrow> 'd shell" where
  "cmd_info s = emit
     [line '''', line ''  Hackers-OS v0.1'', line ''  Architecture: AArch64 (ARM64)'',
      show_line ''  Processes: %u / %u'' [Num (ucast (process_count (machine (sys s)))), Num (of_nat MAX_PROCESSES)],
      show_line ''  Timer: %u Hz'' [Num 100], line ''  UART: PL011 @ 0x09000000'', line ''  GIC: GICv2'', line '''',
      line ''  Developed by TLDR;IT'', line ''  https://www.tldr-it.com'', line ''''] s"

text \<open>The firmware call does not come back.\<close>

definition cmd_reboot :: "'d shell \<Rightarrow> 'd result" where
  "cmd_reboot s = Inl (Reset (out s @ [line ''Rebooting via PSCI...'']))"

definition ip_octets :: "ipv4 \<Rightarrow> arg list" where
  "ip_octets a = [Num (ucast (a AND 0xFF)), Num (ucast (drop_bit 8 a AND 0xFF)), Num (ucast (drop_bit 16 a AND 0xFF)),
     Num (ucast (drop_bit 24 a AND 0xFF))]"

definition cmd_ifconfig :: "'d shell \<Rightarrow> 'd shell" where
  "cmd_ifconfig s = emit
     [line ''eth0:'', show_line ''  MAC:     %x:%x:%x:%x:%x:%x'' (map (\<lambda>b. Num (ucast b)) (get_mac (net s))),
      show_line ''  IPv4:    %u.%u.%u.%u'' (ip_octets (get_ip (net s))),
      show_line ''  Gateway: %u.%u.%u.%u'' (ip_octets (get_gateway (net s)))] s"

fun octet_loop :: "u8 \<Rightarrow> u8 list \<Rightarrow> u8 \<times> u8 list" where
  "octet_loop val [] = (val, [])"
| "octet_loop val (c # cs) = (if c \<ge> 48 \<and> c \<le> 57 then octet_loop (val * 10 + (c - 48)) cs else (val, c # cs))"

definition parse_ip_octet :: "u8 list \<Rightarrow> u8 \<times> u8 list" where
  "parse_ip_octet s =
     (let (val, s) = octet_loop 0 s in (val, case s of c # cs \<Rightarrow> if c = 46 then cs else c # cs | [] \<Rightarrow> []))"

definition parse_ip :: "u8 list \<Rightarrow> u8 list" where
  "parse_ip s =
     (let (a, s) = parse_ip_octet s; (b, s) = parse_ip_octet s; (c, s) = parse_ip_octet s; (d, s) = parse_ip_octet s
      in [a, b, c, d])"

fun ping_wait :: "nic \<Rightarrow> nat \<Rightarrow> nat \<Rightarrow> u64 \<Rightarrow> dhcpc \<Rightarrow> dhcpc outcome" where
  "ping_wait dev n 0 start s = Inl Out_of_fuel"
| "ping_wait dev n (Suc k) start s =
     (if get_ticks_net dev s - start < 200 then and_then (net_poll dev n s) (ping_wait dev n k start) else Inr s)"

definition echo_request :: "nat \<Rightarrow> u8 list" where
  "echo_request seq =
     (let rest = le_bytes 2 (htons 0x1234) @ le_bytes 2 (htons (of_nat seq));
          checksum = inet_checksum ([ICMP_ECHO_REQUEST, 0] @ le_bytes 2 (0 :: u16) @ rest)
      in [ICMP_ECHO_REQUEST, 0] @ le_bytes 2 checksum @ rest)"

fun ping_rounds :: "'d env \<Rightarrow> ipv4 \<Rightarrow> nat list \<Rightarrow> 'd shell \<Rightarrow> 'd result" where
  "ping_rounds env dst [] s = Inr s"
| "ping_rounds env dst (seq # seqs) s =
     (let dev = wire_below env; start_tick = get_ticks_net dev (net s)
      in from_net (send_ip dev (net_poll dev (poll_fuel env)) dst IP_PROTO_ICMP (echo_request seq) (net s)) (\<lambda>(n, _).
           from_net (ping_wait dev (poll_fuel env) (wait_fuel env) start_tick n) (\<lambda>n.
             ping_rounds env dst seqs
               (emit [show_line ''  seq=%u: sent (reply check not implemented yet)'' [Num (of_nat seq)]] (set_net n s)))))"

definition cmd_ping :: "'d env \<Rightarrow> u8 list option \<Rightarrow> 'd shell \<Rightarrow> 'd result" where
  "cmd_ping env target s =
     (case target of
        None \<Rightarrow> Inr (emit [line ''Usage: ping <ip>''] s)
      | Some t \<Rightarrow>
          let o4 = parse_ip t; dst = make_ip (o4 ! 0) (o4 ! 1) (o4 ! 2) (o4 ! 3);
              s = emit [show_line ''PING %u.%u.%u.%u'' (map (\<lambda>b. Num (ucast b)) o4)] s;
              dev = wire_below env; gw = get_gateway (net s);
              hop = (if dst AND gw = get_ip (net s) AND gw then dst else gw)
          in from_net (arp_resolve dev (net_poll dev (poll_fuel env)) hop (net s)) (\<lambda>(n, dst_mac).
               let s = set_net n s
               in if dst_mac = MAC_ZERO then Inr (emit [line ''ARP resolution failed (no network?)''] s)
                  else ping_rounds env dst [0..<4] s))"

definition cmd_nslookup :: "'d env \<Rightarrow> u8 list option \<Rightarrow> 'd shell \<Rightarrow> 'd result" where
  "cmd_nslookup env hostname s =
     (case hostname of
        None \<Rightarrow> Inr (emit [line ''Usage: nslookup <hostname>''] s)
      | Some h \<Rightarrow>
          let s = emit [show_line ''Looking up %s...'' [Str h]] s
          in from_net (dns_resolve (wire_below env) (poll_fuel env) (wait_fuel env) h (net s)) (\<lambda>(n, ip).
               let s = set_net n s
               in if ip = 0 then Inr (emit [show_line ''  Failed to resolve %s'' [Str h]] s)
                  else Inr (emit [show_line ''  %s -> %u.%u.%u.%u'' (Str h # ip_octets ip)] s)))"

section \<open>The command line\<close>

text \<open>
  The command, its argument, and the offset of the argument in the buffer: blanks before and
  between them are skipped, blanks behind the argument are part of it.
\<close>

definition split_command :: "u8 list \<Rightarrow> (u8 list \<times> (nat \<times> u8 list) option) option" where
  "split_command text =
     (let cmd = dropWhile (\<lambda>c. c = 32) text
      in if cmd = [] then None
         else let word = takeWhile (\<lambda>c. c \<noteq> 32) cmd; arg = dropWhile (\<lambda>c. c = 32) (drop (length word) cmd)
              in Some (word, if arg = [] then None else Some (length text - length arg, arg)))"

definition dispatch_command :: "'d env \<Rightarrow> u8 list \<Rightarrow> (nat \<times> u8 list) option \<Rightarrow> 'd shell \<Rightarrow> 'd result" where
  "dispatch_command env cmd arg s =
     (let text = map_option snd arg
      in if cmd = ascii ''help'' then Inr (cmd_help s)
         else if cmd = ascii ''clear'' then Inr (cmd_clear s)
         else if cmd = ascii ''mem'' then cmd_mem s
         else if cmd = ascii ''ps'' then Inr (cmd_ps s)
         else if cmd = ascii ''uptime'' then Inr (cmd_uptime s)
         else if cmd = ascii ''ls'' then cmd_ls env text s
         else if cmd = ascii ''cat'' then cmd_cat env text s
         else if cmd = ascii ''run'' then cmd_run env (map_option (\<lambda>(i, a). (cmd_buf_at env + of_nat i, a)) arg) s
         else if cmd = ascii ''ifconfig'' then Inr (cmd_ifconfig s)
         else if cmd = ascii ''ping'' then cmd_ping env text s
         else if cmd = ascii ''nslookup'' then cmd_nslookup env text s
         else if cmd = ascii ''info'' then Inr (cmd_info s)
         else if cmd = ascii ''reboot'' then cmd_reboot s
         else Inr (emit [Printf (ascii ''Unknown command: %s (type '' @ [39] @ ascii ''help'' @ [39] @ ascii '' for commands)'' @ [10])
                [Str cmd]] s))"

definition store_char :: "nat \<Rightarrow> u8 \<Rightarrow> 'd shell \<Rightarrow> 'd result" where
  "store_char i c s =
     (if i < length (cmd_buf s) then Inr (s\<lparr>cmd_buf := (cmd_buf s)[i := c]\<rparr>) else Inl Overrun_buffer)"

text \<open>The blank behind the command becomes its terminator.\<close>

definition process_command :: "'d env \<Rightarrow> 'd shell \<Rightarrow> 'd result" where
  "process_command env s =
     and_then (store_char (unat (cmd_pos s)) 0 s) (\<lambda>s.
       let text = takeWhile (\<lambda>c. c \<noteq> 0) (cmd_buf s)
       in case split_command text of
            None \<Rightarrow> Inr s
          | Some (cmd, arg) \<Rightarrow>
              let stop = length text - length (dropWhile (\<lambda>c. c = 32) text) + length cmd
              in and_then (if stop < length text then store_char stop 0 s else Inr s) (\<lambda>s.
                   and_then (dispatch_command env cmd arg s) (\<lambda>s.
                     Inr (s\<lparr>sys := (sys s)\<lparr>machine := reap_zombies (machine (sys s))\<rparr>\<rparr>))))"

definition shell_init :: "'d shell \<Rightarrow> 'd shell" where
  "shell_init = emit [line ''  [ok] Shell ready'']"

text \<open>One turn of the loop, for the character \<open>c\<close> that \<open>UART::getc\<close> returned.\<close>

definition shell_key :: "'d env \<Rightarrow> u8 \<Rightarrow> 'd shell \<Rightarrow> 'd result" where
  "shell_key env c s =
     (if c = 13 \<or> c = 10
      then and_then (process_command env (emit [Puts [13, 10]] s)) (\<lambda>s. Inr (print_prompt (s\<lparr>cmd_pos := 0\<rparr>)))
      else if c = 127 \<or> c = 8
      then Inr (if cmd_pos s > 0 then emit [Puts [8, 32, 8]] (s\<lparr>cmd_pos := cmd_pos s - 1\<rparr>) else s)
      else if c = 3
      then Inr (print_prompt ((emit [Puts [94, 67, 13, 10]] s)\<lparr>cmd_pos := 0\<rparr>))
      else if c \<ge> 32 \<and> cmd_pos s < of_nat CMD_BUF_SIZE - 1
      then and_then (store_char (unat (cmd_pos s)) c s) (\<lambda>s. Inr (emit [Putc c] (s\<lparr>cmd_pos := cmd_pos s + 1\<rparr>)))
      else Inr s)"

fun shell_keys :: "'d env \<Rightarrow> u8 list \<Rightarrow> 'd shell \<Rightarrow> 'd result" where
  "shell_keys env [] s = Inr s"
| "shell_keys env (c # cs) s = and_then (shell_key env c s) (shell_keys env cs)"

definition shell_run :: "'d env \<Rightarrow> u8 list \<Rightarrow> 'd shell \<Rightarrow> 'd result" where
  "shell_run env keys s =
     shell_keys env keys (print_prompt (emit [Puts ([10] @ ascii ''Type '' @ [39] @ ascii ''help'' @ [39] @
       ascii '' for available commands.'' @ [10, 10])] s))"

end
