(* ===== verification/Shell_Props.thy ===== *)
theory Shell_Props
  imports Shell Fat32_Props
begin

text \<open>
  The shell's command buffer is never overrun, whatever is typed, and a line edited at the
  console with the backspace and interrupt keys runs as the command it shows.
\<close>

section \<open>Commands leave the command buffer alone\<close>

definition calm :: "'d shell \<Rightarrow> 'd result \<Rightarrow> bool" where
  "calm s r \<longleftrightarrow> (case r of Inl e \<Rightarrow> e \<noteq> Overrun_buffer | Inr s' \<Rightarrow>
     cmd_buf s' = cmd_buf s \<and> cmd_pos s' = cmd_pos s \<and> user_exit_code s' = user_exit_code s)"

lemma emit_simps [simp]:
  "sys (emit ps s) = sys s" "cmd_buf (emit ps s) = cmd_buf s" "cmd_pos (emit ps s) = cmd_pos s"
  "out (emit ps s) = out s @ ps" "user_exit_code (emit ps s) = user_exit_code s"
  by (simp_all add: emit_def)

lemma set_net_simps [simp]: "cmd_buf (set_net n s) = cmd_buf s" "cmd_pos (set_net n s) = cmd_pos s"
  "user_exit_code (set_net n s) = user_exit_code s"
  by (simp_all add: set_net_def)

lemma print_prompt_simps [simp]:
  "sys (print_prompt s) = sys s" "cmd_buf (print_prompt s) = cmd_buf s" "cmd_pos (print_prompt s) = cmd_pos s"
  "user_exit_code (print_prompt s) = user_exit_code s"
  by (simp_all add: print_prompt_def)

lemma calm_Inr [simp]: "calm s (Inr s') \<longleftrightarrow>
    cmd_buf s' = cmd_buf s \<and> cmd_pos s' = cmd_pos s \<and> user_exit_code s' = user_exit_code s"
  by (simp add: calm_def)

lemma calm_wait_for: "(\<And>x. r = Some x \<Longrightarrow> calm s (f x)) \<Longrightarrow> calm s (wait_for r f)"
  by (cases r) (simp_all add: calm_def)

lemma calm_from_net: "(\<And>x. calm s (f x)) \<Longrightarrow> calm s (from_net r f)"
  by (cases r) (simp_all add: calm_def)

lemma calm_ping_rounds:
  assumes "cmd_buf s = cmd_buf s0" and "cmd_pos s = cmd_pos s0" and "user_exit_code s = user_exit_code s0"
  shows "calm s0 (ping_rounds env dst seqs s)"
  using assms
proof (induction env dst seqs s rule: ping_rounds.induct)
  case (1 env dst s)
  then show ?case by (simp add: calm_def)
next
  case (2 env dst seq seqs s)
  show ?case
    unfolding ping_rounds.simps Let_def
    by (rule calm_from_net, clarsimp, rule calm_from_net, rule "2.IH") (simp_all add: "2.prems")
qed

lemma calm_cmd_ls: "calm s (cmd_ls env a s)"
  unfolding cmd_ls_def Let_def by (rule calm_wait_for) auto

lemma calm_cmd_cat: "calm s (cmd_cat env a s)"
  unfolding cmd_cat_def Let_def
  by (auto split: option.splits prod.splits intro!: calm_wait_for)

lemma calm_cmd_run: "calm s (cmd_run env a s)"
  unfolding cmd_run_def Let_def
  by (auto split: option.splits prod.splits intro!: calm_wait_for)

lemma calm_cmd_ping: "calm s (cmd_ping env a s)"
  unfolding cmd_ping_def Let_def
  by (auto split: option.splits prod.splits intro!: calm_from_net calm_ping_rounds)

lemma calm_cmd_nslookup: "calm s (cmd_nslookup env a s)"
  unfolding cmd_nslookup_def Let_def
  by (auto split: option.splits prod.splits intro!: calm_from_net)

lemma calm_cmd_mem: "calm s (cmd_mem s)"
  unfolding cmd_mem_def Let_def by (auto intro!: calm_wait_for)

lemma calm_cmd_reboot: "calm s (cmd_reboot s)"
  by (simp add: calm_def cmd_reboot_def)

lemma calm_dispatch: "calm s (dispatch_command env cmd a s)"
  unfolding dispatch_command_def Let_def
  by (simp add: calm_cmd_ls calm_cmd_cat calm_cmd_run calm_cmd_ping calm_cmd_nslookup calm_cmd_mem
      cmd_help_def cmd_clear_def cmd_ps_def cmd_uptime_def Let_def cmd_info_def cmd_ifconfig_def
      calm_cmd_reboot)

section \<open>The buffer invariant\<close>

text \<open>
  The buffer has its 256 bytes, the position leaves room for the terminator, and the bytes
  in front of it are not control characters.
\<close>

definition shell_ok :: "'d shell \<Rightarrow> bool" where
  "shell_ok s \<longleftrightarrow> length (cmd_buf s) = CMD_BUF_SIZE \<and> unat (cmd_pos s) < CMD_BUF_SIZE \<and>
     (\<forall>c \<in> set (take (unat (cmd_pos s)) (cmd_buf s)). 32 \<le> c)"

fun keeps_shell :: "'d result \<Rightarrow> bool" where
  "keeps_shell (Inl e) = (e \<noteq> Overrun_buffer)"
| "keeps_shell (Inr s) = shell_ok s"

lemma process_command_room:
  assumes "length (cmd_buf s) = CMD_BUF_SIZE" and "unat (cmd_pos s) < CMD_BUF_SIZE"
  shows "case process_command env s of Inl e \<Rightarrow> e \<noteq> Overrun_buffer | Inr s' \<Rightarrow> length (cmd_buf s') = CMD_BUF_SIZE"
proof -
  define s1 where "s1 = s\<lparr>cmd_buf := (cmd_buf s)[unat (cmd_pos s) := 0]\<rparr>"
  have st: "store_char (unat (cmd_pos s)) 0 s = Inr s1" and l1: "length (cmd_buf s1) = CMD_BUF_SIZE"
    using assms by (simp_all add: store_char_def s1_def)
  define tx where "tx = takeWhile (\<lambda>c. c \<noteq> 0) (cmd_buf s1)"
  have lt: "length tx \<le> CMD_BUF_SIZE" using l1 length_takeWhile_le [of _ "cmd_buf s1"] by (simp add: tx_def)
  have d: "case and_then (dispatch_command env cmd arg s2) (\<lambda>s. Inr (s\<lparr>sys := (sys s)\<lparr>machine := reap_zombies (machine (sys s))\<rparr>\<rparr>)) of
      Inl e \<Rightarrow> e \<noteq> Overrun_buffer | Inr s' \<Rightarrow> length (cmd_buf s') = CMD_BUF_SIZE"
    if "length (cmd_buf s2) = CMD_BUF_SIZE" for cmd arg s2
    using calm_dispatch [of s2 env cmd arg] that
    by (cases "dispatch_command env cmd arg s2") (simp_all add: calm_def)
  have w: "\<exists>s2. (if i < length tx then store_char i 0 s1 else Inr s1) = Inr s2 \<and> length (cmd_buf s2) = CMD_BUF_SIZE" for i
    using l1 lt by (simp add: store_char_def)
  show ?thesis
  proof (cases "split_command tx")
    case None
    then show ?thesis using st l1 by (simp add: process_command_def tx_def [symmetric] Let_def)
  next
    case (Some p)
    obtain cmd arg where p: "p = (cmd, arg)" by (cases p)
    from w [of "length tx - length (dropWhile (\<lambda>c. c = 32) tx) + length cmd"] obtain s2
      where s2: "(if length tx - length (dropWhile (\<lambda>c. c = 32) tx) + length cmd < length tx
          then store_char (length tx - length (dropWhile (\<lambda>c. c = 32) tx) + length cmd) 0 s1 else Inr s1) = Inr s2"
        and l2: "length (cmd_buf s2) = CMD_BUF_SIZE" by blast
    have "process_command env s = and_then (dispatch_command env cmd arg s2)
        (\<lambda>s. Inr (s\<lparr>sys := (sys s)\<lparr>machine := reap_zombies (machine (sys s))\<rparr>\<rparr>))"
      unfolding process_command_def st and_then.simps Let_def tx_def [symmetric] Some p option.case prod.case s2 ..
    then show ?thesis using d [OF l2] by simp
  qed
qed

lemma shell_key_keeps:
  assumes ok: "shell_ok s"
  shows "keeps_shell (shell_key env c s)"
proof -
  have l: "length (cmd_buf s) = CMD_BUF_SIZE" and b: "unat (cmd_pos s) < CMD_BUF_SIZE"
    using ok by (simp_all add: shell_ok_def)
  consider (enter) "c = 13 \<or> c = 10" | (del) "c = 127 \<or> c = 8" | (ctrl_c) "c = 3"
    | (char) "c \<ge> 32" "c \<noteq> 127" "cmd_pos s < of_nat CMD_BUF_SIZE - 1"
    | (other) "c \<notin> {13, 10, 127, 8, 3}" "\<not> (c \<ge> 32 \<and> cmd_pos s < of_nat CMD_BUF_SIZE - 1)" by auto
  then show ?thesis
  proof cases
    case enter
    show ?thesis using process_command_room [of "emit [Puts [13, 10]] s" env] l b enter
      by (cases "process_command env (emit [Puts [13, 10]] s)")
        (auto simp: shell_key_def shell_ok_def CMD_BUF_SIZE_def)
  next
    case del
    have "unat (cmd_pos s - 1) \<le> unat (cmd_pos s)" if "cmd_pos s > 0"
      using that by (metis le_less measure_unat word_greater_zero_iff)
    then have "set (take (unat (cmd_pos s - 1)) (cmd_buf s)) \<subseteq> set (take (unat (cmd_pos s)) (cmd_buf s))" if "cmd_pos s > 0"
      using that by (simp add: set_take_subset_set_take)
    moreover have "unat (cmd_pos s - 1) < CMD_BUF_SIZE" if "cmd_pos s > 0"
      using b that by (metis less_trans measure_unat word_greater_zero_iff)
    ultimately show ?thesis using ok del by (auto simp: shell_key_def shell_ok_def)
  next
    case ctrl_c
    then show ?thesis using l by (simp add: shell_key_def shell_ok_def CMD_BUF_SIZE_def)
  next
    case char
    have p: "unat (cmd_pos s) < 255" using char(3) by (simp add: CMD_BUF_SIZE_def word_less_nat_alt)
    then have u: "unat (cmd_pos s + 1) = Suc (unat (cmd_pos s))"
      by (subst unat_add_lem [THEN iffD1]) simp_all
    have "take (Suc (unat (cmd_pos s))) ((cmd_buf s)[unat (cmd_pos s) := c]) = take (unat (cmd_pos s)) (cmd_buf s) @ [c]"
      using b l by (simp add: take_Suc_conv_app_nth)
    moreover have "c \<noteq> 13" "c \<noteq> 10" "c \<noteq> 8" "c \<noteq> 3" using char(1) by auto
    ultimately show ?thesis using char ok b p u
      by (auto simp: shell_key_def shell_ok_def store_char_def CMD_BUF_SIZE_def)
  next
    case other
    then show ?thesis using ok by (auto simp: shell_key_def)
  qed
qed

lemma shell_keys_keeps: "shell_ok s \<Longrightarrow> keeps_shell (shell_keys env keys s)"
proof (induction keys arbitrary: s)
  case (Cons c cs)
  then show ?case using shell_key_keeps [OF Cons.prems, of env c] by (cases "shell_key env c s") auto
qed simp

section \<open>Editing the line\<close>

text \<open>What a key other than return does to the line being typed.\<close>

definition edit :: "u8 \<Rightarrow> u8 list \<Rightarrow> u8 list" where
  "edit c l =
     (if c = 127 \<or> c = 8 then butlast l
      else if c = 3 then []
      else if 32 \<le> c \<and> length l < 255 then l @ [c]
      else l)"

definition typed :: "'d shell \<Rightarrow> u8 list" where
  "typed s = take (unat (cmd_pos s)) (cmd_buf s)"

lemma length_typed: "shell_ok s \<Longrightarrow> length (typed s) = unat (cmd_pos s)"
  by (simp add: shell_ok_def typed_def)

lemma shell_key_edit:
  assumes ok: "shell_ok s" and c: "c \<noteq> 13" "c \<noteq> 10"
  shows "\<exists>t. shell_key env c s = Inr t \<and> sys t = sys s \<and> typed t = edit c (typed s)"
proof -
  have l: "length (cmd_buf s) = CMD_BUF_SIZE" and b: "unat (cmd_pos s) < CMD_BUF_SIZE"
    using ok by (simp_all add: shell_ok_def)
  consider (del) "c = 127 \<or> c = 8" | (ctrl_c) "c = 3"
    | (char) "c \<ge> 32" "c \<noteq> 127" "cmd_pos s < of_nat CMD_BUF_SIZE - 1"
    | (other) "c \<notin> {127, 8, 3}" "\<not> (c \<ge> 32 \<and> cmd_pos s < of_nat CMD_BUF_SIZE - 1)" by auto
  then show ?thesis
  proof cases
    case del
    show ?thesis
    proof (cases "cmd_pos s = 0")
      case True
      then show ?thesis using c del by (auto simp: shell_key_def typed_def edit_def)
    next
      case False
      then have "unat (cmd_pos s - 1) = unat (cmd_pos s) - 1" by (metis unat_minus_one)
      then show ?thesis using c del False b l
        by (auto simp: shell_key_def typed_def edit_def butlast_take word_neq_0_conv)
    qed
  next
    case ctrl_c
    then show ?thesis by (simp add: shell_key_def typed_def edit_def)
  next
    case char
    have p: "unat (cmd_pos s) < 255" using char(3) by (simp add: CMD_BUF_SIZE_def word_less_nat_alt)
    then have u: "unat (cmd_pos s + 1) = Suc (unat (cmd_pos s))"
      by (subst unat_add_lem [THEN iffD1]) simp_all
    have "take (Suc (unat (cmd_pos s))) ((cmd_buf s)[unat (cmd_pos s) := c]) = typed s @ [c]"
      using b l by (simp add: take_Suc_conv_app_nth typed_def)
    moreover have "c \<noteq> 8" "c \<noteq> 3" using char(1) by auto
    ultimately show ?thesis using char c b l p u length_typed [OF ok]
      by (simp add: shell_key_def store_char_def edit_def typed_def [of "_\<lparr>cmd_pos := _\<rparr>"] typed_def [of "emit _ _"])
  next
    case other
    then have "\<not> (32 \<le> c \<and> length (typed s) < 255)"
      using length_typed [OF ok] by (simp add: CMD_BUF_SIZE_def word_less_nat_alt)
    then show ?thesis using other c by (auto simp: shell_key_def edit_def)
  qed
qed

lemma shell_keys_edit:
  assumes "shell_ok s" and "13 \<notin> set keys" "10 \<notin> set keys"
  shows "\<exists>t. shell_keys env keys s = Inr t \<and> shell_ok t \<and> sys t = sys s \<and> typed t = fold edit keys (typed s)"
  using assms
proof (induction keys arbitrary: s)
  case (Cons c cs)
  from shell_key_edit [OF Cons.prems(1), of c env] Cons.prems obtain t
    where t: "shell_key env c s = Inr t" "sys t = sys s" "typed t = edit c (typed s)" by auto
  have "shell_ok t" using shell_key_keeps [OF Cons.prems(1), of env c] t(1) by simp
  from Cons.IH [OF this] Cons.prems t show ?case by auto
qed simp

lemma shell_keys_append: "shell_keys env (xs @ ys) s = and_then (shell_keys env xs s) (shell_keys env ys)"
proof (induction xs arbitrary: s)
  case (Cons c xs)
  then show ?case by (cases "shell_key env c s") simp_all
qed simp

section \<open>Running the line\<close>

lemma drop_blanks: "xs \<noteq> [] \<Longrightarrow> hd xs \<noteq> 32 \<Longrightarrow> dropWhile (\<lambda>c. c = 32) (replicate a 32 @ xs) = (xs :: u8 list)"
  by (induction a) (simp_all add: dropWhile_eq_self_iff)

lemma split_command_words:
  assumes "w \<noteq> []" "32 \<notin> set w" "arg \<noteq> []" "hd arg \<noteq> 32"
  shows "split_command (replicate a 32 @ w @ replicate (Suc b) 32 @ arg) = Some (w, Some (a + length w + Suc b, arg))"
proof -
  have 1: "dropWhile (\<lambda>c. c = 32) (replicate a 32 @ w @ replicate (Suc b) 32 @ arg) = w @ replicate (Suc b) 32 @ arg"
    by (rule drop_blanks) (use assms(1, 2) in \<open>cases w; auto\<close>)+
  have 2: "takeWhile (\<lambda>c. c \<noteq> 32) (w @ replicate (Suc b) 32 @ arg) = w"
    using assms(2) by (subst takeWhile_append2) auto
  have 3: "dropWhile (\<lambda>c. c = 32) (replicate (Suc b) 32 @ arg) = arg"
    using assms(3, 4) by (rule drop_blanks)
  show ?thesis unfolding split_command_def 1 Let_def 2 using 3 assms(1, 3) by simp
qed

lemma split_command_word:
  assumes "w \<noteq> []" "32 \<notin> set w"
  shows "split_command (replicate a 32 @ w @ replicate b 32) = Some (w, None)"
proof -
  have 1: "dropWhile (\<lambda>c. c = 32) (replicate a 32 @ w @ replicate b 32) = w @ replicate b 32"
    by (rule drop_blanks) (use assms in \<open>cases w; auto\<close>)+
  have 2: "takeWhile (\<lambda>c. c \<noteq> 32) (w @ replicate b 32) = w"
    using assms(2) by (cases b) (auto simp: takeWhile_append)
  show ?thesis unfolding split_command_def 1 Let_def 2 using assms(1) by (simp add: dropWhile_replicate)
qed

text \<open>What follows a command: finished processes are reaped and the shell prompts again.\<close>

definition prompt_again :: "'d shell \<Rightarrow> 'd result" where
  "prompt_again s = Inr (print_prompt (s\<lparr>sys := (sys s)\<lparr>machine := reap_zombies (machine (sys s))\<rparr>, cmd_pos := 0\<rparr>))"

lemma takeWhile_terminated:
  assumes "n < length xs" "0 \<notin> set (take n xs)"
  shows "takeWhile (\<lambda>c. c \<noteq> 0) (xs[n := 0]) = take n (xs :: u8 list)"
proof -
  have e: "xs[n := 0] = take n xs @ 0 # drop (Suc n) xs" using assms(1) by (simp add: upd_conv_take_nth_drop)
  show ?thesis unfolding e using assms(2) by (subst takeWhile_append2) auto
qed

lemma shell_enter:
  assumes ok: "shell_ok s" and sp: "split_command (typed s) = Some (cmd, arg)"
  shows "\<exists>t. sys t = sys s \<and> shell_key env 13 s = and_then (dispatch_command env cmd arg t) prompt_again"
proof -
  let ?s = "emit [Puts [13, 10]] s" and ?n = "unat (cmd_pos s)"
  have l: "length (cmd_buf s) = CMD_BUF_SIZE" and b: "?n < CMD_BUF_SIZE" using ok by (simp_all add: shell_ok_def)
  have "0 \<notin> set (take ?n (cmd_buf s))" using ok by (auto simp: shell_ok_def)
  then have tx: "takeWhile (\<lambda>c. c \<noteq> 0) ((cmd_buf s)[?n := 0]) = typed s"
    using takeWhile_terminated [of ?n "cmd_buf s"] l b by (simp add: typed_def)
  have cb: "cmd_buf (?s\<lparr>cmd_buf := (cmd_buf s)[?n := 0]\<rparr>) = (cmd_buf s)[?n := 0]" by simp
  have st: "store_char (unat (cmd_pos ?s)) 0 ?s = Inr (?s\<lparr>cmd_buf := (cmd_buf s)[?n := 0]\<rparr>)"
    using l b by (simp add: store_char_def)
  have "length (typed s) \<le> CMD_BUF_SIZE" using length_typed [OF ok] b by simp
  then have w: "\<exists>t. sys t = sys s \<and> (if i < length (typed s) then store_char i 0 (?s\<lparr>cmd_buf := (cmd_buf s)[?n := 0]\<rparr>)
      else Inr (?s\<lparr>cmd_buf := (cmd_buf s)[?n := 0]\<rparr>)) = Inr t" for i
    using l by (simp add: store_char_def)
  let ?stop = "length (typed s) - length (dropWhile (\<lambda>c. c = 32) (typed s)) + length cmd"
  obtain t where t: "sys t = sys s" "(if ?stop < length (typed s) then store_char ?stop 0 (?s\<lparr>cmd_buf := (cmd_buf s)[?n := 0]\<rparr>)
      else Inr (?s\<lparr>cmd_buf := (cmd_buf s)[?n := 0]\<rparr>)) = Inr t" using w by blast
  have "process_command env ?s = and_then (dispatch_command env cmd arg t)
      (\<lambda>s. Inr (s\<lparr>sys := (sys s)\<lparr>machine := reap_zombies (machine (sys s))\<rparr>\<rparr>))"
    unfolding process_command_def st and_then.simps Let_def cb tx sp option.case prod.case t(2) ..
  then have "shell_key env 13 s = and_then (dispatch_command env cmd arg t) prompt_again"
    by (cases "dispatch_command env cmd arg t") (simp_all add: shell_key_def prompt_again_def)
  with t(1) show ?thesis by blast
qed

section \<open>The exit code\<close>

lemma store_char_exit: "store_char i c s = Inr t \<Longrightarrow> user_exit_code t = user_exit_code s"
  by (auto simp: store_char_def split: if_splits)

lemma store_if_exit: "(if b then store_char i c s else Inr s) = Inr t \<Longrightarrow> user_exit_code t = user_exit_code s"
  by (auto dest: store_char_exit split: if_splits)

lemma and_then_Inr: "and_then r f = Inr t \<longleftrightarrow> (\<exists>x. r = Inr x \<and> f x = Inr t)"
  by (cases r) simp_all

lemma dispatch_exit: "dispatch_command env cmd arg s = Inr t \<Longrightarrow> user_exit_code t = user_exit_code s"
  using calm_dispatch [of s env cmd arg] by simp

lemma process_command_exit: "process_command env s = Inr t \<Longrightarrow> user_exit_code t = user_exit_code s"
  unfolding process_command_def Let_def and_then_Inr
  by (auto split: option.splits simp: and_then_Inr split_beta dest!: store_char_exit store_if_exit dispatch_exit)

lemma shell_key_exit: "shell_key env c s = Inr t \<Longrightarrow> user_exit_code t = user_exit_code s"
  unfolding shell_key_def
  by (auto split: if_splits simp: and_then_Inr dest!: process_command_exit store_char_exit)

text \<open>
  No command and no program that is run changes the exit code the shell reports: what it
  prints for every program that ends is the value the kernel started with.
\<close>

lemma exit_code_unchanged: "shell_keys env keys s = Inr t \<Longrightarrow> user_exit_code t = user_exit_code s"
proof (induction keys arbitrary: s)
  case (Cons c cs)
  then show ?case by (auto simp: and_then_Inr dest!: shell_key_exit)
qed simp

section \<open>Addresses\<close>

text \<open>An octet is read modulo 256: \<open>ping 256.0.0.1\<close> looks for 0.0.0.1.\<close>

lemma octet_loop_digits:
  "(\<forall>c \<in> set ds. 48 \<le> c \<and> c \<le> 57) \<Longrightarrow> rest = [] \<or> hd rest < 48 \<or> 57 < hd rest \<Longrightarrow>
    octet_loop v (ds @ rest) = (foldl (\<lambda>v c. v * 10 + (c - 48)) v ds, rest)"
proof (induction ds arbitrary: v)
  case Nil
  then show ?case by (cases rest) auto
qed auto

lemma parse_ip_wraps: "parse_ip (ascii ''256.0.0.1'') = [0, 0, 0, 1]"
  by code_simp

section \<open>Properties\<close>

definition first_shell :: "disk shell" where
  "first_shell = \<lparr>sys = volume, cmd_buf = replicate CMD_BUF_SIZE 0, cmd_pos = 0, user_process_exited = False,
     user_exit_code = 0, out = []\<rparr>"

definition quiet_env :: "disk env" where
  "quiet_env = \<lparr>sector_reader = drv_read idle_device (disk_dma (virtio_slot 0)), printer_below = (\<lambda>_ _ m. Some m),
     wire_below = quiet_nic, poll_fuel = 100, wait_fuel = 100, kernel_table = 0x40001000, cmd_buf_at = 0x40090000,
     user_run = (\<lambda>_ _ _ m. Some m)\<rparr>"

text \<open>
  C11: whatever is typed, the shell never writes outside its command buffer.  From its start,
  where the buffer is empty, every sequence of keys leaves the 256 bytes in place with the
  position at most 255, an index of the buffer where the terminator still fits, and with only
  characters from the blank upwards in front of it.  The keys may run any commands in between;
  these use the buffer by its name only, as it is a field of the state of the shell: stray
  stores of a command or a program into the kernel's own data are not part of the claim.
\<close>

theorem shell_buffer_safe:
  assumes "length (cmd_buf s) = CMD_BUF_SIZE" and "cmd_pos s = 0"
  shows "case shell_run env keys s of
      Inl e \<Rightarrow> e \<noteq> Overrun_buffer
    | Inr t \<Rightarrow> length (cmd_buf t) = CMD_BUF_SIZE \<and> unat (cmd_pos t) < CMD_BUF_SIZE \<and>
        (\<forall>i < unat (cmd_pos t). 32 \<le> cmd_buf t ! i)"
proof -
  let ?s = "print_prompt (emit [Puts ([10] @ ascii ''Type '' @ [39] @ ascii ''help'' @ [39] @
       ascii '' for available commands.'' @ [10, 10])] s)"
  have "shell_ok ?s" using assms by (simp add: shell_ok_def CMD_BUF_SIZE_def)
  from shell_keys_keeps [OF this, of env keys] show ?thesis
    unfolding shell_run_def
    by (cases "shell_keys env keys ?s") (auto simp: shell_ok_def all_set_conv_all_nth)
qed

theorem shell_buffer_safe_witness:
  "length (cmd_buf first_shell) = CMD_BUF_SIZE \<and> cmd_pos first_shell = 0 \<and>
   (case shell_run quiet_env (replicate 400 120 @ [8, 3] @ ascii ''ls'' @ [13]) first_shell of
      Inl e \<Rightarrow> e \<noteq> Overrun_buffer
    | Inr t \<Rightarrow> length (cmd_buf t) = CMD_BUF_SIZE \<and> unat (cmd_pos t) < CMD_BUF_SIZE \<and>
        (\<forall>i < unat (cmd_pos t). 32 \<le> cmd_buf t ! i))"
  using shell_buffer_safe [of first_shell quiet_env "replicate 400 120 @ [8, 3] @ ascii ''ls'' @ [13]"]
  by (simp add: first_shell_def)

text \<open>
  C23: the line that is typed is the command that runs.  The keys in front of a return are
  edited as a list of at most 255 characters, on which backspace and delete take the last one
  away, the interrupt key clears it, and other control characters and characters without room
  do nothing.  When the line so edited is a word and an argument, with any blanks in front of
  and between them, the return runs the command of that word with that argument on the system
  as it was, then reaps the finished processes and prompts again.
\<close>

theorem typed_command_runs:
  assumes "length (cmd_buf s) = CMD_BUF_SIZE" and "cmd_pos s = 0"
    and "13 \<notin> set keys" and "10 \<notin> set keys"
    and line: "fold edit keys [] = replicate a 32 @ w @ replicate (Suc b) 32 @ arg"
    and w: "w \<noteq> []" "32 \<notin> set w" and arg: "arg \<noteq> []" "hd arg \<noteq> 32"
  shows "\<exists>t. sys t = sys s \<and>
    shell_keys env (keys @ [13]) s = and_then (dispatch_command env w (Some (a + length w + Suc b, arg)) t) prompt_again"
proof -
  have "shell_ok s" and "typed s = []" using assms(1, 2) by (simp_all add: shell_ok_def CMD_BUF_SIZE_def typed_def)
  with shell_keys_edit [of s keys env] assms(3, 4) line obtain t
    where t: "shell_keys env keys s = Inr t" "shell_ok t" "sys t = sys s"
      "typed t = replicate a 32 @ w @ replicate (Suc b) 32 @ arg" by auto
  from shell_enter [OF t(2), of w "Some (a + length w + Suc b, arg)" env] split_command_words [OF w arg, of a b] t(4)
  obtain u where "sys u = sys t"
    "shell_key env 13 t = and_then (dispatch_command env w (Some (a + length w + Suc b, arg)) u) prompt_again" by metis
  moreover have "shell_keys env (keys @ [13]) s = shell_key env 13 t"
    using t(1) by (cases "shell_key env 13 t") (simp_all add: shell_keys_append)
  ultimately show ?thesis using t(3) by metis
qed

theorem typed_command_runs_witness:
  "\<exists>t. sys t = volume \<and>
    shell_keys quiet_env ((ascii ''xy'' @ [3] @ ascii ''cap'' @ [8] @ ascii ''t a.txt'') @ [13]) first_shell =
      and_then (dispatch_command quiet_env (ascii ''cat'') (Some (4, ascii ''a.txt'')) t) prompt_again"
proof -
  let ?keys = "ascii ''xy'' @ [3] @ ascii ''cap'' @ [8] @ ascii ''t a.txt''"
  have k: "13 \<notin> set ?keys" "10 \<notin> set ?keys" by code_simp+
  have e: "fold edit ?keys [] = replicate 0 32 @ ascii ''cat'' @ replicate (Suc 0) 32 @ ascii ''a.txt''" by code_simp
  have w: "ascii ''cat'' \<noteq> []" "32 \<notin> set (ascii ''cat'')" "ascii ''a.txt'' \<noteq> []" "hd (ascii ''a.txt'') \<noteq> 32"
    by code_simp+
  have n: "0 + length (ascii ''cat'') + Suc 0 = 4" by (simp add: ascii_def)
  have s: "length (cmd_buf first_shell) = CMD_BUF_SIZE" "cmd_pos first_shell = 0" "sys first_shell = volume"
    by (simp_all add: first_shell_def)
  show ?thesis using typed_command_runs [OF s(1, 2) k e w, of quiet_env] unfolding n s(3) .
qed

end
