(* ===== verification/Spec2Isabelle.thy ===== *)
theory Spec2Isabelle
  imports Process_Props Interrupts Vectors Tcp_Stream Dhcp Syscall_Props Blk_Props Fat32_Props Elf_Props User_Mode Boot Shell_Props
begin

text \<open>
  A verification of the hackers-os kernel, an operating system for one AArch64 processor
  written in C++17 and assembly (sources under src/src/).  This header says which theory
  models which part of the sources, what the theorems show, which bounds are used, and what
  is left out.

  \<^bold>\<open>Parts of the program and how they interact.\<close>  At boot \<open>kernel_main\<close> (kernel/kernel.cpp) sets up
  the console, interrupts, memory, processes, system calls, the timer, the disk with its file
  system, the network, and enters the shell.  Memory is handed out in pages (mm/pages.cpp);
  page tables (mm/mmu.cpp), the kernel heap (mm/heap.cpp), kernel and user stacks and the rings
  of the device drivers are made of such pages.  Processes (process/) run on kernel stacks and are
  switched by the scheduler; they enter the kernel through the exception vectors (boot/vectors.S),
  which save all registers and call the system-call layer (syscall/, compat/) or the interrupt
  dispatch (interrupts/, timer/).  Sockets (net/socket.cpp) use TCP (net/tcp.cpp) and the IP layer
  (net/net.cpp), which use the network driver; DNS and DHCP are clients of that stack.  Files
  (fs/fat32.cpp) are read and written sector by sector through the block driver
  (drivers/virtio_blk.cpp), and the program loader (elf/elf.cpp) combines files, heap, pages, page
  tables and processes.

  \<^bold>\<open>State.\<close>  Memory is a function from 64-bit addresses to bytes (\<open>ram\<close>), shared by all parts, so
  that aliasing and overlap are visible.  The statics of the translation units are records that
  extend each other in the order in which the parts build on each other: \<open>mm\<close> (pages), \<open>cpu\<close>
  (system registers and the log of device accesses), \<open>heap\<close>, \<open>procs\<close>, \<open>irqs\<close>, \<open>compat\<close> (system
  calls; it holds the network state \<open>dhcpc\<close>, itself a tower \<open>iface\<close>, \<open>net\<close>, \<open>tcp\<close>, \<open>socks\<close>, \<open>resolv\<close>),
  \<open>blk\<close> (block driver); \<open>fat\<close> holds the machine below it as a field.  Operations are polymorphic in
  the extension, so that an operation of a lower part applies to every later state.  Integers are
  words of the width the source gives them and wrap as they do there.  Pointers are addresses;
  a pointer into a static table is the index.

  \<^bold>\<open>Not under src/: parameters.\<close>  What devices answer is the parameter \<open>device\<close> (the value of a
  register read after a history of accesses); what a DMA device does to memory is \<open>dma\<close>; the wire
  is \<open>nic\<close>; the code at a function pointer is \<open>call\<close>.  Theorems state what they need of them as
  hypotheses or as the laws of a locale: \<open>virtio_disk\<close> is the virtio block protocol, interpreted on
  the reference disk \<open>disk_dma\<close>.

  \<^bold>\<open>Theories.\<close>
  \<^item> Prelude: integer types (kernel/kernel.h), memory, little-endian loads and stores, disjointness
    of address ranges, the collections \<open>ram_simps\<close> and \<open>addr_simps\<close>.
  \<^item> Kstring: lib/string.cpp.  Contract \<open>cstring_ops\<close> of the string functions, interpreted on the
    model; strings are found up to their first NUL, copies and comparisons are exact.
  \<^item> Pages: mm/pages.cpp.  Bitmap and counter agree after any sequence of requests; \<open>alloc_pages\<close> is
    first fit and clears what it returns.  Contract \<open>page_source\<close>.
  \<^item> Arch: arch/aarch64.h, arch/mmio.h.
  \<^item> Heap: mm/heap.cpp at the level of bytes, refined to a list of blocks (\<open>heap_inv\<close>): first fit
    with splitting and coalescing, live regions keep their contents, freeing undoes allocating, and
    when everything is freed the heap is one block again.
    Contract \<open>kernel_heap\<close>.
  \<^item> Mmu: mm/mmu.cpp against \<open>walk\<close>, the translation done by the hardware; the tree of tables stays
    well formed (\<open>pt_wf\<close>) and mapping one page changes the translation of this page only, where no
    block descriptor is in the way.
  \<^item> Address_Space: what the page-table operations leave alone; resident pages.
  \<^item> Process, Scheduling, Process_Props: process/process.cpp, scheduler.cpp, context.S.  Reachable
    states are consistent, scheduling is round robin with bounded waiting, a process gets its
    registers back.
  \<^item> Uart: uart/uart.cpp with the printf family, against the reference \<open>format\<close> of its output.
    Contract \<open>char_sink\<close>.
  \<^item> Interrupts: interrupts/gic.cpp, exception.cpp, timer/timer.cpp, kernel/panic.cpp.  Every
    acknowledged interrupt is completed once.
  \<^item> Vectors: boot/vectors.S as register and memory transfers; entry and return are a round trip.
  \<^item> Packets, Net: net/net.h, net/net.cpp.  Checksums, ARP (contract \<open>bounded_cache\<close>), ICMP echo,
    dispatch; the one way a received frame can overrun a buffer.
  \<^item> Byte_Rings, Tcp, Tcp_Stream: net/tcp.cpp.  Received data is delivered in order and without gaps;
    retransmission is broken.  Contract \<open>byte_queue\<close>.
  \<^item> Sockets, NetStack: net/socket.cpp and the composition of all layers (\<open>sock_service\<close>): every
    sequence of socket calls keeps all tables well formed and returns.
  \<^item> Dns, Dhcp: net/dns.cpp, net/dhcp.cpp, \<open>Net::init\<close>.  Responses are parsed correctly and a lease
    is obtained, provided a reply arrives behind a poll of the stack: one present at the poll is lost.
  \<^item> Syscalls, Syscall_Props: compat/linux_syscalls.cpp, net_syscalls.cpp, syscall/syscall.cpp.  The
    kernel invariant survives every entry from user code whose pointers stay out of the kernel's
    static data.  The code does not check this; as the statics are record fields and not bytes of
    \<open>mem\<close>, an access to their range (\<open>kernel_data\<close>) is the outcome \<open>Kernel_access\<close>, and
    \<open>user_pointer_reaches_kernel\<close> shows that a process can bring it about.
  \<^item> Virtio, Virtio_Blk, Blk_Props: drivers/virtio.h, virtio_blk.cpp and the queue set-up of
    net/virtio_net.cpp.  Start-up establishes the driver invariant; a sector that was written is
    read back.  Contract \<open>block_device\<close>, a sublocale of \<open>virtio_disk\<close>.
  \<^item> Fat32, Fat32_Read, Fat32_Write, Fat32_Grow, Fat32_Props: fs/fat32.cpp over every
    \<open>block_device\<close>.  The on-disk meaning of a volume (chains, directories, paths, files) is a set of
    pure functions; reading computes them, writing changes exactly the chain of the file, mounting
    computes the geometry without wrap-around; creating a file destroys the directory sector,
    deleting one leaves its entry.
  \<^item> Elf, Elf_Props: elf/elf.cpp.  After loading, the hardware walk finds every byte of every
    page-aligned segment that lies under no block descriptor; the first page of an unaligned one is
    lost.
  \<^item> Boot: boot/start.S from reset to the call of \<open>kernel_main\<close>.
  \<^item> User_Mode: process/enter_user.S.  The caller of \<open>enter_usermode\<close> gets its stack and registers
    back, but not its page table.
  \<^item> Shell, Shell_Props: shell/shell.cpp, every command over the models of the parts it calls, with
    the console output as the list of its calls.  The command buffer is never overrun; the line
    that was typed and edited is the command that runs.
  \<^bold>\<open>Loops and bounds.\<close>  Loops over counters are structural or have a termination proof.  Loops that
  may run forever are \<open>partial_function (option)\<close>: the polls of the console and the block driver,
  the string loops, the walks along cluster chains and the page loops; that they return is part of
  the theorems (for chains: that the chain is finite).  The only fuel is that of the network polls,
  where the code itself counts; timeouts in ticks use the sequence of tick readings as a parameter.
  The translated address space is \<open>2\<^sup>3\<^sup>9\<close> bytes, as \<open>MMU::init\<close> configures it; pages are the 65536 of
  the allocator's bitmap.

  \<^bold>\<open>Not modelled.\<close>
  \<^item> The data path of the network driver (net/virtio_net.cpp: init, send, receive): the stack is
    verified over the parameter \<open>nic\<close> instead.
  \<^item> The order of initialisation (kernel/kernel.cpp): each call is modelled in its own theory.
  \<^item> The logo (logo/logo.cpp): console output only.
  \<^item> Caches, barriers and the TLB: memory accesses take effect in program order.
\<close>

end
